(* ===== verification/FqlPrelude.thy ===== *)
theory FqlPrelude
  imports Main "HOL-Library.Word" "HOL-Library.Monad_Syntax"
begin

text \<open>
  Shared vocabulary of the development: the C integer widths, checked block
  memory (\<open>memcpy\<close> and \<open>memmove\<close> inside one allocation), the two result
  types of the code base and the generic lemmas on lists and words that the
  component theories share. Lemmas about block memory are collected in
  \<open>mem_simps\<close>, lemmas about index arithmetic in \<open>idx_simps\<close>.
\<close>

section \<open>Collections and widths\<close>

named_theorems mem_simps \<open>evaluation of checked block memory\<close>
named_theorems idx_simps \<open>index arithmetic on bounded words\<close>

type_synonym u8 = "8 word"
type_synonym u32 = "32 word"
type_synonym u64 = "64 word"
type_synonym i32 = "32 word"
type_synonym i64 = "64 word"

section \<open>Block memory\<close>

text \<open>
  One heap block is a list of cells. Reading or writing outside the block is a
  fault, the value \<open>None\<close>. \<open>mem_write i ys xs\<close> is \<open>memcpy(&xs[i], ys, |ys|)\<close>,
  \<open>mem_move d s n xs\<close> is \<open>memmove(&xs[d], &xs[s], n)\<close>.
\<close>

definition mem_read :: "nat \<Rightarrow> nat \<Rightarrow> 'a list \<Rightarrow> 'a list option" where
  "mem_read i n xs = (if i + n \<le> length xs then Some (take n (drop i xs)) else None)"

definition mem_write :: "nat \<Rightarrow> 'a list \<Rightarrow> 'a list \<Rightarrow> 'a list option" where
  "mem_write i ys xs =
     (if i + length ys \<le> length xs
      then Some (take i xs @ ys @ drop (i + length ys) xs) else None)"

definition mem_move :: "nat \<Rightarrow> nat \<Rightarrow> nat \<Rightarrow> 'a list \<Rightarrow> 'a list option" where
  "mem_move d s n xs = do { ys \<leftarrow> mem_read s n xs; mem_write d ys xs }"

text \<open>
  \<open>realloc\<close> keeps the cells that fit and leaves fresh ones uninitialised.
\<close>

definition mem_realloc :: "nat \<Rightarrow> 'a option list \<Rightarrow> 'a option list" where
  "mem_realloc n xs = take n xs @ replicate (n - length xs) None"

lemma mem_read_in [mem_simps]:
  "i + n \<le> length xs \<Longrightarrow> mem_read i n xs = Some (take n (drop i xs))"
  by (simp add: mem_read_def)

lemma mem_write_in [mem_simps]:
  "i + length ys \<le> length xs \<Longrightarrow>
   mem_write i ys xs = Some (take i xs @ ys @ drop (i + length ys) xs)"
  by (simp add: mem_write_def)

lemma mem_move_in [mem_simps]:
  "s + n \<le> length xs \<Longrightarrow> d + n \<le> length xs \<Longrightarrow>
   mem_move d s n xs = Some (take d xs @ take n (drop s xs) @ drop (d + n) xs)"
  by (simp add: mem_move_def mem_simps)

text \<open>Opening a gap of \<open>|src|\<close> cells at \<open>i\<close> and filling it.\<close>

lemma mem_insert [mem_simps]:
  assumes "i + length src \<le> length xs"
  shows "(mem_move (i + length src) i (length xs - i - length src) xs \<bind> mem_write i src) =
    Some (take i xs @ src @ take (length xs - i - length src) (drop i xs))"
proof -
  have "min i (length xs) = i" using assms by simp
  then show ?thesis using assms by (simp add: mem_simps min_absorb2)
qed

lemma mem_write_length: "mem_write i ys xs = Some zs \<Longrightarrow> length zs = length xs"
  by (auto simp: mem_write_def split: if_splits)

lemma mem_realloc_length [simp]: "length (mem_realloc n xs) = n"
  by (simp add: mem_realloc_def min_def)

lemma take_mem_realloc [simp]: "k \<le> n \<Longrightarrow> k \<le> length xs \<Longrightarrow> take k (mem_realloc n xs) = take k xs"
  by (simp add: mem_realloc_def min_def)

lemma nth_mem_realloc: "k < n \<Longrightarrow> k < length xs \<Longrightarrow> mem_realloc n xs ! k = xs ! k"
  by (simp add: mem_realloc_def nth_append)

text \<open>
  Total correctness of a faultable operation: it returns, and what it returns
  satisfies the postcondition.
\<close>

definition yields :: "'a option \<Rightarrow> ('a \<Rightarrow> bool) \<Rightarrow> bool" where
  "yields r P \<longleftrightarrow> (case r of None \<Rightarrow> False | Some a \<Rightarrow> P a)"

lemma yields_Some [simp]: "yields (Some a) P \<longleftrightarrow> P a"
  by (simp add: yields_def)

lemma yields_None [simp]: "\<not> yields None P"
  by (simp add: yields_def)

lemma yields_bind: "yields (r \<bind> f) P \<longleftrightarrow> yields r (\<lambda>a. yields (f a) P)"
  by (cases r) auto

lemma yields_mono: "yields r P \<Longrightarrow> (\<And>a. P a \<Longrightarrow> Q a) \<Longrightarrow> yields r Q"
  by (cases r) auto

lemma yields_conj: "yields r P \<Longrightarrow> yields r Q \<Longrightarrow> yields r (\<lambda>a. P a \<and> Q a)"
  by (cases r) auto

lemma yields_exists: "yields r P \<longleftrightarrow> (\<exists>a. r = Some a \<and> P a)"
  by (cases r) auto

section \<open>Words\<close>

lemma unat_u32_lt: "unat (x :: u32) < 4294967296"
  using unsigned_less [where 'b = 32 and 'a = nat and w = x] by simp

lemma unat_of_nat_u32 [idx_simps]: "n < 4294967296 \<Longrightarrow> unat (of_nat n :: u32) = n"
  by (simp add: unsigned_of_nat take_bit_nat_eq_self)

lemma unat_of_nat_u64 [idx_simps]: "n < 18446744073709551616 \<Longrightarrow> unat (of_nat n :: u64) = n"
  by (simp add: unsigned_of_nat take_bit_nat_eq_self)

lemma unat_ucast_u64 [idx_simps]: "unat (ucast (x :: u32) :: u64) = unat x"
  by (simp add: unsigned_ucast_eq take_bit_nat_eq_self unat_u32_lt less_trans [OF unat_u32_lt])

lemma unat_ucast_u32 [idx_simps]: "unat (ucast (x :: u64) :: u32) = unat x mod 4294967296"
  by (simp add: unsigned_ucast_eq take_bit_eq_mod)

section \<open>Characters\<close>

text \<open>
  \<open>tolower\<close> and \<open>isspace\<close> of the C locale (the program never calls \<open>setlocale\<close>), and
  the value of a plain \<open>char\<close>, which is signed on the supported platform.
\<close>

definition tolower_c :: "char \<Rightarrow> char" where
  "tolower_c c = (let n = (of_char c :: nat) in if 65 \<le> n \<and> n \<le> 90 then char_of (n + 32) else c)"

definition isspace_c :: "char \<Rightarrow> bool" where
  "isspace_c c \<longleftrightarrow> (let n = (of_char c :: nat) in n = 32 \<or> 9 \<le> n \<and> n \<le> 13)"

definition char_to_u64 :: "char \<Rightarrow> u64" where
  "char_to_u64 c = scast (of_char c :: u8)"

lemma tolower_idem [simp]: "tolower_c (tolower_c c) = tolower_c c"
  by (auto simp: tolower_c_def Let_def)

text \<open>\<open>rstrip\<close> removes the trailing characters that satisfy a test.\<close>

definition rstrip :: "('a \<Rightarrow> bool) \<Rightarrow> 'a list \<Rightarrow> 'a list" where
  "rstrip p xs = rev (dropWhile p (rev xs))"

lemma rstrip_Nil [simp]: "rstrip p [] = []"
  by (simp add: rstrip_def)

lemma rstrip_snoc: "rstrip p (xs @ [x]) = (if p x then rstrip p xs else xs @ [x])"
  by (simp add: rstrip_def)

lemma rstrip_Cons: "rstrip p (x # xs) = (if rstrip p xs = [] then (if p x then [] else [x]) else x # rstrip p xs)"
proof (induction xs rule: rev_induct)
  case Nil
  then show ?case by (simp add: rstrip_def)
next
  case (snoc y ys)
  have "rstrip p (x # ys @ [y]) = (if p y then rstrip p (x # ys) else x # ys @ [y])"
    using rstrip_snoc [of p "x # ys" y] by simp
  then show ?case using snoc by (simp add: rstrip_snoc)
qed

lemma rstrip_idem [simp]: "rstrip p (rstrip p xs) = rstrip p xs"
  by (induction xs) (auto simp: rstrip_Cons)

lemma rstrip_prefix: "rstrip p xs = take (length (rstrip p xs)) xs"
  by (induction xs) (auto simp: rstrip_Cons)

lemma rstrip_length: "length (rstrip p xs) \<le> length xs"
  by (induction xs) (auto simp: rstrip_Cons)

section \<open>Return codes\<close>

text \<open>
  \<open>FQL_GOOD\<close>, \<open>FQL_NULL\<close> and \<open>FQL_FAIL\<close> of fql.h, with the value that the out parameter
  receives; \<open>Null None\<close> leaves it as it was. \<open>Crash\<close> is an execution the C standard leaves
  undefined (a trap, an access outside a block), which no caller observes.
\<close>

datatype 'a outcome = Good 'a | Null "'a option" | Fail | Crash

fun o_bind :: "'a outcome \<Rightarrow> ('a \<Rightarrow> 'b outcome) \<Rightarrow> 'b outcome" where
  "o_bind (Good a) f = f a"
| "o_bind (Null a) f = Null None"
| "o_bind Fail f = Fail"
| "o_bind Crash f = Crash"

text \<open>
  Actions on a state of type \<open>'s\<close>. \<open>derefA\<close> is \<open>try_deref_\<close> of misc.h: NULL and failure end
  the function. \<open>tryA\<close> is \<open>try_\<close>: only failure does; the continuation is given the value
  (\<open>init\<close>, what the variable held before, when a NULL left it alone) and whether the
  return code was \<open>FQL_GOOD\<close>.
\<close>

type_synonym ('s, 'a) act = "'s \<Rightarrow> 'a outcome \<times> 's"

definition outA :: "'a outcome \<Rightarrow> ('s, 'a) act" where
  "outA r s = (r, s)"

definition derefA :: "('s, 'a) act \<Rightarrow> ('a \<Rightarrow> ('s, 'b) act) \<Rightarrow> ('s, 'b) act" where
  "derefA m k s = (case m s of
     (Good a, s') \<Rightarrow> k a s'
   | (Null _, s') \<Rightarrow> (Null None, s')
   | (Fail, s') \<Rightarrow> (Fail, s')
   | (Crash, s') \<Rightarrow> (Crash, s'))"

definition tryA :: "'a \<Rightarrow> ('s, 'a) act \<Rightarrow> ('a \<Rightarrow> bool \<Rightarrow> ('s, 'b) act) \<Rightarrow> ('s, 'b) act" where
  "tryA init m k s = (case m s of
     (Good a, s') \<Rightarrow> k a True s'
   | (Null None, s') \<Rightarrow> k init False s'
   | (Null (Some a), s') \<Rightarrow> k a False s'
   | (Fail, s') \<Rightarrow> (Fail, s')
   | (Crash, s') \<Rightarrow> (Crash, s'))"

lemma derefA_simps [simp]:
  "m s = (Good a, s') \<Longrightarrow> derefA m k s = k a s'"
  "m s = (Null x, s') \<Longrightarrow> derefA m k s = (Null None, s')"
  "m s = (Fail, s') \<Longrightarrow> derefA m k s = (Fail, s')"
  "m s = (Crash, s') \<Longrightarrow> derefA m k s = (Crash, s')"
  by (simp_all add: derefA_def)

lemma derefA_outA [simp]: "derefA (outA r) k s =
    (case r of Good a \<Rightarrow> k a s | Null _ \<Rightarrow> (Null None, s) | Fail \<Rightarrow> (Fail, s) | Crash \<Rightarrow> (Crash, s))"
  by (simp add: derefA_def outA_def split: outcome.splits)

section \<open>Views\<close>

text \<open>
  A \<open>stringview\<close>: what can be read from its pointer on, and its length. The text of the
  view is the first \<open>sv_len\<close> bytes; what follows belongs to something else.
\<close>

record view =
  sv_data :: string
  sv_len :: nat

definition sv_text :: "view \<Rightarrow> string" where
  "sv_text v = take (sv_len v) (sv_data v)"

definition view_ok :: "view \<Rightarrow> bool" where
  "view_ok v \<longleftrightarrow> sv_len v \<le> length (sv_data v)"

text \<open>A view of a whole string buffer, which ends in a NUL.\<close>

definition view_of :: "string \<Rightarrow> view" where
  "view_of s = \<lparr>sv_data = s @ [CHR 0x00], sv_len = length s\<rparr>"

lemma view_of_simps [simp]:
  "sv_text (view_of s) = s" "view_ok (view_of s)" "sv_len (view_of s) = length s"
  by (simp_all add: view_of_def sv_text_def view_ok_def)

lemma sv_text_length: "view_ok v \<Longrightarrow> length (sv_text v) = sv_len v"
  by (simp add: sv_text_def view_ok_def)

end
