(* ===== verification/Vec.thy ===== *)
theory Vec
  imports FqlPrelude
begin

text \<open>
  The growable array of util/vec.c. A vector owns one block of \<open>_alloc\<close> cells of
  which the first \<open>size\<close> are in use; a cell that no one has written since
  \<open>malloc\<close> or \<open>realloc\<close> is \<open>None\<close>. Elements are the cells (\<open>_elem_size\<close> bytes
  each), pointers into the block are cell indices, and every \<open>memcpy\<close> and
  \<open>memmove\<close> is checked: an operation returns \<open>None\<close> when the C code would touch
  memory outside the block or make \<open>size\<close> wrap below zero.
\<close>

section \<open>State\<close>

record 'a vec =
  vdata :: "'a option list"
  vsize :: nat
  valloc :: nat

definition vec_ok :: "'a vec \<Rightarrow> bool" where
  "vec_ok v \<longleftrightarrow> length (vdata v) = valloc v \<and> vsize v < valloc v"

text \<open>What a client sees: the cells in use.\<close>

definition vec_list :: "'a vec \<Rightarrow> 'a option list" where
  "vec_list v = take (vsize v) (vdata v)"

section \<open>Operations\<close>

definition vec_construct :: "'a vec" where
  "vec_construct = \<lparr>vdata = replicate 2 None, vsize = 0, valloc = 2\<rparr>"

definition vec_empty :: "'a vec \<Rightarrow> bool" where
  "vec_empty v \<longleftrightarrow> vsize v = 0"

definition vec_at :: "'a vec \<Rightarrow> nat \<Rightarrow> 'a option option" where
  "vec_at v i = (if i < length (vdata v) then Some (vdata v ! i) else None)"

definition vec_back :: "'a vec \<Rightarrow> nat" where
  "vec_back v = (if vsize v = 0 then 0 else vsize v - 1)"

definition vec_end :: "'a vec \<Rightarrow> nat" where
  "vec_end v = vsize v"

definition vec_reserve :: "'a vec \<Rightarrow> nat \<Rightarrow> 'a vec" where
  "vec_reserve v n =
     (let alloc = n + 1 in
      if valloc v \<ge> alloc then v
      else v\<lparr>vdata := mem_realloc alloc (vdata v), valloc := alloc\<rparr>)"

definition vec_resize :: "'a vec \<Rightarrow> nat \<Rightarrow> 'a vec" where
  "vec_resize v n =
     (if n = vsize v then v
      else let v' = (if n > vsize v then vec_reserve v n else v)
           in v'\<lparr>vsize := n\<rparr>)"

definition vec_resize_and_zero :: "'a \<Rightarrow> 'a vec \<Rightarrow> nat \<Rightarrow> 'a vec option" where
  "vec_resize_and_zero zero v n =
     (let org_size = vsize v; org_alloc = valloc v; v' = vec_resize v n in
      if org_alloc = valloc v' then Some v'
      else do {
        d \<leftarrow> mem_write org_size (replicate (valloc v' - org_size) (Some zero)) (vdata v');
        Some (v'\<lparr>vdata := d\<rparr>)
      })"

definition vec_clear :: "'a vec \<Rightarrow> 'a vec" where
  "vec_clear v = vec_resize v 0"

definition vec_shrink_to_fit :: "'a vec \<Rightarrow> 'a vec" where
  "vec_shrink_to_fit v = v\<lparr>vdata := mem_realloc (vsize v + 1) (vdata v), valloc := vsize v + 1\<rparr>"

definition vec_pop_back :: "'a vec \<Rightarrow> nat option \<times> 'a vec" where
  "vec_pop_back v =
     (if vsize v = 0 then (None, v)
      else let v' = v\<lparr>vsize := vsize v - 1\<rparr> in (Some (vec_end v'), v'))"

definition vec_add_one :: "'a vec \<Rightarrow> nat \<times> 'a vec" where
  "vec_add_one v =
     (let v1 = v\<lparr>vsize := vsize v + 1\<rparr>;
          v2 = (if valloc v1 \<le> vsize v1 then vec_reserve v1 (valloc v1 * 2) else v1)
      in (vec_back v2, v2))"

definition vec_add_one_front :: "'a vec \<Rightarrow> (nat \<times> 'a vec) option" where
  "vec_add_one_front v =
     (let n = valloc v - 1; v' = snd (vec_add_one v) in do {
        d \<leftarrow> mem_move 1 0 n (vdata v');
        Some (0, v'\<lparr>vdata := d\<rparr>)
      })"

definition vec_set_at :: "'a vec \<Rightarrow> nat \<Rightarrow> 'a option list \<Rightarrow> 'a vec option" where
  "vec_set_at v i src = do {
     d \<leftarrow> mem_write i src (vdata v);
     Some (v\<lparr>vdata := d\<rparr>)
   }"

definition vec_set_one :: "'a vec \<Rightarrow> nat \<Rightarrow> 'a option \<Rightarrow> 'a vec option" where
  "vec_set_one v pos x = do {
     d \<leftarrow> mem_write pos [x] (vdata v);
     Some (v\<lparr>vdata := d\<rparr>)
   }"

definition vec_set :: "'a vec \<Rightarrow> nat \<Rightarrow> 'a option list \<Rightarrow> 'a vec option" where
  "vec_set v pos src = do {
     d \<leftarrow> mem_write pos src (vdata v);
     Some (v\<lparr>vdata := d\<rparr>)
   }"

definition vec_push_back :: "'a vec \<Rightarrow> 'a option \<Rightarrow> 'a vec option" where
  "vec_push_back v x =
     (let (i, v') = vec_add_one v in do {
        d \<leftarrow> mem_write i [x] (vdata v');
        Some (v'\<lparr>vdata := d\<rparr>)
      })"

text \<open>
  \<open>vec_insert_iter\<close> takes the elements \<open>begin\<close> to \<open>back\<close> inclusive, so its source is
  never empty; \<open>src\<close> is that range.
\<close>

definition vec_insert_iter :: "'a vec \<Rightarrow> nat \<Rightarrow> 'a option list \<Rightarrow> 'a vec option" where
  "vec_insert_iter v pos src =
     (let idx = pos; iter_size = length src;
          v' = vec_resize v (vsize v + iter_size) in
      if valloc v' < idx + iter_size then None
      else do {
        d1 \<leftarrow> mem_move (idx + iter_size) idx (valloc v' - idx - iter_size) (vdata v');
        d2 \<leftarrow> mem_write idx src d1;
        Some (v'\<lparr>vdata := d2\<rparr>)
      })"

text \<open>
  \<open>vec_insert_one\<close> grows the vector before it uses \<open>pos\<close>: when the growth
  reallocates, \<open>pos\<close> points into the freed block.
\<close>

definition vec_insert_one :: "'a vec \<Rightarrow> nat \<Rightarrow> 'a option \<Rightarrow> 'a vec option" where
  "vec_insert_one v pos x =
     (let v' = snd (vec_add_one v) in
      if valloc v' \<noteq> valloc v then None
      else if valloc v' - 1 < pos then None
      else do {
        d1 \<leftarrow> mem_move (pos + 1) pos (valloc v' - 1 - pos) (vdata v');
        d2 \<leftarrow> mem_write pos [x] d1;
        Some (v'\<lparr>vdata := d2\<rparr>)
      })"

text \<open>
  \<open>vec_insert_at\<close> computes \<open>back\<close> from \<open>len - 1\<close>: for \<open>len = 0\<close> the element count
  wraps to \<open>2^64 div _elem_size\<close>, which is a fault for every element wider than a
  byte; \<open>vec_insert\<close> returns at once. \<open>vec_erase_at\<close> and \<open>vec_erase\<close> differ likewise.
\<close>

definition vec_insert_at :: "'a vec \<Rightarrow> nat \<Rightarrow> 'a option list \<Rightarrow> 'a vec option" where
  "vec_insert_at v idx src = (if length src = 0 then None else vec_insert_iter v idx src)"

definition vec_insert :: "'a vec \<Rightarrow> nat \<Rightarrow> 'a option list \<Rightarrow> 'a vec option" where
  "vec_insert v pos src = (if length src = 0 then Some v else vec_insert_iter v pos src)"

text \<open>
  \<open>vec_erase_iter\<close> removes the cells \<open>b\<close> to \<open>e\<close> inclusive and moves everything
  behind them, up to the end of the block, down.
\<close>

definition vec_erase_iter :: "'a vec \<Rightarrow> nat \<Rightarrow> nat \<Rightarrow> 'a vec option" where
  "vec_erase_iter v b e =
     (if e < b \<or> valloc v - 1 < e \<or> vsize v < e - b + 1 then None
      else do {
        d \<leftarrow> mem_move b (e + 1) (valloc v - 1 - e) (vdata v);
        Some (v\<lparr>vdata := d, vsize := vsize v - (e - b + 1)\<rparr>)
      })"

definition vec_erase_one :: "'a vec \<Rightarrow> nat \<Rightarrow> 'a vec option" where
  "vec_erase_one v pos = vec_erase_iter v pos pos"

definition vec_erase_at :: "'a vec \<Rightarrow> nat \<Rightarrow> nat \<Rightarrow> 'a vec option" where
  "vec_erase_at v idx len = (if len = 0 then None else vec_erase_iter v idx (idx + len - 1))"

definition vec_erase :: "'a vec \<Rightarrow> nat \<Rightarrow> nat \<Rightarrow> 'a vec option" where
  "vec_erase v b len = (if len = 0 then Some v else vec_erase_iter v b (b + len - 1))"

definition vec_append :: "'a vec \<Rightarrow> 'a option list \<Rightarrow> 'a vec option" where
  "vec_append v src =
     (let old_size = vsize v; v' = vec_resize v (vsize v + length src) in do {
        d \<leftarrow> mem_write old_size src (vdata v');
        Some (v'\<lparr>vdata := d\<rparr>)
      })"

text \<open>\<open>vec_extend\<close> copies one cell more than the source has elements.\<close>

definition vec_extend :: "'a vec \<Rightarrow> 'a vec \<Rightarrow> 'a vec option" where
  "vec_extend dest src =
     (let index = vsize dest; dest' = vec_resize dest (vsize dest + vsize src) in do {
        cells \<leftarrow> mem_read 0 (vsize src + 1) (vdata src);
        d \<leftarrow> mem_write index cells (vdata dest');
        Some (dest'\<lparr>vdata := d\<rparr>)
      })"

section \<open>Shape lemmas\<close>

lemma vec_ok_construct [simp]: "vec_ok vec_construct"
  by (simp add: vec_ok_def vec_construct_def)

lemma vec_construct_size [simp]: "vsize vec_construct = 0"
  by (simp add: vec_construct_def)

lemma vec_list_construct [simp]: "vec_list vec_construct = []"
  by (simp add: vec_list_def vec_construct_def)

lemma vec_list_length: "vec_ok v \<Longrightarrow> length (vec_list v) = vsize v"
  by (simp add: vec_ok_def vec_list_def)

lemma vec_at_list:
  "vec_ok v \<Longrightarrow> i < vsize v \<Longrightarrow> vec_at v i = Some (vec_list v ! i)"
  by (simp add: vec_ok_def vec_list_def vec_at_def)

lemma vec_reserve_ok:
  assumes "vec_ok v"
  shows "vec_ok (vec_reserve v n)" "vsize (vec_reserve v n) = vsize v"
    "n < valloc (vec_reserve v n)" "valloc v \<le> valloc (vec_reserve v n)"
    "take (valloc v) (vdata (vec_reserve v n)) = vdata v"
  using assms by (auto simp: vec_ok_def vec_reserve_def Let_def)

lemma vec_resize_shape:
  assumes "vec_ok v"
  shows "vec_ok (vec_resize v n)" "vsize (vec_resize v n) = n"
    "valloc v \<le> valloc (vec_resize v n)"
    "length (vdata (vec_resize v n)) = valloc (vec_resize v n)"
    "take (valloc v) (vdata (vec_resize v n)) = vdata v"
  using assms vec_reserve_ok [OF assms, of n]
  by (auto simp: vec_resize_def vec_ok_def Let_def)

lemma vec_resize_alloc: "vec_ok v \<Longrightarrow> n < valloc (vec_resize v n)"
  using vec_resize_shape(1,2) [of v n] by (simp add: vec_ok_def)

lemma take_resize:
  assumes "vec_ok v" "k \<le> valloc v"
  shows "take k (vdata (vec_resize v n)) = take k (vdata v)"
proof -
  have "take k (vdata (vec_resize v n)) = take k (take (valloc v) (vdata (vec_resize v n)))"
    using assms(2) by (simp add: min_def)
  then show ?thesis using vec_resize_shape(5) [OF assms(1)] by simp
qed

lemma vec_add_one_resize:
  assumes "vec_ok v"
  shows "fst (vec_add_one v) = vsize v"
    "vec_ok (snd (vec_add_one v))" "vsize (snd (vec_add_one v)) = vsize v + 1"
    "valloc v \<le> valloc (snd (vec_add_one v))"
    "take (valloc v) (vdata (snd (vec_add_one v))) = vdata v"
  using assms by (auto simp: vec_ok_def vec_add_one_def vec_reserve_def vec_back_def Let_def)

lemmas vec_op_defs =
  vec_push_back_def vec_insert_iter_def vec_insert_at_def vec_insert_def vec_erase_iter_def
  vec_erase_one_def vec_erase_at_def vec_erase_def vec_append_def vec_extend_def
  vec_set_at_def vec_set_one_def vec_set_def

section \<open>What the operations do to the elements\<close>

lemma vec_resize_list:
  assumes "vec_ok v"
  shows "vec_ok (vec_resize v n) \<and> length (vec_list (vec_resize v n)) = n \<and>
    take (min n (vsize v)) (vec_list (vec_resize v n)) = take n (vec_list v)"
proof -
  have "min n (vsize v) \<le> valloc v" using assms by (simp add: vec_ok_def min_def)
  then show ?thesis
    using assms vec_resize_shape [OF assms, of n] take_resize [OF assms, of "min n (vsize v)" n]
      vec_list_length [of "vec_resize v n"]
    by (simp add: vec_list_def)
qed

lemma vec_clear_list: "vec_ok v \<Longrightarrow> vec_ok (vec_clear v) \<and> vec_list (vec_clear v) = []"
  using vec_resize_list [of v 0] by (simp add: vec_clear_def)

lemma vec_set_at_list:
  assumes "vec_ok v" "i + length src \<le> vsize v"
  shows "yields (vec_set_at v i src)
    (\<lambda>v'. vec_ok v' \<and> vec_list v' = take i (vec_list v) @ src @ drop (i + length src) (vec_list v))"
proof -
  have "min i (vsize v) = i" "vsize v < length (vdata v)" "valloc v = length (vdata v)"
    using assms by (auto simp: vec_ok_def)
  then show ?thesis
    using assms(2) by (simp add: vec_set_at_def vec_ok_def vec_list_def mem_simps min_absorb1 drop_take)
qed

lemma vec_push_back_list:
  assumes "vec_ok v"
  shows "yields (vec_push_back v x) (\<lambda>v'. vec_ok v' \<and> vec_list v' = vec_list v @ [x])"
proof -
  obtain i v' where a: "vec_add_one v = (i, v')" by force
  have *: "i = vsize v" "vec_ok v'" "vsize v' = vsize v + 1" "take (valloc v) (vdata v') = vdata v"
    using vec_add_one_resize [OF assms] a by simp_all
  have lt: "vsize v < length (vdata v)" "valloc v = length (vdata v)"
    using assms by (auto simp: vec_ok_def)
  then have "take (vsize v) (vdata v') = take (vsize v) (vdata v)"
    using arg_cong [OF *(4), of "take (vsize v)"] by (simp add: min_def)
  then show ?thesis
    using a * lt by (simp add: vec_push_back_def vec_ok_def vec_list_def mem_simps yields_bind min_def)
qed

lemma vec_append_list:
  assumes "vec_ok v"
  shows "yields (vec_append v src) (\<lambda>v'. vec_ok v' \<and> vec_list v' = vec_list v @ src)"
proof -
  let ?v = "vec_resize v (vsize v + length src)"
  have le: "vsize v + length src \<le> length (vdata ?v)"
    using vec_resize_shape(4) [OF assms, of "vsize v + length src"]
      vec_resize_alloc [OF assms, of "vsize v + length src"] by simp
  moreover have "take (vsize v) (vdata ?v) = take (vsize v) (vdata v)"
    using assms by (intro take_resize) (auto simp: vec_ok_def)
  moreover have "vsize v < length (vdata v)" using assms by (auto simp: vec_ok_def)
  ultimately show ?thesis
    using vec_resize_shape [OF assms, of "vsize v + length src"]
    by (simp add: vec_append_def vec_ok_def vec_list_def mem_simps Let_def min_def)
qed

lemma vec_extend_list:
  assumes "vec_ok dest" "vec_ok src"
  shows "yields (vec_extend dest src) (\<lambda>v'. vec_ok v' \<and> vec_list v' = vec_list dest @ vec_list src)"
proof -
  let ?n = "vsize dest + vsize src"
  let ?v = "vec_resize dest ?n"
  have le: "?n + 1 \<le> length (vdata ?v)"
    using vec_resize_shape(4) [OF assms(1), of ?n] vec_resize_alloc [OF assms(1), of ?n] by simp
  have "vsize src + 1 \<le> length (vdata src)" using assms(2) by (simp add: vec_ok_def)
  moreover have "take (vsize dest) (vdata ?v) = take (vsize dest) (vdata dest)"
    using assms(1) by (intro take_resize) (auto simp: vec_ok_def)
  moreover have "vsize dest < length (vdata dest)" using assms(1) by (auto simp: vec_ok_def)
  ultimately show ?thesis
    using vec_resize_shape [OF assms(1), of ?n] le
    by (simp add: vec_extend_def vec_ok_def vec_list_def mem_simps Let_def min_def)
qed

lemma vec_insert_iter_list:
  assumes "vec_ok v" "i \<le> vsize v"
  shows "yields (vec_insert_iter v i src)
    (\<lambda>v'. vec_ok v' \<and> vec_list v' = take i (vec_list v) @ src @ drop i (vec_list v))"
proof -
  let ?n = "vsize v + length src"
  let ?v = "vec_resize v ?n"
  have len: "length (vdata ?v) = valloc ?v" "?n < valloc ?v" "vsize ?v = ?n"
    using vec_resize_shape [OF assms(1), of ?n] vec_resize_alloc [OF assms(1), of ?n] by simp_all
  have keep: "take (vsize v) (vdata ?v) = take (vsize v) (vdata v)"
    using assms by (intro take_resize) (auto simp: vec_ok_def)
  have "take i (vdata ?v) = take i (take (vsize v) (vdata ?v))"
    using assms(2) by (simp add: min_def)
  then have i: "take i (vdata ?v) = take i (vdata v)"
    using keep assms(2) by (simp add: min_def)
  have d: "take (vsize v - i) (drop i (vdata ?v)) = drop i (take (vsize v) (vdata v))"
    using keep by (metis drop_take)
  have gap: "i + length src \<le> length (vdata ?v)" using assms(2) len by simp
  have l2: "length (vdata ?v) - i - length src \<ge> vsize v - i" using len by simp
  have ii: "min (vsize v) i = i" "min i (vsize v) = i" "i < length (vdata v)"
    using assms by (auto simp: vec_ok_def)
  let ?d = "take i (vdata ?v) @ src @ take (length (vdata ?v) - i - length src) (drop i (vdata ?v))"
  have eq: "vec_insert_iter v i src = Some (?v\<lparr>vdata := ?d\<rparr>)"
    using mem_insert [OF gap] len gap
    by (auto simp: vec_insert_iter_def Let_def bind_eq_Some_conv)
  have "vec_list (?v\<lparr>vdata := ?d\<rparr>) = take i (vdata v) @ src @ take (vsize v - i) (drop i (vdata ?v))"
    using len ii i l2 assms(2) by (simp add: vec_list_def min_absorb1 min_absorb2)
  moreover have "vec_ok (?v\<lparr>vdata := ?d\<rparr>)"
    using len gap by (simp add: vec_ok_def)
  ultimately show ?thesis using eq d ii by (simp add: vec_list_def)
qed

lemma vec_erase_iter_list:
  assumes "vec_ok v" "b \<le> e" "e < vsize v"
  shows "yields (vec_erase_iter v b e)
    (\<lambda>v'. vec_ok v' \<and> vec_list v' = take b (vec_list v) @ drop (e + 1) (vec_list v))"
proof -
  have len: "vsize v < length (vdata v)" "valloc v = length (vdata v)"
    using assms(1) by (auto simp: vec_ok_def)
  have n: "vsize v - (e - b + 1) = b + (vsize v - Suc e)" "min b (vsize v) = b"
    "min b (length (vdata v)) = b" "min (length (vdata v) - Suc e) (length (vdata v) - Suc e) = length (vdata v) - Suc e"
    "\<not> (e < b \<or> valloc v - 1 < e \<or> vsize v < e - b + 1)"
    "e + 1 + (length (vdata v) - 1 - e) \<le> length (vdata v)"
    "b + (length (vdata v) - 1 - e) \<le> length (vdata v)"
    using assms(2,3) len by auto
  let ?d = "take b (vdata v) @ take (length (vdata v) - 1 - e) (drop (e + 1) (vdata v)) @
    drop (b + (length (vdata v) - 1 - e)) (vdata v)"
  have "vec_erase_iter v b e = Some (v\<lparr>vdata := ?d, vsize := b + (vsize v - Suc e)\<rparr>)"
    unfolding vec_erase_iter_def using n len by (simp only: mem_move_in [OF n(6,7)] if_False len(2)) simp
  moreover have "length ?d = length (vdata v)" "b + (vsize v - Suc e) < length (vdata v)"
    using assms(2,3) len by auto
  moreover have "take (b + (vsize v - Suc e)) ?d = take b (vdata v) @ take (vsize v - Suc e) (drop (e + 1) (vdata v))"
    using n assms(2,3) len by (simp add: min_absorb1)
  ultimately show ?thesis
    using len n by (simp add: vec_ok_def vec_list_def drop_take)
qed

lemma vec_erase_list:
  assumes "vec_ok v" "b + len \<le> vsize v"
  shows "yields (vec_erase v b len)
    (\<lambda>v'. vec_ok v' \<and> vec_list v' = take b (vec_list v) @ drop (b + len) (vec_list v))"
proof (cases "len = 0")
  case True
  then show ?thesis using assms by (simp add: vec_erase_def)
next
  case False
  then have "b \<le> b + len - 1" "b + len - 1 < vsize v" "b + len - 1 + 1 = b + len"
    using assms(2) by auto
  with vec_erase_iter_list [OF assms(1) this(1,2)] False show ?thesis
    by (simp add: vec_erase_def)
qed

lemma vec_insert_list:
  assumes "vec_ok v" "i \<le> vsize v"
  shows "yields (vec_insert v i src)
    (\<lambda>v'. vec_ok v' \<and> vec_list v' = take i (vec_list v) @ src @ drop i (vec_list v))"
  using assms vec_insert_iter_list [OF assms] by (simp add: vec_insert_def)

text \<open>\<open>vec_add_one_front\<close> shifts the cells up; the new front cell is a copy of the old one.\<close>

lemma vec_add_one_front_list:
  assumes "vec_ok v"
  shows "yields (vec_add_one_front v)
    (\<lambda>(i, v'). i = 0 \<and> vec_ok v' \<and> vec_list v' = hd (vdata v) # vec_list v)"
proof -
  let ?v = "snd (vec_add_one v)"
  have lt: "vsize v < length (vdata v)" "valloc v = length (vdata v)"
    using assms by (auto simp: vec_ok_def)
  have *: "vec_ok ?v" "vsize ?v = vsize v + 1" "valloc v \<le> valloc ?v" "take (valloc v) (vdata ?v) = vdata v"
    using vec_add_one_resize [OF assms] by simp_all
  then have len: "length (vdata ?v) = valloc ?v" "vsize v + 1 < valloc ?v" by (auto simp: vec_ok_def)
  have n: "vdata v \<noteq> []" using lt by auto
  have one: "take 1 (vdata ?v) = [hd (vdata v)]"
  proof -
    have "take 1 (vdata ?v) = take 1 (take (valloc v) (vdata ?v))"
      using lt by (simp add: min_def)
    then show ?thesis using *(4) n by (simp add: take_Suc)
  qed
  have rest: "take (valloc v - 1) (vdata ?v) = take (valloc v - 1) (vdata v)"
    using arg_cong [OF *(4), of "take (valloc v - 1)"] by (simp add: min_def split: if_splits)
  have mv: "mem_move 1 0 (valloc v - 1) (vdata ?v) =
      Some (take 1 (vdata ?v) @ take (valloc v - 1) (vdata v) @ drop (1 + (valloc v - 1)) (vdata ?v))"
    using len *(3) lt rest by (subst mem_move_in) auto
  show ?thesis
    unfolding vec_add_one_front_def Let_def mv
    using one len lt *(2,3) n
    by (auto simp: vec_ok_def vec_list_def min_absorb2)
qed

text \<open>
  \<open>vec_insert_one\<close> is sound only while there is a spare cell left: on the insertion
  that fills the block it reads through a pointer into the block it just gave up.
\<close>

lemma vec_insert_one_list:
  assumes "vec_ok v" "i \<le> vsize v"
  shows "vec_insert_one v i x = None \<longleftrightarrow> valloc v = vsize v + 1"
    "vsize v + 1 < valloc v \<Longrightarrow> yields (vec_insert_one v i x)
       (\<lambda>v'. vec_ok v' \<and> vec_list v' = take i (vec_list v) @ [x] @ drop i (vec_list v))"
proof -
  have lt: "vsize v < length (vdata v)" "valloc v = length (vdata v)"
    using assms by (auto simp: vec_ok_def)
  have full: "vec_insert_one v i x = None" if "valloc v = vsize v + 1"
    using that lt by (simp add: vec_insert_one_def vec_add_one_def vec_reserve_def Let_def)
  have room: "yields (vec_insert_one v i x)
      (\<lambda>v'. vec_ok v' \<and> vec_list v' = take i (vec_list v) @ [x] @ drop i (vec_list v))"
    if spare: "vsize v + 1 < valloc v"
  proof -
    have add: "snd (vec_add_one v) = v\<lparr>vsize := vsize v + 1\<rparr>"
      using spare by (simp add: vec_add_one_def vec_reserve_def Let_def)
    have gap: "i + length [x] \<le> length (vdata v)" using assms(2) lt by simp
    let ?d = "take i (vdata v) @ [x] @ take (length (vdata v) - i - 1) (drop i (vdata v))"
    have eq: "vec_insert_one v i x = Some (v\<lparr>vdata := ?d, vsize := vsize v + 1\<rparr>)"
      using mem_insert [OF gap] spare lt assms(2) add
      by (auto simp: vec_insert_one_def Let_def bind_eq_Some_conv)
    have "min (vsize v) i = i" "min i (vsize v) = i" "vsize v - i \<le> length (vdata v) - i - 1"
      "vsize v + 1 - i = Suc (vsize v - i)"
      using assms(2) spare lt by auto
    then show ?thesis
      using eq lt spare assms(2) by (simp add: vec_ok_def vec_list_def min_absorb1 min_absorb2 drop_take)
  qed
  show "vsize v + 1 < valloc v \<Longrightarrow> yields (vec_insert_one v i x)
       (\<lambda>v'. vec_ok v' \<and> vec_list v' = take i (vec_list v) @ [x] @ drop i (vec_list v))"
    by (rule room)
  show "vec_insert_one v i x = None \<longleftrightarrow> valloc v = vsize v + 1"
    using full room lt by (cases "valloc v = vsize v + 1") (auto simp: yields_exists)
qed

text \<open>
  \<open>vec_resize_and_zero\<close> zeroes only when the growth reallocates: then every cell
  past the old elements is zero, otherwise the old contents of the block show.
\<close>

lemma vec_resize_and_zero_list:
  assumes "vec_ok v" "vsize v \<le> n"
  shows "yields (vec_resize_and_zero z v n) (\<lambda>v'. vec_ok v' \<and> vsize v' = n \<and>
    vec_list v' = vec_list v @
      (if n < valloc v then take (n - vsize v) (drop (vsize v) (vdata v))
       else replicate (n - vsize v) (Some z)))"
proof -
  let ?v = "vec_resize v n"
  have lt: "vsize v < length (vdata v)" "valloc v = length (vdata v)"
    using assms by (auto simp: vec_ok_def)
  have sh: "vec_ok ?v" "vsize ?v = n" "length (vdata ?v) = valloc ?v" "n < valloc ?v"
    using vec_resize_shape [OF assms(1), of n] vec_resize_alloc [OF assms(1), of n] by auto
  have keep: "take (vsize v) (vdata ?v) = take (vsize v) (vdata v)"
    using assms lt by (intro take_resize) auto
  show ?thesis
  proof (cases "n < valloc v")
    case True
    then have "?v = v\<lparr>vsize := n\<rparr>"
      using lt by (auto simp: vec_resize_def vec_reserve_def Let_def)
    moreover have "take n (vdata v) = take (vsize v) (vdata v) @ take (n - vsize v) (drop (vsize v) (vdata v))"
      using assms(2) by (metis le_add_diff_inverse take_add)
    ultimately show ?thesis
      using True sh lt by (simp add: vec_resize_and_zero_def Let_def vec_list_def)
  next
    case False
    then have ne: "valloc v \<noteq> valloc ?v" using sh(4) by auto
    have w: "mem_write (vsize v) (replicate (valloc ?v - vsize v) (Some z)) (vdata ?v) =
        Some (take (vsize v) (vdata v) @ replicate (valloc ?v - vsize v) (Some z))"
      using sh lt keep assms(2) by (simp add: mem_simps)
    show ?thesis
      unfolding vec_resize_and_zero_def Let_def using ne w sh lt assms(2) False
      by (simp add: vec_ok_def vec_list_def min_absorb1 min_absorb2)
  qed
qed

section \<open>The array as a sequence\<close>

text \<open>
  What the components built on a vector rely on: a sequence that grows at the end
  and is spliced in the middle, without ever leaving its block.
\<close>

locale seq_buffer =
  fixes ok :: "'b \<Rightarrow> bool"
    and elems :: "'b \<Rightarrow> 'e list"
    and push :: "'b \<Rightarrow> 'e \<Rightarrow> 'b option"
    and splice :: "'b \<Rightarrow> nat \<Rightarrow> 'e list \<Rightarrow> 'b option"
    and erase :: "'b \<Rightarrow> nat \<Rightarrow> nat \<Rightarrow> 'b option"
  assumes push_elems: "ok b \<Longrightarrow> yields (push b x) (\<lambda>c. ok c \<and> elems c = elems b @ [x])"
    and splice_elems: "ok b \<Longrightarrow> i \<le> length (elems b) \<Longrightarrow>
      yields (splice b i xs) (\<lambda>c. ok c \<and> elems c = take i (elems b) @ xs @ drop i (elems b))"
    and erase_elems: "ok b \<Longrightarrow> i + n \<le> length (elems b) \<Longrightarrow>
      yields (erase b i n) (\<lambda>c. ok c \<and> elems c = take i (elems b) @ drop (i + n) (elems b))"
begin

primrec push_all :: "'b \<Rightarrow> 'e list \<Rightarrow> 'b option" where
  "push_all b [] = Some b"
| "push_all b (x # xs) = push b x \<bind> (\<lambda>c. push_all c xs)"

lemma push_all_elems: "ok b \<Longrightarrow> yields (push_all b xs) (\<lambda>c. ok c \<and> elems c = elems b @ xs)"
proof (induction xs arbitrary: b)
  case Nil
  then show ?case by simp
next
  case (Cons x xs)
  from push_elems [OF Cons.prems, of x] obtain c
    where c: "push b x = Some c" "ok c" "elems c = elems b @ [x]"
    by (auto simp: yields_exists)
  with Cons.IH [OF c(2)] show ?case by simp
qed

text \<open>Replacing a stretch is an erasure followed by a splice at the same place.\<close>

lemma replace_elems:
  assumes "ok b" "i + n \<le> length (elems b)"
  shows "yields (erase b i n \<bind> (\<lambda>c. splice c i xs))
    (\<lambda>c. ok c \<and> elems c = take i (elems b) @ xs @ drop (i + n) (elems b))"
proof -
  obtain c where c: "erase b i n = Some c" "ok c"
      "elems c = take i (elems b) @ drop (i + n) (elems b)"
    using erase_elems [OF assms] by (auto simp: yields_exists)
  have "min (length (elems b)) i = i" using assms(2) by simp
  then show ?thesis
    using c splice_elems [OF c(2), of i xs] assms(2) by (simp add: min_absorb2)
qed

lemma splice_erase:
  assumes "ok b" "i \<le> length (elems b)"
  shows "yields (splice b i xs \<bind> (\<lambda>c. erase c i (length xs))) (\<lambda>c. ok c \<and> elems c = elems b)"
proof -
  obtain c where c: "splice b i xs = Some c" "ok c"
      "elems c = take i (elems b) @ xs @ drop i (elems b)"
    using splice_elems [OF assms] by (auto simp: yields_exists)
  then show ?thesis
    using erase_elems [OF c(2), of i "length xs"] assms(2) by (simp add: min_absorb2)
qed

end

interpretation vb: seq_buffer vec_ok vec_list vec_push_back vec_insert vec_erase
  by unfold_locales
    (use vec_push_back_list vec_insert_list vec_erase_list vec_list_length in \<open>auto simp: vec_list_length\<close>)

end
