(* ===== verification/Fifo.thy ===== *)
theory Fifo
  imports Vec
begin

text \<open>
  The circular buffer of util/fifo.c that connects two processes. \<open>head\<close>, \<open>tail\<close>
  and \<open>_iter_head\<close> are 32-bit and move modulo the size of \<open>buf\<close>; \<open>input_count\<close> is
  the number of producers, each of which keeps one cell in reserve. Elements leave
  at \<open>tail\<close> and enter at \<open>head\<close>. A mutex that an operation takes is held for the
  whole operation, so one operation is one step; condition variables are a log of
  the signals sent, and \<open>shared_mutex_fifo\<close> is the name of another fifo.
  Not modelled: creating and destroying the mutexes, and blocking (the loop guards
  of the waits are, as the states in which a thread is let through).
\<close>

section \<open>State\<close>

datatype signal = Sig_add | Sig_get | Bcast_add | Bcast_get | Sig_shared nat | Bcast_shared nat

record 'a fifo =
  buf :: "'a vec"
  shared_mutex_fifo :: "nat option"
  input_count :: u32
  head :: u32
  tail :: u32
  iter_head :: u32
  is_open :: bool
  siglog :: "signal list"

definition idx_adv :: "'a fifo \<Rightarrow> u32 \<Rightarrow> u32" where
  "idx_adv f i = of_nat (unat (i + 1) mod vsize (buf f))"

definition fifo_construct :: "'a \<Rightarrow> u32 \<Rightarrow> 'a fifo option" where
  "fifo_construct zero buf_size =
     (let n = (if buf_size \<le> 1 then 2 else buf_size) in do {
        b \<leftarrow> vec_resize_and_zero zero vec_construct (unat n);
        Some \<lparr>buf = b, shared_mutex_fifo = None, input_count = 0, head = 0, tail = 0,
              iter_head = 0, is_open = True, siglog = []\<rparr>
      })"

definition fifo_reset :: "'a fifo \<Rightarrow> 'a fifo" where
  "fifo_reset f = f\<lparr>is_open := True, head := 0, tail := 0, iter_head := 0\<rparr>"

definition fifo_resize :: "'a \<Rightarrow> 'a fifo \<Rightarrow> u32 \<Rightarrow> 'a fifo option" where
  "fifo_resize zero f n0 =
     (let n = (if n0 \<le> 1 then 2 else n0) in do {
        b \<leftarrow> vec_resize_and_zero zero (buf f) (unat n);
        Some (f\<lparr>buf := b, head := 0, tail := 0\<rparr>)
      })"

definition fifo_set_open :: "'a fifo \<Rightarrow> bool \<Rightarrow> 'a fifo" where
  "fifo_set_open f b =
     (let f1 = f\<lparr>is_open := b, siglog := siglog f @ [Bcast_get, Bcast_add]\<rparr> in
      case shared_mutex_fifo f of
        None \<Rightarrow> f1
      | Some g \<Rightarrow> f1\<lparr>siglog := siglog f1 @ [Bcast_shared g], shared_mutex_fifo := None\<rparr>)"

section \<open>Observers\<close>

definition fifo_available :: "'a fifo \<Rightarrow> u32" where
  "fifo_available f =
     (let available = (ucast (head f - tail f) :: u64);
          size = (of_nat (vsize (buf f)) :: u64)
      in ucast (if available > size then available + size else available))"

definition fifo_is_empty :: "'a fifo \<Rightarrow> bool" where
  "fifo_is_empty f \<longleftrightarrow> head f = tail f"

definition fifo_is_full :: "'a fifo \<Rightarrow> bool" where
  "fifo_is_full f \<longleftrightarrow> unat (head f + 1) mod vsize (buf f) = unat (tail f)"

definition fifo_receivable :: "'a fifo \<Rightarrow> u32" where
  "fifo_receivable f =
     ucast ((of_nat (vsize (buf f)) :: u64) - ucast (fifo_available f) - ucast (input_count f))"

definition fifo_set_full :: "'a fifo \<Rightarrow> 'a fifo" where
  "fifo_set_full f = f\<lparr>tail := 0, head := of_nat (vsize (buf f) - 1)\<rparr>"

definition fifo_peek :: "'a fifo \<Rightarrow> 'a option option" where
  "fifo_peek f = vec_at (buf f) (unat (tail f))"

definition fifo_safe_peek :: "'a fifo \<Rightarrow> 'a option option" where
  "fifo_safe_peek f = (if head f \<noteq> tail f then vec_at (buf f) (unat (tail f)) else None)"

definition fifo_look_ahead :: "'a fifo \<Rightarrow> 'a option option" where
  "fifo_look_ahead f =
     (if fifo_available f < 2 then None else vec_at (buf f) (unat (idx_adv f (tail f))))"

section \<open>Consumer side\<close>

text \<open>
  \<open>fifo_get\<close> returns a pointer to the cell at the old \<open>tail\<close>, here its index.
  \<open>fifo_get_or_wait\<close> does the same once \<open>fifo_available\<close> is not zero; \<open>None\<close> is
  the thread still waiting.
\<close>

definition fifo_get :: "'a fifo \<Rightarrow> nat \<times> 'a fifo" where
  "fifo_get f = (unat (tail f), f\<lparr>tail := idx_adv f (tail f), siglog := siglog f @ [Sig_get]\<rparr>)"

definition fifo_get_or_wait :: "'a fifo \<Rightarrow> (nat \<times> 'a fifo) option" where
  "fifo_get_or_wait f = (if fifo_available f = 0 then None else Some (fifo_get f))"

definition fifo_consume :: "'a fifo \<Rightarrow> 'a fifo" where
  "fifo_consume f = f\<lparr>tail := idx_adv f (tail f), siglog := siglog f @ [Sig_get]\<rparr>"

definition fifo_nget ::
    "'a fifo \<Rightarrow> 'a vec \<Rightarrow> u32 \<Rightarrow> u32 \<Rightarrow> (u32 \<times> 'a fifo \<times> 'a vec) option" where
  "fifo_nget f buffer block_size mx =
     (let available = fifo_available f in
      if available = 0 then Some (0, f, buffer)
      else if block_size = 0 then None
      else
        let t0 = (if available > mx then mx else available);
            transfer_count = t0 - t0 mod block_size;
            size = vsize (buf f);
            new_tail = (of_nat (unat (tail f + transfer_count) mod size) :: u32)
        in do {
          buffer' \<leftarrow>
            (if new_tail = 0 \<or> new_tail > tail f
             then do {
               cells \<leftarrow> mem_read (unat (tail f)) (unat transfer_count) (vdata (buf f));
               vec_append buffer cells
             }
             else do {
               cells1 \<leftarrow> mem_read (unat (tail f)) (size - unat (tail f)) (vdata (buf f));
               b1 \<leftarrow> vec_append buffer cells1;
               cells2 \<leftarrow> mem_read 0 (unat new_tail) (vdata (buf f));
               vec_append b1 cells2
             });
          Some (available - transfer_count,
                f\<lparr>tail := new_tail, siglog := siglog f @ [Sig_get]\<rparr>, buffer')
        })"

section \<open>Producer side\<close>

definition fifo_signal_shared :: "'a fifo \<Rightarrow> bool \<times> 'a fifo" where
  "fifo_signal_shared f =
     (case shared_mutex_fifo f of
        None \<Rightarrow> (False, f)
      | Some g \<Rightarrow> (True, f\<lparr>siglog := siglog f @ [Sig_shared g], shared_mutex_fifo := None\<rparr>))"

definition fifo_add :: "'a fifo \<Rightarrow> 'a option \<Rightarrow> 'a fifo option" where
  "fifo_add f x = do {
     b \<leftarrow> vec_set_at (buf f) (unat (head f)) [x];
     let f1 = f\<lparr>buf := b, head := idx_adv f (head f), siglog := siglog f @ [Sig_add]\<rparr>;
     Some (snd (fifo_signal_shared f1))
   }"

text \<open>\<open>busy\<close> is whether \<open>pthread_mutex_trylock\<close> finds the mutex taken (\<open>EBUSY\<close>, 16).\<close>

definition fifo_add_try :: "bool \<Rightarrow> 'a fifo \<Rightarrow> 'a option \<Rightarrow> (int \<times> 'a fifo) option" where
  "fifo_add_try busy f x =
     (if busy then Some (16, f) else do { f' \<leftarrow> fifo_add f x; Some (0, f') })"

text \<open>The copy of \<open>fifo_nadd\<close> and \<open>fifo_nadd_try\<close> into the ring, in one piece or two.\<close>

definition nadd_copy :: "'a vec \<Rightarrow> 'a vec \<Rightarrow> u32 \<Rightarrow> u32 \<Rightarrow> u32 \<Rightarrow> 'a vec option" where
  "nadd_copy b src hpos transfer_count new_head =
     (if new_head = 0 \<or> new_head > hpos
      then do {
        cells \<leftarrow> mem_read 0 (unat transfer_count) (vdata src);
        vec_set_at b (unat hpos) cells
      }
      else do {
        let transfer1 = (of_nat (vsize b) - hpos :: u32);
        cells1 \<leftarrow> mem_read 0 (unat transfer1) (vdata src);
        b1 \<leftarrow> vec_set_at b (unat hpos) cells1;
        cells2 \<leftarrow> mem_read (unat transfer1) (unat (transfer_count - transfer1)) (vdata src);
        vec_set_at b1 0 cells2
      })"

definition fifo_nadd :: "'a fifo \<Rightarrow> 'a vec \<Rightarrow> ('a fifo \<times> 'a vec) option" where
  "fifo_nadd f src =
     (let receivable = fifo_receivable f in
      if receivable = 0 then Some (f, src)
      else
        let transfer_count = (if unat receivable < vsize src then receivable
                              else of_nat (vsize src));
            new_head = (of_nat (unat (head f + transfer_count) mod vsize (buf f)) :: u32)
        in do {
          b \<leftarrow> nadd_copy (buf f) src (head f) transfer_count new_head;
          let f1 = f\<lparr>buf := b, head := new_head, siglog := siglog f @ [Sig_add]\<rparr>;
          src' \<leftarrow> (if unat transfer_count = vsize src then Some (vec_clear src)
                  else vec_erase src 0 (unat transfer_count));
          Some (snd (fifo_signal_shared f1), src')
        })"

definition fifo_nadd_try :: "bool \<Rightarrow> 'a fifo \<Rightarrow> 'a vec \<Rightarrow> (int \<times> 'a fifo \<times> 'a vec) option" where
  "fifo_nadd_try busy f src =
     (if busy then Some (16, f, src)
      else do { (f', src') \<leftarrow> fifo_nadd f src; Some (0, f', src') })"

definition fifo_advance :: "'a fifo \<Rightarrow> 'a fifo" where
  "fifo_advance f = f\<lparr>head := idx_adv f (head f), siglog := siglog f @ [Sig_add]\<rparr>"

section \<open>Iteration without the mutexes\<close>

definition fifo_begin :: "'a fifo \<Rightarrow> nat \<times> 'a fifo" where
  "fifo_begin f =
     (unat (tail f), f\<lparr>iter_head := of_nat (unat (head f) mod vsize (buf f))\<rparr>)"

definition fifo_iter :: "'a fifo \<Rightarrow> nat \<times> 'a fifo" where
  "fifo_iter f = (let f' = f\<lparr>tail := idx_adv f (tail f)\<rparr> in (unat (tail f'), f'))"

definition fifo_end :: "'a fifo \<Rightarrow> nat" where
  "fifo_end f = unat (iter_head f)"

definition fifo_update :: "'a fifo \<Rightarrow> 'a fifo" where
  "fifo_update f = f\<lparr>siglog := siglog f @ [Sig_get]\<rparr>"

definition fifo_update_try :: "bool \<Rightarrow> 'a fifo \<Rightarrow> int \<times> 'a fifo" where
  "fifo_update_try busy f = (if busy then (16, f) else (0, fifo_update f))"

section \<open>Wait conditions\<close>

text \<open>The states in which each wait lets its thread through.\<close>

definition fifo_wait_for_add :: "'a fifo \<Rightarrow> bool" where
  "fifo_wait_for_add f \<longleftrightarrow> \<not> (is_open f \<and> fifo_is_empty f)"

definition fifo_wait_for_get :: "'a fifo \<Rightarrow> bool" where
  "fifo_wait_for_get f \<longleftrightarrow> fifo_receivable f \<noteq> 0"

text \<open>
  One round of the loop of \<open>fifo_wait_for_add_either\<close>: \<open>None\<close> is the thread through,
  \<open>Some f0'\<close> the thread asleep on \<open>f1\<close> with \<open>f0\<close> told (\<open>id1\<close>) whom to wake.
\<close>

definition fifo_wait_for_add_either :: "nat \<Rightarrow> 'a fifo \<Rightarrow> 'a fifo \<Rightarrow> 'a fifo option" where
  "fifo_wait_for_add_either id1 f0 f1 =
     (if is_open f1 \<and> fifo_is_empty f1
      then if \<not> is_open f0 \<or> \<not> fifo_is_empty f0 then None
           else Some (f0\<lparr>shared_mutex_fifo := Some id1\<rparr>)
      else None)"

definition fifo_wait_for_add_both :: "'a fifo \<Rightarrow> 'a fifo \<Rightarrow> bool" where
  "fifo_wait_for_add_both f0 f1 \<longleftrightarrow>
     \<not> (is_open f1 \<and> is_open f0 \<and> (fifo_is_empty f0 \<or> fifo_is_empty f1))"

section \<open>Invariant and contents\<close>

definition fifo_ok :: "'a fifo \<Rightarrow> bool" where
  "fifo_ok f \<longleftrightarrow> vec_ok (buf f) \<and> 2 \<le> vsize (buf f) \<and> vsize (buf f) \<le> 2147483648 \<and>
     unat (head f) < vsize (buf f) \<and> unat (tail f) < vsize (buf f)"

definition fifo_len :: "'a fifo \<Rightarrow> nat" where
  "fifo_len f = (unat (head f) + vsize (buf f) - unat (tail f)) mod vsize (buf f)"

definition ring :: "'a list \<Rightarrow> nat \<Rightarrow> nat \<Rightarrow> 'a list" where
  "ring xs t k = map (\<lambda>i. xs ! ((t + i) mod length xs)) [0..<k]"

definition fifo_list :: "'a fifo \<Rightarrow> 'a option list" where
  "fifo_list f = ring (vec_list (buf f)) (unat (tail f)) (fifo_len f)"

lemma length_ring [simp]: "length (ring xs t k) = k"
  by (simp add: ring_def)

lemma ring_nth [simp]: "i < k \<Longrightarrow> ring xs t k ! i = xs ! ((t + i) mod length xs)"
  by (simp add: ring_def)

lemma ring_drop:
  "m \<le> k \<Longrightarrow> drop m (ring xs t k) = ring xs ((t + m) mod length xs) (k - m)"
  by (rule nth_equalityI) (auto simp: mod_add_left_eq add.assoc)

lemma ring_take: "m \<le> k \<Longrightarrow> take m (ring xs t k) = ring xs t m"
  by (rule nth_equalityI) auto

lemma ring_straight: "t + k \<le> length xs \<Longrightarrow> ring xs t k = take k (drop t xs)"
  by (rule nth_equalityI) auto

lemma ring_wrapped:
  assumes "t < length xs" "length xs \<le> t + k" "k \<le> length xs"
  shows "ring xs t k = drop t xs @ take (t + k - length xs) xs"
proof (rule nth_equalityI)
  show "length (ring xs t k) = length (drop t xs @ take (t + k - length xs) xs)"
    using assms by simp
next
  fix i assume i: "i < length (ring xs t k)"
  show "ring xs t k ! i = (drop t xs @ take (t + k - length xs) xs) ! i"
  proof (cases "t + i < length xs")
    case True
    then have "i < length xs - t" by simp
    then show ?thesis using i assms True by (simp add: nth_append)
  next
    case False
    then have "(t + i) mod length xs = t + i - length xs"
      using i assms by (simp add: mod_if)
    moreover have "\<not> i < length xs - t" "i - (length xs - t) = t + i - length xs"
      using False assms(1) by auto
    ultimately show ?thesis using i assms False by (simp add: nth_append)
  qed
qed

lemma mod_shift_inj:
  assumes "(t + i) mod n = (t + j) mod n" "i < n" "j < n"
  shows "i = (j :: nat)"
proof -
  define r where "r = t mod n"
  have r: "r < n" using assms(2) by (simp add: r_def)
  have red: "(t + x) mod n = (if r + x < n then r + x else r + x - n)" if "x < n" for x
  proof -
    have "(t + x) mod n = (r + x) mod n" by (simp add: r_def mod_add_left_eq)
    then show ?thesis using r that by (simp add: mod_if)
  qed
  have "(if r + i < n then r + i else r + i - n) = (if r + j < n then r + j else r + j - n)"
    using assms(1) unfolding red [OF assms(2)] red [OF assms(3)] .
  then show ?thesis using r assms(2,3) by (simp split: if_splits)
qed

lemma idx_adv_unat:
  assumes "fifo_ok f" "unat i < vsize (buf f)"
  shows "unat (idx_adv f i) = (unat i + 1) mod vsize (buf f)"
proof -
  have "unat (i + 1) = unat i + 1"
    using assms by (simp add: fifo_ok_def unat_plus_if')
  moreover have "(unat i + 1) mod vsize (buf f) < 4294967296"
    using assms by (intro less_trans [OF mod_less_divisor]) (auto simp: fifo_ok_def)
  ultimately show ?thesis by (simp add: idx_adv_def idx_simps)
qed

lemma fifo_len_cases:
  assumes "fifo_ok f"
  shows "fifo_len f = (if unat (tail f) \<le> unat (head f) then unat (head f) - unat (tail f)
                       else unat (head f) + vsize (buf f) - unat (tail f))"
  using assms by (auto simp: fifo_len_def fifo_ok_def mod_if)

lemma fifo_len_less: "fifo_ok f \<Longrightarrow> fifo_len f < vsize (buf f)"
  by (simp add: fifo_len_def fifo_ok_def)

lemma fifo_available_len:
  assumes "fifo_ok f"
  shows "unat (fifo_available f) = fifo_len f"
proof -
  let ?n = "vsize (buf f)"
  have b: "?n \<le> 2147483648" "unat (head f) < ?n" "unat (tail f) < ?n"
    using assms by (auto simp: fifo_ok_def)
  have n64: "unat (of_nat ?n :: u64) = ?n" using b by (intro unat_of_nat_u64) simp
  show ?thesis
  proof (cases "unat (tail f) \<le> unat (head f)")
    case True
    then have "unat (head f - tail f) = unat (head f) - unat (tail f)"
      by (simp add: unat_sub_if')
    then show ?thesis
      using True b n64 fifo_len_cases [OF assms]
      by (simp add: fifo_available_def Let_def word_less_nat_alt idx_simps)
  next
    case False
    let ?d = "unat (head f - tail f)"
    have d: "?d = unat (head f) + 4294967296 - unat (tail f)"
      using False by (simp add: unat_sub_if')
    have big: "?n < ?d" "?d + ?n < 18446744073709551616" "?d + ?n - 4294967296 < 4294967296"
      using b d by auto
    have "unat (ucast (head f - tail f) + of_nat ?n :: u64) = ?d + ?n"
      using big n64 by (simp add: unat_plus_if' idx_simps)
    then have "unat (fifo_available f) = (?d + ?n) mod 4294967296"
      using big(1) n64
      by (simp add: fifo_available_def Let_def word_less_nat_alt idx_simps)
    also have "\<dots> = unat (head f) + ?n - unat (tail f)"
      using d b False by (simp add: mod_if)
    finally show ?thesis using False fifo_len_cases [OF assms] by simp
  qed
qed

lemma fifo_is_empty_len: "fifo_ok f \<Longrightarrow> fifo_is_empty f \<longleftrightarrow> fifo_len f = 0"
  by (auto simp: fifo_is_empty_def fifo_len_cases word_unat_eq_iff fifo_ok_def)

lemma fifo_list_length [simp]: "length (fifo_list f) = fifo_len f"
  by (simp add: fifo_list_def)

text \<open>The producers' check: exact while every producer still has its reserved cell.\<close>

lemma fifo_receivable_unat:
  assumes "fifo_ok f" "fifo_len f + unat (input_count f) \<le> vsize (buf f)"
  shows "unat (fifo_receivable f) = vsize (buf f) - fifo_len f - unat (input_count f)"
proof -
  let ?n = "vsize (buf f)"
  have b: "?n \<le> 2147483648" using assms by (auto simp: fifo_ok_def)
  have n64: "unat (of_nat ?n :: u64) = ?n" using b by (intro unat_of_nat_u64) simp
  have a: "unat (ucast (fifo_available f) :: u64) = fifo_len f"
    using fifo_available_len [OF assms(1)] by (simp add: idx_simps)
  have "unat ((of_nat ?n :: u64) - ucast (fifo_available f)) = ?n - fifo_len f"
    using n64 a fifo_len_less [OF assms(1)] by (simp add: unat_sub_if')
  then have "unat ((of_nat ?n :: u64) - ucast (fifo_available f) - ucast (input_count f)) =
      ?n - fifo_len f - unat (input_count f)"
    using assms(2) by (simp add: unat_sub_if' idx_simps)
  then show ?thesis
    using b by (simp add: fifo_receivable_def idx_simps)
qed

section \<open>Every operation on the contents\<close>

lemma fifo_get_spec:
  assumes "fifo_ok f" "fifo_list f \<noteq> []"
  shows "fifo_get f = (i, f') \<Longrightarrow> fifo_ok f' \<and> vec_at (buf f) i = Some (hd (fifo_list f)) \<and>
    fifo_list f' = tl (fifo_list f) \<and> buf f' = buf f"
proof -
  assume get: "fifo_get f = (i, f')"
  let ?n = "vsize (buf f)"
  have pos: "0 < fifo_len f" using assms(2) by (metis fifo_list_length length_greater_0_conv)
  have b: "unat (head f) < ?n" "unat (tail f) < ?n" "vec_ok (buf f)"
    using assms by (auto simp: fifo_ok_def)
  have f': "f' = f\<lparr>tail := idx_adv f (tail f), siglog := siglog f @ [Sig_get]\<rparr>" "i = unat (tail f)"
    using get by (auto simp: fifo_get_def)
  have t': "unat (tail f') = (unat (tail f) + 1) mod ?n"
    using f' idx_adv_unat [OF assms(1) b(2)] by simp
  have ok': "fifo_ok f'"
    using assms(1) f' t' by (simp add: fifo_ok_def)
  have len': "fifo_len f' = fifo_len f - 1"
    using f' t' pos b fifo_len_cases [OF assms(1)] fifo_len_cases [OF ok']
    by (auto simp: mod_if split: if_splits)
  have len: "length (vec_list (buf f)) = ?n" using b by (simp add: vec_list_length)
  have "fifo_list f' = drop 1 (fifo_list f)"
    using f' t' len len' pos ring_drop [of 1 "fifo_len f" "vec_list (buf f)" "unat (tail f)"]
    by (simp add: fifo_list_def)
  moreover have "hd (fifo_list f) = vec_list (buf f) ! unat (tail f)"
    using pos b len by (simp add: hd_conv_nth fifo_list_def flip: length_greater_0_conv)
  ultimately show ?thesis
    using f' ok' b by (simp add: drop_Suc vec_at_list)
qed

lemma ring_update_outside:
  assumes "t < length xs" "k < length xs"
  shows "ring (xs[(t + k) mod length xs := x]) t k = ring xs t k"
proof (rule nth_equalityI)
  fix i assume "i < length (ring (xs[(t + k) mod length xs := x]) t k)"
  then have i: "i < k" by simp
  then have "(t + i) mod length xs \<noteq> (t + k) mod length xs"
    using mod_shift_inj [of t i "length xs" k] assms(2) by auto
  with i show "ring (xs[(t + k) mod length xs := x]) t k ! i = ring xs t k ! i" by simp
qed simp

lemma ring_snoc: "ring xs t (Suc k) = ring xs t k @ [xs ! ((t + k) mod length xs)]"
  by (simp add: ring_def)

lemma fifo_head_ring:
  assumes "fifo_ok f"
  shows "(unat (tail f) + fifo_len f) mod vsize (buf f) = unat (head f)"
  using assms fifo_len_cases [OF assms] by (auto simp: fifo_ok_def mod_if)

lemma fifo_signal_shared_frame [simp]:
  "buf (snd (fifo_signal_shared f)) = buf f" "head (snd (fifo_signal_shared f)) = head f"
  "tail (snd (fifo_signal_shared f)) = tail f" "is_open (snd (fifo_signal_shared f)) = is_open f"
  "input_count (snd (fifo_signal_shared f)) = input_count f"
  by (auto simp: fifo_signal_shared_def split: option.splits)

lemma fifo_add_spec:
  assumes "fifo_ok f" "fifo_len f + 1 < vsize (buf f)"
  shows "yields (fifo_add f x) (\<lambda>f'. fifo_ok f' \<and> fifo_list f' = fifo_list f @ [x] \<and>
    tail f' = tail f \<and> vsize (buf f') = vsize (buf f) \<and> input_count f' = input_count f \<and>
    vec_list (buf f') = (vec_list (buf f))[unat (head f) := x])"
proof -
  let ?n = "vsize (buf f)" and ?h = "unat (head f)"
  have b: "?h < ?n" "unat (tail f) < ?n" "vec_ok (buf f)"
    using assms by (auto simp: fifo_ok_def)
  have len: "length (vec_list (buf f)) = ?n" using b by (simp add: vec_list_length)
  obtain v where v: "vec_set_at (buf f) ?h [x] = Some v" "vec_ok v"
      "vec_list v = (vec_list (buf f))[?h := x]"
    using vec_set_at_list [OF b(3), of ?h "[x]"] b len by (auto simp: yields_exists upd_conv_take_nth_drop)
  have vs: "vsize v = ?n" using v b by (metis len length_list_update vec_list_length)
  define f' where "f' = snd (fifo_signal_shared
    (f\<lparr>buf := v, head := idx_adv f (head f), siglog := siglog f @ [Sig_add]\<rparr>))"
  have eq: "fifo_add f x = Some f'" using v by (simp add: fifo_add_def f'_def)
  have fr: "buf f' = v" "tail f' = tail f" "unat (head f') = (?h + 1) mod ?n" "input_count f' = input_count f"
    using idx_adv_unat [OF assms(1) b(1)] by (auto simp: f'_def)
  have ok': "fifo_ok f'"
    using assms(1) fr v vs b by (simp add: fifo_ok_def)
  have len': "fifo_len f' = Suc (fifo_len f)"
    using fr vs b assms(2) fifo_len_cases [OF assms(1)] fifo_len_cases [OF ok']
    by (auto simp: mod_if split: if_splits)
  have "fifo_list f' = fifo_list f @ [x]"
    using fr v len len' b assms(2) fifo_head_ring [OF assms(1)]
      ring_update_outside [of "unat (tail f)" "vec_list (buf f)" "fifo_len f" x]
    by (simp add: fifo_list_def ring_snoc)
  then show ?thesis using eq ok' fr vs v by simp
qed

subsection \<open>Block transfers\<close>

text \<open>Writing \<open>ys\<close> into a ring from \<open>h\<close> on, in one piece or in two.\<close>

definition ring_write :: "'a list \<Rightarrow> nat \<Rightarrow> 'a list \<Rightarrow> 'a list" where
  "ring_write xs h ys =
     (let n = length xs in
      if h + length ys \<le> n then take h xs @ ys @ drop (h + length ys) xs
      else drop (n - h) ys @ drop (length ys - (n - h)) (take h xs @ take (n - h) ys))"

lemma ring_write_length:
  "h < length xs \<Longrightarrow> length ys \<le> length xs \<Longrightarrow> length (ring_write xs h ys) = length xs"
  by (auto simp: ring_write_def Let_def)

lemma ring_write_new:
  assumes "h < length xs" "length ys \<le> length xs" "m < length ys"
  shows "ring_write xs h ys ! ((h + m) mod length xs) = ys ! m"
proof (cases "h + m < length xs")
  case True
  then show ?thesis using assms by (auto simp: ring_write_def Let_def nth_append min_def)
next
  case False
  then have "(h + m) mod length xs = h + m - length xs" using assms by (simp add: mod_if)
  moreover have "m - (length xs - h) = h + m - length xs" "h + m - length xs < length ys - (length xs - h)"
    using False assms by auto
  moreover have "\<not> h + length ys \<le> length xs" using False assms by auto
  moreover have "length xs - h + (h + m - length xs) = m" using False assms by auto
  ultimately show ?thesis using assms by (auto simp: ring_write_def Let_def nth_append)
qed

lemma ring_write_old:
  assumes "h < length xs" "length ys \<le> m" "m < length xs"
  shows "ring_write xs h ys ! ((h + m) mod length xs) = xs ! ((h + m) mod length xs)"
proof (cases "h + m < length xs")
  case True
  then have "h + length ys \<le> length xs" using assms by auto
  then show ?thesis using True assms by (auto simp: ring_write_def Let_def nth_append min_def)
next
  case False
  let ?j = "h + m - length xs"
  have j: "(h + m) mod length xs = ?j" "?j < h" using False assms by (auto simp: mod_if)
  show ?thesis
  proof (cases "h + length ys \<le> length xs")
    case True
    then show ?thesis using j assms by (auto simp: ring_write_def Let_def nth_append min_def)
  next
    case False
    then have "length ys - (length xs - h) \<le> ?j" using assms by auto
    then show ?thesis using j assms False by (auto simp: ring_write_def Let_def nth_append min_def)
  qed
qed

lemma ring_write_append:
  assumes "t < length xs" "k + length ys \<le> length xs" "k < length xs"
  shows "ring (ring_write xs ((t + k) mod length xs) ys) t (k + length ys) = ring xs t k @ ys"
proof (rule nth_equalityI)
  let ?n = "length xs" and ?h = "(t + k) mod length xs"
  let ?w = "ring_write xs ?h ys"
  have h: "?h < ?n" using assms by (intro mod_less_divisor) auto
  have len: "length ?w = ?n" using ring_write_length [OF h, of ys] assms by simp
  show "length (ring ?w t (k + length ys)) = length (ring xs t k @ ys)" by simp
  fix i assume "i < length (ring ?w t (k + length ys))"
  then have i: "i < k + length ys" by simp
  show "ring ?w t (k + length ys) ! i = (ring xs t k @ ys) ! i"
  proof (cases "i < k")
    case True
    let ?m = "?n - k + i"
    have "?h + ?m = (t + k) mod ?n + (?n - k + i)" by simp
    have "(?h + ?m) mod ?n = (t + k + ?m) mod ?n" by (simp only: mod_add_left_eq)
    also have "t + k + ?m = t + i + ?n" using assms(3) by simp
    finally have eq: "(?h + ?m) mod ?n = (t + i) mod ?n" by simp
    have "length ys \<le> ?m" "?m < ?n" using True assms by auto
    from ring_write_old [OF h this] show ?thesis using eq True i len by (simp add: nth_append)
  next
    case False
    let ?m = "i - k"
    have "(?h + ?m) mod ?n = (t + k + ?m) mod ?n" by (simp only: mod_add_left_eq)
    then have eq: "(?h + ?m) mod ?n = (t + i) mod ?n" using False by simp
    have "length ys \<le> ?n" "?m < length ys" using False i assms by auto
    from ring_write_new [OF h this] show ?thesis using eq False i len by (simp add: nth_append)
  qed
qed

lemma read_cells:
  assumes "vec_ok v" "i + n \<le> vsize v"
  shows "mem_read i n (vdata v) = Some (take n (drop i (vec_list v)))"
  using assms by (auto simp: vec_ok_def vec_list_def mem_simps drop_take min_def)

definition nget_count :: "'a fifo \<Rightarrow> u32 \<Rightarrow> u32 \<Rightarrow> nat" where
  "nget_count f block_size mx =
     (let t = min (fifo_len f) (unat mx) in t - t mod unat block_size)"

text \<open>
  A transfer of whole groups of \<open>block_size\<close> elements takes them from the front of
  the queue, in order, and leaves the rest.
\<close>

lemma nget_transfer_count:
  assumes "fifo_ok f"
  shows "unat (let a = fifo_available f; t0 = (if a > mx then mx else a) in t0 - t0 mod bs) =
    nget_count f bs mx"
proof -
  let ?a = "fifo_available f"
  define t0 where "t0 = (if ?a > mx then mx else ?a)"
  have "unat t0 = min (fifo_len f) (unat mx)"
    using fifo_available_len [OF assms] by (simp add: t0_def word_less_nat_alt min_def)
  moreover have "unat (t0 - t0 mod bs) = unat t0 - unat t0 mod unat bs"
    by (simp add: unat_sub_if' unat_mod)
  ultimately show ?thesis by (simp add: nget_count_def t0_def Let_def)
qed

lemma nget_count_le: "nget_count f bs mx \<le> fifo_len f"
  by (simp add: nget_count_def Let_def)

lemma new_index_unat:
  fixes i c :: u32
  assumes "fifo_ok f" "unat i < vsize (buf f)" "unat c \<le> vsize (buf f)"
  shows "unat (of_nat (unat (i + c) mod vsize (buf f)) :: u32) = (unat i + unat c) mod vsize (buf f)"
proof -
  have n: "0 < vsize (buf f)" "vsize (buf f) \<le> 2147483648" using assms by (auto simp: fifo_ok_def)
  have "unat (i + c) = unat i + unat c" using assms n by (simp add: unat_plus_if')
  moreover have "(unat i + unat c) mod vsize (buf f) < 4294967296"
    using n by (intro less_le_trans [OF mod_less_divisor]) auto
  ultimately show ?thesis by (simp add: idx_simps)
qed

text \<open>The branch condition of both block transfers: does the stretch reach past the end?\<close>

lemma ring_split_iff:
  fixes i j :: u32
  assumes "unat j = (unat i + c) mod n" "0 < c" "c < n" "unat i < n"
  shows "j = 0 \<or> j > i \<longleftrightarrow> unat i + c \<le> n"
proof -
  have "j = 0 \<or> j > i \<longleftrightarrow> unat j = 0 \<or> unat i < unat j"
    by (simp add: word_less_nat_alt word_unat_eq_iff)
  also have "\<dots> \<longleftrightarrow> unat i + c \<le> n"
    unfolding assms(1) using assms(2-) by (cases "unat i + c < n"; cases "unat i + c = n") (auto simp: mod_if)
  finally show ?thesis .
qed

lemma fifo_nget_unfold:
  assumes "fifo_available f \<noteq> 0" "bs \<noteq> 0"
    and tc: "tc = (let t0 = (if fifo_available f > mx then mx else fifo_available f) in t0 - t0 mod bs)"
    and nt: "nt = (of_nat (unat (tail f + tc) mod vsize (buf f)) :: u32)"
  shows "fifo_nget f b bs mx = do {
      b' \<leftarrow> (if nt = 0 \<or> nt > tail f
           then do { cells \<leftarrow> mem_read (unat (tail f)) (unat tc) (vdata (buf f)); vec_append b cells }
           else do { cells1 \<leftarrow> mem_read (unat (tail f)) (vsize (buf f) - unat (tail f)) (vdata (buf f));
                     b1 \<leftarrow> vec_append b cells1;
                     cells2 \<leftarrow> mem_read 0 (unat nt) (vdata (buf f)); vec_append b1 cells2 });
      Some (fifo_available f - tc, f\<lparr>tail := nt, siglog := siglog f @ [Sig_get]\<rparr>, b') }"
  using assms(1,2) by (simp add: fifo_nget_def nt tc Let_def)

lemma fifo_nget_spec:
  assumes "fifo_ok f" "vec_ok b" "bs \<noteq> 0" "0 < nget_count f bs mx"
  shows "yields (fifo_nget f b bs mx) (\<lambda>(r, f', b'). fifo_ok f' \<and> vec_ok b' \<and>
    vec_list b' = vec_list b @ take (nget_count f bs mx) (fifo_list f) \<and>
    fifo_list f' = drop (nget_count f bs mx) (fifo_list f) \<and>
    unat r = fifo_len f - nget_count f bs mx)"
proof -
  let ?n = "vsize (buf f)" and ?t = "unat (tail f)" and ?c = "nget_count f bs mx"
  let ?xs = "vec_list (buf f)"
  define a where "a = fifo_available f"
  define tc where "tc = (let t0 = (if a > mx then mx else a) in t0 - t0 mod bs)"
  define nt where "nt = (of_nat (unat (tail f + tc) mod ?n) :: u32)"
  have b: "unat (head f) < ?n" "?t < ?n" "vec_ok (buf f)" using assms by (auto simp: fifo_ok_def)
  have len: "length ?xs = ?n" using b by (simp add: vec_list_length)
  have tc: "unat tc = ?c"
    using nget_transfer_count [OF assms(1), of mx bs] unfolding tc_def a_def Let_def .
  have cl: "?c \<le> fifo_len f" "fifo_len f < ?n"
    using nget_count_le fifo_len_less [OF assms(1)] by auto
  have nt: "unat nt = (?t + ?c) mod ?n"
    using new_index_unat [OF assms(1) b(2), of tc] tc cl by (simp add: nt_def)
  have a0: "a \<noteq> 0" "unat a = fifo_len f"
    using fifo_available_len [OF assms(1)] assms(4) cl by (auto simp: a_def)
  have split: "nt = 0 \<or> nt > tail f \<longleftrightarrow> ?t + ?c \<le> ?n"
    using ring_split_iff [OF nt assms(4)] cl b by simp
  define f' where "f' = f\<lparr>tail := nt, siglog := siglog f @ [Sig_get]\<rparr>"
  have ok': "fifo_ok f'" using assms(1) nt by (simp add: f'_def fifo_ok_def)
  have len': "fifo_len f' = fifo_len f - ?c"
    using fifo_len_cases [OF ok'] fifo_len_cases [OF assms(1)] nt b cl
    by (cases "?t + ?c < ?n") (auto simp: f'_def mod_if split: if_splits)
  have rest: "fifo_list f' = drop ?c (fifo_list f)"
    using ring_drop [OF cl(1), of ?xs ?t] nt len len' by (simp add: fifo_list_def f'_def)
  have taken: "take ?c (fifo_list f) =
      (if ?t + ?c \<le> ?n then take ?c (drop ?t ?xs) else drop ?t ?xs @ take (?t + ?c - ?n) ?xs)"
    using cl b len by (simp add: fifo_list_def ring_take ring_straight ring_wrapped)
  have r: "unat (a - tc) = fifo_len f - ?c"
    using a0 tc cl by (simp add: unat_sub_if')
  have form: "fifo_nget f b bs mx = do {
      b' \<leftarrow> (if nt = 0 \<or> nt > tail f
           then do { cells \<leftarrow> mem_read ?t (unat tc) (vdata (buf f)); vec_append b cells }
           else do { cells1 \<leftarrow> mem_read ?t (?n - ?t) (vdata (buf f)); b1 \<leftarrow> vec_append b cells1;
                     cells2 \<leftarrow> mem_read 0 (unat nt) (vdata (buf f)); vec_append b1 cells2 });
      Some (a - tc, f', b') }"
    using fifo_nget_unfold [OF _ assms(3), of f tc mx nt b] a0(1) unfolding a_def tc_def nt_def f'_def
    by blast
  show ?thesis
  proof (cases "?t + ?c \<le> ?n")
    case True
    have "mem_read ?t ?c (vdata (buf f)) = Some (take ?c (drop ?t ?xs))"
      using read_cells [OF b(3) True] .
    moreover obtain b' where "vec_append b (take ?c (drop ?t ?xs)) = Some b'" "vec_ok b'"
        "vec_list b' = vec_list b @ take ?c (drop ?t ?xs)"
      using vec_append_list [OF assms(2)] by (auto simp: yields_exists)
    ultimately show ?thesis
      using form split True tc ok' rest taken r by simp
  next
    case False
    then have nt': "unat nt = ?t + ?c - ?n" using nt b cl by (auto simp: mod_if)
    have "mem_read ?t (?n - ?t) (vdata (buf f)) = Some (drop ?t ?xs)"
      using read_cells [OF b(3), of ?t "?n - ?t"] b len by simp
    moreover obtain b1 where "vec_append b (drop ?t ?xs) = Some b1" "vec_ok b1"
        "vec_list b1 = vec_list b @ drop ?t ?xs"
      using vec_append_list [OF assms(2)] by (auto simp: yields_exists)
    moreover have "mem_read 0 (unat nt) (vdata (buf f)) = Some (take (unat nt) ?xs)"
      using read_cells [OF b(3), of 0 "unat nt"] nt' b cl by simp
    moreover obtain b2 where "vec_append b1 (take (unat nt) ?xs) = Some b2" "vec_ok b2"
        "vec_list b2 = vec_list b1 @ take (unat nt) ?xs"
      using vec_append_list [OF \<open>vec_ok b1\<close>] by (auto simp: yields_exists)
    ultimately show ?thesis
      using form split False ok' rest taken r nt' by simp
  qed
qed

text \<open>
  When fewer elements wait than one group holds, nothing should move. The code takes
  the other branch and copies the whole ring to the caller, unless \<open>tail\<close> is 0.
\<close>

lemma fifo_nget_short:
  assumes "fifo_ok f" "vec_ok b" "bs \<noteq> 0" "0 < fifo_len f" "nget_count f bs mx = 0"
    "tail f \<noteq> 0"
  shows "yields (fifo_nget f b bs mx) (\<lambda>(r, f', b').
    vec_list b' = vec_list b @ rotate (unat (tail f)) (vec_list (buf f)) \<and>
    fifo_list f' = fifo_list f \<and> unat r = fifo_len f)"
proof -
  let ?n = "vsize (buf f)" and ?t = "unat (tail f)" and ?xs = "vec_list (buf f)"
  define a where "a = fifo_available f"
  define tc where "tc = (let t0 = (if a > mx then mx else a) in t0 - t0 mod bs)"
  have b: "unat (head f) < ?n" "?t < ?n" "vec_ok (buf f)" using assms by (auto simp: fifo_ok_def)
  have len: "length ?xs = ?n" using b by (simp add: vec_list_length)
  have "unat tc = 0"
    using nget_transfer_count [OF assms(1), of mx bs] unfolding tc_def a_def Let_def assms(5) .
  then have tc: "tc = 0" by (simp add: unsigned_eq_0_iff)
  have nt: "(of_nat (?t mod ?n) :: u32) = tail f"
    using b by (simp add: word_unat_eq_iff)
  have a0: "a \<noteq> 0" "unat a = fifo_len f"
    using fifo_available_len [OF assms(1)] assms(4) by (auto simp: a_def)
  define f' where "f' = f\<lparr>tail := tail f, siglog := siglog f @ [Sig_get]\<rparr>"
  have form: "fifo_nget f b bs mx = do {
      b' \<leftarrow> do { cells1 \<leftarrow> mem_read ?t (?n - ?t) (vdata (buf f)); b1 \<leftarrow> vec_append b cells1;
                     cells2 \<leftarrow> mem_read 0 ?t (vdata (buf f)); vec_append b1 cells2 };
      Some (a, f', b') }"
    using fifo_nget_unfold [OF a0(1) [unfolded a_def] assms(3) tc_def [unfolded a_def] refl, of b]
      assms(6) nt by (simp add: tc a_def f'_def)
  have "mem_read ?t (?n - ?t) (vdata (buf f)) = Some (drop ?t ?xs)"
    using read_cells [OF b(3), of ?t "?n - ?t"] b len by simp
  moreover obtain b1 where "vec_append b (drop ?t ?xs) = Some b1" "vec_ok b1"
      "vec_list b1 = vec_list b @ drop ?t ?xs"
    using vec_append_list [OF assms(2)] by (auto simp: yields_exists)
  moreover have "mem_read 0 ?t (vdata (buf f)) = Some (take ?t ?xs)"
    using read_cells [OF b(3), of 0 ?t] b by simp
  moreover obtain b2 where "vec_append b1 (take ?t ?xs) = Some b2" "vec_ok b2"
      "vec_list b2 = vec_list b1 @ take ?t ?xs"
    using vec_append_list [OF \<open>vec_ok b1\<close>] by (auto simp: yields_exists)
  moreover have "fifo_list f' = fifo_list f" by (simp add: f'_def fifo_list_def fifo_len_def)
  ultimately show ?thesis
    using form a0 b len by (simp add: rotate_drop_take)
qed

definition nadd_count :: "'a fifo \<Rightarrow> 'a vec \<Rightarrow> nat" where
  "nadd_count f src = min (vsize (buf f) - fifo_len f - unat (input_count f)) (vsize src)"

text \<open>The write half of \<open>fifo_nadd\<close>: one \<open>memcpy\<close> or two.\<close>

lemma nadd_copy_spec:
  fixes h tc nh :: u32
  assumes "vec_ok v" "vec_ok src" "unat h < vsize v" "0 < unat tc" "unat tc < vsize v"
    "unat tc \<le> vsize src" "unat nh = (unat h + unat tc) mod vsize v" "vsize v \<le> 2147483648"
  shows "yields (nadd_copy v src h tc nh)
    (\<lambda>w. vec_ok w \<and> vec_list w = ring_write (vec_list v) (unat h) (take (unat tc) (vec_list src)))"
proof -
  let ?n = "vsize v" and ?h = "unat h" and ?c = "unat tc"
  let ?xs = "vec_list v"
  define ys where "ys = take (unat tc) (vec_list src)"
  have len: "length ?xs = ?n" "length ys = ?c"
    using assms by (simp_all add: vec_list_length ys_def)
  have split: "nh = 0 \<or> nh > h \<longleftrightarrow> ?h + ?c \<le> ?n"
    using ring_split_iff [OF assms(7)] assms by simp
  show ?thesis
  proof (cases "?h + ?c \<le> ?n")
    case True
    have "mem_read 0 ?c (vdata src) = Some ys"
      using read_cells [OF assms(2), of 0 ?c] assms(6) by (simp add: ys_def)
    then show ?thesis
      using True split vec_set_at_list [OF assms(1), of ?h ys] len
      by (simp add: ring_write_def nadd_copy_def ys_def)
  next
    case False
    define t1 where "t1 = (of_nat (vsize v) - h :: u32)"
    have t1: "unat t1 = vsize v - unat h"
      using assms(3,8) by (simp add: t1_def unat_sub_if' idx_simps)
    let ?y1 = "take (?n - ?h) ys" and ?y2 = "drop (?n - ?h) ys"
    have r1: "mem_read 0 (?n - ?h) (vdata src) = Some ?y1"
      using read_cells [OF assms(2), of 0 "?n - ?h"] assms(6) False by (simp add: min_absorb1 ys_def)
    have "unat (tc - t1) = ?c - (?n - ?h)"
      using False t1 by (simp add: unat_sub_if')
    then have r2: "mem_read (unat t1) (unat (tc - t1)) (vdata src) = Some ?y2"
      using read_cells [OF assms(2), of "?n - ?h" "?c - (?n - ?h)"] assms(6) t1 False
      by (simp add: drop_take ys_def)
    have y1: "length ?y1 = ?n - ?h" "length ?y2 = ?c - (?n - ?h)"
      using False len(2) by auto
    obtain v1 where v1: "vec_set_at v ?h ?y1 = Some v1" "vec_ok v1" "vec_list v1 = take ?h ?xs @ ?y1"
      using vec_set_at_list [OF assms(1), of ?h ?y1] y1 assms(3) len by (auto simp: yields_exists)
    have "vsize v1 = ?n" using v1 y1 assms(3) len vec_list_length [OF v1(2)] by simp
    then have "yields (vec_set_at v1 0 ?y2)
        (\<lambda>w. vec_ok w \<and> vec_list w = ?y2 @ drop (length ?y2) (take ?h ?xs @ ?y1))"
      using vec_set_at_list [OF v1(2), of 0 ?y2] v1 y1 assms(5) len(2) by simp
    then have "yields (nadd_copy v src h tc nh)
        (\<lambda>w. vec_ok w \<and> vec_list w = ?y2 @ drop (length ?y2) (take ?h ?xs @ ?y1))"
      unfolding nadd_copy_def Let_def t1_def [symmetric]
      using False split r1 r2 v1 t1 by simp
    then show ?thesis
      using False y1 len by (simp add: ring_write_def Let_def flip: ys_def)
  qed
qed

text \<open>Moving \<open>head\<close> over what was written appends it to the queue.\<close>

lemma fifo_written:
  assumes "fifo_ok f" "vec_ok v" "vec_list v = ring_write (vec_list (buf f)) (unat (head f)) ys"
    "fifo_len f + length ys < vsize (buf f)" "buf f' = v" "tail f' = tail f"
    "unat (head f') = (unat (head f) + length ys) mod vsize (buf f)"
  shows "fifo_ok f' \<and> fifo_list f' = fifo_list f @ ys \<and> vsize (buf f') = vsize (buf f)"
proof -
  let ?n = "vsize (buf f)" and ?h = "unat (head f)" and ?xs = "vec_list (buf f)"
  have b: "?h < ?n" "unat (tail f) < ?n" "vec_ok (buf f)" using assms(1) by (auto simp: fifo_ok_def)
  have len: "length ?xs = ?n" using b by (simp add: vec_list_length)
  have vs: "vsize v = ?n"
    using assms(3,4) vec_list_length [OF assms(2)] ring_write_length [of ?h ?xs ys] len b by simp
  have ok': "fifo_ok f'" using assms(1,2,5,6,7) vs by (simp add: fifo_ok_def)
  have len': "fifo_len f' = fifo_len f + length ys"
  proof -
    have "unat (head f') = (if ?h + length ys < ?n then ?h + length ys else ?h + length ys - ?n)"
      using assms(4,7) b by (simp add: mod_if)
    then show ?thesis
      using fifo_len_cases [OF ok'] fifo_len_cases [OF assms(1)] assms(4-6) vs b
      by (simp split: if_splits)
  qed
  have "fifo_list f' = fifo_list f @ ys"
    using ring_write_append [of "unat (tail f)" ?xs "fifo_len f" ys] assms(3-6) vs len len' b
      fifo_head_ring [OF assms(1)] ring_write_length [of ?h ?xs ys]
    by (simp add: fifo_list_def)
  then show ?thesis using ok' vs assms(5) by simp
qed

lemma fifo_nadd_spec:
  assumes "fifo_ok f" "vec_ok src" "0 < vsize src" "0 < input_count f"
    "fifo_len f + unat (input_count f) \<le> vsize (buf f)"
  shows "yields (fifo_nadd f src) (\<lambda>(f', src'). fifo_ok f' \<and> vec_ok src' \<and>
    fifo_list f' = fifo_list f @ take (nadd_count f src) (vec_list src) \<and>
    vec_list src' = drop (nadd_count f src) (vec_list src) \<and>
    vsize (buf f') = vsize (buf f) \<and> input_count f' = input_count f)"
proof (cases "fifo_receivable f = 0")
  case True
  then have "nadd_count f src = 0"
    using fifo_receivable_unat [OF assms(1,5)] by (simp add: nadd_count_def)
  then show ?thesis using True assms by (simp add: fifo_nadd_def)
next
  case False
  let ?n = "vsize (buf f)" and ?c = "nadd_count f src"
  have rec: "unat (fifo_receivable f) = ?n - fifo_len f - unat (input_count f)"
    by (rule fifo_receivable_unat [OF assms(1,5)])
  have pos: "0 < unat (input_count f)" "0 < unat (fifo_receivable f)"
    using assms(4) False by (simp_all add: word_less_nat_alt word_unat_eq_iff)
  have b: "unat (head f) < ?n" "vec_ok (buf f)" "?n \<le> 2147483648"
    using assms(1) by (auto simp: fifo_ok_def)
  have cl: "0 < ?c" "?c \<le> vsize src" "fifo_len f + ?c < ?n" "?c < ?n"
    using rec pos assms(3) by (auto simp: nadd_count_def)
  define tc where "tc = (if unat (fifo_receivable f) < vsize src then fifo_receivable f
                         else of_nat (vsize src) :: u32)"
  have tc: "unat tc = ?c"
    using rec unat_u32_lt [of "fifo_receivable f"] by (auto simp: tc_def nadd_count_def idx_simps)
  define nh where "nh = (of_nat (unat (head f + tc) mod ?n) :: u32)"
  have nh: "unat nh = (unat (head f) + ?c) mod ?n"
    using new_index_unat [OF assms(1) b(1), of tc] tc cl by (simp add: nh_def)
  obtain v where v: "nadd_copy (buf f) src (head f) tc nh = Some v" "vec_ok v"
      "vec_list v = ring_write (vec_list (buf f)) (unat (head f)) (take ?c (vec_list src))"
    using nadd_copy_spec [OF b(2) assms(2) b(1), of tc nh] tc cl nh b(3) by (auto simp: yields_exists)
  define f' where "f' = snd (fifo_signal_shared
    (f\<lparr>buf := v, head := nh, siglog := siglog f @ [Sig_add]\<rparr>))"
  have fin: "fifo_ok f' \<and> fifo_list f' = fifo_list f @ take ?c (vec_list src) \<and> vsize (buf f') = ?n"
    using assms(2) cl nh by (intro fifo_written [OF assms(1) v(2,3)]) (auto simp: f'_def vec_list_length)
  let ?rest = "(if ?c = vsize src then Some (vec_clear src) else vec_erase src 0 ?c)"
  have rest: "yields ?rest (\<lambda>s. vec_ok s \<and> vec_list s = drop ?c (vec_list src))"
    using vec_clear_list [OF assms(2)] vec_erase_list [OF assms(2), of 0 ?c] cl assms(2)
    by (auto simp: vec_list_length)
  have "fifo_nadd f src = do { s \<leftarrow> ?rest; Some (f', s) }"
    unfolding fifo_nadd_def Let_def tc_def [symmetric] nh_def [symmetric]
    using False v(1) tc by (simp add: f'_def)
  then show ?thesis using rest fin by (simp add: yields_bind f'_def)
qed

section \<open>Construction\<close>

lemma fifo_construct_spec:
  fixes z :: 'a
  assumes "n \<le> 2147483648"
  shows "yields (fifo_construct z n) (\<lambda>f. fifo_ok f \<and> fifo_list f = [] \<and> is_open f \<and>
    vec_list (buf f) = replicate (max 2 (unat n)) (Some z) \<and> input_count f = 0)"
proof -
  define m where "m = (if n \<le> 1 then 2 else n)"
  have m: "unat m = max 2 (unat n)" "2 \<le> unat m" "unat m \<le> 2147483648"
    using assms by (auto simp: m_def word_le_nat_alt max_def)
  have "yields (vec_resize_and_zero z vec_construct (unat m))
      (\<lambda>v. vec_ok v \<and> vsize v = unat m \<and> vec_list v = replicate (unat m) (Some z))"
  proof -
    have "vsize (vec_construct :: 'a vec) = 0" "\<not> unat m < valloc (vec_construct :: 'a vec)"
      using m(2) by (simp_all add: vec_construct_def)
    then show ?thesis using vec_resize_and_zero_list [OF vec_ok_construct, of "unat m" z] by simp
  qed
  then show ?thesis
    using m by (auto simp: fifo_construct_def Let_def yields_exists fifo_ok_def fifo_list_def
        fifo_len_def ring_def simp flip: m_def)
qed

lemma fifo_reset_spec:
  "fifo_ok f \<Longrightarrow> fifo_ok (fifo_reset f) \<and> fifo_list (fifo_reset f) = [] \<and> is_open (fifo_reset f)"
  by (auto simp: fifo_reset_def fifo_ok_def fifo_list_def fifo_len_def ring_def)

lemma fifo_set_full_spec:
  assumes "fifo_ok f"
  shows "fifo_ok (fifo_set_full f) \<and>
    fifo_list (fifo_set_full f) = take (vsize (buf f) - 1) (vec_list (buf f))"
proof -
  have b: "vec_ok (buf f)" "2 \<le> vsize (buf f)" "vsize (buf f) \<le> 2147483648"
    using assms by (auto simp: fifo_ok_def)
  have h: "unat (of_nat (vsize (buf f) - 1) :: u32) = vsize (buf f) - 1"
    using b by (intro unat_of_nat_u32) simp
  have ok: "fifo_ok (fifo_set_full f)"
    using assms b h by (simp add: fifo_ok_def fifo_set_full_def)
  then have "fifo_len (fifo_set_full f) = vsize (buf f) - 1"
    using h by (simp add: fifo_len_cases fifo_set_full_def)
  then show ?thesis
    using ok b by (simp add: fifo_list_def fifo_set_full_def ring_straight vec_list_length)
qed

section \<open>The consumer loop\<close>

text \<open>
  The loop by which every process drains an input:
  \<open>for (it = fifo_begin(in); it != fifo_end(in); it = fifo_iter(in))\<close>, collecting the
  cells it visits. \<open>fuel\<close> bounds the number of rounds.
\<close>

fun fifo_loop :: "nat \<Rightarrow> 'a fifo \<Rightarrow> nat \<Rightarrow> 'a option list \<Rightarrow> ('a option list \<times> 'a fifo) option" where
  "fifo_loop 0 f it acc = None"
| "fifo_loop (Suc fuel) f it acc =
     (if it = fifo_end f then Some (acc, f)
      else do {
        x \<leftarrow> vec_at (buf f) it;
        let (it', f') = fifo_iter f;
        fifo_loop fuel f' it' (acc @ [x])
      })"

definition fifo_drain :: "nat \<Rightarrow> 'a fifo \<Rightarrow> ('a option list \<times> 'a fifo) option" where
  "fifo_drain fuel f = (let (it, f') = fifo_begin f in fifo_loop fuel f' it [])"

lemma fifo_loop_spec:
  assumes "fifo_ok f" "iter_head f = head f" "fifo_len f < fuel"
  shows "yields (fifo_loop fuel f (unat (tail f)) acc)
    (\<lambda>(out, g). out = acc @ fifo_list f \<and> fifo_ok g \<and> fifo_list g = [])"
  using assms
proof (induction fuel arbitrary: f acc)
  case 0
  then show ?case by simp
next
  case (Suc fuel)
  have at_end: "unat (tail f) = fifo_end f \<longleftrightarrow> fifo_list f = []"
    using Suc.prems fifo_is_empty_len [OF Suc.prems(1)] unfolding fifo_is_empty_def
    by (metis fifo_end_def fifo_list_length length_0_conv word_unat_eq_iff)
  show ?case
  proof (cases "fifo_list f = []")
    case True
    then show ?thesis using at_end Suc.prems by simp
  next
    case False
    obtain i g where g: "fifo_get f = (i, g)" by force
    note get = fifo_get_spec [OF Suc.prems(1) False g]
    define f' where "f' = snd (fifo_iter f)"
    have it: "fifo_iter f = (unat (tail f'), f')" by (simp add: f'_def fifo_iter_def Let_def)
    have same: "buf f' = buf g" "head f' = head g" "tail f' = tail g" "i = unat (tail f)"
        "iter_head f' = head f'"
      using g Suc.prems(2) by (auto simp: f'_def fifo_iter_def fifo_get_def Let_def)
    then have eq: "fifo_ok f' = fifo_ok g" "fifo_list f' = fifo_list g" "fifo_len f' = fifo_len g"
      by (simp_all add: fifo_ok_def fifo_list_def fifo_len_def)
    have "fifo_len g < fuel"
    proof -
      have "length (fifo_list g) = length (fifo_list f) - 1" using get by simp
      moreover have "length (fifo_list f) \<noteq> 0" using False by (simp del: fifo_list_length)
      ultimately show ?thesis using Suc.prems(3) unfolding fifo_list_length by linarith
    qed
    then have "yields (fifo_loop fuel f' (unat (tail f')) (acc @ [hd (fifo_list f)]))
        (\<lambda>(out, g). out = (acc @ [hd (fifo_list f)]) @ fifo_list f' \<and> fifo_ok g \<and> fifo_list g = [])"
      using get eq(1,3) same(5) by (intro Suc.IH) simp_all
    moreover have "vec_at (buf f) (unat (tail f)) = Some (hd (fifo_list f))"
      using get same(4) by blast
    then have "fifo_loop (Suc fuel) f (unat (tail f)) acc =
        fifo_loop fuel f' (unat (tail f')) (acc @ [hd (fifo_list f)])"
      using at_end False it by simp
    moreover have "hd (fifo_list f) # fifo_list f' = fifo_list f"
      using get eq(2) False by simp
    ultimately show ?thesis by simp
  qed
qed

lemma fifo_drain_spec:
  assumes "fifo_ok f" "fifo_len f < fuel"
  shows "yields (fifo_drain fuel f) (\<lambda>(out, g). out = fifo_list f \<and> fifo_ok g \<and> fifo_list g = [])"
proof -
  let ?f = "f\<lparr>iter_head := of_nat (unat (head f) mod vsize (buf f))\<rparr>"
  have "(of_nat (unat (head f) mod vsize (buf f)) :: u32) = head f"
    using assms(1) by (simp add: fifo_ok_def)
  then have "iter_head ?f = head ?f" by simp
  moreover have "fifo_ok ?f" "fifo_len ?f = fifo_len f" "fifo_list ?f = fifo_list f"
    using assms(1) by (simp_all add: fifo_ok_def fifo_len_def fifo_list_def)
  ultimately show ?thesis
    using fifo_loop_spec [of ?f fuel "[]"] assms(2) by (simp add: fifo_drain_def fifo_begin_def)
qed

section \<open>A bounded queue\<close>

text \<open>
  The interface the processes program against: a queue with a known amount of room.
  A schedule of puts and gets that respects the room and never reads an empty queue
  runs to the end and delivers first in, first out.
\<close>

datatype 'e qop = Put 'e | Get

fun fits :: "nat \<Rightarrow> nat \<Rightarrow> 'e qop list \<Rightarrow> bool" where
  "fits room len [] = True"
| "fits room len (Put x # ops) = (0 < room \<and> fits (room - 1) (len + 1) ops)"
| "fits room len (Get # ops) = (0 < len \<and> fits (room + 1) (len - 1) ops)"

fun puts :: "'e qop list \<Rightarrow> 'e list" where
  "puts [] = []"
| "puts (Put x # ops) = x # puts ops"
| "puts (Get # ops) = puts ops"

fun queue_run ::
    "('q \<Rightarrow> 'e \<Rightarrow> 'q option) \<Rightarrow> ('q \<Rightarrow> ('e \<times> 'q) option) \<Rightarrow> 'q \<Rightarrow> 'e qop list \<Rightarrow> ('e list \<times> 'q) option"
where
  "queue_run put get q [] = Some ([], q)"
| "queue_run put get q (Put x # ops) = put q x \<bind> (\<lambda>r. queue_run put get r ops)"
| "queue_run put get q (Get # ops) = do {
     (x, r) \<leftarrow> get q;
     (out, s) \<leftarrow> queue_run put get r ops;
     Some (x # out, s)
   }"

locale bounded_queue =
  fixes ok :: "'q \<Rightarrow> bool"
    and contents :: "'q \<Rightarrow> 'e list"
    and room :: "'q \<Rightarrow> nat"
    and put :: "'q \<Rightarrow> 'e \<Rightarrow> 'q option"
    and get :: "'q \<Rightarrow> ('e \<times> 'q) option"
  assumes put_queue: "ok q \<Longrightarrow> 0 < room q \<Longrightarrow>
      yields (put q x) (\<lambda>r. ok r \<and> contents r = contents q @ [x] \<and> room r = room q - 1)"
    and get_queue: "ok q \<Longrightarrow> contents q \<noteq> [] \<Longrightarrow>
      yields (get q) (\<lambda>(x, r). ok r \<and> contents q = x # contents r \<and> room r = room q + 1)"
begin

lemma run_fifo:
  "ok q \<Longrightarrow> fits (room q) (length (contents q)) ops \<Longrightarrow>
   yields (queue_run put get q ops) (\<lambda>(out, r). ok r \<and> out @ contents r = contents q @ puts ops)"
proof (induction ops arbitrary: q)
  case Nil
  then show ?case by simp
next
  case (Cons op ops)
  show ?case
  proof (cases op)
    case (Put x)
    with Cons.prems obtain r where r: "put q x = Some r" "ok r" "contents r = contents q @ [x]"
        "room r = room q - 1"
      using put_queue [of q x] by (auto simp: yields_exists)
    then show ?thesis using Cons.IH [of r] Cons.prems Put by simp
  next
    case Get
    with Cons.prems obtain x r where r: "get q = Some (x, r)" "ok r" "contents q = x # contents r"
        "room r = room q + 1"
      using get_queue [of q] by (auto simp: yields_exists)
    then have "yields (queue_run put get r ops) (\<lambda>(out, s). ok s \<and> out @ contents s = contents r @ puts ops)"
      using Cons.prems Get by (intro Cons.IH) simp_all
    then show ?thesis using r Get by (auto simp: yields_exists)
  qed
qed

end

definition fifo_room :: "'a fifo \<Rightarrow> nat" where
  "fifo_room f = vsize (buf f) - 1 - fifo_len f"

definition fifo_take :: "'a fifo \<Rightarrow> ('a option \<times> 'a fifo) option" where
  "fifo_take f = (let (i, f') = fifo_get f in do { x \<leftarrow> vec_at (buf f') i; Some (x, f') })"

lemma fifo_add_queue:
  assumes "fifo_ok f" "0 < fifo_room f"
  shows "yields (fifo_add f x)
    (\<lambda>r. fifo_ok r \<and> fifo_list r = fifo_list f @ [x] \<and> fifo_room r = fifo_room f - 1)"
proof -
  have "fifo_len f + 1 < vsize (buf f)" using assms(2) by (simp add: fifo_room_def)
  from fifo_add_spec [OF assms(1) this] obtain r where r: "fifo_add f x = Some r" "fifo_ok r"
      "fifo_list r = fifo_list f @ [x]" "vsize (buf r) = vsize (buf f)"
    by (auto simp: yields_exists)
  moreover have "fifo_len r = fifo_len f + 1"
    using arg_cong [OF r(3), of length] by simp
  ultimately show ?thesis by (simp add: fifo_room_def)
qed

lemma fifo_take_queue:
  assumes "fifo_ok f" "fifo_list f \<noteq> []"
  shows "yields (fifo_take f)
    (\<lambda>(x, r). fifo_ok r \<and> fifo_list f = x # fifo_list r \<and> fifo_room r = fifo_room f + 1)"
proof -
  obtain i r where r: "fifo_get f = (i, r)" by force
  note * = fifo_get_spec [OF assms r]
  have "length (fifo_list r) = length (fifo_list f) - 1" using * by simp
  moreover have "length (fifo_list f) \<noteq> 0" using assms(2) by (simp del: fifo_list_length)
  ultimately have "fifo_room r = fifo_room f + 1"
    using * fifo_len_less [OF assms(1)] unfolding fifo_list_length by (simp add: fifo_room_def)
  then show ?thesis using * r assms(2) by (simp add: fifo_take_def)
qed

interpretation fq: bounded_queue fifo_ok fifo_list fifo_room fifo_add fifo_take
  by unfold_locales (use fifo_add_queue fifo_take_queue in \<open>auto\<close>)

end
