(* ===== verification/FifoConc.thy ===== *)
theory FifoConc
  imports Fifo
begin

text \<open>
  Processes on both ends of one fifo. A producer tests \<open>fifo_receivable\<close> at the top
  of its loop and adds later, with other threads running in between; the consumer
  keeps the pointer that \<open>fifo_get\<close> gave it until it calls again. \<open>sent\<close> and \<open>got\<close>
  record the elements in the order in which they entered and left.
\<close>

record 'a pipe =
  ring_buf :: "'a fifo"
  ready :: "nat set"
  held :: "(nat \<times> 'a option) option"
  sent :: "'a option list"
  got :: "'a option list"

inductive pipe_step :: "'a pipe \<Rightarrow> 'a pipe \<Rightarrow> bool" where
  check: "p < unat (input_count (ring_buf s)) \<Longrightarrow> fifo_receivable (ring_buf s) \<noteq> 0 \<Longrightarrow>
    pipe_step s (s\<lparr>ready := insert p (ready s)\<rparr>)"
| add: "p \<in> ready s \<Longrightarrow> fifo_add (ring_buf s) x = Some f' \<Longrightarrow>
    pipe_step s (s\<lparr>ring_buf := f', ready := ready s - {p}, sent := sent s @ [x]\<rparr>)"
| get: "fifo_available (ring_buf s) \<noteq> 0 \<Longrightarrow> fifo_get (ring_buf s) = (i, f') \<Longrightarrow>
    vec_at (buf (ring_buf s)) i = Some x \<Longrightarrow>
    pipe_step s (s\<lparr>ring_buf := f', held := Some (i, x), got := got s @ [x]\<rparr>)"

inductive_cases pipe_stepE: "pipe_step s t"

inductive pipe_reach :: "'a fifo \<Rightarrow> 'a pipe \<Rightarrow> bool" for f0 where
  start: "pipe_reach f0 \<lparr>ring_buf = f0, ready = {}, held = None, sent = [], got = []\<rparr>"
| step: "pipe_reach f0 s \<Longrightarrow> pipe_step s t \<Longrightarrow> pipe_reach f0 t"

text \<open>With one producer the check stays good until the add, whatever the consumer does.\<close>

definition pipe_inv :: "'a pipe \<Rightarrow> bool" where
  "pipe_inv s \<longleftrightarrow>
     (let f = ring_buf s; n = vsize (buf f) in
      fifo_ok f \<and> input_count f = 1 \<and> ready s \<subseteq> {0} \<and>
      fifo_len f + 1 + card (ready s) \<le> n \<and>
      sent s = got s @ fifo_list f \<and>
      (\<forall>i x. held s = Some (i, x) \<longrightarrow>
         i < n \<and> (i + 1) mod n = unat (tail f) \<and> vec_list (buf f) ! i = x))"

lemma pipe_inv_start:
  assumes "fifo_ok f" "fifo_list f = []" "input_count f = 1"
  shows "pipe_inv \<lparr>ring_buf = f, ready = {}, held = None, sent = [], got = []\<rparr>"
proof -
  have "fifo_len f = 0" using arg_cong [OF assms(2), of length] by simp
  then show ?thesis using assms by (simp add: pipe_inv_def fifo_ok_def)
qed

lemma pipe_inv_check:
  assumes "pipe_inv s" "p < unat (input_count (ring_buf s))" "fifo_receivable (ring_buf s) \<noteq> 0"
  shows "pipe_inv (s\<lparr>ready := insert p (ready s)\<rparr>)"
proof -
  let ?f = "ring_buf s"
  have inv: "fifo_ok ?f" "input_count ?f = 1" "ready s \<subseteq> {0}" "fifo_len ?f + 1 \<le> vsize (buf ?f)"
    using assms(1) by (auto simp: pipe_inv_def Let_def)
  have "unat (fifo_receivable ?f) = vsize (buf ?f) - fifo_len ?f - 1"
    using fifo_receivable_unat [OF inv(1)] inv by simp
  moreover have "unat (fifo_receivable ?f) \<noteq> 0" using assms(3) by (simp add: word_unat_eq_iff)
  ultimately have room: "fifo_len ?f + 2 \<le> vsize (buf ?f)" by simp
  have eq: "insert p (ready s) = {0}" using assms(2) inv by auto
  show ?thesis unfolding eq using assms(1) room by (simp add: pipe_inv_def Let_def)
qed

text \<open>The cell just read is the one before \<open>tail\<close>; an add with room to spare is elsewhere.\<close>

lemma head_not_before_tail:
  assumes "fifo_ok f" "fifo_len f + 1 < vsize (buf f)" "(i + 1) mod vsize (buf f) = unat (tail f)"
    "i < vsize (buf f)"
  shows "unat (head f) \<noteq> i"
proof
  assume eq: "unat (head f) = i"
  show False
  proof (cases "i + 1 = vsize (buf f)")
    case True
    then show False using assms eq fifo_len_cases [OF assms(1)] by simp
  next
    case False
    then have "unat (tail f) = i + 1" using assms(3,4) by simp
    then show False using assms(2,4) eq fifo_len_cases [OF assms(1)] by simp
  qed
qed

lemma pipe_inv_add:
  assumes "pipe_inv s" "p \<in> ready s" "fifo_add (ring_buf s) x = Some f'"
  shows "pipe_inv (s\<lparr>ring_buf := f', ready := ready s - {p}, sent := sent s @ [x]\<rparr>)"
proof -
  let ?f = "ring_buf s"
  have r: "ready s = {0}" "p = 0" using assms(1,2) by (auto simp: pipe_inv_def Let_def)
  then have inv: "fifo_ok ?f" "input_count ?f = 1" "fifo_len ?f + 1 < vsize (buf ?f)"
      "sent s = got s @ fifo_list ?f"
    using assms(1) by (auto simp: pipe_inv_def Let_def)
  have f': "fifo_ok f'" "fifo_list f' = fifo_list ?f @ [x]" "tail f' = tail ?f"
      "vsize (buf f') = vsize (buf ?f)" "input_count f' = 1"
      "vec_list (buf f') = (vec_list (buf ?f))[unat (head ?f) := x]"
    using fifo_add_spec [OF inv(1,3), of x] assms(3) inv(2) by (auto simp: yields_exists)
  have len: "fifo_len f' = fifo_len ?f + 1" using arg_cong [OF f'(2), of length] by simp
  have "vec_list (buf f') ! i = y" if "held s = Some (i, y)" for i y
  proof -
    have h: "i < vsize (buf ?f)" "(i + 1) mod vsize (buf ?f) = unat (tail ?f)"
        "vec_list (buf ?f) ! i = y"
      using assms(1) that by (auto simp: pipe_inv_def Let_def)
    then show ?thesis using head_not_before_tail [OF inv(1,3) h(2,1)] f'(6) by simp
  qed
  then show ?thesis
    using assms(1) r inv f' len by (auto simp: pipe_inv_def Let_def)
qed

lemma pipe_inv_get:
  assumes "pipe_inv s" "fifo_available (ring_buf s) \<noteq> 0" "fifo_get (ring_buf s) = (i, f')"
    "vec_at (buf (ring_buf s)) i = Some x"
  shows "pipe_inv (s\<lparr>ring_buf := f', held := Some (i, x), got := got s @ [x]\<rparr>)"
proof -
  let ?f = "ring_buf s"
  have inv: "fifo_ok ?f" "sent s = got s @ fifo_list ?f" "input_count ?f = 1" "ready s \<subseteq> {0}"
      "fifo_len ?f + 1 + card (ready s) \<le> vsize (buf ?f)"
    using assms(1) by (auto simp: pipe_inv_def Let_def)
  have pos: "fifo_len ?f \<noteq> 0"
    using fifo_available_len [OF inv(1)] assms(2) by (auto simp: word_unat_eq_iff)
  then have ne: "fifo_list ?f \<noteq> []" by (metis fifo_list_length list.size(3))
  note g = fifo_get_spec [OF inv(1) ne assms(3)]
  have it: "i = unat (tail ?f)" "tail f' = idx_adv ?f (tail ?f)" "input_count f' = input_count ?f"
    using assms(3) by (auto simp: fifo_get_def)
  have b: "unat (tail ?f) < vsize (buf ?f)" "vec_ok (buf ?f)" using inv(1) by (auto simp: fifo_ok_def)
  have t': "unat (tail f') = (i + 1) mod vsize (buf ?f)"
    using idx_adv_unat [OF inv(1) b(1)] it by simp
  have len: "fifo_len f' = fifo_len ?f - 1" using g by (metis fifo_list_length length_tl)
  have x: "x = hd (fifo_list ?f)" "vec_list (buf ?f) ! i = x"
    using g assms(4) vec_at_list [OF b(2,1)] it(1) by auto
  have "got s @ fifo_list ?f = (got s @ [x]) @ fifo_list f'"
    using g ne x(1) by simp
  then show ?thesis
    using inv g it b t' len x(2) unfolding pipe_inv_def Let_def by simp
qed

lemma pipe_reach_inv:
  assumes "pipe_reach f s" "fifo_ok f" "fifo_list f = []" "input_count f = 1"
  shows "pipe_inv s"
  using assms
proof (induction rule: pipe_reach.induct)
  case start
  then show ?case by (simp add: pipe_inv_start)
next
  case (step s t)
  from step.hyps(2) step.IH [OF step.prems] show ?case
    by (elim pipe_stepE) (simp_all add: pipe_inv_check pipe_inv_add pipe_inv_get)
qed

section \<open>Executions that go on for ever\<close>

text \<open>
  An execution makes step after step; the consumer is fair: when elements are there from some
  moment on, it takes one at some time.
\<close>

definition execution :: "'a fifo \<Rightarrow> (nat \<Rightarrow> 'a pipe) \<Rightarrow> bool" where
  "execution f0 r = (pipe_reach f0 (r 0) \<and> (\<forall>i. pipe_step (r i) (r (Suc i))))"

definition consumer_fair :: "(nat \<Rightarrow> 'a pipe) \<Rightarrow> bool" where
  "consumer_fair r = (\<forall>i. (\<forall>j\<ge>i. fifo_available (ring_buf (r j)) \<noteq> 0) \<longrightarrow> (\<exists>j\<ge>i. length (got (r j)) < length (got (r (Suc j)))))"

lemma fifo_add_size: "fifo_add f x = Some f' \<Longrightarrow> vsize (buf f') = vsize (buf f)"
  by (auto simp: fifo_add_def vec_set_at_def Let_def split: bind_splits)

lemma pipe_reach_size: "pipe_reach f0 s \<Longrightarrow> vsize (buf (ring_buf s)) = vsize (buf f0)"
proof (induction rule: pipe_reach.induct)
  case (step s t)
  from step.hyps(2) step.IH show ?case
    by (elim pipe_stepE) (auto simp: fifo_add_size fifo_get_def)
qed simp

lemma execution_reach: "execution f0 r \<Longrightarrow> pipe_reach f0 (r i)"
  by (induction i) (auto simp: execution_def intro: pipe_reach.step)

lemma step_grows: "pipe_step s t \<Longrightarrow> (\<exists>u. got t = got s @ u) \<and> (\<exists>u. sent t = sent s @ u)"
  by (elim pipe_stepE) simp_all

lemma execution_grows:
  assumes "execution f0 r" "i \<le> j"
  shows "(\<exists>u. got (r j) = got (r i) @ u) \<and> (\<exists>u. sent (r j) = sent (r i) @ u)"
  using assms(2)
proof (induction j rule: dec_induct)
  case (step j)
  have "pipe_step (r j) (r (Suc j))" using assms(1) by (simp add: execution_def)
  from step_grows [OF this] step.IH show ?case by (metis append.assoc)
qed simp

lemma execution_inv:
  assumes "execution f0 r" "fifo_ok f0" "fifo_list f0 = []" "input_count f0 = 1"
  shows "fifo_ok (ring_buf (r i)) \<and> input_count (ring_buf (r i)) = 1 \<and> ready (r i) \<subseteq> {0} \<and>
    fifo_len (ring_buf (r i)) + 1 + card (ready (r i)) \<le> vsize (buf (ring_buf (r i))) \<and>
    sent (r i) = got (r i) @ fifo_list (ring_buf (r i))"
  using pipe_reach_inv [OF execution_reach [OF assms(1)] assms(2-4)] by (simp add: pipe_inv_def Let_def)

text \<open>Whatever has been sent arrives: by induction on what is still in the ring.\<close>

lemma delivered:
  assumes "execution f0 r" "fifo_ok f0" "fifo_list f0 = []" "input_count f0 = 1" "consumer_fair r"
  shows "n \<le> length (sent (r i)) \<Longrightarrow> \<exists>j\<ge>i. n \<le> length (got (r j))"
proof (induction "n - length (got (r i))" arbitrary: i rule: less_induct)
  case less
  note inv = execution_inv [OF assms(1-4)]
  show ?case
  proof (rule ccontr)
    assume no: "\<not> (\<exists>j\<ge>i. n \<le> length (got (r j)))"
    have "fifo_available (ring_buf (r j)) \<noteq> 0" if "i \<le> j" for j
    proof -
      have "n \<le> length (sent (r j))" using execution_grows [OF assms(1) that] less.prems by auto
      moreover have "length (got (r j)) < n" using no that by (meson not_le)
      moreover have "length (sent (r j)) = length (got (r j)) + fifo_len (ring_buf (r j))"
        using inv [of j] by simp
      ultimately have "fifo_len (ring_buf (r j)) \<noteq> 0" by linarith
      then show ?thesis using fifo_available_len [of "ring_buf (r j)"] inv [of j] by auto
    qed
    then obtain j where j: "i \<le> j" "length (got (r j)) < length (got (r (Suc j)))"
      using assms(5) unfolding consumer_fair_def by blast
    have "length (got (r i)) \<le> length (got (r j))" using execution_grows [OF assms(1) j(1)] by auto
    moreover have "length (got (r (Suc j))) < n" using no j(1) by (meson le_SucI not_le)
    ultimately have "n - length (got (r (Suc j))) < n - length (got (r i))" using j(2) by linarith
    moreover have "n \<le> length (sent (r (Suc j)))" using execution_grows [OF assms(1), of i "Suc j"] j(1) less.prems by auto
    ultimately obtain k where "Suc j \<le> k" "n \<le> length (got (r k))" using less.hyps by blast
    then show False using no j(1) by (meson Suc_leD le_trans)
  qed
qed

text \<open>A full ring does not stay full.\<close>

lemma room_again:
  assumes "execution f0 r" "fifo_ok f0" "fifo_list f0 = []" "input_count f0 = 1" "consumer_fair r" "1 < vsize (buf f0)"
  shows "\<exists>j\<ge>i. 0 \<in> ready (r j) \<or> fifo_receivable (ring_buf (r j)) \<noteq> 0"
proof (rule ccontr)
  assume no: "\<not> (\<exists>j\<ge>i. 0 \<in> ready (r j) \<or> fifo_receivable (ring_buf (r j)) \<noteq> 0)"
  note inv = execution_inv [OF assms(1-4)]
  obtain j where j: "i \<le> j" "length (sent (r i)) \<le> length (got (r j))"
    using delivered [OF assms(1-5), of "length (sent (r i))" i] by auto
  have same: "sent (r k) = sent (r i)" if "i \<le> k" for k
    using that
  proof (induction k rule: dec_induct)
    case (step k)
    have "pipe_step (r k) (r (Suc k))" using assms(1) by (simp add: execution_def)
    moreover have "ready (r k) = {}" using no step.hyps(1) inv [of k] by auto
    ultimately have "sent (r (Suc k)) = sent (r k)" by (elim pipe_stepE) auto
    then show ?case using step.IH by simp
  qed simp
  have "length (sent (r j)) = length (got (r j)) + fifo_len (ring_buf (r j))"
    using inv [of j] by simp
  then have len: "fifo_len (ring_buf (r j)) = 0" using j(2) same [OF j(1)] by simp
  have size: "vsize (buf (ring_buf (r j))) = vsize (buf f0)"
    using pipe_reach_size [OF execution_reach [OF assms(1)]] .
  have "fifo_receivable (ring_buf (r j)) \<noteq> 0"
    using fifo_receivable_unat [of "ring_buf (r j)"] inv [of j] len size assms(6) by auto
  then show False using no j(1) by blast
qed

text \<open>
  With two producers both can pass the check on the last free cell. After the two
  adds \<open>fifo_receivable\<close> wraps below zero, a third add meets \<open>tail\<close>, and the ring
  reads as empty.
\<close>

definition ring2 :: "nat fifo" where
  "ring2 = \<lparr>buf = \<lparr>vdata = [Some 0, Some 0, Some 0, Some 0], vsize = 3, valloc = 4\<rparr>,
     shared_mutex_fifo = None, input_count = 2, head = 0, tail = 0, iter_head = 0,
     is_open = True, siglog = []\<rparr>"

definition ring2_7 :: "nat fifo" where "ring2_7 = the (fifo_add ring2 (Some 7))"
definition ring2_78 :: "nat fifo" where "ring2_78 = the (fifo_add ring2_7 (Some 8))"
definition ring2_789 :: "nat fifo" where "ring2_789 = the (fifo_add ring2_78 (Some 9))"

lemma ring2_run:
  "fifo_receivable ring2 \<noteq> 0" "fifo_receivable ring2_78 \<noteq> 0"
  "fifo_add ring2 (Some 7) = Some ring2_7" "fifo_add ring2_7 (Some 8) = Some ring2_78"
  "fifo_add ring2_78 (Some 9) = Some ring2_789" "fifo_list ring2_789 = []"
  "unat (input_count ring2) = 2" "unat (input_count ring2_78) = 2"
  by code_simp+

lemma two_producers_lose:
  "\<exists>s. pipe_reach ring2 s \<and> sent s = [Some 7, Some 8, Some 9] \<and> got s = [] \<and> fifo_list (ring_buf s) = []"
proof -
  let ?p = "\<lambda>f r l. \<lparr>ring_buf = f, ready = r, held = None, sent = l, got = []\<rparr> :: nat pipe"
  have "pipe_reach ring2 (?p ring2 {} [])" by (rule pipe_reach.start)
  moreover have "pipe_step (?p ring2 {} []) (?p ring2 {0} [])"
    using pipe_step.check [of 0 "?p ring2 {} []"] ring2_run by simp
  moreover have "pipe_step (?p ring2 {0} []) (?p ring2 {1, 0} [])"
    using pipe_step.check [of 1 "?p ring2 {0} []"] ring2_run by simp
  moreover have "pipe_step (?p ring2 {1, 0} []) (?p ring2_7 {1} [Some 7])"
    using pipe_step.add [of 0 "?p ring2 {1, 0} []" "Some 7" ring2_7] ring2_run
    by (simp add: insert_Diff_if)
  moreover have "pipe_step (?p ring2_7 {1} [Some 7]) (?p ring2_78 {} [Some 7, Some 8])"
    using pipe_step.add [of 1 "?p ring2_7 {1} [Some 7]"] ring2_run by simp
  moreover have "pipe_step (?p ring2_78 {} [Some 7, Some 8]) (?p ring2_78 {0} [Some 7, Some 8])"
    using pipe_step.check [of 0 "?p ring2_78 {} [Some 7, Some 8]"] ring2_run by simp
  moreover have "pipe_step (?p ring2_78 {0} [Some 7, Some 8]) (?p ring2_789 {} [Some 7, Some 8, Some 9])"
    using pipe_step.add [of 0 "?p ring2_78 {0} [Some 7, Some 8]"] ring2_run by simp
  ultimately have "pipe_reach ring2 (?p ring2_789 {} [Some 7, Some 8, Some 9])"
    by (meson pipe_reach.step)
  then show ?thesis using ring2_run by (intro exI [of _ "?p ring2_789 {} [Some 7, Some 8, Some 9]"]) simp
qed

lemma ring2_ok: "fifo_ok ring2" "fifo_list ring2 = []" "input_count ring2 = 2"
  by (simp_all add: ring2_def fifo_ok_def vec_ok_def fifo_list_def fifo_len_def ring_def)

lemma ring2_78_ok: "fifo_ok ring2_78" "fifo_list ring2_78 = [Some 7, Some 8]" "fifo_len ring2_78 = 2"
proof -
  have v: "vsize (buf ring2) = 3" by (simp add: ring2_def)
  have "fifo_len ring2 = 0" using fifo_list_length [of ring2] ring2_ok by simp
  then have 1: "fifo_ok ring2_7" "fifo_list ring2_7 = [Some 7]" "vsize (buf ring2_7) = 3"
    using fifo_add_spec [of ring2 "Some 7"] ring2_ok ring2_run v by simp_all
  have "fifo_len ring2_7 = 1" using fifo_list_length [of ring2_7] 1(2) by simp
  then show 2: "fifo_ok ring2_78" "fifo_list ring2_78 = [Some 7, Some 8]"
    using fifo_add_spec [of ring2_7 "Some 8"] ring2_run 1 by simp_all
  show "fifo_len ring2_78 = 2" using fifo_list_length [of ring2_78] 2(2) by simp
qed

text \<open>The run: a check, an add, a get, and then checks for ever.\<close>

definition run_ring :: "nat \<Rightarrow> nat pipe" where
  "run_ring n =
     (let f = ring2\<lparr>input_count := 1\<rparr>; f1 = the (fifo_add f (Some 5)); f2 = snd (fifo_get f1) in
      if n = 0 then \<lparr>ring_buf = f, ready = {}, held = None, sent = [], got = []\<rparr>
      else if n = 1 then \<lparr>ring_buf = f, ready = {0}, held = None, sent = [], got = []\<rparr>
      else if n = 2 then \<lparr>ring_buf = f1, ready = {}, held = None, sent = [Some 5], got = []\<rparr>
      else if n = 3 then \<lparr>ring_buf = f2, ready = {}, held = Some (0, Some 5), sent = [Some 5], got = [Some 5]\<rparr>
      else \<lparr>ring_buf = f2, ready = {0}, held = Some (0, Some 5), sent = [Some 5], got = [Some 5]\<rparr>)"

lemma run_ring_cells:
  "let f = ring2\<lparr>input_count := 1\<rparr>; f1 = the (fifo_add f (Some 5)); f2 = snd (fifo_get f1) in
   fifo_add f (Some 5) = Some f1 \<and> fifo_get f1 = (0, f2) \<and> vec_at (buf f1) 0 = Some (Some 5) \<and>
   fifo_receivable f \<noteq> 0 \<and> fifo_available f1 \<noteq> 0 \<and> fifo_receivable f2 \<noteq> 0 \<and> fifo_available f2 = 0 \<and>
   input_count f = 1 \<and> input_count f2 = 1"
  by code_simp

lemma run_ring_execution: "execution (ring2\<lparr>input_count := 1\<rparr>) run_ring"
proof -
  note c = run_ring_cells [unfolded Let_def]
  have "pipe_step (run_ring n) (run_ring (Suc n))" for n
  proof -
    consider "n = 0" | "n = 1" | "n = 2" | "n = 3" | "3 < n" by linarith
    then show ?thesis
    proof cases
      case 1
      then show ?thesis using c pipe_step.check [of 0 "run_ring 0"] by (simp add: run_ring_def Let_def)
    next
      case 2
      then show ?thesis using c pipe_step.add [of 0 "run_ring 1"] by (simp add: run_ring_def Let_def numeral_2_eq_2)
    next
      case 3
      then show ?thesis using c pipe_step.get [of "run_ring 2"] by (simp add: run_ring_def Let_def)
    next
      case 4
      then show ?thesis using c pipe_step.check [of 0 "run_ring 3"] by (simp add: run_ring_def Let_def)
    next
      case 5
      then show ?thesis using c pipe_step.check [of 0 "run_ring 4"] by (simp add: run_ring_def Let_def)
    qed
  qed
  moreover have "pipe_reach (ring2\<lparr>input_count := 1\<rparr>) (run_ring 0)"
    by (simp add: run_ring_def Let_def pipe_reach.start)
  ultimately show ?thesis by (simp add: execution_def)
qed

lemma run_ring_fair: "consumer_fair run_ring"
  unfolding consumer_fair_def
proof (intro allI impI)
  fix i :: nat
  assume "\<forall>j\<ge>i. fifo_available (ring_buf (run_ring j)) \<noteq> 0"
  then have "fifo_available (ring_buf (run_ring (i + 4))) \<noteq> 0" by simp
  then have False using run_ring_cells by (simp add: run_ring_def Let_def)
  then show "\<exists>j\<ge>i. length (got (run_ring j)) < length (got (run_ring (Suc j)))" ..
qed

end
