(* ===== verification/Field.thy ===== *)
theory Field
  imports FqlPrelude "HOL-Library.Signed_Division"
begin

text \<open>
  Values (lib/field.c), the conversion of text to integers (util/util.c) and the checked
  arithmetic of lib/misc.h. \<open>long\<close> is a 64 bit word read with \<open>sint\<close>; \<open>double\<close> is the
  type \<open>'f\<close> with its operations collected in the record \<open>flt\<close>, so that what is proved
  holds for every floating point arithmetic. A \<open>union field\<close> is the member written last.
\<close>

unbundle bit_operations_syntax

section \<open>Checked arithmetic\<close>

text \<open>
  The negation and the sum at the smallest \<open>long\<close> overflow, which C leaves undefined; they wrap
  around here, as the machine instructions do.
\<close>

definition LONG_MAX :: u64 where "LONG_MAX = 9223372036854775807"

definition overflow_safe_add_i :: "i64 \<Rightarrow> i64 \<Rightarrow> i64 outcome" where
  "overflow_safe_add_i n0 n1 =
     (if sint n0 > 0 \<and> sint n1 > 0 \<and> n0 + n1 > LONG_MAX then Fail
      else if sint n0 < 0 \<and> sint n1 < 0 \<and> - n0 + - n1 > LONG_MAX + 1 then Fail
      else Good (n0 + n1))"

definition overflow_safe_minus_i :: "i64 \<Rightarrow> i64 \<Rightarrow> i64 outcome" where
  "overflow_safe_minus_i n0 n1 =
     (if sint n0 > 0 \<and> sint n1 < 0 \<and> n0 + - n1 > LONG_MAX then Fail
      else if sint n0 < 0 \<and> sint n1 > 0 \<and> - n0 + n1 > LONG_MAX + 1 then Fail
      else Good (n0 - n1))"

definition overflow_safe_multiply_i :: "i64 \<Rightarrow> i64 \<Rightarrow> i64 outcome" where
  "overflow_safe_multiply_i n0 n1 =
     (let (u0, neg0) = (if sint n0 < 0 then (n0 * - 1, True) else (n0, False));
          (u1, neg) = (if sint n1 < 0 then (n1 * - 1, \<not> neg0) else (n1, neg0));
          result = u0 * u1
      in if u0 \<noteq> 0 \<and> (result div u0 \<noteq> u1 \<or> result > LONG_MAX + (if neg then 1 else 0)) then Fail
         else Good (if neg then - 1 * result else result))"

section \<open>Text to integer\<close>

definition digit_val :: "char \<Rightarrow> nat option" where
  "digit_val c = (let n = (of_char c :: nat) in
     if 48 \<le> n \<and> n \<le> 57 then Some (n - 48)
     else if 97 \<le> n \<and> n \<le> 122 then Some (n - 87)
     else if 65 \<le> n \<and> n \<le> 90 then Some (n - 55)
     else None)"

definition is_digit :: "nat \<Rightarrow> char \<Rightarrow> bool" where
  "is_digit base c \<longleftrightarrow> (case digit_val c of None \<Rightarrow> False | Some d \<Rightarrow> d < base)"

definition digits_val :: "nat \<Rightarrow> string \<Rightarrow> nat" where
  "digits_val base ds = foldl (\<lambda>n c. n * base + the (digit_val c)) 0 ds"

text \<open>\<open>strtol\<close> of the C library without its clamping: the value and the rest of the string.\<close>

definition strtol_c :: "nat \<Rightarrow> string \<Rightarrow> int \<times> string" where
  "strtol_c base s =
     (let s1 = dropWhile isspace_c s;
          (neg, s2) = (case s1 of
             [] \<Rightarrow> (False, [])
           | c # cs \<Rightarrow> if c = CHR ''-'' then (True, cs) else if c = CHR ''+'' then (False, cs) else (False, s1));
          s3 = (if base = 16 \<and> length s2 > 2 \<and> s2 ! 0 = CHR ''0'' \<and>
                   (s2 ! 1 = CHR ''x'' \<or> s2 ! 1 = CHR ''X'') \<and> is_digit 16 (s2 ! 2)
                then drop 2 s2 else s2);
          ds = takeWhile (is_digit base) s3
      in if ds = [] then (0, s)
         else ((if neg then - int (digits_val base ds) else int (digits_val base ds)), drop (length ds) s3))"

definition str2longbase :: "string \<Rightarrow> nat \<Rightarrow> i64 option" where
  "str2longbase s base =
     (let (v, rest) = strtol_c base s
      in if v < - 9223372036854775808 \<or> v > 9223372036854775807 then None
         else if rest \<noteq> [] then None
         else Some (word_of_int v))"

definition str2long10 :: "string \<Rightarrow> i64 option" where
  "str2long10 s = str2longbase s 10"

definition str2long :: "string \<Rightarrow> i64 option" where
  "str2long s =
     (if length s \<ge> 2 \<and> s ! 0 = CHR ''0'' \<and> s ! 1 = CHR ''x'' then str2longbase s 16
      else str2longbase s 10)"

text \<open>The conversion \<open>%ld\<close> of \<open>printf\<close>.\<close>

fun show_nat :: "nat \<Rightarrow> string" where
  "show_nat n = (if n < 10 then [char_of (48 + n)] else show_nat (n div 10) @ [char_of (48 + n mod 10)])"

declare show_nat.simps [simp del]

definition show_long :: "i64 \<Rightarrow> string" where
  "show_long n = (if sint n < 0 then CHR ''-'' # show_nat (nat (- sint n)) else show_nat (nat (sint n)))"

section \<open>Types and unions\<close>

datatype field_type = FIELD_UNDEFINED | FIELD_INT | FIELD_FLOAT | FIELD_STRING

record 'f flt =
  f_of_int :: "i64 \<Rightarrow> 'f"
  f_to_int :: "'f \<Rightarrow> i64 option"
  f_parse :: "string \<Rightarrow> 'f option"
  f_print :: "'f \<Rightarrow> string"
  f_add :: "'f \<Rightarrow> 'f \<Rightarrow> 'f"
  f_sub :: "'f \<Rightarrow> 'f \<Rightarrow> 'f"
  f_mul :: "'f \<Rightarrow> 'f \<Rightarrow> 'f"
  f_div :: "'f \<Rightarrow> 'f \<Rightarrow> 'f"
  f_neg :: "'f \<Rightarrow> 'f"
  f_zero :: 'f
  f_eq :: "'f \<Rightarrow> 'f \<Rightarrow> bool"
  f_lt :: "'f \<Rightarrow> 'f \<Rightarrow> bool"
  f_le :: "'f \<Rightarrow> 'f \<Rightarrow> bool"
  f_bits :: "'f \<Rightarrow> u64"
  f_of_bits :: "u64 \<Rightarrow> 'f"

datatype 'f field = UInt i64 | UFloat 'f | UStr string

definition field_description :: "field_type \<Rightarrow> string" where
  "field_description type =
     (case type of
        FIELD_INT \<Rightarrow> ''INT''
      | FIELD_FLOAT \<Rightarrow> ''FLOAT''
      | FIELD_STRING \<Rightarrow> ''STRING''
      | FIELD_UNDEFINED \<Rightarrow> ''<unknown>'')"

definition field_determine_type :: "field_type \<Rightarrow> field_type \<Rightarrow> field_type" where
  "field_determine_type t0 t1 =
     (if t0 = t1 then t0
      else if t0 = FIELD_STRING then t1
      else if t1 = FIELD_STRING then t0
      else FIELD_FLOAT)"

text \<open>
  Reading a member of the union: another member's bytes are reinterpreted; a number read
  as a pointer, or a pointer as a number, has no value of the program.
\<close>

definition as_int :: "'f flt \<Rightarrow> 'f field \<Rightarrow> i64 outcome" where
  "as_int fo u = (case u of UInt n \<Rightarrow> Good n | UFloat f \<Rightarrow> Good (f_bits fo f) | UStr s \<Rightarrow> Crash)"

definition as_float :: "'f flt \<Rightarrow> 'f field \<Rightarrow> 'f outcome" where
  "as_float fo u = (case u of UFloat f \<Rightarrow> Good f | UInt n \<Rightarrow> Good (f_of_bits fo n) | UStr s \<Rightarrow> Crash)"

definition as_str :: "'f field \<Rightarrow> string outcome" where
  "as_str u = (case u of UStr s \<Rightarrow> Good s | _ \<Rightarrow> Crash)"

abbreviation c_str :: "string \<Rightarrow> string" where
  "c_str s \<equiv> takeWhile (\<lambda>c. c \<noteq> CHR 0x00) s"

section \<open>Conversions\<close>

text \<open>
  The conversions store the result in the field they are given, with its new type; the
  type of a text that does not parse is changed all the same.
\<close>

definition field_to_int ::
    "'f flt \<Rightarrow> 'f field \<Rightarrow> field_type \<Rightarrow> i64 outcome \<times> 'f field \<times> field_type" where
  "field_to_int fo u type =
     (case type of
        FIELD_INT \<Rightarrow> (as_int fo u, u, type)
      | FIELD_FLOAT \<Rightarrow>
          (case o_bind (as_float fo u) (\<lambda>f. case f_to_int fo f of None \<Rightarrow> Crash | Some n \<Rightarrow> Good n) of
             Good n \<Rightarrow> (Good n, UInt n, FIELD_INT)
           | r \<Rightarrow> (r, u, FIELD_INT))
      | FIELD_STRING \<Rightarrow>
          (case o_bind (as_str u) (\<lambda>s. case str2long (c_str s) of None \<Rightarrow> Fail | Some n \<Rightarrow> Good n) of
             Good n \<Rightarrow> (Good n, UInt n, FIELD_INT)
           | r \<Rightarrow> (r, u, FIELD_INT))
      | FIELD_UNDEFINED \<Rightarrow> (Fail, u, type))"

definition field_to_float ::
    "'f flt \<Rightarrow> 'f field \<Rightarrow> field_type \<Rightarrow> 'f outcome \<times> 'f field \<times> field_type" where
  "field_to_float fo u type =
     (case type of
        FIELD_FLOAT \<Rightarrow> (as_float fo u, u, type)
      | FIELD_INT \<Rightarrow>
          (case o_bind (as_int fo u) (\<lambda>n. Good (f_of_int fo n)) of
             Good f \<Rightarrow> (Good f, UFloat f, FIELD_FLOAT)
           | r \<Rightarrow> (r, u, FIELD_FLOAT))
      | FIELD_STRING \<Rightarrow>
          (case o_bind (as_str u) (\<lambda>s. case f_parse fo (c_str s) of None \<Rightarrow> Fail | Some f \<Rightarrow> Good f) of
             Good f \<Rightarrow> (Good f, UFloat f, FIELD_FLOAT)
           | r \<Rightarrow> (r, u, FIELD_FLOAT))
      | FIELD_UNDEFINED \<Rightarrow> (Fail, u, type))"

text \<open>
  The view handed out is that of \<open>dest\<close>, also when the field is a string already; the
  callers pass the buffer the field points to. The last component is \<open>dest\<close> afterwards.
\<close>

definition field_to_stringview ::
    "'f flt \<Rightarrow> string \<Rightarrow> 'f field \<Rightarrow> field_type \<Rightarrow> string outcome \<times> 'f field \<times> field_type \<times> string" where
  "field_to_stringview fo dest u type =
     (case type of
        FIELD_STRING \<Rightarrow> (Good dest, UStr dest, type, dest)
      | FIELD_INT \<Rightarrow>
          (case o_bind (as_int fo u) (\<lambda>n. Good (show_long n)) of
             Good s \<Rightarrow> (Good s, UStr s, FIELD_STRING, s)
           | r \<Rightarrow> (r, u, FIELD_STRING, dest))
      | FIELD_FLOAT \<Rightarrow>
          (case o_bind (as_float fo u) (\<lambda>f. Good (f_print fo f)) of
             Good s \<Rightarrow> (Good s, UStr s, FIELD_STRING, s)
           | r \<Rightarrow> (r, u, FIELD_STRING, dest))
      | FIELD_UNDEFINED \<Rightarrow> (Fail, u, type, dest))"

definition field_to_stringview_limited ::
    "'f flt \<Rightarrow> string \<Rightarrow> 'f field \<Rightarrow> field_type \<Rightarrow> nat \<Rightarrow>
     string outcome \<times> 'f field \<times> field_type \<times> string" where
  "field_to_stringview_limited fo dest u type limit =
     (let cut = (\<lambda>s. if length s > limit then take limit s else s) in
      case type of
        FIELD_STRING \<Rightarrow> (Good (cut dest), UStr (cut dest), type, cut dest)
      | FIELD_INT \<Rightarrow>
          (case o_bind (as_int fo u) (\<lambda>n. Good (cut (show_long n))) of
             Good s \<Rightarrow> (Good s, UStr s, FIELD_STRING, s)
           | r \<Rightarrow> (r, u, FIELD_STRING, dest))
      | FIELD_FLOAT \<Rightarrow>
          (case o_bind (as_float fo u) (\<lambda>f. Good (cut (f_print fo f))) of
             Good s \<Rightarrow> (Good s, UStr s, FIELD_STRING, s)
           | r \<Rightarrow> (r, u, FIELD_STRING, dest))
      | FIELD_UNDEFINED \<Rightarrow> (Fail, u, type, dest))"

section \<open>The arithmetic is exact or it fails\<close>

lemma sint_bounds: "- 9223372036854775808 \<le> sint (x :: i64)" "sint (x :: i64) < 9223372036854775808"
  using sint_greater_eq [of x] sint_less [of x] by simp_all

lemma sint_word_of_int64:
  "- 9223372036854775808 \<le> k \<Longrightarrow> k < 9223372036854775808 \<Longrightarrow> sint (word_of_int k :: i64) = k"
  by (simp add: signed_of_int signed_take_bit_int_eq_self)

lemma uint_word_of_int64:
  "0 \<le> k \<Longrightarrow> k < 18446744073709551616 \<Longrightarrow> uint (word_of_int k :: u64) = k"
  by (simp add: uint_word_of_int)

definition in_long :: "int \<Rightarrow> bool" where
  "in_long k \<longleftrightarrow> - 9223372036854775808 \<le> k \<and> k \<le> 9223372036854775807"

lemma arith_word:
  "n0 + n1 = (word_of_int (sint n0 + sint n1) :: i64)" "n0 - n1 = (word_of_int (sint n0 - sint n1) :: i64)"
  "n0 * n1 = (word_of_int (sint n0 * sint n1) :: i64)" "- n0 = (word_of_int (- sint n0) :: i64)"
  "- n0 + - n1 = (word_of_int (- sint n0 - sint n1) :: i64)"
  "n0 + - n1 = (word_of_int (sint n0 - sint n1) :: i64)"
  "- n0 + n1 = (word_of_int (- sint n0 + sint n1) :: i64)"
  by simp_all

lemma LONG_MAX_uint: "uint LONG_MAX = 9223372036854775807" "uint (LONG_MAX + 1) = 9223372036854775808"
  by (simp_all add: LONG_MAX_def)

lemma overflow_safe_add_i_spec:
  assumes "\<not> (sint n0 = - 9223372036854775808 \<and> sint n1 = - 9223372036854775808)"
  shows "overflow_safe_add_i n0 n1 =
    (if in_long (sint n0 + sint n1) then Good (word_of_int (sint n0 + sint n1)) else Fail)"
proof -
  note b = sint_bounds [of n0] sint_bounds [of n1]
  have pos: "n0 + n1 > LONG_MAX \<longleftrightarrow> sint n0 + sint n1 > 9223372036854775807"
    if "sint n0 > 0" "sint n1 > 0"
    using that b unfolding word_less_def arith_word(1) [of n0 n1] LONG_MAX_uint
    by (subst uint_word_of_int64) auto
  have neg: "- n0 + - n1 > LONG_MAX + 1 \<longleftrightarrow> sint n0 + sint n1 < - 9223372036854775808"
    if "sint n0 < 0" "sint n1 < 0"
    using that b assms unfolding word_less_def arith_word(5) [of n0 n1] LONG_MAX_uint
    by (subst uint_word_of_int64) auto
  show ?thesis
    using pos neg b by (auto simp: overflow_safe_add_i_def in_long_def)
qed

lemma overflow_safe_minus_i_spec:
  assumes "\<not> (sint n0 = 0 \<and> sint n1 = - 9223372036854775808)"
  shows "overflow_safe_minus_i n0 n1 =
    (if in_long (sint n0 - sint n1) then Good (word_of_int (sint n0 - sint n1)) else Fail)"
proof -
  note b = sint_bounds [of n0] sint_bounds [of n1]
  have pos: "n0 + - n1 > LONG_MAX \<longleftrightarrow> sint n0 - sint n1 > 9223372036854775807"
    if "sint n0 > 0" "sint n1 < 0"
    using that b unfolding word_less_def arith_word(6) [of n0 n1] LONG_MAX_uint
    by (subst uint_word_of_int64) auto
  have neg: "- n0 + n1 > LONG_MAX + 1 \<longleftrightarrow> sint n0 - sint n1 < - 9223372036854775808"
    if "sint n0 < 0" "sint n1 > 0"
    using that b unfolding word_less_def arith_word(7) [of n0 n1] LONG_MAX_uint
    by (subst uint_word_of_int64) auto
  show ?thesis
    using pos neg b assms by (auto simp: overflow_safe_minus_i_def in_long_def)
qed

text \<open>The two cases left out are wrong.\<close>

lemma overflow_safe_add_i_min: "overflow_safe_add_i (2 ^ 63) (2 ^ 63) = Good 0"
  by code_simp

lemma overflow_safe_minus_i_min: "overflow_safe_minus_i 0 (2 ^ 63) = Good (2 ^ 63)"
  by code_simp

lemma mult_abs:
  fixes n :: i64
  defines "u \<equiv> if sint n < 0 then n * - 1 else n"
  shows "uint u = \<bar>sint n\<bar>"
proof (cases "sint n < 0")
  case True
  then have "u = word_of_int (- sint n)" by (simp add: u_def)
  then show ?thesis using True sint_bounds [of n] uint_word_of_int64 [of "- sint n"] by simp
next
  case False
  then have "u = word_of_int (sint n)" by (simp add: u_def)
  then show ?thesis using False sint_bounds [of n] uint_word_of_int64 [of "sint n"] by simp
qed

lemma overflow_safe_multiply_i_spec:
  "overflow_safe_multiply_i n0 n1 =
    (if in_long (sint n0 * sint n1) then Good (word_of_int (sint n0 * sint n1)) else Fail)"
proof -
  define u0 where "u0 = (if sint n0 < 0 then n0 * - 1 else n0)"
  define u1 where "u1 = (if sint n1 < 0 then n1 * - 1 else n1)"
  define neg where "neg = ((sint n0 < 0) \<noteq> (sint n1 < 0))"
  define a where "a = \<bar>sint n0\<bar>"
  define c where "c = \<bar>sint n1\<bar>"
  have u: "uint u0 = a" "uint u1 = c" by (simp_all add: u0_def u1_def a_def c_def mult_abs)
  have ac: "0 \<le> a" "a \<le> 9223372036854775808" "0 \<le> c" "c \<le> 9223372036854775808"
    using sint_bounds [of n0] sint_bounds [of n1] by (auto simp: a_def c_def)
  have prod: "sint n0 * sint n1 = (if neg then - (a * c) else a * c)"
    by (auto simp: neg_def a_def c_def abs_if)
  have eq: "overflow_safe_multiply_i n0 n1 =
      (if u0 \<noteq> 0 \<and> (u0 * u1 div u0 \<noteq> u1 \<or> u0 * u1 > LONG_MAX + (if neg then 1 else 0)) then Fail
       else Good (if neg then - 1 * (u0 * u1) else u0 * u1))"
    by (auto simp: overflow_safe_multiply_i_def Let_def u0_def u1_def neg_def)
  have zero: "u0 = 0 \<longleftrightarrow> a = 0" using u(1) by (auto simp: word_uint_eq_iff)
  have val: "(if neg then - 1 * (u0 * u1) else u0 * u1) = word_of_int (sint n0 * sint n1)"
    by (simp add: u0_def u1_def neg_def)
  have res: "uint (u0 * u1) = a * c mod 18446744073709551616" by (simp add: uint_word_ariths u)
  have fits: "u0 * u1 div u0 = u1 \<longleftrightarrow> a * c < 18446744073709551616" if "a \<noteq> 0"
  proof
    assume "u0 * u1 div u0 = u1"
    then have "(a * c mod 18446744073709551616) div a = c"
      using u res by (simp add: word_uint_eq_iff uint_div)
    then have "a * c \<le> a * c mod 18446744073709551616"
      using ac(1) that by (metis mult.commute times_div_less_eq_dividend div_times_less_eq_dividend
          mult_div_mod_eq le_add_same_cancel1 pos_mod_sign order_le_less)
    then show "a * c < 18446744073709551616"
      using pos_mod_bound [of 18446744073709551616 "a * c"] by linarith
  next
    assume "a * c < 18446744073709551616"
    then have "a * c mod 18446744073709551616 = a * c" using ac by simp
    then show "u0 * u1 div u0 = u1" using u res that by (simp add: word_uint_eq_iff uint_div)
  qed
  have big: "u0 * u1 > LONG_MAX + (if neg then 1 else 0) \<longleftrightarrow>
      a * c > 9223372036854775807 + of_bool neg" if "a * c < 18446744073709551616"
    using that ac res by (simp add: word_less_def LONG_MAX_uint)
  have "0 \<le> a * c" using ac by simp
  then have rng: "in_long (sint n0 * sint n1) \<longleftrightarrow> a * c \<le> 9223372036854775807 + of_bool neg"
    using prod by (auto simp: in_long_def)
  show ?thesis
  proof (cases "a = 0")
    case True
    then show ?thesis using eq zero val rng by simp
  next
    case False
    then show ?thesis
      using eq zero val rng fits big by (cases "a * c < 18446744073709551616") auto
  qed
qed


section \<open>Printing and parsing of integers\<close>

definition dec_digit :: "char \<Rightarrow> bool" where
  "dec_digit c \<longleftrightarrow> (\<exists>d < (10 :: nat). c = char_of (48 + d))"

lemma digit_char:
  assumes "d < (10 :: nat)"
  shows "digit_val (char_of (48 + d)) = Some d" "dec_digit (char_of (48 + d))"
proof -
  have n: "(of_char (char_of (48 + d) :: char) :: nat) = 48 + d" using assms by simp
  show "digit_val (char_of (48 + d)) = Some d" using n assms by (simp add: digit_val_def)
  show "dec_digit (char_of (48 + d))" using assms unfolding dec_digit_def by blast
qed

lemma dec_digit_char:
  assumes "dec_digit c"
  shows "is_digit 10 c" "\<not> isspace_c c" "c \<noteq> CHR ''-''" "c \<noteq> CHR ''+''" "c \<noteq> CHR ''x''" "c \<noteq> CHR 0x00"
proof -
  obtain d where d: "d < (10 :: nat)" "c = char_of (48 + d)" using assms by (auto simp: dec_digit_def)
  have n: "(of_char c :: nat) = 48 + d" using d by simp
  show "is_digit 10 c" using d digit_char(1) [OF d(1)] by (simp add: is_digit_def)
  show "\<not> isspace_c c" using n d by (simp add: isspace_c_def)
  show "c \<noteq> CHR ''-''" "c \<noteq> CHR ''+''" "c \<noteq> CHR ''x''" "c \<noteq> CHR 0x00"
    using n d by (auto dest: arg_cong [where f = "of_char :: char \<Rightarrow> nat"])
qed

lemma digits_val_snoc: "digits_val base (ds @ [c]) = digits_val base ds * base + the (digit_val c)"
  by (simp add: digits_val_def)

lemma show_nat_digits: "digits_val 10 (show_nat n) = n" "\<forall>c \<in> set (show_nat n). dec_digit c"
    "show_nat n \<noteq> []"
proof (induction n rule: show_nat.induct)
  case (1 n)
  { case 1
    show ?case using "1.IH"(1) digit_char(1) [of n] digit_char(1) [of "n mod 10"]
      by (subst show_nat.simps) (auto simp: digits_val_snoc digits_val_def [of 10 "[_]"]) }
  { case 2
    show ?case using "1.IH"(2) digit_char(2) [of n] digit_char(2) [of "n mod 10"]
      by (subst show_nat.simps) auto }
  { case 3
    show ?case by (subst show_nat.simps) simp }
qed

lemma strtol_digits:
  assumes "\<forall>c \<in> set ds. dec_digit c" "ds \<noteq> []"
  shows "strtol_c 10 ds = (int (digits_val 10 ds), [])"
    "strtol_c 10 (CHR ''-'' # ds) = (- int (digits_val 10 ds), [])"
proof -
  obtain c cs where ds: "ds = c # cs" using assms(2) by (cases ds) auto
  have c: "\<not> isspace_c c" "c \<noteq> CHR ''-''" "c \<noteq> CHR ''+''"
    using assms(1) dec_digit_char by (simp_all add: ds)
  have tw: "takeWhile (is_digit 10) ds = ds"
    using assms(1) dec_digit_char(1) by (simp add: takeWhile_eq_all_conv)
  have "\<not> isspace_c (CHR ''-'')" by (simp add: isspace_c_def)
  then show "strtol_c 10 ds = (int (digits_val 10 ds), [])"
    "strtol_c 10 (CHR ''-'' # ds) = (- int (digits_val 10 ds), [])"
    using c tw by (simp_all add: strtol_c_def Let_def ds)
qed

lemma show_long_digits:
  "\<exists>ds. (\<forall>c \<in> set ds. dec_digit c) \<and> ds \<noteq> [] \<and> show_long n = (if sint n < 0 then CHR ''-'' # ds else ds) \<and>
     int (digits_val 10 ds) = \<bar>sint n\<bar>"
  using show_nat_digits by (auto simp: show_long_def)

lemma str2long_show: "str2long (show_long n) = Some n"
proof -
  obtain ds where ds: "\<forall>c \<in> set ds. dec_digit c" "ds \<noteq> []"
      "show_long n = (if sint n < 0 then CHR ''-'' # ds else ds)" "int (digits_val 10 ds) = \<bar>sint n\<bar>"
    using show_long_digits by blast
  have notx: "show_long n ! 1 \<noteq> CHR ''x''" if "length (show_long n) \<ge> 2" "show_long n ! 0 = CHR ''0''"
  proof -
    have "show_long n = ds" using ds(3) that(2) by (auto split: if_splits)
    then have "dec_digit (show_long n ! 1)" using ds(1) that(1) by simp
    then show ?thesis by (rule dec_digit_char(5))
  qed
  have "strtol_c 10 (show_long n) = (sint n, [])"
    using strtol_digits [OF ds(1,2)] ds(3,4) by (auto split: if_splits)
  then show ?thesis
    using notx sint_bounds [of n] by (auto simp: str2long_def str2longbase_def Let_def)
qed

lemma show_long_no_nul: "takeWhile (\<lambda>c. c \<noteq> CHR 0x00) (show_long n) = show_long n"
proof -
  obtain ds where ds: "\<forall>c \<in> set ds. dec_digit c"
      "show_long n = (if sint n < 0 then CHR ''-'' # ds else ds)"
    using show_long_digits by blast
  then show ?thesis using dec_digit_char(6) by (auto simp: takeWhile_eq_all_conv)
qed

section \<open>Laws of the conversions\<close>

lemma field_determine_type_comm: "field_determine_type t0 t1 = field_determine_type t1 t0"
  by (cases t0; cases t1) (simp_all add: field_determine_type_def)

lemma field_determine_type_assoc:
  "field_determine_type (field_determine_type t0 t1) t2 = field_determine_type t0 (field_determine_type t1 t2)"
  by (cases t0; cases t1; cases t2) (simp_all add: field_determine_type_def)

lemma field_determine_type_idem [simp]: "field_determine_type t t = t"
  by (simp add: field_determine_type_def)

lemma field_determine_type_string [simp]:
  "field_determine_type FIELD_STRING t = t" "field_determine_type t FIELD_STRING = t"
  by (simp_all add: field_determine_type_def)

text \<open>An integer printed into a field and read back is the integer it was.\<close>

lemma field_int_string_int:
  "field_to_stringview fo dest (UInt n) FIELD_INT = (Good s, u, t, d) \<Longrightarrow>
   field_to_int fo u t = (Good n, UInt n, FIELD_INT)"
  by (auto simp: field_to_stringview_def as_int_def field_to_int_def as_str_def str2long_show show_long_no_nul)

text \<open>Reading a field twice in the same type gives the same value.\<close>

lemma field_to_int_again:
  "field_to_int fo u t = (Good n, u', t') \<Longrightarrow> field_to_int fo u' t' = (Good n, u', t')"
  by (auto simp: field_to_int_def as_int_def split: field_type.splits outcome.splits field.splits)

lemma field_to_float_again:
  "field_to_float fo u t = (Good f, u', t') \<Longrightarrow> field_to_float fo u' t' = (Good f, u', t')"
  by (auto simp: field_to_float_def as_float_def split: field_type.splits outcome.splits field.splits)

lemma field_to_stringview_again:
  "field_to_stringview fo d u t = (Good s, u', t', d') \<Longrightarrow>
   u' = UStr s \<and> t' = FIELD_STRING \<and> field_to_stringview fo s u' t' = (Good s, u', t', s)"
  by (cases t; cases u) (auto simp: field_to_stringview_def as_int_def as_float_def as_str_def)

end
