(* ===== verification/Strings.thy ===== *)
theory Strings
  imports Vec
begin

text \<open>
  The strings of util/stringy.c: a \<open>vec\<close> of characters with a terminating NUL kept in the
  spare cell behind the last one. A C string argument is the list of its characters before
  the NUL. \<open>string_find_replace_limited\<close> is a loop that need not end, so it is a
  \<open>partial_function\<close>; for a pattern that is not empty it computes \<open>replace_all\<close>.
\<close>

section \<open>Construction and copying\<close>

abbreviation NUL :: char where "NUL \<equiv> CHR 0x00"

type_synonym strbuf = "char vec"

definition null_terminate :: "strbuf \<Rightarrow> strbuf option" where
  "null_terminate s = vec_set_one s (vec_end s) (Some NUL)"

definition string_construct :: "strbuf option" where
  "string_construct = null_terminate vec_construct"

definition string_resize :: "strbuf \<Rightarrow> nat \<Rightarrow> strbuf option" where
  "string_resize s n = null_terminate (vec_resize s n)"

definition string_clear :: "strbuf \<Rightarrow> strbuf option" where
  "string_clear s = null_terminate (vec_clear s)"

definition string_copy :: "strbuf \<Rightarrow> strbuf \<Rightarrow> strbuf option" where
  "string_copy dest src = do {
     let dest = vec_resize dest (vsize src);
     cells \<leftarrow> mem_read 0 (vsize src) (vdata src);
     d \<leftarrow> mem_write 0 cells (vdata dest);
     null_terminate (dest\<lparr>vdata := d\<rparr>)
   }"

definition string_construct_from_string :: "strbuf \<Rightarrow> strbuf option" where
  "string_construct_from_string src = do { dest \<leftarrow> string_construct; string_copy dest src }"

definition string_strcpy :: "strbuf \<Rightarrow> string \<Rightarrow> (nat \<times> strbuf) option" where
  "string_strcpy dest src = do {
     dest \<leftarrow> string_resize dest (length src);
     d \<leftarrow> mem_write 0 (map Some (src @ [NUL])) (vdata dest);
     Some (length src, dest\<lparr>vdata := d\<rparr>)
   }"

definition string_construct_from_char_ptr :: "string \<Rightarrow> strbuf option" where
  "string_construct_from_char_ptr cp = do {
     s \<leftarrow> string_construct; (_, s) \<leftarrow> string_strcpy s cp; Some s }"

definition string_construct_take :: "string \<Rightarrow> strbuf" where
  "string_construct_take src =
     \<lparr>vdata = map Some (src @ [NUL]), vsize = length src, valloc = length src + 1\<rparr>"

text \<open>
  \<open>string_strncpy\<close> is given the readable bytes behind the source pointer. The loop tests
  \<open>src[i]\<close> before \<open>i < limit\<close>, so it reads the byte behind the last one it copies.
\<close>

fun strncpy_loop :: "char option list \<Rightarrow> char list \<Rightarrow> nat \<Rightarrow> nat \<Rightarrow> (nat \<times> char option list) option" where
  "strncpy_loop d src i limit =
     (case src of
        [] \<Rightarrow> None
      | c # src' \<Rightarrow>
          if c \<noteq> NUL \<and> i < limit
          then do { d \<leftarrow> mem_write i [Some c] d; strncpy_loop d src' (i + 1) limit }
          else Some (i, d))"

declare strncpy_loop.simps [simp del]

definition string_strncpy :: "strbuf \<Rightarrow> char list \<Rightarrow> nat \<Rightarrow> strbuf option" where
  "string_strncpy dest src limit = do {
     dest \<leftarrow> string_resize dest limit;
     (i, d) \<leftarrow> strncpy_loop (vdata dest) src 0 limit;
     dest \<leftarrow> string_resize (dest\<lparr>vdata := d\<rparr>) i;
     null_terminate dest
   }"

section \<open>Appending\<close>

definition string_append_stringview :: "strbuf \<Rightarrow> string \<Rightarrow> strbuf option" where
  "string_append_stringview dest sv = do {
     let index = vsize dest;
     let dest = vec_resize dest (vsize dest + length sv);
     d \<leftarrow> mem_write index (map Some sv) (vdata dest);
     null_terminate (dest\<lparr>vdata := d\<rparr>)
   }"

definition string_push_back :: "strbuf \<Rightarrow> char \<Rightarrow> strbuf option" where
  "string_push_back s c = do {
     let (back, s) = vec_add_one s;
     d \<leftarrow> mem_write back [Some c] (vdata s);
     d \<leftarrow> mem_write (back + 1) [Some NUL] d;
     Some (s\<lparr>vdata := d\<rparr>)
   }"

definition string_strcat :: "strbuf \<Rightarrow> string \<Rightarrow> (nat \<times> strbuf) option" where
  "string_strcat dest src = do {
     let endidx = vsize dest;
     let dest = vec_resize dest (vsize dest + length src);
     d \<leftarrow> mem_write endidx (map Some (src @ [NUL])) (vdata dest);
     Some (length src, dest\<lparr>vdata := d\<rparr>)
   }"

definition string_strncat :: "strbuf \<Rightarrow> string \<Rightarrow> nat \<Rightarrow> (nat \<times> strbuf) option" where
  "string_strncat dest src n = do {
     let src' = take n src;
     let old_size = vsize dest;
     dest \<leftarrow> string_resize dest (vsize dest + length src');
     d \<leftarrow> mem_write old_size (map Some src') (vdata dest);
     dest \<leftarrow> null_terminate (dest\<lparr>vdata := d\<rparr>);
     Some (vsize dest - old_size, dest)
   }"

section \<open>Find and replace\<close>

text \<open>\<open>memmem\<close> of the C library, and \<open>strcasestr\<close>, which stops at the first NUL.\<close>

fun memmem_c :: "string \<Rightarrow> string \<Rightarrow> nat option" where
  "memmem_c hay needle =
     (if take (length needle) hay = needle then Some 0
      else case hay of [] \<Rightarrow> None | _ # hay' \<Rightarrow> map_option Suc (memmem_c hay' needle))"

declare memmem_c.simps [simp del]

definition strcasestr_c :: "string \<Rightarrow> string \<Rightarrow> nat option" where
  "strcasestr_c hay needle =
     memmem_c (map tolower_c (takeWhile (\<lambda>c. c \<noteq> NUL) hay)) (map tolower_c needle)"

definition chars :: "char option list \<Rightarrow> string" where
  "chars cells = map (\<lambda>c. case c of Some x \<Rightarrow> x | None \<Rightarrow> NUL) cells"

text \<open>
  One replacement: the index to go on from, and the string. The cells of the block that
  were never written read as NUL.
\<close>

definition replace_at :: "strbuf \<Rightarrow> nat \<Rightarrow> nat \<Rightarrow> string \<Rightarrow> nat \<Rightarrow> (nat \<times> strbuf) option" where
  "replace_at s pos oldlen newstr newlen =
     (if newlen = oldlen
      then do {
        src \<leftarrow> mem_read 0 newlen newstr;
        d \<leftarrow> mem_write pos (map Some src) (vdata s);
        Some (pos + newlen, s\<lparr>vdata := d\<rparr>)
      }
      else do {
        s1 \<leftarrow> vec_erase s pos oldlen;
        src \<leftarrow> mem_read 0 newlen newstr;
        s2 \<leftarrow> vec_insert s1 pos (map Some src);
        Some (pos + newlen, s2)
      })"

definition string_find_replace_one_limited ::
    "strbuf \<Rightarrow> string \<Rightarrow> string \<Rightarrow> nat \<Rightarrow> nat \<Rightarrow> (nat \<times> strbuf) option" where
  "string_find_replace_one_limited s oldstr newstr begin_idx newlen = do {
     hay \<leftarrow> mem_read begin_idx (vsize s - begin_idx) (vdata s);
     case memmem_c (chars hay) oldstr of
       None \<Rightarrow> Some (vec_end s, s)
     | Some off \<Rightarrow> replace_at s (begin_idx + off) (length oldstr) newstr newlen
   }"

definition string_find_replace_one_nocase_limited ::
    "strbuf \<Rightarrow> string \<Rightarrow> string \<Rightarrow> nat \<Rightarrow> nat \<Rightarrow> (nat \<times> strbuf) option" where
  "string_find_replace_one_nocase_limited s oldstr newstr begin_idx newlen = do {
     hay \<leftarrow> mem_read begin_idx (length (vdata s) - begin_idx) (vdata s);
     case strcasestr_c (chars hay) oldstr of
       None \<Rightarrow> Some (vec_end s, s)
     | Some off \<Rightarrow> replace_at s (begin_idx + off) (length oldstr) newstr newlen
   }"

text \<open>The loop index is an \<open>unsigned\<close>.\<close>

partial_function (option) find_replace_loop ::
    "(strbuf \<Rightarrow> string \<Rightarrow> string \<Rightarrow> nat \<Rightarrow> nat \<Rightarrow> (nat \<times> strbuf) option) \<Rightarrow>
     strbuf \<Rightarrow> string \<Rightarrow> string \<Rightarrow> nat \<Rightarrow> nat \<Rightarrow> strbuf option" where
  "find_replace_loop one s oldstr newstr newlen i =
     (if i < vsize s
      then do {
        (nxt, s) \<leftarrow> one s oldstr newstr i newlen;
        find_replace_loop one s oldstr newstr newlen (nxt mod 4294967296)
      }
      else Some s)"

declare find_replace_loop.simps [code]

definition string_find_replace_limited :: "strbuf \<Rightarrow> string \<Rightarrow> string \<Rightarrow> nat \<Rightarrow> strbuf option" where
  "string_find_replace_limited s oldstr newstr newlen =
     find_replace_loop string_find_replace_one_limited s oldstr newstr newlen 0"

definition string_find_replace_nocase_limited :: "strbuf \<Rightarrow> string \<Rightarrow> string \<Rightarrow> nat \<Rightarrow> strbuf option" where
  "string_find_replace_nocase_limited s oldstr newstr newlen =
     find_replace_loop string_find_replace_one_nocase_limited s oldstr newstr newlen 0"

definition string_find_replace :: "strbuf \<Rightarrow> string \<Rightarrow> string \<Rightarrow> strbuf option" where
  "string_find_replace s oldstr newstr = string_find_replace_limited s oldstr newstr (length newstr)"

definition string_find_replace_nocase :: "strbuf \<Rightarrow> string \<Rightarrow> string \<Rightarrow> strbuf option" where
  "string_find_replace_nocase s oldstr newstr =
     string_find_replace_nocase_limited s oldstr newstr (length newstr)"

section \<open>Well-formed strings\<close>

definition str_ok :: "strbuf \<Rightarrow> bool" where
  "str_ok s \<longleftrightarrow> vec_ok s \<and> vdata s ! vsize s = Some NUL \<and> (\<forall>c \<in> set (vec_list s). c \<noteq> None)"

definition str :: "strbuf \<Rightarrow> string" where
  "str s = chars (vec_list s)"

lemma chars_some [simp]: "chars (map Some cs) = cs"
  by (simp add: chars_def comp_def)

lemma map_chars: "\<forall>c \<in> set cs. c \<noteq> None \<Longrightarrow> map Some (chars cs) = cs"
  by (induction cs) (auto simp: chars_def)

lemma str_ok_list: "str_ok s \<longleftrightarrow> vec_ok s \<and> vdata s ! vsize s = Some NUL \<and> vec_list s = map Some (str s)"
proof -
  have "(\<forall>c \<in> set xs. c \<noteq> None) \<longleftrightarrow> xs = map Some (chars xs)" for xs
  proof
    assume "xs = map Some (chars xs)"
    then show "\<forall>c \<in> set xs. c \<noteq> None" by (metis ex_map_conv option.distinct(1))
  qed (simp add: map_chars)
  then show ?thesis by (simp add: str_ok_def str_def)
qed

lemma str_length: "str_ok s \<Longrightarrow> length (str s) = vsize s"
  using vec_list_length [of s] by (simp add: str_ok_list)

lemma str_okI: "vec_ok s \<Longrightarrow> vdata s ! vsize s = Some NUL \<Longrightarrow> vec_list s = map Some cs \<Longrightarrow> str_ok s \<and> str s = cs"
  by (simp add: str_ok_list str_def)

lemma str_okI2:
  assumes "vec_ok (s\<lparr>vdata := d\<rparr>)" "d ! vsize s = Some NUL" "take (vsize s) d = map Some cs"
  shows "str_ok (s\<lparr>vdata := d\<rparr>) \<and> str (s\<lparr>vdata := d\<rparr>) = cs"
  using assms str_okI [of "s\<lparr>vdata := d\<rparr>" cs] by (simp add: vec_list_def)

lemma null_terminate_spec:
  assumes "vec_ok s"
  shows "null_terminate s = Some (s\<lparr>vdata := (vdata s)[vsize s := Some NUL]\<rparr>)"
proof -
  have lt: "vsize s < length (vdata s)" using assms by (simp add: vec_ok_def)
  then have "mem_write (vsize s) [Some NUL] (vdata s) = Some ((vdata s)[vsize s := Some NUL])"
    by (simp add: mem_write_in upd_conv_take_nth_drop)
  then show ?thesis by (simp add: null_terminate_def vec_set_one_def vec_end_def)
qed

lemma null_terminate_list:
  "vec_ok s \<Longrightarrow> yields (null_terminate s) (\<lambda>s'. vec_ok s' \<and> vsize s' = vsize s \<and>
     vdata s' ! vsize s' = Some NUL \<and> vec_list s' = vec_list s)"
  by (simp add: null_terminate_spec vec_ok_def vec_list_def)

text \<open>Writing a stretch of characters at the end of a resized string and terminating it.\<close>

lemma write_terminate:
  assumes v: "vec_ok v" "vsize v = n + length cs" and pre: "take n (vdata v) = map Some pre" "length pre = n"
  shows "yields (mem_write n (map Some cs) (vdata v) \<bind> (\<lambda>d. null_terminate (v\<lparr>vdata := d\<rparr>)))
    (\<lambda>s. str_ok s \<and> str s = pre @ cs)"
proof -
  have len: "n + length cs < length (vdata v)" using v by (simp add: vec_ok_def)
  let ?d = "take n (vdata v) @ map Some cs @ drop (n + length cs) (vdata v)"
  have w: "mem_write n (map Some cs) (vdata v) = Some ?d" using len by (simp add: mem_write_in)
  have ok: "vec_ok (v\<lparr>vdata := ?d\<rparr>)" using v len by (simp add: vec_ok_def)
  have "vec_list (v\<lparr>vdata := ?d\<rparr>) = map Some (pre @ cs)"
    using v(2) len pre by (simp add: vec_list_def min_absorb2)
  then have "yields (null_terminate (v\<lparr>vdata := ?d\<rparr>)) (\<lambda>s. str_ok s \<and> str s = pre @ cs)"
    by (intro yields_mono [OF null_terminate_list [OF ok]] str_okI) auto
  then show ?thesis using w by simp
qed

lemma resize_append:
  assumes "str_ok s"
  shows "vec_ok (vec_resize s (vsize s + k))" "vsize (vec_resize s (vsize s + k)) = vsize s + k"
    "take (vsize s) (vdata (vec_resize s (vsize s + k))) = map Some (str s)"
proof -
  have ok: "vec_ok s" and l: "vec_list s = map Some (str s)" using assms by (auto simp: str_ok_list)
  show "vec_ok (vec_resize s (vsize s + k))" "vsize (vec_resize s (vsize s + k)) = vsize s + k"
    using vec_resize_shape [OF ok] by simp_all
  have "vsize s \<le> valloc s" using ok by (simp add: vec_ok_def)
  then show "take (vsize s) (vdata (vec_resize s (vsize s + k))) = map Some (str s)"
    using take_resize [OF ok] l by (simp add: vec_list_def)
qed

lemma string_append_stringview_spec:
  assumes "str_ok s"
  shows "yields (string_append_stringview s sv) (\<lambda>s'. str_ok s' \<and> str s' = str s @ sv)"
  using write_terminate [OF resize_append(1,2,3) [OF assms]] str_length [OF assms]
  by (simp add: string_append_stringview_def Let_def)

lemma string_construct_spec: "yields string_construct (\<lambda>s. str_ok s \<and> str s = [])"
  unfolding string_construct_def
  by (rule yields_mono [OF null_terminate_list [OF vec_ok_construct]])
    (auto dest: str_okI [where cs = "[]"])

lemma string_clear_spec: "str_ok s \<Longrightarrow> yields (string_clear s) (\<lambda>s'. str_ok s' \<and> str s' = [])"
proof -
  assume "str_ok s"
  then have v: "vec_ok (vec_clear s)" "vec_list (vec_clear s) = []"
    using vec_clear_list [of s] by (auto simp: str_ok_list)
  show "yields (string_clear s) (\<lambda>s'. str_ok s' \<and> str s' = [])"
    unfolding string_clear_def
    by (rule yields_mono [OF null_terminate_list [OF v(1)]])
      (use v(2) in \<open>auto dest: str_okI [where cs = "[]"]\<close>)
qed

lemma string_copy_spec:
  assumes "str_ok dest" "str_ok src"
  shows "yields (string_copy dest src) (\<lambda>s. str_ok s \<and> str s = str src)"
proof -
  have d: "vec_ok dest" and s: "vec_ok src" "vec_list src = map Some (str src)"
    using assms by (auto simp: str_ok_list)
  have r: "mem_read 0 (vsize src) (vdata src) = Some (map Some (str src))"
    using s by (simp add: mem_read_def vec_ok_def vec_list_def)
  have v: "vec_ok (vec_resize dest (vsize src))" "vsize (vec_resize dest (vsize src)) = 0 + length (str src)"
    using vec_resize_shape [OF d] str_length [OF assms(2)] by simp_all
  show ?thesis
    using write_terminate [OF v, of "[]"] r by (simp add: string_copy_def Let_def)
qed

text \<open>The copy takes the bytes up to the limit or the first NUL.\<close>

lemma strncpy_loop_spec:
  assumes "length d > limit" "i \<le> limit" "limit - i < length src \<or> NUL \<in> set src"
  shows "strncpy_loop d src i limit =
    (let cs = take (limit - i) (takeWhile (\<lambda>c. c \<noteq> NUL) src)
     in Some (i + length cs, take i d @ map Some cs @ drop (i + length cs) d))"
  using assms
proof (induction src arbitrary: d i)
  case Nil
  then show ?case by simp
next
  case (Cons c src)
  show ?case
  proof (cases "c \<noteq> NUL \<and> i < limit")
    case True
    then have lt: "i < length d" using Cons.prems by linarith
    have w: "mem_write i [Some c] d = Some (d[i := Some c])"
      using lt by (simp add: mem_write_in upd_conv_take_nth_drop)
    have IH: "strncpy_loop (d[i := Some c]) src (i + 1) limit =
        (let cs = take (limit - (i + 1)) (takeWhile (\<lambda>c. c \<noteq> NUL) src)
         in Some (i + 1 + length cs, take (i + 1) (d[i := Some c]) @ map Some cs @
              drop (i + 1 + length cs) (d[i := Some c])))"
      using Cons.prems True by (intro Cons.IH) auto
    have "limit - i = Suc (limit - (i + 1))" using True by (simp add: Suc_diff_Suc)
    then show ?thesis
      using True w IH lt by (subst strncpy_loop.simps) (simp add: Let_def take_Suc_conv_app_nth)
  next
    case False
    then show ?thesis
      using Cons.prems by (subst strncpy_loop.simps) (auto simp: Let_def)
  qed
qed

lemma string_strncpy_spec:
  assumes "str_ok dest" "limit < length src \<or> NUL \<in> set src"
  shows "yields (string_strncpy dest src limit)
    (\<lambda>s. str_ok s \<and> str s = take limit (takeWhile (\<lambda>c. c \<noteq> NUL) src))"
proof -
  define cs where "cs = take limit (takeWhile (\<lambda>c. c \<noteq> NUL) src)"
  have d: "vec_ok dest" using assms by (simp add: str_ok_list)
  have v: "vec_ok (vec_resize dest limit)" "vsize (vec_resize dest limit) = limit"
    using vec_resize_shape [OF d] by simp_all
  obtain s1 where s1: "string_resize dest limit = Some s1" "vec_ok s1" "vsize s1 = limit"
    using null_terminate_list [OF v(1)] v(2) by (auto simp: string_resize_def yields_exists)
  have len: "limit < length (vdata s1)" using s1 by (simp add: vec_ok_def)
  have loop: "strncpy_loop (vdata s1) src 0 limit =
      Some (length cs, map Some cs @ drop (length cs) (vdata s1))"
    using strncpy_loop_spec [OF len, of 0 src] assms(2) by (simp add: cs_def Let_def)
  let ?d = "map Some cs @ drop (length cs) (vdata s1)"
  have cl: "length cs \<le> limit" by (simp add: cs_def)
  have s2: "vec_ok (s1\<lparr>vdata := ?d\<rparr>)" using s1 len cl by (simp add: vec_ok_def)
  have v2: "vec_ok (vec_resize (s1\<lparr>vdata := ?d\<rparr>) (length cs))"
      "vsize (vec_resize (s1\<lparr>vdata := ?d\<rparr>) (length cs)) = length cs"
    using vec_resize_shape [OF s2] by simp_all
  have "length cs \<le> valloc (s1\<lparr>vdata := ?d\<rparr>)" using s1(2,3) cl by (simp add: vec_ok_def)
  then have keep: "vec_list (vec_resize (s1\<lparr>vdata := ?d\<rparr>) (length cs)) = map Some cs"
    using take_resize [OF s2, of "length cs" "length cs"] v2(2) by (simp add: vec_list_def)
  obtain s3 where s3: "string_resize (s1\<lparr>vdata := ?d\<rparr>) (length cs) = Some s3" "vec_ok s3"
      "vec_list s3 = map Some cs"
    using null_terminate_list [OF v2(1)] keep by (auto simp: string_resize_def yields_exists)
  have "yields (null_terminate s3) (\<lambda>s. str_ok s \<and> str s = cs)"
    by (rule yields_mono [OF null_terminate_list [OF s3(2)]]) (use s3(3) in \<open>auto dest: str_okI\<close>)
  then show ?thesis
    using s1(1) loop s3(1) by (simp add: string_strncpy_def cs_def)
qed

section \<open>Replacement\<close>

lemma vec_erase_end:
  assumes "vec_ok v" "b + len \<le> vsize v"
  shows "yields (vec_erase v b len) (\<lambda>v'. vdata v' ! vsize v' = vdata v ! vsize v)"
proof (cases "len = 0")
  case True
  then show ?thesis by (simp add: vec_erase_def)
next
  case False
  have len: "vsize v < length (vdata v)" "valloc v = length (vdata v)"
    using assms(1) by (auto simp: vec_ok_def)
  let ?e = "b + len - 1" and ?L = "length (vdata v)"
  let ?d = "take b (vdata v) @ take (?L - 1 - ?e) (drop (?e + 1) (vdata v)) @ drop (b + (?L - 1 - ?e)) (vdata v)"
  have n: "\<not> (?e < b \<or> valloc v - 1 < ?e \<or> vsize v < ?e - b + 1)"
      "?e + 1 + (?L - 1 - ?e) \<le> ?L" "b + (?L - 1 - ?e) \<le> ?L"
    using assms(2) len False by auto
  have "vec_erase v b len = Some (v\<lparr>vdata := ?d, vsize := vsize v - (?e - b + 1)\<rparr>)"
    unfolding vec_erase_def vec_erase_iter_def
    using n len False by (simp only: mem_move_in [OF n(2,3)] if_False len(2)) simp
  moreover have "?d ! (vsize v - (?e - b + 1)) = vdata v ! vsize v"
    using assms(2) len False by (auto simp: nth_append)
  ultimately show ?thesis by simp
qed

lemma vec_insert_end:
  assumes "vec_ok v" "i \<le> vsize v"
  shows "yields (vec_insert v i src) (\<lambda>v'. vdata v' ! vsize v' = vdata v ! vsize v)"
proof (cases "src = []")
  case True
  then show ?thesis by (simp add: vec_insert_def)
next
  case False
  let ?n = "vsize v + length src"
  let ?v = "vec_resize v ?n"
  have len: "length (vdata ?v) = valloc ?v" "?n < valloc ?v" "vsize ?v = ?n"
    using vec_resize_shape [OF assms(1), of ?n] vec_resize_alloc [OF assms(1), of ?n] by simp_all
  have lt: "vsize v < length (vdata v)" "valloc v = length (vdata v)"
    using assms(1) by (auto simp: vec_ok_def)
  have "take (valloc v) (vdata ?v) = take (valloc v) (vdata v)"
    using assms by (intro take_resize) auto
  then have "take (valloc v) (vdata ?v) ! vsize v = take (valloc v) (vdata v) ! vsize v" by simp
  then have keep: "vdata ?v ! vsize v = vdata v ! vsize v" using lt by simp
  have gap: "i + length src \<le> length (vdata ?v)" using assms(2) len by simp
  let ?d = "take i (vdata ?v) @ src @ take (length (vdata ?v) - i - length src) (drop i (vdata ?v))"
  have eq: "vec_insert v i src = Some (?v\<lparr>vdata := ?d\<rparr>)"
    using mem_insert [OF gap] len gap False
    by (auto simp: vec_insert_def vec_insert_iter_def Let_def bind_eq_Some_conv)
  have "?d ! ?n = vdata ?v ! vsize v" using assms(2) len by (auto simp: nth_append)
  then show ?thesis using eq keep len by simp
qed

lemma vec_list_end: "vec_ok v \<Longrightarrow> vec_list v = cs \<Longrightarrow> vsize v = length cs"
  using vec_list_length by fastforce

lemma replace_at_spec:
  assumes ok: "str_ok s" and pos: "pos + oldlen \<le> vsize s" and new: "newlen \<le> length newstr"
  shows "yields (replace_at s pos oldlen newstr newlen) (\<lambda>(i, s'). i = pos + newlen \<and> str_ok s' \<and>
    str s' = take pos (str s) @ take newlen newstr @ drop (pos + oldlen) (str s))"
proof -
  have v: "vec_ok s" "vdata s ! vsize s = Some NUL" "vec_list s = map Some (str s)"
    using ok by (auto simp: str_ok_list)
  have rd: "mem_read 0 newlen newstr = Some (take newlen newstr)" using new by (simp add: mem_read_def)
  show ?thesis
  proof (cases "newlen = oldlen")
    case True
    have len: "vsize s < length (vdata s)" using v by (simp add: vec_ok_def)
    let ?d = "take pos (vdata s) @ map Some (take newlen newstr) @ drop (pos + newlen) (vdata s)"
    have w: "mem_write pos (map Some (take newlen newstr)) (vdata s) = Some ?d"
      using pos len new True by (simp add: mem_write_in min_absorb2)
    have "vec_ok (s\<lparr>vdata := ?d\<rparr>)" using v pos len new True by (simp add: vec_ok_def min_absorb2)
    moreover have "?d ! vsize s = Some NUL"
      using v(2) pos len new True by (auto simp: nth_append min_absorb2)
    moreover have "take (vsize s) ?d = map Some (take pos (str s) @ take newlen newstr @ drop (pos + newlen) (str s))"
    proof -
      have t: "take pos (vdata s) = take pos (vec_list s)"
        using pos by (simp add: vec_list_def min_absorb1)
      have "take (vsize s) ?d = take pos (vdata s) @ map Some (take newlen newstr) @
          take (vsize s - (pos + newlen)) (drop (pos + newlen) (vdata s))"
        using pos len new True by (simp add: min_absorb2)
      also have "take (vsize s - (pos + newlen)) (drop (pos + newlen) (vdata s)) =
          drop (pos + newlen) (vec_list s)"
        by (simp add: vec_list_def drop_take)
      finally show ?thesis using t v(3) by (simp add: take_map drop_map)
    qed
    ultimately have "str_ok (s\<lparr>vdata := ?d\<rparr>) \<and> str (s\<lparr>vdata := ?d\<rparr>) =
        take pos (str s) @ take newlen newstr @ drop (pos + newlen) (str s)"
      by (rule str_okI2)
    moreover have "replace_at s pos oldlen newstr newlen = Some (pos + newlen, s\<lparr>vdata := ?d\<rparr>)"
      unfolding replace_at_def using True rd w by simp
    ultimately show ?thesis using True by simp
  next
    case False
    obtain s1 where s1: "vec_erase s pos oldlen = Some s1" "vec_ok s1"
        "vec_list s1 = take pos (vec_list s) @ drop (pos + oldlen) (vec_list s)"
        "vdata s1 ! vsize s1 = Some NUL"
      using yields_conj [OF vec_erase_list [OF v(1) pos] vec_erase_end [OF v(1) pos]] v(2)
      by (auto simp: yields_exists)
    have p1: "pos \<le> vsize s1" using vec_list_end [OF s1(2,3)] pos vec_list_length [OF v(1)] by simp
    obtain s2 where s2: "vec_insert s1 pos (map Some (take newlen newstr)) = Some s2" "vec_ok s2"
        "vec_list s2 = take pos (vec_list s1) @ map Some (take newlen newstr) @ drop pos (vec_list s1)"
        "vdata s2 ! vsize s2 = Some NUL"
      using yields_conj [OF vec_insert_list [OF s1(2) p1] vec_insert_end [OF s1(2) p1]] s1(4)
      by (auto simp: yields_exists)
    have "length (vec_list s) = vsize s" using vec_list_length [OF v(1)] .
    then have "vec_list s2 = map Some (take pos (str s) @ take newlen newstr @ drop (pos + oldlen) (str s))"
      using s2(3) s1(3) v(3) pos by (simp add: min_absorb2 take_map drop_map)
    then have "str_ok s2 \<and> str s2 = take pos (str s) @ take newlen newstr @ drop (pos + oldlen) (str s)"
      by (rule str_okI [OF s2(2,4)])
    then show ?thesis using False s1(1) s2(1) rd by (simp add: replace_at_def)
  qed
qed

lemma memmem_c_Some:
  "memmem_c hay needle = Some i \<Longrightarrow> i + length needle \<le> length hay \<and> take (length needle) (drop i hay) = needle"
proof (induction hay arbitrary: i)
  case Nil
  then show ?case by (subst (asm) memmem_c.simps) (auto split: if_splits)
next
  case (Cons c hay)
  show ?case
  proof (cases "take (length needle) (c # hay) = needle")
    case True
    then have "i = 0" using Cons.prems by (subst (asm) memmem_c.simps) simp
    moreover have "length needle \<le> length (c # hay)" using True by (metis length_take min.cobounded1)
    ultimately show ?thesis using True by simp
  next
    case False
    then obtain j where "memmem_c hay needle = Some j" "i = Suc j"
      using Cons.prems by (subst (asm) memmem_c.simps) auto
    then show ?thesis using Cons.IH [of j] by simp
  qed
qed

text \<open>What a replacement of every occurrence means: left to right, without overlap.\<close>

function replace_all :: "string \<Rightarrow> string \<Rightarrow> string \<Rightarrow> string" where
  "replace_all old new s =
     (if s = [] then []
      else if old \<noteq> [] \<and> take (length old) s = old then new @ replace_all old new (drop (length old) s)
      else hd s # replace_all old new (tl s))"
  by pat_completeness auto
termination
  by (relation "measure (\<lambda>(old, new, s). length s)") auto

declare replace_all.simps [simp del]

lemma replace_all_Nil [simp]: "replace_all old new [] = []"
  by (simp add: replace_all.simps)

lemma replace_all_memmem:
  assumes "old \<noteq> []"
  shows "replace_all old new s =
    (case memmem_c s old of None \<Rightarrow> s
     | Some i \<Rightarrow> take i s @ new @ replace_all old new (drop (i + length old) s))"
proof (induction s)
  case Nil
  then show ?case using assms by (simp add: memmem_c.simps)
next
  case (Cons c s)
  show ?case
  proof (cases "take (length old) (c # s) = old")
    case True
    then show ?thesis
      using assms by (subst replace_all.simps, subst memmem_c.simps) simp
  next
    case False
    then have "replace_all old new (c # s) = c # replace_all old new s"
      by (subst replace_all.simps) simp
    then show ?thesis
      using False Cons.IH by (subst memmem_c.simps) (auto split: option.splits)
  qed
qed

lemma find_replace_loop_spec:
  assumes "old \<noteq> []" "str_ok s" "str s = p @ r" "newlen \<le> length new"
    "length p + length (replace_all old (take newlen new) r) < 4294967296"
  shows "yields (find_replace_loop string_find_replace_one_limited s old new newlen (length p))
    (\<lambda>s'. str_ok s' \<and> str s' = p @ replace_all old (take newlen new) r)"
  using assms(2,3,5)
proof (induction "length r" arbitrary: s p r rule: less_induct)
  case less
  let ?one = string_find_replace_one_limited
  let ?new = "take newlen new"
  have v: "vec_ok s" "vec_list s = map Some (str s)" "length (str s) = vsize s"
    using less.prems(1) str_length [OF less.prems(1)] by (simp_all add: str_ok_list)
  show ?case
  proof (cases "r = []")
    case True
    then have "\<not> length p < vsize s" unfolding v(3) [symmetric] less.prems(2) by simp
    then show ?thesis using True less.prems by (subst find_replace_loop.simps) simp
  next
    case False
    then have "0 < length r" by simp
    then have lt: "length p < vsize s" unfolding v(3) [symmetric] less.prems(2) by simp
    have hay: "mem_read (length p) (vsize s - length p) (vdata s) = Some (map Some r)"
    proof -
      have "take (vsize s - length p) (drop (length p) (vdata s)) = drop (length p) (vec_list s)"
        by (simp add: vec_list_def drop_take)
      then show ?thesis using v lt less.prems by (simp add: mem_read_def vec_ok_def)
    qed
    show ?thesis
    proof (cases "memmem_c r old")
      case None
      then have one: "?one s old new (length p) newlen = Some (vsize s, s)"
        using hay by (simp add: string_find_replace_one_limited_def vec_end_def)
      have same: "replace_all old ?new r = r" using None replace_all_memmem [OF assms(1)] by simp
      then have "vsize s < 4294967296" using less.prems v by simp
      then have "find_replace_loop ?one s old new newlen (length p) = Some s"
        using one lt by (subst find_replace_loop.simps, simp, subst find_replace_loop.simps, simp)
      then show ?thesis using less.prems same by simp
    next
      case (Some off)
      note m = memmem_c_Some [OF Some]
      have all: "replace_all old ?new r = take off r @ ?new @ replace_all old ?new (drop (off + length old) r)"
        using Some replace_all_memmem [OF assms(1)] by simp
      let ?p = "p @ take off r @ ?new" and ?r = "drop (off + length old) r"
      have fit: "length p + off + length old \<le> vsize s" using m less.prems v by simp
      obtain s' where s': "replace_at s (length p + off) (length old) new newlen = Some (length p + off + newlen, s')"
          "str_ok s'" "str s' = take (length p + off) (str s) @ ?new @ drop (length p + off + length old) (str s)"
        using replace_at_spec [OF less.prems(1) fit assms(4)] by (auto simp: yields_exists)
      have one: "?one s old new (length p) newlen = Some (length p + off + newlen, s')"
        using hay Some s'(1) by (simp add: string_find_replace_one_limited_def)
      have str': "str s' = ?p @ ?r" using s'(3) less.prems(2) by (simp add: add.commute)
      have lp: "length ?p = length p + off + newlen" using m assms(4) by simp
      have bound: "length ?p + length (replace_all old ?new ?r) < 4294967296"
        using less.prems(3) all lp m assms(4) by simp
      have small: "(length p + off + newlen) mod 4294967296 = length ?p" using bound lp by simp
      have "length ?r < length r" using m assms(1) by (cases old) auto
      from less.hyps [OF this s'(2) str' bound]
      have rec: "yields (find_replace_loop ?one s' old new newlen (length ?p))
          (\<lambda>s'. str_ok s' \<and> str s' = ?p @ replace_all old ?new ?r)" .
      have "find_replace_loop ?one s old new newlen (length p) =
          find_replace_loop ?one s' old new newlen (length ?p)"
        using one lt small by (subst find_replace_loop.simps) simp
      then show ?thesis using rec all by simp
    qed
  qed
qed

lemma string_find_replace_spec:
  assumes "old \<noteq> []" "str_ok s" "length (replace_all old new (str s)) < 4294967296"
  shows "yields (string_find_replace s old new) (\<lambda>s'. str_ok s' \<and> str s' = replace_all old new (str s))"
  using find_replace_loop_spec [OF assms(1,2), of "[]" "str s" "length new" new] assms(3)
  by (simp add: string_find_replace_def string_find_replace_limited_def)


text \<open>
  With an empty pattern the loop never ends on a string that is not empty: each round
  inserts the replacement before the index and moves the index behind it.
\<close>

lemma memmem_c_empty [simp]: "memmem_c hay [] = Some 0"
  by (subst memmem_c.simps) simp

lemma replace_at_empty:
  assumes "replace_at s i 0 newstr newlen = Some (j, s')" "i < vsize s"
  shows "j = i + newlen \<and> j < vsize s'"
proof (cases "newlen = 0")
  case True
  then show ?thesis using assms by (auto simp: replace_at_def bind_eq_Some_conv)
next
  case False
  then obtain src where src: "mem_read 0 newlen newstr = Some src"
      "vec_insert s i (map Some src) = Some s'" "j = i + newlen"
    using assms by (auto simp: replace_at_def vec_erase_def bind_eq_Some_conv)
  then have "length src = newlen" by (auto simp: mem_read_def split: if_splits)
  then have "vsize s' = vsize (vec_resize s (vsize s + newlen))"
    using src False by (auto simp: vec_insert_def vec_insert_iter_def Let_def bind_eq_Some_conv split: if_splits)
  also have "\<dots> = vsize s + newlen"
    by (auto simp: vec_resize_def Let_def vec_reserve_def)
  finally show ?thesis using src assms by simp
qed

lemma find_replace_empty_step:
  assumes "string_find_replace_one_limited s [] newstr i newlen = Some (j, s')" "i < vsize s"
  shows "j mod 4294967296 < vsize s'"
proof -
  have "replace_at s i 0 newstr newlen = Some (j, s')"
    using assms by (auto simp: string_find_replace_one_limited_def bind_eq_Some_conv)
  then have "j < vsize s'" using replace_at_empty assms(2) by blast
  then show ?thesis by (meson le_less_trans mod_less_eq_dividend)
qed

lemma find_replace_loop_empty:
  assumes "find_replace_loop string_find_replace_one_limited s [] newstr newlen i = Some s'"
  shows "\<not> i < vsize s"
proof -
  have "string_find_replace_one_limited = string_find_replace_one_limited \<longrightarrow> [] = ([] :: string) \<longrightarrow>
      \<not> i < vsize s"
  proof (rule find_replace_loop.raw_induct [OF _ assms, where
        P = "\<lambda>one s old n nl i _. one = string_find_replace_one_limited \<longrightarrow> old = [] \<longrightarrow> \<not> i < vsize s"])
    fix loop one s old n nl i s'
    assume IH: "\<And>one s old n nl i s'. loop one s old n nl i = Some s' \<Longrightarrow>
        one = string_find_replace_one_limited \<longrightarrow> old = [] \<longrightarrow> \<not> i < vsize s"
      and body: "(if i < vsize s
        then (one s old n i nl :: (nat \<times> strbuf) option) \<bind>
          (\<lambda>a. case a of (nxt, s) \<Rightarrow> loop one s old n nl (nxt mod 4294967296))
        else Some s) = Some s'"
    show "one = string_find_replace_one_limited \<longrightarrow> old = [] \<longrightarrow> \<not> i < vsize s"
    proof (intro impI notI)
      assume h: "one = string_find_replace_one_limited" "old = []" "i < vsize s"
      then obtain j t where jt: "string_find_replace_one_limited s [] n i nl = Some (j, t)"
          "loop one t old n nl (j mod 4294967296) = Some s'"
        using body by (auto simp: bind_eq_Some_conv)
      then show False using IH [OF jt(2)] find_replace_empty_step [OF jt(1) h(3)] h by simp
    qed
  qed
  then show ?thesis by simp
qed

lemma string_find_replace_empty:
  "str_ok s \<Longrightarrow> str s \<noteq> [] \<Longrightarrow> string_find_replace s [] newstr = None"
  using find_replace_loop_empty [of s newstr "length newstr" 0] str_length [of s]
  by (cases "string_find_replace s [] newstr")
    (auto simp: string_find_replace_def string_find_replace_limited_def)

end
