(* ===== verification/Scalar.thy ===== *)
theory Scalar
  imports Field Strings
begin

text \<open>
  The scalar functions and operators of lib/scalarfn.c. They reach their arguments through
  the three accessors of expression.c, which are the record \<open>getters\<close> here (an argument is
  named by the address of its expression), so that they do not depend on how expressions
  are evaluated; Expression supplies the accessors. The result is the member of the
  \<open>union field\<close> that is written.
\<close>

unbundle bit_operations_syntax

section \<open>Accessors\<close>

record ('s, 'f) getters =
  get_int :: "nat \<Rightarrow> ('s, i64) act"
  get_float :: "nat \<Rightarrow> ('s, 'f) act"
  get_stringview :: "nat \<Rightarrow> ('s, view) act"
  get_type :: "nat \<Rightarrow> 's \<Rightarrow> field_type"
  is_const :: "nat \<Rightarrow> 's \<Rightarrow> bool"

record fn_data =
  fn_args :: "nat list"
  char_as_byte :: bool

text \<open>Dereferencing an argument that was not given reads outside the vector.\<close>

definition at_arg :: "fn_data \<Rightarrow> nat \<Rightarrow> (nat \<Rightarrow> ('s, 'a) act) \<Rightarrow> ('s, 'a) act" where
  "at_arg fn i g = (if i < length (fn_args fn) then g (fn_args fn ! i) else outA Crash)"

text \<open>
  \<open>string_strncpy(ret->s, &sv.data[off], n)\<close>: the copy ends at a NUL; it reads one byte
  behind the last one it copies.
\<close>

definition strncpy_view :: "view \<Rightarrow> nat \<Rightarrow> nat \<Rightarrow> string outcome" where
  "strncpy_view v off n =
     (let src = drop off (sv_data v) in
      if n < length src \<or> CHR 0x00 \<in> set src then Good (take n (c_str src)) else Crash)"

definition ret_strncpy :: "view \<Rightarrow> nat \<Rightarrow> nat \<Rightarrow> ('s, 'f field) act" where
  "ret_strncpy v off n = outA (map_outcome UStr (strncpy_view v off n))"

section \<open>UTF-8\<close>

definition get_byte_count :: "char \<Rightarrow> nat \<Rightarrow> nat outcome" where
  "get_byte_count c limit =
     (let b = (of_char c :: u8) in
      if b AND 0x80 = 0 then Good 1
      else let n = (if b AND 0xE0 = 0xC0 then 2 else if b AND 0xF0 = 0xE0 then 3
                    else if b AND 0xF8 = 0xF0 then 4 else 0)
           in if n = 0 then Fail else if n > limit then Fail else Good n)"

text \<open>
  \<open>_get_rev_byte_count\<close> walks back over continuation bytes. Its argument is the text up to
  and including the byte pointed to, so \<open>limit\<close> is its length.
\<close>

definition is_cont :: "char \<Rightarrow> bool" where
  "is_cont c \<longleftrightarrow> (of_char c :: u8) AND 0xC0 = 0x80"

fun back_count :: "string \<Rightarrow> nat" where
  "back_count [] = 0"
| "back_count (c # cs) = (if is_cont c then back_count cs + 1 else 0)"

text \<open>
  When all bytes are continuations the loop reads the byte in front of the text, which a view
  does not promise.
\<close>

definition get_rev_byte_count :: "string \<Rightarrow> nat outcome" where
  "get_rev_byte_count s =
     (let r = rev s in
      case r of
        [] \<Rightarrow> Crash
      | c # _ \<Rightarrow>
          if (of_char c :: u8) AND 0x80 = 0 then Good 1
          else let i = back_count r in
            if i \<ge> length s then Crash
            else let lead = (of_char (r ! i) :: u8);
                     valid = (if i + 1 = 2 then lead AND 0xE0 = 0xC0
                              else if i + 1 = 3 then lead AND 0xF0 = 0xE0
                              else if i + 1 = 4 then lead AND 0xF8 = 0xF0
                              else False)
                 in if valid then Good (i + 1) else Fail)"

text \<open>The step of the loops over characters: one byte, or one UTF-8 sequence.\<close>

definition char_step :: "bool \<Rightarrow> string \<Rightarrow> nat outcome" where
  "char_step as_byte s = (if as_byte then Good 1 else get_byte_count (hd s) (length s))"

section \<open>Casts\<close>

definition fql_cast_int :: "('s, 'f) getters \<Rightarrow> fn_data \<Rightarrow> ('s, 'f field) act" where
  "fql_cast_int G fn = derefA (at_arg fn 0 (get_int G)) (\<lambda>n. outA (Good (UInt n)))"

definition fql_cast_bit :: "('s, 'f) getters \<Rightarrow> fn_data \<Rightarrow> ('s, 'f field) act" where
  "fql_cast_bit G fn =
     derefA (at_arg fn 0 (get_int G)) (\<lambda>n. outA (Good (UInt (if n \<noteq> 0 then 1 else n))))"

definition fql_cast_float :: "('s, 'f) getters \<Rightarrow> fn_data \<Rightarrow> ('s, 'f field) act" where
  "fql_cast_float G fn = derefA (at_arg fn 0 (get_float G)) (\<lambda>f. outA (Good (UFloat f)))"

definition fql_cast_string :: "('s, 'f) getters \<Rightarrow> fn_data \<Rightarrow> ('s, 'f field) act" where
  "fql_cast_string G fn =
     derefA (at_arg fn 0 (get_stringview G)) (\<lambda>sv. ret_strncpy sv 0 (sv_len sv))"

text \<open>
  The length is a \<open>long\<close>: \<open>len == -1\<close> means none was given, a length of 2^63 or more as
  \<open>size_t\<close> cannot be allocated, and the padding stops at the length as an \<open>unsigned\<close>.
\<close>

definition fql_cast_char :: "('s, 'f) getters \<Rightarrow> fn_data \<Rightarrow> ('s, 'f field) act" where
  "fql_cast_char G fn =
     derefA (if length (fn_args fn) = 2 then at_arg fn 1 (get_int G) else outA (Good (- 1)))
       (\<lambda>len. derefA (at_arg fn 0 (get_stringview G)) (\<lambda>sv.
          if len = - 1 then ret_strncpy sv 0 (sv_len sv)
          else if int (sv_len sv) \<ge> sint len
          then (if sint len < 0 then outA Crash else ret_strncpy sv 0 (nat (sint len)))
          else outA (map_outcome
            (\<lambda>s. UStr (s @ replicate (unat (ucast len :: u32) - length s) (CHR '' '')))
            (strncpy_view sv 0 (sv_len sv)))))"

section \<open>String functions\<close>

function len_loop :: "bool \<Rightarrow> string \<Rightarrow> nat \<Rightarrow> nat \<Rightarrow> nat outcome" where
  "len_loop as_byte s len len_nospace =
     (if s = [] then Good len_nospace
      else o_bind (char_step as_byte s) (\<lambda>bytes.
        len_loop as_byte (drop (max 1 bytes) s) (len + 1)
          (if isspace_c (hd s) then len_nospace else len + 1)))"
  by pat_completeness auto
termination
  by (relation "measure (\<lambda>(b, s, l, n). length s)") auto

declare len_loop.simps [simp del]

definition fql_len :: "('s, 'f) getters \<Rightarrow> fn_data \<Rightarrow> ('s, 'f field) act" where
  "fql_len G fn = derefA (at_arg fn 0 (get_stringview G)) (\<lambda>sv.
     outA (map_outcome (\<lambda>n. UInt (of_nat n)) (len_loop (char_as_byte fn) (sv_text sv) 0 0)))"

definition fql_datalength :: "('s, 'f) getters \<Rightarrow> fn_data \<Rightarrow> ('s, 'f field) act" where
  "fql_datalength G fn = at_arg fn 0 (\<lambda>a s.
     (case get_type G a s of
        FIELD_INT \<Rightarrow> (Good (UInt 8), s)
      | FIELD_FLOAT \<Rightarrow> (Good (UInt 8), s)
      | FIELD_STRING \<Rightarrow>
          derefA (get_stringview G a) (\<lambda>sv. outA (Good (UInt (of_nat (sv_len sv))))) s
      | FIELD_UNDEFINED \<Rightarrow> (Fail, s)))"

text \<open>The number of bytes of the first \<open>n\<close> characters, or of all if there are fewer.\<close>

fun take_chars :: "bool \<Rightarrow> nat \<Rightarrow> string \<Rightarrow> nat outcome" where
  "take_chars as_byte 0 s = Good 0"
| "take_chars as_byte (Suc n) s =
     (if s = [] then Good 0
      else o_bind (char_step as_byte s) (\<lambda>bytes.
        o_bind (take_chars as_byte n (drop bytes s)) (\<lambda>rest. Good (bytes + rest))))"

definition fql_left :: "('s, 'f) getters \<Rightarrow> fn_data \<Rightarrow> ('s, 'f field) act" where
  "fql_left G fn =
     derefA (at_arg fn 0 (get_stringview G)) (\<lambda>sv.
     derefA (at_arg fn 1 (get_int G)) (\<lambda>n.
       if sint n < 0 then outA Fail
       else if sint n > int (sv_len sv) then ret_strncpy sv 0 (sv_len sv)
       else if char_as_byte fn then ret_strncpy sv 0 (nat (sint n))
       else (case take_chars False (nat (sint n)) (sv_text sv) of
               Good byte_count \<Rightarrow> ret_strncpy sv 0 byte_count
             | r \<Rightarrow> outA Fail)))"

text \<open>
  The same from the end; the result is the number of bytes. The index in \<open>fql_right\<close> is an \<open>int\<close>:
  in a text of more than 2^31 bytes it is negative and points in front of the text.
\<close>

fun take_chars_rev :: "nat \<Rightarrow> string \<Rightarrow> nat outcome" where
  "take_chars_rev 0 s = Good 0"
| "take_chars_rev (Suc n) s =
     (if s = [] then Good 0
      else o_bind (get_rev_byte_count s) (\<lambda>bytes.
        o_bind (take_chars_rev n (take (length s - bytes) s)) (\<lambda>rest. Good (bytes + rest))))"

definition fql_right :: "('s, 'f) getters \<Rightarrow> fn_data \<Rightarrow> ('s, 'f field) act" where
  "fql_right G fn =
     derefA (at_arg fn 0 (get_stringview G)) (\<lambda>sv.
     derefA (at_arg fn 1 (get_int G)) (\<lambda>n.
       if sint n < 0 then outA Fail
       else if sint n > int (sv_len sv) then ret_strncpy sv 0 (nat (sint n))
       else if char_as_byte fn
       then (if int (sv_len sv) - sint n \<ge> 2147483648 then outA Crash
             else ret_strncpy sv (sv_len sv - nat (sint n)) (nat (sint n)))
       else if sv_len sv > 2147483648 then outA Crash
       else (case take_chars_rev (nat (sint n)) (sv_text sv) of
               Good byte_count \<Rightarrow> ret_strncpy sv (sv_len sv - byte_count) byte_count
             | Null _ \<Rightarrow> outA Fail | Fail \<Rightarrow> outA Fail | Crash \<Rightarrow> outA Crash)))"

text \<open>
  \<open>fql_substring\<close>: skip \<open>start\<close> characters, then take \<open>n\<close>. A start before the first
  character shortens \<open>n\<close>, which may become negative; as a byte count that is a
  \<open>size_t\<close> no allocation can satisfy. \<open>--start\<close> and \<open>idx + n\<close> are of type \<open>long\<close> and may overflow.
\<close>

definition fql_substring :: "('s, 'f) getters \<Rightarrow> fn_data \<Rightarrow> ('s, 'f field) act" where
  "fql_substring G fn =
     derefA (at_arg fn 0 (get_stringview G)) (\<lambda>sv.
     derefA (at_arg fn 1 (get_int G)) (\<lambda>start0.
     if sint start0 = - 9223372036854775808 then outA Crash else
     derefA (at_arg fn 2 (get_int G)) (\<lambda>n0.
       let start = sint (start0 - 1) in
       if sint n0 < 0 then outA Fail
       else (case take_chars (char_as_byte fn) (nat start) (sv_text sv) of
               Good idx \<Rightarrow>
                 (let n = (if start < 0 then sint n0 + start else sint n0) in
                  if int idx + n > 9223372036854775807 then outA Crash
                  else if int idx + n > int (sv_len sv) then ret_strncpy sv idx (sv_len sv - idx)
                  else if char_as_byte fn
                  then (if n < 0 then outA Crash else ret_strncpy sv idx (nat n))
                  else (case take_chars False (nat n) (drop idx (sv_text sv)) of
                          Good byte_count \<Rightarrow> ret_strncpy sv idx byte_count
                        | r \<Rightarrow> outA Fail))
             | r \<Rightarrow> outA Fail))))"

text \<open>
  \<open>fql_replace\<close>: the needle must end in a NUL. That of a constant does; any other is copied
  with \<open>strncat\<close>, one byte more than its length.
\<close>

definition needle_copy :: "view \<Rightarrow> string outcome" where
  "needle_copy v =
     (if CHR 0x00 \<in> set (take (sv_len v + 1) (sv_data v)) then Good (c_str (sv_data v)) else Crash)"

definition needle_const :: "view \<Rightarrow> string outcome" where
  "needle_const v = (if CHR 0x00 \<in> set (sv_data v) then Good (c_str (sv_data v)) else Crash)"

definition replace_in :: "string \<Rightarrow> string \<Rightarrow> view \<Rightarrow> string outcome" where
  "replace_in hay needle rep =
     (case string_find_replace_nocase_limited (string_construct_take hay) needle (sv_data rep) (sv_len rep) of
        None \<Rightarrow> Crash
      | Some s \<Rightarrow> Good (str s))"

definition fql_replace :: "('s, 'f) getters \<Rightarrow> fn_data \<Rightarrow> ('s, 'f field) act" where
  "fql_replace G fn =
     derefA (at_arg fn 0 (get_stringview G)) (\<lambda>haystack.
     derefA (at_arg fn 1 (get_stringview G)) (\<lambda>needle.
     derefA (at_arg fn 2 (get_stringview G)) (\<lambda>replacement.
       \<lambda>s. outA (map_outcome UStr
         (o_bind (strncpy_view haystack 0 (sv_len haystack)) (\<lambda>hay.
          o_bind (if is_const G (fn_args fn ! 1) s then needle_const needle else needle_copy needle) (\<lambda>nd.
            replace_in hay nd replacement)))) s)))"

section \<open>ISNULL\<close>

definition fql_isnull_i :: "('s, 'f) getters \<Rightarrow> fn_data \<Rightarrow> ('s, 'f field) act" where
  "fql_isnull_i G fn = tryA 0 (at_arg fn 0 (get_int G)) (\<lambda>n good.
     if good then outA (Good (UInt n))
     else derefA (at_arg fn 1 (get_int G)) (\<lambda>n. outA (Good (UInt n))))"

definition fql_isnull_f :: "'f flt \<Rightarrow> ('s, 'f) getters \<Rightarrow> fn_data \<Rightarrow> ('s, 'f field) act" where
  "fql_isnull_f fo G fn = tryA (f_zero fo) (at_arg fn 0 (get_float G)) (\<lambda>f good.
     if good then outA (Good (UFloat f))
     else derefA (at_arg fn 1 (get_float G)) (\<lambda>f. outA (Good (UFloat f))))"

definition fql_isnull_s :: "('s, 'f) getters \<Rightarrow> fn_data \<Rightarrow> ('s, 'f field) act" where
  "fql_isnull_s G fn = tryA (view_of []) (at_arg fn 0 (get_stringview G)) (\<lambda>sv good.
     if good then ret_strncpy sv 0 (sv_len sv)
     else derefA (at_arg fn 1 (get_stringview G)) (\<lambda>sv. ret_strncpy sv 0 (sv_len sv)))"

section \<open>Operators\<close>

definition two_ints :: "('s, 'f) getters \<Rightarrow> fn_data \<Rightarrow> (i64 \<Rightarrow> i64 \<Rightarrow> i64 outcome) \<Rightarrow> ('s, 'f field) act" where
  "two_ints G fn op =
     derefA (at_arg fn 0 (get_int G)) (\<lambda>n0.
     derefA (at_arg fn 1 (get_int G)) (\<lambda>n1. outA (map_outcome UInt (op n0 n1))))"

definition two_floats :: "('s, 'f) getters \<Rightarrow> fn_data \<Rightarrow> ('f \<Rightarrow> 'f \<Rightarrow> 'f outcome) \<Rightarrow> ('s, 'f field) act" where
  "two_floats G fn op =
     derefA (at_arg fn 0 (get_float G)) (\<lambda>n0.
     derefA (at_arg fn 1 (get_float G)) (\<lambda>n1. outA (map_outcome UFloat (op n0 n1))))"

definition fql_op_plus_i :: "('s, 'f) getters \<Rightarrow> fn_data \<Rightarrow> ('s, 'f field) act" where
  "fql_op_plus_i G fn = two_ints G fn overflow_safe_add_i"

definition fql_op_plus_f :: "'f flt \<Rightarrow> ('s, 'f) getters \<Rightarrow> fn_data \<Rightarrow> ('s, 'f field) act" where
  "fql_op_plus_f fo G fn = two_floats G fn (\<lambda>n0 n1. Good (f_add fo n0 n1))"

definition fql_op_plus_s :: "('s, 'f) getters \<Rightarrow> fn_data \<Rightarrow> ('s, 'f field) act" where
  "fql_op_plus_s G fn =
     derefA (at_arg fn 0 (get_stringview G)) (\<lambda>s0.
     derefA (at_arg fn 1 (get_stringview G)) (\<lambda>s1.
       outA (map_outcome (\<lambda>s. UStr (s @ sv_text s1)) (strncpy_view s0 0 (sv_len s0)))))"

definition fql_op_minus_i :: "('s, 'f) getters \<Rightarrow> fn_data \<Rightarrow> ('s, 'f field) act" where
  "fql_op_minus_i G fn = two_ints G fn overflow_safe_minus_i"

definition fql_op_minus_f :: "'f flt \<Rightarrow> ('s, 'f) getters \<Rightarrow> fn_data \<Rightarrow> ('s, 'f field) act" where
  "fql_op_minus_f fo G fn = two_floats G fn (\<lambda>n0 n1. Good (f_sub fo n0 n1))"

definition fql_op_mult_i :: "('s, 'f) getters \<Rightarrow> fn_data \<Rightarrow> ('s, 'f field) act" where
  "fql_op_mult_i G fn = two_ints G fn overflow_safe_multiply_i"

definition fql_op_mult_f :: "'f flt \<Rightarrow> ('s, 'f) getters \<Rightarrow> fn_data \<Rightarrow> ('s, 'f field) act" where
  "fql_op_mult_f fo G fn = two_floats G fn (\<lambda>n0 n1. Good (f_mul fo n0 n1))"

text \<open>C division truncates; \<open>LONG_MIN / -1\<close> and any division by zero trap.\<close>

definition trunc_div :: "i64 \<Rightarrow> i64 \<Rightarrow> i64 outcome" where
  "trunc_div n0 n1 =
     (if n1 = 0 \<or> n1 = - 1 \<and> sint n0 = - 9223372036854775808 then Crash
      else Good (word_of_int (sint n0 sdiv sint n1)))"

definition trunc_mod :: "i64 \<Rightarrow> i64 \<Rightarrow> i64 outcome" where
  "trunc_mod n0 n1 =
     (if n1 = 0 \<or> n1 = - 1 \<and> sint n0 = - 9223372036854775808 then Crash
      else Good (word_of_int (sint n0 smod sint n1)))"

definition fql_op_divi_i :: "('s, 'f) getters \<Rightarrow> fn_data \<Rightarrow> ('s, 'f field) act" where
  "fql_op_divi_i G fn = two_ints G fn (\<lambda>n0 n1. if n1 = 0 then Fail else trunc_div n0 n1)"

definition fql_op_divi_f :: "'f flt \<Rightarrow> ('s, 'f) getters \<Rightarrow> fn_data \<Rightarrow> ('s, 'f field) act" where
  "fql_op_divi_f fo G fn =
     two_floats G fn (\<lambda>n0 n1. if f_eq fo n1 (f_zero fo) then Fail else Good (f_div fo n0 n1))"

definition fql_op_mod_i :: "('s, 'f) getters \<Rightarrow> fn_data \<Rightarrow> ('s, 'f field) act" where
  "fql_op_mod_i G fn = two_ints G fn trunc_mod"

definition fql_op_bit_or :: "('s, 'f) getters \<Rightarrow> fn_data \<Rightarrow> ('s, 'f field) act" where
  "fql_op_bit_or G fn = two_ints G fn (\<lambda>n0 n1. Good (n0 OR n1))"

definition fql_op_bit_and :: "('s, 'f) getters \<Rightarrow> fn_data \<Rightarrow> ('s, 'f field) act" where
  "fql_op_bit_and G fn = two_ints G fn (\<lambda>n0 n1. Good (n0 AND n1))"

definition fql_op_bit_xor :: "('s, 'f) getters \<Rightarrow> fn_data \<Rightarrow> ('s, 'f field) act" where
  "fql_op_bit_xor G fn = two_ints G fn (\<lambda>n0 n1. Good (n0 XOR n1))"

definition fql_op_bit_not :: "('s, 'f) getters \<Rightarrow> fn_data \<Rightarrow> ('s, 'f field) act" where
  "fql_op_bit_not G fn = derefA (at_arg fn 0 (get_int G)) (\<lambda>n0. outA (Good (UInt (NOT n0))))"

definition fql_op_unary_minus_i :: "('s, 'f) getters \<Rightarrow> fn_data \<Rightarrow> ('s, 'f field) act" where
  "fql_op_unary_minus_i G fn = derefA (at_arg fn 0 (get_int G)) (\<lambda>n0.
     if sint n0 = - 9223372036854775808 then outA Fail else outA (Good (UInt (- n0))))"

definition fql_op_unary_minus_f :: "'f flt \<Rightarrow> ('s, 'f) getters \<Rightarrow> fn_data \<Rightarrow> ('s, 'f field) act" where
  "fql_op_unary_minus_f fo G fn =
     derefA (at_arg fn 0 (get_float G)) (\<lambda>n0. outA (Good (UFloat (f_neg fo n0))))"

end
