(* ===== verification/ScalarText.thy ===== *)
theory ScalarText
  imports Scalar
begin

text \<open>
  The string functions of Scalar in terms of characters: on text that is valid UTF-8,
  \<open>LEFT\<close>, \<open>RIGHT\<close> and \<open>SUBSTRING\<close> cut at character boundaries and \<open>LEN\<close> counts characters
  up to the last that is not white space. \<open>RIGHT\<close> with a count above the byte length of its
  argument copies the bytes that happen to follow it.
\<close>

unbundle bit_operations_syntax

section \<open>Valid UTF-8\<close>

definition lead_of :: "char \<Rightarrow> nat" where
  "lead_of c = (let b = (of_char c :: u8) in
     if b AND 0x80 = 0 then 1
     else if b AND 0xE0 = 0xC0 then 2 else if b AND 0xF0 = 0xE0 then 3
     else if b AND 0xF8 = 0xF0 then 4 else 0)"

definition valid_char :: "string \<Rightarrow> bool" where
  "valid_char s \<longleftrightarrow> s \<noteq> [] \<and> lead_of (hd s) = length s \<and> (\<forall>c \<in> set (tl s). is_cont c)"

text \<open>A byte is one character, the lead of a sequence or a continuation, never two of them.\<close>

lemma mask_clash:
  fixes b :: u8
  assumes "b AND m1 = v1" "b AND m2 = v2"
  shows "v1 AND m2 = v2 AND m1"
  using assms by (simp add: and.assoc and.commute [of m1 m2] flip: assms)

lemma byte_classes:
  fixes b :: u8
  shows "b AND 0x80 = 0 \<Longrightarrow> b AND 0xC0 \<noteq> 0x80"
    "b AND 0xE0 = 0xC0 \<Longrightarrow> b AND 0xC0 \<noteq> 0x80"
    "b AND 0xF0 = 0xE0 \<Longrightarrow> b AND 0xC0 \<noteq> 0x80"
    "b AND 0xF8 = 0xF0 \<Longrightarrow> b AND 0xC0 \<noteq> 0x80"
  by (auto dest: mask_clash [where b = b])

lemma lead_not_cont: "lead_of c \<noteq> 0 \<Longrightarrow> \<not> is_cont c"
  using byte_classes [of "of_char c :: u8"]
  by (auto simp: lead_of_def is_cont_def Let_def split: if_splits)

lemma get_byte_count_lead:
  "lead_of c \<noteq> 0 \<Longrightarrow> lead_of c \<le> limit \<Longrightarrow> get_byte_count c limit = Good (lead_of c)"
  by (auto simp: get_byte_count_def lead_of_def Let_def split: if_splits)

lemma valid_char_length: "valid_char s \<Longrightarrow> 0 < length s"
  by (simp add: valid_char_def)

lemma char_step_valid:
  assumes "valid_char c"
  shows "char_step False (c @ rest) = Good (length c)"
proof -
  have "c \<noteq> []" "lead_of (hd c) = length c" using assms by (auto simp: valid_char_def)
  then show ?thesis by (simp add: char_step_def get_byte_count_lead)
qed

lemma back_count_conts:
  assumes "\<forall>c \<in> set cs. is_cont c" "\<not> is_cont l"
  shows "back_count (cs @ l # rest) = length cs"
  using assms by (induction cs) auto

lemma get_rev_byte_count_valid:
  assumes "valid_char c"
  shows "get_rev_byte_count (pre @ c) = Good (length c)"
proof -
  obtain l cs where c: "c = l # cs" using assms by (cases c) (auto simp: valid_char_def)
  have v: "lead_of l = length cs + 1" "\<forall>x \<in> set cs. is_cont x"
    using assms by (auto simp: valid_char_def c)
  have nl: "\<not> is_cont l" using lead_not_cont v(1) by simp
  have r: "rev (pre @ c) = rev cs @ l # rev pre" by (simp add: c)
  have bc: "back_count (rev (pre @ c)) = length cs" using back_count_conts [of "rev cs" l] v nl r by simp
  show ?thesis
  proof (cases "cs = []")
    case True
    then have "(of_char l :: u8) AND 0x80 = 0" using v(1) by (auto simp: lead_of_def Let_def split: if_splits)
    then show ?thesis using True c by (simp add: get_rev_byte_count_def Let_def)
  next
    case False
    then obtain x xs where x: "rev cs = x # xs" by (cases "rev cs") auto
    then have "is_cont x" using v(2) by (metis list.set_intros(1) set_rev)
    then have hi: "(of_char x :: u8) AND 0x80 \<noteq> 0"
      using byte_classes(1) [of "of_char x :: u8"] by (auto simp: is_cont_def)
    have nth: "rev (pre @ c) ! length cs = l" using r by (simp add: nth_append)
    have len: "length cs < length (pre @ c)" by (simp add: c)
    have lead: "length cs + 1 = 2 \<and> (of_char l :: u8) AND 0xE0 = 0xC0 \<or>
        length cs + 1 = 3 \<and> (of_char l :: u8) AND 0xF0 = 0xE0 \<or>
        length cs + 1 = 4 \<and> (of_char l :: u8) AND 0xF8 = 0xF0"
      using v(1) False by (auto simp: lead_of_def Let_def split: if_splits)
    have rv: "rev (pre @ c) = x # xs @ l # rev pre" using r x by simp
    have "get_rev_byte_count (pre @ c) = Good (length cs + 1)"
      unfolding get_rev_byte_count_def Let_def rv bc [unfolded rv] nth [unfolded rv] list.case
      using len lead hi by auto
    then show ?thesis by (simp add: c)
  qed
qed

section \<open>Cutting at characters\<close>

lemma concat_length: "\<forall>c \<in> set cs. valid_char c \<Longrightarrow> length cs \<le> length (concat cs)"
proof (induction cs)
  case (Cons c cs)
  then have "0 < length c" using valid_char_length [of c] by simp
  moreover have "length cs \<le> length (concat cs)" using Cons by simp
  ultimately show ?case by (simp del: length_greater_0_conv)
qed simp

lemma take_chars_concat:
  "\<forall>c \<in> set cs. valid_char c \<Longrightarrow> take_chars False n (concat cs) = Good (length (concat (take n cs)))"
proof (induction n arbitrary: cs)
  case (Suc n)
  show ?case
  proof (cases cs)
    case (Cons c cs')
    then have "c \<noteq> []" using Suc.prems by (auto simp: valid_char_def)
    then show ?thesis using Cons Suc by (simp add: char_step_valid)
  qed simp
qed simp

lemma take_chars_rev_concat:
  "\<forall>c \<in> set cs. valid_char c \<Longrightarrow>
   take_chars_rev n (concat cs) = Good (length (concat (drop (length cs - n) cs)))"
proof (induction n arbitrary: cs)
  case (Suc n)
  show ?case
  proof (cases cs rule: rev_cases)
    case (snoc cs' c)
    then have v: "valid_char c" "\<forall>c \<in> set cs'. valid_char c" using Suc.prems by auto
    then have "c \<noteq> []" by (auto simp: valid_char_def)
    moreover have "get_rev_byte_count (concat cs) = Good (length c)"
      using get_rev_byte_count_valid [OF v(1)] snoc by simp
    moreover have "drop (length cs - Suc n) cs = drop (length cs' - n) cs' @ [c]" using snoc by simp
    ultimately show ?thesis using snoc Suc.IH [OF v(2)] by simp
  qed simp
qed simp

text \<open>Views whose text can be copied as a string: a byte follows, and there is no NUL in it.\<close>

definition text_view :: "view \<Rightarrow> bool" where
  "text_view v \<longleftrightarrow> sv_len v < length (sv_data v) \<and> CHR 0x00 \<notin> set (sv_text v)"

lemma take_c_str: "\<forall>c \<in> set (take n xs). c \<noteq> CHR 0x00 \<Longrightarrow> take n (c_str xs) = take n xs"
proof (induction xs arbitrary: n)
  case (Cons x xs)
  then show ?case by (cases n) auto
qed simp

lemma strncpy_view_text:
  assumes "text_view v" "off + n \<le> sv_len v"
  shows "strncpy_view v off n = Good (take n (drop off (sv_text v)))"
proof -
  have tv: "sv_text v = take (sv_len v) (sv_data v)" by (simp add: sv_text_def)
  have nn: "\<forall>c \<in> set (take n (drop off (sv_text v))). c \<noteq> CHR 0x00"
    using assms(1) by (auto simp: text_view_def dest!: in_set_takeD in_set_dropD)
  have eq: "take n (drop off (sv_data v)) = take n (drop off (sv_text v))"
    using assms(2) by (simp add: tv drop_take min_def)
  have "take n (c_str (drop off (sv_data v))) = take n (drop off (sv_data v))"
    using nn unfolding eq [symmetric] by (rule take_c_str)
  then show ?thesis
    using assms eq by (auto simp: strncpy_view_def Let_def text_view_def)
qed


text \<open>The character functions on a view of valid text.\<close>

definition utf8_view :: "view \<Rightarrow> string list \<Rightarrow> bool" where
  "utf8_view v cs \<longleftrightarrow> text_view v \<and> sv_text v = concat cs \<and> (\<forall>c \<in> set cs. valid_char c)"

lemma utf8_view_len: "utf8_view v cs \<Longrightarrow> sv_len v = length (concat cs)"
proof -
  assume "utf8_view v cs"
  then have "sv_len v \<le> length (sv_data v)" "sv_text v = concat cs"
    by (simp_all add: utf8_view_def text_view_def)
  then show ?thesis by (metis sv_text_length view_ok_def)
qed

lemma concat_take_drop: "concat (take n cs) @ concat (drop n cs) = concat cs"
  by (metis append_take_drop_id concat_append)

lemma take_concat: "take (length (concat (take n cs))) (concat cs) = concat (take n cs)"
  by (metis append_eq_conv_conj concat_take_drop)

lemma drop_concat: "drop (length (concat (take n cs))) (concat cs) = concat (drop n cs)"
  by (metis append_eq_conv_conj concat_take_drop)

lemma concat_take_length: "length (concat (take n cs)) \<le> length (concat cs)"
  by (metis concat_take_drop le_add1 length_append)

lemma fql_left_chars:
  assumes get: "at_arg fn 0 (get_stringview G) s = (Good v, s1)" "at_arg fn 1 (get_int G) s1 = (Good n, s2)"
    and v: "utf8_view v cs" and n: "0 \<le> sint n" and c: "\<not> char_as_byte fn"
  shows "fql_left G fn s = (Good (UStr (concat (take (nat (sint n)) cs))), s2)"
proof -
  have tv: "text_view v" "sv_text v = concat cs" "\<forall>c \<in> set cs. valid_char c"
    using v by (auto simp: utf8_view_def)
  note len = utf8_view_len [OF v] and cl = concat_length [OF tv(3)]
  show ?thesis
  proof (cases "sint n > int (sv_len v)")
    case True
    then have "length cs \<le> nat (sint n)" using cl len by simp
    then show ?thesis
      using True get n tv len strncpy_view_text [OF tv(1), of 0 "sv_len v"]
      by (simp add: fql_left_def ret_strncpy_def outA_def)
  next
    case False
    let ?b = "length (concat (take (nat (sint n)) cs))"
    have "strncpy_view v 0 ?b = Good (concat (take (nat (sint n)) cs))"
      using strncpy_view_text [OF tv(1), of 0 ?b] len tv(2) concat_take_length [of "nat (sint n)" cs]
      by (simp add: take_concat)
    then show ?thesis
      using False get n c tv take_chars_concat [OF tv(3), of "nat (sint n)"]
      by (simp add: fql_left_def ret_strncpy_def outA_def)
  qed
qed

lemma fql_right_chars:
  assumes get: "at_arg fn 0 (get_stringview G) s = (Good v, s1)" "at_arg fn 1 (get_int G) s1 = (Good n, s2)"
    and v: "utf8_view v cs" and n: "0 \<le> sint n" "sint n \<le> int (sv_len v)" "sv_len v \<le> 2147483648" and c: "\<not> char_as_byte fn"
  shows "fql_right G fn s = (Good (UStr (concat (drop (length cs - nat (sint n)) cs))), s2)"
proof -
  have tv: "text_view v" "sv_text v = concat cs" "\<forall>c \<in> set cs. valid_char c"
    using v by (auto simp: utf8_view_def)
  note len = utf8_view_len [OF v]
  let ?k = "length cs - nat (sint n)"
  let ?b = "length (concat (drop ?k cs))"
  have pre: "length (concat cs) - ?b = length (concat (take ?k cs))"
    by (metis add_diff_cancel_right' concat_take_drop length_append)
  have "?b \<le> length (concat cs)" by (metis concat_take_drop le_add2 length_append)
  then have "sv_len v - ?b + ?b \<le> sv_len v" using len by simp
  then have "strncpy_view v (sv_len v - ?b) ?b = Good (concat (drop ?k cs))"
    using strncpy_view_text [OF tv(1), of "sv_len v - ?b" ?b] len tv(2) pre
    by (simp add: drop_concat)
  then show ?thesis
    using get n c tv take_chars_rev_concat [OF tv(3), of "nat (sint n)"]
    by (simp add: fql_right_def ret_strncpy_def outA_def)
qed

text \<open>Above the byte length the count is used as it is: what follows the text is copied too.\<close>

lemma fql_right_overrun:
  assumes get: "at_arg fn 0 (get_stringview G) s = (Good v, s1)" "at_arg fn 1 (get_int G) s1 = (Good n, s2)"
    and n: "sint n > int (sv_len v)"
  shows "fql_right G fn s = (if nat (sint n) < length (sv_data v) \<or> CHR 0x00 \<in> set (sv_data v)
    then Good (UStr (take (nat (sint n)) (c_str (sv_data v)))) else Crash, s2)"
  using assms by (simp add: fql_right_def ret_strncpy_def outA_def strncpy_view_def)

lemma negative_count:
  assumes "at_arg fn 0 (get_stringview G) s = (Good v, s1)" "at_arg fn 1 (get_int G) s1 = (Good n, s2)"
  shows "sint n < 0 \<Longrightarrow> fql_left G fn s = (Fail, s2)" "sint n < 0 \<Longrightarrow> fql_right G fn s = (Fail, s2)"
    "at_arg fn 2 (get_int G) s2 = (Good k, s3) \<Longrightarrow> sint k < 0 \<Longrightarrow> - 9223372036854775808 < sint n \<Longrightarrow>
      fql_substring G fn s = (Fail, s3)"
  using assms by (simp_all add: fql_left_def fql_right_def fql_substring_def outA_def)

text \<open>A start in front of the text shortens what is taken; nothing is left to take when it is far in front.\<close>

lemma fql_substring_chars:
  assumes get: "at_arg fn 0 (get_stringview G) s = (Good v, s1)"
      "at_arg fn 1 (get_int G) s1 = (Good start, s2)" "at_arg fn 2 (get_int G) s2 = (Good n, s3)"
    and v: "utf8_view v cs" and n: "0 \<le> sint n" "- 9223372036854775808 < sint start" and c: "\<not> char_as_byte fn"
    and fits: "int (sv_len v) + sint n \<le> 9223372036854775807"
  shows "fql_substring G fn s =
    (Good (UStr (concat (take (nat (sint n + min 0 (sint start - 1))) (drop (nat (sint start - 1)) cs)))), s3)"
proof -
  have tv: "text_view v" "sv_text v = concat cs" "\<forall>c \<in> set cs. valid_char c"
    using v by (auto simp: utf8_view_def)
  note len = utf8_view_len [OF v]
  have st: "sint (start - 1) = sint start - 1"
  proof -
    have "start - 1 = word_of_int (sint start - 1)" by simp
    then show ?thesis using sint_word_of_int64 [of "sint start - 1"] sint_bounds [of start] n(2) by simp
  qed
  let ?k = "nat (sint start - 1)" and ?n = "nat (sint n + min 0 (sint start - 1))"
  let ?idx = "length (concat (take ?k cs))" and ?cs = "drop ?k cs"
  have idx: "take_chars False ?k (sv_text v) = Good ?idx" using take_chars_concat [OF tv(3)] tv(2) by simp
  have rest: "drop ?idx (sv_text v) = concat ?cs" by (simp add: tv(2) drop_concat)
  have vr: "\<forall>c \<in> set ?cs. valid_char c" using tv(3) by (auto dest: in_set_dropD)
  have il: "?idx \<le> sv_len v" using concat_take_length len by simp
  let ?m = "sint n + min 0 (sint start - 1)"
  have no: "\<not> int ?idx + ?m > 9223372036854775807" using il fits by linarith
  show ?thesis
  proof (cases "int ?idx + ?m > int (sv_len v)")
    case True
    have "length (concat ?cs) = sv_len v - ?idx" using rest len tv(2) by (metis length_drop)
    then have "length ?cs \<le> ?n" using concat_length [OF vr] True il by linarith
    then have "take ?n ?cs = ?cs" by simp
    moreover have "strncpy_view v ?idx (sv_len v - ?idx) = Good (concat ?cs)"
      using strncpy_view_text [OF tv(1), of ?idx "sv_len v - ?idx"] il rest len tv(2)
      by (simp add: \<open>length (concat ?cs) = sv_len v - ?idx\<close> [symmetric])
    ultimately show ?thesis
      using True get n c idx no st
      by (cases "sint start < 1") (simp_all add: fql_substring_def Let_def ret_strncpy_def outA_def min_def)
  next
    case False
    let ?b = "length (concat (take ?n ?cs))"
    have "?idx + ?b \<le> sv_len v"
      using concat_take_length [of ?n ?cs] concat_take_drop [of ?k cs] len
      by (metis add_le_mono1 add.commute length_append)
    then have "strncpy_view v ?idx ?b = Good (concat (take ?n ?cs))"
      using strncpy_view_text [OF tv(1), of ?idx ?b] rest by (simp add: take_concat)
    moreover have "take_chars False ?n (drop ?idx (sv_text v)) = Good ?b"
      using take_chars_concat [OF vr] rest by simp
    ultimately show ?thesis
      using False get n c idx no st
      by (cases "sint start < 1") (simp_all add: fql_substring_def Let_def ret_strncpy_def outA_def min_def)
  qed
qed

section \<open>Length\<close>

text \<open>Characters up to the last one that does not start with white space.\<close>

definition trimmed_count :: "string list \<Rightarrow> nat" where
  "trimmed_count cs = length (rstrip (\<lambda>c. isspace_c (hd c)) cs)"

lemma len_loop_concat:
  "\<forall>c \<in> set cs. valid_char c \<Longrightarrow> len_loop False (concat cs) n m =
     Good (let t = trimmed_count cs in if t = 0 then m else n + t)"
proof (induction cs arbitrary: n m)
  case Nil
  then show ?case by (simp add: len_loop.simps trimmed_count_def)
next
  case (Cons c cs)
  have v: "valid_char c" "c \<noteq> []" "0 < length c" using Cons.prems by (auto simp: valid_char_def)
  obtain x xs where c: "c = x # xs" using v(2) by (cases c) auto
  have st: "char_step False (x # xs @ concat cs) = Good (Suc (length xs))"
    using char_step_valid [OF v(1), of "concat cs"] by (simp add: c)
  show ?case
    using Cons by (subst len_loop.simps) (auto simp: c st trimmed_count_def Let_def rstrip_Cons)
qed

lemma fql_len_chars:
  assumes "at_arg fn 0 (get_stringview G) s = (Good v, s1)" "utf8_view v cs" "\<not> char_as_byte fn"
  shows "fql_len G fn s = (Good (UInt (of_nat (trimmed_count cs))), s1)"
  using assms len_loop_concat [of cs 0 0]
  by (simp add: fql_len_def outA_def utf8_view_def Let_def)

section \<open>NULL and failure\<close>

text \<open>A binary operator is NULL when an argument is, and stops at the first that is not good.\<close>

lemma two_ints_good:
  assumes "at_arg fn 0 (get_int G) s = (Good n0, s1)" "at_arg fn 1 (get_int G) s1 = (Good n1, s2)"
  shows "two_ints G fn op s = (map_outcome UInt (op n0 n1), s2)"
  using assms by (simp add: two_ints_def outA_def)

lemma two_ints_null:
  "at_arg fn 0 (get_int G) s = (Null x, s1) \<Longrightarrow> two_ints G fn op s = (Null None, s1)"
  "at_arg fn 0 (get_int G) s = (Good n, s1) \<Longrightarrow> at_arg fn 1 (get_int G) s1 = (Null x, s2) \<Longrightarrow>
     two_ints G fn op s = (Null None, s2)"
  by (simp_all add: two_ints_def)

lemma two_ints_fail:
  "at_arg fn 0 (get_int G) s = (Fail, s1) \<Longrightarrow> two_ints G fn op s = (Fail, s1)"
  "at_arg fn 0 (get_int G) s = (Good n, s1) \<Longrightarrow> at_arg fn 1 (get_int G) s1 = (Fail, s2) \<Longrightarrow>
     two_ints G fn op s = (Fail, s2)"
  by (simp_all add: two_ints_def)

text \<open>
  Division and remainder of the operators: the remainder is smaller than the divisor and has the
  sign of the dividend, which is what C asks of them.
\<close>

lemma smod_int_facts:
  fixes a b :: int
  assumes "b \<noteq> 0"
  shows "(a sdiv b) * b + a smod b = a" "\<bar>a smod b\<bar> < \<bar>b\<bar>" "a smod b = 0 \<or> sgn (a smod b) = sgn a"
proof -
  have e: "a smod b = sgn a * (\<bar>a\<bar> mod \<bar>b\<bar>)" by (simp add: signed_modulo_int_def)
  show "(a sdiv b) * b + a smod b = a" by (rule sdiv_mult_smod_eq)
  have m: "0 \<le> \<bar>a\<bar> mod \<bar>b\<bar>" "\<bar>a\<bar> mod \<bar>b\<bar> < \<bar>b\<bar>" using assms by simp_all
  then show "\<bar>a smod b\<bar> < \<bar>b\<bar>" unfolding e abs_mult by (cases "a = 0") (simp_all add: abs_sgn_eq assms)
  show "a smod b = 0 \<or> sgn (a smod b) = sgn a"
  proof (cases "\<bar>a\<bar> mod \<bar>b\<bar> = 0")
    case False
    then have "sgn (\<bar>a\<bar> mod \<bar>b\<bar>) = 1" using m(1) by (simp add: sgn_1_pos)
    then show ?thesis unfolding e sgn_mult by simp
  qed (simp add: e)
qed

lemma trunc_div_mod:
  assumes "n1 \<noteq> 0" "\<not> (n1 = - 1 \<and> sint n0 = - 9223372036854775808)"
  shows "\<exists>q r. trunc_div n0 n1 = Good q \<and> trunc_mod n0 n1 = Good r \<and> sint q * sint n1 + sint r = sint n0 \<and>
    \<bar>sint r\<bar> < \<bar>sint n1\<bar> \<and> (sint r = 0 \<or> sgn (sint r) = sgn (sint n0))"
proof -
  let ?a = "sint n0" and ?b = "sint n1"
  have b: "?b \<noteq> 0" using assms(1) by (metis sint_0 signed_word_eqI)
  note f = smod_int_facts [OF b, of ?a]
  have ra: "- 9223372036854775808 \<le> ?a" "?a < 9223372036854775808" by (rule sint_bounds)+
  have rb: "- 9223372036854775808 \<le> ?b" "?b < 9223372036854775808" by (rule sint_bounds)+
  have m: "sint (word_of_int (?a smod ?b) :: i64) = ?a smod ?b" using f(2) rb by (intro sint_word_of_int64) simp_all
  have q: "?a sdiv ?b = sgn ?a * sgn ?b * (\<bar>?a\<bar> div \<bar>?b\<bar>)" by (simp add: signed_divide_int_def sgn_mult)
  have "- 9223372036854775808 \<le> ?a sdiv ?b \<and> ?a sdiv ?b < 9223372036854775808"
  proof (cases "\<bar>?b\<bar> = 1")
    case True
    then consider "?b = 1" | "?b = - 1" "n1 = - 1" by (metis abs_eq_iff' abs_1 sint_n1 signed_word_eqI)
    then show ?thesis
    proof cases
      case 1
      then show ?thesis using ra by simp
    next
      case 2
      then show ?thesis using ra assms(2) by auto
    qed
  next
    case False
    then have "2 \<le> \<bar>?b\<bar>" using b by simp
    then have "\<bar>?a\<bar> div \<bar>?b\<bar> \<le> \<bar>?a\<bar> div 2" by (intro zdiv_mono2) simp_all
    then have "0 \<le> \<bar>?a\<bar> div \<bar>?b\<bar>" "\<bar>?a\<bar> div \<bar>?b\<bar> \<le> 4611686018427387904" using ra by (simp_all add: pos_imp_zdiv_nonneg_iff b)
    then show ?thesis unfolding q by (auto simp: sgn_if)
  qed
  then have d: "sint (word_of_int (?a sdiv ?b) :: i64) = ?a sdiv ?b" by (intro sint_word_of_int64) simp_all
  show ?thesis using f m d assms by (simp add: trunc_div_def trunc_mod_def)
qed

end
