(* ===== verification/Function.thy ===== *)
theory Function
  imports Scalar
begin

text \<open>
  Calls of scalar functions and operators (lib/function.c): how a call is built from its
  name, how many arguments it takes, which C function it runs. The operator table is indexed
  by the type of the operands; \<open>FIELD_UNDEFINED\<close> is -1 and reads outside of it.
\<close>

section \<open>Data\<close>

datatype scalar_function =
    SCALAR_UNDEFINED
  | SCALAR_OP_PLUS | SCALAR_OP_MINUS | SCALAR_OP_MULTIPY | SCALAR_OP_DIVIDE | SCALAR_OP_MODULE
  | SCALAR_OP_BIT_OR | SCALAR_OP_BIT_AND | SCALAR_OP_BIT_XOR
  | SCALAR_OP_UNARY_BIT_NOT | SCALAR_OP_UNARY_MINUS
  | SCALAR_ABS | SCALAR_ASCII | SCALAR_CAST | SCALAR_CEILING | SCALAR_CHAR | SCALAR_CHARINDEX
  | SCALAR_CHECKSUM | SCALAR_DATALENGTH | SCALAR_DAY | SCALAR_FLOOR | SCALAR_ISDATE | SCALAR_ISNULL
  | SCALAR_ISNUMERIC | SCALAR_LEFT | SCALAR_LEN | SCALAR_LOWER | SCALAR_LTRIM | SCALAR_MONTH
  | SCALAR_NCHAR | SCALAR_PATINDEX | SCALAR_RAND | SCALAR_REPLACE | SCALAR_RIGHT | SCALAR_ROUND
  | SCALAR_RTRIM | SCALAR_SIGN | SCALAR_SPACE | SCALAR_STR | SCALAR_SUBSTRING | SCALAR_UPPER
  | SCALAR_USER_NAME | SCALAR_YEAR

text \<open>The pointer \<open>call__\<close>.\<close>

datatype scalar_call =
    Not_implemented
  | Fql_cast_int | Fql_cast_bit | Fql_cast_float | Fql_cast_string | Fql_cast_char
  | Fql_len | Fql_datalength | Fql_left | Fql_right | Fql_substring | Fql_replace
  | Fql_isnull_i | Fql_isnull_f | Fql_isnull_s
  | Fql_op_plus_i | Fql_op_plus_f | Fql_op_plus_s | Fql_op_minus_i | Fql_op_minus_f
  | Fql_op_mult_i | Fql_op_mult_f | Fql_op_divi_i | Fql_op_divi_f | Fql_op_mod_i
  | Fql_op_bit_or | Fql_op_bit_and | Fql_op_bit_xor | Fql_op_bit_not
  | Fql_op_unary_minus_i | Fql_op_unary_minus_f

definition call_fn :: "'f flt \<Rightarrow> ('s, 'f) getters \<Rightarrow> scalar_call \<Rightarrow> fn_data \<Rightarrow> ('s, 'f field) act" where
  "call_fn fo G c fn =
     (case c of
        Not_implemented \<Rightarrow> outA Fail
      | Fql_cast_int \<Rightarrow> fql_cast_int G fn
      | Fql_cast_bit \<Rightarrow> fql_cast_bit G fn
      | Fql_cast_float \<Rightarrow> fql_cast_float G fn
      | Fql_cast_string \<Rightarrow> fql_cast_string G fn
      | Fql_cast_char \<Rightarrow> fql_cast_char G fn
      | Fql_len \<Rightarrow> fql_len G fn
      | Fql_datalength \<Rightarrow> fql_datalength G fn
      | Fql_left \<Rightarrow> fql_left G fn
      | Fql_right \<Rightarrow> fql_right G fn
      | Fql_substring \<Rightarrow> fql_substring G fn
      | Fql_replace \<Rightarrow> fql_replace G fn
      | Fql_isnull_i \<Rightarrow> fql_isnull_i G fn
      | Fql_isnull_f \<Rightarrow> fql_isnull_f fo G fn
      | Fql_isnull_s \<Rightarrow> fql_isnull_s G fn
      | Fql_op_plus_i \<Rightarrow> fql_op_plus_i G fn
      | Fql_op_plus_f \<Rightarrow> fql_op_plus_f fo G fn
      | Fql_op_plus_s \<Rightarrow> fql_op_plus_s G fn
      | Fql_op_minus_i \<Rightarrow> fql_op_minus_i G fn
      | Fql_op_minus_f \<Rightarrow> fql_op_minus_f fo G fn
      | Fql_op_mult_i \<Rightarrow> fql_op_mult_i G fn
      | Fql_op_mult_f \<Rightarrow> fql_op_mult_f fo G fn
      | Fql_op_divi_i \<Rightarrow> fql_op_divi_i G fn
      | Fql_op_divi_f \<Rightarrow> fql_op_divi_f fo G fn
      | Fql_op_mod_i \<Rightarrow> fql_op_mod_i G fn
      | Fql_op_bit_or \<Rightarrow> fql_op_bit_or G fn
      | Fql_op_bit_and \<Rightarrow> fql_op_bit_and G fn
      | Fql_op_bit_xor \<Rightarrow> fql_op_bit_xor G fn
      | Fql_op_bit_not \<Rightarrow> fql_op_bit_not G fn
      | Fql_op_unary_minus_i \<Rightarrow> fql_op_unary_minus_i G fn
      | Fql_op_unary_minus_f \<Rightarrow> fql_op_unary_minus_f fo G fn)"

record scalar_fn = fn_data +
  call :: scalar_call
  fn_type :: scalar_function
  arg_min :: nat
  arg_max :: nat

section \<open>Operators\<close>

text \<open>
  \<open>scalar_type <= SCALAR_OP_UNARY_MINUS\<close>: the position of an operator in the enumeration,
  \<open>None\<close> for a function; \<open>SCALAR_UNDEFINED\<close> is -1.
\<close>

definition op_index :: "scalar_function \<Rightarrow> int option" where
  "op_index t =
     (case t of
        SCALAR_UNDEFINED \<Rightarrow> Some (- 1)
      | SCALAR_OP_PLUS \<Rightarrow> Some 0 | SCALAR_OP_MINUS \<Rightarrow> Some 1 | SCALAR_OP_MULTIPY \<Rightarrow> Some 2
      | SCALAR_OP_DIVIDE \<Rightarrow> Some 3 | SCALAR_OP_MODULE \<Rightarrow> Some 4 | SCALAR_OP_BIT_OR \<Rightarrow> Some 5
      | SCALAR_OP_BIT_AND \<Rightarrow> Some 6 | SCALAR_OP_BIT_XOR \<Rightarrow> Some 7
      | SCALAR_OP_UNARY_BIT_NOT \<Rightarrow> Some 8 | SCALAR_OP_UNARY_MINUS \<Rightarrow> Some 9
      | _ \<Rightarrow> None)"

definition scalar_ops :: "scalar_call option list list" where
  "scalar_ops =
     [[Some Fql_op_plus_i, Some Fql_op_plus_f, Some Fql_op_plus_s],
      [Some Fql_op_minus_i, Some Fql_op_minus_f, None],
      [Some Fql_op_mult_i, Some Fql_op_mult_f, None],
      [Some Fql_op_divi_i, Some Fql_op_divi_f, None],
      [Some Fql_op_mod_i, None, None],
      [Some Fql_op_bit_or, None, None],
      [Some Fql_op_bit_and, None, None],
      [Some Fql_op_bit_xor, None, None],
      [Some Fql_op_bit_not, None, None],
      [Some Fql_op_unary_minus_i, Some Fql_op_unary_minus_f, None]]"

definition type_index :: "field_type \<Rightarrow> int" where
  "type_index ft =
     (case ft of FIELD_UNDEFINED \<Rightarrow> - 1 | FIELD_INT \<Rightarrow> 0 | FIELD_FLOAT \<Rightarrow> 1 | FIELD_STRING \<Rightarrow> 2)"

text \<open>Reading a static table of rows of three; an index outside of it is undefined.\<close>

definition table_at :: "'a list list \<Rightarrow> int \<Rightarrow> int \<Rightarrow> 'a outcome" where
  "table_at tab i j =
     (if 0 \<le> i \<and> nat i < length tab \<and> 0 \<le> j \<and> nat j < length (tab ! nat i)
      then Good (tab ! nat i ! nat j) else Crash)"

text \<open>
  The second half of \<open>function_op_resolve\<close>, once the types of the operands are known:
  the type of the result, the number of arguments and the C function.
\<close>

definition op_resolve_types :: "scalar_fn \<Rightarrow> int \<Rightarrow> field_type \<Rightarrow> field_type \<Rightarrow>
    unit outcome \<times> scalar_fn \<times> field_type" where
  "op_resolve_types self op t0 t1 =
     (let type = field_determine_type t0 t1;
          n = (if fn_type self = SCALAR_OP_UNARY_BIT_NOT \<or> fn_type self = SCALAR_OP_UNARY_MINUS then 1 else 2);
          self1 = self\<lparr>arg_min := n, arg_max := n\<rparr>
      in case table_at scalar_ops op (type_index type) of
           Good None \<Rightarrow> (Fail, self1, type)
         | Good (Some c) \<Rightarrow> (Good (), self1\<lparr>call := c\<rparr>, type)
         | _ \<Rightarrow> (Crash, self1, type))"

section \<open>Construction\<close>

definition not_yet :: "scalar_fn \<Rightarrow> nat \<Rightarrow> nat \<Rightarrow> scalar_fn" where
  "not_yet self lo hi = self\<lparr>arg_min := lo, arg_max := hi\<rparr>"

definition function_construct :: "scalar_function \<Rightarrow> field_type \<Rightarrow> bool \<Rightarrow> scalar_fn \<times> field_type" where
  "function_construct scalar_type type as_byte =
     (let self = \<lparr>fn_args = [], char_as_byte = as_byte, call = Not_implemented, fn_type = scalar_type,
            arg_min = 0, arg_max = 0\<rparr>
      in if op_index scalar_type \<noteq> None then (self, type)
      else case scalar_type of
        SCALAR_RAND \<Rightarrow> (not_yet self 0 1, type)
      | SCALAR_USER_NAME \<Rightarrow> (not_yet self 0 1, type)
      | SCALAR_DATALENGTH \<Rightarrow> ((not_yet self 1 1)\<lparr>call := Fql_datalength\<rparr>, FIELD_INT)
      | SCALAR_LEN \<Rightarrow> ((not_yet self 1 1)\<lparr>call := Fql_len\<rparr>, FIELD_INT)
      | SCALAR_CAST \<Rightarrow> (not_yet self 1 2, type)
      | SCALAR_STR \<Rightarrow> (not_yet self 1 3, type)
      | SCALAR_LEFT \<Rightarrow> ((not_yet self 2 2)\<lparr>call := Fql_left\<rparr>, FIELD_STRING)
      | SCALAR_RIGHT \<Rightarrow> ((not_yet self 2 2)\<lparr>call := Fql_right\<rparr>, FIELD_STRING)
      | SCALAR_ISNULL \<Rightarrow> (not_yet self 2 2, type)
      | SCALAR_PATINDEX \<Rightarrow> (not_yet self 2 2, type)
      | SCALAR_ROUND \<Rightarrow> (not_yet self 2 3, type)
      | SCALAR_SUBSTRING \<Rightarrow> ((not_yet self 3 3)\<lparr>call := Fql_substring\<rparr>, FIELD_STRING)
      | SCALAR_REPLACE \<Rightarrow> ((not_yet self 3 3)\<lparr>call := Fql_replace\<rparr>, FIELD_STRING)
      | SCALAR_CHARINDEX \<Rightarrow> (not_yet self 3 3, type)
      | SCALAR_CHECKSUM \<Rightarrow> (not_yet self 3 3, type)
      | _ \<Rightarrow> (not_yet self 1 1, type))"

text \<open>
  \<open>function_validate\<close> completes ISNULL from the type of its first argument (reading it
  before the arguments are counted) and checks their number.
\<close>

definition function_validate ::
    "scalar_fn \<Rightarrow> (nat \<Rightarrow> field_type) \<Rightarrow> field_type \<Rightarrow> unit outcome \<times> scalar_fn \<times> field_type" where
  "function_validate self arg_type parent_type =
     (if fn_type self = SCALAR_ISNULL \<and> fn_args self = [] then (Crash, self, parent_type)
      else let (self1, type1) =
             (if fn_type self = SCALAR_ISNULL
              then (let t = arg_type (fn_args self ! 0) in
                    (case t of
                       FIELD_INT \<Rightarrow> self\<lparr>call := Fql_isnull_i\<rparr>
                     | FIELD_FLOAT \<Rightarrow> self\<lparr>call := Fql_isnull_f\<rparr>
                     | FIELD_STRING \<Rightarrow> self\<lparr>call := Fql_isnull_s\<rparr>
                     | FIELD_UNDEFINED \<Rightarrow> self, t))
              else (self, parent_type));
             argc = length (fn_args self1)
      in (if argc \<ge> arg_min self1 \<and> argc \<le> arg_max self1 then Good () else Fail, self1, type1))"

text \<open>The index the new argument receives, and the call with it.\<close>

definition function_add_expression :: "scalar_fn \<Rightarrow> nat \<Rightarrow> nat \<times> scalar_fn" where
  "function_add_expression self expr = (length (fn_args self), self\<lparr>fn_args := fn_args self @ [expr]\<rparr>)"

section \<open>Arguments and agreement\<close>

text \<open>
  Two actions agree on the states of an invariant when they return the same there and keep
  it. A call depends on its arguments only: accessors that agree on them give calls that agree.
\<close>

definition agree :: "('s \<Rightarrow> bool) \<Rightarrow> ('s, 'a) act \<Rightarrow> ('s, 'a) act \<Rightarrow> bool" where
  "agree I m m' \<longleftrightarrow> (\<forall>s. I s \<longrightarrow> m s = m' s \<and> I (snd (m s)))"

named_theorems agree_intros \<open>agreement of composed actions\<close>

lemma agree_outA [agree_intros]: "agree I (outA r) (outA r)"
  by (simp add: agree_def outA_def)

lemma agree_derefA [agree_intros]:
  assumes "agree I m m'" "\<And>a. agree I (k a) (k' a)"
  shows "agree I (derefA m k) (derefA m' k')"
  unfolding agree_def
proof (intro allI impI)
  fix s assume I: "I s"
  obtain r t where r: "m s = (r, t)" by force
  then have m: "m' s = (r, t)" "I t" using assms(1) I unfolding agree_def by auto
  have k: "k a t = k' a t" "I (snd (k' a t))" for a
    using assms(2) [of a] m(2) unfolding agree_def by auto
  show "derefA m k s = derefA m' k' s \<and> I (snd (derefA m k s))"
    using k r m by (cases r) (simp_all add: derefA_def)
qed

lemma agree_tryA [agree_intros]:
  assumes "agree I m m'" "\<And>a g. agree I (k a g) (k' a g)"
  shows "agree I (tryA i m k) (tryA i m' k')"
  unfolding agree_def
proof (intro allI impI)
  fix s assume I: "I s"
  obtain r t where r: "m s = (r, t)" by force
  then have m: "m' s = (r, t)" "I t" using assms(1) I unfolding agree_def by auto
  have k: "k a g t = k' a g t" "I (snd (k' a g t))" for a g
    using assms(2) [of a g] m(2) unfolding agree_def by auto
  show "tryA i m k s = tryA i m' k' s \<and> I (snd (tryA i m k s))"
    using k r m by (auto simp: tryA_def split: outcome.splits option.splits)
qed

lemma agree_if [agree_intros]:
  "(b \<Longrightarrow> agree I m m') \<Longrightarrow> (\<not> b \<Longrightarrow> agree I n n') \<Longrightarrow> agree I (if b then m else n) (if b then m' else n')"
  by simp

lemma agree_refl_outcome [agree_intros]:
  "(\<And>a. r = Good a \<Longrightarrow> agree I (f a) (f' a)) \<Longrightarrow> agree I n n' \<Longrightarrow> agree I p p' \<Longrightarrow> agree I q q' \<Longrightarrow>
   agree I (case r of Good a \<Rightarrow> f a | Null x \<Rightarrow> n | Fail \<Rightarrow> p | Crash \<Rightarrow> q)
     (case r of Good a \<Rightarrow> f' a | Null x \<Rightarrow> n' | Fail \<Rightarrow> p' | Crash \<Rightarrow> q')"
  by (cases r) auto

definition getters_agree :: "('s \<Rightarrow> bool) \<Rightarrow> ('s, 'f) getters \<Rightarrow> ('s, 'f) getters \<Rightarrow> nat \<Rightarrow> bool" where
  "getters_agree I G G' a \<longleftrightarrow>
     agree I (get_int G a) (get_int G' a) \<and> agree I (get_float G a) (get_float G' a) \<and>
     agree I (get_stringview G a) (get_stringview G' a) \<and>
     get_type G a = get_type G' a \<and> is_const G a = is_const G' a"

lemma agree_at_arg [agree_intros]:
  assumes "\<forall>a \<in> set (fn_args fn). getters_agree I G G' a"
  shows "agree I (at_arg fn i (get_int G)) (at_arg fn i (get_int G'))"
    "agree I (at_arg fn i (get_float G)) (at_arg fn i (get_float G'))"
    "agree I (at_arg fn i (get_stringview G)) (at_arg fn i (get_stringview G'))"
  using assms agree_outA [of I Crash] by (auto simp: at_arg_def getters_agree_def)


lemma agree_state [agree_intros]: "(\<And>s. I s \<Longrightarrow> agree I (f s) (f' s)) \<Longrightarrow> agree I (\<lambda>s. f s s) (\<lambda>s. f' s s)"
  unfolding agree_def by blast

lemma call_fn_agree:
  assumes "\<forall>a \<in> set (fn_args fn). getters_agree I G G' a"
  shows "agree I (call_fn fo G c fn) (call_fn fo G' c fn)"
proof -
  note args = agree_at_arg [OF assms] agree_outA agree_derefA agree_tryA agree_if agree_refl_outcome
  have two: "agree I (two_ints G fn op) (two_ints G' fn op)" "agree I (two_floats G fn fop) (two_floats G' fn fop)"
    for op fop by (auto simp: two_ints_def two_floats_def intro!: args)
  have ret: "agree I (ret_strncpy v i n) (ret_strncpy v i n)" for v i n
    by (simp add: ret_strncpy_def agree_outA)
  have isc: "i < length (fn_args fn) \<Longrightarrow> is_const G (fn_args fn ! i) = is_const G' (fn_args fn ! i)" for i
    using assms by (simp add: getters_agree_def)
  show ?thesis
  proof (cases c)
    case Fql_substring
    then show ?thesis by (auto simp: call_fn_def fql_substring_def Let_def intro!: args ret)
  next
    case Fql_replace
    show ?thesis
    proof (cases "1 < length (fn_args fn)")
      case True
      have pure: "agree I (\<lambda>s. outA (r s) s) (\<lambda>s. outA (r s) s)" for r :: "'a \<Rightarrow> 'b field outcome"
        by (simp add: agree_def outA_def)
      show ?thesis
        using isc [of 1] True Fql_replace by (auto simp: call_fn_def fql_replace_def intro!: args pure)
    next
      case False
      have "derefA (outA Crash) k = outA Crash" for k :: "view \<Rightarrow> ('a, 'b field) act"
        by (rule ext) (simp add: derefA_def outA_def)
      moreover have "at_arg fn 1 g = outA Crash" for g :: "nat \<Rightarrow> ('a, view) act"
        using False by (simp add: at_arg_def)
      ultimately show ?thesis
        using args(3) [of 0] Fql_replace
        by (simp only: call_fn_def fql_replace_def scalar_call.simps) (intro args)
    qed
  next
    case Fql_datalength
    show ?thesis
    proof (cases "fn_args fn")
      case Nil
      then show ?thesis using Fql_datalength by (simp add: call_fn_def fql_datalength_def at_arg_def agree_outA)
    next
      case (Cons a as)
      then have a: "getters_agree I G G' a" using assms by simp
      have sv: "agree I (derefA (get_stringview G a) k) (derefA (get_stringview G' a) k)"
        if "\<And>v. agree I (k v) (k v)" for k :: "view \<Rightarrow> ('a, 'b field) act"
        using a that by (intro args) (simp_all add: getters_agree_def)
      have ty: "get_type G a = get_type G' a" using a by (simp add: getters_agree_def)
      show ?thesis
        using sv [of "\<lambda>sv. outA (Good (UInt (of_nat (sv_len sv))))"] Fql_datalength Cons
        by (auto simp: call_fn_def fql_datalength_def at_arg_def agree_def ty outA_def split: field_type.splits)
    qed
  qed (auto simp: call_fn_def fql_cast_int_def fql_cast_bit_def fql_cast_float_def fql_cast_string_def
      fql_cast_char_def fql_len_def fql_left_def fql_right_def fql_isnull_i_def fql_isnull_f_def
      fql_isnull_s_def fql_op_plus_i_def fql_op_plus_f_def fql_op_plus_s_def fql_op_minus_i_def
      fql_op_minus_f_def fql_op_mult_i_def fql_op_mult_f_def fql_op_divi_i_def fql_op_divi_f_def
      fql_op_mod_i_def fql_op_bit_or_def fql_op_bit_and_def fql_op_bit_xor_def fql_op_bit_not_def
      fql_op_unary_minus_i_def fql_op_unary_minus_f_def intro!: args ret two)
qed

end
