(* ===== verification/Like.thy ===== *)
theory Like
  imports Field Strings
begin

text \<open>
  LIKE patterns as regular expressions (lib/like.c). The pattern is rewritten in place:
  special characters are escaped, bracketed ranges are moved out to \<open>ranges\<close> and replaced by
  keys, the wildcards are translated and the ranges put back. Compilation is the function
  \<open>compile_re\<close> (\<open>pcre2_compile\<close> with \<open>PCRE2_CASELESS\<close>); what a compiled expression matches is a
  parameter of Logic. Pointers into the buffer are indices; a pointer kept across a
  reallocation is a fault.
\<close>

section \<open>Extraction of ranges\<close>

record 're like =
  like_buffer :: strbuf
  regex_buffer :: strbuf
  ranges :: "strbuf vec"
  regex :: "'re option"

definition like_construct :: "'re like option" where
  "like_construct = do {
     l \<leftarrow> string_construct;
     r \<leftarrow> string_construct;
     Some \<lparr>like_buffer = l, regex_buffer = r, ranges = vec_construct, regex = None\<rparr>
   }"

text \<open>\<open>memchr(&buf[i], c, buf->size - i)\<close>, as an index into the buffer.\<close>

fun index_of :: "char \<Rightarrow> string \<Rightarrow> nat \<Rightarrow> nat option" where
  "index_of c [] i = None"
| "index_of c (x # xs) i = (if x = c then Some i else index_of c xs (i + 1))"

definition memchr_at :: "strbuf \<Rightarrow> nat \<Rightarrow> char \<Rightarrow> nat option option" where
  "memchr_at s i c = do {
     cells \<leftarrow> mem_read i (vsize s - i) (vdata s);
     Some (index_of c (chars cells) i)
   }"

definition range_key :: "nat \<Rightarrow> string" where
  "range_key i = ''[['' @ show_nat i @ '']]''"

definition OPEN :: char where "OPEN = CHR ''[''"
definition CLOSE :: char where "CLOSE = CHR '']''"
definition BSLASH :: char where "BSLASH = CHR 0x5C"

definition string_sprintf :: "strbuf \<Rightarrow> string \<Rightarrow> strbuf option" where
  "string_sprintf s txt = do {
     let s1 = vec_resize s (length txt);
     d \<leftarrow> mem_write 0 (map Some (txt @ [NUL])) (vdata s1);
     Some (s1\<lparr>vdata := d\<rparr>)
   }"

text \<open>One range: the text between brackets, its inner brackets escaped.\<close>

definition make_range :: "strbuf \<Rightarrow> strbuf option" where
  "make_range bracketed = do {
     b1 \<leftarrow> vec_erase_at bracketed 0 1;
     b2 \<leftarrow> vec_erase_one b1 (vec_back b1);
     b3 \<leftarrow> string_find_replace b2 [OPEN] [BSLASH, OPEN];
     b4 \<leftarrow> string_find_replace b3 [CLOSE] [BSLASH, CLOSE];
     b5 \<leftarrow> vec_insert_at b4 0 [Some OPEN];
     vec_insert_at b5 (vsize b5) [Some CLOSE]
   }"

partial_function (option) extract_loop ::
    "strbuf vec \<Rightarrow> strbuf \<Rightarrow> nat \<Rightarrow> nat \<Rightarrow> (strbuf vec \<times> strbuf) option" where
  "extract_loop rs likebuf start range_idx = do {
     opened \<leftarrow> memchr_at likebuf start OPEN;
     case opened of
       None \<Rightarrow> Some (rs, likebuf)
     | Some start \<Rightarrow> do {
         closed \<leftarrow> memchr_at likebuf start CLOSE;
         case closed of
           None \<Rightarrow> Some (rs, likebuf)
         | Some end_idx \<Rightarrow> do {
             b0 \<leftarrow> string_construct;
             src \<leftarrow> mem_read start (length (vdata likebuf) - start) (vdata likebuf);
             bracketed \<leftarrow> string_strncpy b0 (chars src) (end_idx - start + 1);
             (_, likebuf1) \<leftarrow> string_find_replace_one_limited likebuf (str bracketed) (range_key range_idx)
               start (length (range_key range_idx));
             r \<leftarrow> make_range bracketed;
             rs1 \<leftarrow> vec_push_back rs (Some r);
             extract_loop rs1 likebuf1 (start + length (range_key range_idx)) (range_idx + 1)
           }
       }
   }"

text \<open>
  The second loop escapes closing brackets that were never opened. \<open>search\<close> skips one
  character behind an escaped bracket.
\<close>

partial_function (option) unmatched_loop :: "strbuf \<Rightarrow> nat \<Rightarrow> int \<Rightarrow> strbuf option" where
  "unmatched_loop likebuf search opened = do {
     start \<leftarrow> memchr_at likebuf search OPEN;
     end_idx \<leftarrow> memchr_at likebuf search CLOSE;
     case (start, end_idx) of
       (None, None) \<Rightarrow> Some likebuf
     | (Some i, None) \<Rightarrow>
         if i + 1 < vsize likebuf then unmatched_loop likebuf (i + 1) (opened + 1) else Some likebuf
     | (start, Some e) \<Rightarrow>
         if (case start of None \<Rightarrow> False | Some i \<Rightarrow> i < e)
         then (if the start + 1 < vsize likebuf
               then unmatched_loop likebuf (the start + 1) (opened + 1) else Some likebuf)
         else if opened \<le> 0
         then do {
           b1 \<leftarrow> vec_set_one likebuf e (Some BSLASH);
           b2 \<leftarrow> vec_insert_iter b1 (e + 1) [Some CLOSE];
           if valloc b2 \<noteq> valloc b1 then None
           else if e + 3 < vsize b2 then unmatched_loop b2 (e + 3) opened else Some b2
         }
         else (if e + 1 < vsize likebuf then unmatched_loop likebuf (e + 1) (opened - 1) else Some likebuf)
   }"

definition extract_character_ranges :: "strbuf vec \<Rightarrow> strbuf \<Rightarrow> (strbuf vec \<times> strbuf) option" where
  "extract_character_ranges rs likebuf = do {
     (rs1, b1) \<leftarrow> extract_loop rs likebuf 0 0;
     b2 \<leftarrow> unmatched_loop b1 0 0;
     Some (rs1, b2)
   }"

section \<open>Translation\<close>

text \<open>The escapes, in the order of the calls.\<close>

definition specials :: "char list" where
  "specials = BSLASH # ''.^$+?(){}|*''"

definition escape_all :: "char list \<Rightarrow> strbuf \<Rightarrow> strbuf option" where
  "escape_all cs s = foldl (\<lambda>r c. r \<bind> (\<lambda>s. string_find_replace s [c] [BSLASH, c])) (Some s) cs"

fun put_ranges :: "strbuf option list \<Rightarrow> nat \<Rightarrow> strbuf \<Rightarrow> strbuf option" where
  "put_ranges [] i s = Some s"
| "put_ranges (r # rs) i s = do {
     r \<leftarrow> r;
     s \<leftarrow> string_find_replace s (range_key i) (takeWhile (\<lambda>c. c \<noteq> NUL) (str r));
     put_ranges rs (i + 1) s
   }"

definition like_text :: "'re like \<Rightarrow> view \<Rightarrow> 're like option" where
  "like_text self sql_like = do {
     b0 \<leftarrow> string_strncpy (like_buffer self) (sv_data sql_like) (sv_len sql_like);
     b1 \<leftarrow> escape_all specials b0;
     (rs, b2) \<leftarrow> extract_character_ranges (ranges self) b1;
     b3 \<leftarrow> string_find_replace b2 [CHR ''%''] ''.*'';
     b4 \<leftarrow> string_find_replace b3 [CHR ''_''] ''.'';
     b5 \<leftarrow> put_ranges (vec_list rs) 0 b4;
     rx \<leftarrow> string_sprintf (regex_buffer self) (''^'' @ takeWhile (\<lambda>c. c \<noteq> NUL) (str b5) @ ''$'');
     Some (self\<lparr>like_buffer := b5, regex_buffer := rx, ranges := rs\<rparr>)
   }"

text \<open>\<open>like_to_regex\<close>: a pattern that does not compile is a failure and leaves no expression.\<close>

definition like_to_regex :: "(string \<Rightarrow> 're option) \<Rightarrow> 're like \<Rightarrow> view \<Rightarrow> unit outcome \<times> 're like" where
  "like_to_regex compile_re self sql_like =
     (case like_text self sql_like of
        None \<Rightarrow> (Crash, self)
      | Some self1 \<Rightarrow>
          (case compile_re (str (regex_buffer self1)) of
             None \<Rightarrow> (Fail, self1\<lparr>regex := None\<rparr>)
           | Some re \<Rightarrow> (Good (), self1\<lparr>regex := Some re\<rparr>)))"

section \<open>Patterns without brackets\<close>

text \<open>The regular expression of one character of a pattern.\<close>

definition like_char :: "char \<Rightarrow> string" where
  "like_char c = (if c = CHR ''%'' then ''.*'' else if c = CHR ''_'' then ''.''
     else if c \<in> set specials then [BSLASH, c] else [c])"

definition subst_char :: "char \<Rightarrow> string \<Rightarrow> string \<Rightarrow> string" where
  "subst_char c new s = concat (map (\<lambda>x. if x = c then new else [x]) s)"

lemma replace_all_char: "replace_all [c] new s = subst_char c new s"
proof (induction s)
  case Nil
  then show ?case by (simp add: subst_char_def)
next
  case (Cons x s)
  then show ?case by (subst replace_all.simps) (simp add: subst_char_def)
qed

lemma subst_char_append: "subst_char c new (s @ t) = subst_char c new s @ subst_char c new t"
  by (simp add: subst_char_def)

lemma subst_char_concat: "subst_char c new (concat (map f s)) = concat (map (\<lambda>x. subst_char c new (f x)) s)"
  by (induction s) (simp_all add: subst_char_def)

lemma foldl_subst:
  "foldl (\<lambda>t c. subst_char c [BSLASH, c] t) (concat (map f s)) cs =
   concat (map (\<lambda>x. foldl (\<lambda>t c. subst_char c [BSLASH, c] t) (f x) cs) s)"
  by (induction cs arbitrary: f) (simp_all add: subst_char_concat)

lemma escape_chars:
  "foldl (\<lambda>t c. subst_char c [BSLASH, c] t) s specials =
   concat (map (\<lambda>x. if x \<in> set specials then [BSLASH, x] else [x]) s)"
proof -
  have one: "foldl (\<lambda>t c. subst_char c [BSLASH, c] t) [x] specials =
      (if x \<in> set specials then [BSLASH, x] else [x])" for x
    by (simp add: specials_def subst_char_def BSLASH_def)
  have "s = concat (map (\<lambda>x. [x]) s)" by simp
  then have "foldl (\<lambda>t c. subst_char c [BSLASH, c] t) s specials =
      foldl (\<lambda>t c. subst_char c [BSLASH, c] t) (concat (map (\<lambda>x. [x]) s)) specials" by simp
  also have "\<dots> = concat (map (\<lambda>x. foldl (\<lambda>t c. subst_char c [BSLASH, c] t) [x] specials) s)"
    by (rule foldl_subst)
  finally show ?thesis by (simp only: one)
qed

lemma like_char_steps:
  "subst_char (CHR ''_'') ''.'' (subst_char (CHR ''%'') ''.*''
     (concat (map (\<lambda>x. if x \<in> set specials then [BSLASH, x] else [x]) s))) = concat (map like_char s)"
proof -
  have "subst_char (CHR ''_'') ''.'' (subst_char (CHR ''%'') ''.*''
      (if x \<in> set specials then [BSLASH, x] else [x])) = like_char x" for x
    by (auto simp: subst_char_def like_char_def specials_def BSLASH_def)
  then show ?thesis by (simp add: subst_char_concat)
qed

lemma subst_char_length: "length s \<le> length (subst_char c [BSLASH, c] s)"
  by (induction s) (auto simp: subst_char_def)

lemma escape_all_spec:
  assumes "str_ok s" "length (foldl (\<lambda>t c. subst_char c [BSLASH, c] t) (str s) cs) < 4294967296"
  shows "yields (escape_all cs s) (\<lambda>s'. str_ok s' \<and>
    str s' = foldl (\<lambda>t c. subst_char c [BSLASH, c] t) (str s) cs)"
  using assms
proof (induction cs arbitrary: s)
  case Nil
  then show ?case by (simp add: escape_all_def)
next
  case (Cons c cs)
  have mono: "length t \<le> length (foldl (\<lambda>t c. subst_char c [BSLASH, c] t) t cs)" for t
  proof (induction cs arbitrary: t)
    case (Cons c cs)
    show ?case using Cons [of "subst_char c [BSLASH, c] t"] subst_char_length [of t c] by simp
  qed simp
  have "length (subst_char c [BSLASH, c] (str s)) < 4294967296"
    using Cons.prems(2) mono [of "subst_char c [BSLASH, c] (str s)"] by simp
  then obtain s1 where s1: "string_find_replace s [c] [BSLASH, c] = Some s1" "str_ok s1"
      "str s1 = subst_char c [BSLASH, c] (str s)"
    using string_find_replace_spec [of "[c]" s "[BSLASH, c]"] Cons.prems(1)
    by (auto simp: replace_all_char yields_exists)
  have "escape_all (c # cs) s = escape_all cs s1" by (simp add: escape_all_def s1(1))
  then show ?case using Cons.IH [OF s1(2)] Cons.prems(2) s1(3) by simp
qed


lemma index_of_None: "c \<notin> set xs \<Longrightarrow> index_of c xs i = None"
  by (induction xs arbitrary: i) auto

lemma memchr_at_None:
  assumes "str_ok s" "c \<notin> set (str s)" "i \<le> vsize s"
  shows "memchr_at s i c = Some None"
proof -
  have v: "vec_list s = map Some (str s)" "vsize s < length (vdata s)"
    using assms(1) by (auto simp: str_ok_list vec_ok_def)
  have "take (vsize s - i) (drop i (vdata s)) = drop i (vec_list s)"
    by (simp add: vec_list_def drop_take)
  then have "mem_read i (vsize s - i) (vdata s) = Some (map Some (drop i (str s)))"
    using v assms(3) by (simp add: mem_read_in drop_map)
  moreover have "c \<notin> set (drop i (str s))" using assms(2) by (meson in_set_dropD)
  ultimately show ?thesis by (simp add: memchr_at_def index_of_None)
qed

lemma extract_none:
  assumes "str_ok s" "OPEN \<notin> set (str s)" "CLOSE \<notin> set (str s)"
  shows "extract_character_ranges rs s = Some (rs, s)"
proof -
  note m = memchr_at_None [OF assms(1,2), of 0] memchr_at_None [OF assms(1,3), of 0]
  have "extract_loop rs s 0 0 = Some (rs, s)" using m by (subst extract_loop.simps) simp
  moreover have "unmatched_loop s 0 0 = Some s" using m by (subst unmatched_loop.simps) simp
  ultimately show ?thesis by (simp add: extract_character_ranges_def)
qed

lemma string_sprintf_spec:
  assumes "str_ok s"
  shows "yields (string_sprintf s txt) (\<lambda>s'. str_ok s' \<and> str s' = txt)"
proof -
  let ?v = "vec_resize s (length txt)"
  have ok: "vec_ok s" using assms by (simp add: str_ok_list)
  note sh = vec_resize_shape [OF ok, of "length txt"]
  have lt: "length txt < length (vdata ?v)" using vec_resize_alloc [OF ok, of "length txt"] sh by simp
  let ?d = "map Some (txt @ [NUL]) @ drop (length (txt @ [NUL])) (vdata ?v)"
  have w: "mem_write 0 (map Some (txt @ [NUL])) (vdata ?v) = Some ?d" using lt by (simp add: mem_write_in)
  have "vec_ok (?v\<lparr>vdata := ?d\<rparr>)" using sh lt by (simp add: vec_ok_def)
  then have "str_ok (?v\<lparr>vdata := ?d\<rparr>) \<and> str (?v\<lparr>vdata := ?d\<rparr>) = txt"
    using sh by (intro str_okI2) (simp_all add: nth_append)
  then show ?thesis using w by (simp add: string_sprintf_def Let_def)
qed

lemma concat_short: "(\<And>x. length (f x) \<le> 2) \<Longrightarrow> length (concat (map f s)) \<le> 2 * length s"
  by (induction s) (auto intro: add_le_mono [of _ 2, simplified])

lemma like_char_no: "c \<in> {NUL, OPEN, CLOSE} \<Longrightarrow> c \<notin> set s \<Longrightarrow> c \<notin> set (concat (map like_char s))"
  by (auto simp: like_char_def OPEN_def CLOSE_def BSLASH_def specials_def)

text \<open>
  A pattern without brackets: anchored at both ends, every character translated by itself.
\<close>

lemma like_text_plain:
  fixes self :: "'re like" and v :: view
  assumes ok: "str_ok (like_buffer self)" "str_ok (regex_buffer self)" "vec_list (ranges self) = []"
    and v: "view_ok v" "sv_len v < length (sv_data v) \<or> NUL \<in> set (sv_data v)" "NUL \<notin> set (sv_text v)"
    and no: "OPEN \<notin> set (sv_text v)" "CLOSE \<notin> set (sv_text v)" and len: "2 * sv_len v < 4294967296"
  shows "yields (like_text self v) (\<lambda>self'. str (regex_buffer self') =
      ''^'' @ concat (map like_char (sv_text v)) @ ''$'' \<and>
    str_ok (regex_buffer self') \<and> str_ok (like_buffer self') \<and> ranges self' = ranges self)"
proof -
  let ?t = "sv_text v"
  let ?e = "concat (map (\<lambda>x. if x \<in> set specials then [BSLASH, x] else [x]) ?t)"
  have cut: "take (sv_len v) (takeWhile (\<lambda>c. c \<noteq> NUL) (sv_data v)) = ?t"
  proof -
    have "takeWhile (\<lambda>c. c \<noteq> NUL) (?t @ drop (sv_len v) (sv_data v)) =
        ?t @ takeWhile (\<lambda>c. c \<noteq> NUL) (drop (sv_len v) (sv_data v))"
      using v(3) by (intro takeWhile_append2) metis
    then show ?thesis using sv_text_length [OF v(1)] by (simp add: sv_text_def)
  qed
  obtain b0 where b0: "string_strncpy (like_buffer self) (sv_data v) (sv_len v) = Some b0" "str_ok b0" "str b0 = ?t"
    using string_strncpy_spec [OF ok(1) v(2)] cut by (auto simp: yields_exists)
  have tl: "length ?t = sv_len v" using sv_text_length [OF v(1)] .
  have "length ?e \<le> 2 * length ?t" by (rule concat_short) simp
  then have "length ?e < 4294967296" using len tl by simp
  then obtain b1 where b1: "escape_all specials b0 = Some b1" "str_ok b1" "str b1 = ?e"
    using escape_all_spec [OF b0(2), of specials] b0(3) escape_chars [of ?t] by (auto simp: yields_exists)
  have "OPEN \<notin> set ?e" "CLOSE \<notin> set ?e"
    using no by (auto simp: OPEN_def CLOSE_def BSLASH_def)
  then have ex: "extract_character_ranges (ranges self) b1 = Some (ranges self, b1)"
    using extract_none b1 by simp
  let ?f = "\<lambda>x. subst_char (CHR ''%'') ''.*'' (if x \<in> set specials then [BSLASH, x] else [x])"
  have p: "subst_char (CHR ''%'') ''.*'' ?e = concat (map ?f ?t)" by (rule subst_char_concat)
  have "length (concat (map ?f ?t)) \<le> 2 * length ?t" by (rule concat_short) (simp add: subst_char_def BSLASH_def specials_def)
  then have "length (concat (map ?f ?t)) < 4294967296" using len tl by simp
  then obtain b3 where b3: "string_find_replace b1 [CHR ''%''] ''.*'' = Some b3" "str_ok b3"
      "str b3 = concat (map ?f ?t)"
    using string_find_replace_spec [of "[CHR ''%'']" b1 "''.*''"] b1 p
    by (auto simp: replace_all_char yields_exists)
  have q: "subst_char (CHR ''_'') ''.'' (concat (map ?f ?t)) = concat (map like_char ?t)"
    using like_char_steps [of ?t] p by simp
  have "length (concat (map like_char ?t)) \<le> 2 * length ?t" by (rule concat_short) (simp add: like_char_def)
  then have "length (concat (map like_char ?t)) < 4294967296" using len tl by simp
  then obtain b4 where b4: "string_find_replace b3 [CHR ''_''] ''.'' = Some b4" "str_ok b4"
      "str b4 = concat (map like_char ?t)"
    using string_find_replace_spec [of "[CHR ''_'']" b3 "''.''"] b3 q
    by (auto simp: replace_all_char yields_exists)
  have "NUL \<notin> set (str b4)" unfolding b4(3) by (rule like_char_no) (use v(3) in auto)
  then have nn: "takeWhile (\<lambda>c. c \<noteq> NUL) (str b4) = str b4" by (intro takeWhile_eq_all_conv [THEN iffD2]) metis
  obtain rx where rx: "string_sprintf (regex_buffer self) (''^'' @ str b4 @ ''$'') = Some rx" "str_ok rx"
      "str rx = ''^'' @ str b4 @ ''$''"
    using string_sprintf_spec [OF ok(2)] by (auto simp: yields_exists)
  have "like_text self v = Some (self\<lparr>like_buffer := b4, regex_buffer := rx, ranges := ranges self\<rparr>)"
    using b0(1) b1(1) ex b3(1) b4(1) ok(3) rx(1) nn by (simp add: like_text_def del: takeWhile_eq_all_conv)
  then show ?thesis using rx(2,3) b4 by simp
qed


section \<open>Patterns with ranges\<close>

definition regex_after :: "string list \<Rightarrow> string option" where
  "regex_after ps = do {
     l \<leftarrow> (like_construct :: unit like option);
     l \<leftarrow> foldl (\<lambda>r p. r \<bind> (\<lambda>l. like_text l (view_of p))) (Some l) ps;
     Some (str (regex_buffer l))
   }"

lemma first_digits: "char_of (48 :: nat) = CHR ''0''" "char_of (49 :: nat) = CHR ''1''"
  by code_simp+

lemmas like_eval =
  string_find_replace_def string_find_replace_limited_def find_replace_loop.simps
  string_find_replace_one_limited_def replace_at_def memmem_c.simps chars_def str_def vec_list_def
  vec_erase_def vec_erase_iter_def vec_insert_def vec_insert_iter_def vec_insert_at_def vec_erase_at_def
  vec_erase_one_def vec_push_back_def vec_add_one_def vec_set_one_def vec_back_def vec_end_def
  vec_resize_def vec_reserve_def vec_construct_def mem_read_def mem_move_def mem_write_def mem_realloc_def
  string_construct_def null_terminate_def string_strncpy_def string_resize_def strncpy_loop.simps
  string_sprintf_def make_range_def memchr_at_def extract_loop.simps unmatched_loop.simps
  extract_character_ranges_def escape_all_def specials_def OPEN_def CLOSE_def BSLASH_def
  range_key_def show_nat.simps first_digits like_text_def like_construct_def regex_after_def view_of_def
  Let_def

lemma range_example: "regex_after [''a[0-9]%''] = Some ''^a[0-9].*$''"
  by (simp add: like_eval)

text \<open>
  The caret is escaped before the ranges are taken out, so a negated range is not negated;
  and the ranges of an earlier pattern stay, so a second pattern gets the first one's.
\<close>

lemma range_negation_lost: "regex_after [''[^a]''] = Some (''^['' @ [BSLASH] @ ''^a]$'')"
  by (simp add: like_eval)

lemma ranges_stale: "regex_after [''[ab]'', ''[cd]''] = Some ''^[ab]$''"
  by (simp add: like_eval)

end
