(* ===== verification/RowRecord.thy ===== *)
theory RowRecord
  imports Strings
begin

text \<open>
  One row of one source (lib/record.c) and the row group, the linked list of the rows that a
  join has put together, here the list of its records. A record does not know its own address:
  an operation on two records returns both, and is given the address of a node where the code
  stores it.
\<close>

section \<open>Records\<close>

record row_record =
  rec_fields :: "view vec"
  subquery_strings :: "strbuf vec option"
  group_strings :: "strbuf vec option"
  rec_ref :: view
  row_offset :: nat
  row_src_idx :: int
  rec_copy_node :: "nat option"
  ref_count :: nat
  node_idx :: nat
  rec_idx :: nat
  select_len :: nat
  max_subquery_count :: nat
  max_group_count :: nat
  root_fifo_idx :: nat

definition record_construct :: "nat \<Rightarrow> row_record" where
  "record_construct idx =
     \<lparr>rec_fields = vec_construct, subquery_strings = None, group_strings = None,
      rec_ref = \<lparr>sv_data = [], sv_len = 0\<rparr>, row_offset = 0, row_src_idx = - 1, rec_copy_node = None,
      ref_count = 1, node_idx = idx, rec_idx = 0, select_len = 0,
      max_subquery_count = 0, max_group_count = 0, root_fifo_idx = 0\<rparr>"

fun record_at :: "row_record list \<Rightarrow> int \<Rightarrow> row_record option" where
  "record_at [] idx = None"
| "record_at (r # head) idx = (if row_src_idx r \<noteq> idx then record_at head idx else Some r)"

text \<open>\<open>record_copy\<close> counts the reference to its source, whose buffers the copied views share.\<close>

definition record_copy :: "row_record \<Rightarrow> nat \<Rightarrow> row_record \<Rightarrow> (row_record \<times> row_record) option" where
  "record_copy self src_node src = do {
     let src1 = src\<lparr>ref_count := ref_count src + 1\<rparr>;
     fs \<leftarrow> vec_extend (vec_clear (rec_fields self)) (rec_fields src1);
     Some (self\<lparr>rec_copy_node := Some src_node, rec_fields := fs, row_src_idx := row_src_idx src1,
       rec_idx := rec_idx src1, rec_ref := rec_ref src1\<rparr>, src1)
   }"

definition record_resize :: "row_record \<Rightarrow> nat \<Rightarrow> row_record" where
  "record_resize self n = self\<lparr>rec_fields := vec_resize (rec_fields self) n\<rparr>"

definition record_swap :: "row_record \<Rightarrow> row_record \<Rightarrow> (row_record \<times> row_record) option" where
  "record_swap self src = do {
     fs \<leftarrow> vec_extend (vec_clear (rec_fields self)) (rec_fields src);
     Some (self\<lparr>rec_fields := fs, subquery_strings := subquery_strings src,
             max_subquery_count := max_subquery_count src\<rparr>,
           src\<lparr>subquery_strings := subquery_strings self, max_subquery_count := max_subquery_count self\<rparr>)
   }"

definition record_clear_strings :: "strbuf vec option \<Rightarrow> strbuf vec option" where
  "record_clear_strings ss = map_option vec_clear ss"

text \<open>
  The strings a record owns are kept when the vector is cleared: \<open>max_count\<close> cells have
  been constructed and are handed out again. The result is the index of the string. The
  loop of the code runs from \<open>max_count\<close> to the new size but always constructs the string
  that is handed out.
\<close>

fun construct_times :: "nat \<Rightarrow> strbuf vec \<Rightarrow> nat \<Rightarrow> strbuf vec option" where
  "construct_times 0 ss ret = Some ss"
| "construct_times (Suc k) ss ret = do {
     s \<leftarrow> string_construct;
     ss' \<leftarrow> vec_set_one ss ret (Some s);
     construct_times k ss' ret
   }"

definition generate_string :: "strbuf vec option \<Rightarrow> nat \<Rightarrow> (nat \<times> strbuf vec \<times> nat) option" where
  "generate_string strings max_count =
     (let ss0 = (case strings of None \<Rightarrow> vec_construct | Some ss \<Rightarrow> ss);
          (ret, ss) = vec_add_one ss0
      in if vsize ss \<le> max_count then Some (ret, ss, max_count)
         else do {
           ss' \<leftarrow> construct_times (vsize ss - max_count) ss ret;
           Some (ret, ss', vsize ss)
         })"

definition record_generate_subquery_string :: "row_record \<Rightarrow> (nat \<times> row_record) option" where
  "record_generate_subquery_string self = do {
     (ret, ss, n) \<leftarrow> generate_string (subquery_strings self) (max_subquery_count self);
     Some (ret, self\<lparr>subquery_strings := Some ss, max_subquery_count := n\<rparr>)
   }"

definition record_generate_groupby_string :: "row_record \<Rightarrow> (nat \<times> row_record) option" where
  "record_generate_groupby_string self = do {
     (ret, ss, n) \<leftarrow> generate_string (group_strings self) (max_group_count self);
     Some (ret, self\<lparr>group_strings := Some ss, max_group_count := n\<rparr>)
   }"

section \<open>Laws\<close>

lemma record_at_Some: "record_at rg idx = Some r \<Longrightarrow> r \<in> set rg \<and> row_src_idx r = idx"
  by (induction rg idx rule: record_at.induct) (auto split: if_splits)

lemma record_at_None: "record_at rg idx = None \<longleftrightarrow> (\<forall>r \<in> set rg. row_src_idx r \<noteq> idx)"
  by (induction rg idx rule: record_at.induct) auto

text \<open>
  A pool of strings is sound when the first \<open>max_count\<close> cells of its block are constructed
  and no string beyond them is in use.
\<close>

definition pool_ok :: "strbuf vec option \<Rightarrow> nat \<Rightarrow> bool" where
  "pool_ok strings max_count = (case strings of
     None \<Rightarrow> max_count = 0
   | Some ss \<Rightarrow> vec_ok ss \<and> vsize ss \<le> max_count \<and> max_count \<le> length (vdata ss) \<and>
       (\<forall>i < max_count. \<exists>s. vdata ss ! i = Some s \<and> str_ok s))"

text \<open>
  Every string handed out has been constructed: the loop that constructs the wrong cell when
  it runs more than once in fact runs once.
\<close>

lemma generate_string_spec:
  assumes "pool_ok strings max_count"
  shows "yields (generate_string strings max_count) (\<lambda>(ret, ss, n).
    pool_ok (Some ss) n \<and> ret < vsize ss \<and> vsize ss = (case strings of None \<Rightarrow> 0 | Some ss \<Rightarrow> vsize ss) + 1 \<and>
    max_count \<le> n \<and> (\<exists>s. vec_at ss ret = Some (Some s) \<and> str_ok s))"
proof -
  define ss0 where "ss0 = (case strings of None \<Rightarrow> vec_construct | Some ss \<Rightarrow> ss)"
  define ss where "ss = snd (vec_add_one ss0)"
  have ok0: "vec_ok ss0" "vsize ss0 \<le> max_count" "max_count \<le> length (vdata ss0)"
      "\<forall>i < max_count. \<exists>s. vdata ss0 ! i = Some s \<and> str_ok s"
      "vsize ss0 = (case strings of None \<Rightarrow> 0 | Some ss \<Rightarrow> vsize ss)"
    using assms by (auto simp: pool_ok_def ss0_def vec_construct_size split: option.splits)
  have ss: "vec_add_one ss0 = (vsize ss0, ss)" "vec_ok ss" "vsize ss = vsize ss0 + 1"
      "take (valloc ss0) (vdata ss) = vdata ss0" "length (vdata ss0) \<le> length (vdata ss)"
    using vec_add_one_resize [OF ok0(1)] ok0(1)
    by (simp_all add: ss_def prod_eq_iff vec_ok_def)
  have cells: "vdata ss ! i = vdata ss0 ! i" if "i < length (vdata ss0)" for i
    using that ss(4) ok0(1) by (metis nth_take vec_ok_def)
  have lt: "vsize ss < length (vdata ss)" using ss(2) by (simp add: vec_ok_def)
  show ?thesis
  proof (cases "vsize ss \<le> max_count")
    case True
    then have "generate_string strings max_count = Some (vsize ss0, ss, max_count)"
      using ss(1) by (simp add: generate_string_def ss0_def [symmetric])
    moreover have "pool_ok (Some ss) max_count"
      using True ok0 ss cells by (auto simp: pool_ok_def)
    moreover have "\<exists>s. vec_at ss (vsize ss0) = Some (Some s) \<and> str_ok s"
      using True ok0 ss cells [of "vsize ss0"] lt by (auto simp: vec_at_def)
    ultimately show ?thesis using ss ok0(5) by simp
  next
    case False
    then have eq: "max_count = vsize ss0" using ss(3) ok0(2) by simp
    obtain s where s: "string_construct = Some s" "str_ok s"
      using string_construct_spec by (auto simp: yields_exists)
    obtain ss' where set: "vec_set_one ss (vsize ss0) (Some s) = Some ss'" and
        ss': "ss' = ss\<lparr>vdata := (vdata ss)[vsize ss0 := Some s]\<rparr>"
      using lt ss(3) by (simp add: vec_set_one_def mem_write_in upd_conv_take_nth_drop)
    have "generate_string strings max_count = Some (vsize ss0, ss', vsize ss)"
      using False ss(1,3) eq set by (simp add: s(1) generate_string_def ss0_def [symmetric])
    moreover have "pool_ok (Some ss') (vsize ss)"
    proof -
      have "vec_ok ss'" "vsize ss' = vsize ss" "vsize ss \<le> length (vdata ss')"
        using ss(2) lt by (auto simp: ss' vec_ok_def)
      moreover have "\<exists>s. vdata ss' ! i = Some s \<and> str_ok s" if "i < vsize ss" for i
      proof (cases "i = vsize ss0")
        case True
        then show ?thesis using s(2) lt ss(3) by (simp add: ss')
      next
        case False
        then have "i < vsize ss0" using that ss(3) by simp
        then show ?thesis using ok0(2,3,4) cells [of i] False by (simp add: ss')
      qed
      ultimately show ?thesis by (simp add: pool_ok_def)
    qed
    moreover have "vec_at ss' (vsize ss0) = Some (Some s)" using lt ss(3) by (simp add: ss' vec_at_def)
    ultimately show ?thesis using ss s(2) eq ok0(5) by (simp add: ss')
  qed
qed

text \<open>A copied record shows the same row, and both keep it alive.\<close>

lemma record_copy_spec:
  assumes "vec_ok (rec_fields self)" "vec_ok (rec_fields src)"
  shows "yields (record_copy self src_node src) (\<lambda>(self', src').
    vec_ok (rec_fields self') \<and> vec_list (rec_fields self') = vec_list (rec_fields src) \<and>
    row_src_idx self' = row_src_idx src \<and> rec_ref self' = rec_ref src \<and> rec_idx self' = rec_idx src \<and>
    src' = src\<lparr>ref_count := ref_count src + 1\<rparr>)"
  using vec_extend_list [of "vec_clear (rec_fields self)" "rec_fields src"] vec_clear_list [OF assms(1)] assms(2)
  by (auto simp: record_copy_def yields_exists Let_def)

end
