(* ===== verification/StringView.thy ===== *)
theory StringView
  imports FqlPrelude
begin

text \<open>
  The comparisons of util/stringview.c on the bytes of two views, and the C string helpers
  of util/util.c. A view is the list of its bytes. \<open>strncmp\<close> and \<open>strncasecmp\<close> of the C
  library compare bytes as \<open>unsigned char\<close> and stop behind a NUL; the standard fixes
  the sign of the result only, and the callers use nothing else.
\<close>

section \<open>Comparison of views\<close>

definition uchar :: "char \<Rightarrow> int" where
  "uchar c = of_char c"

fun strncmp_with :: "(char \<Rightarrow> char) \<Rightarrow> string \<Rightarrow> string \<Rightarrow> nat \<Rightarrow> int" where
  "strncmp_with conv s t 0 = 0"
| "strncmp_with conv (a # s) (b # t) (Suc n) =
     (if conv a \<noteq> conv b then uchar (conv a) - uchar (conv b)
      else if a = CHR 0x00 then 0 else strncmp_with conv s t n)"
| "strncmp_with conv s t (Suc n) = 0"

definition num_compare :: "nat \<Rightarrow> nat \<Rightarrow> int" where
  "num_compare a b = of_bool (a > b) - of_bool (a < b)"

definition stringview_compare_nocase :: "string \<Rightarrow> string \<Rightarrow> int" where
  "stringview_compare_nocase sv0 sv1 =
     (let len = (if length sv0 > length sv1 then length sv1 else length sv0);
          ret = num_compare (length sv0) (length sv1);
          maybe_ret = strncmp_with tolower_c sv0 sv1 len
      in if maybe_ret \<noteq> 0 then maybe_ret else ret)"

definition stringview_compare :: "string \<Rightarrow> string \<Rightarrow> int" where
  "stringview_compare sv0 sv1 =
     (let len = (if length sv0 > length sv1 then length sv1 else length sv0);
          ret = num_compare (length sv0) (length sv1);
          maybe_ret = strncmp_with (\<lambda>c. c) sv0 sv1 len
      in if maybe_ret \<noteq> 0 then maybe_ret else ret)"

text \<open>
  The C code keeps the length of the shorter view in an \<open>int\<close>; the model is meant for views of
  less than 2^31 bytes, as the properties say.

  The two loops of the trimming comparisons: the common part, then the rest of the longer
  view, which must be white space. \<open>sv0->len - sv1->len\<close> is an unsigned difference
  stored in an \<open>int\<close>.
\<close>

fun rtrim_common :: "(char \<Rightarrow> char) \<Rightarrow> string \<Rightarrow> string \<Rightarrow> int" where
  "rtrim_common conv (a # s) (b # t) =
     (let ret = uchar (conv a) - uchar (conv b) in if ret \<noteq> 0 then ret else rtrim_common conv s t)"
| "rtrim_common conv s t = 0"

definition len_diff :: "nat \<Rightarrow> nat \<Rightarrow> int" where
  "len_diff n0 n1 = sint (of_nat n0 - of_nat n1 :: i32)"

fun rtrim_rest :: "int \<Rightarrow> string \<Rightarrow> int" where
  "rtrim_rest d [] = 0"
| "rtrim_rest d (c # cs) =
     (let ret = (if isspace_c c then 0 else d) in if ret \<noteq> 0 then ret else rtrim_rest d cs)"

definition compare_rtrim_with :: "(char \<Rightarrow> char) \<Rightarrow> string \<Rightarrow> string \<Rightarrow> int" where
  "compare_rtrim_with conv sv0 sv1 =
     (let (short_sv, long_sv) = (if length sv0 > length sv1 then (sv1, sv0) else (sv0, sv1));
          ret = rtrim_common conv sv0 sv1
      in if ret \<noteq> 0 then ret
         else rtrim_rest (len_diff (length sv0) (length sv1)) (drop (length short_sv) long_sv))"

definition stringview_compare_rtrim :: "string \<Rightarrow> string \<Rightarrow> int" where
  "stringview_compare_rtrim = compare_rtrim_with (\<lambda>c. c)"

definition stringview_compare_nocase_rtrim :: "string \<Rightarrow> string \<Rightarrow> int" where
  "stringview_compare_nocase_rtrim = compare_rtrim_with tolower_c"

section \<open>C string helpers\<close>

definition charncount :: "string \<Rightarrow> char \<Rightarrow> nat \<Rightarrow> nat" where
  "charncount s c n = length (filter (\<lambda>x. x = c) (take n s))"

fun charcount :: "string \<Rightarrow> char \<Rightarrow> nat" where
  "charcount [] c = 0"
| "charcount (x # s) c = (if x = c then charcount s c + 1 else charcount s c)"

fun strhaschar :: "string \<Rightarrow> char \<Rightarrow> bool" where
  "strhaschar [] c = False"
| "strhaschar (x # s) c = (if x = c then True else strhaschar s c)"

text \<open>\<open>removecharat\<close> shifts the characters behind index \<open>i\<close> down by one.\<close>

definition removecharat :: "string \<Rightarrow> nat \<Rightarrow> string" where
  "removecharat s i = take i s @ drop (i + 1) s"

definition string_eq :: "string \<Rightarrow> string \<Rightarrow> bool" where
  "string_eq s1 s2 \<longleftrightarrow> s1 = s2"

definition istring_eq :: "string \<Rightarrow> string \<Rightarrow> bool" where
  "istring_eq s1 s2 \<longleftrightarrow> map tolower_c s1 = map tolower_c s2"

definition string_to_lower :: "string \<Rightarrow> string" where
  "string_to_lower s = map tolower_c s"

text \<open>\<open>strrchr\<close>: the last index of a character.\<close>

fun strrchr_c :: "string \<Rightarrow> char \<Rightarrow> nat option" where
  "strrchr_c [] c = None"
| "strrchr_c (x # s) c =
     (case strrchr_c s c of Some i \<Rightarrow> Some (i + 1) | None \<Rightarrow> if x = c then Some 0 else None)"

definition getnoext :: "string option \<Rightarrow> string" where
  "getnoext filename =
     (case filename of
        None \<Rightarrow> []
      | Some dest \<Rightarrow>
          (case strrchr_c dest (CHR ''.'') of
             None \<Rightarrow> dest
           | Some lastdot \<Rightarrow>
               (case strrchr_c dest (CHR ''/'') of
                  None \<Rightarrow> take lastdot dest
                | Some lastsep \<Rightarrow> if lastsep < lastdot then take lastdot dest else dest)))"

text \<open>
  \<open>strnstr\<close>: the outer loop takes the next character equal to the first of \<open>find\<close> and
  compares the rest with what follows; \<open>slen\<close> counts the characters left to read.
\<close>

fun strnstr_loop :: "string \<Rightarrow> char \<Rightarrow> string \<Rightarrow> nat \<Rightarrow> string option" where
  "strnstr_loop s c fnd slen =
     (if slen < 1 then None
      else case s of
        [] \<Rightarrow> None
      | sc # s' \<Rightarrow>
          if sc \<noteq> c then strnstr_loop s' c fnd (slen - 1)
          else if length fnd > slen - 1 then None
          else if strncmp_with (\<lambda>c. c) (s' @ [CHR 0x00]) fnd (length fnd) \<noteq> 0
          then strnstr_loop s' c fnd (slen - 1)
          else Some s)"

declare strnstr_loop.simps [simp del]

definition strnstr :: "string \<Rightarrow> string \<Rightarrow> nat \<Rightarrow> string option" where
  "strnstr s fnd slen =
     (case fnd of [] \<Rightarrow> Some s | c # fnd' \<Rightarrow> strnstr_loop s c fnd' slen)"

section \<open>Order properties\<close>

lemma uchar_eq [simp]: "uchar a = uchar b \<longleftrightarrow> a = b"
  by (simp add: uchar_def)

text \<open>On text without NUL the plain comparison is the lexicographic order of the bytes.\<close>

fun lex_cmp :: "string \<Rightarrow> string \<Rightarrow> int" where
  "lex_cmp [] [] = 0"
| "lex_cmp [] (b # t) = -1"
| "lex_cmp (a # s) [] = 1"
| "lex_cmp (a # s) (b # t) = (if a = b then lex_cmp s t else uchar a - uchar b)"

definition no_nul :: "string \<Rightarrow> bool" where
  "no_nul s \<longleftrightarrow> CHR 0x00 \<notin> set s"

lemma strncmp_lex:
  assumes "no_nul (map conv s)" "no_nul (map conv t)" "conv (CHR 0x00) = CHR 0x00"
  shows "(let r = strncmp_with conv s t (min (length s) (length t))
    in if r \<noteq> 0 then r else num_compare (length s) (length t)) = lex_cmp (map conv s) (map conv t)"
  using assms
proof (induction s arbitrary: t)
  case Nil
  then show ?case by (cases t) (auto simp: num_compare_def Let_def)
next
  case (Cons a s)
  show ?case
  proof (cases t)
    case Nil
    then show ?thesis by (simp add: num_compare_def Let_def)
  next
    case (Cons b t')
    have "a \<noteq> CHR 0x00" using Cons.prems by (auto simp: no_nul_def)
    then show ?thesis
      using Cons Cons.prems Cons.IH [of t'] by (auto simp: no_nul_def num_compare_def Let_def)
  qed
qed

lemma stringview_compare_lex:
  "no_nul s \<Longrightarrow> no_nul t \<Longrightarrow> stringview_compare s t = lex_cmp s t"
  using strncmp_lex [of "\<lambda>c. c" s t] by (auto simp: stringview_compare_def Let_def min_def)

lemma tolower_NUL [simp]: "tolower_c (CHR 0x00) = CHR 0x00"
  by (simp add: tolower_c_def)

lemma tolower_NUL_iff [simp]: "tolower_c c = CHR 0x00 \<longleftrightarrow> c = CHR 0x00"
proof (cases "65 \<le> (of_char c :: nat) \<and> (of_char c :: nat) \<le> 90")
  case True
  then have "(of_char (tolower_c c) :: nat) = of_char c + 32" by (simp add: tolower_c_def Let_def)
  then show ?thesis using True by auto
qed (auto simp: tolower_c_def Let_def)

lemma stringview_compare_nocase_lex:
  "no_nul (map tolower_c s) \<Longrightarrow> no_nul (map tolower_c t) \<Longrightarrow>
   stringview_compare_nocase s t = lex_cmp (map tolower_c s) (map tolower_c t)"
  using strncmp_lex [of tolower_c s t] by (auto simp: stringview_compare_nocase_def Let_def min_def)

lemma lex_cmp_eq: "lex_cmp s t = 0 \<longleftrightarrow> s = t"
  by (induction s t rule: lex_cmp.induct) auto

lemma lex_cmp_anti: "lex_cmp t s = - lex_cmp s t"
  by (induction s t rule: lex_cmp.induct) auto

lemma lex_cmp_trans: "lex_cmp s t \<le> 0 \<Longrightarrow> lex_cmp t u \<le> 0 \<Longrightarrow> lex_cmp s u \<le> 0"
proof (induction s t arbitrary: u rule: lex_cmp.induct)
  case (1)
  then show ?case by simp
next
  case (2 b t)
  then show ?case by (cases u) auto
next
  case (3 a s)
  then show ?case by simp
next
  case (4 a s b t)
  then obtain c u' where u: "u = c # u'" by (cases u) auto
  show ?case using 4 u by (auto split: if_splits)
qed


section \<open>The trimming comparisons\<close>

lemma rtrim_common_eq:
  "rtrim_common conv s t = 0 \<longleftrightarrow>
   map conv (take (min (length s) (length t)) s) = map conv (take (min (length s) (length t)) t)"
  by (induction conv s t rule: rtrim_common.induct) (auto simp: Let_def)

lemma rtrim_rest_eq: "rtrim_rest d cs = 0 \<longleftrightarrow> d = 0 \<or> (\<forall>c \<in> set cs. isspace_c c)"
  by (induction cs) (auto simp: Let_def)

lemma len_diff_eq:
  assumes "n0 < 2147483648" "n1 < 2147483648"
  shows "len_diff n0 n1 = int n0 - int n1"
proof -
  have "(of_nat n0 - of_nat n1 :: i32) = word_of_int (int n0 - int n1)" by simp
  then have "len_diff n0 n1 = signed_take_bit 31 (int n0 - int n1)"
    unfolding len_diff_def by (simp only: signed_of_int) simp
  also have "\<dots> = int n0 - int n1"
    using assms by (intro signed_take_bit_int_eq_self) auto
  finally show ?thesis .
qed

text \<open>
  Two views are equal when they agree on the common part and the rest of the longer is white
  space. That is not an equivalence: white space other than a blank is trimmed but not equal
  to a blank.
\<close>

lemma compare_rtrim_eq:
  assumes "length s < 2147483648" "length t < 2147483648"
  shows "compare_rtrim_with conv s t = 0 \<longleftrightarrow>
    (let n = min (length s) (length t)
     in map conv (take n s) = map conv (take n t) \<and> (\<forall>c \<in> set (drop n s @ drop n t). isspace_c c))"
  using assms
  by (auto simp: compare_rtrim_with_def Let_def rtrim_common_eq rtrim_rest_eq len_diff_eq min_def
      split: if_splits)

text \<open>When blanks are the only white space, equality is equality of the trimmed views.\<close>

lemma rstrip_append_all: "\<forall>c \<in> set ys. p c \<Longrightarrow> rstrip p (xs @ ys) = rstrip p xs"
  by (induction ys rule: rev_induct) (auto simp: rstrip_snoc simp flip: append_assoc)

lemma rstrip_decomp: "\<exists>ys. xs = rstrip p xs @ ys \<and> (\<forall>c \<in> set ys. p c)"
proof (induction xs rule: rev_induct)
  case Nil
  then show ?case by simp
next
  case (snoc x xs)
  then obtain ys where ys: "xs = rstrip p xs @ ys" "\<forall>c \<in> set ys. p c" by blast
  show ?case
  proof (cases "p x")
    case True
    then show ?thesis using ys by (intro exI [of _ "ys @ [x]"]) (simp add: rstrip_snoc)
  next
    case False
    then show ?thesis by (simp add: rstrip_snoc)
  qed
qed

lemma take_common:
  assumes "\<forall>c \<in> set ys. c = b" "\<forall>c \<in> set zs. c = b"
  shows "(let n = min (length (r @ ys)) (length (r @ zs))
     in take n (r @ ys) = take n (r @ zs) \<and> (\<forall>c \<in> set (drop n (r @ ys) @ drop n (r @ zs)). c = b))"
proof -
  have rep: "ys = replicate (length ys) b" "zs = replicate (length zs) b"
    using assms by (simp_all add: replicate_eqI)
  have "take n ys = take n zs" if "n \<le> length ys" "n \<le> length zs" for n
    using that by (subst rep(1), subst rep(2)) (simp add: min_absorb1)
  then show ?thesis
    using assms by (auto simp: Let_def dest!: in_set_dropD)
qed

lemma compare_rtrim_blank:
  assumes "length s < 2147483648" "length t < 2147483648"
    and ws: "\<And>c. c \<in> set s \<union> set t \<Longrightarrow> isspace_c c \<Longrightarrow> c = CHR '' ''"
  shows "stringview_compare_rtrim s t = 0 \<longleftrightarrow> rstrip (\<lambda>c. c = CHR '' '') s = rstrip (\<lambda>c. c = CHR '' '') t"
proof -
  let ?b = "\<lambda>c. c = CHR '' ''"
  let ?n = "min (length s) (length t)"
  have sp: "isspace_c c \<longleftrightarrow> ?b c" if "c \<in> set s \<union> set t" for c
    using ws [OF that] by (auto simp: isspace_c_def)
  have "stringview_compare_rtrim s t = 0 \<longleftrightarrow>
      take ?n s = take ?n t \<and> (\<forall>c \<in> set (drop ?n s @ drop ?n t). ?b c)"
    using compare_rtrim_eq [OF assms(1,2), of "\<lambda>c. c"] sp
    by (auto simp: stringview_compare_rtrim_def Let_def dest: in_set_dropD)
  also have "\<dots> \<longleftrightarrow> rstrip ?b s = rstrip ?b t"
  proof
    assume h: "take ?n s = take ?n t \<and> (\<forall>c \<in> set (drop ?n s @ drop ?n t). ?b c)"
    have "rstrip ?b (take ?n s @ drop ?n s) = rstrip ?b (take ?n s)"
        "rstrip ?b (take ?n t @ drop ?n t) = rstrip ?b (take ?n t)"
      using h by (intro rstrip_append_all; simp)+
    then show "rstrip ?b s = rstrip ?b t" using h unfolding append_take_drop_id by simp
  next
    assume h: "rstrip ?b s = rstrip ?b t"
    obtain r ys zs where d: "s = r @ ys" "\<forall>c \<in> set ys. ?b c" "t = r @ zs" "\<forall>c \<in> set zs. ?b c"
      using rstrip_decomp [of s ?b] rstrip_decomp [of t ?b] h by metis
    show "take ?n s = take ?n t \<and> (\<forall>c \<in> set (drop ?n s @ drop ?n t). ?b c)"
      using take_common [OF d(2,4), of r] unfolding d(1,3) Let_def .
  qed
  finally show ?thesis .
qed

lemma compare_rtrim_not_transitive:
  "stringview_compare_rtrim ''x '' ''x'' = 0 \<and> stringview_compare_rtrim ''x'' (''x'' @ [CHR 0x09]) = 0 \<and>
   stringview_compare_rtrim ''x '' (''x'' @ [CHR 0x09]) \<noteq> 0"
  by code_simp

text \<open>The order of texts by the numbers of their bytes.\<close>

definition text_order :: "(string \<times> string) set" where
  "text_order = lexord {(a, b). uchar a < uchar b}"

lemma lex_cmp_less: "lex_cmp s t < 0 \<longleftrightarrow> (s, t) \<in> text_order"
  by (induction s t rule: lex_cmp.induct) (auto simp: text_order_def)

lemma lex_cmp_greater: "0 < lex_cmp s t \<longleftrightarrow> (t, s) \<in> text_order"
  using lex_cmp_less [of t s] lex_cmp_anti [of t s] by simp

lemma rtrim_rest_values: "rtrim_rest d cs = (if \<forall>c \<in> set cs. isspace_c c then 0 else d)"
  by (induction cs) (auto simp: Let_def)

text \<open>
  On texts without control characters the trimming comparison is the order of the trimmed texts;
  a character below the blank may stand between a text and the same text with a blank.
\<close>

definition printable :: "string \<Rightarrow> bool" where
  "printable s \<longleftrightarrow> (\<forall>c \<in> set s. 32 \<le> uchar c)"

lemma printable_simps [simp]: "printable []" "printable (c # s) \<longleftrightarrow> 32 \<le> uchar c \<and> printable s"
  by (auto simp: printable_def)

lemma uchar_blank [simp]: "uchar CHR '' '' = 32"
  by (simp add: uchar_def)

lemma uchar_nat: "uchar c = int (of_char c)"
  by (simp add: uchar_def of_nat_of_char)

lemma printable_space: "32 \<le> uchar c \<Longrightarrow> isspace_c c \<longleftrightarrow> c = CHR '' ''"
  using uchar_eq [of c "CHR '' ''"] by (auto simp: isspace_c_def uchar_nat Let_def simp del: uchar_eq)

lemma compare_rtrim_loops:
  assumes "printable s" "printable t" "sgn d = sgn (int (length s) - int (length t))"
  shows "sgn (if rtrim_common (\<lambda>c. c) s t \<noteq> 0 then rtrim_common (\<lambda>c. c) s t
      else rtrim_rest d (drop (min (length s) (length t)) (if length t < length s then s else t))) =
    sgn (lex_cmp (rstrip (\<lambda>c. c = CHR '' '') s) (rstrip (\<lambda>c. c = CHR '' '') t))"
  using assms
proof (induction s arbitrary: t)
  case Nil
  have "(\<forall>c \<in> set t. isspace_c c) \<longleftrightarrow> rstrip (\<lambda>c. c = CHR '' '') t = []"
    using Nil.prems(2) printable_space unfolding printable_def by (auto simp: rstrip_def)
  then show ?case using Nil.prems(3) by (cases "rstrip (\<lambda>c. c = CHR '' '') t") (auto simp: rtrim_rest_values)
next
  case (Cons a s)
  show ?case
  proof (cases t)
    case Nil
    have "(\<forall>c \<in> set (a # s). isspace_c c) \<longleftrightarrow> rstrip (\<lambda>c. c = CHR '' '') (a # s) = []"
      using Cons.prems(1) printable_space unfolding printable_def by (auto simp: rstrip_def)
    then show ?thesis using Nil Cons.prems(3) by (cases "rstrip (\<lambda>c. c = CHR '' '') (a # s)") (auto simp: rtrim_rest_values)
  next
    case t: (Cons b t')
    show ?thesis
    proof (cases "a = b")
      case True
      have "lex_cmp (rstrip (\<lambda>c. c = CHR '' '') (a # s)) (rstrip (\<lambda>c. c = CHR '' '') (a # t')) =
          lex_cmp (rstrip (\<lambda>c. c = CHR '' '') s) (rstrip (\<lambda>c. c = CHR '' '') t')"
        by (cases "rstrip (\<lambda>c. c = CHR '' '') s"; cases "rstrip (\<lambda>c. c = CHR '' '') t'") (auto simp: rstrip_Cons)
      then show ?thesis using Cons.IH [of t'] Cons.prems t True by (simp add: Let_def split: if_splits)
    next
      case False
      have "uchar a \<noteq> uchar b" using False by simp
      moreover have "uchar a < 32 \<or> 32 < uchar a \<or> a = CHR '' ''" "uchar b < 32 \<or> 32 < uchar b \<or> b = CHR '' ''"
        using uchar_eq [of a "CHR '' ''"] uchar_eq [of b "CHR '' ''"] by (auto simp del: uchar_eq)
      ultimately show ?thesis using Cons.prems(1,2) t False by (auto simp: rstrip_Cons Let_def)
    qed
  qed
qed

lemma compare_rtrim_order:
  assumes "printable s" "printable t" "length s < 2147483648" "length t < 2147483648"
  shows "sgn (stringview_compare_rtrim s t) = sgn (lex_cmp (rstrip (\<lambda>c. c = CHR '' '') s) (rstrip (\<lambda>c. c = CHR '' '') t))"
proof -
  have d: "sgn (len_diff (length s) (length t)) = sgn (int (length s) - int (length t))" by (simp add: len_diff_eq assms)
  show ?thesis
    unfolding compare_rtrim_loops [OF assms(1,2) d, symmetric] stringview_compare_rtrim_def compare_rtrim_with_def
    by (auto simp: Let_def min_def)
qed

section \<open>Search\<close>

lemma strncmp_prefix:
  assumes "no_nul f" "no_nul s"
  shows "strncmp_with (\<lambda>c. c) (s @ [CHR 0x00]) f (length f) = 0 \<longleftrightarrow> take (length f) s = f"
  using assms
proof (induction f arbitrary: s)
  case Nil
  then show ?case by simp
next
  case (Cons a f)
  then show ?case by (cases s) (auto simp: no_nul_def)
qed

end
