(* ===== verification/Logicgroup.thy ===== *)
theory Logicgroup
  imports StringView Field
begin

text \<open>
  Conditions (lib/logic.c): the tree of a search condition, its evaluation with short cuts,
  and the test \<open>logic_can_be_false\<close> that decides whether an equality may drive a hash join. A
  predicate is named by the address of its \<open>logic\<close>; how it is evaluated is a parameter here
  and defined in Logic.
\<close>

section \<open>Comparisons\<close>

datatype comparison =
    COMP_NOT_SET | COMP_FALSE | COMP_TRUE | COMP_EQ | COMP_NE | COMP_GT | COMP_GE | COMP_LT
  | COMP_LE | COMP_IN | COMP_SUBIN | COMP_LIKE | COMP_NULL

definition logic_set_comparison :: "comparison \<Rightarrow> string \<Rightarrow> comparison" where
  "logic_set_comparison comp_type op =
     (if string_eq op ''='' then COMP_EQ
      else if string_eq op ''<>'' \<or> string_eq op ''!='' then COMP_NE
      else if string_eq op ''>'' then COMP_GT
      else if string_eq op ''>='' then COMP_GE
      else if string_eq op ''<'' then COMP_LT
      else if string_eq op ''<='' then COMP_LE
      else if istring_eq op ''IN'' then COMP_IN
      else if istring_eq op ''LIKE'' then COMP_LIKE
      else if istring_eq op ''NULL'' then COMP_NULL
      else comp_type)"

section \<open>Groups\<close>

text \<open>
  \<open>items\<close> of an AND or OR are its two sides; a predicate has a \<open>condition\<close>, \<open>None\<close> where the
  pointer is NULL. \<open>negation\<close> is read on predicates only.
\<close>

datatype logicgroup =
    LG_AND bool logicgroup logicgroup
  | LG_OR bool logicgroup logicgroup
  | LG_PREDICATE bool "nat option"

fun get_condition_count :: "logicgroup \<Rightarrow> nat \<Rightarrow> nat" where
  "get_condition_count (LG_PREDICATE neg c) count = count + 1"
| "get_condition_count (LG_AND neg g0 g1) count = get_condition_count g1 (get_condition_count g0 count)"
| "get_condition_count (LG_OR neg g0 g1) count = get_condition_count g1 (get_condition_count g0 count)"

definition logicgroup_get_condition_count :: "logicgroup \<Rightarrow> nat" where
  "logicgroup_get_condition_count self = get_condition_count self 0"

text \<open>
  The evaluation of one predicate is \<open>ev\<close>. With \<open>skip\<close> a predicate is taken to be true; a
  NULL \<open>skip\<close> is the same pointer as a missing condition.
\<close>

fun logicgroup_eval :: "(nat \<Rightarrow> ('s, bool) act) \<Rightarrow> nat option \<Rightarrow> logicgroup \<Rightarrow> ('s, bool) act" where
  "logicgroup_eval ev skip (LG_PREDICATE neg c) =
     (if c = skip then outA (Good True)
      else case c of
        None \<Rightarrow> outA Crash
      | Some l \<Rightarrow> derefA (ev l) (\<lambda>ret. outA (Good (if neg then \<not> ret else ret))))"
| "logicgroup_eval ev skip (LG_AND neg g0 g1) =
     derefA (logicgroup_eval ev skip g0) (\<lambda>ret.
       if \<not> ret then outA (Good ret) else logicgroup_eval ev skip g1)"
| "logicgroup_eval ev skip (LG_OR neg g0 g1) =
     derefA (logicgroup_eval ev skip g0) (\<lambda>ret.
       if ret then outA (Good ret) else logicgroup_eval ev skip g1)"

fun logic_can_be_false :: "logicgroup \<Rightarrow> nat option \<Rightarrow> bool" where
  "logic_can_be_false (LG_PREDICATE neg c) check = (if c = check then False else True)"
| "logic_can_be_false (LG_AND neg g0 g1) check =
     (let ret = logic_can_be_false g0 check in if \<not> ret then ret else logic_can_be_false g1 check)"
| "logic_can_be_false (LG_OR neg g0 g1) check =
     (let ret = logic_can_be_false g0 check in if ret then ret else logic_can_be_false g1 check)"

section \<open>Laws\<close>

text \<open>The boolean value of a group, for a value of every predicate.\<close>

fun holds :: "(nat option \<Rightarrow> bool) \<Rightarrow> logicgroup \<Rightarrow> bool" where
  "holds val (LG_PREDICATE neg c) = (if neg then \<not> val c else val c)"
| "holds val (LG_AND neg g0 g1) = (holds val g0 \<and> holds val g1)"
| "holds val (LG_OR neg g0 g1) = (holds val g0 \<or> holds val g1)"

fun predicates :: "logicgroup \<Rightarrow> (bool \<times> nat option) list" where
  "predicates (LG_PREDICATE neg c) = [(neg, c)]"
| "predicates (LG_AND neg g0 g1) = predicates g0 @ predicates g1"
| "predicates (LG_OR neg g0 g1) = predicates g0 @ predicates g1"

lemma condition_count: "logicgroup_get_condition_count g = length (predicates g)"
proof -
  have "get_condition_count g n = n + length (predicates g)" for n
    by (induction g arbitrary: n) auto
  then show ?thesis by (simp add: logicgroup_get_condition_count_def)
qed

text \<open>
  Predicates that always give a value, from any state that can arise: the evaluation gives
  the boolean value of the group. Skipping a predicate makes it true whatever its negation
  says.
\<close>

fun holds_skip :: "(nat \<Rightarrow> bool) \<Rightarrow> nat option \<Rightarrow> logicgroup \<Rightarrow> bool" where
  "holds_skip val skip (LG_PREDICATE neg c) =
     (c = skip \<or> (case c of None \<Rightarrow> False | Some l \<Rightarrow> val l \<noteq> neg))"
| "holds_skip val skip (LG_AND neg g0 g1) = (holds_skip val skip g0 \<and> holds_skip val skip g1)"
| "holds_skip val skip (LG_OR neg g0 g1) = (holds_skip val skip g0 \<or> holds_skip val skip g1)"

definition evaluates :: "('s \<Rightarrow> bool) \<Rightarrow> ('s, 'a) act \<Rightarrow> 'a \<Rightarrow> bool" where
  "evaluates I m a \<longleftrightarrow> (\<forall>s. I s \<longrightarrow> (\<exists>s'. m s = (Good a, s') \<and> I s'))"

text \<open>
  The same when NULL is a value like any other: what the variable then holds, which is \<open>init\<close>
  when the accessor leaves it alone.
\<close>

definition reads :: "('s \<Rightarrow> bool) \<Rightarrow> ('s, 'a) act \<Rightarrow> 'a option \<Rightarrow> 'a \<Rightarrow> bool" where
  "reads I m init v \<longleftrightarrow> (\<forall>s. I s \<longrightarrow> (\<exists>s'. I s' \<and>
     (m s = (Good v, s') \<or> m s = (Null (Some v), s') \<or> m s = (Null None, s') \<and> init = Some v)))"

lemma reads_evaluates: "evaluates I m v \<Longrightarrow> reads I m init v"
  unfolding evaluates_def reads_def by blast

lemma evaluates_outA [simp]: "evaluates I (outA (Good a)) a"
  by (simp add: evaluates_def outA_def)

lemma evaluates_derefA:
  assumes "evaluates I m a" "evaluates I (k a) b"
  shows "evaluates I (derefA m k) b"
  unfolding evaluates_def
proof (intro allI impI)
  fix s assume "I s"
  then obtain s1 where s1: "m s = (Good a, s1)" "I s1" using assms(1) unfolding evaluates_def by blast
  then obtain s2 where "k a s1 = (Good b, s2)" "I s2" using assms(2) unfolding evaluates_def by blast
  then show "\<exists>s'. derefA m k s = (Good b, s') \<and> I s'" using s1 by simp
qed

lemma logicgroup_eval_spec:
  assumes "\<forall>p \<in> set (predicates g). case snd p of None \<Rightarrow> skip = None | Some l \<Rightarrow> evaluates I (ev l) (val l)"
  shows "evaluates I (logicgroup_eval ev skip g) (holds_skip val skip g)"
  using assms
proof (induction g)
  case (LG_AND neg g0 g1)
  then have "evaluates I (logicgroup_eval ev skip g0) (holds_skip val skip g0)"
      "evaluates I (logicgroup_eval ev skip g1) (holds_skip val skip g1)" by simp_all
  then show ?case by (auto intro!: evaluates_derefA)
next
  case (LG_OR neg g0 g1)
  then have "evaluates I (logicgroup_eval ev skip g0) (holds_skip val skip g0)"
      "evaluates I (logicgroup_eval ev skip g1) (holds_skip val skip g1)" by simp_all
  then show ?case by (auto intro!: evaluates_derefA)
next
  case (LG_PREDICATE neg c)
  show ?case
  proof (cases c)
    case None
    then show ?thesis using LG_PREDICATE by simp
  next
    case (Some l)
    have "evaluates I (derefA (ev l) (\<lambda>ret. outA (Good (if neg then \<not> ret else ret)))) (val l \<noteq> neg)"
      using LG_PREDICATE Some evaluates_outA [of I "val l \<noteq> neg"]
      by (intro evaluates_derefA [of _ _ "val l"]) (cases neg; simp)+
    then show ?thesis using Some by simp
  qed
qed

text \<open>
  Where no predicate is negated, an equality that cannot be false in a true group is implied
  by the group: joining on it first loses no row.
\<close>

definition positive :: "logicgroup \<Rightarrow> bool" where
  "positive g \<longleftrightarrow> (\<forall>p \<in> set (predicates g). \<not> fst p)"

lemma can_be_false_holds: "positive g \<Longrightarrow> holds (\<lambda>c. c \<noteq> check) g = logic_can_be_false g check"
  by (induction g) (auto simp: positive_def Let_def)

lemma holds_mono:
  assumes "positive g" "\<forall>c. val c \<longrightarrow> val' c" "holds val g"
  shows "holds val' g"
  using assms(1,3) by (induction g) (use assms(2) in \<open>auto simp: positive_def\<close>)

lemma logic_can_be_false_sound:
  assumes "positive g" "\<not> logic_can_be_false g check" "holds val g"
  shows "val check"
proof (rule ccontr)
  assume "\<not> val check"
  then have "\<forall>c. val c \<longrightarrow> c \<noteq> check" by auto
  from holds_mono [OF assms(1) this assms(3)] show False using assms(2) can_be_false_holds [OF assms(1)] by blast
qed

text \<open>The test is also complete: an equality it rejects is false in some valuation that makes the group true.\<close>

lemma logic_can_be_false_complete:
  "positive g \<Longrightarrow> logic_can_be_false g check \<Longrightarrow> \<exists>val. holds val g \<and> \<not> val check"
  by (rule exI [of _ "\<lambda>c. c \<noteq> check"]) (simp add: can_be_false_holds)

text \<open>With a negation the test is wrong: the only predicate of \<open>NOT a = b\<close> passes it.\<close>

lemma logic_can_be_false_negation:
  "\<not> logic_can_be_false (LG_PREDICATE True c) c \<and> holds (\<lambda>_. False) (LG_PREDICATE True c)"
  by simp

end
