(* ===== verification/Probe.thy ===== *)
theory Probe
  imports FqlPrelude
begin

text \<open>
  Open addressing with linear probing, the discipline shared by every table of
  util/hashmap.c. A table is a list of slots, \<open>None\<close> where \<open>val_idx == _NONE\<close>.
  \<open>home e\<close> is the slot an entry hashes to; every slot between the home of an entry
  and the entry itself is taken, which is what makes the search stop at an empty slot.
\<close>

section \<open>The two loops\<close>

text \<open>
  The search of \<open>_get_entry\<close>: from \<open>idx\<close> on to an empty slot or one that matches.
  A full round without either is an endless loop in the code, \<open>None\<close> here.
\<close>

fun probe :: "'e option list \<Rightarrow> ('e \<Rightarrow> bool) \<Rightarrow> nat \<Rightarrow> nat \<Rightarrow> nat option" where
  "probe es P 0 idx = None"
| "probe es P (Suc fuel) idx =
     (case es ! idx of
        None \<Rightarrow> Some idx
      | Some e \<Rightarrow> if P e then Some idx else probe es P fuel ((idx + 1) mod length es))"

text \<open>The loop of \<open>_increase_size\<close>: every entry goes to the first empty slot from its home.\<close>

fun rehash :: "('e \<Rightarrow> nat) \<Rightarrow> 'e option list \<Rightarrow> 'e option list \<Rightarrow> 'e option list option" where
  "rehash home [] es = Some es"
| "rehash home (None # src) es = rehash home src es"
| "rehash home (Some e # src) es = do {
     i \<leftarrow> probe es (\<lambda>_. False) (length es) (home e);
     rehash home src (es[i := Some e])
   }"

section \<open>Reachability of entries\<close>

definition gap :: "nat \<Rightarrow> nat \<Rightarrow> nat \<Rightarrow> nat" where
  "gap n s p = (if s \<le> p then p - s else p + n - s)"

definition chained :: "('e \<Rightarrow> nat) \<Rightarrow> 'e option list \<Rightarrow> bool" where
  "chained home es \<longleftrightarrow>
     (\<forall>p e. p < length es \<longrightarrow> es ! p = Some e \<longrightarrow> home e < length es \<and>
        (\<forall>i < gap (length es) (home e) p. es ! ((home e + i) mod length es) \<noteq> None))"

definition occupied :: "'e option list \<Rightarrow> 'e list" where
  "occupied es = List.map_filter (\<lambda>x. x) es"

lemma occupied_Nil [simp]: "occupied [] = []"
  by (simp add: occupied_def List.map_filter_def)

lemma occupied_Cons [simp]:
  "occupied (x # es) = (case x of None \<Rightarrow> occupied es | Some e \<Rightarrow> e # occupied es)"
  by (simp add: occupied_def List.map_filter_def split: option.splits)

lemma occupied_append [simp]: "occupied (es @ fs) = occupied es @ occupied fs"
  by (induction es) (auto split: option.splits)

lemma occupied_replicate [simp]: "occupied (replicate n None) = []"
  by (induction n) auto

lemma set_occupied: "e \<in> set (occupied es) \<longleftrightarrow> (\<exists>p < length es. es ! p = Some e)"
proof -
  have "e \<in> set (occupied es) \<longleftrightarrow> Some e \<in> set es"
    by (induction es) (auto split: option.splits)
  then show ?thesis by (simp add: in_set_conv_nth)
qed

lemma gap_less: "s < n \<Longrightarrow> p < n \<Longrightarrow> gap n s p < n"
  by (simp add: gap_def) linarith

lemma gap_mod: "s < n \<Longrightarrow> p < n \<Longrightarrow> (s + gap n s p) mod n = p"
  by (simp add: gap_def)

lemma gap_unique:
  assumes "s < n" "j < n" "(s + j) mod n = p"
  shows "j = gap n s p"
proof (cases "s + j < n")
  case True
  then show ?thesis using assms by (simp add: gap_def)
next
  case False
  moreover have "s + j - n < n" using assms by linarith
  ultimately have "(s + j) mod n = s + j - n" by (simp add: le_mod_geq)
  then show ?thesis using assms False by (simp add: gap_def)
qed

section \<open>The search\<close>

lemma probe_Some:
  assumes "probe es P fuel s = Some r" "s < length es"
  shows "\<exists>j < fuel. r = (s + j) mod length es \<and>
    (case es ! r of None \<Rightarrow> True | Some e \<Rightarrow> P e) \<and>
    (\<forall>i < j. \<exists>e. es ! ((s + i) mod length es) = Some e \<and> \<not> P e)"
  using assms
proof (induction fuel arbitrary: s)
  case 0
  then show ?case by simp
next
  case (Suc fuel)
  show ?case
  proof (cases "(case es ! s of None \<Rightarrow> True | Some e \<Rightarrow> P e)")
    case True
    then have "r = s" using Suc.prems by (auto split: option.splits if_splits)
    then show ?thesis using True Suc.prems by (intro exI [of _ 0]) simp
  next
    case False
    then obtain e where e: "es ! s = Some e" "\<not> P e" by (auto split: option.splits)
    let ?s = "(s + 1) mod length es"
    have "probe es P fuel ?s = Some r" "?s < length es"
      using Suc.prems e by (auto intro: mod_less_divisor)
    from Suc.IH [OF this] obtain j where j: "j < fuel" "r = (?s + j) mod length es"
        "case es ! r of None \<Rightarrow> True | Some e \<Rightarrow> P e"
        "\<forall>i < j. \<exists>e. es ! ((?s + i) mod length es) = Some e \<and> \<not> P e"
      by auto
    have sh: "(?s + i) mod length es = (s + Suc i) mod length es" for i
      by (simp add: mod_add_left_eq)
    have "\<exists>e. es ! ((s + i) mod length es) = Some e \<and> \<not> P e" if "i < Suc j" for i
      using that e j(4) sh Suc.prems(2) by (cases i) auto
    then show ?thesis using j sh by (intro exI [of _ "Suc j"]) auto
  qed
qed

lemma probe_finds_empty:
  assumes "j < fuel" "s < length es" "es ! ((s + j) mod length es) = None"
  shows "\<exists>r. probe es P fuel s = Some r"
  using assms
proof (induction fuel arbitrary: s j)
  case 0
  then show ?case by simp
next
  case (Suc fuel)
  show ?case
  proof (cases j)
    case 0
    then show ?thesis using Suc.prems by simp
  next
    case (Suc k)
    have "\<exists>r. probe es P fuel ((s + 1) mod length es) = Some r"
      using Suc.prems Suc by (intro Suc.IH [of k]) (auto simp: mod_add_left_eq intro: mod_less_divisor)
    then show ?thesis by (auto split: option.splits)
  qed
qed

lemma probe_total:
  assumes "p < length es" "es ! p = None" "s < length es"
  shows "\<exists>r. probe es P (length es) s = Some r"
  using probe_finds_empty [of "gap (length es) s p" "length es" s es P] assms
  by (simp add: gap_less gap_mod)

text \<open>
  In a chained table in which matching entries share their home, the search finds the
  matching entry if there is one and an empty slot otherwise.
\<close>

lemma probe_chained:
  assumes "chained home es" "probe es P (length es) s = Some r" "s < length es"
    and home: "\<And>e. P e \<Longrightarrow> home e = s"
  shows "r < length es"
    "p < length es \<Longrightarrow> es ! p = Some e \<Longrightarrow> P e \<Longrightarrow> \<exists>e'. es ! r = Some e' \<and> P e'"
    "es ! r = None \<or> (\<exists>e. es ! r = Some e \<and> P e)"
    "\<forall>i < gap (length es) s r. es ! ((s + i) mod length es) \<noteq> None"
proof -
  obtain j where j: "j < length es" "r = (s + j) mod length es"
      "case es ! r of None \<Rightarrow> True | Some e \<Rightarrow> P e"
      "\<forall>i < j. \<exists>e. es ! ((s + i) mod length es) = Some e \<and> \<not> P e"
    using probe_Some [OF assms(2,3)] by auto
  show r: "r < length es" using j assms(3) by (auto intro: mod_less_divisor)
  show "es ! r = None \<or> (\<exists>e. es ! r = Some e \<and> P e)"
    using j(3) by (auto split: option.splits)
  have jg: "j = gap (length es) s r" using gap_unique j assms(3) by blast
  show "\<forall>i < gap (length es) s r. es ! ((s + i) mod length es) \<noteq> None"
    using j(4) jg by auto
  show "\<exists>e'. es ! r = Some e' \<and> P e'" if p: "p < length es" "es ! p = Some e" "P e"
  proof (rule ccontr)
    assume "\<not> ?thesis"
    then have none: "es ! r = None" using j(3) by (auto split: option.splits)
    have "home e = s" using home p(3) .
    then have before: "\<forall>i < gap (length es) s p. es ! ((s + i) mod length es) \<noteq> None"
      using assms(1) p by (auto simp: chained_def)
    have "\<not> j < gap (length es) s p" using before none j(2) by auto
    moreover have "\<not> gap (length es) s p < j"
      using j(4) p gap_mod [OF assms(3) p(1)] by auto
    ultimately have "j = gap (length es) s p" by simp
    then have "r = p" using gap_mod [OF assms(3) p(1)] j(2) by simp
    then show False using none p by simp
  qed
qed

section \<open>Insertion and growth\<close>

lemma chained_insert:
  assumes "chained home es" "r < length es" "es ! r = None \<or> es ! r = Some e0" "home e < length es"
    "\<forall>i < gap (length es) (home e) r. es ! ((home e + i) mod length es) \<noteq> None"
  shows "chained home (es[r := Some e])"
proof -
  have keep: "es[r := Some e] ! q \<noteq> None" if "es ! q \<noteq> None" "q < length es" for q
    using that by (cases "q = r") auto
  show ?thesis
    unfolding chained_def
  proof (intro allI impI, unfold length_list_update)
    fix p e' assume p: "p < length es" "es[r := Some e] ! p = Some e'"
    have pos: "0 < length es" using p(1) by linarith
    show "home e' < length es \<and>
      (\<forall>i < gap (length es) (home e') p. es[r := Some e] ! ((home e' + i) mod length es) \<noteq> None)"
    proof (cases "p = r")
      case True
      then show ?thesis using p assms keep pos by (auto intro!: keep)
    next
      case False
      then have "home e' < length es \<and>
          (\<forall>i < gap (length es) (home e') p. es ! ((home e' + i) mod length es) \<noteq> None)"
        using assms(1) p by (simp add: chained_def)
      then show ?thesis using keep mod_less_divisor [OF pos] by blast
    qed
  qed
qed

lemma occupied_insert:
  assumes "r < length es" "es ! r = None"
  shows "set (occupied (es[r := Some e])) = insert e (set (occupied es))"
    "length (occupied (es[r := Some e])) = Suc (length (occupied es))"
  using assms
proof (induction es arbitrary: r)
  case (Cons x es)
  { case 1 then show ?case using Cons.IH(1) by (cases r) (auto split: option.splits) }
  { case 2 then show ?case using Cons.IH(2) by (cases r) (auto split: option.splits) }
qed simp_all

lemma occupied_split:
  assumes "r < length es" "es ! r = None"
  shows "occupied es = occupied (take r es) @ occupied (drop (Suc r) es)"
    "occupied (es[r := Some e]) = occupied (take r es) @ e # occupied (drop (Suc r) es)"
proof -
  have "es = take r es @ None # drop (Suc r) es" using assms id_take_nth_drop [of r es] by simp
  then have "occupied es = occupied (take r es @ None # drop (Suc r) es)" by (rule arg_cong)
  then show "occupied es = occupied (take r es) @ occupied (drop (Suc r) es)" by simp
  show "occupied (es[r := Some e]) = occupied (take r es) @ e # occupied (drop (Suc r) es)"
    using assms by (simp add: upd_conv_take_nth_drop)
qed

lemma empty_slot:
  "length (occupied es) < length es \<Longrightarrow> \<exists>p < length es. es ! p = None"
proof (induction es)
  case (Cons x es)
  show ?case
  proof (cases x)
    case None
    then show ?thesis by (intro exI [of _ 0]) simp
  next
    case (Some e)
    then obtain p where "p < length es" "es ! p = None" using Cons by auto
    then show ?thesis by (intro exI [of _ "Suc p"]) simp
  qed
qed simp

lemma rehash_spec:
  assumes "chained home es" "length (occupied src) + length (occupied es) < length es"
    "\<forall>e \<in> set (occupied src). home e < length es"
  shows "yields (rehash home src es) (\<lambda>fs. length fs = length es \<and> chained home fs \<and>
    set (occupied fs) = set (occupied src) \<union> set (occupied es) \<and>
    length (occupied fs) = length (occupied src) + length (occupied es))"
  using assms
proof (induction home src es rule: rehash.induct)
  case (3 home e src es)
  have "home e < length es" using "3.prems" by simp
  moreover obtain p where "p < length es" "es ! p = None"
    using empty_slot [of es] "3.prems"(2) by auto
  ultimately obtain i where i: "probe es (\<lambda>_. False) (length es) (home e) = Some i"
    using probe_total by metis
  have "i < length es" "es ! i = None \<or> (\<exists>e'. es ! i = Some e' \<and> False)"
      "\<forall>k < gap (length es) (home e) i. es ! ((home e + k) mod length es) \<noteq> None"
    by (rule probe_chained [OF "3.prems"(1) i \<open>home e < length es\<close>], simp)+
  then have pr: "i < length es" "es ! i = None"
      "\<forall>k < gap (length es) (home e) i. es ! ((home e + k) mod length es) \<noteq> None"
    by simp_all
  have "chained home (es[i := Some e])"
    using chained_insert [OF "3.prems"(1) pr(1) _ \<open>home e < length es\<close> pr(3)] pr(2) by simp
  moreover note occupied_insert [OF pr(1,2), of e]
  ultimately show ?case
    using "3.IH" [of i] "3.prems" i by simp
qed simp_all

end
