(* ===== verification/Hashmap.thy ===== *)
theory Hashmap
  imports Vec Probe
begin

text \<open>
  The hash table of util/hashmap.c: \<open>set\<close>, \<open>hashmap\<close> and \<open>multimap\<close> over one record.
  Keys are copied into one growing buffer \<open>_keybuf\<close>; an entry holds the stretch of the
  buffer that is its key, its hash and the index of its value. Entries sit in a table of
  \<open>_limit\<close> slots, a power of two, searched by linear probing (Probe). The property word
  selects one of four hash functions, which also normalise the key.
  A lookup writes the key it looks for behind the end of the used buffer, so it returns
  the table as well. The field \<open>vals\<close> (\<open>values\<close> in the code) is the vector of values of a map and the counter
  that \<open>set\<close> keeps in the same pointer.
\<close>

unbundle bit_operations_syntax

section \<open>Hashing\<close>

definition fnv1_init :: u64 where "fnv1_init = 14695981039346656037"
definition fnv1_prime :: u64 where "fnv1_prime = 1099511628211"

definition fnv_step :: "u64 \<Rightarrow> char \<Rightarrow> u64" where
  "fnv_step h c = (h * fnv1_prime) XOR char_to_u64 c"

text \<open>\<open>np2\<close> is the loop of \<open>_next_power_of_2\<close>; from 1 it always ends.\<close>

function np2 :: "nat \<Rightarrow> nat \<Rightarrow> nat" where
  "np2 v n = (if 0 < v \<and> v < n then np2 (2 * v) n else v)"
  by pat_completeness auto
termination
  by (relation "measure (\<lambda>(v, n). n - v)") auto

declare np2.simps [simp del]

definition next_power_of_2 :: "nat \<Rightarrow> nat" where
  "next_power_of_2 n = np2 1 n"

text \<open>
  The loops of the hash functions: the characters written to the key buffer, the
  length of the key that counts, the hash.
\<close>

fun hash_loop :: "(char \<Rightarrow> char) \<Rightarrow> u64 \<Rightarrow> string \<Rightarrow> string \<times> u64" where
  "hash_loop conv hash [] = ([], hash)"
| "hash_loop conv hash (c # cs) =
     (let k = conv c; (ks, h) = hash_loop conv (fnv_step hash k) cs in (k # ks, h))"

fun hash_rtrim_loop ::
    "(char \<Rightarrow> char) \<Rightarrow> nat \<Rightarrow> u64 \<Rightarrow> nat \<Rightarrow> u64 \<Rightarrow> string \<Rightarrow> string \<times> nat \<times> u64" where
  "hash_rtrim_loop conv i hash last_n last_hash [] = ([], last_n, last_hash)"
| "hash_rtrim_loop conv i hash last_n last_hash (c # cs) =
     (let k = conv c; h1 = fnv_step hash k;
          (last_n', last_hash') = (if k \<noteq> CHR '' '' then (i + 1, h1) else (last_n, last_hash));
          (ks, n, h) = hash_rtrim_loop conv (i + 1) h1 last_n' last_hash' cs
      in (k # ks, n, h))"

definition hash_plain :: "string \<Rightarrow> string \<times> nat \<times> u64" where
  "hash_plain key = (let (ks, h) = hash_loop (\<lambda>c. c) fnv1_init key in (ks, length key, h))"

definition hash_nocase :: "string \<Rightarrow> string \<times> nat \<times> u64" where
  "hash_nocase key = (let (ks, h) = hash_loop tolower_c fnv1_init key in (ks, length key, h))"

definition hash_rtrim :: "string \<Rightarrow> string \<times> nat \<times> u64" where
  "hash_rtrim key = hash_rtrim_loop (\<lambda>c. c) 0 fnv1_init (length key) fnv1_init key"

definition hash_nocase_rtrim :: "string \<Rightarrow> string \<times> nat \<times> u64" where
  "hash_nocase_rtrim key = hash_rtrim_loop tolower_c 0 fnv1_init (length key) fnv1_init key"

definition get_hash :: "u32 \<Rightarrow> string \<Rightarrow> string \<times> nat \<times> u64" where
  "get_hash props =
     (if props = 1 then hash_nocase
      else if props = 2 then hash_rtrim
      else if props = 1 OR 2 then hash_nocase_rtrim
      else hash_plain)"

section \<open>State\<close>

record hm_entry =
  ehash :: u64
  val_idx :: nat
  key_idx :: nat
  key_len :: nat

record 'vs hashtab =
  vals :: 'vs
  entries :: "hm_entry option list"
  limit :: nat
  keybuf :: "char option list"
  keybuf_head :: nat
  props :: u32

definition home_slot :: "nat \<Rightarrow> u64 \<Rightarrow> nat" where
  "home_slot lim h = unat (h AND of_nat (lim - 1))"

definition slot_of :: "nat \<Rightarrow> hm_entry \<Rightarrow> nat" where
  "slot_of lim e = home_slot lim (ehash e)"

section \<open>Searching and growing\<close>

text \<open>Doubling of the key buffer until the key fits; a buffer of length 0 would never fit.\<close>

function grow_len :: "nat \<Rightarrow> nat \<Rightarrow> nat" where
  "grow_len len need = (if 0 < len \<and> len < need then grow_len (2 * len) need else len)"
  by pat_completeness auto
termination
  by (relation "measure (\<lambda>(len, need). need - len)") auto

declare grow_len.simps [simp del]

definition entry_matches :: "'vs hashtab \<Rightarrow> nat \<Rightarrow> u64 \<Rightarrow> hm_entry \<Rightarrow> bool" where
  "entry_matches m n h e \<longleftrightarrow>
     key_len e = n \<and> ehash e = h \<and>
     mem_read (key_idx e) n (keybuf m) = mem_read (keybuf_head m) n (keybuf m)"

definition get_entry :: "'vs hashtab \<Rightarrow> string \<Rightarrow> (nat \<times> nat \<times> u64 \<times> 'vs hashtab) option" where
  "get_entry m key =
     (let len = grow_len (length (keybuf m)) (keybuf_head m + length key);
          (ks, n, h) = get_hash (props m) key
      in do {
        b \<leftarrow> mem_write (keybuf_head m) (map Some ks) (mem_realloc len (keybuf m));
        let m' = m\<lparr>keybuf := b\<rparr>;
        i \<leftarrow> probe (entries m) (entry_matches m' n h) (limit m) (home_slot (limit m) h);
        Some (i, n, h, m')
      })"

definition increase_size :: "'vs hashtab \<Rightarrow> 'vs hashtab option" where
  "increase_size m =
     (let lim = next_power_of_2 (limit m + 1) in do {
        es \<leftarrow> rehash (slot_of lim) (entries m) (replicate lim None);
        Some (m\<lparr>limit := lim, entries := es\<rparr>)
      })"

text \<open>\<open>size > _FULL_PERCENT * _limit\<close>, with the constant .9 exact for a power of two.\<close>

definition over_full :: "nat \<Rightarrow> nat \<Rightarrow> bool" where
  "over_full n lim \<longleftrightarrow> 9 * lim < 10 * n"

definition put_entry :: "'vs hashtab \<Rightarrow> nat \<Rightarrow> hm_entry \<Rightarrow> nat \<Rightarrow> 'vs hashtab" where
  "put_entry m i e n = m\<lparr>entries := (entries m)[i := Some e], keybuf_head := keybuf_head m + n\<rparr>"

section \<open>set\<close>

definition set_construct :: "nat \<Rightarrow> u32 \<Rightarrow> nat hashtab" where
  "set_construct lim0 ps =
     (let lim = next_power_of_2 lim0 in
      \<lparr>vals = 0, entries = replicate lim None, limit = lim, keybuf = replicate lim None,
       keybuf_head = 0, props = ps\<rparr>)"

definition set_clear :: "nat hashtab \<Rightarrow> nat hashtab" where
  "set_clear m = m\<lparr>keybuf_head := 0, entries := replicate (limit m) None\<rparr>"

definition set_nadd :: "nat hashtab \<Rightarrow> string \<Rightarrow> nat hashtab option" where
  "set_nadd m key = do {
     (i, n, h, m1) \<leftarrow> get_entry m key;
     case entries m1 ! i of
       Some _ \<Rightarrow> Some m1
     | None \<Rightarrow>
         let m2 = put_entry m1 i \<lparr>ehash = h, val_idx = 0, key_idx = keybuf_head m1, key_len = n\<rparr> n;
             m3 = m2\<lparr>vals := vals m2 + 1\<rparr>
         in if over_full (vals m3) (limit m3) then increase_size m3 else Some m3
   }"

definition set_nhas :: "nat hashtab \<Rightarrow> string \<Rightarrow> (bool \<times> nat hashtab) option" where
  "set_nhas m key = do {
     (i, n, h, m1) \<leftarrow> get_entry m key;
     Some (entries m1 ! i \<noteq> None, m1)
   }"

section \<open>hashmap\<close>

definition hashmap_construct :: "nat \<Rightarrow> u32 \<Rightarrow> 'v vec hashtab" where
  "hashmap_construct lim0 ps =
     (let lim = next_power_of_2 lim0 in
      \<lparr>vals = vec_reserve vec_construct (lim0 div 2), entries = replicate lim None, limit = lim,
       keybuf = replicate lim None, keybuf_head = 0, props = ps\<rparr>)"

definition hashmap_clear :: "'v vec hashtab \<Rightarrow> 'v vec hashtab" where
  "hashmap_clear m =
     m\<lparr>vals := vec_clear (vals m), keybuf_head := 0, entries := replicate (limit m) None\<rparr>"

definition hashmap_nset :: "'v vec hashtab \<Rightarrow> string \<Rightarrow> 'v \<Rightarrow> 'v vec hashtab option" where
  "hashmap_nset m key data = do {
     (i, n, h, m1) \<leftarrow> get_entry m key;
     case entries m1 ! i of
       None \<Rightarrow> do {
         let m2 = put_entry m1 i
           \<lparr>ehash = h, val_idx = vsize (vals m1), key_idx = keybuf_head m1, key_len = n\<rparr> n;
         v \<leftarrow> vec_push_back (vals m2) (Some data);
         let m3 = m2\<lparr>vals := v\<rparr>;
         if over_full (vsize (vals m3)) (limit m3) then increase_size m3 else Some m3
       }
     | Some e \<Rightarrow> do {
         v \<leftarrow> vec_set_at (vals m1) (val_idx e) [Some data];
         Some (m1\<lparr>vals := v\<rparr>)
       }
   }"

text \<open>A found value is a pointer into \<open>values\<close>; \<open>None\<close> inside is the \<open>NULL\<close> of a missing key.\<close>

definition hashmap_nget :: "'v vec hashtab \<Rightarrow> string \<Rightarrow> (nat option \<times> 'v vec hashtab) option" where
  "hashmap_nget m key = do {
     (i, n, h, m1) \<leftarrow> get_entry m key;
     Some (map_option val_idx (entries m1 ! i), m1)
   }"

section \<open>multimap\<close>

definition multimap_construct :: "nat \<Rightarrow> u32 \<Rightarrow> 'v vec vec hashtab" where
  "multimap_construct lim0 ps = hashmap_construct lim0 ps"

text \<open>The vectors of the values are freed first, which no later operation can see.\<close>

definition multimap_clear :: "'v vec vec hashtab \<Rightarrow> 'v vec vec hashtab" where
  "multimap_clear m =
     m\<lparr>vals := vec_clear (vals m), keybuf_head := 0, entries := replicate (limit m) None\<rparr>"

definition multimap_nset :: "'v vec vec hashtab \<Rightarrow> string \<Rightarrow> 'v \<Rightarrow> 'v vec vec hashtab option" where
  "multimap_nset m key data = do {
     (i, n, h, m1) \<leftarrow> get_entry m key;
     case entries m1 ! i of
       None \<Rightarrow> do {
         let m2 = put_entry m1 i
           \<lparr>ehash = h, val_idx = vsize (vals m1), key_idx = keybuf_head m1, key_len = n\<rparr> n;
         new_vec \<leftarrow> vec_push_back vec_construct (Some data);
         v \<leftarrow> vec_push_back (vals m2) (Some new_vec);
         let m3 = m2\<lparr>vals := v\<rparr>;
         if over_full (vsize (vals m3)) (limit m3) then increase_size m3 else Some m3
       }
     | Some e \<Rightarrow> do {
         cell \<leftarrow> vec_at (vals m1) (val_idx e);
         entryvec \<leftarrow> cell;
         ev \<leftarrow> vec_push_back entryvec (Some data);
         v \<leftarrow> vec_set_at (vals m1) (val_idx e) [Some ev];
         Some (m1\<lparr>vals := v\<rparr>)
       }
   }"

end
