(* ===== verification/HashmapTable.thy ===== *)
theory HashmapTable
  imports Hashmap
begin

text \<open>
  The invariant of the table of Hashmap, independent of what the values are, and the
  specification of its three steps: search (\<open>get_entry\<close>), insertion of a new entry
  (\<open>put_entry\<close>) and growth (\<open>increase_size\<close>). The table stands for a finite map from
  normalised keys to entries, \<open>tab_find\<close>.
\<close>

section \<open>What the hash functions compute\<close>

definition conv_of :: "u32 \<Rightarrow> char \<Rightarrow> char" where
  "conv_of ps = (if ps = 1 \<or> ps = 3 then tolower_c else (\<lambda>c. c))"

definition trims :: "u32 \<Rightarrow> bool" where
  "trims ps \<longleftrightarrow> ps = 2 \<or> ps = 3"

abbreviation rtrim :: "string \<Rightarrow> string" where
  "rtrim \<equiv> rstrip (\<lambda>c. c = CHR '' '')"

text \<open>The key as it is stored. A key that is all blanks is kept at its full length.\<close>

definition norm_key :: "u32 \<Rightarrow> string \<Rightarrow> string" where
  "norm_key ps key =
     (let ks = map (conv_of ps) key
      in if trims ps \<and> rtrim ks \<noteq> [] then rtrim ks else ks)"

definition key_hash :: "u32 \<Rightarrow> string \<Rightarrow> u64" where
  "key_hash ps k = foldl fnv_step fnv1_init (if trims ps then rtrim k else k)"

lemma hash_loop_foldl: "hash_loop conv h cs = (map conv cs, foldl fnv_step h (map conv cs))"
  by (induction cs arbitrary: h) (simp_all add: Let_def)

lemma hash_rtrim_loop_spec:
  "hash_rtrim_loop conv i h n0 h0 cs =
     (let ks = map conv cs; t = rtrim ks
      in (ks, (if t = [] then n0 else i + length t), (if t = [] then h0 else foldl fnv_step h t)))"
proof (induction cs arbitrary: i h n0 h0)
  case (Cons c cs)
  then show ?case by (auto simp: Let_def rstrip_Cons)
qed simp

lemma conv_of_idem [simp]: "conv_of ps (conv_of ps c) = conv_of ps c"
  by (simp add: conv_of_def)

lemma rtrim_norm: "trims ps \<Longrightarrow> rtrim (norm_key ps key) = rtrim (map (conv_of ps) key)"
  by (simp add: norm_key_def Let_def)

lemma take_norm_key: "take (length (norm_key ps key)) (map (conv_of ps) key) = norm_key ps key"
  by (simp add: norm_key_def Let_def rstrip_prefix [symmetric])

lemma norm_key_length: "length (norm_key ps key) \<le> length key"
  using rstrip_length [of _ "map (conv_of ps) key"] by (simp add: norm_key_def Let_def)

lemma get_hash_spec:
  "get_hash ps key =
     (map (conv_of ps) key, length (norm_key ps key), key_hash ps (norm_key ps key))"
proof -
  have or12: "(1 OR 2 :: u32) = 3" by simp
  consider "ps = 1" | "ps = 2" | "ps = 3" | "ps \<noteq> 1" "ps \<noteq> 2" "ps \<noteq> 3" by blast
  then show ?thesis
    by cases
      (auto simp: get_hash_def or12 hash_plain_def hash_nocase_def hash_rtrim_def
        hash_nocase_rtrim_def hash_loop_foldl hash_rtrim_loop_spec norm_key_def key_hash_def
        conv_of_def trims_def Let_def)
qed

lemma map_conv_prefix:
  "map (conv_of ps) (take n (map (conv_of ps) key)) = take n (map (conv_of ps) key)"
  by (simp add: take_map)

lemma norm_key_idem [simp]: "norm_key ps (norm_key ps key) = norm_key ps key"
proof -
  have "map (conv_of ps) (norm_key ps key) = norm_key ps key"
    by (metis take_norm_key map_conv_prefix)
  moreover have "trims ps \<Longrightarrow> rtrim (norm_key ps key) \<noteq> [] \<Longrightarrow>
      rtrim (norm_key ps key) = norm_key ps key"
    by (auto simp: rtrim_norm) (simp add: norm_key_def Let_def)
  ultimately show ?thesis by (simp add: norm_key_def [of _ "norm_key ps key"] Let_def)
qed

section \<open>Growth of the table\<close>

lemma np2_power: "\<exists>i \<ge> j. np2 (2 ^ j) n = 2 ^ i \<and> n \<le> 2 ^ i \<and> (j < i \<longrightarrow> 2 ^ (i - 1) < n)"
proof (induction "n - 2 ^ j" arbitrary: j rule: less_induct)
  case less
  show ?case
  proof (cases "(2::nat) ^ j < n")
    case True
    have "n - 2 ^ Suc j < n - 2 ^ j" using True by (simp add: diff_less_mono2)
    from less [OF this] obtain i where i: "Suc j \<le> i" "np2 (2 ^ Suc j) n = 2 ^ i" "n \<le> 2 ^ i"
        "Suc j < i \<longrightarrow> 2 ^ (i - 1) < n" by blast
    have "np2 (2 ^ j) n = np2 (2 ^ Suc j) n"
      using True by (subst np2.simps) simp
    moreover have "2 ^ (i - 1) < n" using i True by (cases "Suc j < i") auto
    ultimately show ?thesis using i by (intro exI [of _ i]) simp
  next
    case False
    then have "np2 (2 ^ j) n = 2 ^ j" by (subst np2.simps) simp
    then show ?thesis using False by (intro exI [of _ j]) simp
  qed
qed

lemma next_power_of_2_power: "\<exists>i. next_power_of_2 n = 2 ^ i \<and> n \<le> 2 ^ i \<and> (0 < i \<longrightarrow> 2 ^ (i - 1) < n)"
  using np2_power [of 0 n] by (auto simp: next_power_of_2_def)

lemma next_power_of_2_double: "next_power_of_2 (2 ^ k + 1) = 2 ^ Suc k"
proof -
  obtain i where i: "next_power_of_2 (2 ^ k + 1) = 2 ^ i" "2 ^ k + 1 \<le> (2::nat) ^ i"
      "0 < i \<longrightarrow> 2 ^ (i - 1) < (2::nat) ^ k + 1"
    using next_power_of_2_power by blast
  have "(2::nat) ^ k < 2 ^ i" using i(2) by linarith
  then have lo: "k < i" by simp
  then have "(2::nat) ^ (i - 1) \<le> 2 ^ k" using i(3) by linarith
  then have "i - 1 \<le> k" by (rule power_le_imp_le_exp [rotated]) simp
  then have "i = Suc k" using lo by simp
  then show ?thesis using i(1) by simp
qed

lemma grow_len_enough: "0 < len \<Longrightarrow> need \<le> grow_len len need \<and> len \<le> grow_len len need"
proof (induction len need rule: grow_len.induct)
  case (1 len need)
  then show ?case by (subst (1 2) grow_len.simps) auto
qed

lemma home_slot_less: "0 < lim \<Longrightarrow> home_slot lim h < lim"
proof -
  assume "0 < lim"
  have "unat (h AND of_nat (lim - 1)) \<le> unat (of_nat (lim - 1) :: u64)"
    by (metis word_and_le1 word_le_nat_alt)
  also have "unat (of_nat (lim - 1) :: u64) \<le> lim - 1"
    unfolding unsigned_of_nat take_bit_eq_mod by (simp del: of_nat_diff)
  finally show ?thesis using \<open>0 < lim\<close> by (simp only: home_slot_def)
qed

lemma slot_less: "0 < lim \<Longrightarrow> slot_of lim e < lim"
  by (simp add: slot_of_def home_slot_less)


section \<open>The invariant\<close>

definition ekey :: "'vs hashtab \<Rightarrow> hm_entry \<Rightarrow> char option list" where
  "ekey m e = take (key_len e) (drop (key_idx e) (keybuf m))"

abbreviation occ :: "'vs hashtab \<Rightarrow> hm_entry list" where
  "occ m \<equiv> occupied (entries m)"

text \<open>An entry is sound when its key lies in the used part of the buffer and its hash is the key's.\<close>

definition entry_ok :: "'vs hashtab \<Rightarrow> hm_entry \<Rightarrow> bool" where
  "entry_ok m e \<longleftrightarrow> key_idx e + key_len e \<le> keybuf_head m \<and>
     (\<exists>k. ekey m e = map Some k \<and> ehash e = key_hash (props m) k)"

definition tab_core :: "'vs hashtab \<Rightarrow> bool" where
  "tab_core m \<longleftrightarrow> (\<exists>k. limit m = 2 ^ k) \<and> length (entries m) = limit m \<and>
     keybuf m \<noteq> [] \<and> keybuf_head m \<le> length (keybuf m) \<and>
     chained (slot_of (limit m)) (entries m) \<and>
     (\<forall>e \<in> set (occ m). entry_ok m e) \<and> distinct (map (ekey m) (occ m))"

definition tab_ok :: "'vs hashtab \<Rightarrow> bool" where
  "tab_ok m \<longleftrightarrow> tab_core m \<and> \<not> over_full (length (occ m)) (limit m)"

definition tab_find :: "'vs hashtab \<Rightarrow> string \<Rightarrow> hm_entry option" where
  "tab_find m k = map_of (map (\<lambda>e. (ekey m e, e)) (occ m)) (map Some k)"

lemma tab_limit: "tab_core m \<Longrightarrow> 0 < limit m"
  by (auto simp: tab_core_def)

lemma tab_find_eq:
  "distinct (map (ekey m) (occ m)) \<Longrightarrow>
   tab_find m k = Some e \<longleftrightarrow> e \<in> set (occ m) \<and> ekey m e = map Some k"
  by (auto simp: tab_find_def map_of_eq_Some_iff comp_def image_iff)

lemma tab_find_None: "tab_find m k = None \<longleftrightarrow> (\<forall>e \<in> set (occ m). ekey m e \<noteq> map Some k)"
  by (force simp: tab_find_def map_of_eq_None_iff)

lemma tab_find_some: "tab_find m k = Some e \<Longrightarrow> e \<in> set (occ m) \<and> ekey m e = map Some k"
  unfolding tab_find_def by (drule map_of_SomeD) auto

lemma not_full: "tab_ok m \<Longrightarrow> length (occ m) < limit m"
  using tab_limit [of m] by (auto simp: tab_ok_def over_full_def)

text \<open>Writing behind the used part of the buffer changes no key.\<close>

lemma ekey_write:
  assumes "take (keybuf_head m) b = take (keybuf_head m) (keybuf m)"
    "key_idx e + key_len e \<le> keybuf_head m"
  shows "ekey (m\<lparr>keybuf := b\<rparr>) e = ekey m e"
proof -
  have cut: "take (key_len e) (drop (key_idx e) xs) =
      take (key_len e) (drop (key_idx e) (take (keybuf_head m) xs))" for xs :: "char option list"
    using assms(2) by (simp add: drop_take min_absorb1)
  show ?thesis
    using assms(1) cut [of b] cut [of "keybuf m"] by (simp add: ekey_def)
qed

lemma tab_core_write:
  assumes "tab_core m" "take (keybuf_head m) b = take (keybuf_head m) (keybuf m)"
    "length (keybuf m) \<le> length b"
  shows "tab_core (m\<lparr>keybuf := b\<rparr>)" "tab_find (m\<lparr>keybuf := b\<rparr>) = tab_find m"
    "\<forall>e \<in> set (occ m). ekey (m\<lparr>keybuf := b\<rparr>) e = ekey m e"
proof -
  show same: "\<forall>e \<in> set (occ m). ekey (m\<lparr>keybuf := b\<rparr>) e = ekey m e"
    using assms(1) by (auto simp: tab_core_def entry_ok_def intro!: ekey_write [OF assms(2)])
  then have eq: "map (ekey (m\<lparr>keybuf := b\<rparr>)) (occ m) = map (ekey m) (occ m)" by simp
  have "b \<noteq> []" using assms(1,3) by (auto simp: tab_core_def)
  then show "tab_core (m\<lparr>keybuf := b\<rparr>)"
    using assms(1,3) same eq [symmetric] by (simp add: tab_core_def entry_ok_def)
  show "tab_find (m\<lparr>keybuf := b\<rparr>) = tab_find m"
    using same by (simp add: fun_eq_iff tab_find_def cong: map_cong)
qed

lemma tab_vals [simp]:
  "ekey (m\<lparr>vals := v\<rparr>) = ekey m" "tab_core (m\<lparr>vals := v\<rparr>) = tab_core m"
  "tab_ok (m\<lparr>vals := v\<rparr>) = tab_ok m" "tab_find (m\<lparr>vals := v\<rparr>) = tab_find m"
proof -
  show ek: "ekey (m\<lparr>vals := v\<rparr>) = ekey m" by (simp add: ekey_def fun_eq_iff)
  show core: "tab_core (m\<lparr>vals := v\<rparr>) = tab_core m" by (simp add: tab_core_def entry_ok_def ek)
  show "tab_ok (m\<lparr>vals := v\<rparr>) = tab_ok m" by (simp add: tab_ok_def core)
  show "tab_find (m\<lparr>vals := v\<rparr>) = tab_find m" by (simp add: tab_find_def fun_eq_iff ek)
qed

section \<open>Search\<close>

text \<open>What a search leaves behind for the insertion that may follow it.\<close>

definition found :: "'vs hashtab \<Rightarrow> string \<Rightarrow> nat \<times> nat \<times> u64 \<times> 'vs hashtab \<Rightarrow> bool" where
  "found m k r = (case r of (i, n, h, m1) \<Rightarrow>
     n = length k \<and> h = key_hash (props m) k \<and> i < limit m \<and>
     m1 = m\<lparr>keybuf := keybuf m1\<rparr> \<and> tab_ok m1 \<and> tab_find m1 = tab_find m \<and>
     keybuf_head m + n \<le> length (keybuf m1) \<and>
     take n (drop (keybuf_head m) (keybuf m1)) = map Some k \<and>
     entries m ! i = tab_find m k \<and>
     (let s = home_slot (limit m) h
      in \<forall>j < gap (limit m) s i. entries m ! ((s + j) mod limit m) \<noteq> None))"

lemma get_entry_spec:
  assumes "tab_ok m"
  shows "yields (get_entry m key) (found m (norm_key (props m) key))"
proof -
  let ?k = "norm_key (props m) key" and ?hd = "keybuf_head m"
  define ks where "ks = map (conv_of (props m)) key"
  define h where "h = key_hash (props m) ?k"
  define s where "s = home_slot (limit m) h"
  define len where "len = grow_len (length (keybuf m)) (?hd + length key)"
  note core = assms [unfolded tab_ok_def, THEN conjunct1]
  have len: "?hd + length ks \<le> len" "length (keybuf m) \<le> len"
    using grow_len_enough [of "length (keybuf m)" "?hd + length key"] core
    by (auto simp: len_def ks_def tab_core_def)
  define b where "b = take ?hd (mem_realloc len (keybuf m)) @ map Some ks @
    drop (?hd + length ks) (mem_realloc len (keybuf m))"
  have w: "mem_write ?hd (map Some ks) (mem_realloc len (keybuf m)) = Some b"
    using len by (simp add: b_def mem_write_in)
  have hd: "?hd \<le> length (keybuf m)" using core by (simp add: tab_core_def)
  have b: "length b = len" "take ?hd b = take ?hd (keybuf m)"
      "take (length ?k) (drop ?hd b) = map Some ?k"
  proof -
    show "length b = len" using len by (simp add: b_def)
    show "take ?hd b = take ?hd (keybuf m)" using len hd by (simp add: b_def)
    have "length ?k \<le> length ks" using norm_key_length by (simp add: ks_def)
    moreover have "drop ?hd b = map Some ks @ drop (?hd + length ks) (mem_realloc len (keybuf m))"
      using len hd by (simp add: b_def)
    ultimately have "take (length ?k) (drop ?hd b) = map Some (take (length ?k) ks)"
      by (simp add: take_map)
    then show "take (length ?k) (drop ?hd b) = map Some ?k"
      by (simp add: ks_def take_norm_key)
  qed
  let ?m1 = "m\<lparr>keybuf := b\<rparr>"
  note wr = tab_core_write [OF core b(2)]
  have m1: "tab_core ?m1" "tab_find ?m1 = tab_find m" "tab_ok ?m1"
    using wr len b(1) assms by (auto simp: tab_ok_def)
  have lim: "0 < limit m" "length (entries m) = limit m" "chained (slot_of (limit m)) (entries m)"
    using core tab_limit by (auto simp: tab_core_def)
  have s: "s < limit m"
    by (simp add: s_def home_slot_less [OF lim(1)])
  define P where "P = entry_matches ?m1 (length ?k) h"
  have P: "P e \<longleftrightarrow> ekey m e = map Some ?k" if eo: "e \<in> set (occ m)" for e
  proof -
    obtain k where ok: "key_idx e + key_len e \<le> ?hd" "ekey m e = map Some k"
        "ehash e = key_hash (props m) k"
      using core eo by (auto simp: tab_core_def entry_ok_def)
    have e1: "ekey ?m1 e = ekey m e" using wr(3) len b(1) eo by simp
    have kl: "length (ekey m e) = key_len e" using ok(1) hd by (simp add: ekey_def)
    have hk: "?hd + length ?k \<le> length b"
      using norm_key_length [of "props m" key] len b(1) by (simp add: ks_def)
    have rd: "mem_read ?hd (length ?k) b = Some (map Some ?k)"
      using hk b(3) by (simp add: mem_read_in)
    have re: "mem_read (key_idx e) (key_len e) b = Some (ekey m e)"
      using ok(1) len b(1) e1 by (simp add: mem_read_in ekey_def)
    have Pd: "P e \<longleftrightarrow> key_len e = length ?k \<and> ehash e = h \<and>
        mem_read (key_idx e) (length ?k) b = mem_read ?hd (length ?k) b"
      by (simp add: P_def entry_matches_def)
    show ?thesis
    proof
      assume "P e"
      then have "key_len e = length ?k" "mem_read (key_idx e) (length ?k) b = Some (map Some ?k)"
        using Pd rd by simp_all
      then show "ekey m e = map Some ?k" using re by simp
    next
      assume eq: "ekey m e = map Some ?k"
      have "key_len e = length ?k" using kl by (simp add: eq)
      moreover have "map Some k = map Some ?k" using ok(2) eq by simp
      then have "k = ?k" by (rule map_injective) simp
      ultimately show "P e" using Pd rd re ok(3) eq by (simp add: h_def)
    qed
  qed
  obtain i where i: "probe (entries m) P (limit m) s = Some i"
    using not_full [OF assms] empty_slot [of "entries m"] probe_total [of _ "entries m" s P] lim s
    by auto
  have slot: "slot_of (limit m) e = s" if "P e" for e
    using that by (simp add: slot_of_def s_def P_def entry_matches_def)
  note pc = probe_chained [OF lim(3) i [folded lim(2)] s [folded lim(2)] slot, unfolded lim(2)]
  have hit: "entries m ! i = tab_find m ?k"
  proof (cases "entries m ! i")
    case None
    have "\<not> P e" if "e \<in> set (occ m)" for e
      using that pc(2) None lim(2) by (auto simp: set_occupied)
    then have "tab_find m ?k = None" using P by (auto simp: tab_find_None)
    then show ?thesis using None by simp
  next
    case (Some e)
    then have "P e" "e \<in> set (occ m)" using pc(1,3) lim(2) by (auto simp: set_occupied)
    then have "tab_find m ?k = Some e" using P core by (subst tab_find_eq) (auto simp: tab_core_def)
    then show ?thesis using Some by simp
  qed
  have "get_entry m key = Some (i, length ?k, h, ?m1)"
    using w i by (simp add: get_entry_def get_hash_spec Let_def len_def ks_def h_def s_def P_def)
  moreover have "found m ?k (i, length ?k, h, ?m1)"
    using m1 pc(1,4) hit b len norm_key_length [of "props m" key]
    by (simp add: found_def h_def s_def ks_def)
  ultimately show ?thesis by simp
qed


section \<open>Insertion and growth\<close>

lemma put_entry_spec:
  assumes fd: "found m k (i, n, h, m1)" and none: "entries m ! i = None"
    and e: "ehash e = h" "key_idx e = keybuf_head m1" "key_len e = n"
  defines "m2 \<equiv> put_entry m1 i e n"
  shows "tab_core m2" "tab_find m2 = (tab_find m)(k \<mapsto> e)" "e \<notin> set (occ m)"
    "set (occ m2) = insert e (set (occ m))" "length (occ m2) = Suc (length (occ m))"
    "limit m2 = limit m" "vals m2 = vals m" "props m2 = props m"
proof -
  have n: "n = length k" and h: "h = key_hash (props m) k" and i: "i < limit m"
    and m1: "m1 = m\<lparr>keybuf := keybuf m1\<rparr>" and ok1: "tab_ok m1" and same: "tab_find m1 = tab_find m"
    and fits: "keybuf_head m + n \<le> length (keybuf m1)"
    and key: "take n (drop (keybuf_head m) (keybuf m1)) = map Some k"
    and missing: "entries m ! i = tab_find m k"
    and path: "\<forall>j < gap (limit m) (home_slot (limit m) h) i.
      entries m ! ((home_slot (limit m) h + j) mod limit m) \<noteq> None"
    using fd unfolding found_def prod.case Let_def by blast+
  obtain b where b: "m1 = m\<lparr>keybuf := b\<rparr>" using m1 by blast
  have proj: "entries m1 = entries m" "limit m1 = limit m" "keybuf_head m1 = keybuf_head m"
      "props m1 = props m" "vals m1 = vals m" "keybuf m1 = b"
    by (simp_all add: b)
  have core1: "tab_core m1" using ok1 by (simp add: tab_ok_def)
  have len: "length (entries m) = limit m" using core1 proj by (simp add: tab_core_def)
  let ?es = "entries m"
  have ent2: "entries m2 = ?es[i := Some e]" "keybuf_head m2 = keybuf_head m + n" "keybuf m2 = b"
      "limit m2 = limit m" "props m2 = props m" "vals m2 = vals m"
    by (simp_all add: m2_def put_entry_def proj)
  have ek: "ekey m2 e' = ekey m1 e'" for e' by (simp add: ekey_def ent2 proj)
  have eke: "ekey m2 e = map Some k" 
    unfolding ek using key by (simp add: ekey_def e proj)
  have nokey: "ekey m1 e' \<noteq> map Some k" if "e' \<in> set (occ m)" for e'
    using that none missing same proj by (auto simp: tab_find_None [symmetric])
      (metis tab_find_None proj(1) option.distinct(1))
  show new: "e \<notin> set (occ m)" using nokey eke ek by auto
  note split = occupied_split [of i ?es, OF i [folded len] none]
  show occ2: "set (occ m2) = insert e (set (occ m))" by (simp add: ent2 split(1) split(2) [of e])
  show "length (occ m2) = Suc (length (occ m))" by (simp add: ent2 split(1) split(2) [of e])
  have dist: "distinct (map (ekey m2) (occ m2))"
  proof -
    have "distinct (map (ekey m1) (occ m))" using core1 proj by (simp add: tab_core_def)
    moreover have "ekey m1 e \<notin> ekey m1 ` set (occ m)" using nokey eke ek by (metis imageE)
    moreover have "ekey m2 = ekey m1" using ek by (rule ext)
    ultimately show ?thesis by (auto simp: ent2 split(1) split(2) [of e])
  qed
  have slot: "slot_of (limit m) e = home_slot (limit m) h" by (simp add: slot_of_def e)
  have ch: "chained (slot_of (limit m)) (entries m2)"
    unfolding ent2(1)
    using core1 proj len i none path slot_less [of "limit m" e] slot
    by (intro chained_insert) (auto simp: tab_core_def)
  have snd: "entry_ok m2 e'" if "e' \<in> set (occ m2)" for e'
  proof (cases "e' = e")
    case True
    then show ?thesis using eke h by (auto simp: entry_ok_def ent2 e proj)
  next
    case False
    then have "entry_ok m1 e'" using that core1 occ2 proj by (simp add: tab_core_def)
    then show ?thesis by (auto simp: entry_ok_def ek ent2 proj)
  qed
  show core2: "tab_core m2"
    unfolding tab_core_def ent2(2,3,4)
    using core1 ch dist snd fits len proj by (auto simp: tab_core_def ent2)
  show "tab_find m2 = (tab_find m)(k \<mapsto> e)"
  proof
    fix k'
    have d1: "distinct (map (ekey m1) (occ m1))" using core1 by (simp add: tab_core_def)
    have "tab_find m2 k' = Some e' \<longleftrightarrow> ((tab_find m)(k \<mapsto> e)) k' = Some e'" for e'
      using tab_find_eq [OF dist, of k' e'] tab_find_eq [OF d1, of k' e'] occ2 ek eke nokey new same proj
      by (auto dest: map_injective simp: inj_def)
    then show "tab_find m2 k' = ((tab_find m)(k \<mapsto> e)) k'" by (metis option.exhaust)
  qed
  show "limit m2 = limit m" "vals m2 = vals m" "props m2 = props m" using ent2 by simp_all
qed

lemma increase_size_raw:
  assumes k: "limit m = 2 ^ k" and len: "length (entries m) = limit m" and room: "length (occ m) \<le> limit m"
  shows "\<exists>fs. increase_size m = Some (m\<lparr>limit := 2 ^ Suc k, entries := fs\<rparr>) \<and> length fs = 2 ^ Suc k \<and>
    chained (slot_of (2 ^ Suc k)) fs \<and> set (occupied fs) = set (occ m) \<and>
    length (occupied fs) = length (occ m)"
proof -
  define lim where "lim = next_power_of_2 (limit m + 1)"
  have lim: "lim = 2 ^ Suc k" using next_power_of_2_double [of k] by (simp add: lim_def k)
  have pos: "0 < limit m" "0 < lim" by (simp_all add: k lim)
  have "chained (slot_of lim) (replicate lim None)" by (simp add: chained_def)
  moreover have "length (occ m) < 2 * limit m" using room pos by linarith
  then have "length (occ m) + length (occupied (replicate lim None :: hm_entry option list)) < lim"
    unfolding k lim by simp
  ultimately have "yields (rehash (slot_of lim) (entries m) (replicate lim None)) (\<lambda>fs.
      length fs = lim \<and> chained (slot_of lim) fs \<and> set (occupied fs) = set (occ m) \<and>
      length (occupied fs) = length (occ m))"
    using rehash_spec [of "slot_of lim" "replicate lim None" "entries m"] slot_less [OF pos(2)]
    by simp
  then obtain fs where fs: "rehash (slot_of lim) (entries m) (replicate lim None) = Some fs"
      "length fs = lim" "chained (slot_of lim) fs" "set (occupied fs) = set (occ m)"
      "length (occupied fs) = length (occ m)"
    by (auto simp: yields_exists)
  have "increase_size m = Some (m\<lparr>limit := lim, entries := fs\<rparr>)"
    using fs(1) by (simp add: increase_size_def Let_def lim_def)
  then show ?thesis using fs(2-) unfolding lim by blast
qed

lemma distinct_same_set:
  assumes "distinct (map f xs)" "set ys = set xs" "length ys = length xs"
  shows "distinct (map f ys)"
proof -
  have "card (set xs) = length xs" using assms(1) by (simp add: distinct_map distinct_card)
  then have "distinct ys" using assms(2,3) by (simp add: card_distinct)
  then show ?thesis using assms(1,2) by (simp add: distinct_map)
qed

lemma increase_size_spec:
  assumes core: "tab_core m" and room: "length (occ m) \<le> limit m" "10 * length (occ m) \<le> 18 * limit m"
  shows "yields (increase_size m) (\<lambda>m'. tab_ok m' \<and> tab_find m' = tab_find m \<and>
    limit m' = 2 * limit m \<and> set (occ m') = set (occ m) \<and> length (occ m') = length (occ m) \<and>
    vals m' = vals m \<and> props m' = props m)"
proof -
  obtain k where k: "limit m = 2 ^ k" using core by (auto simp: tab_core_def)
  have "length (entries m) = limit m" using core by (simp add: tab_core_def)
  from increase_size_raw [OF k this room(1)] obtain fs
    where eq: "increase_size m = Some (m\<lparr>limit := 2 ^ Suc k, entries := fs\<rparr>)"
      and fs: "length fs = 2 ^ Suc k" "chained (slot_of (2 ^ Suc k)) fs" "set (occupied fs) = set (occ m)"
        "length (occupied fs) = length (occ m)" by blast
  define m' where "m' = m\<lparr>limit := 2 ^ Suc k, entries := fs\<rparr>"
  have ek: "ekey m' = ekey m" by (simp add: m'_def ekey_def fun_eq_iff)
  have dist: "distinct (map (ekey m) (occ m))" using core by (simp add: tab_core_def)
  then have dist': "distinct (map (ekey m') (occ m'))"
    using distinct_same_set [OF dist] ek fs by (simp add: m'_def)
  have core': "tab_core m'"
    using core fs dist' ek by (auto simp: tab_core_def entry_ok_def m'_def intro: exI [of _ "Suc k"])
  have "tab_find m' k' = tab_find m k'" for k'
  proof -
    have "tab_find m' k' = Some e \<longleftrightarrow> tab_find m k' = Some e" for e
      using tab_find_eq [OF dist'] tab_find_eq [OF dist] ek fs by (simp add: m'_def)
    then show ?thesis by (metis option.exhaust)
  qed
  then have "tab_find m' = tab_find m" by (simp add: fun_eq_iff)
  moreover have "tab_ok m'" using core' room(2) fs k by (simp add: tab_ok_def over_full_def m'_def)
  ultimately show ?thesis using fs k eq by (simp add: m'_def)
qed

lemma load_step:
  fixes x y :: nat
  assumes "10 * x \<le> 9 * y" "0 < y"
  shows "Suc x \<le> y" "10 * Suc x \<le> 18 * y"
proof -
  show "Suc x \<le> y" using assms by linarith
  show "10 * Suc x \<le> 18 * y"
  proof (cases "y = 1")
    case True
    then have "x = 0" using assms by linarith
    then show ?thesis using True by simp
  next
    case False
    then have "2 \<le> y" using assms(2) by linarith
    then have "10 + 10 * x \<le> 18 * y" using assms(1) by linarith
    then show ?thesis by simp
  qed
qed

text \<open>After an insertion the table is grown if need be, for any counter that is not too small.\<close>

lemma grown_spec:
  assumes fd: "found m k (i, n, h, m1)" and ok: "tab_ok m" and none: "entries m ! i = None"
    and e: "ehash e = h" "key_idx e = keybuf_head m1" "key_len e = n"
    and count: "length (occ m) < c"
  shows "yields (let m3 = (put_entry m1 i e n)\<lparr>vals := v\<rparr>
      in if over_full c (limit m3) then increase_size m3 else Some m3)
    (\<lambda>m'. tab_ok m' \<and> tab_find m' = (tab_find m)(k \<mapsto> e) \<and> e \<notin> set (occ m) \<and>
      set (occ m') = insert e (set (occ m)) \<and> length (occ m') = Suc (length (occ m)) \<and>
      vals m' = v \<and> props m' = props m)"
proof -
  note put = put_entry_spec [OF fd none e]
  define m3 where "m3 = (put_entry m1 i e n)\<lparr>vals := v\<rparr>"
  have m3: "tab_core m3" "tab_find m3 = (tab_find m)(k \<mapsto> e)" "set (occ m3) = insert e (set (occ m))"
      "length (occ m3) = Suc (length (occ m))" "limit m3 = limit m" "vals m3 = v" "props m3 = props m"
    using put by (simp_all add: m3_def)
  have load: "10 * length (occ m) \<le> 9 * limit m" "0 < limit m"
    using ok tab_limit [of m] by (auto simp: tab_ok_def over_full_def)
  show ?thesis
  proof (cases "over_full c (limit m3)")
    case True
    have "length (occ m3) \<le> limit m3" "10 * length (occ m3) \<le> 18 * limit m3"
      unfolding m3(4,5) using load_step [OF load] by blast+
    from increase_size_spec [OF m3(1) this] obtain m' where m': "increase_size m3 = Some m'"
        "tab_ok m'" "tab_find m' = tab_find m3" "set (occ m') = set (occ m3)"
        "length (occ m') = length (occ m3)" "vals m' = vals m3" "props m' = props m3"
      by (auto simp: yields_exists)
    have "(let m3 = (put_entry m1 i e n)\<lparr>vals := v\<rparr>
      in if over_full c (limit m3) then increase_size m3 else Some m3) = Some m'"
      using True m'(1) unfolding Let_def m3_def by simp
    then show ?thesis using m' m3 put(3) by simp
  next
    case False
    then have "tab_ok m3" using m3 count by (auto simp: tab_ok_def over_full_def)
    moreover have "(let m3 = (put_entry m1 i e n)\<lparr>vals := v\<rparr>
      in if over_full c (limit m3) then increase_size m3 else Some m3) = Some m3"
      using False unfolding Let_def m3_def by simp
    ultimately show ?thesis using m3 put(3) by simp
  qed
qed

end
