(* ===== verification/HashmapMaps.thy ===== *)
theory HashmapMaps
  imports HashmapTable
begin

text \<open>
  The three clients of the table of util/hashmap.c as finite maps over normalised keys:
  \<open>set\<close> (membership), \<open>hashmap\<close> (last value wins) and \<open>multimap\<close> (all values, in the order
  of insertion). One interface, \<open>keyed_store\<close>, covers them; it is interpreted on each.
\<close>

section \<open>The interface\<close>

text \<open>A run of insertions, and the values inserted under one normalised key, in order.\<close>

fun put_all :: "('m \<Rightarrow> 'k \<Rightarrow> 'v \<Rightarrow> 'm option) \<Rightarrow> 'm \<Rightarrow> ('k \<times> 'v) list \<Rightarrow> 'm option" where
  "put_all put m [] = Some m"
| "put_all put m ((key, x) # kvs) = put m key x \<bind> (\<lambda>m'. put_all put m' kvs)"

definition under :: "('k \<Rightarrow> 'k) \<Rightarrow> 'k \<Rightarrow> ('k \<times> 'v) list \<Rightarrow> 'v list" where
  "under norm k kvs = map snd (filter (\<lambda>kv. norm (fst kv) = k) kvs)"

locale keyed_store =
  fixes ok :: "'m \<Rightarrow> bool"
    and content :: "'m \<Rightarrow> 'k \<Rightarrow> 'r option"
    and norm :: "'k \<Rightarrow> 'k"
    and combine :: "'r option \<Rightarrow> 'v \<Rightarrow> 'r"
    and put :: "'m \<Rightarrow> 'k \<Rightarrow> 'v \<Rightarrow> 'm option"
  assumes put_content: "ok m \<Longrightarrow> yields (put m key x)
      (\<lambda>m'. ok m' \<and> content m' = (content m)(norm key \<mapsto> combine (content m (norm key)) x))"
begin

lemma put_all_content:
  "ok m \<Longrightarrow> yields (put_all put m kvs) (\<lambda>m'. ok m' \<and>
     (\<forall>k. content m' k = fold (\<lambda>x r. Some (combine r x)) (under norm k kvs) (content m k)))"
proof (induction kvs arbitrary: m)
  case Nil
  then show ?case by (simp add: under_def)
next
  case (Cons kv kvs)
  obtain key x where kv: "kv = (key, x)" by force
  obtain m1 where m1: "put m key x = Some m1" "ok m1"
      "content m1 = (content m)(norm key \<mapsto> combine (content m (norm key)) x)"
    using put_content [OF Cons.prems] by (auto simp: yields_exists)
  show ?case
    using Cons.IH [OF m1(2)] m1 kv by (auto simp: under_def elim!: yields_mono)
qed

end

section \<open>Values of a map\<close>

text \<open>Every entry has its own cell of the value vector, and every cell is written.\<close>

definition vals_ok :: "'v vec hashtab \<Rightarrow> bool" where
  "vals_ok m \<longleftrightarrow> vec_ok (vals m) \<and> vsize (vals m) = length (occ m) \<and>
     (\<forall>e \<in> set (occ m). val_idx e < vsize (vals m)) \<and> inj_on val_idx (set (occ m)) \<and>
     (\<forall>x \<in> set (vec_list (vals m)). x \<noteq> None)"

definition hm_ok :: "'v vec hashtab \<Rightarrow> bool" where
  "hm_ok m \<longleftrightarrow> tab_ok m \<and> vals_ok m"

definition hm_map :: "'v vec hashtab \<Rightarrow> string \<Rightarrow> 'v option" where
  "hm_map m k = (case tab_find m k of None \<Rightarrow> None | Some e \<Rightarrow> vec_list (vals m) ! val_idx e)"

lemma found_same:
  assumes "found m k (i, n, h, m1)"
  shows "entries m1 = entries m" "vals m1 = vals m" "props m1 = props m" "limit m1 = limit m"
    "keybuf_head m1 = keybuf_head m" "tab_ok m1" "tab_find m1 = tab_find m"
    "entries m ! i = tab_find m k"
proof -
  have "m1 = m\<lparr>keybuf := keybuf m1\<rparr>" using assms unfolding found_def prod.case by blast
  then obtain b where b: "m1 = m\<lparr>keybuf := b\<rparr>" by blast
  show "entries m1 = entries m" "vals m1 = vals m" "props m1 = props m" "limit m1 = limit m"
    "keybuf_head m1 = keybuf_head m" by (simp_all add: b)
  show "tab_ok m1" "tab_find m1 = tab_find m" "entries m ! i = tab_find m k"
    using assms unfolding found_def prod.case by blast+
qed

lemma found_get:
  assumes "tab_ok m"
  obtains i n h m1 where "get_entry m key = Some (i, n, h, m1)"
    "found m (norm_key (props m) key) (i, n, h, m1)"
  using get_entry_spec [OF assms, of key] by (auto simp: yields_exists)

lemma found_ok: "hm_ok m \<Longrightarrow> found m k (i, n, h, m1) \<Longrightarrow> hm_ok m1 \<and> hm_map m1 = hm_map m"
  using found_same [of m k i n h m1]
  by (auto simp: hm_ok_def vals_ok_def hm_map_def fun_eq_iff split: option.splits)

text \<open>
  Insertion of a fresh entry whose value was pushed at the end of the vector.
\<close>

lemma push_value_spec:
  assumes ok: "hm_ok m" and fd: "found m k (i, n, h, m1)" and none: "entries m ! i = None"
    and e: "e = \<lparr>ehash = h, val_idx = vsize (vals m), key_idx = keybuf_head m1, key_len = n\<rparr>"
  shows "yields (do {
      v \<leftarrow> vec_push_back (vals (put_entry m1 i e n)) (Some x);
      let m3 = (put_entry m1 i e n)\<lparr>vals := v\<rparr>;
      if over_full (vsize (vals m3)) (limit m3) then increase_size m3 else Some m3 })
    (\<lambda>m'. hm_ok m' \<and> hm_map m' = (hm_map m)(k \<mapsto> x) \<and> props m' = props m)"
proof -
  have tab: "tab_ok m" and vo: "vals_ok m" using ok by (auto simp: hm_ok_def)
  have ee: "ehash e = h" "key_idx e = keybuf_head m1" "key_len e = n" by (simp_all add: e)
  have v1: "vals (put_entry m1 i e n) = vals m"
    using found_same(2) [OF fd] by (simp add: put_entry_def)
  obtain v where v: "vec_push_back (vals m) (Some x) = Some v" "vec_ok v"
      "vec_list v = vec_list (vals m) @ [Some x]"
    using vec_push_back_list [of "vals m" "Some x"] vo by (auto simp: vals_ok_def yields_exists)
  have vs: "vsize v = Suc (vsize (vals m))" "length (vec_list (vals m)) = vsize (vals m)"
    using v vec_list_length [of v] vec_list_length [of "vals m"] vo by (auto simp: vals_ok_def)
  have less: "length (occ m) < vsize v" using vs vo by (simp add: vals_ok_def)
  obtain m' where m': "(let m3 = (put_entry m1 i e n)\<lparr>vals := v\<rparr>
        in if over_full (vsize v) (limit m3) then increase_size m3 else Some m3) = Some m'"
      "tab_ok m'" "tab_find m' = (tab_find m)(k \<mapsto> e)" "e \<notin> set (occ m)"
      "set (occ m') = insert e (set (occ m))" "length (occ m') = Suc (length (occ m))"
      "vals m' = v" "props m' = props m"
    using grown_spec [OF fd tab none ee less, of v] by (auto simp: yields_exists)
  have ve: "val_idx e = vsize (vals m)" by (simp add: e)
  have "vals_ok m'"
    using vo v vs m' ve by (auto simp: vals_ok_def inj_on_def less_Suc_eq)
  moreover have "hm_map m' k' = ((hm_map m)(k \<mapsto> x)) k'" for k'
  proof (cases "k' = k")
    case True
    then show ?thesis using m' v ve vs by (simp add: hm_map_def nth_append)
  next
    case False
    have "val_idx e' < vsize (vals m)" if "tab_find m k' = Some e'" for e'
      using tab_find_some [OF that] vo unfolding vals_ok_def by blast
    then show ?thesis using False m' v vs
      by (auto simp: hm_map_def nth_append split: option.splits)
  qed
  ultimately have "hm_ok m' \<and> hm_map m' = (hm_map m)(k \<mapsto> x) \<and> props m' = props m"
    using m' by (auto simp: hm_ok_def)
  then show ?thesis using m'(1) v(1) v1 by (simp add: Let_def)
qed

text \<open>Replacement of the value of an entry.\<close>

lemma set_value_spec:
  assumes ok: "hm_ok m" and hit: "tab_find m k = Some e"
  shows "yields (do { v \<leftarrow> vec_set_at (vals m) (val_idx e) [Some x]; Some (m\<lparr>vals := v\<rparr>) })
    (\<lambda>m'. hm_ok m' \<and> hm_map m' = (hm_map m)(k \<mapsto> x) \<and> props m' = props m)"
proof -
  have vo: "vals_ok m" and tab: "tab_ok m" using ok by (auto simp: hm_ok_def)
  have dist: "distinct (map (ekey m) (occ m))" using tab by (simp add: tab_ok_def tab_core_def)
  have eo: "e \<in> set (occ m)" using tab_find_some [OF hit] by simp
  then have lt: "val_idx e < vsize (vals m)" using vo unfolding vals_ok_def by blast
  have vk: "vec_ok (vals m)" using vo by (simp add: vals_ok_def)
  obtain v where v: "vec_set_at (vals m) (val_idx e) [Some x] = Some v" "vec_ok v"
      "vec_list v = take (val_idx e) (vec_list (vals m)) @ [Some x] @
        drop (val_idx e + 1) (vec_list (vals m))"
    using vec_set_at_list [OF vk, of "val_idx e" "[Some x]"] lt by (auto simp: yields_exists)
  have len: "length (vec_list (vals m)) = vsize (vals m)" using vec_list_length [OF vk] .
  have upd: "vec_list v = (vec_list (vals m))[val_idx e := Some x]"
    using v(3) lt len by (simp add: upd_conv_take_nth_drop)
  have size: "vsize v = vsize (vals m)" using vec_list_length [OF v(2)] upd len by simp
  have "vals_ok (m\<lparr>vals := v\<rparr>)"
    using vo v(2) size upd by (auto simp: vals_ok_def dest!: subsetD [OF set_update_subset_insert])
  moreover have "hm_map (m\<lparr>vals := v\<rparr>) k' = ((hm_map m)(k \<mapsto> x)) k'" for k'
  proof (cases "k' = k")
    case True
    then show ?thesis using hit upd lt len by (simp add: hm_map_def)
  next
    case False
    have "val_idx e' \<noteq> val_idx e" if e': "tab_find m k' = Some e'" for e'
    proof
      assume "val_idx e' = val_idx e"
      then have "e' = e" using tab_find_some [OF e'] eo vo by (auto simp: vals_ok_def inj_on_def)
      then have "map Some k' = map Some k" using tab_find_some [OF e'] tab_find_some [OF hit] by simp
      then have "k' = k" by (rule map_injective) simp
      then show False using False by simp
    qed
    then show ?thesis using False upd by (auto simp: hm_map_def split: option.splits)
  qed
  ultimately show ?thesis using v(1) tab by (auto simp: hm_ok_def)
qed

lemma hashmap_nset_spec:
  assumes "hm_ok m"
  shows "yields (hashmap_nset m key x) (\<lambda>m'. hm_ok m' \<and>
    hm_map m' = (hm_map m)(norm_key (props m) key \<mapsto> x) \<and> props m' = props m)"
proof -
  let ?k = "norm_key (props m) key"
  obtain i n h m1 where g: "get_entry m key = Some (i, n, h, m1)" and fd: "found m ?k (i, n, h, m1)"
    by (rule found_get [of m key]) (use assms in \<open>simp add: hm_ok_def\<close>)
  note same = found_same [OF fd] and m1 = found_ok [OF assms fd]
  show ?thesis
  proof (cases "tab_find m ?k")
    case None
    then show ?thesis
      using push_value_spec [OF assms fd _ refl, of x] g same by (simp add: hashmap_nset_def Let_def)
  next
    case (Some e)
    then have "tab_find m1 ?k = Some e" using same by simp
    from set_value_spec [OF _ this, of x] show ?thesis
      using Some g same m1 by (simp add: hashmap_nset_def Let_def)
  qed
qed

lemma hashmap_nget_spec:
  assumes "hm_ok m"
  shows "yields (hashmap_nget m key) (\<lambda>(r, m'). hm_ok m' \<and> hm_map m' = hm_map m \<and> props m' = props m \<and>
    (case r of
       None \<Rightarrow> hm_map m (norm_key (props m) key) = None
     | Some i \<Rightarrow> \<exists>x. vec_at (vals m') i = Some (Some x) \<and> hm_map m (norm_key (props m) key) = Some x))"
proof -
  let ?k = "norm_key (props m) key"
  obtain i n h m1 where g: "get_entry m key = Some (i, n, h, m1)" and fd: "found m ?k (i, n, h, m1)"
    by (rule found_get [of m key]) (use assms in \<open>simp add: hm_ok_def\<close>)
  note same = found_same [OF fd] and m1 = found_ok [OF assms fd]
  show ?thesis
  proof (cases "tab_find m ?k")
    case None
    then show ?thesis using g same m1 by (simp add: hashmap_nget_def hm_map_def)
  next
    case (Some e)
    have vo: "vals_ok m" using assms by (simp add: hm_ok_def)
    have lt: "val_idx e < vsize (vals m)" using tab_find_some [OF Some] vo unfolding vals_ok_def by blast
    then have "vec_list (vals m) ! val_idx e \<in> set (vec_list (vals m))"
      using vo vec_list_length [of "vals m"] by (simp add: vals_ok_def)
    then obtain x where "vec_list (vals m) ! val_idx e = Some x" using vo by (auto simp: vals_ok_def)
    then show ?thesis
      using Some g same m1 lt vo vec_at_list [of "vals m" "val_idx e"]
      by (simp add: hashmap_nget_def hm_map_def vals_ok_def)
  qed
qed

text \<open>Construction and clearing give the empty map.\<close>

lemma tab_fresh:
  "tab_ok \<lparr>vals = v, entries = replicate (2 ^ k) None, limit = 2 ^ k, keybuf = replicate (2 ^ k) None,
     keybuf_head = 0, props = ps\<rparr>"
  by (simp add: tab_ok_def tab_core_def over_full_def chained_def)

lemma tab_find_no_entries: "occ m = [] \<Longrightarrow> tab_find m = Map.empty"
  by (simp add: tab_find_def fun_eq_iff)

lemma tab_clear:
  "tab_ok m \<Longrightarrow> tab_ok (m\<lparr>vals := v, keybuf_head := 0, entries := replicate (limit m) None\<rparr>)"
  by (simp add: tab_ok_def tab_core_def over_full_def chained_def)

lemma hashmap_construct_spec:
  "hm_ok (hashmap_construct lim ps :: 'v vec hashtab)" "hm_map (hashmap_construct lim ps :: 'v vec hashtab) = Map.empty"
  "props (hashmap_construct lim ps :: 'v vec hashtab) = ps"
proof -
  obtain k where k: "next_power_of_2 lim = 2 ^ k" using next_power_of_2_power by blast
  let ?v = "vec_reserve vec_construct (lim div 2) :: 'v vec"
  have v: "vec_ok ?v" "vsize ?v = 0" "vec_list ?v = []"
    using vec_reserve_ok(1,2) [OF vec_ok_construct [where 'a = 'v], of "lim div 2"]
    by (simp_all add: vec_list_def vec_construct_size)
  let ?m = "hashmap_construct lim ps :: 'v vec hashtab"
  have m: "?m = \<lparr>vals = ?v, entries = replicate (2 ^ k) None, limit = 2 ^ k,
      keybuf = replicate (2 ^ k) None, keybuf_head = 0, props = ps\<rparr>"
    by (simp add: hashmap_construct_def k Let_def)
  show "hm_ok ?m" using v unfolding m hm_ok_def by (simp add: tab_fresh vals_ok_def)
  show "hm_map ?m = Map.empty" by (simp add: m hm_map_def tab_find_no_entries fun_eq_iff)
  show "props ?m = ps" by (simp add: m)
qed

lemma hashmap_clear_spec:
  "hm_ok m \<Longrightarrow> hm_ok (hashmap_clear m) \<and> hm_map (hashmap_clear m) = Map.empty \<and>
     props (hashmap_clear m) = props m"
  using vec_clear_list [of "vals m"] vec_list_length [of "vec_clear (vals m)"]
  by (auto simp: hm_ok_def vals_ok_def hashmap_clear_def tab_clear hm_map_def tab_find_no_entries)

interpretation hm: keyed_store "\<lambda>m. hm_ok m \<and> props m = ps" hm_map "norm_key ps" "\<lambda>_ x. x" hashmap_nset
  for ps
proof unfold_locales
  fix m :: "'v vec hashtab" and key x
  assume "hm_ok m \<and> props m = ps"
  then show "yields (hashmap_nset m key x) (\<lambda>m'. (hm_ok m' \<and> props m' = ps) \<and>
      hm_map m' = (hm_map m)(norm_key ps key \<mapsto> x))"
    using hashmap_nset_spec [of m key x] by (auto elim!: yields_mono)
qed

section \<open>Sets\<close>

text \<open>The counter of a set may exceed the number of elements: \<open>set_clear\<close> does not reset it.\<close>

definition set_ok :: "nat hashtab \<Rightarrow> bool" where
  "set_ok m \<longleftrightarrow> tab_ok m \<and> length (occ m) \<le> vals m"

definition set_elem :: "nat hashtab \<Rightarrow> string \<Rightarrow> unit option" where
  "set_elem m k = map_option (\<lambda>_. ()) (tab_find m k)"

lemma set_nadd_spec:
  assumes "set_ok m"
  shows "yields (set_nadd m key) (\<lambda>m'. set_ok m' \<and>
    set_elem m' = (set_elem m)(norm_key (props m) key \<mapsto> ()) \<and> props m' = props m)"
proof -
  let ?k = "norm_key (props m) key"
  have tab: "tab_ok m" and cnt: "length (occ m) \<le> vals m" using assms by (auto simp: set_ok_def)
  obtain i n h m1 where g: "get_entry m key = Some (i, n, h, m1)" and fd: "found m ?k (i, n, h, m1)"
    by (rule found_get [OF tab])
  note same = found_same [OF fd]
  show ?thesis
  proof (cases "tab_find m ?k")
    case None
    let ?e = "\<lparr>ehash = h, val_idx = 0, key_idx = keybuf_head m1, key_len = n\<rparr>"
    have less: "length (occ m) < vals m + 1" using cnt by simp
    have none: "entries m ! i = None" using None same by simp
    obtain m' where m': "(let m3 = (put_entry m1 i ?e n)\<lparr>vals := vals m + 1\<rparr>
          in if over_full (vals m + 1) (limit m3) then increase_size m3 else Some m3) = Some m'"
        "tab_ok m'" "tab_find m' = (tab_find m)(?k \<mapsto> ?e)" "length (occ m') = Suc (length (occ m))"
        "vals m' = vals m + 1" "props m' = props m"
      using grown_spec [OF fd tab none _ _ _ less, of ?e "vals m + 1"] by (auto simp: yields_exists)
    have "vals (put_entry m1 i ?e n) = vals m" using same by (simp add: put_entry_def)
    then have "set_nadd m key = Some m'"
      using g none same m'(1) by (simp add: set_nadd_def Let_def split: if_splits)
    then show ?thesis using m' cnt by (auto simp: set_ok_def set_elem_def fun_eq_iff)
  next
    case (Some e)
    then have "set_nadd m key = Some m1" using g same by (simp add: set_nadd_def)
    then show ?thesis using same cnt Some by (auto simp: set_ok_def set_elem_def fun_eq_iff)
  qed
qed

lemma set_nhas_spec:
  assumes "set_ok m"
  shows "yields (set_nhas m key) (\<lambda>(b, m'). set_ok m' \<and> set_elem m' = set_elem m \<and>
    props m' = props m \<and> b = (set_elem m (norm_key (props m) key) \<noteq> None))"
proof -
  have tab: "tab_ok m" using assms by (auto simp: set_ok_def)
  obtain i n h m1 where g: "get_entry m key = Some (i, n, h, m1)"
      and fd: "found m (norm_key (props m) key) (i, n, h, m1)"
    by (rule found_get [OF tab])
  then show ?thesis
    using found_same [OF fd] assms by (simp add: set_nhas_def set_ok_def set_elem_def fun_eq_iff)
qed

lemma set_construct_spec:
  "set_ok (set_construct lim ps)" "set_elem (set_construct lim ps) = Map.empty"
  "props (set_construct lim ps) = ps"
proof -
  obtain k where k: "next_power_of_2 lim = 2 ^ k" using next_power_of_2_power by blast
  show "set_ok (set_construct lim ps)" "set_elem (set_construct lim ps) = Map.empty"
    "props (set_construct lim ps) = ps"
    by (simp_all add: set_ok_def set_elem_def set_construct_def k Let_def tab_fresh
      tab_find_no_entries fun_eq_iff)
qed

lemma set_clear_spec:
  "set_ok m \<Longrightarrow> set_ok (set_clear m) \<and> set_elem (set_clear m) = Map.empty \<and> vals (set_clear m) = vals m"
  using tab_clear [of m "vals m"]
  by (simp add: set_ok_def set_elem_def set_clear_def tab_find_no_entries fun_eq_iff)

interpretation hs: keyed_store "\<lambda>m. set_ok m \<and> props m = ps" set_elem "norm_key ps" "\<lambda>_ _. ()"
  "\<lambda>m key (_ :: unit). set_nadd m key" for ps
proof unfold_locales
  fix m key
  assume "set_ok m \<and> props m = ps"
  then show "yields (set_nadd m key) (\<lambda>m'. (set_ok m' \<and> props m' = ps) \<and>
      set_elem m' = (set_elem m)(norm_key ps key \<mapsto> ()))"
    using set_nadd_spec [of m key] by (auto elim!: yields_mono)
qed

section \<open>Multimaps\<close>

definition mm_ok :: "'v vec vec hashtab \<Rightarrow> bool" where
  "mm_ok m \<longleftrightarrow> hm_ok m \<and> (\<forall>k v. hm_map m k = Some v \<longrightarrow> vec_ok v)"

definition mm_map :: "'v vec vec hashtab \<Rightarrow> string \<Rightarrow> 'v option list option" where
  "mm_map m k = map_option vec_list (hm_map m k)"

definition mm_add :: "'a list option \<Rightarrow> 'a \<Rightarrow> 'a list" where
  "mm_add r x = (case r of None \<Rightarrow> [x] | Some xs \<Rightarrow> xs @ [x])"

lemma multimap_nset_spec:
  assumes "mm_ok m"
  shows "yields (multimap_nset m key x) (\<lambda>m'. mm_ok m' \<and> props m' = props m \<and>
    mm_map m' = (mm_map m)(norm_key (props m) key \<mapsto> mm_add (mm_map m (norm_key (props m) key)) (Some x)))"
proof -
  let ?k = "norm_key (props m) key"
  have hm: "hm_ok m" using assms by (simp add: mm_ok_def)
  obtain i n h m1 where g: "get_entry m key = Some (i, n, h, m1)" and fd: "found m ?k (i, n, h, m1)"
    by (rule found_get [of m key]) (use hm in \<open>simp add: hm_ok_def\<close>)
  note same = found_same [OF fd] and m1 = found_ok [OF hm fd]
  have fin: "yields r (\<lambda>m'. mm_ok m' \<and> props m' = props m \<and>
      mm_map m' = (mm_map m)(?k \<mapsto> mm_add (mm_map m ?k) (Some x)))"
    if r: "yields r (\<lambda>m'. hm_ok m' \<and> hm_map m' = (hm_map m)(?k \<mapsto> w) \<and> props m' = props m)"
      and w: "vec_ok w" "vec_list w = mm_add (mm_map m ?k) (Some x)" for r w
  proof (rule yields_mono [OF r], elim conjE, intro conjI)
    fix m' assume m': "hm_ok m'" "hm_map m' = (hm_map m)(?k \<mapsto> w)"
    show "mm_ok m'" using assms w(1) m' by (auto simp: mm_ok_def)
    show "mm_map m' = (mm_map m)(?k \<mapsto> mm_add (mm_map m ?k) (Some x))"
      using w(2) m' by (simp add: mm_map_def fun_eq_iff)
  qed
  show ?thesis
  proof (cases "tab_find m ?k")
    case None
    obtain w where w: "vec_push_back vec_construct (Some x) = Some w" "vec_ok w" "vec_list w = [Some x]"
      using vec_push_back_list [OF vec_ok_construct, of "Some x"] by (auto simp: yields_exists)
    have "mm_map m ?k = None" using None by (simp add: mm_map_def hm_map_def)
    then have wl: "vec_list w = mm_add (mm_map m ?k) (Some x)" using w by (simp add: mm_add_def)
    show ?thesis
      using fin [OF push_value_spec [OF hm fd _ refl, of w] w(2) wl] None g same w(1)
      by (simp add: multimap_nset_def Let_def)
  next
    case (Some e)
    have vo: "vals_ok m" using hm by (simp add: hm_ok_def)
    have lt: "val_idx e < vsize (vals m)" using tab_find_some [OF Some] vo unfolding vals_ok_def by blast
    have vk: "vec_ok (vals m)" using vo by (simp add: vals_ok_def)
    have "vec_list (vals m) ! val_idx e \<in> set (vec_list (vals m))"
      using lt vec_list_length [OF vk] by simp
    then obtain ev where ev: "vec_list (vals m) ! val_idx e = Some ev"
      using vo by (auto simp: vals_ok_def)
    then have hmk: "hm_map m ?k = Some ev" using Some by (simp add: hm_map_def)
    then have "vec_ok ev" using assms by (auto simp: mm_ok_def)
    then obtain w where w: "vec_push_back ev (Some x) = Some w" "vec_ok w"
        "vec_list w = vec_list ev @ [Some x]"
      using vec_push_back_list [of ev "Some x"] by (auto simp: yields_exists)
    have wl: "vec_list w = mm_add (mm_map m ?k) (Some x)"
      using w hmk by (simp add: mm_map_def mm_add_def)
    have S1: "tab_find m1 ?k = Some e" using Some same by simp
    have r: "yields (do { v \<leftarrow> vec_set_at (vals m1) (val_idx e) [Some w]; Some (m1\<lparr>vals := v\<rparr>) })
        (\<lambda>m'. hm_ok m' \<and> hm_map m' = (hm_map m)(?k \<mapsto> w) \<and> props m' = props m)"
      using set_value_spec [OF _ S1, of w] m1 same by simp
    show ?thesis
      using fin [OF r w(2) wl] Some g same w(1) ev vec_at_list [OF vk lt]
      by (simp add: multimap_nset_def)
  qed
qed

lemma multimap_clear_spec:
  "mm_ok m \<Longrightarrow> mm_ok (multimap_clear m) \<and> mm_map (multimap_clear m) = Map.empty"
  using hashmap_clear_spec [of m]
  by (auto simp: mm_ok_def mm_map_def multimap_clear_def hashmap_clear_def fun_eq_iff)

interpretation mm: keyed_store "\<lambda>m. mm_ok m \<and> props m = ps" mm_map "norm_key ps"
  "\<lambda>r x. mm_add r (Some x)" multimap_nset for ps
proof unfold_locales
  fix m :: "'v vec vec hashtab" and key x
  assume "mm_ok m \<and> props m = ps"
  then show "yields (multimap_nset m key x) (\<lambda>m'. (mm_ok m' \<and> props m' = ps) \<and>
      mm_map m' = (mm_map m)(norm_key ps key \<mapsto> mm_add (mm_map m (norm_key ps key)) (Some x)))"
    using multimap_nset_spec [of m key x] by (auto elim!: yields_mono)
qed


section \<open>Histories\<close>

lemma fold_last: "fold (\<lambda>x r. Some x) xs None = (if xs = [] then None else Some (last xs))"
  by (induction xs rule: rev_induct) auto

lemma fold_append_values:
  "fold (\<lambda>x r. Some (mm_add r (Some x))) xs (Some ys) = Some (ys @ map Some xs)"
  by (induction xs arbitrary: ys) (auto simp: mm_add_def)

lemma fold_collect:
  "fold (\<lambda>x r. Some (mm_add r (Some x))) xs None = (if xs = [] then None else Some (map Some xs))"
  using fold_append_values [of _ "[_]"] by (cases xs) (simp_all add: mm_add_def [of None])

lemma fold_unit: "fold (\<lambda>_ r. Some ()) xs None = (if xs = [] then None else Some ())"
  by (induction xs rule: rev_induct) auto

lemma yields_bind_all:
  "yields r P \<Longrightarrow> (\<And>a. P a \<Longrightarrow> yields (f a) Q) \<Longrightarrow> yields (r \<bind> f) Q"
  by (cases r) auto

text \<open>What a lookup finds after any history of a multimap.\<close>

lemma multimap_lookup:
  "yields (put_all multimap_nset (multimap_construct lim ps) kvs \<bind> (\<lambda>m. hashmap_nget m key))
    (\<lambda>(r, m'). let u = under (norm_key ps) (norm_key ps key) kvs in
      case r of
        None \<Rightarrow> u = []
      | Some i \<Rightarrow> u \<noteq> [] \<and> (\<exists>w. vec_at (vals m') i = Some (Some w) \<and> vec_list w = map Some u))"
proof -
  let ?m0 = "multimap_construct lim ps :: 'a vec vec hashtab"
  let ?u = "under (norm_key ps) (norm_key ps key) kvs"
  note c = hashmap_construct_spec [of lim ps, where 'v = "'a vec"]
  have ok: "mm_ok ?m0 \<and> props ?m0 = ps" and empty: "mm_map ?m0 = Map.empty"
    using c by (simp_all add: mm_ok_def multimap_construct_def mm_map_def fun_eq_iff)
  show ?thesis
  proof (rule yields_bind_all [OF mm.put_all_content [OF ok, of kvs]])
    fix m :: "'a vec vec hashtab"
    assume m: "(mm_ok m \<and> props m = ps) \<and> (\<forall>k. mm_map m k =
      fold (\<lambda>x r. Some (mm_add r (Some x))) (under (norm_key ps) k kvs) (mm_map ?m0 k))"
    then have ok: "hm_ok m" "props m = ps"
      and mf: "map_option vec_list (hm_map m (norm_key ps key)) = (if ?u = [] then None else Some (map Some ?u))"
      by (simp_all add: empty fold_collect mm_ok_def flip: mm_map_def)
    show "yields (hashmap_nget m key) (\<lambda>(r, m'). let u = ?u in case r of None \<Rightarrow> u = []
        | Some i \<Rightarrow> u \<noteq> [] \<and> (\<exists>w. vec_at (vals m') i = Some (Some w) \<and> vec_list w = map Some u))"
      using hashmap_nget_spec [OF ok(1), of key] mf unfolding ok(2)
      by (auto elim!: yields_mono simp: Let_def split: option.splits if_splits)
  qed
qed

end
