(* ===== verification/Store.thy ===== *)
theory Store
  imports Function Like RowRecord Logicgroup HashmapMaps
begin

text \<open>
  The data an evaluation runs over: expressions, the predicates of conditions and the row
  counters of processes, each addressed by its index. C pointers between them are these
  indices, \<open>None\<close> the NULL pointer. The \<open>union field\<close> of an expression holds its value when
  it is a constant (\<open>e_field\<close>, whose string is the expression's own \<open>buf\<close>) and a pointer to
  a function, a CASE or an aggregate otherwise; these three are fields of their own.
\<close>

section \<open>Expressions\<close>

text \<open>\<open>sc_test_exprs\<close> is the vector \<open>expressions\<close> of each test of a CASE.\<close>

datatype expr_type =
    EXPR_UNDEFINED | EXPR_COLUMN_NAME | EXPR_SWITCH_CASE | EXPR_ROW_NUMBER | EXPR_FULL_RECORD
  | EXPR_REFERENCE | EXPR_VARIABLE | EXPR_GROUPING | EXPR_CONST | EXPR_NULL | EXPR_ASTERISK
  | EXPR_FUNCTION | EXPR_AGGREGATE | EXPR_SUBQUERY

datatype switch_state = SWITCH_STATIC | SWITCH_STATIC_CMP | SWITCH_LOGIC_GROUP | SWITCH_VALUE

record switchcase =
  sc_tests :: "logicgroup list"
  sc_test_exprs :: "nat list list"
  sc_values :: "nat list"
  static_expr :: "nat option"
  sc_state :: switch_state

record 'f expression =
  expr :: expr_type
  data_source :: "nat option"
  e_subquery :: "nat option"
  rownum_ref :: "nat option"
  e_name :: string
  e_alias :: string
  table_name :: string
  e_type :: field_type
  e_field :: "'f field"
  e_fn :: "scalar_fn option"
  e_sc :: "switchcase option"
  e_agg :: "nat option"
  e_index :: nat
  e_location :: nat
  e_width :: nat
  e_src_idx :: int
  subquery_src_idx :: int
  descending :: bool
  is_passthrough :: bool

section \<open>Predicates\<close>

text \<open>\<open>in_subquery\<close> lists the expressions that the schema of the subquery selects.\<close>

record inlist =
  in_expressions :: "nat list option"
  in_subquery :: "nat list option"
  list_data :: "nat hashtab option"

datatype logic_fn =
    Logic_eq_i | Logic_eq_f | Logic_eq_s | Logic_ne_i | Logic_ne_f | Logic_ne_s
  | Logic_gt_i | Logic_gt_f | Logic_gt_s | Logic_ge_i | Logic_ge_f | Logic_ge_s
  | Logic_lt_i | Logic_lt_f | Logic_lt_s | Logic_le_i | Logic_le_f | Logic_le_s
  | Logic_in_i | Logic_in_f | Logic_in_s | Logic_subin_i | Logic_subin_f | Logic_subin_s
  | Logic_like | Logic_is_null

record 're logic =
  lexpr0 :: "nat option"
  lexpr1 :: "nat option"
  like_data :: "'re like option"
  in_data :: "inlist option"
  logic_call :: "logic_fn option"
  data_type :: field_type
  comp_type :: comparison

section \<open>The store\<close>

record ('f, 're) store =
  exprs :: "'f expression list"
  logics :: "'re logic list"
  rownums :: "u32 list"

text \<open>
  What is not in the source: the arithmetic of \<open>double\<close> and the regular expressions of PCRE2
  (\<open>pcre2_compile\<close>, \<open>None\<close> when it fails, and whether \<open>pcre2_match\<close> finds a match).
\<close>

record ('f, 're) ext =
  x_flt :: "'f flt"
  x_compile :: "string \<Rightarrow> 're option"
  x_match :: "'re \<Rightarrow> string \<Rightarrow> bool"

type_synonym ('f, 're, 'a) sact = "(('f, 're) store, 'a) act"
type_synonym ('f, 're) sget = "(('f, 're) store, 'f) getters"

definition with_expr :: "nat \<Rightarrow> ('f expression \<Rightarrow> ('f, 're, 'a) sact) \<Rightarrow> ('f, 're, 'a) sact" where
  "with_expr i k s = (if i < length (exprs s) then k (exprs s ! i) s else (Crash, s))"

definition with_logic :: "nat \<Rightarrow> ('re logic \<Rightarrow> ('f, 're, 'a) sact) \<Rightarrow> ('f, 're, 'a) sact" where
  "with_logic i k s = (if i < length (logics s) then k (logics s ! i) s else (Crash, s))"

definition at_ptr :: "'p option \<Rightarrow> ('p \<Rightarrow> ('s, 'a) act) \<Rightarrow> ('s, 'a) act" where
  "at_ptr p k = (case p of None \<Rightarrow> outA Crash | Some a \<Rightarrow> k a)"

definition set_expr :: "nat \<Rightarrow> 'f expression \<Rightarrow> ('f, 're) store \<Rightarrow> ('f, 're) store" where
  "set_expr i e s = s\<lparr>exprs := (exprs s)[i := e]\<rparr>"

definition set_logic :: "nat \<Rightarrow> 're logic \<Rightarrow> ('f, 're) store \<Rightarrow> ('f, 're) store" where
  "set_logic i l s = s\<lparr>logics := (logics s)[i := l]\<rparr>"

section \<open>What an evaluation leaves alone\<close>

text \<open>
  Evaluation caches conversions of constants, regular expressions and the key buffers of
  IN lists. Everything that decides which expression is evaluated next is the skeleton.
\<close>

definition expr_shape :: "'f expression \<Rightarrow> 'f expression" where
  "expr_shape e = e\<lparr>e_type := (if expr e = EXPR_CONST then FIELD_UNDEFINED else e_type e), e_field := UInt 0\<rparr>"

definition logic_shape :: "'re logic \<Rightarrow> 're logic" where
  "logic_shape l = l\<lparr>like_data := None, in_data := map_option (\<lambda>d. d\<lparr>list_data := None\<rparr>) (in_data l)\<rparr>"

definition same_shape :: "('f, 're) store \<Rightarrow> ('f, 're) store \<Rightarrow> bool" where
  "same_shape s t \<longleftrightarrow> map expr_shape (exprs t) = map expr_shape (exprs s) \<and>
     map logic_shape (logics t) = map logic_shape (logics s) \<and> rownums t = rownums s"

lemma same_shape_refl [simp]: "same_shape s s"
  by (simp add: same_shape_def)

lemma same_shape_trans: "same_shape s t \<Longrightarrow> same_shape t u \<Longrightarrow> same_shape s u"
  by (simp add: same_shape_def)

lemma same_shape_length: "same_shape s t \<Longrightarrow> length (exprs t) = length (exprs s) \<and> length (logics t) = length (logics s)"
  unfolding same_shape_def by (metis length_map)

lemma same_shape_expr:
  assumes "same_shape s t" "i < length (exprs s)"
  shows "expr_shape (exprs t ! i) = expr_shape (exprs s ! i)"
  using assms same_shape_length [OF assms(1)] unfolding same_shape_def by (metis nth_map)

lemma same_shape_logic:
  assumes "same_shape s t" "i < length (logics s)"
  shows "logic_shape (logics t ! i) = logic_shape (logics s ! i)"
  using assms same_shape_length [OF assms(1)] unfolding same_shape_def by (metis nth_map)

lemma map_update_same: "f y = f (xs ! i) \<Longrightarrow> map f (xs[i := y]) = map f xs"
  by (metis list_update_id map_update)

lemma same_shape_set_expr:
  assumes "same_shape s t" "i < length (exprs t)" "expr_shape e = expr_shape (exprs t ! i)"
  shows "same_shape s (set_expr i e t)"
  using assms map_update_same [of expr_shape e "exprs t" i] by (simp add: same_shape_def set_expr_def)

lemma same_shape_set_logic:
  assumes "same_shape s t" "i < length (logics t)" "logic_shape l = logic_shape (logics t ! i)"
  shows "same_shape s (set_logic i l t)"
  using assms map_update_same [of logic_shape l "logics t" i] by (simp add: same_shape_def set_logic_def)

lemma expr_shape_eq:
  assumes "expr_shape e = expr_shape e'"
  shows "expr e = expr e'" "data_source e = data_source e'" "rownum_ref e = rownum_ref e'"
    "e_fn e = e_fn e'" "e_sc e = e_sc e'" "e_index e = e_index e'" "e_src_idx e = e_src_idx e'"
    "subquery_src_idx e = subquery_src_idx e'" "expr e \<noteq> EXPR_CONST \<Longrightarrow> e_type e = e_type e'"
proof -
  note f = arg_cong [OF assms, of expr] arg_cong [OF assms, of data_source] arg_cong [OF assms, of rownum_ref]
    arg_cong [OF assms, of e_fn] arg_cong [OF assms, of e_sc] arg_cong [OF assms, of e_index]
    arg_cong [OF assms, of e_src_idx] arg_cong [OF assms, of subquery_src_idx] arg_cong [OF assms, of e_type]
  show "expr e = expr e'" "data_source e = data_source e'" "rownum_ref e = rownum_ref e'"
    "e_fn e = e_fn e'" "e_sc e = e_sc e'" "e_index e = e_index e'" "e_src_idx e = e_src_idx e'"
    "subquery_src_idx e = subquery_src_idx e'"
    using f by (simp_all add: expr_shape_def)
  then show "expr e \<noteq> EXPR_CONST \<Longrightarrow> e_type e = e_type e'" using f(9) by (simp add: expr_shape_def)
qed

lemma logic_shape_eq:
  assumes "logic_shape l = logic_shape l'"
  shows "lexpr0 l = lexpr0 l'" "lexpr1 l = lexpr1 l'" "logic_call l = logic_call l'"
    "map_option in_expressions (in_data l) = map_option in_expressions (in_data l')"
proof -
  note f = arg_cong [OF assms, of lexpr0] arg_cong [OF assms, of lexpr1] arg_cong [OF assms, of logic_call]
    arg_cong [OF assms, of in_data]
  show "lexpr0 l = lexpr0 l'" "lexpr1 l = lexpr1 l'" "logic_call l = logic_call l'"
    using f by (simp_all add: logic_shape_def)
  have "map_option (\<lambda>d. d\<lparr>list_data := None\<rparr>) (in_data l) = map_option (\<lambda>d. d\<lparr>list_data := None\<rparr>) (in_data l')"
    using f(4) by (simp add: logic_shape_def)
  then have "map_option in_expressions (map_option (\<lambda>d. d\<lparr>list_data := None\<rparr>) (in_data l)) =
      map_option in_expressions (map_option (\<lambda>d. d\<lparr>list_data := None\<rparr>) (in_data l'))" by simp
  then show "map_option in_expressions (in_data l) = map_option in_expressions (in_data l')"
    by (simp add: option.map_comp comp_def)
qed

end
