(* ===== verification/Logic.thy ===== *)
theory Logic
  imports Store
begin

text \<open>
  The predicates of conditions (lib/fqllogic.c), their construction (lib/logic.c, lib/inlist.c)
  and the choice of a CASE (lib/switchcase.c). Operands are read through the accessors \<open>G\<close>,
  which Expression closes. A comparison with NULL is false.
\<close>

section \<open>Comparisons\<close>

text \<open>\<open>try_logic_deref_\<close>: failure ends the predicate, NULL makes it false.\<close>

definition logic_deref :: "('s, 'a) act \<Rightarrow> ('a \<Rightarrow> ('s, bool) act) \<Rightarrow> ('s, bool) act" where
  "logic_deref m k s = (case m s of
     (Good a, s') \<Rightarrow> k a s'
   | (Null _, s') \<Rightarrow> (Good False, s')
   | (Fail, s') \<Rightarrow> (Fail, s')
   | (Crash, s') \<Rightarrow> (Crash, s'))"

definition get_integers :: "('f, 're) sget \<Rightarrow> 're logic \<Rightarrow> (i64 \<Rightarrow> i64 \<Rightarrow> bool) \<Rightarrow> ('f, 're, bool) sact" where
  "get_integers G l f =
     logic_deref (at_ptr (lexpr0 l) (get_int G)) (\<lambda>n0.
     logic_deref (at_ptr (lexpr1 l) (get_int G)) (\<lambda>n1. outA (Good (f n0 n1))))"

definition get_floats :: "('f, 're) sget \<Rightarrow> 're logic \<Rightarrow> ('f \<Rightarrow> 'f \<Rightarrow> bool) \<Rightarrow> ('f, 're, bool) sact" where
  "get_floats G l f =
     logic_deref (at_ptr (lexpr0 l) (get_float G)) (\<lambda>n0.
     logic_deref (at_ptr (lexpr1 l) (get_float G)) (\<lambda>n1. outA (Good (f n0 n1))))"

definition get_stringviews :: "('f, 're) sget \<Rightarrow> 're logic \<Rightarrow> (int \<Rightarrow> bool) \<Rightarrow> ('f, 're, bool) sact" where
  "get_stringviews G l f =
     logic_deref (at_ptr (lexpr0 l) (get_stringview G)) (\<lambda>sv0.
     logic_deref (at_ptr (lexpr1 l) (get_stringview G)) (\<lambda>sv1.
       outA (Good (f (stringview_compare_nocase_rtrim (sv_text sv0) (sv_text sv1))))))"

definition fql_logic_eq_i :: "('f, 're) sget \<Rightarrow> 're logic \<Rightarrow> ('f, 're, bool) sact" where
  "fql_logic_eq_i G l = get_integers G l (\<lambda>n0 n1. n0 = n1)"

definition fql_logic_eq_f :: "'f flt \<Rightarrow> ('f, 're) sget \<Rightarrow> 're logic \<Rightarrow> ('f, 're, bool) sact" where
  "fql_logic_eq_f fo G l = get_floats G l (f_eq fo)"

definition fql_logic_eq_s :: "('f, 're) sget \<Rightarrow> 're logic \<Rightarrow> ('f, 're, bool) sact" where
  "fql_logic_eq_s G l = get_stringviews G l (\<lambda>c. c = 0)"

definition fql_logic_ne_i :: "('f, 're) sget \<Rightarrow> 're logic \<Rightarrow> ('f, 're, bool) sact" where
  "fql_logic_ne_i G l = get_integers G l (\<lambda>n0 n1. n0 \<noteq> n1)"

definition fql_logic_ne_f :: "'f flt \<Rightarrow> ('f, 're) sget \<Rightarrow> 're logic \<Rightarrow> ('f, 're, bool) sact" where
  "fql_logic_ne_f fo G l = get_floats G l (\<lambda>n0 n1. \<not> f_eq fo n0 n1)"

definition fql_logic_ne_s :: "('f, 're) sget \<Rightarrow> 're logic \<Rightarrow> ('f, 're, bool) sact" where
  "fql_logic_ne_s G l = get_stringviews G l (\<lambda>c. c \<noteq> 0)"

definition fql_logic_gt_i :: "('f, 're) sget \<Rightarrow> 're logic \<Rightarrow> ('f, 're, bool) sact" where
  "fql_logic_gt_i G l = get_integers G l (\<lambda>n0 n1. sint n0 > sint n1)"

definition fql_logic_gt_f :: "'f flt \<Rightarrow> ('f, 're) sget \<Rightarrow> 're logic \<Rightarrow> ('f, 're, bool) sact" where
  "fql_logic_gt_f fo G l = get_floats G l (\<lambda>n0 n1. f_lt fo n1 n0)"

definition fql_logic_gt_s :: "('f, 're) sget \<Rightarrow> 're logic \<Rightarrow> ('f, 're, bool) sact" where
  "fql_logic_gt_s G l = get_stringviews G l (\<lambda>c. c > 0)"

definition fql_logic_ge_i :: "('f, 're) sget \<Rightarrow> 're logic \<Rightarrow> ('f, 're, bool) sact" where
  "fql_logic_ge_i G l = get_integers G l (\<lambda>n0 n1. sint n0 \<ge> sint n1)"

definition fql_logic_ge_f :: "'f flt \<Rightarrow> ('f, 're) sget \<Rightarrow> 're logic \<Rightarrow> ('f, 're, bool) sact" where
  "fql_logic_ge_f fo G l = get_floats G l (\<lambda>n0 n1. f_le fo n1 n0)"

definition fql_logic_ge_s :: "('f, 're) sget \<Rightarrow> 're logic \<Rightarrow> ('f, 're, bool) sact" where
  "fql_logic_ge_s G l = get_stringviews G l (\<lambda>c. c \<ge> 0)"

definition fql_logic_lt_i :: "('f, 're) sget \<Rightarrow> 're logic \<Rightarrow> ('f, 're, bool) sact" where
  "fql_logic_lt_i G l = get_integers G l (\<lambda>n0 n1. sint n0 < sint n1)"

definition fql_logic_lt_f :: "'f flt \<Rightarrow> ('f, 're) sget \<Rightarrow> 're logic \<Rightarrow> ('f, 're, bool) sact" where
  "fql_logic_lt_f fo G l = get_floats G l (f_lt fo)"

definition fql_logic_lt_s :: "('f, 're) sget \<Rightarrow> 're logic \<Rightarrow> ('f, 're, bool) sact" where
  "fql_logic_lt_s G l = get_stringviews G l (\<lambda>c. c < 0)"

definition fql_logic_le_i :: "('f, 're) sget \<Rightarrow> 're logic \<Rightarrow> ('f, 're, bool) sact" where
  "fql_logic_le_i G l = get_integers G l (\<lambda>n0 n1. sint n0 \<le> sint n1)"

definition fql_logic_le_f :: "'f flt \<Rightarrow> ('f, 're) sget \<Rightarrow> 're logic \<Rightarrow> ('f, 're, bool) sact" where
  "fql_logic_le_f fo G l = get_floats G l (f_le fo)"

definition fql_logic_le_s :: "('f, 're) sget \<Rightarrow> 're logic \<Rightarrow> ('f, 're, bool) sact" where
  "fql_logic_le_s G l = get_stringviews G l (\<lambda>c. c \<le> 0)"

section \<open>Lists\<close>

text \<open>The list is read up to the first hit; a NULL in it ends the search without one.\<close>

fun in_loop :: "(nat \<Rightarrow> ('s, 'a) act) \<Rightarrow> ('a \<Rightarrow> bool) \<Rightarrow> nat list \<Rightarrow> ('s, bool) act" where
  "in_loop get eq [] = outA (Good False)"
| "in_loop get eq (it # its) =
     logic_deref (get it) (\<lambda>n1. if eq n1 then outA (Good True) else in_loop get eq its)"

definition in_vec :: "'re logic \<Rightarrow> nat list option" where
  "in_vec l = (case in_data l of None \<Rightarrow> None | Some d \<Rightarrow> in_expressions d)"

definition fql_logic_in_i :: "('f, 're) sget \<Rightarrow> 're logic \<Rightarrow> ('f, 're, bool) sact" where
  "fql_logic_in_i G l = logic_deref (at_ptr (lexpr0 l) (get_int G)) (\<lambda>n0.
     at_ptr (in_vec l) (in_loop (get_int G) (\<lambda>n1. n0 = n1)))"

definition fql_logic_in_f :: "'f flt \<Rightarrow> ('f, 're) sget \<Rightarrow> 're logic \<Rightarrow> ('f, 're, bool) sact" where
  "fql_logic_in_f fo G l = logic_deref (at_ptr (lexpr0 l) (get_float G)) (\<lambda>n0.
     at_ptr (in_vec l) (in_loop (get_float G) (\<lambda>n1. f_eq fo n1 n0)))"

definition fql_logic_in_s :: "('f, 're) sget \<Rightarrow> 're logic \<Rightarrow> ('f, 're, bool) sact" where
  "fql_logic_in_s G l = logic_deref (at_ptr (lexpr0 l) (get_stringview G)) (\<lambda>sv0.
     at_ptr (in_vec l) (in_loop (get_stringview G)
       (\<lambda>sv1. stringview_compare_nocase_rtrim (sv_text sv0) (sv_text sv1) = 0)))"

text \<open>The bytes of a \<open>long\<close> or \<open>double\<close> in memory, the key of the set of a subquery.\<close>

definition word_bytes :: "u64 \<Rightarrow> string" where
  "word_bytes w = map (\<lambda>i. char_of (uint (drop_bit (8 * i) w) mod 256)) [0..<8]"

definition subin :: "nat \<Rightarrow> string \<Rightarrow> ('f, 're, bool) sact" where
  "subin i key = with_logic i (\<lambda>l. at_ptr (in_data l) (\<lambda>d. at_ptr (list_data d) (\<lambda>st s.
     case set_nhas st key of
       None \<Rightarrow> (Crash, s)
     | Some (b, st') \<Rightarrow> (Good b, set_logic i (l\<lparr>in_data := Some (d\<lparr>list_data := Some st'\<rparr>)\<rparr>) s))))"

definition fql_logic_subin_i :: "('f, 're) sget \<Rightarrow> nat \<Rightarrow> 're logic \<Rightarrow> ('f, 're, bool) sact" where
  "fql_logic_subin_i G i l = logic_deref (at_ptr (lexpr0 l) (get_int G)) (\<lambda>n0. subin i (word_bytes n0))"

definition fql_logic_subin_f :: "'f flt \<Rightarrow> ('f, 're) sget \<Rightarrow> nat \<Rightarrow> 're logic \<Rightarrow> ('f, 're, bool) sact" where
  "fql_logic_subin_f fo G i l =
     logic_deref (at_ptr (lexpr0 l) (get_float G)) (\<lambda>n0. subin i (word_bytes (f_bits fo n0)))"

definition fql_logic_subin_s :: "('f, 're) sget \<Rightarrow> nat \<Rightarrow> 're logic \<Rightarrow> ('f, 're, bool) sact" where
  "fql_logic_subin_s G i l =
     logic_deref (at_ptr (lexpr0 l) (get_stringview G)) (\<lambda>sv0. subin i (sv_text sv0))"

section \<open>LIKE and IS NULL\<close>

text \<open>A pattern that is not a constant is translated for every row; a failure to compile it
  is ignored, and no expression matches nothing.\<close>

definition like_update :: "('f, 're) ext \<Rightarrow> nat \<Rightarrow> view \<Rightarrow> ('f, 're, unit) sact" where
  "like_update x i sv1 = with_logic i (\<lambda>l. at_ptr (like_data l) (\<lambda>d s.
     case like_to_regex (x_compile x) d sv1 of
       (Crash, d') \<Rightarrow> (Crash, s)
     | (_, d') \<Rightarrow> (Good (), set_logic i (l\<lparr>like_data := Some d'\<rparr>) s)))"

definition like_match :: "('f, 're) ext \<Rightarrow> nat \<Rightarrow> view \<Rightarrow> ('f, 're, bool) sact" where
  "like_match x i sv0 = with_logic i (\<lambda>l. at_ptr (like_data l) (\<lambda>d.
     outA (Good (case regex d of None \<Rightarrow> False | Some re \<Rightarrow> x_match x re (sv_text sv0)))))"

definition fql_logic_like :: "('f, 're) ext \<Rightarrow> ('f, 're) sget \<Rightarrow> nat \<Rightarrow> 're logic \<Rightarrow> ('f, 're, bool) sact" where
  "fql_logic_like x G i l = logic_deref (at_ptr (lexpr0 l) (get_stringview G)) (\<lambda>sv0.
     at_ptr (lexpr1 l) (\<lambda>e1. with_expr e1 (\<lambda>e.
       if expr e \<noteq> EXPR_CONST
       then logic_deref (get_stringview G e1) (\<lambda>sv1. derefA (like_update x i sv1) (\<lambda>_. like_match x i sv0))
       else like_match x i sv0)))"

definition fql_logic_is_null :: "('f, 're) sget \<Rightarrow> 're logic \<Rightarrow> ('f, 're, bool) sact" where
  "fql_logic_is_null G l s = (case at_ptr (lexpr0 l) (get_stringview G) s of
     (Good _, s') \<Rightarrow> (Good False, s')
   | (Null _, s') \<Rightarrow> (Good True, s')
   | (Fail, s') \<Rightarrow> (Fail, s')
   | (Crash, s') \<Rightarrow> (Crash, s'))"

text \<open>The call through \<open>logic__\<close>.\<close>

definition call_logic :: "('f, 're) ext \<Rightarrow> ('f, 're) sget \<Rightarrow> nat \<Rightarrow> 're logic \<Rightarrow> logic_fn \<Rightarrow> ('f, 're, bool) sact" where
  "call_logic x G i l c = (case c of
       Logic_eq_i \<Rightarrow> fql_logic_eq_i G l
     | Logic_eq_f \<Rightarrow> fql_logic_eq_f (x_flt x) G l
     | Logic_eq_s \<Rightarrow> fql_logic_eq_s G l
     | Logic_ne_i \<Rightarrow> fql_logic_ne_i G l
     | Logic_ne_f \<Rightarrow> fql_logic_ne_f (x_flt x) G l
     | Logic_ne_s \<Rightarrow> fql_logic_ne_s G l
     | Logic_gt_i \<Rightarrow> fql_logic_gt_i G l
     | Logic_gt_f \<Rightarrow> fql_logic_gt_f (x_flt x) G l
     | Logic_gt_s \<Rightarrow> fql_logic_gt_s G l
     | Logic_ge_i \<Rightarrow> fql_logic_ge_i G l
     | Logic_ge_f \<Rightarrow> fql_logic_ge_f (x_flt x) G l
     | Logic_ge_s \<Rightarrow> fql_logic_ge_s G l
     | Logic_lt_i \<Rightarrow> fql_logic_lt_i G l
     | Logic_lt_f \<Rightarrow> fql_logic_lt_f (x_flt x) G l
     | Logic_lt_s \<Rightarrow> fql_logic_lt_s G l
     | Logic_le_i \<Rightarrow> fql_logic_le_i G l
     | Logic_le_f \<Rightarrow> fql_logic_le_f (x_flt x) G l
     | Logic_le_s \<Rightarrow> fql_logic_le_s G l
     | Logic_in_i \<Rightarrow> fql_logic_in_i G l
     | Logic_in_f \<Rightarrow> fql_logic_in_f (x_flt x) G l
     | Logic_in_s \<Rightarrow> fql_logic_in_s G l
     | Logic_subin_i \<Rightarrow> fql_logic_subin_i G i l
     | Logic_subin_f \<Rightarrow> fql_logic_subin_f (x_flt x) G i l
     | Logic_subin_s \<Rightarrow> fql_logic_subin_s G i l
     | Logic_like \<Rightarrow> fql_logic_like x G i l
     | Logic_is_null \<Rightarrow> fql_logic_is_null G l)"

definition logic_eval :: "('f, 're) ext \<Rightarrow> ('f, 're) sget \<Rightarrow> nat \<Rightarrow> ('f, 're, bool) sact" where
  "logic_eval x G i = with_logic i (\<lambda>l. at_ptr (logic_call l) (call_logic x G i l))"

section \<open>Construction\<close>

definition logic_construct :: "'re logic" where
  "logic_construct = \<lparr>lexpr0 = None, lexpr1 = None, like_data = None, in_data = None, logic_call = None,
     data_type = FIELD_UNDEFINED, comp_type = COMP_NOT_SET\<rparr>"

definition inlist_construct :: inlist where
  "inlist_construct = \<lparr>in_expressions = None, in_subquery = None, list_data = None\<rparr>"

definition inlist_add_expression :: "inlist \<Rightarrow> nat \<Rightarrow> inlist" where
  "inlist_add_expression self e =
     self\<lparr>in_expressions := Some ((case in_expressions self of None \<Rightarrow> [] | Some es \<Rightarrow> es) @ [e])\<rparr>"

definition logic_add_expression :: "'re logic \<Rightarrow> nat \<Rightarrow> 're logic" where
  "logic_add_expression self e =
     (if lexpr0 self = None then self\<lparr>lexpr0 := Some e\<rparr>
      else case in_data self of
        Some d \<Rightarrow> self\<lparr>in_data := Some (inlist_add_expression d e)\<rparr>
      | None \<Rightarrow> self\<lparr>lexpr1 := Some e\<rparr>)"

text \<open>The type of an expression by its address; reading through a NULL is a fault.\<close>

definition inlist_determine_type ::
    "(nat \<Rightarrow> field_type) \<Rightarrow> inlist \<Rightarrow> nat option \<Rightarrow> field_type option" where
  "inlist_determine_type ty self left_side = do {
     l \<leftarrow> left_side;
     es \<leftarrow> (case in_subquery self of None \<Rightarrow> in_expressions self | Some es \<Rightarrow> Some es);
     Some (foldl (\<lambda>t e. field_determine_type t (ty e)) (ty l) es)
   }"

definition logic_matrix :: "logic_fn option list list" where
  "logic_matrix =
     [[Some Logic_eq_i, Some Logic_eq_f, Some Logic_eq_s],
      [Some Logic_ne_i, Some Logic_ne_f, Some Logic_ne_s],
      [Some Logic_gt_i, Some Logic_gt_f, Some Logic_gt_s],
      [Some Logic_ge_i, Some Logic_ge_f, Some Logic_ge_s],
      [Some Logic_lt_i, Some Logic_lt_f, Some Logic_lt_s],
      [Some Logic_le_i, Some Logic_le_f, Some Logic_le_s],
      [Some Logic_in_i, Some Logic_in_f, Some Logic_in_s],
      [Some Logic_subin_i, Some Logic_subin_f, Some Logic_subin_s],
      [None, None, Some Logic_like],
      [Some Logic_is_null, Some Logic_is_null, Some Logic_is_null]]"

definition comp_index :: "comparison \<Rightarrow> int" where
  "comp_index c =
     (case c of
        COMP_NOT_SET \<Rightarrow> - 3 | COMP_FALSE \<Rightarrow> - 2 | COMP_TRUE \<Rightarrow> - 1 | COMP_EQ \<Rightarrow> 0 | COMP_NE \<Rightarrow> 1
      | COMP_GT \<Rightarrow> 2 | COMP_GE \<Rightarrow> 3 | COMP_LT \<Rightarrow> 4 | COMP_LE \<Rightarrow> 5 | COMP_IN \<Rightarrow> 6 | COMP_SUBIN \<Rightarrow> 7
      | COMP_LIKE \<Rightarrow> 8 | COMP_NULL \<Rightarrow> 9)"

text \<open>
  The types and the function of a predicate, \<open>logic_assign_process\<close> without its
  description of the plan and without the compilation of a constant pattern
  (\<open>precompile_like\<close>).
\<close>

definition logic_assign_process :: "(nat \<Rightarrow> field_type) \<Rightarrow> 're logic \<Rightarrow> unit outcome \<times> 're logic" where
  "logic_assign_process ty self =
     (case (case in_data self of
              Some d \<Rightarrow> inlist_determine_type ty d (lexpr0 self)
            | None \<Rightarrow>
                if comp_type self \<noteq> COMP_NULL
                then do { e0 \<leftarrow> lexpr0 self; e1 \<leftarrow> lexpr1 self; Some (field_determine_type (ty e0) (ty e1)) }
                else Some FIELD_STRING) of
        None \<Rightarrow> (Crash, self)
      | Some t \<Rightarrow>
          (case table_at logic_matrix (comp_index (comp_type self)) (type_index t) of
             Good None \<Rightarrow> (Fail, self\<lparr>data_type := t, logic_call := None\<rparr>)
           | Good (Some c) \<Rightarrow> (Good (), self\<lparr>data_type := t, logic_call := Some c\<rparr>)
           | _ \<Rightarrow> (Crash, self\<lparr>data_type := t\<rparr>)))"

definition precompile_like ::
    "('f, 're) ext \<Rightarrow> ('f, 're) sget \<Rightarrow> nat \<Rightarrow> ('f, 're, unit) sact" where
  "precompile_like x G i = with_logic i (\<lambda>l s.
     case (like_construct :: 're like option) of
       None \<Rightarrow> (Crash, s)
     | Some d \<Rightarrow>
         at_ptr (lexpr1 l) (\<lambda>e1. with_expr e1 (\<lambda>e.
           if expr e \<noteq> EXPR_CONST then outA (Good ())
           else tryA (view_of []) (get_stringview G e1) (\<lambda>sv _ s.
             case like_to_regex (x_compile x) d sv of
               (Good _, d') \<Rightarrow> (Good (), set_logic i (l\<lparr>like_data := Some d'\<rparr>) s)
             | (Null _, d') \<Rightarrow> (Good (), set_logic i (l\<lparr>like_data := Some d'\<rparr>) s)
             | (Fail, d') \<Rightarrow> (Fail, set_logic i (l\<lparr>like_data := Some d'\<rparr>) s)
             | (Crash, d') \<Rightarrow> (Crash, s))))
           (set_logic i (l\<lparr>like_data := Some d\<rparr>) s))"

section \<open>CASE\<close>

definition switchcase_construct :: switchcase where
  "switchcase_construct = \<lparr>sc_tests = [], sc_test_exprs = [], sc_values = [], static_expr = None, sc_state = SWITCH_STATIC\<rparr>"

definition switchcase_add_value :: "switchcase \<Rightarrow> nat \<Rightarrow> switchcase" where
  "switchcase_add_value self e = self\<lparr>sc_values := sc_values self @ [e], sc_state := SWITCH_LOGIC_GROUP\<rparr>"

definition switchcase_add_logicgroup :: "switchcase \<Rightarrow> logicgroup \<Rightarrow> nat list \<Rightarrow> switchcase" where
  "switchcase_add_logicgroup self lg expressions =
     self\<lparr>sc_tests := sc_tests self @ [lg], sc_test_exprs := sc_test_exprs self @ [expressions],
       sc_state := SWITCH_VALUE\<rparr>"

text \<open>\<open>_logic_eval_idx\<close>: the first test that holds, the ELSE value, or none (-1).\<close>

fun eval_tests :: "(nat \<Rightarrow> ('s, bool) act) \<Rightarrow> logicgroup list \<Rightarrow> nat \<Rightarrow> ('s, nat option) act" where
  "eval_tests ev [] i = outA (Good None)"
| "eval_tests ev (lg # lgs) i =
     derefA (logicgroup_eval ev None lg) (\<lambda>b. if b then outA (Good (Some i)) else eval_tests ev lgs (i + 1))"

definition logic_eval_idx :: "(nat \<Rightarrow> ('s, bool) act) \<Rightarrow> switchcase \<Rightarrow> ('s, nat option) act" where
  "logic_eval_idx ev self = derefA (eval_tests ev (sc_tests self) 0) (\<lambda>r.
     case r of
       Some i \<Rightarrow> outA (Good (Some i))
     | None \<Rightarrow>
         outA (Good (if length (sc_values self) > length (sc_tests self)
                     then Some (length (sc_values self) - 1) else None)))"

text \<open>The three evaluations differ in the accessor and in the value of a CASE without a match.\<close>

definition switchcase_eval :: "(nat \<Rightarrow> ('s, bool) act) \<Rightarrow> (nat \<Rightarrow> ('s, 'a) act) \<Rightarrow> 'a \<Rightarrow> switchcase \<Rightarrow> ('s, 'a) act" where
  "switchcase_eval ev get none self = derefA (logic_eval_idx ev self) (\<lambda>r.
     case r of
       None \<Rightarrow> outA (Null (Some none))
     | Some i \<Rightarrow> if i < length (sc_values self) then get (sc_values self ! i) else outA Crash)"

definition switchcase_eval_to_int ::
    "('f, 're) ext \<Rightarrow> ('f, 're) sget \<Rightarrow> switchcase \<Rightarrow> ('f, 're, i64) sact" where
  "switchcase_eval_to_int x G self = switchcase_eval (logic_eval x G) (get_int G) 0 self"

definition switchcase_eval_to_float ::
    "('f, 're) ext \<Rightarrow> ('f, 're) sget \<Rightarrow> switchcase \<Rightarrow> ('f, 're, 'f) sact" where
  "switchcase_eval_to_float x G self = switchcase_eval (logic_eval x G) (get_float G) (f_zero (x_flt x)) self"

definition switchcase_eval_to_stringview ::
    "('f, 're) ext \<Rightarrow> ('f, 're) sget \<Rightarrow> switchcase \<Rightarrow> ('f, 're, view) sact" where
  "switchcase_eval_to_stringview x G self =
     switchcase_eval (logic_eval x G) (get_stringview G) (view_of []) self"

end
