(* ===== verification/Variable.thy ===== *)
theory Variable
  imports Scalar
begin

text \<open>
  Variables of a script (lib/variable.c). The union of a string variable points to its own
  buffer \<open>_data\<close>, so the two hold the same text (\<open>var_ok\<close>). \<open>limit\<close> is the declared length,
  \<open>INT_MAX\<close> when there is none.
\<close>

section \<open>Data\<close>

datatype sql_type = SQL_UNDEFINED | SQL_BIT | SQL_INT | SQL_FLOAT | SQL_VARCHAR | SQL_TEXT | SQL_CHAR

record 'f variable =
  var_type :: sql_type
  var_value :: "'f field"
  var_data :: "string option"
  import_value :: "string option"
  var_limit :: nat
  is_null :: bool
  can_be_redeclared :: bool

definition INT_MAX :: nat where "INT_MAX = 2147483647"

definition variable_construct :: "'f variable" where
  "variable_construct = \<lparr>var_type = SQL_UNDEFINED, var_value = UInt 0, var_data = None, import_value = None,
     var_limit = INT_MAX, is_null = True, can_be_redeclared = False\<rparr>"

definition variable_get_field_type :: "sql_type \<Rightarrow> field_type" where
  "variable_get_field_type sqltype =
     (case sqltype of
        SQL_BIT \<Rightarrow> FIELD_INT | SQL_INT \<Rightarrow> FIELD_INT
      | SQL_FLOAT \<Rightarrow> FIELD_FLOAT
      | SQL_TEXT \<Rightarrow> FIELD_STRING | SQL_CHAR \<Rightarrow> FIELD_STRING | SQL_VARCHAR \<Rightarrow> FIELD_STRING
      | SQL_UNDEFINED \<Rightarrow> FIELD_UNDEFINED)"

section \<open>Operations\<close>

text \<open>The buffer and the value, which are the same object.\<close>

definition set_data :: "'f variable \<Rightarrow> string \<Rightarrow> 'f variable" where
  "set_data self s = self\<lparr>var_data := Some s, var_value := UStr s\<rparr>"

definition pad :: "nat \<Rightarrow> string \<Rightarrow> string" where
  "pad limit s = (if limit = 0 \<or> limit = INT_MAX then s else s @ replicate (limit - length s) (CHR '' ''))"

definition append_space :: "'f variable \<Rightarrow> 'f variable outcome" where
  "append_space self =
     (if var_limit self = 0 \<or> var_limit self = INT_MAX then Good self
      else case var_data self of
        None \<Rightarrow> Crash
      | Some s \<Rightarrow> Good (set_data self (pad (var_limit self) s)))"

definition variable_clear :: "'f flt \<Rightarrow> 'f variable \<Rightarrow> 'f variable outcome" where
  "variable_clear fo self0 =
     (let self = self0\<lparr>is_null := True\<rparr> in
      if var_type self = SQL_INT \<or> var_type self = SQL_BIT then Good (self\<lparr>var_value := UInt 0\<rparr>)
      else if var_type self = SQL_FLOAT then Good (self\<lparr>var_value := UFloat (f_zero fo)\<rparr>)
      else if var_data self = None then Crash
      else if var_type self = SQL_CHAR then append_space (set_data self [])
      else Good (set_data self []))"

text \<open>
  The conversion of a declared variable. A limit is applied only where there is none: the
  two calls are the wrong way round.
\<close>

definition variable_set_type :: "'f flt \<Rightarrow> 'f variable \<Rightarrow> sql_type \<Rightarrow> unit outcome \<times> 'f variable" where
  "variable_set_type fo self new_type =
     (if var_type self = new_type then (Good (), self)
      else if var_type self = SQL_UNDEFINED
      then (Good (), (if new_type = SQL_BIT \<or> new_type = SQL_INT then self\<lparr>var_value := UInt 0\<rparr>
             else if new_type = SQL_FLOAT then self\<lparr>var_value := UFloat (f_zero fo)\<rparr>
             else set_data self [])\<lparr>var_type := new_type\<rparr>)
      else let fieldtype = variable_get_field_type (var_type self) in
        if new_type = SQL_BIT \<or> new_type = SQL_INT
        then (case field_to_int fo (var_value self) fieldtype of
                (Good n, u, _) \<Rightarrow> (Good (), self\<lparr>var_value := u, var_type := new_type\<rparr>)
              | (Crash, u, _) \<Rightarrow> (Crash, self)
              | (_, u, _) \<Rightarrow> (Fail, self\<lparr>var_value := u\<rparr>))
        else if new_type = SQL_FLOAT
        then (case field_to_float fo (var_value self) fieldtype of
                (Good n, u, _) \<Rightarrow> (Good (), self\<lparr>var_value := u, var_type := new_type\<rparr>)
              | (Crash, u, _) \<Rightarrow> (Crash, self)
              | (_, u, _) \<Rightarrow> (Fail, self\<lparr>var_value := u\<rparr>))
        else if new_type = SQL_UNDEFINED then (Fail, self)
        else let data = (case var_data self of None \<Rightarrow> [] | Some s \<Rightarrow> s) in
          (case (if var_limit self \<noteq> INT_MAX
                 then field_to_stringview fo data (var_value self) fieldtype
                 else field_to_stringview_limited fo data (var_value self) fieldtype (var_limit self)) of
             (Good s, u, _, _) \<Rightarrow>
               (let self1 = (set_data self s)\<lparr>var_type := new_type\<rparr> in
                if new_type = SQL_CHAR
                then (case append_space self1 of Good v \<Rightarrow> (Good (), v) | _ \<Rightarrow> (Crash, self1))
                else (Good (), self1))
           | (Crash, u, _, _) \<Rightarrow> (Crash, self)
           | (_, u, _, d) \<Rightarrow> (Fail, self\<lparr>var_value := u, var_data := Some d\<rparr>)))"

definition variable_set_stringview :: "'f variable \<Rightarrow> view \<Rightarrow> 'f variable outcome" where
  "variable_set_stringview self0 sv0 =
     (let self = self0\<lparr>is_null := False\<rparr>;
          sv = (if sv_len sv0 > var_limit self then sv0\<lparr>sv_len := var_limit self\<rparr> else sv0)
      in o_bind (strncpy_view sv 0 (sv_len sv)) (\<lambda>s.
           if var_data self = None then Good (set_data self s)
           else if var_type self = SQL_CHAR then append_space (set_data self s)
           else Good (set_data self s)))"

definition variable_set_string :: "'f variable \<Rightarrow> string \<Rightarrow> 'f variable outcome" where
  "variable_set_string self s = variable_set_stringview self (view_of s)"

definition variable_set_import_value :: "'f variable \<Rightarrow> string \<Rightarrow> 'f variable outcome" where
  "variable_set_import_value self value =
     o_bind (variable_set_string (self\<lparr>import_value := Some (c_str value)\<rparr>) (c_str value)) (\<lambda>v.
       Good (v\<lparr>var_type := SQL_VARCHAR\<rparr>))"

definition variable_reset :: "'f flt \<Rightarrow> 'f variable \<Rightarrow> 'f variable outcome" where
  "variable_reset fo self =
     (case import_value self of
        None \<Rightarrow> variable_clear fo self
      | Some s \<Rightarrow>
          (case if var_data self = None then (Crash, self)
             else variable_set_type fo ((set_data self s)\<lparr>var_type := SQL_VARCHAR\<rparr>) (var_type self) of
             (Crash, _) \<Rightarrow> Crash
           | (_, v) \<Rightarrow> Good v))"

section \<open>Laws\<close>

text \<open>The union of a variable holds the member its type names, and strings alias the buffer.\<close>

definition var_ok :: "'f variable \<Rightarrow> bool" where
  "var_ok v \<longleftrightarrow>
     (case variable_get_field_type (var_type v) of
        FIELD_INT \<Rightarrow> (\<exists>n. var_value v = UInt n)
      | FIELD_FLOAT \<Rightarrow> (\<exists>f. var_value v = UFloat f)
      | FIELD_STRING \<Rightarrow> (\<exists>s. var_data v = Some s \<and> var_value v = UStr s)
      | FIELD_UNDEFINED \<Rightarrow> True)"

lemma set_data_simps [simp]:
  "var_data (set_data v s) = Some s" "var_value (set_data v s) = UStr s"
  "var_type (set_data v s) = var_type v" "var_limit (set_data v s) = var_limit v"
  by (simp_all add: set_data_def)

lemma variable_construct_ok: "var_ok variable_construct"
  by (simp add: var_ok_def variable_construct_def variable_get_field_type_def)

lemma append_space_set_data [simp]:
  "append_space (set_data v s) = Good (set_data v (pad (var_limit v) s))"
  by (auto simp: append_space_def pad_def set_data_def)

lemma append_space_typed [simp]:
  "append_space (set_data v s\<lparr>var_type := t\<rparr>) = Good (set_data v (pad (var_limit v) s)\<lparr>var_type := t\<rparr>)"
  by (auto simp: append_space_def pad_def set_data_def)

text \<open>
  A conversion succeeds with the new type, or fails and changes nothing that the old type
  needs; only a \<open>double\<close> outside the range of \<open>long\<close> has no result.
\<close>

lemma variable_set_type_spec:
  assumes "var_ok v"
  shows "case variable_set_type fo v t of
      (Good _, v') \<Rightarrow> var_ok v' \<and> var_type v' = t
    | (Fail, v') \<Rightarrow> var_ok v' \<and> var_type v' = var_type v
    | (Crash, v') \<Rightarrow> \<exists>f. var_type v = SQL_FLOAT \<and> var_value v = UFloat f \<and> f_to_int fo f = None
    | (Null _, v') \<Rightarrow> False"
proof (cases "var_type v = t")
  case True
  then show ?thesis using assms by (simp add: variable_set_type_def)
next
  case ne: False
  consider "var_type v = SQL_UNDEFINED" | n where "var_type v \<in> {SQL_INT, SQL_BIT}" "var_value v = UInt n"
    | f where "var_type v = SQL_FLOAT" "var_value v = UFloat f"
    | s where "var_type v \<in> {SQL_VARCHAR, SQL_TEXT, SQL_CHAR}" "var_data v = Some s" "var_value v = UStr s"
    using assms by (cases "var_type v") (auto simp: var_ok_def variable_get_field_type_def)
  then show ?thesis
  proof cases
    case 1
    then show ?thesis using ne
      by (cases t) (auto simp: variable_set_type_def var_ok_def variable_get_field_type_def)
  next
    case 2
    then show ?thesis using ne
      by (cases t) (auto simp: variable_set_type_def var_ok_def variable_get_field_type_def field_to_int_def
        field_to_float_def field_to_stringview_def field_to_stringview_limited_def as_int_def Let_def)
  next
    case 3
    then show ?thesis using ne
      by (cases t) (auto simp: variable_set_type_def var_ok_def variable_get_field_type_def field_to_int_def
        field_to_float_def field_to_stringview_def field_to_stringview_limited_def as_float_def Let_def
        split: option.splits)
  next
    case 4
    then show ?thesis using ne
      by (cases t) (auto simp: variable_set_type_def var_ok_def variable_get_field_type_def field_to_int_def
        field_to_float_def field_to_stringview_def field_to_stringview_limited_def as_str_def Let_def
        split: option.splits)
  qed
qed

text \<open>An assignment to a CHAR variable gives it exactly its declared length.\<close>

lemma variable_set_string_char:
  assumes "var_type v = SQL_CHAR" "var_data v \<noteq> None" "0 < var_limit v" "var_limit v < INT_MAX"
    "CHR 0x00 \<notin> set s"
  shows "\<exists>v' text. variable_set_string v s = Good v' \<and> var_data v' = Some text \<and> var_value v' = UStr text \<and>
    length text = var_limit v \<and>
    text = take (var_limit v) s @ replicate (var_limit v - length s) (CHR '' '') \<and> \<not> is_null v'"
proof -
  have nul: "takeWhile (\<lambda>c. c \<noteq> CHR 0x00) (s @ [CHR 0x00]) = s"
    using assms(5) by (subst takeWhile_append2) auto
  let ?n = "if length s > var_limit v then var_limit v else length s"
  have "strncpy_view (if length s > var_limit v then view_of s\<lparr>sv_len := var_limit v\<rparr> else view_of s) 0 ?n =
      Good (take (var_limit v) s)"
    by (auto simp: strncpy_view_def view_of_def nul)
  then show ?thesis
    using assms by (auto simp: variable_set_string_def variable_set_stringview_def Let_def pad_def min_def set_data_def
      append_space_def view_of_def)
qed

text \<open>The declared length is not applied when a value is converted to a string type.\<close>

lemma variable_set_type_ignores_limit:
  "let v = (variable_construct :: 'f variable)\<lparr>var_type := SQL_INT, var_value := UInt 12345, var_limit := 3\<rparr> in
   var_ok v \<and> var_data (snd (variable_set_type fo v SQL_VARCHAR)) = Some ''12345''"
proof -
  have "sint (12345 :: i64) = 12345" by simp
  then have "show_long 12345 = ''12345''" by (simp add: show_long_def show_nat.simps char_of_def bit_0)
  then show ?thesis
    by (simp add: Let_def variable_set_type_def variable_construct_def var_ok_def variable_get_field_type_def
      field_to_stringview_def as_int_def INT_MAX_def set_data_def)
qed

end
