(* ===== verification/Expression.thy ===== *)
theory Expression
  imports Logic Variable
begin

text \<open>
  Evaluation of expressions over a row group (lib/expression.c). The three accessors call
  each other, the scalar functions, the predicates and CASE; one step of them is defined over
  the accessors \<open>G\<close> of the expressions below, and \<open>expr_getters\<close> closes the recursion with
  a depth. The depth is enough when it exceeds the height of the expression
  (\<open>expr_getters_depth\<close>); an expression that contains itself overflows the stack.

  The views that an accessor returns are values here; the code returns a pointer into the
  buffer of the expression, which the next evaluation of the same expression overwrites.
\<close>

section \<open>Fields of a row\<close>

text \<open>
  The view of an accessor that sets the length only: nothing is known of what its pointer
  points to, so not even the terminator can be read.
\<close>

definition no_view :: view where "no_view = \<lparr>sv_data = [], sv_len = 0\<rparr>"

text \<open>\<open>string_copy_from_stringview(&self->buf, sv)\<close> and the conversion of the buffer.\<close>

definition view_to_int :: "view \<Rightarrow> i64 outcome" where
  "view_to_int sv = o_bind (strncpy_view sv 0 (sv_len sv)) (\<lambda>buf.
     case str2long buf of None \<Rightarrow> Fail | Some n \<Rightarrow> Good n)"

definition view_to_float :: "'f flt \<Rightarrow> view \<Rightarrow> 'f outcome" where
  "view_to_float fo sv = o_bind (strncpy_view sv 0 (sv_len sv)) (\<lambda>buf.
     case f_parse fo buf of None \<Rightarrow> Fail | Some f \<Rightarrow> Good f)"

definition source_record :: "row_record list \<Rightarrow> 'f expression \<Rightarrow> 'f expression \<Rightarrow> row_record option" where
  "source_record rg self src_expr =
     (if subquery_src_idx self = - 1 then record_at rg (e_src_idx src_expr)
      else record_at rg (subquery_src_idx self))"

definition field_view :: "row_record \<Rightarrow> nat \<Rightarrow> (view \<Rightarrow> 'a outcome) \<Rightarrow> 'a outcome" where
  "field_view rec i k = (case vec_at (rec_fields rec) i of Some (Some sv) \<Rightarrow> k sv | _ \<Rightarrow> Crash)"

definition column_value ::
    "row_record list \<Rightarrow> 'a \<Rightarrow> (view \<Rightarrow> 'a outcome) \<Rightarrow> 'f expression \<Rightarrow> 'f expression \<Rightarrow> 'a outcome" where
  "column_value rg none k self src_expr =
     (case source_record rg self src_expr of
        None \<Rightarrow> Null (Some none)
      | Some rec \<Rightarrow>
          if vsize (rec_fields rec) \<le> e_index src_expr then Null (Some none)
          else field_view rec (e_index src_expr) k)"

text \<open>A column that has been grouped or aggregated, as text: a missing row is a zero.\<close>

definition grouped_view :: "row_record list \<Rightarrow> 'f expression \<Rightarrow> view outcome" where
  "grouped_view rg src_expr =
     (case record_at rg (e_src_idx src_expr) of
        None \<Rightarrow>
          (case e_type src_expr of
             FIELD_INT \<Rightarrow> Null (Some (view_of ''0''))
           | FIELD_FLOAT \<Rightarrow> Null (Some (view_of ''0''))
           | FIELD_STRING \<Rightarrow> Null (Some no_view)
           | FIELD_UNDEFINED \<Rightarrow> Null None)
      | Some rec \<Rightarrow>
          if vsize (rec_fields rec) \<le> e_index src_expr then Good (view_of [])
          else field_view rec (e_index src_expr) Good)"

section \<open>Calls\<close>

text \<open>A CASE without a value leaves the zero of the caller; a view is not initialised.\<close>

definition case_value :: "('s, 'a) act \<Rightarrow> 'a outcome \<Rightarrow> ('s, 'a) act" where
  "case_value m init s = (case m s of
     (Good a, s') \<Rightarrow> (Good a, s')
   | (Null (Some a), s') \<Rightarrow> (Good a, s')
   | (Null None, s') \<Rightarrow> (init, s')
   | (Fail, s') \<Rightarrow> (Fail, s')
   | (Crash, s') \<Rightarrow> (Crash, s'))"

text \<open>
  The value of a function call is the union that the call wrote, read with the type of the
  expression. A string can only be written where one was prepared.
\<close>

definition call_value :: "('f, 're) ext \<Rightarrow> ('f, 're) sget \<Rightarrow> 'f expression \<Rightarrow>
    ('f field \<Rightarrow> field_type \<Rightarrow> 'a outcome) \<Rightarrow> ('f, 're, 'a) sact" where
  "call_value x G e conv = at_ptr (e_fn e) (\<lambda>fn.
     derefA (call_fn (x_flt x) G (call fn) (fn_data.truncate fn)) (\<lambda>u.
       case u of
         UStr s \<Rightarrow> outA (if e_type e = FIELD_STRING then conv u (e_type e) else Crash)
       | _ \<Rightarrow> outA (conv u (e_type e))))"

definition field_string :: "'f field \<Rightarrow> string" where
  "field_string u = (case u of UStr s \<Rightarrow> s | _ \<Rightarrow> [])"

definition const_value :: "nat \<Rightarrow> 'f expression \<Rightarrow> 'a outcome \<times> 'f field \<times> field_type \<Rightarrow> ('f, 're, 'a) sact" where
  "const_value i e r s = (case r of (v, u, t) \<Rightarrow> (v, set_expr i (e\<lparr>e_field := u, e_type := t\<rparr>) s))"

section \<open>Accessors\<close>

definition expression_get_int ::
    "('f, 're) ext \<Rightarrow> row_record list \<Rightarrow> ('f, 're) sget \<Rightarrow> nat \<Rightarrow> ('f, 're, i64) sact" where
  "expression_get_int x rg G i = with_expr i (\<lambda>e.
     case expr e of
       EXPR_SUBQUERY \<Rightarrow> outA (Null (Some 0))
     | EXPR_NULL \<Rightarrow> outA (Null (Some 0))
     | EXPR_SWITCH_CASE \<Rightarrow> at_ptr (e_sc e) (\<lambda>sc. case_value (switchcase_eval_to_int x G sc) (Good 0))
     | EXPR_ROW_NUMBER \<Rightarrow> at_ptr (rownum_ref e) (\<lambda>r s.
         (if r < length (rownums s) then Good (ucast (rownums s ! r)) else Crash, s))
     | EXPR_FULL_RECORD \<Rightarrow>
         (case record_at rg (e_src_idx e) of
            None \<Rightarrow> outA (Null (Some 0))
          | Some rec \<Rightarrow> outA (view_to_int (rec_ref rec)))
     | EXPR_REFERENCE \<Rightarrow> at_ptr (data_source e) (get_int G)
     | EXPR_GROUPING \<Rightarrow> at_ptr (data_source e) (\<lambda>d. with_expr d (\<lambda>src. outA (column_value rg 0 view_to_int e src)))
     | EXPR_AGGREGATE \<Rightarrow> at_ptr (data_source e) (\<lambda>d. with_expr d (\<lambda>src. outA (column_value rg 0 view_to_int e src)))
     | EXPR_COLUMN_NAME \<Rightarrow> at_ptr (data_source e) (\<lambda>d. with_expr d (\<lambda>src. outA (column_value rg 0 view_to_int e src)))
     | EXPR_FUNCTION \<Rightarrow> call_value x G e (\<lambda>u t. fst (field_to_int (x_flt x) u t))
     | EXPR_CONST \<Rightarrow> const_value i e (field_to_int (x_flt x) (e_field e) (e_type e))
     | _ \<Rightarrow> outA Fail)"

definition expression_get_float ::
    "('f, 're) ext \<Rightarrow> row_record list \<Rightarrow> ('f, 're) sget \<Rightarrow> nat \<Rightarrow> ('f, 're, 'f) sact" where
  "expression_get_float x rg G i = with_expr i (\<lambda>e.
     let fo = x_flt x; zero = f_zero fo; column = column_value rg zero (view_to_float fo) e in
     case expr e of
       EXPR_SUBQUERY \<Rightarrow> outA (Null (Some zero))
     | EXPR_NULL \<Rightarrow> outA (Null (Some zero))
     | EXPR_SWITCH_CASE \<Rightarrow> at_ptr (e_sc e) (\<lambda>sc. case_value (switchcase_eval_to_float x G sc) (Good zero))
     | EXPR_ROW_NUMBER \<Rightarrow> at_ptr (rownum_ref e) (\<lambda>r s.
         (if r < length (rownums s) then Good (f_of_int fo (ucast (rownums s ! r))) else Crash, s))
     | EXPR_FULL_RECORD \<Rightarrow>
         (case record_at rg (e_src_idx e) of
            None \<Rightarrow> outA (Null (Some zero))
          | Some rec \<Rightarrow> outA (view_to_float fo (rec_ref rec)))
     | EXPR_REFERENCE \<Rightarrow> at_ptr (data_source e) (get_float G)
     | EXPR_GROUPING \<Rightarrow> at_ptr (data_source e) (\<lambda>d. with_expr d (\<lambda>src. outA (column src)))
     | EXPR_AGGREGATE \<Rightarrow> at_ptr (data_source e) (\<lambda>d. with_expr d (\<lambda>src. outA (column src)))
     | EXPR_COLUMN_NAME \<Rightarrow> at_ptr (data_source e) (\<lambda>d. with_expr d (\<lambda>src. outA (column src)))
     | EXPR_FUNCTION \<Rightarrow> call_value x G e (\<lambda>u t. fst (field_to_float fo u t))
     | EXPR_CONST \<Rightarrow> const_value i e (field_to_float fo (e_field e) (e_type e))
     | _ \<Rightarrow> outA Fail)"

definition expression_get_stringview ::
    "('f, 're) ext \<Rightarrow> row_record list \<Rightarrow> ('f, 're) sget \<Rightarrow> nat \<Rightarrow> ('f, 're, view) sact" where
  "expression_get_stringview x rg G i = with_expr i (\<lambda>e.
     case expr e of
       EXPR_SUBQUERY \<Rightarrow> outA (Null (Some no_view))
     | EXPR_NULL \<Rightarrow> outA (Null (Some no_view))
     | EXPR_SWITCH_CASE \<Rightarrow> at_ptr (e_sc e) (\<lambda>sc. case_value (switchcase_eval_to_stringview x G sc) Crash)
     | EXPR_FULL_RECORD \<Rightarrow>
         (case record_at rg (e_src_idx e) of
            None \<Rightarrow> outA (Null (Some no_view))
          | Some rec \<Rightarrow> outA (Good (rec_ref rec)))
     | EXPR_ROW_NUMBER \<Rightarrow> at_ptr (rownum_ref e) (\<lambda>r s.
         (if r < length (rownums s) then Good (view_of (show_nat (unat (rownums s ! r)))) else Crash, s))
     | EXPR_REFERENCE \<Rightarrow> at_ptr (data_source e) (get_stringview G)
     | EXPR_GROUPING \<Rightarrow> at_ptr (data_source e) (\<lambda>d. with_expr d (\<lambda>src. outA (grouped_view rg src)))
     | EXPR_AGGREGATE \<Rightarrow> at_ptr (data_source e) (\<lambda>d. with_expr d (\<lambda>src. outA (grouped_view rg src)))
     | EXPR_COLUMN_NAME \<Rightarrow> at_ptr (data_source e) (\<lambda>d. with_expr d (\<lambda>src. outA (column_value rg (view_of []) Good e src)))
     | EXPR_FUNCTION \<Rightarrow> call_value x G e (\<lambda>u t.
         map_outcome view_of (fst (field_to_stringview (x_flt x) (field_string u) u t)))
     | EXPR_CONST \<Rightarrow> const_value i e
         (case field_to_stringview (x_flt x) (field_string (e_field e)) (e_field e) (e_type e) of
            (r, u, t, dest) \<Rightarrow> (map_outcome view_of r, u, t))
     | _ \<Rightarrow> outA Fail)"

definition type_at :: "nat \<Rightarrow> ('f, 're) store \<Rightarrow> field_type" where
  "type_at i s = (if i < length (exprs s) then e_type (exprs s ! i) else FIELD_UNDEFINED)"

definition is_const_at :: "nat \<Rightarrow> ('f, 're) store \<Rightarrow> bool" where
  "is_const_at i s \<longleftrightarrow> i < length (exprs s) \<and> expr (exprs s ! i) = EXPR_CONST"

primrec expr_getters :: "('f, 're) ext \<Rightarrow> row_record list \<Rightarrow> nat \<Rightarrow> ('f, 're) sget" where
  "expr_getters x rg 0 =
     \<lparr>get_int = \<lambda>i. outA Crash, get_float = \<lambda>i. outA Crash, get_stringview = \<lambda>i. outA Crash,
      get_type = type_at, is_const = is_const_at\<rparr>"
| "expr_getters x rg (Suc n) =
     \<lparr>get_int = expression_get_int x rg (expr_getters x rg n),
      get_float = expression_get_float x rg (expr_getters x rg n),
      get_stringview = expression_get_stringview x rg (expr_getters x rg n),
      get_type = type_at, is_const = is_const_at\<rparr>"

end
