(* ===== verification/ExprDepth.thy ===== *)
theory ExprDepth
  imports Expression
begin

text \<open>
  How deep an evaluation recurses. The operands of an expression are \<open>kids\<close>; in a store where
  a rank decreases along them (no expression is below itself), a depth above the rank is
  enough. Evaluation changes the store, but not its skeleton (\<open>same_shape\<close>).
\<close>

section \<open>Ranked stores\<close>

definition logic_kids :: "'re logic \<Rightarrow> nat set" where
  "logic_kids l = set_option (lexpr0 l) \<union> set_option (lexpr1 l) \<union>
     (case in_vec l of None \<Rightarrow> {} | Some es \<Rightarrow> set es)"

definition case_kids :: "('f, 're) store \<Rightarrow> switchcase \<Rightarrow> nat set" where
  "case_kids s sc = set (sc_values sc) \<union>
     (\<Union>lg \<in> set (sc_tests sc). \<Union>c \<in> snd ` set (predicates lg). case c of
        None \<Rightarrow> {} | Some l \<Rightarrow> if l < length (logics s) then logic_kids (logics s ! l) else {})"

definition kids :: "('f, 're) store \<Rightarrow> 'f expression \<Rightarrow> nat set" where
  "kids s e =
     (if expr e = EXPR_REFERENCE then set_option (data_source e)
      else if expr e = EXPR_FUNCTION then (case e_fn e of None \<Rightarrow> {} | Some fn \<Rightarrow> set (fn_args fn))
      else if expr e = EXPR_SWITCH_CASE then (case e_sc e of None \<Rightarrow> {} | Some sc \<Rightarrow> case_kids s sc)
      else {})"

definition ranked :: "('f, 're) store \<Rightarrow> (nat \<Rightarrow> nat) \<Rightarrow> bool" where
  "ranked s rank \<longleftrightarrow> (\<forall>i < length (exprs s). \<forall>j \<in> kids s (exprs s ! i). rank j < rank i)"

lemma agree_at_ptr:
  "(\<And>a. p = Some a \<Longrightarrow> agree I (k a) (k' a)) \<Longrightarrow> agree I (at_ptr p k) (at_ptr p k')"
  by (cases p) (simp_all add: at_ptr_def agree_outA)

lemma agree_logic_deref:
  assumes "agree I m m'" "\<And>a. agree I (k a) (k' a)"
  shows "agree I (logic_deref m k) (logic_deref m' k')"
  unfolding agree_def
proof (intro allI impI)
  fix s assume I: "I s"
  obtain r t where r: "m s = (r, t)" by force
  then have m: "m' s = (r, t)" "I t" using assms(1) I unfolding agree_def by auto
  have k: "k a t = k' a t" "I (snd (k' a t))" for a
    using assms(2) [of a] m(2) unfolding agree_def by auto
  show "logic_deref m k s = logic_deref m' k' s \<and> I (snd (logic_deref m k s))"
    using k r m by (cases r) (simp_all add: logic_deref_def)
qed

lemma agree_case_value:
  assumes "agree I m m'"
  shows "agree I (case_value m z) (case_value m' z)"
  unfolding agree_def
proof (intro allI impI)
  fix s assume I: "I s"
  obtain r t where r: "m s = (r, t)" by force
  then have "m' s = (r, t)" "I t" using assms I unfolding agree_def by auto
  then show "case_value m z s = case_value m' z s \<and> I (snd (case_value m z s))"
    using r by (auto simp: case_value_def split: outcome.splits option.splits)
qed


lemma agreeD: "agree I m m' \<Longrightarrow> I s \<Longrightarrow> m s = m' s" "agree I m m' \<Longrightarrow> I s \<Longrightarrow> I (snd (m' s))"
  by (metis agree_def)+

lemma agree_with_expr:
  assumes "\<And>e. i < length (exprs s0) \<Longrightarrow> expr_shape e = expr_shape (exprs s0 ! i) \<Longrightarrow>
    agree (same_shape s0) (k e) (k' e)"
  shows "agree (same_shape s0) (with_expr i k) (with_expr i k')"
  unfolding agree_def
proof (intro allI impI)
  fix s assume s: "same_shape s0 s"
  show "with_expr i k s = with_expr i k' s \<and> same_shape s0 (snd (with_expr i k s))"
  proof (cases "i < length (exprs s)")
    case True
    then have "agree (same_shape s0) (k (exprs s ! i)) (k' (exprs s ! i))"
      using assms same_shape_expr [OF s] same_shape_length [OF s] by simp
    from agreeD [OF this s] show ?thesis using True by (simp add: with_expr_def)
  next
    case False
    then show ?thesis using s by (simp add: with_expr_def)
  qed
qed

lemma agree_with_logic:
  assumes "\<And>l. i < length (logics s0) \<Longrightarrow> logic_shape l = logic_shape (logics s0 ! i) \<Longrightarrow>
    agree (same_shape s0) (k l) (k' l)"
  shows "agree (same_shape s0) (with_logic i k) (with_logic i k')"
  unfolding agree_def
proof (intro allI impI)
  fix s assume s: "same_shape s0 s"
  show "with_logic i k s = with_logic i k' s \<and> same_shape s0 (snd (with_logic i k s))"
  proof (cases "i < length (logics s)")
    case True
    then have "agree (same_shape s0) (k (logics s ! i)) (k' (logics s ! i))"
      using assms same_shape_logic [OF s] same_shape_length [OF s] by simp
    from agreeD [OF this s] show ?thesis using True by (simp add: with_logic_def)
  next
    case False
    then show ?thesis using s by (simp add: with_logic_def)
  qed
qed

text \<open>Storing a cached conversion, set or expression keeps the skeleton.\<close>

lemma agree_set_expr:
  assumes "i < length (exprs s0)" "expr_shape e = expr_shape (exprs s0 ! i)"
  shows "agree (same_shape s0) (\<lambda>s. (r, set_expr i e s)) (\<lambda>s. (r, set_expr i e s))"
  using assms by (auto simp: agree_def same_shape_length same_shape_expr intro!: same_shape_set_expr)

lemma agree_set_logic:
  assumes "i < length (logics s0)" "logic_shape l = logic_shape (logics s0 ! i)"
  shows "agree (same_shape s0) (\<lambda>s. (r, set_logic i l s)) (\<lambda>s. (r, set_logic i l s))"
  using assms by (auto simp: agree_def same_shape_length same_shape_logic intro!: same_shape_set_logic)

lemma agree_const_value:
  assumes "i < length (exprs s0)" "expr_shape e = expr_shape (exprs s0 ! i)" "expr e = EXPR_CONST"
  shows "agree (same_shape s0) (const_value i e r) (const_value i e r)"
proof -
  obtain v u t where r: "r = (v, u, t)" by (cases r)
  have "expr_shape (e\<lparr>e_field := u, e_type := t\<rparr>) = expr_shape (exprs s0 ! i)"
    using assms(2,3) by (simp add: expr_shape_def)
  from agree_set_expr [OF assms(1) this, of v] show ?thesis
    by (simp add: r const_value_def [abs_def])
qed

lemma agree_call_value:
  assumes "\<And>fn. e_fn e = Some fn \<Longrightarrow> \<forall>a \<in> set (fn_args fn). getters_agree I G G' a"
  shows "agree I (call_value x G e conv) (call_value x G' e conv)"
proof -
  have "agree I (call_fn (x_flt x) G (call fn) (fn_data.truncate fn))
      (call_fn (x_flt x) G' (call fn) (fn_data.truncate fn))" if "e_fn e = Some fn" for fn
    by (rule call_fn_agree) (use assms [OF that] in \<open>simp add: fn_data.defs\<close>)
  moreover have "agree I (case u of UInt n \<Rightarrow> outA (a u) | UFloat f \<Rightarrow> outA (b u) | UStr s \<Rightarrow> outA (c u))
      (case u of UInt n \<Rightarrow> outA (a u) | UFloat f \<Rightarrow> outA (b u) | UStr s \<Rightarrow> outA (c u))" for u a b c
    by (cases u) (simp_all add: agree_outA)
  ultimately show ?thesis
    unfolding call_value_def by (intro agree_at_ptr agree_derefA)
qed

section \<open>Predicates\<close>

definition kids_agree :: "('s \<Rightarrow> bool) \<Rightarrow> ('s, 'f) getters \<Rightarrow> ('s, 'f) getters \<Rightarrow> nat set \<Rightarrow> bool" where
  "kids_agree I G G' A \<longleftrightarrow> (\<forall>a \<in> A. getters_agree I G G' a)"

lemma kids_agreeD:
  assumes "kids_agree I G G' A" "a \<in> A"
  shows "agree I (get_int G a) (get_int G' a)" "agree I (get_float G a) (get_float G' a)"
    "agree I (get_stringview G a) (get_stringview G' a)"
  using assms by (simp_all add: kids_agree_def getters_agree_def)

lemma agree_in_loop:
  "(\<And>a. a \<in> set es \<Longrightarrow> agree I (get a) (get' a)) \<Longrightarrow> agree I (in_loop get eq es) (in_loop get' eq es)"
  by (induction es) (auto intro!: agree_outA agree_logic_deref)

lemma agree_subin: "agree (same_shape s0) (subin i key) (subin i key)"
  unfolding subin_def
proof (intro agree_with_logic agree_at_ptr)
  fix l d st
  assume l: "i < length (logics s0)" "logic_shape l = logic_shape (logics s0 ! i)" "in_data l = Some d"
  have "logic_shape (l\<lparr>in_data := Some (d\<lparr>list_data := Some st'\<rparr>)\<rparr>) = logic_shape (logics s0 ! i)" for st'
    using l(2,3) by (simp add: logic_shape_def)
  note agree_set_logic [OF l(1) this]
  then show "agree (same_shape s0)
      (\<lambda>s. case set_nhas st key of None \<Rightarrow> (Crash, s) | Some (b, st') \<Rightarrow> (Good b, set_logic i (l\<lparr>in_data := Some (d\<lparr>list_data := Some st'\<rparr>)\<rparr>) s))
      (\<lambda>s. case set_nhas st key of None \<Rightarrow> (Crash, s) | Some (b, st') \<Rightarrow> (Good b, set_logic i (l\<lparr>in_data := Some (d\<lparr>list_data := Some st'\<rparr>)\<rparr>) s))"
    by (cases "set_nhas st key") (auto simp: agree_def)
qed

lemma agree_like_update: "agree (same_shape s0) (like_update x i sv) (like_update x i sv)"
  unfolding like_update_def
proof (intro agree_with_logic agree_at_ptr)
  fix l d
  assume l: "i < length (logics s0)" "logic_shape l = logic_shape (logics s0 ! i)"
  have "logic_shape (l\<lparr>like_data := Some d'\<rparr>) = logic_shape (logics s0 ! i)" for d'
    using l(2) by (simp add: logic_shape_def)
  note agree_set_logic [OF l(1) this]
  then show "agree (same_shape s0)
      (\<lambda>s. case like_to_regex (x_compile x) d sv of (Crash, d') \<Rightarrow> (Crash, s)
        | (_, d') \<Rightarrow> (Good (), set_logic i (l\<lparr>like_data := Some d'\<rparr>) s))
      (\<lambda>s. case like_to_regex (x_compile x) d sv of (Crash, d') \<Rightarrow> (Crash, s)
        | (_, d') \<Rightarrow> (Good (), set_logic i (l\<lparr>like_data := Some d'\<rparr>) s))"
    by (cases "like_to_regex (x_compile x) d sv"; cases "fst (like_to_regex (x_compile x) d sv)") (auto simp: agree_def)
qed

lemma agree_like_match: "agree (same_shape s0) (like_match x i sv) (like_match x i sv)"
  unfolding like_match_def by (intro agree_with_logic agree_at_ptr agree_outA)

lemma agree_pairs:
  assumes "kids_agree I G G' (logic_kids l)"
  shows "agree I (get_integers G l f) (get_integers G' l f)"
    "agree I (get_floats G l g) (get_floats G' l g)"
    "agree I (get_stringviews G l h) (get_stringviews G' l h)"
  unfolding get_integers_def get_floats_def get_stringviews_def
  by (intro agree_logic_deref agree_at_ptr agree_outA kids_agreeD [OF assms]; simp add: logic_kids_def)+

lemma agree_fst_operand:
  assumes "kids_agree I G G' (logic_kids l)"
  shows "agree I (at_ptr (lexpr0 l) (get_int G)) (at_ptr (lexpr0 l) (get_int G'))"
    "agree I (at_ptr (lexpr0 l) (get_float G)) (at_ptr (lexpr0 l) (get_float G'))"
    "agree I (at_ptr (lexpr0 l) (get_stringview G)) (at_ptr (lexpr0 l) (get_stringview G'))"
  by (intro agree_at_ptr kids_agreeD [OF assms]; simp add: logic_kids_def)+

lemma agree_in_vec:
  assumes "kids_agree I G G' (logic_kids l)"
  shows "agree I (at_ptr (in_vec l) (in_loop (get_int G) p)) (at_ptr (in_vec l) (in_loop (get_int G') p))"
    "agree I (at_ptr (in_vec l) (in_loop (get_float G) q)) (at_ptr (in_vec l) (in_loop (get_float G') q))"
    "agree I (at_ptr (in_vec l) (in_loop (get_stringview G) r)) (at_ptr (in_vec l) (in_loop (get_stringview G') r))"
  by (intro agree_at_ptr agree_in_loop kids_agreeD [OF assms]; simp add: logic_kids_def)+

lemma agree_is_null:
  assumes "kids_agree I G G' (logic_kids l)"
  shows "agree I (fql_logic_is_null G l) (fql_logic_is_null G' l)"
  unfolding agree_def
proof (intro allI impI)
  fix s assume I: "I s"
  obtain r t where r: "at_ptr (lexpr0 l) (get_stringview G) s = (r, t)" by force
  then have "at_ptr (lexpr0 l) (get_stringview G') s = (r, t)" "I t"
    using agree_fst_operand(3) [OF assms] I unfolding agree_def by auto
  then show "fql_logic_is_null G l s = fql_logic_is_null G' l s \<and> I (snd (fql_logic_is_null G l s))"
    using r by (cases r) (simp_all add: fql_logic_is_null_def)
qed

lemma agree_like:
  assumes "kids_agree (same_shape s0) G G' (logic_kids l)"
  shows "agree (same_shape s0) (fql_logic_like x G i l) (fql_logic_like x G' i l)"
  unfolding fql_logic_like_def
proof (intro agree_logic_deref agree_fst_operand(3) [OF assms] agree_at_ptr agree_with_expr agree_if
    agree_derefA agree_like_update agree_like_match)
  fix e1 assume "lexpr1 l = Some e1"
  then show "agree (same_shape s0) (get_stringview G e1) (get_stringview G' e1)"
    by (intro kids_agreeD [OF assms]) (simp add: logic_kids_def)
qed

lemma logic_kids_shape: "logic_shape l = logic_shape l' \<Longrightarrow> logic_kids l = logic_kids l'"
  using logic_shape_eq [of l l']
  by (auto simp: logic_kids_def in_vec_def split: option.splits)

lemma agree_call_logic:
  assumes "kids_agree (same_shape s0) G G' (logic_kids l)"
  shows "agree (same_shape s0) (call_logic x G i l c) (call_logic x G' i l c)"
proof -
  note intros = agree_pairs [OF assms] agree_fst_operand [OF assms] agree_in_vec [OF assms]
    agree_is_null [OF assms] agree_like [OF assms] agree_logic_deref agree_subin
  show ?thesis
    by (cases c) (simp_all add: call_logic_def fql_logic_eq_i_def fql_logic_eq_f_def fql_logic_eq_s_def fql_logic_ne_i_def
      fql_logic_ne_f_def fql_logic_ne_s_def fql_logic_gt_i_def fql_logic_gt_f_def fql_logic_gt_s_def
      fql_logic_ge_i_def fql_logic_ge_f_def fql_logic_ge_s_def fql_logic_lt_i_def fql_logic_lt_f_def
      fql_logic_lt_s_def fql_logic_le_i_def fql_logic_le_f_def fql_logic_le_s_def fql_logic_in_i_def
      fql_logic_in_f_def fql_logic_in_s_def fql_logic_subin_i_def fql_logic_subin_f_def
      fql_logic_subin_s_def intros)
qed

lemma agree_logic_eval:
  assumes "i < length (logics s0) \<Longrightarrow> kids_agree (same_shape s0) G G' (logic_kids (logics s0 ! i))"
  shows "agree (same_shape s0) (logic_eval x G i) (logic_eval x G' i)"
  unfolding logic_eval_def
proof (intro agree_with_logic agree_at_ptr agree_call_logic)
  fix l
  assume "i < length (logics s0)" "logic_shape l = logic_shape (logics s0 ! i)"
  then show "kids_agree (same_shape s0) G G' (logic_kids l)"
    using assms logic_kids_shape by metis
qed

section \<open>CASE and the accessors\<close>

lemma agree_logicgroup_eval:
  assumes "\<And>l. Some l \<in> snd ` set (predicates g) \<Longrightarrow> agree I (ev l) (ev' l)"
  shows "agree I (logicgroup_eval ev skip g) (logicgroup_eval ev' skip g)"
  using assms
proof (induction g)
  case (LG_PREDICATE neg c)
  then show ?case by (cases c) (auto intro!: agree_outA agree_derefA)
qed (simp; intro agree_derefA agree_if agree_outA; force)+

lemma agree_eval_tests:
  assumes "\<And>lg l. lg \<in> set lgs \<Longrightarrow> Some l \<in> snd ` set (predicates lg) \<Longrightarrow> agree I (ev l) (ev' l)"
  shows "agree I (eval_tests ev lgs i) (eval_tests ev' lgs i)"
  using assms
proof (induction lgs arbitrary: i)
  case Nil
  then show ?case by (simp add: agree_outA)
next
  case (Cons lg lgs)
  have "agree I (logicgroup_eval ev None lg) (logicgroup_eval ev' None lg)"
    by (rule agree_logicgroup_eval) (use Cons.prems in auto)
  then show ?case by (auto intro!: agree_derefA agree_if agree_outA Cons.IH Cons.prems)
qed

lemma agree_switchcase:
  assumes "\<And>lg l. lg \<in> set (sc_tests sc) \<Longrightarrow> Some l \<in> snd ` set (predicates lg) \<Longrightarrow> agree I (ev l) (ev' l)"
    and "\<And>v. v \<in> set (sc_values sc) \<Longrightarrow> agree I (get v) (get' v)"
  shows "agree I (switchcase_eval ev get none sc) (switchcase_eval ev' get' none sc)"
proof -
  have idx: "agree I (logic_eval_idx ev sc) (logic_eval_idx ev' sc)"
    unfolding logic_eval_idx_def
  proof (rule agree_derefA [OF agree_eval_tests [OF assms(1)]])
    fix r :: "nat option"
    show "agree I (case r of Some i \<Rightarrow> outA (Good (Some i)) | None \<Rightarrow> outA (Good (c r)))
        (case r of Some i \<Rightarrow> outA (Good (Some i)) | None \<Rightarrow> outA (Good (c r)))" for c
      by (cases r) (simp_all add: agree_outA)
  qed
  show ?thesis
    unfolding switchcase_eval_def
  proof (rule agree_derefA [OF idx])
    fix r :: "nat option"
    show "agree I (case r of None \<Rightarrow> outA (Null (Some none))
          | Some i \<Rightarrow> if i < length (sc_values sc) then get (sc_values sc ! i) else outA Crash)
        (case r of None \<Rightarrow> outA (Null (Some none))
          | Some i \<Rightarrow> if i < length (sc_values sc) then get' (sc_values sc ! i) else outA Crash)"
      using assms(2) by (cases r) (auto simp: agree_outA)
  qed
qed

lemma agree_switchcases:
  assumes "kids_agree (same_shape s0) G G' (case_kids s0 sc)"
  shows "agree (same_shape s0) (switchcase_eval_to_int x G sc) (switchcase_eval_to_int x G' sc)"
    "agree (same_shape s0) (switchcase_eval_to_float x G sc) (switchcase_eval_to_float x G' sc)"
    "agree (same_shape s0) (switchcase_eval_to_stringview x G sc) (switchcase_eval_to_stringview x G' sc)"
proof -
  have "logic_kids (logics s0 ! l) \<subseteq> case_kids s0 sc"
    if "lg \<in> set (sc_tests sc)" "Some l \<in> snd ` set (predicates lg)" "l < length (logics s0)" for lg l
    using that by (force simp: case_kids_def)
  then have ev: "agree (same_shape s0) (logic_eval x G l) (logic_eval x G' l)"
    if "lg \<in> set (sc_tests sc)" "Some l \<in> snd ` set (predicates lg)" for lg l
    using that assms by (intro agree_logic_eval) (auto simp: kids_agree_def)
  have val: "v \<in> set (sc_values sc) \<Longrightarrow> v \<in> case_kids s0 sc" for v
    by (simp add: case_kids_def)
  show "agree (same_shape s0) (switchcase_eval_to_int x G sc) (switchcase_eval_to_int x G' sc)"
    "agree (same_shape s0) (switchcase_eval_to_float x G sc) (switchcase_eval_to_float x G' sc)"
    "agree (same_shape s0) (switchcase_eval_to_stringview x G sc) (switchcase_eval_to_stringview x G' sc)"
    unfolding switchcase_eval_to_int_def switchcase_eval_to_float_def switchcase_eval_to_stringview_def
    by (intro agree_switchcase ev kids_agreeD [OF assms] val; assumption)+
qed

lemma kids_shape: "expr_shape e = expr_shape e' \<Longrightarrow> kids s e = kids s e'"
  using expr_shape_eq [of e e'] by (simp add: kids_def)

lemma agree_source:
  "agree (same_shape s0) (with_expr d (\<lambda>src. outA (c src))) (with_expr d (\<lambda>src. outA (c src)))"
  by (intro agree_with_expr agree_outA)

lemma agree_read: "agree I (\<lambda>s. (r s, s)) (\<lambda>s. (r s, s))"
  by (simp add: agree_def)

lemma agree_record:
  "agree I (case q of None \<Rightarrow> outA a | Some rec \<Rightarrow> outA (b rec)) (case q of None \<Rightarrow> outA a | Some rec \<Rightarrow> outA (b rec))"
  by (cases q) (simp_all add: agree_outA)

lemma agree_operands:
  assumes "i < length (exprs s0)" "expr_shape e = expr_shape (exprs s0 ! i)"
    and "kids_agree (same_shape s0) G G' (kids s0 (exprs s0 ! i))"
  shows "expr e = EXPR_REFERENCE \<Longrightarrow> agree (same_shape s0) (at_ptr (data_source e) (get_int G)) (at_ptr (data_source e) (get_int G'))"
    "expr e = EXPR_REFERENCE \<Longrightarrow> agree (same_shape s0) (at_ptr (data_source e) (get_float G)) (at_ptr (data_source e) (get_float G'))"
    "expr e = EXPR_REFERENCE \<Longrightarrow> agree (same_shape s0) (at_ptr (data_source e) (get_stringview G)) (at_ptr (data_source e) (get_stringview G'))"
    "expr e = EXPR_FUNCTION \<Longrightarrow> agree (same_shape s0) (call_value x G e conv) (call_value x G' e conv)"
    "expr e = EXPR_SWITCH_CASE \<Longrightarrow> agree (same_shape s0)
       (at_ptr (e_sc e) (\<lambda>sc. case_value (switchcase_eval_to_int x G sc) z))
       (at_ptr (e_sc e) (\<lambda>sc. case_value (switchcase_eval_to_int x G' sc) z))"
    "expr e = EXPR_SWITCH_CASE \<Longrightarrow> agree (same_shape s0)
       (at_ptr (e_sc e) (\<lambda>sc. case_value (switchcase_eval_to_float x G sc) z'))
       (at_ptr (e_sc e) (\<lambda>sc. case_value (switchcase_eval_to_float x G' sc) z'))"
    "expr e = EXPR_SWITCH_CASE \<Longrightarrow> agree (same_shape s0)
       (at_ptr (e_sc e) (\<lambda>sc. case_value (switchcase_eval_to_stringview x G sc) z''))
       (at_ptr (e_sc e) (\<lambda>sc. case_value (switchcase_eval_to_stringview x G' sc) z''))"
proof -
  have e: "kids_agree (same_shape s0) G G' (kids s0 e)" using assms(3) kids_shape [OF assms(2), of s0] by simp
  show "expr e = EXPR_REFERENCE \<Longrightarrow> agree (same_shape s0) (at_ptr (data_source e) (get_int G)) (at_ptr (data_source e) (get_int G'))"
    "expr e = EXPR_REFERENCE \<Longrightarrow> agree (same_shape s0) (at_ptr (data_source e) (get_float G)) (at_ptr (data_source e) (get_float G'))"
    "expr e = EXPR_REFERENCE \<Longrightarrow> agree (same_shape s0) (at_ptr (data_source e) (get_stringview G)) (at_ptr (data_source e) (get_stringview G'))"
    using kids_agreeD [OF e] by (auto intro!: agree_at_ptr simp: kids_def)
  show "expr e = EXPR_FUNCTION \<Longrightarrow> agree (same_shape s0) (call_value x G e conv) (call_value x G' e conv)"
    using e by (intro agree_call_value) (simp add: kids_agree_def kids_def)
  have sc: "kids_agree (same_shape s0) G G' (case_kids s0 sc)" if "expr e = EXPR_SWITCH_CASE" "e_sc e = Some sc" for sc
    using e that by (simp add: kids_def)
  note cases = agree_case_value [OF agree_switchcases(1) [OF sc]] agree_case_value [OF agree_switchcases(2) [OF sc]]
    agree_case_value [OF agree_switchcases(3) [OF sc]]
  show "expr e = EXPR_SWITCH_CASE \<Longrightarrow> agree (same_shape s0)
       (at_ptr (e_sc e) (\<lambda>sc. case_value (switchcase_eval_to_int x G sc) z))
       (at_ptr (e_sc e) (\<lambda>sc. case_value (switchcase_eval_to_int x G' sc) z))"
    "expr e = EXPR_SWITCH_CASE \<Longrightarrow> agree (same_shape s0)
       (at_ptr (e_sc e) (\<lambda>sc. case_value (switchcase_eval_to_float x G sc) z'))
       (at_ptr (e_sc e) (\<lambda>sc. case_value (switchcase_eval_to_float x G' sc) z'))"
    "expr e = EXPR_SWITCH_CASE \<Longrightarrow> agree (same_shape s0)
       (at_ptr (e_sc e) (\<lambda>sc. case_value (switchcase_eval_to_stringview x G sc) z''))
       (at_ptr (e_sc e) (\<lambda>sc. case_value (switchcase_eval_to_stringview x G' sc) z''))"
    by (intro agree_at_ptr cases; assumption)+
qed

text \<open>One step of the three accessors, over accessors that agree on the operands.\<close>

lemma agree_expression_step:
  assumes "i < length (exprs s0) \<Longrightarrow> kids_agree (same_shape s0) G G' (kids s0 (exprs s0 ! i))"
  shows "agree (same_shape s0) (expression_get_int x rg G i) (expression_get_int x rg G' i)"
    "agree (same_shape s0) (expression_get_float x rg G i) (expression_get_float x rg G' i)"
    "agree (same_shape s0) (expression_get_stringview x rg G i) (expression_get_stringview x rg G' i)"
proof -
  note leaves = agree_outA agree_source agree_read agree_record agree_at_ptr
  show "agree (same_shape s0) (expression_get_int x rg G i) (expression_get_int x rg G' i)"
    unfolding expression_get_int_def
    apply (rule agree_with_expr)
    subgoal premises p for e
      by (cases "expr e")
        (simp_all add: leaves agree_operands [OF p assms [OF p(1)]] agree_const_value [OF p])
    done
  show "agree (same_shape s0) (expression_get_float x rg G i) (expression_get_float x rg G' i)"
    unfolding expression_get_float_def Let_def
    apply (rule agree_with_expr)
    subgoal premises p for e
      by (cases "expr e")
        (simp_all add: leaves agree_operands [OF p assms [OF p(1)]] agree_const_value [OF p])
    done
  show "agree (same_shape s0) (expression_get_stringview x rg G i) (expression_get_stringview x rg G' i)"
    unfolding expression_get_stringview_def
    apply (rule agree_with_expr)
    subgoal premises p for e
      by (cases "expr e")
        (simp_all add: leaves agree_operands [OF p assms [OF p(1)]] agree_const_value [OF p])
    done
qed

lemma ranked_kids: "ranked s rank \<Longrightarrow> i < length (exprs s) \<Longrightarrow> j \<in> kids s (exprs s ! i) \<Longrightarrow> rank j < rank i"
  by (simp add: ranked_def)

text \<open>A depth above the rank of an expression is as good as any larger one.\<close>

lemma expr_getters_depth:
  assumes "ranked s0 rank" "rank i < n" "n \<le> m"
  shows "getters_agree (same_shape s0) (expr_getters x rg n) (expr_getters x rg m) i"
  using assms(2,3)
proof (induction n arbitrary: i m)
  case 0
  then show ?case by simp
next
  case (Suc n)
  then obtain m' where m: "m = Suc m'" "n \<le> m'" by (cases m) auto
  have "kids_agree (same_shape s0) (expr_getters x rg n) (expr_getters x rg m') (kids s0 (exprs s0 ! i))"
    if "i < length (exprs s0)"
    unfolding kids_agree_def
  proof
    fix j assume "j \<in> kids s0 (exprs s0 ! i)"
    then have "rank j < n" using ranked_kids [OF assms(1) that] Suc.prems(1) by fastforce
    then show "getters_agree (same_shape s0) (expr_getters x rg n) (expr_getters x rg m') j"
      using Suc.IH m(2) by blast
  qed
  from agree_expression_step [OF this] show ?case
    by (simp add: m(1) getters_agree_def)
qed

end
