(* ===== verification/ExprOps.thy ===== *)
theory ExprOps
  imports ExprDepth
begin

text \<open>
  Construction, linking, casts and tests of expressions (lib/expression.c), and the
  resolution of operators and CASE at the level of the store (lib/function.c,
  lib/switchcase.c).
\<close>

section \<open>Construction\<close>

text \<open>The pointer \<open>data\<close> is read as the kind of the expression demands.\<close>

datatype expr_data = No_data | Data_name string | Data_case switchcase | Data_function scalar_fn
  | Data_aggregate nat | Data_subquery nat

definition blank_expression :: "expr_type \<Rightarrow> string \<Rightarrow> 'f expression" where
  "blank_expression ty table =
     \<lparr>expr = ty, data_source = None, e_subquery = None, rownum_ref = None, e_name = [], e_alias = [],
      table_name = table, e_type = FIELD_UNDEFINED, e_field = UInt 0, e_fn = None, e_sc = None, e_agg = None,
      e_index = 0, e_location = 0, e_width = 0, e_src_idx = 0, subquery_src_idx = - 1, descending = False,
      is_passthrough = False\<rparr>"

definition expression_construct :: "expr_type \<Rightarrow> expr_data \<Rightarrow> string \<Rightarrow> 'f expression option" where
  "expression_construct ty data table =
     (let self = blank_expression ty table in
      case ty of
        EXPR_ROW_NUMBER \<Rightarrow>
          (case data of Data_name s \<Rightarrow> Some (self\<lparr>e_type := FIELD_INT, e_alias := s, e_name := s\<rparr>) | _ \<Rightarrow> None)
      | EXPR_FULL_RECORD \<Rightarrow>
          (case data of Data_name s \<Rightarrow> Some (self\<lparr>e_type := FIELD_STRING, e_alias := s, e_name := s\<rparr>) | _ \<Rightarrow> None)
      | EXPR_COLUMN_NAME \<Rightarrow>
          (case data of Data_name s \<Rightarrow> Some (self\<lparr>e_alias := s, e_name := s\<rparr>) | _ \<Rightarrow> None)
      | EXPR_SWITCH_CASE \<Rightarrow> (case data of Data_case sc \<Rightarrow> Some (self\<lparr>e_sc := Some sc\<rparr>) | _ \<Rightarrow> None)
      | EXPR_FUNCTION \<Rightarrow> (case data of Data_function fn \<Rightarrow> Some (self\<lparr>e_fn := Some fn\<rparr>) | _ \<Rightarrow> None)
      | EXPR_AGGREGATE \<Rightarrow> (case data of Data_aggregate a \<Rightarrow> Some (self\<lparr>e_agg := Some a\<rparr>) | _ \<Rightarrow> None)
      | EXPR_SUBQUERY \<Rightarrow> (case data of Data_subquery q \<Rightarrow> Some (self\<lparr>e_subquery := Some q\<rparr>) | _ \<Rightarrow> None)
      | EXPR_NULL \<Rightarrow> Some (self\<lparr>e_type := FIELD_STRING\<rparr>)
      | _ \<Rightarrow> Some self)"

text \<open>
  The copy of a CASE operand. Its union is copied as it is, so the string of a copied
  constant is still that of the original.
\<close>

definition expression_copy :: "'f expression \<Rightarrow> 'f expression" where
  "expression_copy src =
     (blank_expression (expr src) (table_name src))
       \<lparr>e_name := e_name src, e_alias := e_alias src, e_type := e_type src, e_field := e_field src,
        e_fn := e_fn src, e_sc := e_sc src, e_agg := e_agg src, subquery_src_idx := 0\<rparr>"

text \<open>
  The link of a reference to its source. The second result is \<open>max_idx\<close> of the reader of the
  source table, the third the aggregate whose \<open>linked_expression\<close> becomes the reference.
\<close>

definition expression_link :: "'f expression \<Rightarrow> nat \<Rightarrow> 'f expression \<Rightarrow> nat option \<Rightarrow>
    'f expression \<times> nat option \<times> nat option" where
  "expression_link dest src_idx src max_idx =
     (dest\<lparr>data_source := Some src_idx, e_type := e_type src, e_location := e_location src,
        e_width := e_width src\<rparr>,
      (case max_idx of None \<Rightarrow> None | Some m \<Rightarrow> Some (if e_index src > m then e_index src else m)),
      (if expr src = EXPR_AGGREGATE then e_agg src else None))"

text \<open>\<open>expr_map\<close> of the schema of the table, a multimap from names to expressions.\<close>

definition expression_try_assign_source ::
    "'f expression list \<Rightarrow> 'f expression \<Rightarrow> int \<Rightarrow> bool \<Rightarrow> nat \<Rightarrow> (string \<Rightarrow> nat list option) \<Rightarrow>
     (nat \<times> 'f expression \<times> nat) option" where
  "expression_try_assign_source es self idx is_subquery max_idx expr_map =
     (if expr self = EXPR_FULL_RECORD \<or> expr self = EXPR_ROW_NUMBER
      then Some (1, self\<lparr>e_src_idx := idx\<rparr>, max_idx)
      else case expr_map (e_name self) of
        None \<Rightarrow> Some (0, self, max_idx)
      | Some [] \<Rightarrow> None
      | Some (m # ms) \<Rightarrow>
          if m < length es
          then (case expression_link self m (es ! m) (Some max_idx) of
                  (e, mx, _) \<Rightarrow> Some (length (m # ms),
                    (if is_subquery then e\<lparr>subquery_src_idx := idx\<rparr> else e), the mx))
          else None)"

definition expression_update_indicies :: "nat list \<Rightarrow> 'f expression list \<Rightarrow> 'f expression list" where
  "expression_update_indicies expr_vec es =
     fold (\<lambda>(i, p) es. es[p := (es ! p)\<lparr>e_index := i\<rparr>]) (enumerate 0 expr_vec) es"

section \<open>Constants\<close>

text \<open>\<open>None\<close> when the depth is not enough or a pointer is not valid.\<close>

definition all_const :: "(nat \<Rightarrow> bool option) \<Rightarrow> nat list \<Rightarrow> bool option" where
  "all_const const es = foldr (\<lambda>e r. case const e of Some True \<Rightarrow> r | b \<Rightarrow> b) es (Some True)"

primrec expression_is_const :: "nat \<Rightarrow> 'f expression list \<Rightarrow> nat \<Rightarrow> bool option" where
  "expression_is_const 0 es i = None"
| "expression_is_const (Suc n) es i =
     (if i \<ge> length es then None
      else let self = es ! i; list_is_const = all_const (expression_is_const n es) in
        case expr self of
          EXPR_CONST \<Rightarrow> Some True
        | EXPR_SUBQUERY \<Rightarrow> Some True
        | EXPR_NULL \<Rightarrow> Some True
        | EXPR_SWITCH_CASE \<Rightarrow>
            (case e_sc self of
               None \<Rightarrow> None
             | Some sc \<Rightarrow> list_is_const (sc_values sc @ concat (sc_test_exprs sc)))
        | EXPR_FUNCTION \<Rightarrow> (case e_fn self of None \<Rightarrow> None | Some fn \<Rightarrow> list_is_const (fn_args fn))
        | _ \<Rightarrow> Some False)"

section \<open>Types\<close>

definition expression_type_check :: "('f, 're) ext \<Rightarrow> ('f, 're) sget \<Rightarrow> nat \<Rightarrow> ('f, 're, unit) sact" where
  "expression_type_check x G i = with_expr i (\<lambda>self.
     case e_type self of
       FIELD_INT \<Rightarrow> tryA 0 (get_int G i) (\<lambda>_ _. outA (Good ()))
     | FIELD_FLOAT \<Rightarrow> tryA (f_zero (x_flt x)) (get_float G i) (\<lambda>_ _. outA (Good ()))
     | FIELD_STRING \<Rightarrow> outA (Good ())
     | FIELD_UNDEFINED \<Rightarrow> outA Fail)"

definition store_value :: "nat \<Rightarrow> field_type \<Rightarrow> 'f field \<Rightarrow> ('f, 're, unit) sact" where
  "store_value i t u = with_expr i (\<lambda>self s. (Good (), set_expr i (self\<lparr>e_type := t, e_field := u\<rparr>) s))"

text \<open>A cast to a string ends in \<open>FQL_FAIL\<close> after it has been carried out.\<close>

definition expression_cast :: "('f, 're) ext \<Rightarrow> ('f, 're) sget \<Rightarrow> nat \<Rightarrow> field_type \<Rightarrow> ('f, 're, unit) sact" where
  "expression_cast x G i new_type = with_expr i (\<lambda>self.
     if e_type self = new_type then outA (Good ())
     else if expr self \<noteq> EXPR_CONST then (\<lambda>s. (Good (), set_expr i (self\<lparr>e_type := new_type\<rparr>) s))
     else case new_type of
       FIELD_INT \<Rightarrow> tryA 0 (get_int G i) (\<lambda>num _. store_value i FIELD_INT (UInt num))
     | FIELD_FLOAT \<Rightarrow> tryA (f_zero (x_flt x)) (get_float G i) (\<lambda>num _. store_value i FIELD_FLOAT (UFloat num))
     | FIELD_STRING \<Rightarrow> tryA (view_of []) (get_stringview G i) (\<lambda>sv _.
         (case strncpy_view sv 0 (sv_len sv) of
            Good t \<Rightarrow> (\<lambda>s. case store_value i FIELD_STRING (UStr t) s of (_, s') \<Rightarrow> (Fail, s'))
          | _ \<Rightarrow> outA Crash))
     | FIELD_UNDEFINED \<Rightarrow> outA Fail)"

text \<open>The value of a variable becomes that of the constant that names it.\<close>

definition expression_set_variable :: "'f expression \<Rightarrow> 'f variable \<Rightarrow> unit outcome \<times> 'f expression" where
  "expression_set_variable self var =
     (if is_null var then (Good (), self\<lparr>expr := EXPR_NULL\<rparr>)
      else let e = self\<lparr>expr := EXPR_CONST\<rparr> in
        if var_type var = SQL_UNDEFINED then (Fail, e)
        else (case variable_get_field_type (var_type var) of
          FIELD_INT \<Rightarrow>
            (case var_value var of UInt n \<Rightarrow> (Good (), e\<lparr>e_type := FIELD_INT, e_field := UInt n\<rparr>) | _ \<Rightarrow> (Crash, e))
        | FIELD_FLOAT \<Rightarrow>
            (case var_value var of UFloat f \<Rightarrow> (Good (), e\<lparr>e_type := FIELD_FLOAT, e_field := UFloat f\<rparr>) | _ \<Rightarrow> (Crash, e))
        | FIELD_STRING \<Rightarrow>
            (case var_value var of UStr s \<Rightarrow> (Good (), e\<lparr>e_type := FIELD_STRING, e_field := UStr s\<rparr>) | _ \<Rightarrow> (Crash, e))
        | FIELD_UNDEFINED \<Rightarrow> (Fail, e)))"

section \<open>Operators and CASE\<close>

text \<open>
  \<open>function_op_resolve\<close> of the expression \<open>i\<close>, whose call is that operator; aggregates among
  its operands have been resolved. \<open>self->args->data[0]\<close> is read without a check.
\<close>

definition function_op_resolve :: "'f expression list \<Rightarrow> scalar_fn \<Rightarrow> field_type \<Rightarrow>
    unit outcome \<times> scalar_fn \<times> field_type" where
  "function_op_resolve es self type =
     (case op_index (fn_type self) of
        None \<Rightarrow> (Good (), self, type)
      | Some op \<Rightarrow>
          (case fn_args self of
             [] \<Rightarrow> (Crash, self, type)
           | a # as \<Rightarrow>
               let b = (if length as = 1 then hd as else a) in
               if a < length es \<and> b < length es
               then op_resolve_types self op (e_type (es ! a)) (e_type (es ! b))
               else (Crash, self, type)))"

text \<open>
  The type in a CAST (\<open>query_apply_data_type\<close>), which sets the C function and the type of the
  expression on top of the function stack.
\<close>

definition libfql_get_sql_type :: "string \<Rightarrow> sql_type" where
  "libfql_get_sql_type type_str =
     (if istring_eq type_str ''int'' \<or> istring_eq type_str ''bigint'' \<or> istring_eq type_str ''tinyint'' \<or>
         istring_eq type_str ''smallint'' then SQL_INT
      else if istring_eq type_str ''bit'' then SQL_BIT
      else if istring_eq type_str ''float'' \<or> istring_eq type_str ''real'' then SQL_FLOAT
      else if istring_eq type_str ''varchar'' \<or> istring_eq type_str ''nvarchar'' then SQL_VARCHAR
      else if istring_eq type_str ''text'' \<or> istring_eq type_str ''ntext'' then SQL_TEXT
      else if istring_eq type_str ''char'' \<or> istring_eq type_str ''nchar'' then SQL_CHAR
      else SQL_UNDEFINED)"

definition query_apply_data_type :: "scalar_fn \<Rightarrow> field_type \<Rightarrow> string \<Rightarrow> unit outcome \<times> scalar_fn \<times> field_type" where
  "query_apply_data_type fn type type_str =
     (case libfql_get_sql_type type_str of
        SQL_INT \<Rightarrow> (Good (), fn\<lparr>call := Fql_cast_int\<rparr>, FIELD_INT)
      | SQL_BIT \<Rightarrow> (Good (), fn\<lparr>call := Fql_cast_bit\<rparr>, FIELD_INT)
      | SQL_FLOAT \<Rightarrow> (Good (), fn\<lparr>call := Fql_cast_float\<rparr>, FIELD_FLOAT)
      | SQL_TEXT \<Rightarrow> (Good (), fn\<lparr>call := (if length (fn_args fn) = 2 then Fql_left else Fql_cast_string)\<rparr>, FIELD_STRING)
      | SQL_VARCHAR \<Rightarrow> (Good (), fn\<lparr>call := (if length (fn_args fn) = 2 then Fql_left else Fql_cast_string)\<rparr>, FIELD_STRING)
      | SQL_CHAR \<Rightarrow> (Good (), fn\<lparr>call := Fql_cast_char\<rparr>, FIELD_STRING)
      | SQL_UNDEFINED \<Rightarrow> (Fail, fn, type))"

text \<open>
  \<open>switchcase_resolve_type\<close>: the type of a CASE is joined over its values, each of which is
  cast to the type joined so far.
\<close>

fun resolve_values :: "('f, 're) ext \<Rightarrow> ('f, 're) sget \<Rightarrow> nat \<Rightarrow> nat list \<Rightarrow> ('f, 're, unit) sact" where
  "resolve_values x G i [] = outA (Good ())"
| "resolve_values x G i (v # vs) = with_expr i (\<lambda>e. with_expr v (\<lambda>val.
     let new_type = field_determine_type (e_type e) (e_type val) in
     tryA () (if e_type e \<noteq> new_type then expression_cast x G i new_type else outA (Good ())) (\<lambda>_ _.
     tryA () (if e_type val \<noteq> new_type then expression_cast x G v new_type else outA (Good ())) (\<lambda>_ _.
       resolve_values x G i vs))))"

definition switchcase_resolve_type :: "('f, 're) ext \<Rightarrow> ('f, 're) sget \<Rightarrow> switchcase \<Rightarrow> nat \<Rightarrow> ('f, 're, unit) sact" where
  "switchcase_resolve_type x G self i =
     (case sc_values self of
        [] \<Rightarrow> outA Crash
      | v # vs \<Rightarrow> with_expr i (\<lambda>e. with_expr v (\<lambda>val s.
          resolve_values x G i (v # vs) (set_expr i (e\<lparr>e_type := e_type val\<rparr>) s))))"

section \<open>Laws\<close>

text \<open>A column shows the field of the row of its source; a row that a join left out is NULL.\<close>

lemma column_stringview:
  assumes "i < length (exprs s)" "expr (exprs s ! i) = EXPR_COLUMN_NAME" "subquery_src_idx (exprs s ! i) = - 1"
    and "data_source (exprs s ! i) = Some d" "d < length (exprs s)" "e_src_idx (exprs s ! d) = k"
    and "e_index (exprs s ! d) = c" "\<And>r. r \<in> set rg \<Longrightarrow> vec_ok (rec_fields r)"
  shows "get_stringview (expr_getters x rg (Suc n)) i s =
    ((case record_at rg k of
        Some r \<Rightarrow> if c < vsize (rec_fields r)
                   then (case vec_list (rec_fields r) ! c of Some v \<Rightarrow> Good v | None \<Rightarrow> Crash)
                   else Null (Some (view_of []))
      | None \<Rightarrow> Null (Some (view_of []))), s)"
proof -
  have "vec_at (rec_fields r) c = Some (vec_list (rec_fields r) ! c)" if "record_at rg k = Some r" "c < vsize (rec_fields r)" for r
  proof -
    have "vec_ok (rec_fields r)" using assms(8) record_at_Some [OF that(1)] by blast
    then show ?thesis using that(2) by (simp add: vec_at_def vec_list_def vec_ok_def)
  qed
  then show ?thesis
    using assms(1-7) by (auto simp: expression_get_stringview_def with_expr_def at_ptr_def outA_def column_value_def
      source_record_def field_view_def split: option.splits)
qed

lemma column_int:
  assumes "i < length (exprs s)" "expr (exprs s ! i) = EXPR_COLUMN_NAME" "subquery_src_idx (exprs s ! i) = - 1"
    and "data_source (exprs s ! i) = Some d" "d < length (exprs s)" "e_src_idx (exprs s ! d) = k"
    and "e_index (exprs s ! d) = c" "\<And>r. r \<in> set rg \<Longrightarrow> vec_ok (rec_fields r)"
  shows "get_int (expr_getters x rg (Suc n)) i s =
    ((case record_at rg k of
        Some r \<Rightarrow> if c < vsize (rec_fields r)
                   then (case vec_list (rec_fields r) ! c of Some v \<Rightarrow> view_to_int v | None \<Rightarrow> Crash)
                   else Null (Some 0)
      | None \<Rightarrow> Null (Some 0)), s)"
proof -
  have "vec_at (rec_fields r) c = Some (vec_list (rec_fields r) ! c)" if "record_at rg k = Some r" "c < vsize (rec_fields r)" for r
  proof -
    have "vec_ok (rec_fields r)" using assms(8) record_at_Some [OF that(1)] by blast
    then show ?thesis using that(2) by (simp add: vec_at_def vec_list_def vec_ok_def)
  qed
  then show ?thesis
    using assms(1-7) by (auto simp: expression_get_int_def with_expr_def at_ptr_def outA_def column_value_def
      source_record_def field_view_def split: option.splits)
qed

text \<open>Reading a constant caches its conversion; reading it again gives the same value.\<close>

lemma const_value_again:
  assumes "i < length (exprs s)" "expr (exprs s ! i) = EXPR_CONST"
    and "\<And>u t u' t'. f u t = (Good a, u', t') \<Longrightarrow> f u' t' = (Good a, u', t')"
    and "with_expr i (\<lambda>e. const_value i e (f (e_field e) (e_type e))) s = (Good a, s')"
  shows "with_expr i (\<lambda>e. const_value i e (f (e_field e) (e_type e))) s' = (Good a, s') \<and>
    i < length (exprs s') \<and> expr (exprs s' ! i) = EXPR_CONST"
proof -
  obtain r u t where f: "f (e_field (exprs s ! i)) (e_type (exprs s ! i)) = (r, u, t)" by (metis prod_cases3)
  then have r: "r = Good a" "s' = set_expr i ((exprs s ! i)\<lparr>e_field := u, e_type := t\<rparr>) s"
    using assms(1,4) by (auto simp: with_expr_def const_value_def)
  then have "f u t = (Good a, u, t)" using assms(3) [of "e_field (exprs s ! i)"] f by simp
  then show ?thesis using assms(1,2) r(2) by (simp add: with_expr_def const_value_def set_expr_def)
qed

lemma get_int_const:
  assumes "i < length (exprs s)" "expr (exprs s ! i) = EXPR_CONST"
  shows "expression_get_int x rg G i s = with_expr i (\<lambda>e. const_value i e (field_to_int (x_flt x) (e_field e) (e_type e))) s"
    "expression_get_stringview x rg G i s = with_expr i (\<lambda>e. const_value i e
       ((\<lambda>u t. case field_to_stringview (x_flt x) (field_string u) u t of (r, u, t, dest) \<Rightarrow> (map_outcome view_of r, u, t))
         (e_field e) (e_type e))) s"
  using assms by (simp_all add: expression_get_int_def expression_get_stringview_def with_expr_def)

lemma const_int_again:
  assumes "i < length (exprs s)" "expr (exprs s ! i) = EXPR_CONST"
    and "expression_get_int x rg G i s = (Good n, s')"
  shows "expression_get_int x rg G i s' = (Good n, s')"
proof -
  have r: "with_expr i (\<lambda>e. const_value i e (field_to_int (x_flt x) (e_field e) (e_type e))) s' = (Good n, s') \<and>
      i < length (exprs s') \<and> expr (exprs s' ! i) = EXPR_CONST"
    by (rule const_value_again [OF assms(1,2) _ assms(3) [unfolded get_int_const(1) [OF assms(1,2)]]])
      (erule field_to_int_again)
  then show ?thesis using get_int_const(1) [of i s' x rg G] by simp
qed

lemma const_stringview_again:
  assumes "i < length (exprs s)" "expr (exprs s ! i) = EXPR_CONST"
    and "expression_get_stringview x rg G i s = (Good v, s')"
  shows "expression_get_stringview x rg G i s' = (Good v, s')"
proof -
  let ?f = "\<lambda>u t. case field_to_stringview (x_flt x) (field_string u) u t of (r, u, t, dest) \<Rightarrow> (map_outcome view_of r, u, t)"
  have again: "?f u' t' = (Good v, u', t')" if f: "?f u t = (Good v, u', t')" for u t u' t'
  proof -
    obtain r d where fs: "field_to_stringview (x_flt x) (field_string u) u t = (r, u', t', d)"
        and "map_outcome view_of r = Good v" using f by (auto split: prod.splits)
    moreover from this obtain q where q: "r = Good q" "v = view_of q" by (cases r) auto
    ultimately have "u' = UStr q" "t' = FIELD_STRING"
      using field_to_stringview_again [of "x_flt x" "field_string u" u t q u' t' d] by simp_all
    then show ?thesis using q(2) by (simp add: field_to_stringview_def field_string_def)
  qed
  have r: "with_expr i (\<lambda>e. const_value i e (?f (e_field e) (e_type e))) s' = (Good v, s') \<and>
      i < length (exprs s') \<and> expr (exprs s' ! i) = EXPR_CONST"
    by (rule const_value_again [OF assms(1,2) _ assms(3) [unfolded get_int_const(2) [OF assms(1,2)]]])
      (erule again)
  then show ?thesis using get_int_const(2) [of i s' x rg G] by simp
qed

text \<open>Read as an integer, a constant loses its text: \<open>'007'\<close> is \<open>'7'\<close> from then on.\<close>

definition text_const :: "string \<Rightarrow> ('f, 're) store" where
  "text_const t = \<lparr>exprs = [(blank_expression EXPR_CONST [])\<lparr>e_type := FIELD_STRING, e_field := UStr t\<rparr>],
     logics = [], rownums = []\<rparr>"

lemma const_loses_text:
  assumes "str2long ''007'' = Some 7"
  shows "fst (expression_get_stringview x rg G 0 (text_const ''007'')) = Good (view_of ''007'') \<and>
    fst (expression_get_stringview x rg G 0 (snd (expression_get_int x rg G 0 (text_const ''007'')))) =
      Good (view_of ''7'')"
proof -
  have "show_long 7 = ''7''"
    by (simp add: show_long_def show_nat.simps char_of_def bit_0)
  then show ?thesis using assms
    by (simp add: text_const_def blank_expression_def expression_get_stringview_def expression_get_int_def
      with_expr_def const_value_def set_expr_def field_to_stringview_def field_to_int_def as_str_def as_int_def field_string_def)
qed

text \<open>
  A column that was copied for a CASE reads the row of source 0, whichever source it is
  linked to: \<open>subquery_src_idx\<close> is left at 0.
\<close>

lemma copied_column_source:
  "source_record rg (fst (expression_link (expression_copy e) d src m)) src = record_at rg 0"
  by (simp add: source_record_def expression_link_def expression_copy_def)

lemma update_index_nth:
  assumes "distinct ps" "set ps \<subseteq> {..<length es}"
  shows "length (fold (\<lambda>(i, p) es. es[p := (es ! p)\<lparr>e_index := i\<rparr>]) (enumerate n ps) es) = length es \<and>
    (\<forall>p < length es. fold (\<lambda>(i, p) es. es[p := (es ! p)\<lparr>e_index := i\<rparr>]) (enumerate n ps) es ! p =
      (if p \<in> set ps then (es ! p)\<lparr>e_index := n + length (takeWhile (\<lambda>q. q \<noteq> p) ps)\<rparr> else es ! p))"
  using assms
proof (induction ps arbitrary: n es)
  case Nil
  then show ?case by simp
next
  case (Cons q ps)
  have "set ps \<subseteq> {..<length (es[q := (es ! q)\<lparr>e_index := n\<rparr>])}" using Cons.prems(2) by auto
  from Cons.IH [OF _ this, of "Suc n"] show ?case
    using Cons.prems by (auto simp: nth_list_update)
qed

text \<open>After an update, every expression of the vector knows its position in it.\<close>

lemma expression_update_indicies_spec:
  assumes "distinct v" "set v \<subseteq> {..<length es}" "k < length v"
  shows "e_index (expression_update_indicies v es ! (v ! k)) = k"
proof -
  have "takeWhile (\<lambda>q. q \<noteq> v ! k) v = take k v"
    using assms(1,3) by (intro takeWhile_eq_take_P_nth) (auto simp: nth_eq_iff_index_eq)
  then have "length (takeWhile (\<lambda>q. q \<noteq> v ! k) v) = k" using assms(3) by simp
  moreover have "v ! k < length es" "v ! k \<in> set v" using subsetD [OF assms(2) nth_mem [OF assms(3)]] nth_mem [OF assms(3)] by auto
  ultimately show ?thesis
    using update_index_nth [OF assms(1,2), of 0] by (simp add: expression_update_indicies_def)
qed

end
