(* ===== verification/TypeSound.thy ===== *)
theory TypeSound
  imports ExprOps
begin

text \<open>
  The union that a call writes is read with the type of its expression
  (\<open>expression_get_int\<close> and the others pass \<open>field_type\<close> to \<open>field_to_int\<close>). Every call writes the
  member that construction and resolution announce.
\<close>

definition call_type :: "scalar_call \<Rightarrow> field_type" where
  "call_type c =
     (case c of
        Fql_cast_int \<Rightarrow> FIELD_INT | Fql_cast_bit \<Rightarrow> FIELD_INT | Fql_len \<Rightarrow> FIELD_INT
      | Fql_datalength \<Rightarrow> FIELD_INT | Fql_isnull_i \<Rightarrow> FIELD_INT | Fql_op_plus_i \<Rightarrow> FIELD_INT
      | Fql_op_minus_i \<Rightarrow> FIELD_INT | Fql_op_mult_i \<Rightarrow> FIELD_INT | Fql_op_divi_i \<Rightarrow> FIELD_INT
      | Fql_op_mod_i \<Rightarrow> FIELD_INT | Fql_op_bit_or \<Rightarrow> FIELD_INT | Fql_op_bit_and \<Rightarrow> FIELD_INT
      | Fql_op_bit_xor \<Rightarrow> FIELD_INT | Fql_op_bit_not \<Rightarrow> FIELD_INT | Fql_op_unary_minus_i \<Rightarrow> FIELD_INT
      | Fql_cast_float \<Rightarrow> FIELD_FLOAT | Fql_isnull_f \<Rightarrow> FIELD_FLOAT | Fql_op_plus_f \<Rightarrow> FIELD_FLOAT
      | Fql_op_minus_f \<Rightarrow> FIELD_FLOAT | Fql_op_mult_f \<Rightarrow> FIELD_FLOAT | Fql_op_divi_f \<Rightarrow> FIELD_FLOAT
      | Fql_op_unary_minus_f \<Rightarrow> FIELD_FLOAT
      | Fql_cast_string \<Rightarrow> FIELD_STRING | Fql_cast_char \<Rightarrow> FIELD_STRING | Fql_left \<Rightarrow> FIELD_STRING
      | Fql_right \<Rightarrow> FIELD_STRING | Fql_substring \<Rightarrow> FIELD_STRING | Fql_replace \<Rightarrow> FIELD_STRING
      | Fql_isnull_s \<Rightarrow> FIELD_STRING | Fql_op_plus_s \<Rightarrow> FIELD_STRING
      | Not_implemented \<Rightarrow> FIELD_UNDEFINED)"

definition has_type :: "'f field \<Rightarrow> field_type \<Rightarrow> bool" where
  "has_type u t = (case u of UInt n \<Rightarrow> t = FIELD_INT | UFloat f \<Rightarrow> t = FIELD_FLOAT | UStr s \<Rightarrow> t = FIELD_STRING)"

lemma has_type_simps [simp]:
  "has_type (UInt n) t \<longleftrightarrow> t = FIELD_INT" "has_type (UFloat f) t \<longleftrightarrow> t = FIELD_FLOAT" "has_type (UStr s) t \<longleftrightarrow> t = FIELD_STRING"
  by (simp_all add: has_type_def)

text \<open>Every value that an action can return satisfies a predicate.\<close>

definition gives :: "('a \<Rightarrow> bool) \<Rightarrow> ('s, 'a) act \<Rightarrow> bool" where
  "gives P m \<longleftrightarrow> (\<forall>s a s'. m s = (Good a, s') \<longrightarrow> P a)"

named_theorems gives_intros \<open>values of composed actions\<close>

lemma gives_outA [gives_intros]: "(\<And>a. r = Good a \<Longrightarrow> P a) \<Longrightarrow> gives P (outA r)"
  by (simp add: gives_def outA_def)

lemma gives_derefA [gives_intros]: "(\<And>a. gives P (k a)) \<Longrightarrow> gives P (derefA m k)"
  by (auto simp: gives_def derefA_def split: outcome.splits prod.splits)

lemma gives_tryA [gives_intros]: "(\<And>a g. gives P (k a g)) \<Longrightarrow> gives P (tryA i m k)"
  by (auto simp: gives_def tryA_def split: outcome.splits prod.splits option.splits)

lemma gives_if [gives_intros]: "(b \<Longrightarrow> gives P m) \<Longrightarrow> (\<not> b \<Longrightarrow> gives P n) \<Longrightarrow> gives P (if b then m else n)"
  by simp

lemma gives_at_arg: "(\<And>a. gives P (g a)) \<Longrightarrow> gives P (at_arg fn i g)"
  by (cases "i < length (fn_args fn)") (auto simp: at_arg_def intro!: gives_outA)

lemma gives_outcome [gives_intros]:
  "(\<And>a. gives P (f a)) \<Longrightarrow> (\<And>x. gives P (n x)) \<Longrightarrow> gives P p \<Longrightarrow> gives P q \<Longrightarrow>
   gives P (case r of Good a \<Rightarrow> f a | Null x \<Rightarrow> n x | Fail \<Rightarrow> p | Crash \<Rightarrow> q)"
  by (cases r) auto

lemma map_outcome_Good: "map_outcome f r = Good b \<longleftrightarrow> (\<exists>a. r = Good a \<and> b = f a)"
  by (cases r) auto

lemma gives_fields [gives_intros]:
  "gives (\<lambda>u. has_type u FIELD_STRING) (ret_strncpy v i n)"
  "gives (\<lambda>u. has_type u FIELD_INT) (two_ints G fn op)"
  "gives (\<lambda>u. has_type u FIELD_FLOAT) (two_floats G fn fop)"
  by (auto simp: ret_strncpy_def two_ints_def two_floats_def map_outcome_Good intro!: gives_intros)

lemma call_fn_type: "gives (\<lambda>u. has_type u (call_type c)) (call_fn fo G c fn)"
proof (cases c)
  case Fql_datalength
  have len: "gives (\<lambda>u. has_type u FIELD_INT) (\<lambda>s. case t s of FIELD_INT \<Rightarrow> (Good (UInt 8), s) | FIELD_FLOAT \<Rightarrow> (Good (UInt 8), s)
      | FIELD_STRING \<Rightarrow> derefA m (\<lambda>sv. outA (Good (UInt (l sv)))) s | FIELD_UNDEFINED \<Rightarrow> (Fail, s))" for t l and m :: "('b, view) act"
    by (auto simp: gives_def has_type_def derefA_def outA_def split: field_type.splits outcome.splits prod.splits)
  show ?thesis
    unfolding Fql_datalength call_fn_def scalar_call.case fql_datalength_def call_type_def
    by (intro gives_at_arg len)
next
  case Fql_replace
  have pure: "gives P (\<lambda>s. outA (r s) s)" if "\<And>s a. r s = Good a \<Longrightarrow> P a" for P :: "'a field \<Rightarrow> bool" and r :: "'b \<Rightarrow> _"
    using that by (simp add: gives_def outA_def)
  show ?thesis using Fql_replace
    by (auto simp: call_fn_def fql_replace_def call_type_def map_outcome_Good intro!: gives_intros pure)
next
  case Fql_substring
  then show ?thesis by (auto simp: call_fn_def fql_substring_def call_type_def Let_def intro!: gives_intros)
qed (auto simp: call_fn_def call_type_def map_outcome_Good fql_cast_int_def fql_cast_bit_def fql_cast_float_def
    fql_cast_string_def fql_cast_char_def fql_len_def fql_left_def fql_right_def fql_isnull_i_def fql_isnull_f_def
    fql_isnull_s_def fql_op_plus_i_def fql_op_plus_f_def fql_op_plus_s_def fql_op_minus_i_def fql_op_minus_f_def
    fql_op_mult_i_def fql_op_mult_f_def fql_op_divi_i_def fql_op_divi_f_def fql_op_mod_i_def fql_op_bit_or_def
    fql_op_bit_and_def fql_op_bit_xor_def fql_op_bit_not_def fql_op_unary_minus_i_def fql_op_unary_minus_f_def
    intro!: gives_intros)

section \<open>Announced types\<close>

definition column_typed :: "scalar_call option list \<Rightarrow> bool" where
  "column_typed row \<longleftrightarrow>
     (\<forall>(j, c) \<in> set (enumerate 0 row). case c of None \<Rightarrow> True | Some c \<Rightarrow> type_index (call_type c) = int j)"

lemma scalar_ops_columns: "\<forall>row \<in> set scalar_ops. column_typed row"
  by (simp add: scalar_ops_def column_typed_def call_type_def type_index_def)

lemma scalar_ops_type:
  assumes "table_at scalar_ops i j = Good (Some c)"
  shows "j = type_index (call_type c)"
proof -
  let ?row = "scalar_ops ! nat i"
  have r: "0 \<le> i" "nat i < length scalar_ops" "0 \<le> j" "nat j < length ?row" "?row ! nat j = Some c"
    using assms by (auto simp: table_at_def split: if_splits)
  then have "column_typed ?row" using scalar_ops_columns nth_mem by blast
  moreover have "(nat j, Some c) \<in> set (enumerate 0 ?row)"
    using r(4,5) by (auto simp: in_set_enumerate_eq)
  ultimately show ?thesis using r(3) by (fastforce simp: column_typed_def)
qed

lemma op_resolve_type:
  assumes "op_resolve_types self op t0 t1 = (Good (), fn, t)"
  shows "call_type (call fn) = t"
proof -
  let ?t = "field_determine_type t0 t1"
  obtain c where c: "table_at scalar_ops op (type_index ?t) = Good (Some c)" "call fn = c" "t = ?t"
    using assms by (auto simp: op_resolve_types_def Let_def split: outcome.splits option.splits)
  have "type_index ?t = type_index (call_type c)" by (rule scalar_ops_type [OF c(1)])
  then show ?thesis using c(2,3) by (auto simp: type_index_def split: field_type.splits)
qed

lemma function_construct_type:
  "function_construct f t0 b = (fn, t) \<Longrightarrow> call fn \<noteq> Not_implemented \<Longrightarrow> call_type (call fn) = t"
  by (cases f) (simp_all add: function_construct_def op_index_def not_yet_def call_type_def,
    auto simp: call_type_def)

lemma function_validate_type:
  "function_validate self ty t0 = (Good (), fn, t) \<Longrightarrow> fn_type self = SCALAR_ISNULL \<Longrightarrow>
   ty (fn_args self ! 0) \<noteq> FIELD_UNDEFINED \<Longrightarrow> call_type (call fn) = t"
  by (auto simp: function_validate_def call_type_def Let_def split: if_splits field_type.splits)

section \<open>The life of a call\<close>

text \<open>
  A call and the type of its expression while a query is built and resolved, over the
  expressions \<open>es\<close> that the other steps change meanwhile: arguments are added, a CAST receives
  its type (\<open>query_apply_data_type\<close>), operators are resolved, and the call is validated, which
  completes ISNULL. The type of the first argument of an ISNULL is known by then
  (\<open>_assign_expressions_limited\<close> in lib/schema.c resolves the arguments first), or the call is still
  not implemented and cannot run.
\<close>

inductive prepared :: "'f expression list \<Rightarrow> scalar_fn \<Rightarrow> field_type \<Rightarrow> bool" where
  constructed: "function_construct f FIELD_UNDEFINED b = (fn, t) \<Longrightarrow> prepared es fn t"
| meanwhile: "prepared es fn t \<Longrightarrow> prepared es' fn t"
| argument: "prepared es fn t \<Longrightarrow> function_add_expression fn e = (k, fn') \<Longrightarrow> prepared es fn' t"
| cast_type: "prepared es fn t \<Longrightarrow> query_apply_data_type fn t ts = (Good (), fn', t') \<Longrightarrow> prepared es fn' t'"
| resolved: "prepared es fn t \<Longrightarrow> function_op_resolve es fn t = (Good (), fn', t') \<Longrightarrow> prepared es fn' t'"
| validated: "prepared es fn t \<Longrightarrow> e_type (es ! (fn_args fn ! 0)) \<noteq> FIELD_UNDEFINED \<or> call fn = Not_implemented \<Longrightarrow>
    function_validate fn (\<lambda>a. e_type (es ! a)) t = (Good (), fn', t') \<Longrightarrow> prepared es fn' t'"

lemma query_apply_data_type_type:
  "query_apply_data_type fn t ts = (Good (), fn', t') \<Longrightarrow> call_type (call fn') = t'"
  by (auto simp: query_apply_data_type_def call_type_def split: sql_type.splits)

lemma function_op_resolve_type:
  assumes "function_op_resolve es fn t = (Good (), fn', t')"
  shows "fn' = fn \<and> t' = t \<or> call_type (call fn') = t'"
  using assms op_resolve_type
  by (fastforce simp: function_op_resolve_def Let_def split: option.splits list.splits if_splits)

lemma function_validate_keeps:
  assumes "function_validate fn ty t = (Good (), fn', t')"
    and "ty (fn_args fn ! 0) \<noteq> FIELD_UNDEFINED \<or> call fn = Not_implemented"
  shows "fn' = fn \<and> t' = t \<or> call fn' = Not_implemented \<or> call_type (call fn') = t'"
  using assms function_validate_type [OF assms(1)]
  by (auto simp: function_validate_def Let_def call_type_def split: if_splits field_type.splits)

lemma prepared_type: "prepared es fn t \<Longrightarrow> call fn = Not_implemented \<or> call_type (call fn) = t"
proof (induction rule: prepared.induct)
  case (constructed f b fn t es)
  then show ?case using function_construct_type by blast
next
  case (argument es fn t e k fn')
  then show ?case by (auto simp: function_add_expression_def)
next
  case (cast_type es fn t ts fn' t')
  then show ?case using query_apply_data_type_type by blast
next
  case (resolved es fn t fn' t')
  then show ?case using function_op_resolve_type by metis
next
  case (validated es fn t fn' t')
  then show ?case using function_validate_keeps by metis
qed assumption

lemma prepared_call:
  assumes "prepared es fn t" "call_fn fo G (call fn) d s = (Good u, s')"
  shows "has_type u t"
proof -
  have "call fn \<noteq> Not_implemented" using assms(2) by (auto simp: call_fn_def outA_def)
  then have "call_type (call fn) = t" using prepared_type [OF assms(1)] by simp
  then show ?thesis using call_fn_type [of "call fn" fo G d] assms(2) unfolding gives_def by blast
qed

end
