(* ===== verification/JoinKey.thy ===== *)
theory JoinKey
  imports HashmapTable StringView
begin

text \<open>
  The two notions of equality that a query mixes: a hash join, GROUP BY, DISTINCT and IN find
  rows by the keys of a hash table, a WHERE clause compares views
  (\<open>stringview_compare_nocase_rtrim\<close>). They agree where blanks are the only white space and no
  key consists of blanks alone.
\<close>

lemma isspace_tolower [simp]: "isspace_c (tolower_c c) = isspace_c c"
  by (auto simp: tolower_c_def isspace_c_def Let_def)

lemma tolower_blank [simp]: "tolower_c c = CHR '' '' \<longleftrightarrow> c = CHR '' ''"
proof
  assume h: "tolower_c c = CHR '' ''"
  show "c = CHR '' ''"
  proof (cases "65 \<le> (of_char c :: nat) \<and> (of_char c :: nat) \<le> 90")
    case True
    then have "(of_char (tolower_c c) :: nat) = of_char c + 32" by (simp add: tolower_c_def Let_def)
    then show ?thesis using h True by simp
  next
    case False
    then show ?thesis using h by (simp add: tolower_c_def Let_def split: if_splits)
  qed
qed (simp add: tolower_c_def)

lemma rtrim_common_map: "rtrim_common conv s t = rtrim_common (\<lambda>c. c) (map conv s) (map conv t)"
  by (induction conv s t rule: rtrim_common.induct) (auto simp: Let_def)

lemma rtrim_rest_map: "rtrim_rest d (map tolower_c cs) = rtrim_rest d cs"
  by (induction cs) (auto simp: Let_def)

lemma compare_nocase_rtrim:
  "stringview_compare_nocase_rtrim s t = stringview_compare_rtrim (map tolower_c s) (map tolower_c t)"
  by (auto simp: stringview_compare_nocase_rtrim_def stringview_compare_rtrim_def compare_rtrim_with_def Let_def
    rtrim_common_map [of tolower_c] rtrim_rest_map drop_map)

definition only_blanks :: "string \<Rightarrow> bool" where
  "only_blanks s \<longleftrightarrow> s \<noteq> [] \<and> (\<forall>c \<in> set s. c = CHR '' '')"

definition blank_space :: "string \<Rightarrow> bool" where
  "blank_space s \<longleftrightarrow> (\<forall>c \<in> set s. isspace_c c \<longrightarrow> c = CHR '' '')"

lemma rstrip_empty: "rstrip p xs = [] \<longleftrightarrow> (\<forall>x \<in> set xs. p x)"
  by (induction xs) (auto simp: rstrip_Cons)

lemma norm_key_trim:
  assumes "\<not> only_blanks s"
  shows "norm_key 3 s = rtrim (map tolower_c s)"
proof (cases "s = []")
  case True
  then show ?thesis by (simp add: norm_key_def)
next
  case False
  then have "rtrim (map tolower_c s) \<noteq> []" using assms by (simp add: rstrip_empty only_blanks_def)
  then show ?thesis by (simp add: norm_key_def conv_of_def trims_def Let_def)
qed

lemma key_equality:
  assumes "length s < 2147483648" "length t < 2147483648" "blank_space s" "blank_space t"
    and "\<not> only_blanks s" "\<not> only_blanks t"
  shows "norm_key 3 s = norm_key 3 t \<longleftrightarrow> stringview_compare_nocase_rtrim s t = 0"
proof -
  have "c = CHR '' ''" if c: "c \<in> set (map tolower_c s) \<union> set (map tolower_c t)" "isspace_c c" for c
  proof -
    obtain d where d: "c = tolower_c d" "d \<in> set s \<union> set t" using c(1) by auto
    then have "d = CHR '' ''" using c(2) assms(3,4) by (auto simp: blank_space_def)
    then show ?thesis using d(1) by simp
  qed
  then have "stringview_compare_rtrim (map tolower_c s) (map tolower_c t) = 0 \<longleftrightarrow>
      rtrim (map tolower_c s) = rtrim (map tolower_c t)"
    using assms(1,2) by (intro compare_rtrim_blank) simp_all
  then show ?thesis using assms(5,6) by (simp add: norm_key_trim compare_nocase_rtrim)
qed

text \<open>The keys on which table and comparison agree, alone and as components of a list.\<close>

definition plain_key :: "string \<Rightarrow> bool" where
  "plain_key s \<longleftrightarrow> length s < 2147483648 \<and> blank_space s \<and> \<not> only_blanks s"

lemma plain_key_equality:
  "plain_key s \<Longrightarrow> plain_key t \<Longrightarrow> norm_key 3 s = norm_key 3 t \<longleftrightarrow> stringview_compare_nocase_rtrim s t = 0"
  by (intro key_equality) (simp_all add: plain_key_def)

lemma plain_keys_equality:
  assumes "\<forall>k \<in> set ks. plain_key k" "\<forall>k \<in> set ls. plain_key k"
  shows "map (norm_key 3) ks = map (norm_key 3) ls \<longleftrightarrow> list_all2 (\<lambda>k l. stringview_compare_nocase_rtrim k l = 0) ks ls"
  using assms
proof (induction ks arbitrary: ls)
  case (Cons k ks)
  then show ?case by (cases ls) (auto simp: plain_key_equality)
qed simp

text \<open>Keys of blanks alone are equal for the comparison and different for the table.\<close>

lemma blank_keys_differ:
  "stringview_compare_nocase_rtrim '' '' ''  '' = 0 \<and> norm_key 3 '' '' \<noteq> norm_key 3 ''  ''"
  by code_simp

section \<open>The order of the comparison\<close>

lemma uchar_tolower: "32 \<le> uchar c \<Longrightarrow> 32 \<le> uchar (tolower_c c)"
  by (auto simp: tolower_c_def uchar_nat Let_def)

lemma compare_nocase_rtrim_order:
  assumes "printable s" "printable t" "length s < 2147483648" "length t < 2147483648"
  shows "stringview_compare_nocase_rtrim s t < 0 \<longleftrightarrow> (rtrim (map tolower_c s), rtrim (map tolower_c t)) \<in> text_order"
    "0 < stringview_compare_nocase_rtrim s t \<longleftrightarrow> (rtrim (map tolower_c t), rtrim (map tolower_c s)) \<in> text_order"
    "stringview_compare_nocase_rtrim s t = 0 \<longleftrightarrow> rtrim (map tolower_c s) = rtrim (map tolower_c t)"
proof -
  have "printable (map tolower_c s)" "printable (map tolower_c t)" using assms(1,2) uchar_tolower by (auto simp: printable_def)
  then have e: "sgn (stringview_compare_nocase_rtrim s t) = sgn (lex_cmp (rtrim (map tolower_c s)) (rtrim (map tolower_c t)))"
    unfolding compare_nocase_rtrim using assms(3,4) by (intro compare_rtrim_order) simp_all
  have n: "a < 0 \<longleftrightarrow> b < 0" "0 < a \<longleftrightarrow> 0 < b" "a = 0 \<longleftrightarrow> b = 0" if "sgn a = sgn b" for a b :: int
    using that by (auto simp: sgn_if split: if_splits)
  show "stringview_compare_nocase_rtrim s t < 0 \<longleftrightarrow> (rtrim (map tolower_c s), rtrim (map tolower_c t)) \<in> text_order"
    "0 < stringview_compare_nocase_rtrim s t \<longleftrightarrow> (rtrim (map tolower_c t), rtrim (map tolower_c s)) \<in> text_order"
    "stringview_compare_nocase_rtrim s t = 0 \<longleftrightarrow> rtrim (map tolower_c s) = rtrim (map tolower_c t)"
    using n [OF e] by (simp_all add: lex_cmp_less lex_cmp_greater lex_cmp_eq)
qed

lemma compare_rtrim_control:
  "stringview_compare_nocase_rtrim ''x'' [CHR ''x'', CHR 0x01] < 0 \<and> stringview_compare_nocase_rtrim [CHR ''x'', CHR 0x01] ''x '' < 0 \<and>
   stringview_compare_nocase_rtrim ''x'' ''x '' = 0"
  by code_simp

end
