(* ===== verification/Aggregate.thy ===== *)
theory Aggregate
  imports ExprOps "HOL-Library.Sublist"
begin

text \<open>
  Aggregates (lib/aggregate.c, lib/aggregatefn.c). A result belongs to one group: \<open>data\<close> is
  what is shown, \<open>auxdata\<close> a running total, \<open>qty\<close> the number of rows seen, counted by the
  caller. A NULL argument is read as 0 or the empty string: it is not skipped.
\<close>

section \<open>Data\<close>

datatype aggregate_function =
    AGG_UNDEFINED | AGG_AVG | AGG_CHECKSUM_AGG | AGG_COUNT | AGG_COUNT_BIG | AGG_GROUPING | AGG_GROUPING_ID
  | AGG_MAX | AGG_MIN | AGG_STDEV | AGG_STDEVP | AGG_SUM | AGG_VAR | AGG_VARP

datatype aggregate_call =
    Agg_count | Agg_min_i | Agg_min_f | Agg_min_s | Agg_max_i | Agg_max_f | Agg_max_s
  | Agg_sum_i | Agg_sum_f | Agg_avg_i | Agg_avg_f

text \<open>The union of a result; a zeroed one is the integer 0.\<close>

record 'f aggresult =
  agg_value :: "'f field"
  auxdata :: "'f field"
  qty :: u32

record 'f aggregate =
  agg_call :: "aggregate_call option"
  agg_args :: "nat list"
  results :: "'f aggresult vec"
  linked_expression :: "nat option"
  agg_type :: aggregate_function
  agg_data_type :: field_type

definition aggregate_construct :: "aggregate_function \<Rightarrow> 'f aggregate" where
  "aggregate_construct t = \<lparr>agg_call = None, agg_args = [], results = vec_construct, linked_expression = None,
     agg_type = t, agg_data_type = FIELD_UNDEFINED\<rparr>"

definition aggregate_reset :: "'f aggregate \<Rightarrow> 'f aggregate" where
  "aggregate_reset self = self\<lparr>results := vec_clear (results self)\<rparr>"

definition aggregate_add_expression :: "'f aggregate \<Rightarrow> nat \<Rightarrow> 'f aggregate" where
  "aggregate_add_expression self col = self\<lparr>agg_args := agg_args self @ [col]\<rparr>"

text \<open>
  The function for the type of the argument; \<open>None\<close> is an unexpected type. The second result
  is the type that the expression of the aggregate receives.
\<close>

definition aggregate_choose :: "aggregate_function \<Rightarrow> field_type \<Rightarrow> (aggregate_call \<times> field_type) option" where
  "aggregate_choose t arg =
     (case t of
        AGG_COUNT \<Rightarrow> Some (Agg_count, FIELD_INT)
      | AGG_MIN \<Rightarrow>
          (case arg of FIELD_INT \<Rightarrow> Some (Agg_min_i, arg) | FIELD_FLOAT \<Rightarrow> Some (Agg_min_f, arg)
           | FIELD_STRING \<Rightarrow> Some (Agg_min_s, arg) | FIELD_UNDEFINED \<Rightarrow> None)
      | AGG_MAX \<Rightarrow>
          (case arg of FIELD_INT \<Rightarrow> Some (Agg_max_i, arg) | FIELD_FLOAT \<Rightarrow> Some (Agg_max_f, arg)
           | FIELD_STRING \<Rightarrow> Some (Agg_max_s, arg) | FIELD_UNDEFINED \<Rightarrow> None)
      | AGG_SUM \<Rightarrow>
          (case arg of FIELD_INT \<Rightarrow> Some (Agg_sum_i, arg) | FIELD_FLOAT \<Rightarrow> Some (Agg_sum_f, arg) | _ \<Rightarrow> None)
      | AGG_AVG \<Rightarrow>
          (case arg of FIELD_INT \<Rightarrow> Some (Agg_avg_i, arg) | FIELD_FLOAT \<Rightarrow> Some (Agg_avg_f, arg) | _ \<Rightarrow> None)
      | _ \<Rightarrow> None)"

definition aggregate_resolve :: "'f aggregate \<Rightarrow> (nat \<Rightarrow> field_type) \<Rightarrow> field_type \<Rightarrow>
    unit outcome \<times> 'f aggregate \<times> field_type" where
  "aggregate_resolve self arg_type col_type =
     (if agg_call self \<noteq> None then (Good (), self, col_type)
      else case agg_args self of
        [] \<Rightarrow> (Crash, self, col_type)
      | a # _ \<Rightarrow>
          (case aggregate_choose (agg_type self) (arg_type a) of
             None \<Rightarrow> (Fail, self, col_type)
           | Some (c, t) \<Rightarrow> (Good (), self\<lparr>agg_call := Some c, agg_data_type := t\<rparr>, t)))"

section \<open>Steps\<close>

text \<open>The first argument of the aggregate; a NULL leaves the initial value of the local.\<close>

definition agg_arg :: "'f aggregate \<Rightarrow> (nat \<Rightarrow> ('s, 'a) act) \<Rightarrow> 'a \<Rightarrow> ('a \<Rightarrow> 'b outcome) \<Rightarrow> ('s, 'b) act" where
  "agg_arg agg get init k =
     (case agg_args agg of [] \<Rightarrow> outA Crash | col # _ \<Rightarrow> tryA init (get col) (\<lambda>num _. outA (k num)))"

definition count_step :: "'f flt \<Rightarrow> 'f aggresult \<Rightarrow> 'f aggresult outcome" where
  "count_step fo r = o_bind (as_int fo (agg_value r)) (\<lambda>n. Good (r\<lparr>agg_value := UInt (n + 1)\<rparr>))"

definition best_i :: "'f flt \<Rightarrow> (i64 \<Rightarrow> i64 \<Rightarrow> bool) \<Rightarrow> 'f aggresult \<Rightarrow> i64 \<Rightarrow> 'f aggresult outcome" where
  "best_i fo better r num =
     (if qty r = 0 then Good (r\<lparr>agg_value := UInt num\<rparr>)
      else o_bind (as_int fo (agg_value r)) (\<lambda>old. Good (if better num old then r\<lparr>agg_value := UInt num\<rparr> else r)))"

definition best_f :: "'f flt \<Rightarrow> ('f \<Rightarrow> 'f \<Rightarrow> bool) \<Rightarrow> 'f aggresult \<Rightarrow> 'f \<Rightarrow> 'f aggresult outcome" where
  "best_f fo better r num =
     (if qty r = 0 then Good (r\<lparr>agg_value := UFloat num\<rparr>)
      else o_bind (as_float fo (agg_value r)) (\<lambda>old. Good (if better num old then r\<lparr>agg_value := UFloat num\<rparr> else r)))"

definition best_s :: "(int \<Rightarrow> bool) \<Rightarrow> 'f aggresult \<Rightarrow> view \<Rightarrow> 'f aggresult outcome" where
  "best_s better r sv0 =
     o_bind (as_str (agg_value r)) (\<lambda>old.
       if qty r = 0 \<or> better (stringview_compare_nocase_rtrim (sv_text sv0) old)
       then o_bind (strncpy_view sv0 0 (sv_len sv0)) (\<lambda>s. Good (r\<lparr>agg_value := UStr s\<rparr>))
       else Good r)"

definition sum_i :: "'f flt \<Rightarrow> 'f aggresult \<Rightarrow> i64 \<Rightarrow> 'f aggresult outcome" where
  "sum_i fo r num = o_bind (as_int fo (agg_value r)) (\<lambda>old.
     o_bind (overflow_safe_add_i old num) (\<lambda>n. Good (r\<lparr>agg_value := UInt n\<rparr>)))"

definition sum_f :: "'f flt \<Rightarrow> 'f aggresult \<Rightarrow> 'f \<Rightarrow> 'f aggresult outcome" where
  "sum_f fo r num = o_bind (as_float fo (agg_value r)) (\<lambda>old. Good (r\<lparr>agg_value := UFloat (f_add fo old num)\<rparr>))"

text \<open>\<open>auxdata.i / (qty + 1)\<close>: the count is unsigned and becomes a \<open>long\<close>; 0 after 2^32 rows.\<close>

definition avg_i :: "'f flt \<Rightarrow> 'f aggresult \<Rightarrow> i64 \<Rightarrow> 'f aggresult outcome" where
  "avg_i fo r num = o_bind (as_int fo (auxdata r)) (\<lambda>old.
     o_bind (overflow_safe_add_i old num) (\<lambda>n.
     o_bind (trunc_div n (ucast (qty r + 1))) (\<lambda>q. Good (r\<lparr>auxdata := UInt n, agg_value := UInt q\<rparr>))))"

definition avg_f :: "'f flt \<Rightarrow> 'f aggresult \<Rightarrow> 'f \<Rightarrow> 'f aggresult outcome" where
  "avg_f fo r num = o_bind (as_float fo (auxdata r)) (\<lambda>old.
     let n = f_add fo old num in
     Good (r\<lparr>auxdata := UFloat n, agg_value := UFloat (f_div fo n (f_of_int fo (ucast (qty r + 1))))\<rparr>))"

definition call_aggregate :: "'f flt \<Rightarrow> ('s, 'f) getters \<Rightarrow> 'f aggregate \<Rightarrow> 'f aggresult \<Rightarrow> ('s, 'f aggresult) act" where
  "call_aggregate fo G agg r =
     (case agg_call agg of
        None \<Rightarrow> outA Crash
      | Some c \<Rightarrow>
          (case c of
             Agg_count \<Rightarrow> outA (count_step fo r)
           | Agg_min_i \<Rightarrow> agg_arg agg (get_int G) 0 (best_i fo (\<lambda>a b. sint a < sint b) r)
           | Agg_min_f \<Rightarrow> agg_arg agg (get_float G) (f_zero fo) (best_f fo (f_lt fo) r)
           | Agg_min_s \<Rightarrow> agg_arg agg (get_stringview G) no_view (best_s (\<lambda>d. d < 0) r)
           | Agg_max_i \<Rightarrow> agg_arg agg (get_int G) 0 (best_i fo (\<lambda>a b. sint a > sint b) r)
           | Agg_max_f \<Rightarrow> agg_arg agg (get_float G) (f_zero fo) (best_f fo (\<lambda>a b. f_lt fo b a) r)
           | Agg_max_s \<Rightarrow> agg_arg agg (get_stringview G) no_view (best_s (\<lambda>d. d > 0) r)
           | Agg_sum_i \<Rightarrow> agg_arg agg (get_int G) 0 (sum_i fo r)
           | Agg_sum_f \<Rightarrow> agg_arg agg (get_float G) (f_zero fo) (sum_f fo r)
           | Agg_avg_i \<Rightarrow> agg_arg agg (get_int G) 0 (avg_i fo r)
           | Agg_avg_f \<Rightarrow> agg_arg agg (get_float G) (f_zero fo) (avg_f fo r)))"

text \<open>A fresh result, and the count of the caller (\<open>_add_agg_result\<close>, \<open>_update_agg_result\<close>).\<close>

definition fresh_result :: "'f aggregate \<Rightarrow> 'f aggresult" where
  "fresh_result agg = \<lparr>agg_value = (if agg_data_type agg = FIELD_STRING then UStr [] else UInt 0), auxdata = UInt 0,
     qty = 0\<rparr>"

definition agg_row :: "'f flt \<Rightarrow> ('s, 'f) getters \<Rightarrow> 'f aggregate \<Rightarrow> 'f aggresult \<Rightarrow> ('s, 'f aggresult) act" where
  "agg_row fo G agg r = derefA (call_aggregate fo G agg r) (\<lambda>r'. outA (Good (r'\<lparr>qty := qty r' + 1\<rparr>)))"

section \<open>Laws\<close>

text \<open>A run of one aggregate over the values of its argument.\<close>

fun feed :: "('f aggresult \<Rightarrow> 'a \<Rightarrow> 'f aggresult outcome) \<Rightarrow> 'f aggresult \<Rightarrow> 'a list \<Rightarrow> 'f aggresult outcome" where
  "feed step r [] = Good r"
| "feed step r (n # ns) = o_bind (step r n) (\<lambda>r'. feed step (r'\<lparr>qty := qty r' + 1\<rparr>) ns)"

lemma feed_append: "feed step r (ns @ ms) = o_bind (feed step r ns) (\<lambda>r'. feed step r' ms)"
proof (induction ns arbitrary: r)
  case (Cons n ns)
  then show ?case by (cases "step r n") simp_all
qed simp

lemma count_next:
  "Suc k < 4294967296 \<Longrightarrow> (of_nat k :: u32) + 1 = of_nat (Suc k) \<and> (of_nat (Suc k) :: u32) \<noteq> 0"
proof -
  assume "Suc k < 4294967296"
  then have "unat (of_nat (Suc k) :: u32) = Suc k" by (rule unat_of_nat_u32)
  then show ?thesis by (metis Suc_eq_plus1 nat.distinct(1) of_nat_Suc add.commute unat_0)
qed

text \<open>
  The invariant of a fold, with the number of rows seen: what holds of the result after the
  rows so far is kept by each step.
\<close>

lemma feed_invariant:
  assumes "P [] r0" "qty r0 = 0" "length ns < 4294967296"
    and step: "\<And>ms n r. prefix (ms @ [n]) ns \<Longrightarrow> P ms r \<Longrightarrow> qty r = of_nat (length ms) \<Longrightarrow>
      \<exists>r'. step r n = Good r' \<and> qty r' = qty r \<and> P (ms @ [n]) (r'\<lparr>qty := of_nat (length (ms @ [n]))\<rparr>)"
  shows "\<exists>r. feed step r0 ns = Good r \<and> P ns r \<and> qty r = of_nat (length ns)"
  using assms(3,4)
proof (induction ns rule: rev_induct)
  case Nil
  then show ?case using assms(1,2) by simp
next
  case (snoc n ns)
  have "prefix ms ns \<Longrightarrow> prefix ms (ns @ [n])" for ms by auto
  then obtain r where r: "feed step r0 ns = Good r" "P ns r" "qty r = of_nat (length ns)"
    using snoc.IH snoc.prems by fastforce
  then obtain r' where "step r n = Good r'" "qty r' = qty r" "P (ns @ [n]) (r'\<lparr>qty := of_nat (length (ns @ [n]))\<rparr>)"
    using snoc.prems(2) [of ns n r] by auto
  then show ?case using r count_next [of "length ns"] snoc.prems(1) by (simp add: feed_append add.commute)
qed

abbreviation zero_result :: "'f aggresult" where
  "zero_result \<equiv> \<lparr>agg_value = UInt 0, auxdata = UInt 0, qty = 0\<rparr>"

definition sum_of :: "i64 list \<Rightarrow> int" where
  "sum_of ns = sum_list (map sint ns)"

text \<open>SUM is the exact sum when no partial sum leaves the range of \<open>long\<close>.\<close>

lemma sum_i_spec:
  assumes "length ns < 4294967296" "\<And>ms. prefix ms ns \<Longrightarrow> in_long (sum_of ms)"
  shows "\<exists>r. feed (sum_i fo) zero_result ns = Good r \<and> agg_value r = UInt (word_of_int (sum_of ns)) \<and> qty r = of_nat (length ns)"
proof (rule feed_invariant)
  fix ms n and r :: "'a aggresult"
  assume ms: "prefix (ms @ [n]) ns" "agg_value r = UInt (word_of_int (sum_of ms))"
  have l: "in_long (sum_of (ms @ [n]))" "in_long (sum_of ms)"
    using assms(2) [OF ms(1)] assms(2) [of ms] ms(1) append_prefixD by blast+
  have s: "sint (word_of_int (sum_of ms) :: i64) = sum_of ms" using l(2) by (simp add: in_long_def sint_word_of_int64)
  have "overflow_safe_add_i (word_of_int (sum_of ms)) n = Good (word_of_int (sum_of (ms @ [n])))"
    using l overflow_safe_add_i_spec [of "word_of_int (sum_of ms)" n] unfolding s
    by (auto simp: sum_of_def in_long_def)
  then show "\<exists>r'. sum_i fo r n = Good r' \<and> qty r' = qty r \<and>
      agg_value (r'\<lparr>qty := of_nat (length (ms @ [n]))\<rparr>) = UInt (word_of_int (sum_of (ms @ [n])))"
    using ms(2) by (simp add: sum_i_def as_int_def)
qed (simp_all add: assms(1) sum_of_def)

text \<open>MIN and MAX are the smallest and the largest value: the least by a key.\<close>

lemma best_i_least:
  fixes key :: "i64 \<Rightarrow> int"
  assumes "length ns < 4294967296" "ns \<noteq> []"
  shows "\<exists>r m. feed (best_i fo (\<lambda>a b. key a < key b)) zero_result ns = Good r \<and> agg_value r = UInt m \<and>
    m \<in> set ns \<and> (\<forall>n \<in> set ns. key m \<le> key n)"
proof -
  let ?P = "\<lambda>ms r. ms \<noteq> [] \<longrightarrow> (\<exists>m. agg_value (r :: 'a aggresult) = UInt m \<and> m \<in> set ms \<and> (\<forall>n \<in> set ms. key m \<le> key n))"
  have "\<exists>r. feed (best_i fo (\<lambda>a b. key a < key b)) zero_result ns = Good r \<and> ?P ns r \<and> qty r = of_nat (length ns)"
  proof (rule feed_invariant)
    fix ms n and r :: "'a aggresult"
    assume ms: "prefix (ms @ [n]) ns" "?P ms r" "qty r = of_nat (length ms)"
    then have "length ms < 4294967296" using assms(1) prefix_length_le [OF ms(1)] by simp
    then have q: "qty r = 0 \<longleftrightarrow> ms = []" using ms(3) unat_of_nat_u32 [of "length ms"] by auto
    show "\<exists>r'. best_i fo (\<lambda>a b. key a < key b) r n = Good r' \<and> qty r' = qty r \<and>
        ?P (ms @ [n]) (r'\<lparr>qty := of_nat (length (ms @ [n]))\<rparr>)"
      using ms(2) q by (cases "ms = []") (force simp: best_i_def as_int_def)+
  qed (simp_all add: assms(1))
  then show ?thesis using assms(2) by blast
qed

lemma min_i_spec:
  assumes "length ns < 4294967296" "ns \<noteq> []"
  shows "\<exists>r m. feed (best_i fo (\<lambda>a b. sint a < sint b)) zero_result ns = Good r \<and> agg_value r = UInt m \<and>
    m \<in> set ns \<and> (\<forall>n \<in> set ns. sint m \<le> sint n)"
  by (rule best_i_least [OF assms])

lemma max_i_spec:
  assumes "length ns < 4294967296" "ns \<noteq> []"
  shows "\<exists>r m. feed (best_i fo (\<lambda>a b. sint a > sint b)) zero_result ns = Good r \<and> agg_value r = UInt m \<and>
    m \<in> set ns \<and> (\<forall>n \<in> set ns. sint n \<le> sint m)"
  using best_i_least [OF assms, of fo "\<lambda>n. - sint n"] by simp

text \<open>AVG is the truncated quotient of the sum and the number of rows.\<close>

lemma avg_i_spec:
  assumes "length ns < 4294967296" "ns \<noteq> []" "\<And>ms. prefix ms ns \<Longrightarrow> in_long (sum_of ms)"
  shows "\<exists>r. feed (avg_i fo) zero_result ns = Good r \<and>
    agg_value r = UInt (word_of_int (sum_of ns sdiv int (length ns)))"
proof -
  let ?P = "\<lambda>ms (r :: 'a aggresult). auxdata r = UInt (word_of_int (sum_of ms)) \<and>
    (ms \<noteq> [] \<longrightarrow> agg_value r = UInt (word_of_int (sum_of ms sdiv int (length ms))))"
  have "\<exists>r. feed (avg_i fo) zero_result ns = Good r \<and> ?P ns r \<and> qty r = of_nat (length ns)"
  proof (rule feed_invariant)
    fix ms n and r :: "'a aggresult"
    assume ms: "prefix (ms @ [n]) ns" "?P ms r" "qty r = of_nat (length ms)"
    have l: "in_long (sum_of (ms @ [n]))" "in_long (sum_of ms)"
      using assms(3) [OF ms(1)] assms(3) [of ms] ms(1) append_prefixD by blast+
    have s: "sint (word_of_int (sum_of ms) :: i64) = sum_of ms"
        "sint (word_of_int (sum_of (ms @ [n])) :: i64) = sum_of (ms @ [n])"
      using l by (simp_all add: in_long_def sint_word_of_int64)
    have add: "overflow_safe_add_i (word_of_int (sum_of ms)) n = Good (word_of_int (sum_of (ms @ [n])))"
      using l overflow_safe_add_i_spec [of "word_of_int (sum_of ms)" n] unfolding s
      by (auto simp: sum_of_def in_long_def)
    have k: "Suc (length ms) < 4294967296" using assms(1) prefix_length_le [OF ms(1)] by simp
    let ?d = "ucast (qty r + 1) :: i64"
    have "unat (qty r + 1) = Suc (length ms)" using count_next [OF k] ms(3) unat_of_nat_u32 [OF k] by metis
    then have "unat ?d = Suc (length ms)" by (simp add: unat_ucast_u64)
    then have "?d = word_of_int (int (Suc (length ms)))" using word_of_int_uint [of ?d] by (simp add: uint_nat)
    moreover have "sint (word_of_int (int (Suc (length ms))) :: i64) = int (Suc (length ms))"
      by (rule sint_word_of_int64) (use k in simp_all)
    ultimately have d: "sint ?d = int (Suc (length ms))" by metis
    then have "?d \<noteq> 0" "?d \<noteq> - 1" by auto
    then have "trunc_div (word_of_int (sum_of (ms @ [n]))) ?d =
        Good (word_of_int (sum_of (ms @ [n]) sdiv int (Suc (length ms))))"
      unfolding trunc_div_def s d by simp
    then show "\<exists>r'. avg_i fo r n = Good r' \<and> qty r' = qty r \<and> ?P (ms @ [n]) (r'\<lparr>qty := of_nat (length (ms @ [n]))\<rparr>)"
      using ms(2) add by (simp add: avg_i_def as_int_def)
  qed (simp_all add: assms(1) sum_of_def)
  then show ?thesis using assms(2) by blast
qed

end
