(* ===== verification/Flex.thy ===== *)
theory Flex
  imports Field Strings
begin

text \<open>
  The array of byte strings of util/flex.c, which holds the keys of the groups: one block of
  raw bytes and a vector of places in it. Popping gives the bytes back only when they are
  the last ones of the block.
\<close>

section \<open>Operations\<close>

record flex =
  raw :: "char vec"
  pairs :: "(nat \<times> nat) vec"

definition flex_construct :: flex where
  "flex_construct = \<lparr>raw = vec_construct, pairs = vec_construct\<rparr>"

definition flex_empty :: "flex \<Rightarrow> bool" where
  "flex_empty f \<longleftrightarrow> vec_empty (pairs f)"

definition flex_size :: "flex \<Rightarrow> nat" where
  "flex_size f = vsize (pairs f)"

text \<open>A place is a pointer into the block; only a place inside it can be formed.\<close>

definition flex_at :: "flex \<Rightarrow> nat \<Rightarrow> nat option" where
  "flex_at f idx = do {
     cell \<leftarrow> vec_at (pairs f) idx;
     (i, n) \<leftarrow> cell;
     _ \<leftarrow> vec_at (raw f) i;
     Some i
   }"

text \<open>What can be read from a place on: the bytes up to the first one never written.\<close>

definition readable :: "char option list \<Rightarrow> string" where
  "readable cs = chars (takeWhile (\<lambda>c. c \<noteq> None) cs)"

definition flex_pair_at :: "flex \<Rightarrow> nat \<Rightarrow> view option" where
  "flex_pair_at f idx = do {
     cell \<leftarrow> vec_at (pairs f) idx;
     (i, n) \<leftarrow> cell;
     _ \<leftarrow> vec_at (raw f) i;
     Some \<lparr>sv_data = readable (drop i (vdata (raw f))), sv_len = n\<rparr>
   }"

definition flex_reserve :: "flex \<Rightarrow> nat \<Rightarrow> flex" where
  "flex_reserve f n = \<lparr>raw = vec_reserve (raw f) n, pairs = vec_reserve (pairs f) n\<rparr>"

definition flex_clear :: "flex \<Rightarrow> flex" where
  "flex_clear f = \<lparr>raw = vec_clear (raw f), pairs = vec_clear (pairs f)\<rparr>"

definition flex_shrink_to_fit :: "flex \<Rightarrow> flex" where
  "flex_shrink_to_fit f = f\<lparr>pairs := vec_shrink_to_fit (pairs f)\<rparr>"

definition flex_pop_back :: "flex \<Rightarrow> flex option" where
  "flex_pop_back f = do {
     cell \<leftarrow> vec_at (pairs f) (vec_back (pairs f));
     (i, n) \<leftarrow> cell;
     let f1 = (if i + n = vsize (raw f) then f\<lparr>raw := vec_resize (raw f) i\<rparr> else f);
     Some (f1\<lparr>pairs := snd (vec_pop_back (pairs f1))\<rparr>)
   }"

text \<open>The loop of \<open>flex_resize\<close>: \<open>k\<close> pairs are too many.\<close>

fun pop_times :: "nat \<Rightarrow> flex \<Rightarrow> flex option" where
  "pop_times 0 f = Some f"
| "pop_times (Suc k) f = flex_pop_back f \<bind> pop_times k"

definition flex_resize :: "flex \<Rightarrow> nat \<Rightarrow> flex option" where
  "flex_resize f n =
     (if n > vsize (pairs f) then Some (f\<lparr>pairs := vec_resize (pairs f) n\<rparr>)
      else pop_times (vsize (pairs f) - n) f)"

definition flex_insert :: "flex \<Rightarrow> nat \<Rightarrow> string \<Rightarrow> flex option" where
  "flex_insert f idx data = do {
     p \<leftarrow> vec_insert_at (pairs f) idx [Some (vsize (raw f), length data)];
     r \<leftarrow> vec_append (raw f) (map Some data);
     Some \<lparr>raw = r, pairs = p\<rparr>
   }"

definition flex_push_back :: "flex \<Rightarrow> string \<Rightarrow> flex option" where
  "flex_push_back f data = do {
     p \<leftarrow> vec_push_back (pairs f) (Some (vsize (raw f), length data));
     r \<leftarrow> vec_append (raw f) (map Some data);
     Some \<lparr>raw = r, pairs = p\<rparr>
   }"

text \<open>
  The number is printed twice, first for its length; the second \<open>snprintf\<close> writes a NUL
  behind the used part of the block.
\<close>

definition push_printed :: "flex \<Rightarrow> string \<Rightarrow> flex option" where
  "push_printed f txt = do {
     let i = vsize (raw f);
     p \<leftarrow> vec_push_back (pairs f) (Some (i, length txt));
     let r = vec_resize (raw f) (i + length txt);
     d \<leftarrow> mem_write i (map Some (txt @ [CHR 0x00])) (vdata r);
     Some \<lparr>raw = r\<lparr>vdata := d\<rparr>, pairs = p\<rparr>
   }"

definition flex_push_back_str_int :: "flex \<Rightarrow> i64 \<Rightarrow> flex option" where
  "flex_push_back_str_int f num = push_printed f (show_long num)"

definition flex_push_back_str_float :: "'f flt \<Rightarrow> flex \<Rightarrow> 'f \<Rightarrow> flex option" where
  "flex_push_back_str_float fo f num = push_printed f (f_print fo num)"

definition flex_remove :: "flex \<Rightarrow> nat \<Rightarrow> flex option" where
  "flex_remove f idx = do { p \<leftarrow> vec_erase_at (pairs f) idx 1; Some (f\<lparr>pairs := p\<rparr>) }"

section \<open>The sequence of strings\<close>

definition place_text :: "char option list \<Rightarrow> (nat \<times> nat) option \<Rightarrow> char option list" where
  "place_text cs p = (case p of None \<Rightarrow> [] | Some (i, n) \<Rightarrow> take n (drop i cs))"

definition place_ok :: "nat \<Rightarrow> nat \<Rightarrow> (nat \<times> nat) option \<Rightarrow> bool" where
  "place_ok alloc used p = (case p of None \<Rightarrow> False | Some (i, n) \<Rightarrow> i < alloc \<and> (n = 0 \<or> i + n \<le> used))"

definition apart :: "(nat \<times> nat) option \<Rightarrow> (nat \<times> nat) option \<Rightarrow> bool" where
  "apart p q = (case (p, q) of
     (Some (i, n), Some (j, m)) \<Rightarrow> n = 0 \<or> m = 0 \<or> i + n \<le> j \<or> j + m \<le> i
   | _ \<Rightarrow> False)"

definition flex_ok :: "flex \<Rightarrow> bool" where
  "flex_ok f \<longleftrightarrow> vec_ok (raw f) \<and> vec_ok (pairs f) \<and> None \<notin> set (vec_list (raw f)) \<and>
     (\<forall>p \<in> set (vec_list (pairs f)). place_ok (valloc (raw f)) (vsize (raw f)) p) \<and>
     sorted_wrt apart (vec_list (pairs f))"

definition flex_list :: "flex \<Rightarrow> string list" where
  "flex_list f = map (\<lambda>p. chars (place_text (vec_list (raw f)) p)) (vec_list (pairs f))"

lemma flex_ok_construct: "flex_ok flex_construct" "flex_list flex_construct = []"
  by (simp_all add: flex_ok_def flex_list_def flex_construct_def)

lemma flex_list_length: "flex_ok f \<Longrightarrow> length (flex_list f) = flex_size f"
  by (simp add: flex_list_def flex_ok_def vec_list_length flex_size_def)

lemma apart_sym: "apart p q \<Longrightarrow> apart q p"
  by (auto simp: apart_def split: option.splits)

text \<open>Bytes appended behind the used part belong to no earlier place.\<close>

lemma place_text_append: "place_ok a (length cs) p \<Longrightarrow> place_text (cs @ ds) p = place_text cs p"
  by (auto simp: place_ok_def place_text_def split: option.splits)

lemma place_ok_mono: "place_ok a n p \<Longrightarrow> a \<le> a' \<Longrightarrow> n \<le> n' \<Longrightarrow> place_ok a' n' p"
  by (auto simp: place_ok_def split: option.splits)

lemma place_apart_new: "place_ok a n p \<Longrightarrow> apart p (Some (n, m)) \<and> apart (Some (n, m)) p"
  by (auto simp: place_ok_def apart_def split: option.splits)

text \<open>One more string at the end of the bytes, its place anywhere among the pairs.\<close>

lemma flex_add:
  assumes ok: "flex_ok f" and p: "vec_ok p" "vec_list p = xs @ Some (vsize (raw f), length data) # ys"
    "vec_list (pairs f) = xs @ ys"
    and r: "vec_ok r" "vec_list r = vec_list (raw f) @ map Some data" "valloc (raw f) \<le> valloc r"
  shows "flex_ok \<lparr>raw = r, pairs = p\<rparr>"
    "flex_list \<lparr>raw = r, pairs = p\<rparr> =
       take (length xs) (flex_list f) @ data # drop (length xs) (flex_list f)"
proof -
  have o: "None \<notin> set (vec_list (raw f))" "sorted_wrt apart (xs @ ys)"
      "\<forall>q \<in> set (xs @ ys). place_ok (valloc (raw f)) (vsize (raw f)) q"
      and lr: "length (vec_list (raw f)) = vsize (raw f)"
    using ok vec_list_length [of "raw f"] unfolding flex_ok_def p(3) by auto
  have sz: "vsize r = vsize (raw f) + length data" using vec_list_length [OF r(1)] r(2) lr by simp
  have al: "vsize (raw f) < valloc r" using r(1) sz by (simp add: vec_ok_def)
  have "None \<notin> set (vec_list r)" using o(1) r(2) by auto
  moreover have "place_ok (valloc r) (vsize r) q" if "q \<in> set (vec_list p)" for q
    using that o(3) r(3) sz al
    by (auto simp: p(2) intro: place_ok_mono) (auto simp: place_ok_def intro: place_ok_mono)
  moreover have "sorted_wrt apart (vec_list p)"
    using o(2,3) place_apart_new [where n = "vsize (raw f)"] by (auto simp: p(2) sorted_wrt_append)
  ultimately show "flex_ok \<lparr>raw = r, pairs = p\<rparr>" using p(1) r(1) by (simp add: flex_ok_def)
  have same: "map (\<lambda>q. chars (place_text (vec_list r) q)) zs = map (\<lambda>q. chars (place_text (vec_list (raw f)) q)) zs"
    if zs: "set zs \<subseteq> set (xs @ ys)" for zs
  proof (rule map_cong [OF refl])
    fix q assume "q \<in> set zs"
    then have "place_ok (valloc (raw f)) (length (vec_list (raw f))) q" using zs o(3) lr by auto
    from place_text_append [OF this]
    show "chars (place_text (vec_list r) q) = chars (place_text (vec_list (raw f)) q)" by (simp add: r(2))
  qed
  have new: "place_text (vec_list r) (Some (vsize (raw f), length data)) = map Some data"
    using lr by (simp add: place_text_def r(2))
  show "flex_list \<lparr>raw = r, pairs = p\<rparr> = take (length xs) (flex_list f) @ data # drop (length xs) (flex_list f)"
    using same [of xs] same [of ys] new by (simp add: flex_list_def p)
qed

lemma vec_append_alloc:
  assumes "vec_ok v" "vec_append v src = Some v'"
  shows "valloc v \<le> valloc v'"
  using assms vec_resize_shape(3) [OF assms(1), of "vsize v + length src"]
  by (auto simp: vec_append_def Let_def bind_eq_Some_conv)

lemma flex_push_back_spec:
  assumes "flex_ok f"
  shows "yields (flex_push_back f data) (\<lambda>f'. flex_ok f' \<and> flex_list f' = flex_list f @ [data])"
proof -
  have v: "vec_ok (raw f)" "vec_ok (pairs f)" using assms by (auto simp: flex_ok_def)
  obtain p where p: "vec_push_back (pairs f) (Some (vsize (raw f), length data)) = Some p" "vec_ok p"
      "vec_list p = vec_list (pairs f) @ [Some (vsize (raw f), length data)]"
    using vec_push_back_list [OF v(2)] by (auto simp: yields_exists)
  obtain r where r: "vec_append (raw f) (map Some data) = Some r" "vec_ok r"
      "vec_list r = vec_list (raw f) @ map Some data"
    using vec_append_list [OF v(1)] by (auto simp: yields_exists)
  have len: "length (vec_list (pairs f)) = length (flex_list f)" by (simp add: flex_list_def)
  show ?thesis
    using p r flex_add [OF assms p(2) _ _ r(2,3) vec_append_alloc [OF v(1) r(1)], where xs = "vec_list (pairs f)" and ys = "[]"] len
    by (simp add: flex_push_back_def)
qed

lemma flex_insert_spec:
  assumes "flex_ok f" "idx \<le> flex_size f"
  shows "yields (flex_insert f idx data)
    (\<lambda>f'. flex_ok f' \<and> flex_list f' = take idx (flex_list f) @ data # drop idx (flex_list f))"
proof -
  have v: "vec_ok (raw f)" "vec_ok (pairs f)" using assms by (auto simp: flex_ok_def)
  have i: "idx \<le> vsize (pairs f)" using assms(2) by (simp add: flex_size_def)
  obtain p where p: "vec_insert_at (pairs f) idx [Some (vsize (raw f), length data)] = Some p" "vec_ok p"
      "vec_list p = take idx (vec_list (pairs f)) @ [Some (vsize (raw f), length data)] @ drop idx (vec_list (pairs f))"
    using vec_insert_iter_list [OF v(2) i, of "[Some (vsize (raw f), length data)]"]
    by (auto simp: yields_exists vec_insert_at_def)
  obtain r where r: "vec_append (raw f) (map Some data) = Some r" "vec_ok r"
      "vec_list r = vec_list (raw f) @ map Some data"
    using vec_append_list [OF v(1)] by (auto simp: yields_exists)
  have len: "min (vsize (pairs f)) idx = idx" using i by simp
  show ?thesis
    using p r flex_add [OF assms(1) p(2) _ _ r(2,3) vec_append_alloc [OF v(1) r(1)],
        where xs = "take idx (vec_list (pairs f))" and ys = "drop idx (vec_list (pairs f))"] len
      vec_list_length [OF v(2)]
    by (simp add: flex_insert_def)
qed

lemma push_printed_spec:
  assumes "flex_ok f"
  shows "yields (push_printed f txt) (\<lambda>f'. flex_ok f' \<and> flex_list f' = flex_list f @ [txt])"
proof -
  have v: "vec_ok (raw f)" "vec_ok (pairs f)" using assms by (auto simp: flex_ok_def)
  let ?i = "vsize (raw f)"
  let ?r = "vec_resize (raw f) (?i + length txt)"
  obtain p where p: "vec_push_back (pairs f) (Some (?i, length txt)) = Some p" "vec_ok p"
      "vec_list p = vec_list (pairs f) @ [Some (?i, length txt)]"
    using vec_push_back_list [OF v(2)] by (auto simp: yields_exists)
  note sh = vec_resize_shape [OF v(1), of "?i + length txt"]
  have al: "?i + length txt < length (vdata ?r)" using vec_resize_alloc [OF v(1), of "?i + length txt"] sh by simp
  have lr: "?i < length (vdata (raw f))" using v(1) by (simp add: vec_ok_def)
  have keep: "take ?i (vdata ?r) = take ?i (vdata (raw f))"
    using v(1) by (intro take_resize) (auto simp: vec_ok_def)
  define d where "d = take ?i (vdata ?r) @ map Some (txt @ [CHR 0x00]) @ drop (?i + length (txt @ [CHR 0x00])) (vdata ?r)"
  have w: "mem_write ?i (map Some (txt @ [CHR 0x00])) (vdata ?r) = Some d"
    using al by (simp add: d_def mem_write_in)
  have ld: "length d = length (vdata ?r)" using mem_write_length [OF w] .
  have r: "vec_ok (?r\<lparr>vdata := d\<rparr>)" "vec_list (?r\<lparr>vdata := d\<rparr>) = vec_list (raw f) @ map Some txt"
      "valloc (raw f) \<le> valloc (?r\<lparr>vdata := d\<rparr>)"
    using sh ld al lr keep by (simp_all add: vec_ok_def vec_list_def d_def)
  have len: "length (vec_list (pairs f)) = length (flex_list f)" by (simp add: flex_list_def)
  show ?thesis
    using p w flex_add [OF assms p(2) _ _ r, where xs = "vec_list (pairs f)" and ys = "[]"] len
    by (simp add: push_printed_def Let_def)
qed

lemma flex_push_back_str_int_spec:
  "flex_ok f \<Longrightarrow>
   yields (flex_push_back_str_int f n) (\<lambda>f'. flex_ok f' \<and> flex_list f' = flex_list f @ [show_long n])"
  by (simp add: flex_push_back_str_int_def push_printed_spec)

lemma flex_push_back_str_float_spec:
  "flex_ok f \<Longrightarrow>
   yields (flex_push_back_str_float fo f x) (\<lambda>f'. flex_ok f' \<and> flex_list f' = flex_list f @ [f_print fo x])"
  by (simp add: flex_push_back_str_float_def push_printed_spec)


text \<open>Reading a string back.\<close>

lemma readable_take:
  assumes "n \<le> length cs" "None \<notin> set (take n cs)"
  shows "n \<le> length (readable cs)" "take n (readable cs) = chars (take n cs)"
proof -
  have tw: "takeWhile (\<lambda>c. c \<noteq> None) cs = take n cs @ takeWhile (\<lambda>c. c \<noteq> None) (drop n cs)"
  proof -
    have "takeWhile (\<lambda>c. c \<noteq> None) (take n cs @ drop n cs) =
        take n cs @ takeWhile (\<lambda>c. c \<noteq> None) (drop n cs)"
      using assms(2) by (intro takeWhile_append2) metis
    then show ?thesis by simp
  qed
  have len: "length (chars (take n cs)) = n" using assms(1) by (simp add: chars_def)
  have "readable cs = chars (take n cs) @ chars (takeWhile (\<lambda>c. c \<noteq> None) (drop n cs))"
    unfolding readable_def by (subst tw) (simp add: chars_def)
  then show "n \<le> length (readable cs)" "take n (readable cs) = chars (take n cs)" using len by simp_all
qed

lemma flex_pair_at_spec:
  assumes ok: "flex_ok f" and idx: "idx < flex_size f"
  shows "\<exists>v. flex_pair_at f idx = Some v \<and> view_ok v \<and> sv_text v = flex_list f ! idx"
proof -
  have v: "vec_ok (raw f)" "vec_ok (pairs f)" "None \<notin> set (vec_list (raw f))" using ok by (auto simp: flex_ok_def)
  have i: "idx < length (vec_list (pairs f))" using idx vec_list_length [OF v(2)] by (simp add: flex_size_def)
  then have "place_ok (valloc (raw f)) (vsize (raw f)) (vec_list (pairs f) ! idx)"
    using ok nth_mem unfolding flex_ok_def by blast
  then obtain j n where p: "vec_list (pairs f) ! idx = Some (j, n)" "j < valloc (raw f)"
      "n = 0 \<or> j + n \<le> vsize (raw f)"
    by (auto simp: place_ok_def split: option.splits)
  let ?w = "\<lparr>sv_data = readable (drop j (vdata (raw f))), sv_len = n\<rparr>"
  have eq: "flex_pair_at f idx = Some ?w"
    using p v(1) idx vec_at_list [OF v(2), of idx]
    by (simp add: flex_pair_at_def flex_size_def vec_at_def [of "raw f"] vec_ok_def)
  show ?thesis
  proof (cases "n = 0")
    case True
    then show ?thesis using eq p i by (simp add: view_ok_def sv_text_def flex_list_def place_text_def chars_def)
  next
    case False
    then have jn: "j + n \<le> vsize (raw f)" "vsize (raw f) < length (vdata (raw f))"
      using p(3) v(1) by (auto simp: vec_ok_def)
    then have cut: "take n (drop j (vdata (raw f))) = take n (drop j (vec_list (raw f)))"
      by (simp add: vec_list_def drop_take min_absorb1)
    have "None \<notin> set (take n (drop j (vec_list (raw f))))"
      using v(3) by (meson in_set_dropD in_set_takeD)
    then have "None \<notin> set (take n (drop j (vdata (raw f))))" by (simp only: cut not_False_eq_True)
    from readable_take [OF _ this] jn have "n \<le> length (readable (drop j (vdata (raw f))))"
      "take n (readable (drop j (vdata (raw f)))) = chars (take n (drop j (vec_list (raw f))))"
      using cut by simp_all
    then show ?thesis using eq p i by (simp add: view_ok_def sv_text_def flex_list_def place_text_def)
  qed
qed

section \<open>Shrinking\<close>

lemma flex_pop_back_spec:
  assumes ok: "flex_ok f" and ne: "0 < flex_size f"
  shows "yields (flex_pop_back f) (\<lambda>f'. flex_ok f' \<and> flex_list f' = butlast (flex_list f))"
proof -
  have v: "vec_ok (raw f)" "vec_ok (pairs f)" "None \<notin> set (vec_list (raw f))" using ok by (auto simp: flex_ok_def)
  have len: "length (vec_list (pairs f)) = vsize (pairs f)" "length (vec_list (raw f)) = vsize (raw f)"
    using vec_list_length v by auto
  then have "vec_list (pairs f) \<noteq> []" using ne by (auto simp: flex_size_def)
  then obtain ps p where ps: "vec_list (pairs f) = ps @ [p]" by (metis rev_exhaust)
  have po: "\<forall>q \<in> set ps. place_ok (valloc (raw f)) (vsize (raw f)) q" "place_ok (valloc (raw f)) (vsize (raw f)) p"
      "\<forall>q \<in> set ps. apart q p" "sorted_wrt apart ps"
    using ok unfolding flex_ok_def ps by (auto simp: sorted_wrt_append)
  obtain i n where p: "p = Some (i, n)" "i < valloc (raw f)" "n = 0 \<or> i + n \<le> vsize (raw f)"
    using po(2) by (auto simp: place_ok_def split: option.splits)
  have cell: "vec_at (pairs f) (vec_back (pairs f)) = Some (Some (i, n))"
  proof -
    have n: "vsize (pairs f) = Suc (length ps)" using len(1) ps by simp
    then have "vec_at (pairs f) (vsize (pairs f) - 1) = Some (vec_list (pairs f) ! (vsize (pairs f) - 1))"
      by (intro vec_at_list v) simp
    then show ?thesis using n ps p(1) by (simp add: vec_back_def nth_append)
  qed
  define r where "r = (if i + n = vsize (raw f) then vec_resize (raw f) i else raw f)"
  define q where "q = snd (vec_pop_back (pairs f))"
  have pop: "flex_pop_back f = Some \<lparr>raw = r, pairs = q\<rparr>"
    using cell by (simp add: flex_pop_back_def r_def q_def Let_def)
  have ql: "vec_ok q" "vec_list q = ps"
  proof -
    have "vsize (pairs f) = Suc (length ps)" using len(1) ps by simp
    then have qq: "q = (pairs f)\<lparr>vsize := length ps\<rparr>" by (simp add: q_def vec_pop_back_def Let_def)
    show "vec_ok q" using v(2) \<open>vsize (pairs f) = Suc (length ps)\<close> by (simp add: qq vec_ok_def)
    have "take (length ps) (take (Suc (length ps)) (vdata (pairs f))) = ps"
      using ps \<open>vsize (pairs f) = Suc (length ps)\<close> by (simp add: vec_list_def)
    then show "vec_list q = ps" by (simp add: qq vec_list_def)
  qed
  have rs: "vec_ok r" "valloc r = valloc (raw f) \<or> i \<le> vsize (raw f)" "valloc (raw f) \<le> valloc r"
      "vec_list r = take (vsize r) (vec_list (raw f))"
      "vsize r = (if i + n = vsize (raw f) then i else vsize (raw f))"
  proof -
    note sh = vec_resize_shape [OF v(1), of i]
    have li: "take (min i (vsize (raw f))) (vec_list (vec_resize (raw f) i)) = take i (vec_list (raw f))"
      using vec_resize_list [OF v(1), of i] by simp
    have le: "vec_list (vec_resize (raw f) i) = take i (vec_list (raw f))" if "i \<le> vsize (raw f)"
    proof -
      have "length (vec_list (vec_resize (raw f) i)) = i" using vec_list_length [OF sh(1)] sh(2) by simp
      then show ?thesis using li that by (simp add: min_absorb1)
    qed
    show "vec_ok r" "valloc (raw f) \<le> valloc r" "vsize r = (if i + n = vsize (raw f) then i else vsize (raw f))"
      using sh v by (auto simp: r_def)
    show "vec_list r = take (vsize r) (vec_list (raw f))" using sh le len by (auto simp: r_def)
    show "valloc r = valloc (raw f) \<or> i \<le> vsize (raw f)" by (auto simp: r_def)
  qed
  have keep: "place_ok (valloc r) (vsize r) x \<and> place_text (vec_list r) x = place_text (vec_list (raw f)) x"
    if x: "x \<in> set ps" for x
  proof -
    obtain j m where j: "x = Some (j, m)" "j < valloc (raw f)" "m = 0 \<or> j + m \<le> vsize (raw f)"
      using po(1) x by (auto simp: place_ok_def split: option.splits)
    have "apart x p" using po(3) x by blast
    then have a: "m = 0 \<or> n = 0 \<or> j + m \<le> i \<or> i + n \<le> j" using j p by (auto simp: apart_def)
    have "m = 0 \<or> j + m \<le> vsize r" using a j(3) unfolding rs(5) by (auto split: if_splits)
    then show ?thesis
      using j rs(3) unfolding rs(4) by (auto simp: place_ok_def place_text_def drop_take min_absorb1)
  qed
  have "None \<notin> set (vec_list r)" unfolding rs(4) using v(3) by (meson in_set_takeD)
  then have "flex_ok \<lparr>raw = r, pairs = q\<rparr>" using rs(1) ql keep po(4) by (simp add: flex_ok_def)
  moreover have "flex_list \<lparr>raw = r, pairs = q\<rparr> = butlast (flex_list f)"
    using keep by (simp add: flex_list_def ql ps)
  ultimately show ?thesis using pop by simp
qed

lemma pop_times_spec:
  "flex_ok f \<Longrightarrow> k \<le> flex_size f \<Longrightarrow>
   yields (pop_times k f) (\<lambda>f'. flex_ok f' \<and> flex_list f' = take (flex_size f - k) (flex_list f))"
proof (induction k arbitrary: f)
  case 0
  then show ?case using flex_list_length [of f] by simp
next
  case (Suc k)
  obtain f1 where f1: "flex_pop_back f = Some f1" "flex_ok f1" "flex_list f1 = butlast (flex_list f)"
    using flex_pop_back_spec [OF Suc.prems(1)] Suc.prems(2) by (auto simp: yields_exists)
  have "flex_size f1 = flex_size f - 1"
    using flex_list_length [OF f1(2)] flex_list_length [OF Suc.prems(1)] f1(3) by simp
  then show ?case
    using Suc.IH [OF f1(2)] Suc.prems f1 flex_list_length [OF Suc.prems(1)]
    by (simp add: butlast_conv_take min_absorb1)
qed

lemma flex_resize_spec:
  assumes "flex_ok f" "n \<le> flex_size f"
  shows "yields (flex_resize f n) (\<lambda>f'. flex_ok f' \<and> flex_list f' = take n (flex_list f))"
proof -
  have "flex_size f - (flex_size f - n) = n" using assms(2) by simp
  then show ?thesis
    using pop_times_spec [OF assms(1), of "flex_size f - n"] assms(2)
    by (simp add: flex_resize_def flex_size_def)
qed

lemma flex_remove_spec:
  assumes ok: "flex_ok f" and idx: "idx < flex_size f"
  shows "yields (flex_remove f idx)
    (\<lambda>f'. flex_ok f' \<and> flex_list f' = take idx (flex_list f) @ drop (idx + 1) (flex_list f))"
proof -
  have v: "vec_ok (pairs f)" using ok by (auto simp: flex_ok_def)
  obtain p where p: "vec_erase_at (pairs f) idx 1 = Some p" "vec_ok p"
      "vec_list p = take idx (vec_list (pairs f)) @ drop (idx + 1) (vec_list (pairs f))"
    using vec_erase_iter_list [OF v, of idx idx] idx
    by (auto simp: yields_exists vec_erase_at_def flex_size_def)
  have "sorted_wrt apart (take idx (vec_list (pairs f)) @ drop (idx + 1) (vec_list (pairs f)))"
  proof -
    have "sorted_wrt apart (xs @ tl ys)" if "sorted_wrt apart (xs @ ys)" for xs ys
      using that by (cases ys) (auto simp: sorted_wrt_append)
    moreover have "sorted_wrt apart (take idx (vec_list (pairs f)) @ drop idx (vec_list (pairs f)))"
      using ok by (simp add: flex_ok_def)
    ultimately show ?thesis by (metis drop_Suc drop_tl Suc_eq_plus1)
  qed
  then have "flex_ok (f\<lparr>pairs := p\<rparr>)"
    using ok p by (auto simp: flex_ok_def dest: in_set_takeD in_set_dropD)
  then show ?thesis using p by (simp add: flex_remove_def flex_list_def take_map drop_map)
qed

lemma flex_clear_spec: "flex_ok f \<Longrightarrow> flex_ok (flex_clear f) \<and> flex_list (flex_clear f) = []"
  using vec_clear_list [of "raw f"] vec_clear_list [of "pairs f"]
  by (simp add: flex_ok_def flex_clear_def flex_list_def)

end
