(* ===== verification/Compositemap.thy ===== *)
theory Compositemap
  imports HashmapMaps
begin

text \<open>
  The \<open>compositemap\<close> of util/hashmap.c, whose keys are vectors of views; GROUP BY and
  DISTINCT use it. It is a \<open>hashmap\<close> (\<open>base\<close>) whose entries name a stretch of \<open>_keys\<close>, a vector of
  places in the key buffer, one per component. A lookup writes the normalised
  components behind the used part of the buffer and their places into \<open>_key_temp\<close>.
\<close>

section \<open>Operations\<close>

record 'v compositemap =
  base :: "'v vec hashtab"
  ckeys :: "(nat \<times> nat) vec"
  key_temp :: "(nat \<times> nat) vec option"

definition compositemap_clear :: "'v compositemap \<Rightarrow> 'v compositemap" where
  "compositemap_clear c = c\<lparr>ckeys := vec_clear (ckeys c),
     base := (base c)\<lparr>vals := vec_clear (vals (base c)), keybuf_head := 0,
       entries := replicate (limit (base c)) None\<rparr>\<rparr>"

definition compositemap_construct :: "nat \<Rightarrow> u32 \<Rightarrow> 'v compositemap" where
  "compositemap_construct lim ps =
     (let h = hashmap_construct lim ps
      in \<lparr>base = h, ckeys = vec_reserve vec_construct (limit h), key_temp = None\<rparr>)"

text \<open>The loop over the components of the key.\<close>

fun composite_loop ::
    "'v vec hashtab \<Rightarrow> (nat \<times> nat) vec \<Rightarrow> nat \<Rightarrow> u64 \<Rightarrow> nat \<Rightarrow> string list \<Rightarrow>
     ('v vec hashtab \<times> (nat \<times> nat) vec \<times> u64 \<times> nat) option" where
  "composite_loop m t i hash klen [] = Some (m, t, hash, klen)"
| "composite_loop m t i hash klen (key # key') =
     (let len = grow_len (length (keybuf m)) (keybuf_head m + length key);
          (ks, n, h) = get_hash (props m) key
      in do {
        b \<leftarrow> mem_write (keybuf_head m) (map Some ks) (mem_realloc len (keybuf m));
        t' \<leftarrow> vec_set_one t i (Some (keybuf_head m, n));
        composite_loop (m\<lparr>keybuf := b, keybuf_head := keybuf_head m + n\<rparr>) t' (i + 1)
          (hash * (of_nat (i + 1) * h)) (klen + n) key'
      })"

definition loc_text :: "char option list \<Rightarrow> (nat \<times> nat) option \<Rightarrow> char option list" where
  "loc_text b loc = (case loc of None \<Rightarrow> [] | Some (i, n) \<Rightarrow> take n (drop i b))"

definition loc_len :: "(nat \<times> nat) option \<Rightarrow> nat" where
  "loc_len loc = (case loc of None \<Rightarrow> 0 | Some (i, n) \<Rightarrow> n)"

definition composite_eq :: "char option list \<Rightarrow> (nat \<times> nat) vec \<Rightarrow> (nat \<times> nat) vec \<Rightarrow> hm_entry \<Rightarrow> bool" where
  "composite_eq b ks temp ent \<longleftrightarrow>
     (\<forall>i < key_len ent. loc_len (vdata ks ! (key_idx ent + i)) = loc_len (vdata temp ! i) \<and>
        loc_text b (vdata ks ! (key_idx ent + i)) = loc_text b (vdata temp ! i))"

definition composite_get_entry ::
    "'v compositemap \<Rightarrow> string list \<Rightarrow> (nat \<times> nat \<times> u64 \<times> 'v compositemap) option" where
  "composite_get_entry c key = do {
     temp \<leftarrow> key_temp c;
     (m, t, hash, klen) \<leftarrow> composite_loop (base c) temp 0 1 0 key;
     i \<leftarrow> probe (entries m)
       (\<lambda>e. key_len e = length key \<and> ehash e = hash \<and> composite_eq (keybuf m) (ckeys c) t e)
       (limit m) (home_slot (limit m) hash);
     Some (i, klen, hash, c\<lparr>base := m\<lparr>keybuf_head := keybuf_head m - klen\<rparr>, key_temp := Some t\<rparr>)
   }"

definition ready_temp :: "'v compositemap \<Rightarrow> nat \<Rightarrow> 'v compositemap" where
  "ready_temp c n =
     (let t = (case key_temp c of None \<Rightarrow> vec_construct | Some t \<Rightarrow> t)
      in c\<lparr>key_temp := Some (vec_resize t n)\<rparr>)"

definition compositemap_set :: "'v compositemap \<Rightarrow> string list \<Rightarrow> 'v \<Rightarrow> 'v compositemap option" where
  "compositemap_set c key data = do {
     (i, klen, hash, c1) \<leftarrow> composite_get_entry (ready_temp c (length key)) key;
     let m = base c1;
     case entries m ! i of
       None \<Rightarrow> do {
         let e = \<lparr>ehash = hash, val_idx = vsize (vals m), key_idx = vsize (ckeys c1), key_len = length key\<rparr>;
         temp \<leftarrow> key_temp c1;
         ks \<leftarrow> vec_extend (ckeys c1) temp;
         v \<leftarrow> vec_push_back (vals m) (Some data);
         let m1 = m\<lparr>entries := (entries m)[i := Some e], keybuf_head := keybuf_head m + klen, vals := v\<rparr>;
         m2 \<leftarrow> (if over_full (vsize (vals m1)) (limit m1) then increase_size m1 else Some m1);
         Some (c1\<lparr>base := m2, ckeys := ks\<rparr>)
       }
     | Some e \<Rightarrow> do {
         v \<leftarrow> vec_set_at (vals m) (val_idx e) [Some data];
         Some (c1\<lparr>base := m\<lparr>vals := v\<rparr>\<rparr>)
       }
   }"

definition compositemap_get :: "'v compositemap \<Rightarrow> string list \<Rightarrow> (nat option \<times> 'v compositemap) option" where
  "compositemap_get c key = do {
     (i, klen, hash, c1) \<leftarrow> composite_get_entry (ready_temp c (length key)) key;
     Some (map_option val_idx (entries (base c1) ! i), c1)
   }"

section \<open>The loop over the components\<close>

definition comp_hash :: "u32 \<Rightarrow> nat \<Rightarrow> u64 \<Rightarrow> string list \<Rightarrow> u64" where
  "comp_hash ps i h ks =
     fst (foldl (\<lambda>(h, i) k. (h * (of_nat (i + 1) * key_hash ps k), i + 1)) (h, i) ks)"

lemma comp_hash_simps [simp]:
  "comp_hash ps i h [] = h"
  "comp_hash ps i h (k # ks) = comp_hash ps (Suc i) (h * (of_nat (Suc i) * key_hash ps k)) ks"
  by (simp_all add: comp_hash_def)

definition loc_in :: "nat \<Rightarrow> (nat \<times> nat) option \<Rightarrow> bool" where
  "loc_in h loc \<longleftrightarrow> (case loc of None \<Rightarrow> False | Some (i, n) \<Rightarrow> i + n \<le> h)"

lemma loc_text_prefix:
  assumes "take h b' = take h b" "loc_in h loc"
  shows "loc_text b' loc = loc_text b loc"
proof -
  obtain i n where l: "loc = Some (i, n)" "i + n \<le> h"
    using assms(2) by (auto simp: loc_in_def split: option.splits)
  have cut: "take n (drop i xs) = take n (drop i (take h xs))" for xs :: "char option list"
    using l(2) by (simp add: drop_take min_absorb1)
  show ?thesis using assms(1) cut [of b] cut [of b'] by (simp add: loc_text_def l)
qed

lemma loc_in_mono: "loc_in h loc \<Longrightarrow> h \<le> h' \<Longrightarrow> loc_in h' loc"
  by (auto simp: loc_in_def split: option.splits)

text \<open>One component: the buffer grows, the normalised text is written behind its used part.\<close>

lemma write_component:
  fixes m :: "'v vec hashtab" and key :: string and ps :: u32
  assumes "keybuf m \<noteq> []" "keybuf_head m \<le> length (keybuf m)"
  defines "len \<equiv> grow_len (length (keybuf m)) (keybuf_head m + length key)"
    and "k \<equiv> norm_key ps key"
  shows "\<exists>b. mem_write (keybuf_head m) (map Some (map (conv_of ps) key)) (mem_realloc len (keybuf m)) = Some b \<and>
    length (keybuf m) \<le> length b \<and> keybuf_head m + length k \<le> length b \<and>
    take (keybuf_head m) b = take (keybuf_head m) (keybuf m) \<and>
    take (length k) (drop (keybuf_head m) b) = map Some k"
proof -
  let ?hd = "keybuf_head m" and ?ks = "map (conv_of ps) key"
  have len: "?hd + length ?ks \<le> len" "length (keybuf m) \<le> len"
    using grow_len_enough [of "length (keybuf m)" "?hd + length key"] assms(1) by (auto simp: len_def)
  define b where "b = take ?hd (mem_realloc len (keybuf m)) @ map Some ?ks @
    drop (?hd + length ?ks) (mem_realloc len (keybuf m))"
  have w: "mem_write ?hd (map Some ?ks) (mem_realloc len (keybuf m)) = Some b"
    using len by (simp add: b_def mem_write_in)
  have kl: "length k \<le> length ?ks" using norm_key_length by (simp add: k_def)
  have lb: "length b = len" using len by (simp add: b_def)
  have pre: "take ?hd b = take ?hd (keybuf m)" using len assms(2) by (simp add: b_def)
  have "drop ?hd b = map Some ?ks @ drop (?hd + length ?ks) (mem_realloc len (keybuf m))"
    using len assms(2) by (simp add: b_def)
  then have "take (length k) (drop ?hd b) = map Some (take (length k) ?ks)"
    using kl by (simp add: take_map)
  then have "take (length k) (drop ?hd b) = map Some k" by (simp add: k_def take_norm_key)
  then show ?thesis using w lb len kl pre by auto
qed

lemma vec_set_one_list:
  assumes "vec_ok v" "i < vsize v"
  shows "\<exists>v'. vec_set_one v i x = Some v' \<and> vec_ok v' \<and> vsize v' = vsize v \<and> vec_list v' = (vec_list v)[i := x]"
proof -
  have lt: "i < length (vdata v)" using assms by (simp add: vec_ok_def)
  then have "mem_write i [x] (vdata v) = Some ((vdata v)[i := x])"
    by (simp add: mem_write_in upd_conv_take_nth_drop)
  then show ?thesis
    using assms by (auto simp: vec_set_one_def vec_ok_def vec_list_def take_update_swap)
qed

lemma composite_loop_spec:
  assumes "keybuf m \<noteq> []" "keybuf_head m \<le> length (keybuf m)" "vec_ok t" "i + length key \<le> vsize t"
  shows "\<exists>b t' n. composite_loop m t i hash klen key =
      Some (m\<lparr>keybuf := b, keybuf_head := keybuf_head m + n\<rparr>, t',
        comp_hash (props m) i hash (map (norm_key (props m)) key), klen + n) \<and>
    length (keybuf m) \<le> length b \<and> keybuf_head m + n \<le> length b \<and>
    take (keybuf_head m) b = take (keybuf_head m) (keybuf m) \<and>
    vec_ok t' \<and> vsize t' = vsize t \<and> take i (vec_list t') = take i (vec_list t) \<and>
    (\<forall>l \<in> set (take (length key) (drop i (vec_list t'))). loc_in (keybuf_head m + n) l) \<and>
    map (loc_text b) (take (length key) (drop i (vec_list t'))) = map (map Some \<circ> norm_key (props m)) key"
  using assms
proof (induction key arbitrary: m t i hash klen)
  case Nil
  then show ?case by (auto intro!: exI [of _ "keybuf m"] exI [of _ t] exI [of _ 0])
next
  case (Cons key key')
  let ?ps = "props m" and ?hd = "keybuf_head m"
  let ?k = "norm_key ?ps key"
  obtain b where b: "mem_write ?hd (map Some (map (conv_of ?ps) key))
        (mem_realloc (grow_len (length (keybuf m)) (?hd + length key)) (keybuf m)) = Some b"
      "length (keybuf m) \<le> length b" "?hd + length ?k \<le> length b"
      "take ?hd b = take ?hd (keybuf m)" "take (length ?k) (drop ?hd b) = map Some ?k"
    using write_component [OF Cons.prems(1,2), where key = key and ps = ?ps] by blast
  obtain t1 where t1: "vec_set_one t i (Some (?hd, length ?k)) = Some t1" "vec_ok t1" "vsize t1 = vsize t"
      "vec_list t1 = (vec_list t)[i := Some (?hd, length ?k)]"
    using vec_set_one_list [OF Cons.prems(3), of i] Cons.prems(4) by auto
  let ?m1 = "m\<lparr>keybuf := b, keybuf_head := ?hd + length ?k\<rparr>"
  let ?h1 = "hash * (of_nat (i + 1) * key_hash ?ps ?k)"
  have "b \<noteq> []" using b(2) Cons.prems(1) by auto
  then obtain b2 t2 n where IH: "composite_loop ?m1 t1 (i + 1) ?h1 (klen + length ?k) key' =
        Some (?m1\<lparr>keybuf := b2, keybuf_head := ?hd + length ?k + n\<rparr>, t2,
          comp_hash ?ps (i + 1) ?h1 (map (norm_key ?ps) key'), klen + length ?k + n)"
      "length b \<le> length b2" "?hd + length ?k + n \<le> length b2"
      "take (?hd + length ?k) b2 = take (?hd + length ?k) b"
      "vec_ok t2" "vsize t2 = vsize t1" "take (i + 1) (vec_list t2) = take (i + 1) (vec_list t1)"
      "\<forall>l \<in> set (take (length key') (drop (i + 1) (vec_list t2))). loc_in (?hd + length ?k + n) l"
      "map (loc_text b2) (take (length key') (drop (i + 1) (vec_list t2))) = map (map Some \<circ> norm_key ?ps) key'"
    using Cons.IH [of ?m1 t1 "i + 1" ?h1 "klen + length ?k"] b t1 Cons.prems(4) by auto
  have len: "length (vec_list t) = vsize t" "length (vec_list t2) = vsize t" "i < vsize t"
    using vec_list_length [OF Cons.prems(3)] vec_list_length [OF IH(5)] IH(6) t1(3) Cons.prems(4) by auto
  have at_i: "vec_list t2 ! i = Some (?hd, length ?k)"
  proof -
    have "take (i + 1) (vec_list t2) ! i = take (i + 1) (vec_list t1) ! i" using IH(7) by simp
    then show ?thesis using t1(4) len by simp
  qed
  have keep: "take i (vec_list t2) = take i (vec_list t)"
  proof -
    have "take i (take (i + 1) (vec_list t2)) = take i (take (i + 1) (vec_list t1))" using IH(7) by simp
    then show ?thesis using t1(4) by (simp add: min_absorb1)
  qed
  have dr: "drop i (vec_list t2) = Some (?hd, length ?k) # drop (i + 1) (vec_list t2)"
    using len at_i by (metis Cons_nth_drop_Suc Suc_eq_plus1)
  have pre2: "take ?hd b2 = take ?hd (keybuf m)"
  proof -
    have "take ?hd (take (?hd + length ?k) b2) = take ?hd (take (?hd + length ?k) b)" using IH(4) by simp
    then show ?thesis using b(4) by (simp add: min_absorb1)
  qed
  have "loc_text b2 (Some (?hd, length ?k)) = loc_text b (Some (?hd, length ?k))"
    using IH(4) by (rule loc_text_prefix) (simp add: loc_in_def)
  then have here: "loc_text b2 (Some (?hd, length ?k)) = map Some ?k" using b(5) by (simp add: loc_text_def)
  have "composite_loop m t i hash klen (key # key') =
      Some (m\<lparr>keybuf := b2, keybuf_head := ?hd + (length ?k + n)\<rparr>, t2,
        comp_hash ?ps i hash (map (norm_key ?ps) (key # key')), klen + (length ?k + n))"
    using b(1) t1(1) IH(1) by (simp add: get_hash_spec Let_def add.assoc)
  then show ?case
    using IH b keep dr pre2 here t1(3)
    by (intro exI [of _ b2] exI [of _ t2] exI [of _ "length ?k + n"]) (auto simp: loc_in_def add.assoc)
qed


section \<open>The invariant\<close>

definition clocs :: "'v compositemap \<Rightarrow> hm_entry \<Rightarrow> (nat \<times> nat) option list" where
  "clocs c e = take (key_len e) (drop (key_idx e) (vec_list (ckeys c)))"

definition ckey :: "'v compositemap \<Rightarrow> hm_entry \<Rightarrow> char option list list" where
  "ckey c e = map (loc_text (keybuf (base c))) (clocs c e)"

definition centry_ok :: "'v compositemap \<Rightarrow> hm_entry \<Rightarrow> bool" where
  "centry_ok c e \<longleftrightarrow> key_idx e + key_len e \<le> vsize (ckeys c) \<and>
     (\<forall>l \<in> set (clocs c e). loc_in (keybuf_head (base c)) l) \<and>
     (\<exists>ks. ckey c e = map (map Some) ks \<and> ehash e = comp_hash (props (base c)) 0 1 ks)"

definition cm_core :: "'v compositemap \<Rightarrow> bool" where
  "cm_core c \<longleftrightarrow> (let m = base c in
     (\<exists>k. limit m = 2 ^ k) \<and> length (entries m) = limit m \<and> keybuf m \<noteq> [] \<and>
     keybuf_head m \<le> length (keybuf m) \<and> vec_ok (ckeys c) \<and>
     (\<forall>t. key_temp c = Some t \<longrightarrow> vec_ok t) \<and>
     chained (slot_of (limit m)) (entries m) \<and> (\<forall>e \<in> set (occ m). centry_ok c e) \<and>
     distinct (map (ckey c) (occ m)))"

definition cm_ok :: "'v compositemap \<Rightarrow> bool" where
  "cm_ok c \<longleftrightarrow> cm_core c \<and> \<not> over_full (length (occ (base c))) (limit (base c)) \<and> vals_ok (base c)"

definition cm_find :: "'v compositemap \<Rightarrow> string list \<Rightarrow> hm_entry option" where
  "cm_find c k = map_of (map (\<lambda>e. (ckey c e, e)) (occ (base c))) (map (map Some) k)"

definition cm_map :: "'v compositemap \<Rightarrow> string list \<Rightarrow> 'v option" where
  "cm_map c k = (case cm_find c k of None \<Rightarrow> None | Some e \<Rightarrow> vec_list (vals (base c)) ! val_idx e)"

lemma map_some_inj: "map (map Some) xs = map (map Some) ys \<Longrightarrow> xs = ys"
  by (rule map_injective [of "map Some"]) (auto simp: inj_def dest: map_injective)

lemma cm_find_eq:
  "distinct (map (ckey c) (occ (base c))) \<Longrightarrow>
   cm_find c k = Some e \<longleftrightarrow> e \<in> set (occ (base c)) \<and> ckey c e = map (map Some) k"
  by (auto simp: cm_find_def map_of_eq_Some_iff comp_def image_iff)

lemma cm_find_None: "cm_find c k = None \<longleftrightarrow> (\<forall>e \<in> set (occ (base c)). ckey c e \<noteq> map (map Some) k)"
  by (force simp: cm_find_def map_of_eq_None_iff)

lemma cm_find_some: "cm_find c k = Some e \<Longrightarrow> e \<in> set (occ (base c)) \<and> ckey c e = map (map Some) k"
  unfolding cm_find_def by (drule map_of_SomeD) auto

section \<open>Search\<close>

lemma loc_text_length: "loc_in h l \<Longrightarrow> h \<le> length b \<Longrightarrow> length (loc_text b l) = loc_len l"
  by (auto simp: loc_in_def loc_text_def loc_len_def split: option.splits)

lemma composite_eq_iff:
  assumes "vec_ok ks" "vec_ok t" "key_idx e + key_len e \<le> vsize ks" "key_len e = vsize t"
    and "\<forall>l \<in> set (take (key_len e) (drop (key_idx e) (vec_list ks))). loc_in h l" "\<forall>l \<in> set (vec_list t). loc_in h l"
    and "h \<le> length b"
  shows "composite_eq b ks t e \<longleftrightarrow>
    map (loc_text b) (take (key_len e) (drop (key_idx e) (vec_list ks))) = map (loc_text b) (vec_list t)"
proof -
  let ?xs = "take (key_len e) (drop (key_idx e) (vec_list ks))"
  have len: "length ?xs = key_len e" "length (vec_list t) = key_len e"
    using assms(3,4) vec_list_length [OF assms(1)] vec_list_length [OF assms(2)] by auto
  have nth: "?xs ! i = vdata ks ! (key_idx e + i)" "vec_list t ! i = vdata t ! i" if "i < key_len e" for i
  proof -
    have "vsize ks < length (vdata ks)" using assms(1) by (simp add: vec_ok_def)
    then show "?xs ! i = vdata ks ! (key_idx e + i)"
      using that assms(3) len(1) by (simp add: vec_list_def nth_drop)
    show "vec_list t ! i = vdata t ! i" using that assms(4) by (simp add: vec_list_def)
  qed
  have "map (loc_text b) ?xs = map (loc_text b) (vec_list t) \<longleftrightarrow>
      (\<forall>i < key_len e. loc_text b (?xs ! i) = loc_text b (vec_list t ! i))"
    using len by (simp add: list_eq_iff_nth_eq)
  also have "\<dots> \<longleftrightarrow> (\<forall>i < key_len e. loc_len (?xs ! i) = loc_len (vec_list t ! i) \<and>
      loc_text b (?xs ! i) = loc_text b (vec_list t ! i))"
  proof -
    have "loc_len (?xs ! i) = loc_len (vec_list t ! i)"
      if i: "i < key_len e" and eq: "loc_text b (?xs ! i) = loc_text b (vec_list t ! i)" for i
    proof -
      have "loc_in h (?xs ! i)" using assms(5) i len by (metis nth_mem)
      moreover have "loc_in h (vec_list t ! i)" using assms(6) i len by (metis nth_mem)
      ultimately show ?thesis
        using eq loc_text_length [OF _ assms(7)] by metis
    qed
    then show ?thesis by blast
  qed
  finally show ?thesis using nth by (auto simp: composite_eq_def)
qed

definition cfound :: "'v compositemap \<Rightarrow> string list \<Rightarrow> nat \<Rightarrow> nat \<Rightarrow> u64 \<Rightarrow> char option list \<Rightarrow> (nat \<times> nat) vec \<Rightarrow> bool"
where
  "cfound c k i n h b t \<longleftrightarrow>
     (let m = base c; hd = keybuf_head m in
      i < limit m \<and> h = comp_hash (props m) 0 1 k \<and> length (keybuf m) \<le> length b \<and> hd + n \<le> length b \<and>
      take hd b = take hd (keybuf m) \<and> vec_ok t \<and> vsize t = length k \<and>
      (\<forall>l \<in> set (vec_list t). loc_in (hd + n) l) \<and> map (loc_text b) (vec_list t) = map (map Some) k \<and>
      entries m ! i = cm_find c k \<and>
      (let s = home_slot (limit m) h
       in \<forall>j < gap (limit m) s i. entries m ! ((s + j) mod limit m) \<noteq> None))"

lemma composite_get_entry_spec:
  assumes "cm_ok c"
  shows "\<exists>i n h b t. composite_get_entry (ready_temp c (length key)) key =
      Some (i, n, h, c\<lparr>base := (base c)\<lparr>keybuf := b\<rparr>, key_temp := Some t\<rparr>) \<and>
    cfound c (map (norm_key (props (base c))) key) i n h b t"
proof -
  let ?m = "base c" and ?hd = "keybuf_head (base c)"
  let ?k = "map (norm_key (props ?m)) key"
  note core = assms [unfolded cm_ok_def, THEN conjunct1, unfolded cm_core_def Let_def]
  obtain t0 where t0: "key_temp (ready_temp c (length key)) = Some t0" "vec_ok t0" "vsize t0 = length key"
  proof -
    have "vec_ok (case key_temp c of None \<Rightarrow> vec_construct | Some t \<Rightarrow> t)"
      using core by (auto split: option.splits)
    note sh = vec_resize_shape [OF this, of "length key"]
    show ?thesis by (rule that [of "vec_resize (case key_temp c of None \<Rightarrow> vec_construct | Some t \<Rightarrow> t) (length key)"])
      (use sh in \<open>simp_all add: ready_temp_def Let_def\<close>)
  qed
  have rb: "base (ready_temp c (length key)) = ?m" "ckeys (ready_temp c (length key)) = ckeys c"
      "\<And>m t. ready_temp c (length key)\<lparr>base := m, key_temp := Some t\<rparr> = c\<lparr>base := m, key_temp := Some t\<rparr>"
    by (simp_all add: ready_temp_def Let_def)
  obtain b t n where lp: "composite_loop ?m t0 0 1 0 key =
        Some (?m\<lparr>keybuf := b, keybuf_head := ?hd + n\<rparr>, t, comp_hash (props ?m) 0 1 ?k, n)"
      "length (keybuf ?m) \<le> length b" "?hd + n \<le> length b" "take ?hd b = take ?hd (keybuf ?m)"
      "vec_ok t" "vsize t = length key"
      "\<forall>l \<in> set (take (length key) (vec_list t)). loc_in (?hd + n) l"
      "map (loc_text b) (take (length key) (vec_list t)) = map (map Some) ?k"
    using composite_loop_spec [of ?m t0 0 key 1 0] core t0 by auto
  have lt: "length (vec_list t) = length key" using vec_list_length [OF lp(5)] lp(6) by simp
  then have tl: "take (length key) (vec_list t) = vec_list t" by simp
  define h where "h = comp_hash (props ?m) 0 1 ?k"
  define s where "s = home_slot (limit ?m) h"
  have lim: "0 < limit ?m" "length (entries ?m) = limit ?m" "chained (slot_of (limit ?m)) (entries ?m)"
    using core by auto
  have s: "s < limit ?m" by (simp add: s_def home_slot_less [OF lim(1)])
  define P where "P = (\<lambda>e. key_len e = length key \<and> ehash e = h \<and> composite_eq b (ckeys c) t e)"
  have P: "P e \<longleftrightarrow> ckey c e = map (map Some) ?k" if eo: "e \<in> set (occ ?m)" for e
  proof -
    have ok: "key_idx e + key_len e \<le> vsize (ckeys c)" "\<forall>l \<in> set (clocs c e). loc_in ?hd l"
      using core eo by (auto simp: centry_ok_def)
    obtain ks where ks: "ckey c e = map (map Some) ks" "ehash e = comp_hash (props ?m) 0 1 ks"
      using core eo by (auto simp: centry_ok_def)
    have vk: "vec_ok (ckeys c)" using core by blast
    have cl: "length (clocs c e) = key_len e"
      using ok(1) vec_list_length [OF vk] by (simp add: clocs_def)
    have same: "map (loc_text b) (clocs c e) = ckey c e"
      using ok(2) loc_text_prefix [OF lp(4)] by (simp add: ckey_def)
    have far: "\<forall>l \<in> set (clocs c e). loc_in (?hd + n) l" using ok(2) loc_in_mono by fastforce
    have ceq: "composite_eq b (ckeys c) t e \<longleftrightarrow> ckey c e = map (map Some) ?k" if "key_len e = length key"
      using composite_eq_iff [OF vk lp(5) ok(1), of "?hd + n" b] that lp(3,6,7,8) far same tl
      by (simp add: clocs_def)
    show ?thesis
    proof
      assume "P e" then show "ckey c e = map (map Some) ?k" using ceq by (simp add: P_def)
    next
      assume eq: "ckey c e = map (map Some) ?k"
      have "length (ckey c e) = key_len e" using cl by (simp add: ckey_def)
      then have "key_len e = length key" by (simp add: eq)
      moreover have "ks = ?k" using ks(1) eq map_some_inj by metis
      ultimately show "P e" using ceq eq ks(2) by (simp add: P_def h_def)
    qed
  qed
  have room: "length (occ ?m) < limit ?m"
    using assms lim(1) by (auto simp: cm_ok_def over_full_def)
  obtain i where i: "probe (entries ?m) P (limit ?m) s = Some i"
    using room empty_slot [of "entries ?m"] probe_total [of _ "entries ?m" s P] lim s by auto
  have slot: "slot_of (limit ?m) e = s" if "P e" for e
    using that by (simp add: slot_of_def s_def P_def)
  note pc = probe_chained [OF lim(3) i [folded lim(2)] s [folded lim(2)] slot, unfolded lim(2)]
  have hit: "entries ?m ! i = cm_find c ?k"
  proof (cases "entries ?m ! i")
    case None
    have "\<not> P e" if "e \<in> set (occ ?m)" for e
      using that pc(2) None lim(2) by (auto simp: set_occupied)
    then have "cm_find c ?k = None" using P by (auto simp: cm_find_None)
    then show ?thesis using None by simp
  next
    case (Some e)
    then have "P e" "e \<in> set (occ ?m)" using pc(1,3) lim(2) by (auto simp: set_occupied)
    then have "cm_find c ?k = Some e" using P core by (subst cm_find_eq) auto
    then show ?thesis using Some by simp
  qed
  have "composite_get_entry (ready_temp c (length key)) key =
      Some (i, n, h, c\<lparr>base := ?m\<lparr>keybuf := b\<rparr>, key_temp := Some t\<rparr>)"
    using t0(1) lp(1) i rb by (simp add: composite_get_entry_def P_def h_def s_def)
  moreover have "cfound c ?k i n h b t"
    using lp tl lt pc(1,4) hit by (simp add: cfound_def Let_def h_def s_def)
  ultimately show ?thesis by blast
qed


section \<open>Insertion\<close>

text \<open>Composite maps that differ only behind the used part of the key buffer hold the same keys.\<close>

lemma ckey_same:
  assumes "centry_ok c e" "vec_ok (ckeys c)" "vec_ok (ckeys c')"
    and "take (keybuf_head (base c)) (keybuf (base c')) = take (keybuf_head (base c)) (keybuf (base c))"
    and "vec_list (ckeys c') = vec_list (ckeys c) @ xs"
  shows "clocs c' e = clocs c e" "ckey c' e = ckey c e"
proof -
  have "key_idx e + key_len e \<le> length (vec_list (ckeys c))"
    using assms(1) vec_list_length [OF assms(2)] by (simp add: centry_ok_def)
  then show cl: "clocs c' e = clocs c e" by (simp add: clocs_def assms(5))
  have "loc_text (keybuf (base c')) l = loc_text (keybuf (base c)) l" if "l \<in> set (clocs c e)" for l
    using that assms(1) by (intro loc_text_prefix [OF assms(4)]) (auto simp: centry_ok_def)
  then show "ckey c' e = ckey c e" by (simp add: ckey_def cl)
qed

lemma centry_ok_same:
  assumes "centry_ok c e" "vec_ok (ckeys c)" "vec_ok (ckeys c')"
    and "take (keybuf_head (base c)) (keybuf (base c')) = take (keybuf_head (base c)) (keybuf (base c))"
    and "vec_list (ckeys c') = vec_list (ckeys c) @ xs"
    and "props (base c') = props (base c)" "keybuf_head (base c) \<le> keybuf_head (base c')"
  shows "centry_ok c' e"
proof -
  note same = ckey_same [OF assms(1-5)]
  have "vsize (ckeys c) \<le> vsize (ckeys c')"
    using assms(5) vec_list_length [OF assms(2)] vec_list_length [OF assms(3)] by simp
  then show ?thesis
    using assms(1,6) loc_in_mono [OF _ assms(7)] by (auto simp: centry_ok_def same)
qed

lemma centry_new:
  assumes fd: "cfound c k i n h b t" and vo: "vec_ok (ckeys c)" "vec_ok (ckeys c')"
    and b: "keybuf (base c') = b" "keybuf_head (base c') = keybuf_head (base c) + n"
    and ck: "vec_list (ckeys c') = vec_list (ckeys c) @ vec_list t" and p: "props (base c') = props (base c)"
    and e: "ehash e = h" "key_idx e = vsize (ckeys c)" "key_len e = length k"
  shows "centry_ok c' e" "ckey c' e = map (map Some) k"
proof -
  have lt: "length (vec_list t) = length k" "length (vec_list (ckeys c)) = vsize (ckeys c)"
    using fd vec_list_length [of t] vec_list_length [OF vo(1)] by (auto simp: cfound_def Let_def)
  then have cl: "clocs c' e = vec_list t" by (simp add: clocs_def ck e)
  then show ce: "ckey c' e = map (map Some) k"
    using fd by (simp add: ckey_def b cfound_def Let_def)
  have "vsize (ckeys c') = vsize (ckeys c) + length k"
    using vec_list_length [OF vo(2)] lt by (simp add: ck)
  then show "centry_ok c' e"
    using fd cl ce by (auto simp: centry_ok_def e b p cfound_def Let_def)
qed

lemma cm_core_put:
  assumes core: "cm_core c" and fd: "cfound c k i n h b t" and none: "entries (base c) ! i = None"
    and e: "ehash e = h" "key_idx e = vsize (ckeys c)" "key_len e = length k"
    and b: "keybuf (base c') = b" "keybuf_head (base c') = keybuf_head (base c) + n"
      "entries (base c') = (entries (base c))[i := Some e]" "limit (base c') = limit (base c)"
      "props (base c') = props (base c)"
    and ck: "vec_ok (ckeys c')" "vec_list (ckeys c') = vec_list (ckeys c) @ vec_list t" "key_temp c' = Some t"
  shows "cm_core c'" "cm_find c' = (cm_find c)(k \<mapsto> e)" "e \<notin> set (occ (base c))"
    "set (occ (base c')) = insert e (set (occ (base c)))" "length (occ (base c')) = Suc (length (occ (base c)))"
proof -
  note cd = core [unfolded cm_core_def Let_def]
  have vo: "vec_ok (ckeys c)" using cd by blast
  have i: "i < length (entries (base c))" "cm_find c k = None"
    using fd none cd by (auto simp: cfound_def Let_def)
  have pre: "take (keybuf_head (base c)) (keybuf (base c')) = take (keybuf_head (base c)) (keybuf (base c))"
    using fd by (simp add: b cfound_def Let_def)
  note new = centry_new [OF fd vo ck(1) b(1,2) ck(2) b(5) e]
  have old: "centry_ok c' e'" "ckey c' e' = ckey c e'" if "e' \<in> set (occ (base c))" for e'
  proof -
    have ok: "centry_ok c e'" using cd that by blast
    show "centry_ok c' e'" using centry_ok_same [OF ok vo ck(1) pre ck(2) b(5)] b(2) by simp
    show "ckey c' e' = ckey c e'" using ckey_same [OF ok vo ck(1) pre ck(2)] by simp
  qed
  have nokey: "\<forall>e' \<in> set (occ (base c)). ckey c e' \<noteq> map (map Some) k"
    using i(2) by (simp add: cm_find_None)
  note ins = occupied_insert [OF i(1) none, of e]
  show oc: "set (occ (base c')) = insert e (set (occ (base c)))" "length (occ (base c')) = Suc (length (occ (base c)))"
    using ins by (simp_all add: b)
  show nin: "e \<notin> set (occ (base c))" using nokey old(2) new(2) by metis
  have dist: "distinct (map (ckey c') (occ (base c')))"
  proof -
    have "distinct (map (ckey c) (occ (base c)))" using cd by blast
    then have "distinct (ckey c' e # map (ckey c') (occ (base c)))"
      using old(2) nokey new(2) by (auto simp: distinct_map inj_on_def)
    then have "distinct (map (ckey c') (e # occ (base c)))" by simp
    then show ?thesis by (rule distinct_same_set) (use oc in auto)
  qed
  have home: "home_slot (limit (base c)) h < limit (base c)" using cd by (auto intro: home_slot_less)
  have ch: "chained (slot_of (limit (base c))) (entries (base c'))"
    unfolding b(3)
    by (rule chained_insert) (use cd fd i none home in \<open>auto simp: slot_of_def e cfound_def Let_def\<close>)
  have kb: "keybuf_head (base c) + n \<le> length b" "length (keybuf (base c)) \<le> length b" "vec_ok t"
    using fd by (auto simp: cfound_def Let_def)
  have "b \<noteq> []" using kb(2) cd by auto
  then show "cm_core c'"
    using cd dist ch kb new(1) old(1) unfolding cm_core_def Let_def oc(1) b(1,2,4) ck(3) by (auto simp: b(3) ck(1))
  show "cm_find c' = (cm_find c)(k \<mapsto> e)"
  proof
    fix k'
    have d1: "distinct (map (ckey c) (occ (base c)))" using cd by blast
    have "cm_find c' k' = Some e' \<longleftrightarrow> ((cm_find c)(k \<mapsto> e)) k' = Some e'" for e'
      using cm_find_eq [OF dist, of k' e'] cm_find_eq [OF d1, of k' e'] oc(1) old(2) nokey new(2)
        map_some_inj [of k k'] by auto
    then show "cm_find c' k' = ((cm_find c)(k \<mapsto> e)) k'" by (metis option.exhaust)
  qed
qed

lemma cm_core_found:
  assumes core: "cm_core c" and fd: "cfound c k i n h b t"
    and b: "base c' = (base c)\<lparr>keybuf := b\<rparr>" "ckeys c' = ckeys c" "key_temp c' = Some t"
  shows "cm_core c'" "cm_find c' = cm_find c"
proof -
  note cd = core [unfolded cm_core_def Let_def]
  have vo: "vec_ok (ckeys c)" "vec_ok (ckeys c')" using cd b by auto
  have pre: "take (keybuf_head (base c)) (keybuf (base c')) = take (keybuf_head (base c)) (keybuf (base c))"
    using fd by (simp add: b cfound_def Let_def)
  have ck: "vec_list (ckeys c') = vec_list (ckeys c) @ []" by (simp add: b)
  have old: "centry_ok c' e'" "ckey c' e' = ckey c e'" if "e' \<in> set (occ (base c))" for e'
  proof -
    have ok: "centry_ok c e'" using cd that by blast
    show "centry_ok c' e'" using centry_ok_same [OF ok vo pre ck] by (simp add: b)
    show "ckey c' e' = ckey c e'" using ckey_same [OF ok vo pre ck] by simp
  qed
  have eq: "map (ckey c') (occ (base c)) = map (ckey c) (occ (base c))" using old(2) by simp
  have kb: "length (keybuf (base c)) \<le> length b" "vec_ok t"
    using fd by (auto simp: cfound_def Let_def)
  have "b \<noteq> []" using kb(1) cd by auto
  moreover have "distinct (map (ckey c') (occ (base c)))" unfolding eq using cd by blast
  ultimately show "cm_core c'" using cd kb old(1) vo by (simp add: cm_core_def Let_def b)
  show "cm_find c' = cm_find c" using old(2) by (simp add: fun_eq_iff cm_find_def b cong: map_cong)
qed

lemma cm_core_grow:
  assumes core: "cm_core c" and room: "length (occ (base c)) \<le> limit (base c)"
    "10 * length (occ (base c)) \<le> 18 * limit (base c)"
  shows "yields (increase_size (base c)) (\<lambda>m'. cm_core (c\<lparr>base := m'\<rparr>) \<and> cm_find (c\<lparr>base := m'\<rparr>) = cm_find c \<and>
    \<not> over_full (length (occ m')) (limit m') \<and> set (occ m') = set (occ (base c)) \<and>
    length (occ m') = length (occ (base c)) \<and> vals m' = vals (base c) \<and> props m' = props (base c))"
proof -
  note cd = core [unfolded cm_core_def Let_def]
  obtain k where k: "limit (base c) = 2 ^ k" using cd by blast
  have len: "length (entries (base c)) = limit (base c)" using cd by blast
  from increase_size_raw [OF k len room(1)] obtain fs
    where eq: "increase_size (base c) = Some ((base c)\<lparr>limit := 2 ^ Suc k, entries := fs\<rparr>)"
      and fs: "length fs = 2 ^ Suc k" "chained (slot_of (2 ^ Suc k)) fs" "set (occupied fs) = set (occ (base c))"
        "length (occupied fs) = length (occ (base c))" by blast
  define m' where "m' = (base c)\<lparr>limit := 2 ^ Suc k, entries := fs\<rparr>"
  have ek: "ckey (c\<lparr>base := m'\<rparr>) = ckey c" "centry_ok (c\<lparr>base := m'\<rparr>) = centry_ok c"
    by (simp_all add: fun_eq_iff m'_def ckey_def clocs_def centry_ok_def)
  have om: "occ m' = occupied fs" by (simp add: m'_def)
  have dist: "distinct (map (ckey c) (occ (base c)))" using cd by blast
  have dist': "distinct (map (ckey c) (occ m'))"
    using distinct_same_set [OF dist] fs by (simp add: om)
  have "cm_core (c\<lparr>base := m'\<rparr>)"
    using cd fs dist' om unfolding cm_core_def Let_def
    by (auto simp: ek [unfolded m'_def power_Suc] m'_def intro: exI [of _ "Suc k"])
  moreover have "cm_find (c\<lparr>base := m'\<rparr>) k' = cm_find c k'" for k'
  proof -
    have "cm_find (c\<lparr>base := m'\<rparr>) k' = Some e \<longleftrightarrow> cm_find c k' = Some e" for e
      using cm_find_eq [of "c\<lparr>base := m'\<rparr>" k' e] cm_find_eq [OF dist, of k' e] dist' ek fs om by simp
    then show ?thesis by (metis option.exhaust)
  qed
  moreover have "\<not> over_full (length (occ m')) (limit m')"
    using room(2) fs k by (simp add: over_full_def m'_def)
  ultimately show ?thesis
    unfolding eq m'_def [symmetric] yields_Some using om fs by (simp add: fun_eq_iff) (simp add: m'_def)
qed


section \<open>Composite maps as finite maps\<close>

text \<open>A new entry whose value has just been pushed, and an entry whose value was replaced.\<close>

lemma cm_map_push:
  assumes ok: "cm_ok c" and core: "cm_core c'" and find: "cm_find c' = (cm_find c)(k \<mapsto> e)"
    and oc: "e \<notin> set (occ (base c))" "set (occ (base c')) = insert e (set (occ (base c)))"
      "length (occ (base c')) = Suc (length (occ (base c)))"
    and e: "val_idx e = vsize (vals (base c))" and load: "\<not> over_full (length (occ (base c'))) (limit (base c'))"
    and v: "vec_ok (vals (base c'))" "vec_list (vals (base c')) = vec_list (vals (base c)) @ [Some x]"
  shows "cm_ok c' \<and> cm_map c' = (cm_map c)(k \<mapsto> x)"
proof -
  have vo: "vals_ok (base c)" using ok by (simp add: cm_ok_def)
  have vs: "vsize (vals (base c')) = Suc (vsize (vals (base c)))"
      "length (vec_list (vals (base c))) = vsize (vals (base c))"
    using v vec_list_length [OF v(1)] vec_list_length [of "vals (base c)"] vo by (auto simp: vals_ok_def)
  have "vals_ok (base c')"
    using vo v vs oc e by (auto simp: vals_ok_def inj_on_def less_Suc_eq)
  moreover have "cm_map c' k' = ((cm_map c)(k \<mapsto> x)) k'" for k'
  proof (cases "k' = k")
    case True
    then show ?thesis using find v vs e by (simp add: cm_map_def nth_append)
  next
    case False
    have "val_idx e' < vsize (vals (base c))" if "cm_find c k' = Some e'" for e'
      using cm_find_some [OF that] vo unfolding vals_ok_def by blast
    then show ?thesis using False find v vs
      by (auto simp: cm_map_def nth_append split: option.splits)
  qed
  ultimately show ?thesis using core load by (simp add: cm_ok_def fun_eq_iff)
qed

lemma cm_map_update:
  assumes ok: "cm_ok c" and hit: "cm_find c k = Some e" and core: "cm_core c'" "cm_find c' = cm_find c"
    and b: "entries (base c') = entries (base c)" "limit (base c') = limit (base c)"
    and v: "vec_ok (vals (base c'))"
      "vec_list (vals (base c')) = (vec_list (vals (base c)))[val_idx e := Some x]"
  shows "cm_ok c' \<and> cm_map c' = (cm_map c)(k \<mapsto> x)"
proof -
  have vo: "vals_ok (base c)" using ok by (simp add: cm_ok_def)
  have eo: "e \<in> set (occ (base c))" using cm_find_some [OF hit] by simp
  have len: "length (vec_list (vals (base c))) = vsize (vals (base c))"
    using vo by (intro vec_list_length) (simp add: vals_ok_def)
  then have lt: "val_idx e < length (vec_list (vals (base c)))" using eo vo unfolding vals_ok_def by auto
  have size: "vsize (vals (base c')) = vsize (vals (base c))" using vec_list_length [OF v(1)] v(2) len by simp
  have "vals_ok (base c')"
    using vo v size by (auto simp: vals_ok_def b dest!: subsetD [OF set_update_subset_insert])
  moreover have "cm_map c' k' = ((cm_map c)(k \<mapsto> x)) k'" for k'
  proof (cases "k' = k")
    case True
    then show ?thesis using hit core(2) v lt by (simp add: cm_map_def)
  next
    case False
    have "val_idx e' \<noteq> val_idx e" if e': "cm_find c k' = Some e'" for e'
    proof
      assume "val_idx e' = val_idx e"
      then have "e' = e" using cm_find_some [OF e'] eo vo by (auto simp: vals_ok_def inj_on_def)
      then have "map (map Some) k' = map (map Some) k" using cm_find_some [OF e'] cm_find_some [OF hit] by simp
      then show False using False map_some_inj by metis
    qed
    then show ?thesis using False core(2) v(2) by (auto simp: cm_map_def split: option.splits)
  qed
  ultimately show ?thesis using ok core(1) by (simp add: cm_ok_def fun_eq_iff b)
qed

lemma compositemap_set_spec:
  assumes ok: "cm_ok c"
  shows "yields (compositemap_set c key x) (\<lambda>c'. cm_ok c' \<and>
    cm_map c' = (cm_map c)(map (norm_key (props (base c))) key \<mapsto> x) \<and> props (base c') = props (base c))"
proof -
  let ?k = "map (norm_key (props (base c))) key"
  obtain i n h b t where g: "composite_get_entry (ready_temp c (length key)) key =
        Some (i, n, h, c\<lparr>base := (base c)\<lparr>keybuf := b\<rparr>, key_temp := Some t\<rparr>)"
      and fd: "cfound c ?k i n h b t"
    using composite_get_entry_spec [OF ok, of key] by blast
  have core: "cm_core c" and vo: "vals_ok (base c)" using ok by (auto simp: cm_ok_def)
  have hit: "entries (base c) ! i = cm_find c ?k" using fd by (simp add: cfound_def Let_def)
  have vk: "vec_ok (vals (base c))" "vec_ok (ckeys c)" "vec_ok t"
    using vo core fd by (auto simp: vals_ok_def cm_core_def cfound_def Let_def)
  let ?m1 = "(base c)\<lparr>keybuf := b\<rparr>"
  let ?c1 = "c\<lparr>base := ?m1, key_temp := Some t\<rparr>"
  show ?thesis
  proof (cases "cm_find c ?k")
    case None
    define e where "e = \<lparr>ehash = h, val_idx = vsize (vals (base c)), key_idx = vsize (ckeys c), key_len = length key\<rparr>"
    have e_idx: "val_idx e = vsize (vals (base c))" by (simp add: e_def)
    obtain ks where ks: "vec_extend (ckeys c) t = Some ks" "vec_ok ks" "vec_list ks = vec_list (ckeys c) @ vec_list t"
      using vec_extend_list [OF vk(2,3)] by (auto simp: yields_exists)
    obtain v where v: "vec_push_back (vals (base c)) (Some x) = Some v" "vec_ok v"
        "vec_list v = vec_list (vals (base c)) @ [Some x]"
      using vec_push_back_list [OF vk(1), of "Some x"] by (auto simp: yields_exists)
    have vs: "vsize v = Suc (length (occ (base c)))"
      using vec_list_length [OF v(2)] vec_list_length [OF vk(1)] v(3) vo by (simp add: vals_ok_def)
    define m2 where "m2 = ?m1\<lparr>entries := (entries (base c))[i := Some e],
      keybuf_head := keybuf_head (base c) + n, vals := v\<rparr>"
    define c2 where "c2 = ?c1\<lparr>base := m2, ckeys := ks\<rparr>"
    have put: "cm_core c2" "cm_find c2 = (cm_find c)(?k \<mapsto> e)" "e \<notin> set (occ (base c))"
        "set (occ (base c2)) = insert e (set (occ (base c)))"
        "length (occ (base c2)) = Suc (length (occ (base c)))"
      using cm_core_put [OF core fd, of e c2] None hit ks by (simp_all add: c2_def m2_def e_def)
    have b2: "base c2 = m2" "\<And>m. c2\<lparr>base := m\<rparr> = ?c1\<lparr>base := m, ckeys := ks\<rparr>" by (simp_all add: c2_def)
    have v2: "vals m2 = v" "limit m2 = limit (base c)" "props m2 = props (base c)" by (simp_all add: m2_def)
    have load: "10 * length (occ (base c)) \<le> 9 * limit (base c)" "0 < limit (base c)"
      using ok by (auto simp: cm_ok_def over_full_def cm_core_def Let_def)
    obtain m3 where m3: "(if over_full (vsize (vals m2)) (limit m2) then increase_size m2 else Some m2) = Some m3"
        "cm_core (c2\<lparr>base := m3\<rparr>)" "cm_find (c2\<lparr>base := m3\<rparr>) = cm_find c2"
        "\<not> over_full (length (occ m3)) (limit m3)" "set (occ m3) = set (occ m2)" "length (occ m3) = length (occ m2)"
        "vals m3 = v" "props m3 = props (base c)"
    proof (cases "over_full (vsize v) (limit (base c))")
      case True
      have "length (occ (base c2)) \<le> limit (base c2)" "10 * length (occ (base c2)) \<le> 18 * limit (base c2)"
        using load_step [OF load] put(5) v2(2) b2(1) by simp_all
      from cm_core_grow [OF put(1) this] that show ?thesis
        using True by (auto simp: yields_exists b2(1) v2)
    next
      case False
      have same: "c2\<lparr>base := m2\<rparr> = c2" by (simp add: c2_def)
      show ?thesis using that [of m2] False put vs by (simp add: v2 b2(1) same)
    qed
    have set_eq: "compositemap_set c key x = Some (c2\<lparr>base := m3\<rparr>)"
      using g hit None ks(1) v(1) m3(1) [unfolded m2_def e_def] unfolding compositemap_set_def b2(2)
      by (auto simp: Let_def split: if_splits)
    have "cm_ok (c2\<lparr>base := m3\<rparr>) \<and> cm_map (c2\<lparr>base := m3\<rparr>) = (cm_map c)(?k \<mapsto> x)"
      by (rule cm_map_push [OF ok m3(2), where e = e]) (use m3 put v e_idx in \<open>simp_all add: b2(1)\<close>)
    then show ?thesis using set_eq m3(8) by simp
  next
    case (Some e)
    then have "val_idx e < vsize (vals (base c))"
      using cm_find_some [OF Some] vo unfolding vals_ok_def by blast
    moreover have len: "length (vec_list (vals (base c))) = vsize (vals (base c))" using vec_list_length [OF vk(1)] .
    ultimately obtain v where v: "vec_set_at (vals (base c)) (val_idx e) [Some x] = Some v" "vec_ok v"
        "vec_list v = (vec_list (vals (base c)))[val_idx e := Some x]"
      using vec_set_at_list [OF vk(1), of "val_idx e" "[Some x]"]
      by (auto simp: yields_exists upd_conv_take_nth_drop)
    have r: "compositemap_set c key x = Some (?c1\<lparr>base := ?m1\<lparr>vals := v\<rparr>\<rparr>)"
      using g hit Some v(1) by (simp add: compositemap_set_def Let_def)
    note c1 = cm_core_found [OF core fd, of ?c1]
    have vv: "cm_core (d\<lparr>base := (base d)\<lparr>vals := w\<rparr>\<rparr>) = cm_core d"
        "cm_find (d\<lparr>base := (base d)\<lparr>vals := w\<rparr>\<rparr>) = cm_find d" for d :: "'a compositemap" and w
    proof -
      have "ckey (d\<lparr>base := (base d)\<lparr>vals := w\<rparr>\<rparr>) = ckey d" "clocs (d\<lparr>base := (base d)\<lparr>vals := w\<rparr>\<rparr>) = clocs d"
        by (simp_all add: ckey_def [abs_def] clocs_def [abs_def])
      then show "cm_core (d\<lparr>base := (base d)\<lparr>vals := w\<rparr>\<rparr>) = cm_core d"
          "cm_find (d\<lparr>base := (base d)\<lparr>vals := w\<rparr>\<rparr>) = cm_find d"
        by (simp_all add: cm_core_def cm_find_def [abs_def] centry_ok_def Let_def)
    qed
    have "cm_ok (?c1\<lparr>base := ?m1\<lparr>vals := v\<rparr>\<rparr>) \<and> cm_map (?c1\<lparr>base := ?m1\<lparr>vals := v\<rparr>\<rparr>) = (cm_map c)(?k \<mapsto> x)"
      by (rule cm_map_update [OF ok Some]) (use c1 vv [of v ?c1] v in simp_all)
    then show ?thesis using r by simp
  qed
qed

lemma compositemap_get_spec:
  assumes ok: "cm_ok c"
  shows "yields (compositemap_get c key) (\<lambda>(r, c'). cm_ok c' \<and> cm_map c' = cm_map c \<and>
    props (base c') = props (base c) \<and>
    (case r of
       None \<Rightarrow> cm_map c (map (norm_key (props (base c))) key) = None
     | Some i \<Rightarrow> \<exists>x. vec_at (vals (base c')) i = Some (Some x) \<and>
         cm_map c (map (norm_key (props (base c))) key) = Some x))"
proof -
  let ?k = "map (norm_key (props (base c))) key"
  obtain i n h b t where g: "composite_get_entry (ready_temp c (length key)) key =
        Some (i, n, h, c\<lparr>base := (base c)\<lparr>keybuf := b\<rparr>, key_temp := Some t\<rparr>)"
      and fd: "cfound c ?k i n h b t"
    using composite_get_entry_spec [OF ok, of key] by blast
  let ?c1 = "c\<lparr>base := (base c)\<lparr>keybuf := b\<rparr>, key_temp := Some t\<rparr>"
  have core: "cm_core c" and vo: "vals_ok (base c)" using ok by (auto simp: cm_ok_def)
  have hit: "entries (base c) ! i = cm_find c ?k" using fd by (simp add: cfound_def Let_def)
  note c1 = cm_core_found [OF core fd, of ?c1]
  have ok1: "cm_ok ?c1" "cm_map ?c1 = cm_map c"
    using c1 ok by (auto simp: cm_ok_def vals_ok_def cm_map_def fun_eq_iff split: option.splits)
  have get: "compositemap_get c key = Some (map_option val_idx (cm_find c ?k), ?c1)"
    using g hit by (simp add: compositemap_get_def)
  show ?thesis
  proof (cases "cm_find c ?k")
    case None
    then show ?thesis using get ok1 by (simp add: cm_map_def)
  next
    case (Some e)
    have vk: "vec_ok (vals (base c))" using vo by (simp add: vals_ok_def)
    have lt: "val_idx e < vsize (vals (base c))" using cm_find_some [OF Some] vo unfolding vals_ok_def by blast
    then have "vec_list (vals (base c)) ! val_idx e \<in> set (vec_list (vals (base c)))"
      using vec_list_length [OF vk] by simp
    then obtain x where "vec_list (vals (base c)) ! val_idx e = Some x" using vo by (auto simp: vals_ok_def)
    then show ?thesis
      using Some get ok1 vec_at_list [OF vk lt] by (simp add: cm_map_def)
  qed
qed

lemma cm_fresh:
  assumes "base c = m\<lparr>vals := v, keybuf_head := 0, entries := replicate (limit m) None\<rparr>"
    "limit m = 2 ^ k" "keybuf m \<noteq> []" "vec_ok v" "vsize v = 0" "vec_ok (ckeys c)"
    "\<forall>t. key_temp c = Some t \<longrightarrow> vec_ok t"
  shows "cm_ok c" "cm_map c = Map.empty"
  using assms vec_list_length [of v]
  by (simp_all add: cm_ok_def cm_core_def over_full_def chained_def vals_ok_def Let_def
    cm_map_def cm_find_def fun_eq_iff)

lemma compositemap_construct_spec:
  "cm_ok (compositemap_construct lim ps :: 'v compositemap)"
  "cm_map (compositemap_construct lim ps :: 'v compositemap) = Map.empty"
  "props (base (compositemap_construct lim ps :: 'v compositemap)) = ps"
proof -
  obtain k where k: "next_power_of_2 lim = 2 ^ k" using next_power_of_2_power by blast
  let ?c = "compositemap_construct lim ps :: 'v compositemap"
  let ?v = "vec_reserve vec_construct (lim div 2) :: 'v vec"
  have v: "vec_ok ?v" "vsize ?v = 0"
    using vec_reserve_ok(1,2) [OF vec_ok_construct [where 'a = 'v], of "lim div 2"]
    by (simp_all add: vec_construct_size)
  have c: "vec_ok (ckeys ?c)"
    using vec_reserve_ok(1) [OF vec_ok_construct [where 'a = "nat \<times> nat"]]
    by (simp add: compositemap_construct_def Let_def)
  have b: "base ?c = (base ?c)\<lparr>vals := ?v, keybuf_head := 0, entries := replicate (limit (base ?c)) None\<rparr>"
      "limit (base ?c) = 2 ^ k" "keybuf (base ?c) \<noteq> []" "key_temp ?c = None"
    by (simp_all add: compositemap_construct_def hashmap_construct_def Let_def k)
  show "cm_ok ?c" "cm_map ?c = Map.empty" using cm_fresh [OF b(1,2,3) v c] b(4) by simp_all
  show "props (base ?c) = ps" by (simp add: compositemap_construct_def hashmap_construct_def Let_def)
qed

lemma compositemap_clear_spec:
  assumes "cm_ok c"
  shows "cm_ok (compositemap_clear c) \<and> cm_map (compositemap_clear c) = Map.empty \<and>
    props (base (compositemap_clear c)) = props (base c)"
proof -
  obtain k where k: "limit (base c) = 2 ^ k" "keybuf (base c) \<noteq> []" "vec_ok (ckeys c)"
      "\<forall>t. key_temp c = Some t \<longrightarrow> vec_ok t"
    using assms by (auto simp: cm_ok_def cm_core_def Let_def)
  have v: "vec_ok (vals (base c))" using assms by (simp add: cm_ok_def vals_ok_def)
  let ?c = "compositemap_clear c"
  have "base ?c = (base c)\<lparr>vals := vec_clear (vals (base c)), keybuf_head := 0,
      entries := replicate (limit (base c)) None\<rparr>"
    by (simp add: compositemap_clear_def)
  from cm_fresh [OF this k(1,2)] show ?thesis
    using vec_clear_list [OF v] vec_clear_list [OF k(3)] vec_list_length [of "vec_clear (vals (base c))"] k(4)
    by (simp add: compositemap_clear_def)
qed

interpretation cmap: keyed_store "\<lambda>c. cm_ok c \<and> props (base c) = ps" cm_map "map (norm_key ps)" "\<lambda>_ x. x"
  compositemap_set for ps
proof unfold_locales
  fix c :: "'v compositemap" and key x
  assume "cm_ok c \<and> props (base c) = ps"
  then show "yields (compositemap_set c key x) (\<lambda>c'. (cm_ok c' \<and> props (base c') = ps) \<and>
      cm_map c' = (cm_map c)(map (norm_key ps) key \<mapsto> x))"
    using compositemap_set_spec [of c key x] by (auto elim!: yields_mono)
qed

text \<open>What a lookup finds after any history of a composite map.\<close>

lemma compositemap_lookup:
  "yields (put_all compositemap_set (compositemap_construct lim ps) kvs \<bind> (\<lambda>c. compositemap_get c key))
    (\<lambda>(r, c'). let u = under (map (norm_key ps)) (map (norm_key ps) key) kvs in
      case r of
        None \<Rightarrow> u = []
      | Some i \<Rightarrow> u \<noteq> [] \<and> vec_at (vals (base c')) i = Some (Some (last u)))"
proof -
  let ?u = "under (map (norm_key ps)) (map (norm_key ps) key) kvs"
  note c = compositemap_construct_spec [of lim ps, where 'v = 'a]
  have ok: "cm_ok (compositemap_construct lim ps :: 'a compositemap) \<and>
      props (base (compositemap_construct lim ps :: 'a compositemap)) = ps"
    using c by simp
  show ?thesis
  proof (rule yields_bind_all [OF cmap.put_all_content [OF ok, of kvs]])
    fix m :: "'a compositemap"
    assume m: "(cm_ok m \<and> props (base m) = ps) \<and> (\<forall>k. cm_map m k =
      fold (\<lambda>x r. Some x) (under (map (norm_key ps)) k kvs) (cm_map (compositemap_construct lim ps) k))"
    then have "cm_map m (map (norm_key ps) key) = (if ?u = [] then None else Some (last ?u))"
      using c by (simp add: fold_last)
    then show "yields (compositemap_get m key) (\<lambda>(r, c'). let u = ?u in case r of None \<Rightarrow> u = []
        | Some i \<Rightarrow> u \<noteq> [] \<and> vec_at (vals (base c')) i = Some (Some (last u)))"
      using compositemap_get_spec [of m key] m
      by (auto elim!: yields_mono simp: Let_def split: option.splits if_splits)
  qed
qed

end
