(* ===== verification/Group.thy ===== *)
theory Group
  imports Aggregate Flex Compositemap RowRecord
begin

text \<open>
  GROUP BY and DISTINCT (lib/group.c). The key texts of all groups stand one after the other
  in \<open>group_data\<close>; \<open>val_map\<close> gives the number of a group from its key; every aggregate has
  one result for each group. An operation runs on the store of expressions and the group.
\<close>

section \<open>Data\<close>

record 'f group =
  g_exprs :: "nat list"
  g_aggs :: "'f aggregate list"
  val_map :: "nat compositemap"
  group_data :: flex
  composite :: "view list"
  dump_idx :: nat

type_synonym ('f, 're, 'a) gact = "(('f, 're) store \<times> 'f group, 'a) act"

definition group_construct :: "'f group" where
  "group_construct = \<lparr>g_exprs = [], g_aggs = [], val_map = compositemap_construct 128 3,
     group_data = flex_construct, composite = [], dump_idx = 0\<rparr>"

definition group_reset :: "'f group \<Rightarrow> 'f group" where
  "group_reset self = self\<lparr>g_aggs := map aggregate_reset (g_aggs self), val_map := compositemap_clear (val_map self),
     group_data := flex_clear (group_data self), dump_idx := 0\<rparr>"

definition group_add_expression :: "'f group \<Rightarrow> nat \<Rightarrow> 'f expression list \<Rightarrow> ('f group \<times> 'f expression list) option" where
  "group_add_expression self i es =
     (if i < length es
      then Some
        (self\<lparr>g_exprs := g_exprs self @ [i],
           composite := composite self @
             (if expr (es ! i) \<noteq> EXPR_AGGREGATE \<and> expr (es ! i) \<noteq> EXPR_ROW_NUMBER then [no_view] else [])\<rparr>,
         es[i := (es ! i)\<lparr>e_index := length (g_exprs self)\<rparr>])
      else None)"

section \<open>Actions\<close>

definition on_store :: "('f, 're, 'a) sact \<Rightarrow> ('f, 're, 'a) gact" where
  "on_store m sg = (case m (fst sg) of (r, s) \<Rightarrow> (r, (s, snd sg)))"

definition on_group :: "('f group \<Rightarrow> 'f group option) \<Rightarrow> ('f, 're, unit) gact" where
  "on_group f sg = (case f (snd sg) of None \<Rightarrow> (Crash, sg) | Some g \<Rightarrow> (Good (), (fst sg, g)))"

fun each :: "('i \<Rightarrow> ('s, unit) act) \<Rightarrow> 'i list \<Rightarrow> ('s, unit) act" where
  "each f [] = outA (Good ())"
| "each f (i # is) = derefA (f i) (\<lambda>_. each f is)"

section \<open>The key of a row\<close>

text \<open>
  Every expression is read into the first view of \<open>_composite\<close>. A NULL that does not touch the
  view leaves that of the expression, or of the row, before it. An expression without a type
  adds nothing.
\<close>

definition push_view :: "view \<Rightarrow> 'f group \<Rightarrow> 'f group option" where
  "push_view v g =
     (if sv_len v \<le> length (sv_data v)
      then do { d \<leftarrow> flex_push_back (group_data g) (sv_text v);
                Some (g\<lparr>group_data := d, composite := (composite g)[0 := v]\<rparr>) }
      else None)"

definition push_data :: "(flex \<Rightarrow> flex option) \<Rightarrow> 'f group \<Rightarrow> 'f group option" where
  "push_data f g = do { d \<leftarrow> f (group_data g); Some (g\<lparr>group_data := d\<rparr>) }"

definition push_key :: "('f, 're) ext \<Rightarrow> ('f, 're) sget \<Rightarrow> nat \<Rightarrow> ('f, 're, unit) gact" where
  "push_key x G i sg =
     (if i < length (exprs (fst sg))
      then (let e = exprs (fst sg) ! i; fo = x_flt x in
        if expr e = EXPR_AGGREGATE \<or> expr e = EXPR_ROW_NUMBER then (Good (), sg)
        else case e_type e of
          FIELD_STRING \<Rightarrow>
            (case composite (snd sg) of
               [] \<Rightarrow> (Crash, sg)
             | sv # _ \<Rightarrow> tryA sv (on_store (get_stringview G i)) (\<lambda>v _. on_group (push_view v)) sg)
        | FIELD_INT \<Rightarrow> tryA 0 (on_store (get_int G i)) (\<lambda>n _. on_group (push_data (\<lambda>f. flex_push_back_str_int f n))) sg
        | FIELD_FLOAT \<Rightarrow>
            tryA (f_zero fo) (on_store (get_float G i)) (\<lambda>n _. on_group (push_data (\<lambda>f. flex_push_back_str_float fo f n))) sg
        | FIELD_UNDEFINED \<Rightarrow> (Good (), sg))
      else (Crash, sg))"

section \<open>Results\<close>

definition update_result :: "('f, 're) ext \<Rightarrow> ('f, 're) sget \<Rightarrow> nat \<Rightarrow> nat \<Rightarrow> ('f, 're, unit) gact" where
  "update_result x G idx j sg =
     (if j < length (g_aggs (snd sg))
      then (let a = g_aggs (snd sg) ! j in
        case vec_at (results a) idx of
          Some (Some r) \<Rightarrow> derefA (on_store (agg_row (x_flt x) G a r)) (\<lambda>r'. on_group (\<lambda>g. do {
            v \<leftarrow> vec_set_at (results a) idx [Some r'];
            Some (g\<lparr>g_aggs := (g_aggs g)[j := a\<lparr>results := v\<rparr>]\<rparr>)
          })) sg
        | _ \<Rightarrow> (Crash, sg))
      else (Crash, sg))"

definition add_result :: "('f, 're) ext \<Rightarrow> ('f, 're) sget \<Rightarrow> nat \<Rightarrow> ('f, 're, unit) gact" where
  "add_result x G j sg =
     (if j < length (g_aggs (snd sg))
      then (let a = g_aggs (snd sg) ! j in
        derefA (on_group (\<lambda>g. do {
          v \<leftarrow> vec_push_back (results a) (Some (fresh_result a));
          Some (g\<lparr>g_aggs := (g_aggs g)[j := a\<lparr>results := v\<rparr>]\<rparr>)
        })) (\<lambda>_. update_result x G (vsize (results a)) j) sg)
      else (Crash, sg))"

definition add_agg_result :: "('f, 're) ext \<Rightarrow> ('f, 're) sget \<Rightarrow> ('f, 're, unit) gact" where
  "add_agg_result x G sg = each (add_result x G) [0..<length (g_aggs (snd sg))] sg"

definition update_agg_result :: "('f, 're) ext \<Rightarrow> ('f, 're) sget \<Rightarrow> nat \<Rightarrow> ('f, 're, unit) gact" where
  "update_agg_result x G idx sg = each (update_result x G idx) [0..<length (g_aggs (snd sg))] sg"

section \<open>One row\<close>

text \<open>Whether the row began a group; the key texts of a row that did not are dropped again.\<close>

definition group_key :: "('f, 're) ext \<Rightarrow> ('f, 're) sget \<Rightarrow> nat \<Rightarrow> ('f, 're, bool) gact" where
  "group_key x G org_size sg = (let (s, g) = sg in
     case those (map (\<lambda>i. flex_pair_at (group_data g) (org_size + i)) [0..<length (composite g)]) of
       None \<Rightarrow> (Crash, sg)
     | Some svs \<Rightarrow>
         (let g1 = g\<lparr>composite := svs\<rparr>; key = map sv_text svs; group_count = vsize (vals (base (val_map g))) in
          case compositemap_get (val_map g1) key of
            None \<Rightarrow> (Crash, (s, g1))
          | Some (None, c1) \<Rightarrow>
              (case compositemap_set c1 key group_count of
                 None \<Rightarrow> (Crash, (s, g1))
               | Some c2 \<Rightarrow>
                   derefA (add_agg_result x G) (\<lambda>_. outA (Good True)) (s, g1\<lparr>val_map := c2\<rparr>))
          | Some (Some p, c1) \<Rightarrow>
              (case (vec_at (vals (base c1)) p, flex_resize (group_data g1) org_size) of
                 (Some (Some idx), Some d) \<Rightarrow>
                   derefA (update_agg_result x G idx) (\<lambda>_. outA (Good False))
                     (s, g1\<lparr>val_map := c1, group_data := d\<rparr>)
               | _ \<Rightarrow> (Crash, (s, g1)))))"

definition group_record :: "('f, 're) ext \<Rightarrow> ('f, 're) sget \<Rightarrow> ('f, 're, bool) gact" where
  "group_record x G sg =
     derefA (each (push_key x G) (g_exprs (snd sg)))
       (\<lambda>_. group_key x G (flex_size (group_data (snd sg)))) sg"

section \<open>The result\<close>

text \<open>\<open>sv\<close> points to the string that was printed, or to the text of the result itself.\<close>

definition print_group_string :: "row_record \<Rightarrow> string \<Rightarrow> row_record option" where
  "print_group_string rec txt = do {
     (ret, rec1) \<leftarrow> record_generate_groupby_string rec;
     ss \<leftarrow> group_strings rec1;
     cell \<leftarrow> vec_at ss ret;
     sb \<leftarrow> cell;
     sb' \<leftarrow> string_sprintf sb txt;
     ss' \<leftarrow> vec_set_one ss ret (Some sb');
     Some (rec1\<lparr>group_strings := Some ss'\<rparr>)
   }"

definition set_field :: "row_record \<Rightarrow> nat \<Rightarrow> view \<Rightarrow> row_record option" where
  "set_field rec i v = do {
     fs \<leftarrow> vec_set_at (rec_fields rec) i [Some v];
     Some (rec\<lparr>rec_fields := fs\<rparr>)
   }"

definition read_aggregate :: "'f flt \<Rightarrow> 'f aggregate \<Rightarrow> row_record \<Rightarrow> nat \<Rightarrow> nat \<Rightarrow> row_record option" where
  "read_aggregate fo agg rec i idx = do {
     cell \<leftarrow> vec_at (results agg) idx;
     r \<leftarrow> cell;
     (case agg_data_type agg of
        FIELD_INT \<Rightarrow>
          (case as_int fo (agg_value r) of
             Good n \<Rightarrow> do { rec1 \<leftarrow> print_group_string rec (show_long n); set_field rec1 i (view_of (show_long n)) }
           | _ \<Rightarrow> None)
      | FIELD_FLOAT \<Rightarrow>
          (case as_float fo (agg_value r) of
             Good f \<Rightarrow> do { rec1 \<leftarrow> print_group_string rec (f_print fo f); set_field rec1 i (view_of (f_print fo f)) }
           | _ \<Rightarrow> None)
      | FIELD_STRING \<Rightarrow>
          (case agg_value r of
             UStr s \<Rightarrow> do { (_, rec1) \<leftarrow> record_generate_groupby_string rec; set_field rec1 i (view_of s) }
           | _ \<Rightarrow> None)
      | FIELD_UNDEFINED \<Rightarrow> do { (_, rec1) \<leftarrow> record_generate_groupby_string rec; Some rec1 })
   }"

fun dump_loop :: "'f flt \<Rightarrow> 'f expression list \<Rightarrow> 'f group \<Rightarrow> nat list \<Rightarrow> nat \<Rightarrow> nat \<Rightarrow> row_record \<Rightarrow> row_record option" where
  "dump_loop fo es g [] i idx rec = Some rec"
| "dump_loop fo es g (p # ps) i idx rec =
     (if p < length es
      then (let e = es ! p in
        if expr e = EXPR_AGGREGATE
        then (case e_agg e of
                None \<Rightarrow> None
              | Some a \<Rightarrow>
                  if a < length (g_aggs g)
                  then do { rec1 \<leftarrow> read_aggregate fo (g_aggs g ! a) rec i (dump_idx g);
                            dump_loop fo es g ps (i + 1) idx rec1 }
                  else None)
        else if expr e = EXPR_ROW_NUMBER
        then do { rec1 \<leftarrow> print_group_string rec (show_nat (idx + 1)); dump_loop fo es g ps (i + 1) idx rec1 }
        else do {
          v \<leftarrow> flex_pair_at (group_data g) idx;
          rec1 \<leftarrow> set_field rec i v;
          dump_loop fo es g ps (i + 1) (idx + 1) rec1
        })
      else None)"

text \<open>\<open>Inl\<close>: all groups have been dumped.\<close>

definition group_dump_record :: "'f flt \<Rightarrow> 'f expression list \<Rightarrow> 'f group \<Rightarrow> row_record \<Rightarrow>
    (unit + 'f group \<times> row_record) option" where
  "group_dump_record fo es self rec =
     (if dump_idx self \<ge> vsize (vals (base (val_map self))) then Some (Inl ())
      else do {
        let rec0 = record_resize rec (length (g_exprs self));
        let rec1 = rec0\<lparr>group_strings := record_clear_strings (group_strings rec0)\<rparr>;
        rec2 \<leftarrow> dump_loop fo es self (g_exprs self) 0 (length (composite self) * dump_idx self) rec1;
        Some (Inr (self\<lparr>dump_idx := dump_idx self + 1\<rparr>, rec2))
      })"

end
