(* ===== verification/GroupSpec.thy ===== *)
theory GroupSpec
  imports Group
begin

text \<open>
  What grouping computes. The rows recorded so far are a list of groups in the order of their
  first rows, each with its key texts and its rows (\<open>group_ok\<close>); recording a row adds it to the
  group of its key (\<open>add_row\<close>), and a dump shows the groups in that order. The values of the
  expressions and the steps of the aggregates enter as what the accessors return
  (\<open>key_value\<close>, \<open>evaluates\<close>).
\<close>

section \<open>Counting the entries of a compositemap\<close>

lemma cm_find_iff:
  assumes "cm_ok c"
  shows "cm_find c k \<noteq> None \<longleftrightarrow> map (map Some) k \<in> ckey c ` set (occ (base c))"
  by (force simp: cm_find_def map_of_eq_None_iff image_image)

lemma cm_count:
  assumes "cm_ok c"
  shows "card (dom (cm_map c)) = vsize (vals (base c))"
proof -
  have core: "cm_core c" "vals_ok (base c)" using assms by (simp_all add: cm_ok_def)
  have keys: "\<exists>ks. ckey c e = map (map Some) ks" if "e \<in> set (occ (base c))" for e
    using core(1) that by (auto simp: cm_core_def Let_def centry_ok_def)
  have found: "cm_map c k \<noteq> None \<longleftrightarrow> cm_find c k \<noteq> None" for k
  proof (cases "cm_find c k")
    case (Some e)
    then have "e \<in> set (occ (base c))" by (auto simp: cm_find_def dest: map_of_SomeD)
    then have "val_idx e < length (vec_list (vals (base c)))"
      using core(2) by (auto simp: vals_ok_def vec_list_length)
    then have "vec_list (vals (base c)) ! val_idx e \<noteq> None" using core(2) by (simp add: vals_ok_def)
    then show ?thesis using Some by (simp add: cm_map_def)
  qed (simp add: cm_map_def)
  have inj: "inj (map (map Some) :: string list \<Rightarrow> char option list list)"
    by (simp add: inj_on_def)
  have "map (map Some) ` dom (cm_map c) = ckey c ` set (occ (base c))"
  proof
    show "map (map Some) ` dom (cm_map c) \<subseteq> ckey c ` set (occ (base c))"
      using found cm_find_iff [OF assms] by (auto simp: dom_def)
    show "ckey c ` set (occ (base c)) \<subseteq> map (map Some) ` dom (cm_map c)"
    proof
      fix q assume "q \<in> ckey c ` set (occ (base c))"
      moreover from this obtain ks where "q = map (map Some) ks" using keys by blast
      ultimately show "q \<in> map (map Some) ` dom (cm_map c)"
        using found cm_find_iff [OF assms] by (auto simp: dom_def)
    qed
  qed
  then have "card (dom (cm_map c)) = card (ckey c ` set (occ (base c)))"
    using card_image [OF inj_on_subset [OF inj subset_UNIV]] by metis
  also have "\<dots> = length (occ (base c))"
    using core(1) by (metis cm_core_def distinct_card length_map list.set_map)
  finally show ?thesis using core(2) by (simp add: vals_ok_def)
qed

section \<open>Keys\<close>

text \<open>
  The text of one expression for a row, \<open>None\<close> for an aggregate or row number: what the
  accessors leave in their variable from any state of the invariant, for a NULL as well.
\<close>

definition key_value :: "'f flt \<Rightarrow> (('f, 're) store \<Rightarrow> bool) \<Rightarrow> ('f, 're) sget \<Rightarrow> nat \<Rightarrow> string option \<Rightarrow> bool" where
  "key_value fo I G i k \<longleftrightarrow> (\<forall>s. I s \<longrightarrow> i < length (exprs s)) \<and>
     (case k of
        None \<Rightarrow> \<forall>s. I s \<longrightarrow> expr (exprs s ! i) \<in> {EXPR_AGGREGATE, EXPR_ROW_NUMBER}
      | Some t \<Rightarrow> (\<forall>s. I s \<longrightarrow> expr (exprs s ! i) \<notin> {EXPR_AGGREGATE, EXPR_ROW_NUMBER}) \<and>
          ((\<exists>v. (\<forall>s. I s \<longrightarrow> e_type (exprs s ! i) = FIELD_STRING) \<and> reads I (get_stringview G i) None v \<and>
              view_ok v \<and> sv_text v = t) \<or>
           (\<exists>n. (\<forall>s. I s \<longrightarrow> e_type (exprs s ! i) = FIELD_INT) \<and> reads I (get_int G i) (Some 0) n \<and> t = show_long n) \<or>
           (\<exists>f. (\<forall>s. I s \<longrightarrow> e_type (exprs s ! i) = FIELD_FLOAT) \<and> reads I (get_float G i) (Some (f_zero fo)) f \<and> t = f_print fo f)))"

lemma evaluatesD: "evaluates I m a \<Longrightarrow> I s \<Longrightarrow> \<exists>s'. m s = (Good a, s') \<and> I s'"
  unfolding evaluates_def by blast

lemma tryA_store:
  assumes "reads I m init v" "I s" "init = None \<or> init = Some u"
  shows "\<exists>s' b. I s' \<and> tryA u (on_store m) k (s, g) = k v b (s', g)"
proof -
  obtain s' where s': "I s'" "m s = (Good v, s') \<or> m s = (Null (Some v), s') \<or> m s = (Null None, s') \<and> init = Some v"
    using assms(1,2) unfolding reads_def by blast
  show ?thesis
    by (rule exI [of _ s'], rule exI [of _ "\<exists>a. fst (m s) = Good a"]) (use s' assms(3) in \<open>auto simp: tryA_def on_store_def\<close>)
qed

lemma push_key_spec:
  assumes k: "key_value (x_flt x) I G i k" and I: "I s" and ok: "flex_ok (group_data g)"
    and c: "composite g = [] \<longrightarrow> k = None"
  shows "\<exists>s' d cs. push_key x G i (s, g) = (Good (), (s', g\<lparr>group_data := d, composite := cs\<rparr>)) \<and> I s' \<and>
    flex_ok d \<and> flex_list d = flex_list (group_data g) @ (case k of None \<Rightarrow> [] | Some t \<Rightarrow> [t]) \<and>
    length cs = length (composite g)"
proof -
  have i: "i < length (exprs s)" using k I by (simp add: key_value_def)
  show ?thesis
  proof (cases k)
    case None
    then have "push_key x G i (s, g) = (Good (), (s, g\<lparr>group_data := group_data g, composite := composite g\<rparr>))"
      using k I i by (auto simp: key_value_def push_key_def)
    then show ?thesis using I ok None
      by (intro exI [of _ s] exI [of _ "group_data g"] exI [of _ "composite g"]) simp
  next
    case (Some t)
    then obtain sv svs where sv: "composite g = sv # svs" using c by (cases "composite g") auto
    have n: "expr (exprs s ! i) \<notin> {EXPR_AGGREGATE, EXPR_ROW_NUMBER}" using k I Some by (simp add: key_value_def)
    consider v where "e_type (exprs s ! i) = FIELD_STRING" "reads I (get_stringview G i) None v" "view_ok v" "sv_text v = t"
      | n where "e_type (exprs s ! i) = FIELD_INT" "reads I (get_int G i) (Some 0) n" "t = show_long n"
      | f where "e_type (exprs s ! i) = FIELD_FLOAT" "reads I (get_float G i) (Some (f_zero (x_flt x))) f" "t = f_print (x_flt x) f"
      using k I Some by (auto simp: key_value_def)
    then show ?thesis
    proof cases
      case 1
      obtain s' b where s': "I s'" "tryA sv (on_store (get_stringview G i)) (\<lambda>v _. on_group (push_view v)) (s, g) = on_group (push_view v) (s', g)"
        using tryA_store [OF 1(2) I, of sv "\<lambda>v _. on_group (push_view v)" g] by blast
      obtain d where d: "flex_push_back (group_data g) t = Some d" "flex_ok d" "flex_list d = flex_list (group_data g) @ [t]"
        using flex_push_back_spec [OF ok, of t] by (auto simp: yields_exists)
      have "push_key x G i (s, g) = (Good (), (s', g\<lparr>group_data := d, composite := v # svs\<rparr>))"
        using i n 1 sv d(1) by (simp add: push_key_def s'(2) on_group_def push_view_def view_ok_def)
      moreover have "length (v # svs) = length (composite g)" using sv by simp
      ultimately show ?thesis using s'(1) d(2,3) Some option.simps(5) by metis
    next
      case 2
      let ?k = "\<lambda>n _. on_group (push_data (\<lambda>f. flex_push_back_str_int f n))"
      obtain s' b where s': "I s'" "tryA 0 (on_store (get_int G i)) ?k (s, g) = ?k n b (s', g)"
        using tryA_store [OF 2(2) I, of 0 ?k g] by blast
      obtain d where d: "flex_push_back_str_int (group_data g) n = Some d" "flex_ok d" "flex_list d = flex_list (group_data g) @ [t]"
        using flex_push_back_str_int_spec [OF ok, of n] 2(3) by (auto simp: yields_exists)
      have "push_key x G i (s, g) = (Good (), (s', g\<lparr>group_data := d, composite := composite g\<rparr>))"
        using i n 2 d(1) by (simp add: push_key_def s'(2) on_group_def push_data_def)
      then show ?thesis using s'(1) d(2,3) Some option.simps(5) by metis
    next
      case 3
      let ?k = "\<lambda>n _. on_group (push_data (\<lambda>f. flex_push_back_str_float (x_flt x) f n))"
      obtain s' b where s': "I s'" "tryA (f_zero (x_flt x)) (on_store (get_float G i)) ?k (s, g) = ?k f b (s', g)"
        using tryA_store [OF 3(2) I, of "f_zero (x_flt x)" ?k g] by blast
      obtain d where d: "flex_push_back_str_float (x_flt x) (group_data g) f = Some d" "flex_ok d" "flex_list d = flex_list (group_data g) @ [t]"
        using flex_push_back_str_float_spec [OF ok, of "x_flt x" f] 3(3) by (auto simp: yields_exists)
      have "push_key x G i (s, g) = (Good (), (s', g\<lparr>group_data := d, composite := composite g\<rparr>))"
        using i n 3 d(1) by (simp add: push_key_def Let_def s'(2) on_group_def push_data_def)
      then show ?thesis using s'(1) d(2,3) Some option.simps(5) by metis
    qed
  qed
qed

definition key_texts :: "(nat \<Rightarrow> string option) \<Rightarrow> nat list \<Rightarrow> string list" where
  "key_texts k es = concat (map (\<lambda>i. case k i of None \<Rightarrow> [] | Some t \<Rightarrow> [t]) es)"

lemma push_keys_spec:
  assumes "\<forall>i \<in> set es. key_value (x_flt x) I G i (k i)" "I s" "flex_ok (group_data g)" "composite g = [] \<longrightarrow> (\<forall>i \<in> set es. k i = None)"
  shows "\<exists>s' d cs. each (push_key x G) es (s, g) = (Good (), (s', g\<lparr>group_data := d, composite := cs\<rparr>)) \<and> I s' \<and>
    flex_ok d \<and> flex_list d = flex_list (group_data g) @ key_texts k es \<and> length cs = length (composite g)"
  using assms
proof (induction es arbitrary: s g)
  case Nil
  then show ?case by (auto simp: outA_def key_texts_def intro!: exI [of _ "group_data g"] exI [of _ "composite g"])
next
  case (Cons i es)
  obtain s1 d1 c1 where 1: "push_key x G i (s, g) = (Good (), (s1, g\<lparr>group_data := d1, composite := c1\<rparr>))" "I s1"
      "flex_ok d1" "flex_list d1 = flex_list (group_data g) @ (case k i of None \<Rightarrow> [] | Some t \<Rightarrow> [t])"
      "length c1 = length (composite g)"
    using push_key_spec [of x I G i "k i" s g] Cons.prems by (auto simp: yields_exists)
  let ?g = "g\<lparr>group_data := d1, composite := c1\<rparr>"
  have "composite ?g = [] \<longrightarrow> (\<forall>i \<in> set es. k i = None)" using 1(5) Cons.prems(4) by auto
  then obtain s2 d2 c2 where "each (push_key x G) es (s1, ?g) = (Good (), (s2, ?g\<lparr>group_data := d2, composite := c2\<rparr>))"
      "I s2" "flex_ok d2" "flex_list d2 = flex_list d1 @ key_texts k es" "length c2 = length c1"
    using Cons.IH [of s1 ?g] Cons.prems 1 by auto
  then show ?case using 1 by (auto simp: key_texts_def)
qed

section \<open>Results\<close>

lemma derefA_assoc: "derefA (derefA m k) h = derefA m (\<lambda>a. derefA (k a) h)"
  by (rule ext) (auto simp: derefA_def split: outcome.splits prod.splits)

lemma each_append: "each f (xs @ ys) = derefA (each f xs) (\<lambda>_. each f ys)"
proof (induction xs)
  case Nil
  then show ?case by (simp add: fun_eq_iff)
next
  case (Cons i xs)
  then show ?case by (simp add: derefA_assoc)
qed

text \<open>A loop over the aggregates that replaces each of them in turn.\<close>

lemma each_aggs:
  assumes step: "\<And>j s g. j < length as \<Longrightarrow> I s \<Longrightarrow> length (g_aggs g) = length as \<Longrightarrow> g_aggs g ! j = as ! j \<Longrightarrow>
      \<exists>s' a'. f j (s, g) = (Good (), (s', g\<lparr>g_aggs := (g_aggs g)[j := a']\<rparr>)) \<and> I s' \<and> Q j a'"
    and "I s" "g_aggs g = as"
  shows "\<exists>s' as'. each f [0..<length as] (s, g) = (Good (), (s', g\<lparr>g_aggs := as'\<rparr>)) \<and> I s' \<and>
    length as' = length as \<and> (\<forall>j < length as. Q j (as' ! j))"
proof -
  have "\<exists>s' as'. each f [0..<n] (s, g) = (Good (), (s', g\<lparr>g_aggs := as'\<rparr>)) \<and> I s' \<and> length as' = length as \<and>
      (\<forall>j < n. Q j (as' ! j)) \<and> (\<forall>j. n \<le> j \<longrightarrow> as' ! j = as ! j)" if "n \<le> length as" for n
    using that
  proof (induction n)
    case 0
    then show ?case using assms(2,3) by (intro exI [of _ s] exI [of _ as]) (simp add: outA_def)
  next
    case (Suc n)
    then obtain s1 as1 where 1: "each f [0..<n] (s, g) = (Good (), (s1, g\<lparr>g_aggs := as1\<rparr>))" "I s1" "length as1 = length as"
        "\<forall>j < n. Q j (as1 ! j)" "\<forall>j. n \<le> j \<longrightarrow> as1 ! j = as ! j" by auto
    obtain s2 a2 where 2: "f n (s1, g\<lparr>g_aggs := as1\<rparr>) = (Good (), (s2, g\<lparr>g_aggs := as1[n := a2]\<rparr>))" "I s2" "Q n a2"
      using step [of n s1 "g\<lparr>g_aggs := as1\<rparr>"] Suc.prems 1 by auto
    have "each f [0..<Suc n] (s, g) = (Good (), (s2, g\<lparr>g_aggs := as1[n := a2]\<rparr>))"
      using 1(1) 2(1) by (simp add: each_append outA_def)
    then show ?case
      using 1 2 Suc.prems by (intro exI [of _ s2] exI [of _ "as1[n := a2]"]) (auto simp: less_Suc_eq)
  qed
  from this [of "length as"] show ?thesis by auto
qed

lemma agg_arg_results [simp]: "agg_arg (a\<lparr>results := v\<rparr>) get init k = agg_arg a get init k"
  by (simp add: agg_arg_def)

lemma agg_row_results [simp]: "agg_row fo G (a\<lparr>results := v\<rparr>) r = agg_row fo G a r"
  by (simp add: agg_row_def call_aggregate_def split: option.split aggregate_call.split)

lemma fresh_result_results [simp]: "fresh_result (a\<lparr>results := v\<rparr>) = fresh_result a"
  by (simp add: fresh_result_def)

lemma update_result_spec:
  assumes j: "j < length (g_aggs g)" "g_aggs g ! j = a" and v: "vec_ok (results a)" "vec_list (results a) = map Some rs"
    and idx: "idx < length rs" and ev: "evaluates I (agg_row (x_flt x) G a (rs ! idx)) r'" and I: "I s"
  shows "\<exists>s' w. update_result x G idx j (s, g) = (Good (), (s', g\<lparr>g_aggs := (g_aggs g)[j := a\<lparr>results := w\<rparr>]\<rparr>)) \<and> I s' \<and>
    vec_ok w \<and> vec_list w = map Some (rs[idx := r'])"
proof -
  obtain s' where s': "agg_row (x_flt x) G a (rs ! idx) s = (Good r', s')" "I s'" using evaluatesD [OF ev I] by blast
  have len: "vsize (results a) = length rs" using vec_list_length [OF v(1)] v(2) by simp
  have at: "vec_at (results a) idx = Some (Some (rs ! idx))"
    using v idx len vec_at_list [OF v(1), of idx] by simp
  obtain w where w: "vec_set_at (results a) idx [Some r'] = Some w" "vec_ok w" "vec_list w = map Some (rs[idx := r'])"
    using vec_set_at_list [OF v(1), of idx "[Some r']"] idx len v(2)
    by (auto simp: yields_exists upd_conv_take_nth_drop take_map drop_map)
  have "on_store (agg_row (x_flt x) G a (rs ! idx)) (s, g) = (Good r', (s', g))" using s' by (simp add: on_store_def)
  then have "update_result x G idx j (s, g) = (Good (), (s', g\<lparr>g_aggs := (g_aggs g)[j := a\<lparr>results := w\<rparr>]\<rparr>))"
    using j at w by (simp add: update_result_def on_group_def)
  then show ?thesis using w(2,3) s'(2) by blast
qed

lemma add_result_spec:
  assumes j: "j < length (g_aggs g)" "g_aggs g ! j = a" and v: "vec_ok (results a)" "vec_list (results a) = map Some rs"
    and ev: "evaluates I (agg_row (x_flt x) G a (fresh_result a)) r'" and I: "I s"
  shows "\<exists>s' w. add_result x G j (s, g) = (Good (), (s', g\<lparr>g_aggs := (g_aggs g)[j := a\<lparr>results := w\<rparr>]\<rparr>)) \<and> I s' \<and>
    vec_ok w \<and> vec_list w = map Some (rs @ [r'])"
proof -
  have len: "vsize (results a) = length rs" using vec_list_length [OF v(1)] v(2) by simp
  obtain u where u: "vec_push_back (results a) (Some (fresh_result a)) = Some u" "vec_ok u"
      "vec_list u = map Some (rs @ [fresh_result a])"
    using vec_push_back_list [OF v(1)] v(2) by (auto simp: yields_exists)
  let ?g = "g\<lparr>g_aggs := (g_aggs g)[j := a\<lparr>results := u\<rparr>]\<rparr>"
  have "\<exists>s' w. update_result x G (length rs) j (s, ?g) =
      (Good (), (s', ?g\<lparr>g_aggs := (g_aggs ?g)[j := a\<lparr>results := u\<rparr>\<lparr>results := w\<rparr>]\<rparr>)) \<and> I s' \<and>
      vec_ok w \<and> vec_list w = map Some ((rs @ [fresh_result a])[length rs := r'])"
    by (rule update_result_spec) (use j u ev I in simp_all)
  then obtain s' w where w: "update_result x G (length rs) j (s, ?g) = (Good (), (s', g\<lparr>g_aggs := (g_aggs g)[j := a\<lparr>results := w\<rparr>]\<rparr>))"
      "I s'" "vec_ok w" "vec_list w = map Some (rs @ [r'])" by auto
  then have "add_result x G j (s, g) = (Good (), (s', g\<lparr>g_aggs := (g_aggs g)[j := a\<lparr>results := w\<rparr>]\<rparr>))"
    using j u(1) by (simp add: add_result_def on_group_def len)
  then show ?thesis using w by blast
qed

section \<open>Grouping a list of rows\<close>

text \<open>
  The specification: groups in the order of their first rows, with the key of the first row
  and all rows, where keys are compared component by component up to case and trailing blanks.
\<close>

definition gkey :: "string list \<Rightarrow> string list" where
  "gkey = map (norm_key 3)"

definition add_row :: "string list \<Rightarrow> 'r \<Rightarrow> (string list \<times> 'r list) list \<Rightarrow> (string list \<times> 'r list) list" where
  "add_row k row gs =
     (if gkey k \<in> set (map (gkey \<circ> fst) gs)
      then map (\<lambda>p. if gkey (fst p) = gkey k then (fst p, snd p @ [row]) else p) gs
      else gs @ [(k, [row])])"

definition group_rows :: "('r \<Rightarrow> string list) \<Rightarrow> 'r list \<Rightarrow> (string list \<times> 'r list) list" where
  "group_rows key rows = fold (\<lambda>row gs. add_row (key row) row gs) rows []"

text \<open>The rows that the group of a key has so far.\<close>

definition group_so_far :: "string list \<Rightarrow> (string list \<times> 'r list) list \<Rightarrow> 'r list" where
  "group_so_far k gs = (case find (\<lambda>p. gkey (fst p) = gkey k) gs of None \<Rightarrow> [] | Some p \<Rightarrow> snd p)"

lemma group_so_far_simps [simp]:
  "group_so_far k [] = []"
  "group_so_far k (p # gs) = (if gkey (fst p) = gkey k then snd p else group_so_far k gs)"
  by (simp_all add: group_so_far_def)

lemma group_so_far_new: "gkey k \<notin> set (map (gkey \<circ> fst) gs) \<Longrightarrow> group_so_far k gs = []"
  by (induction gs) auto

lemma group_so_far_nth:
  "distinct (map (gkey \<circ> fst) gs) \<Longrightarrow> i < length gs \<Longrightarrow> gkey (fst (gs ! i)) = gkey k \<Longrightarrow> group_so_far k gs = snd (gs ! i)"
proof (induction gs arbitrary: i)
  case (Cons p gs)
  show ?case
  proof (cases i)
    case 0
    then show ?thesis using Cons.prems(3) by simp
  next
    case (Suc j)
    then have j: "j < length gs" "gkey (fst (gs ! j)) = gkey k" using Cons.prems(2,3) by simp_all
    then have "gkey k \<in> set (map (gkey \<circ> fst) gs)" by (metis comp_apply length_map nth_map nth_mem)
    then have "gkey (fst p) \<noteq> gkey k" using Cons.prems(1) unfolding list.map distinct.simps comp_apply by metis
    then show ?thesis using Suc Cons.prems(1) Cons.IH [OF _ j] by simp
  qed
qed simp

lemma group_so_far_add:
  "group_so_far k (add_row l row gs) = (if gkey l = gkey k then group_so_far k gs @ [row] else group_so_far k gs)"
proof (cases "gkey l \<in> set (map (gkey \<circ> fst) gs)")
  case True
  have "group_so_far k (map (\<lambda>p. if gkey (fst p) = gkey l then (fst p, snd p @ [row]) else p) gs) =
      (if gkey l = gkey k \<and> list_ex (\<lambda>p. gkey (fst p) = gkey l) gs then group_so_far k gs @ [row] else group_so_far k gs)"
    by (induction gs) auto
  moreover have "list_ex (\<lambda>p. gkey (fst p) = gkey l) gs" using True by (force simp: list_ex_iff)
  ultimately show ?thesis using True by (simp add: add_row_def)
next
  case False
  have "group_so_far k (gs @ [(l, [row])]) = (if gkey l = gkey k then group_so_far k gs @ [row] else group_so_far k gs)"
    using False by (induction gs) auto
  then show ?thesis using False by (simp add: add_row_def)
qed

lemma group_so_far_rows: "group_so_far k (group_rows key rows) = filter (\<lambda>r. gkey (key r) = gkey k) rows"
  by (induction rows rule: rev_induct) (simp_all add: group_rows_def group_so_far_add)

definition group_ok :: "'f aggregate list \<Rightarrow> (nat \<Rightarrow> 'r list \<Rightarrow> 'f aggresult) \<Rightarrow> 'f group \<Rightarrow> (string list \<times> 'r list) list \<Rightarrow> bool" where
  "group_ok as res g gs \<longleftrightarrow>
     cm_ok (val_map g) \<and> props (base (val_map g)) = 3 \<and> flex_ok (group_data g) \<and>
     flex_list (group_data g) = concat (map fst gs) \<and>
     (\<forall>p \<in> set gs. length (fst p) = length (composite g)) \<and>
     distinct (map (gkey \<circ> fst) gs) \<and>
     cm_map (val_map g) = map_of (zip (map (gkey \<circ> fst) gs) [0..<length gs]) \<and>
     length (g_aggs g) = length as \<and>
     (\<forall>j < length as. \<exists>v. g_aggs g ! j = (as ! j)\<lparr>results := v\<rparr> \<and> vec_ok v \<and>
        vec_list v = map (\<lambda>p. Some (res j (snd p))) gs)"

lemma map_of_zip_upt:
  assumes "distinct ks"
  shows "map_of (zip ks [0..<length ks]) k = Some i \<longleftrightarrow> i < length ks \<and> ks ! i = k"
proof -
  have "distinct (map fst (zip ks [0..<length ks]))" using assms by simp
  then show ?thesis by (auto simp: in_set_zip)
qed

lemma map_add_single: "m k = None \<Longrightarrow> [k \<mapsto> n] ++ m = m(k \<mapsto> n)"
  by (auto simp: fun_eq_iff map_add_def split: option.split)

lemma map_of_zip_snoc:
  assumes "k \<notin> set ks"
  shows "map_of (zip (ks @ [k]) [0..<Suc (length ks)]) = (map_of (zip ks [0..<length ks]))(k \<mapsto> length ks)"
proof -
  have "map_of (zip ks [0..<length ks]) k = None"
    using assms by (auto simp: map_of_eq_None_iff dest: set_zip_leftD)
  from map_add_single [of "map_of (zip ks [0..<length ks])", OF this] show ?thesis by simp
qed

lemma map_of_zip_None:
  "distinct ks \<Longrightarrow> map_of (zip ks [0..<length ks]) k = None \<longleftrightarrow> k \<notin> set ks"
  using map_of_zip_upt [of ks k] by (metis in_set_conv_nth not_None_eq)

lemma those_map:
  "\<forall>i \<in> set is. \<exists>v. f i = Some v \<and> h v = t i \<Longrightarrow> \<exists>vs. those (map f is) = Some vs \<and> map h vs = map t is"
  by (induction "is") auto

lemma dom_zip_upt: "card (dom (map_of (zip ks [0..<length ks]))) = card (set ks)"
  by (simp add: dom_map_of_conv_image_fst list.set_map [symmetric] del: list.set_map)

lemma group_count:
  assumes "group_ok as res g gs"
  shows "vsize (vals (base (val_map g))) = length gs"
proof -
  have "card (dom (cm_map (val_map g))) = card (set (map (gkey \<circ> fst) gs))"
    using assms dom_zip_upt [of "map (gkey \<circ> fst) gs"] unfolding group_ok_def by (metis length_map)
  also have "\<dots> = length gs" using assms distinct_card by (fastforce simp: group_ok_def)
  finally show ?thesis using cm_count [of "val_map g"] assms by (simp add: group_ok_def)
qed

text \<open>The views of the key that has just been appended.\<close>

lemma key_views:
  assumes "flex_ok d" "flex_list d = old @ k"
  shows "\<exists>svs. those (map (\<lambda>i. flex_pair_at d (length old + i)) [0..<length k]) = Some svs \<and> map sv_text svs = k"
proof -
  have len: "flex_size d = length old + length k" using flex_list_length [OF assms(1)] assms(2) by simp
  have "\<forall>i \<in> set [0..<length k]. \<exists>v. flex_pair_at d (length old + i) = Some v \<and> sv_text v = k ! i"
  proof
    fix i assume "i \<in> set [0..<length k]"
    then have i: "i < length k" by simp
    then have "length old + i < flex_size d" using len by simp
    from flex_pair_at_spec [OF assms(1) this] show "\<exists>v. flex_pair_at d (length old + i) = Some v \<and> sv_text v = k ! i"
      using assms(2) i by (auto simp: nth_append)
  qed
  from those_map [OF this] show ?thesis by (auto simp: map_nth)
qed

lemma add_row_known:
  assumes "distinct (map (gkey \<circ> fst) gs)" "i < length gs" "gkey (fst (gs ! i)) = gkey k"
  shows "add_row k row gs = gs[i := (fst (gs ! i), snd (gs ! i) @ [row])]"
proof (rule nth_equalityI)
  have m: "gkey k \<in> set (map (gkey \<circ> fst) gs)"
    using nth_mem [of i "map (gkey \<circ> fst) gs"] assms(2,3) by simp
  show "length (add_row k row gs) = length (gs[i := (fst (gs ! i), snd (gs ! i) @ [row])])"
    using m by (simp add: add_row_def)
  fix j assume "j < length (add_row k row gs)"
  then have j: "j < length gs" using m by (simp add: add_row_def)
  have "gkey (fst (gs ! j)) = gkey k \<longleftrightarrow> j = i"
    using assms j nth_eq_iff_index_eq [OF assms(1), of j i] by auto
  then show "add_row k row gs ! j = gs[i := (fst (gs ! i), snd (gs ! i) @ [row])] ! j"
    using m j by (auto simp: add_row_def nth_list_update)
qed


lemma group_key_spec:
  fixes I :: "('f, 're) store \<Rightarrow> bool"
  assumes ok: "group_ok as res (g\<lparr>group_data := d0\<rparr>) gs" and d: "flex_ok (group_data g)"
      "flex_list (group_data g) = flex_list d0 @ k" and k: "length k = length (composite g)"
    and ev: "\<And>j. j < length as \<Longrightarrow> evaluates I (agg_row (x_flt x) G (as ! j) (res j (group_so_far k gs))) (res j (group_so_far k gs @ [row]))"
    and fresh: "\<And>j. j < length as \<Longrightarrow> res j [] = fresh_result (as ! j)" and I: "I s"
  shows "\<exists>s' g'. group_key x G (length (flex_list d0)) (s, g) =
      (Good (gkey k \<notin> set (map (gkey \<circ> fst) gs)), (s', g')) \<and> I s' \<and> group_ok as res g' (add_row k row gs) \<and>
    length (composite g') = length (composite g) \<and> g_exprs g' = g_exprs g \<and> dump_idx g' = dump_idx g"
proof -
  note ok' = ok [unfolded group_ok_def, simplified]
  obtain svs where svs: "those (map (\<lambda>i. flex_pair_at (group_data g) (length (flex_list d0) + i)) [0..<length (composite g)]) = Some svs"
      "map sv_text svs = k" using key_views [OF d(1,2)] k by auto
  have lsv: "length svs = length (composite g)" using arg_cong [OF svs(2), of length] k by simp
  have cm: "cm_ok (val_map g)" "props (base (val_map g)) = 3" using ok' by simp_all
  have cmap: "cm_map (val_map g) = map_of (zip (map (gkey \<circ> fst) gs) [0..<length gs])" using ok' by simp
  have dist: "distinct (map (gkey \<circ> fst) gs)" using ok' by simp
  have cnt: "vsize (vals (base (val_map g))) = length gs" using group_count [OF ok] by simp
  have aggs: "length (g_aggs g) = length as"
      "\<And>j. j < length as \<Longrightarrow> \<exists>v. g_aggs g ! j = (as ! j)\<lparr>results := v\<rparr> \<and> vec_ok v \<and> vec_list v = map Some (map (\<lambda>p. res j (snd p)) gs)"
    using ok' by (auto simp: comp_def)
  obtain r c1 where get: "compositemap_get (val_map g) k = Some (r, c1)" "cm_ok c1" "cm_map c1 = cm_map (val_map g)"
      "props (base c1) = 3" "case r of None \<Rightarrow> cm_map (val_map g) (gkey k) = None
        | Some p \<Rightarrow> \<exists>v. vec_at (vals (base c1)) p = Some (Some v) \<and> cm_map (val_map g) (gkey k) = Some v"
    using compositemap_get_spec [OF cm(1), of k, unfolded cm(2), folded gkey_def] by (auto simp: yields_exists)
  show ?thesis
  proof (cases r)
    case None
    then have new: "gkey k \<notin> set (map (gkey \<circ> fst) gs)"
      using get(5) map_of_zip_None [OF dist, of "gkey k"] cmap unfolding length_map by simp
    obtain c2 where c2: "compositemap_set c1 k (length gs) = Some c2" "cm_ok c2" "props (base c2) = 3"
        "cm_map c2 = (cm_map (val_map g))(gkey k \<mapsto> length gs)"
      using compositemap_set_spec [OF get(2), of k "length gs", unfolded get(3,4), folded gkey_def] by (auto simp: yields_exists)
    let ?g = "g\<lparr>composite := svs, val_map := c2\<rparr>"
    let ?Q = "\<lambda>j a. \<exists>v. a = (as ! j)\<lparr>results := v\<rparr> \<and> vec_ok v \<and> vec_list v = map Some (map (\<lambda>p. res j (snd p)) gs @ [res j [row]])"
    have "\<exists>s' as'. each (add_result x G) [0..<length (g_aggs g)] (s, ?g) = (Good (), (s', ?g\<lparr>g_aggs := as'\<rparr>)) \<and> I s' \<and>
        length as' = length (g_aggs g) \<and> (\<forall>j < length (g_aggs g). ?Q j (as' ! j))"
    proof (rule each_aggs)
      fix j s and h :: "'f group"
      assume j: "j < length (g_aggs g)" "I s" "length (g_aggs h) = length (g_aggs g)" "g_aggs h ! j = g_aggs g ! j"
      then obtain v where v: "g_aggs g ! j = (as ! j)\<lparr>results := v\<rparr>" "vec_ok v" "vec_list v = map Some (map (\<lambda>p. res j (snd p)) gs)"
        using aggs by metis
      have "evaluates I (agg_row (x_flt x) G (as ! j) (fresh_result (as ! j))) (res j [row])"
        using ev [of j] fresh [of j] j(1) aggs(1) group_so_far_new [OF new] by simp
      then show "\<exists>s' a'. add_result x G j (s, h) = (Good (), (s', h\<lparr>g_aggs := (g_aggs h)[j := a']\<rparr>)) \<and> I s' \<and> ?Q j a'"
        using add_result_spec [of j h "(as ! j)\<lparr>results := v\<rparr>" "map (\<lambda>p. res j (snd p)) gs" I x G "res j [row]" s] j v
        by force
    qed (use I in simp_all)
    then obtain s' as' where s': "each (add_result x G) [0..<length (g_aggs g)] (s, ?g) = (Good (), (s', ?g\<lparr>g_aggs := as'\<rparr>))"
        "I s'" "length as' = length as" "\<forall>j < length as. ?Q j (as' ! j)" using aggs(1) by auto
    have run: "group_key x G (length (flex_list d0)) (s, g) = (Good True, (s', ?g\<lparr>g_aggs := as'\<rparr>))"
      using svs get(1) None c2(1) s'(1) cnt by (simp add: group_key_def add_agg_result_def Let_def outA_def)
    have add: "add_row k row gs = gs @ [(k, [row])]" using new by (simp add: add_row_def)
    have "cm_map c2 = map_of (zip (map (gkey \<circ> fst) (gs @ [(k, [row])])) [0..<length (gs @ [(k, [row])])])"
      using map_of_zip_snoc [OF new] c2(4) cmap by simp
    then have "group_ok as res (?g\<lparr>g_aggs := as'\<rparr>) (add_row k row gs)"
      using ok' c2 d s'(3,4) new k lsv dist unfolding group_ok_def add by (auto simp: comp_def)
    then show ?thesis using run s'(2) new lsv by auto
  next
    case (Some p)
    then obtain idx where idx: "vec_at (vals (base c1)) p = Some (Some idx)" "cm_map (val_map g) (gkey k) = Some idx"
      using get(5) by auto
    then have i: "idx < length gs" "gkey (fst (gs ! idx)) = gkey k"
      using map_of_zip_upt [OF dist, of "gkey k" idx] cmap by auto
    then have old: "gkey k \<in> set (map (gkey \<circ> fst) gs)"
      using nth_mem [of idx "map (gkey \<circ> fst) gs"] by simp
    have "length (flex_list d0) \<le> flex_size (group_data g)" using flex_list_length [OF d(1)] d(2) by simp
    from flex_resize_spec [OF d(1) this] obtain d1 where d1: "flex_resize (group_data g) (length (flex_list d0)) = Some d1"
        "flex_ok d1" "flex_list d1 = flex_list d0" using d(2) by (auto simp: yields_exists)
    let ?g = "g\<lparr>composite := svs, val_map := c1, group_data := d1\<rparr>"
    let ?Q = "\<lambda>j a. \<exists>v. a = (as ! j)\<lparr>results := v\<rparr> \<and> vec_ok v \<and>
      vec_list v = map Some ((map (\<lambda>p. res j (snd p)) gs)[idx := res j (snd (gs ! idx) @ [row])])"
    have "\<exists>s' as'. each (update_result x G idx) [0..<length (g_aggs g)] (s, ?g) = (Good (), (s', ?g\<lparr>g_aggs := as'\<rparr>)) \<and> I s' \<and>
        length as' = length (g_aggs g) \<and> (\<forall>j < length (g_aggs g). ?Q j (as' ! j))"
    proof (rule each_aggs)
      fix j s and h :: "'f group"
      assume j: "j < length (g_aggs g)" "I s" "length (g_aggs h) = length (g_aggs g)" "g_aggs h ! j = g_aggs g ! j"
      then obtain v where v: "g_aggs g ! j = (as ! j)\<lparr>results := v\<rparr>" "vec_ok v" "vec_list v = map Some (map (\<lambda>p. res j (snd p)) gs)"
        using aggs by metis
      have "evaluates I (agg_row (x_flt x) G (as ! j) (map (\<lambda>p. res j (snd p)) gs ! idx)) (res j (snd (gs ! idx) @ [row]))"
        using ev [of j] j(1) aggs(1) i(1) group_so_far_nth [OF dist i] by simp
      then show "\<exists>s' a'. update_result x G idx j (s, h) = (Good (), (s', h\<lparr>g_aggs := (g_aggs h)[j := a']\<rparr>)) \<and> I s' \<and> ?Q j a'"
        using update_result_spec [of j h "(as ! j)\<lparr>results := v\<rparr>" "map (\<lambda>p. res j (snd p)) gs" idx I x G
          "res j (snd (gs ! idx) @ [row])" s] j v i(1)
        by force
    qed (use I in simp_all)
    then obtain s' as' where s': "each (update_result x G idx) [0..<length (g_aggs g)] (s, ?g) = (Good (), (s', ?g\<lparr>g_aggs := as'\<rparr>))"
        "I s'" "length as' = length as" "\<forall>j < length as. ?Q j (as' ! j)" using aggs(1) by auto
    have run: "group_key x G (length (flex_list d0)) (s, g) = (Good False, (s', ?g\<lparr>g_aggs := as'\<rparr>))"
      using svs get(1) Some idx(1) d1(1) s'(1) by (simp add: group_key_def update_agg_result_def Let_def outA_def)
    let ?gs = "gs[idx := (fst (gs ! idx), snd (gs ! idx) @ [row])]"
    have add: "add_row k row gs = ?gs" by (rule add_row_known [OF dist i])
    have keys: "map fst ?gs = map fst gs" "map (gkey \<circ> fst) ?gs = map (gkey \<circ> fst) gs"
      by (rule map_update_same; simp)+
    have len: "(\<forall>p \<in> set ?gs. length (fst p) = length (composite g)) \<longleftrightarrow> (\<forall>q \<in> set (map fst ?gs). length q = length (composite g))"
      by auto
    have res: "map (\<lambda>p. Some (res j (snd p))) ?gs =
        map Some ((map (\<lambda>p. res j (snd p)) gs)[idx := res j (snd (gs ! idx) @ [row])])" for j
      by (simp add: map_update comp_def)
    have "group_ok as res (?g\<lparr>g_aggs := as'\<rparr>) ?gs"
      using ok' get(2-4) d1(2,3) s'(3,4) dist cmap
      unfolding group_ok_def keys res by (auto simp: lsv len keys simp del: map_map list.map_comp)
    then show ?thesis using run s'(2) old lsv add by auto
  qed
qed


lemma group_record_spec:
  fixes I :: "('f, 're) store \<Rightarrow> bool"
  assumes ok: "group_ok as res g gs" and key: "\<forall>i \<in> set (g_exprs g). key_value (x_flt x) I G i (k i)"
    and c: "length (key_texts k (g_exprs g)) = length (composite g)"
    and ev: "\<And>j. j < length as \<Longrightarrow> evaluates I (agg_row (x_flt x) G (as ! j) (res j (group_so_far (key_texts k (g_exprs g)) gs)))
      (res j (group_so_far (key_texts k (g_exprs g)) gs @ [row]))"
    and fresh: "\<And>j. j < length as \<Longrightarrow> res j [] = fresh_result (as ! j)" and I: "I s"
  shows "\<exists>s' g'. group_record x G (s, g) =
      (Good (gkey (key_texts k (g_exprs g)) \<notin> set (map (gkey \<circ> fst) gs)), (s', g')) \<and> I s' \<and>
    group_ok as res g' (add_row (key_texts k (g_exprs g)) row gs) \<and>
    length (composite g') = length (composite g) \<and> g_exprs g' = g_exprs g \<and> dump_idx g' = dump_idx g"
proof -
  have d0: "flex_ok (group_data g)" using ok by (simp add: group_ok_def)
  have none: "composite g = [] \<longrightarrow> (\<forall>i \<in> set (g_exprs g). k i = None)"
    using c by (auto simp: key_texts_def split: option.splits)
  obtain s1 d cs where 1: "each (push_key x G) (g_exprs g) (s, g) = (Good (), (s1, g\<lparr>group_data := d, composite := cs\<rparr>))" "I s1"
      "flex_ok d" "flex_list d = flex_list (group_data g) @ key_texts k (g_exprs g)" "length cs = length (composite g)"
    using push_keys_spec [of "g_exprs g" x I G k s g] key I d0 none by auto
  let ?g = "g\<lparr>group_data := d, composite := cs\<rparr>"
  have "group_ok as res (?g\<lparr>group_data := group_data g\<rparr>) gs" using ok 1(5) by (simp add: group_ok_def)
  from group_key_spec [OF this, where k = "key_texts k (g_exprs g)", OF _ _ _ ev fresh 1(2)]
  obtain s2 g2 where 2: "group_key x G (length (flex_list (group_data g))) (s1, ?g) =
        (Good (gkey (key_texts k (g_exprs g)) \<notin> set (map (gkey \<circ> fst) gs)), (s2, g2))" "I s2"
      "group_ok as res g2 (add_row (key_texts k (g_exprs g)) row gs)" "length (composite g2) = length cs"
      "g_exprs g2 = g_exprs g" "dump_idx g2 = dump_idx g"
    using 1 c by auto
  have "flex_size (group_data g) = length (flex_list (group_data g))" using flex_list_length [OF d0] by simp
  then show ?thesis using 1(1,5) 2 by (auto simp: group_record_def)
qed

fun group_all :: "('r \<Rightarrow> ('s, bool) act) \<Rightarrow> 'r list \<Rightarrow> ('s, bool list) act" where
  "group_all f [] = outA (Good [])"
| "group_all f (r # rs) = derefA (f r) (\<lambda>b. derefA (group_all f rs) (\<lambda>bs. outA (Good (b # bs))))"

definition first_of_key :: "('r \<Rightarrow> string list) \<Rightarrow> string list list \<Rightarrow> 'r list \<Rightarrow> bool list" where
  "first_of_key key seen rows =
     map (\<lambda>i. gkey (key (rows ! i)) \<notin> set seen \<union> (gkey \<circ> key) ` set (take i rows)) [0..<length rows]"

lemma first_of_key_Cons:
  "first_of_key key seen (row # rows) = (gkey (key row) \<notin> set seen) # first_of_key key (gkey (key row) # seen) rows"
  by (auto simp: first_of_key_def upt_conv_Cons map_Suc_upt [symmetric] simp del: upt_Suc)

lemma add_row_keys: "set (map (gkey \<circ> fst) (add_row k row gs)) = insert (gkey k) (set (map (gkey \<circ> fst) gs))"
proof -
  have kept: "map (gkey \<circ> fst) (map (\<lambda>p. if gkey (fst p) = gkey k then (fst p, snd p @ [row]) else p) gs) = map (gkey \<circ> fst) gs"
    by (induction gs) auto
  show ?thesis
  proof (cases "gkey k \<in> set (map (gkey \<circ> fst) gs)")
    case True
    then have "map (gkey \<circ> fst) (add_row k row gs) = map (gkey \<circ> fst) gs"
      using kept unfolding add_row_def by (simp only: if_True)
    then show ?thesis using insert_absorb [OF True] by simp
  next
    case False
    then show ?thesis unfolding add_row_def by (simp only: if_False) simp
  qed
qed

lemma first_of_key_set: "set seen = set seen' \<Longrightarrow> first_of_key key seen rows = first_of_key key seen' rows"
  by (simp add: first_of_key_def)

lemma group_all_spec:
  fixes I :: "('f, 're) store \<Rightarrow> bool"
  assumes key: "\<And>row i. row \<in> set rows \<Longrightarrow> i \<in> set es \<Longrightarrow> key_value (x_flt x) I (G row) i (k row i)"
    and c: "\<And>row. row \<in> set rows \<Longrightarrow> length (key_texts (k row) es) = n"
    and ev: "\<And>pre row post j. rows = pre @ row # post \<Longrightarrow> j < length as \<Longrightarrow>
      evaluates I (agg_row (x_flt x) (G row) (as ! j)
        (res j (group_so_far (key_texts (k row) es) (fold (\<lambda>row gs. add_row (key_texts (k row) es) row gs) pre gs))))
        (res j (group_so_far (key_texts (k row) es) (fold (\<lambda>row gs. add_row (key_texts (k row) es) row gs) pre gs) @ [row]))"
    and fresh: "\<And>j. j < length as \<Longrightarrow> res j [] = fresh_result (as ! j)"
    and "group_ok as res g gs" "g_exprs g = es" "length (composite g) = n" "I s"
  shows "\<exists>s' g'. group_all (\<lambda>row. group_record x (G row)) rows (s, g) =
      (Good (first_of_key (\<lambda>row. key_texts (k row) es) (map (gkey \<circ> fst) gs) rows), (s', g')) \<and> I s' \<and>
    group_ok as res g' (fold (\<lambda>row gs. add_row (key_texts (k row) es) row gs) rows gs) \<and>
    length (composite g') = n \<and> g_exprs g' = es \<and> dump_idx g' = dump_idx g"
  using assms
proof (induction rows arbitrary: s g gs)
  case Nil
  then show ?case by (auto simp: outA_def first_of_key_def)
next
  case (Cons row rows)
  let ?k = "\<lambda>row. key_texts (k row) es"
  obtain s1 g1 where 1: "group_record x (G row) (s, g) =
        (Good (gkey (?k row) \<notin> set (map (gkey \<circ> fst) gs)), (s1, g1))" "I s1"
      "group_ok as res g1 (add_row (?k row) row gs)" "length (composite g1) = n" "g_exprs g1 = es"
      "dump_idx g1 = dump_idx g"
    using group_record_spec [OF Cons.prems(5), of x I "G row" "k row" row s] Cons.prems(1,2,4,6-8) Cons.prems(3) [of "[]" row rows] by auto
  have "\<exists>s' g'. group_all (\<lambda>row. group_record x (G row)) rows (s1, g1) =
        (Good (first_of_key ?k (map (gkey \<circ> fst) (add_row (?k row) row gs)) rows), (s', g')) \<and> I s' \<and>
      group_ok as res g' (fold (\<lambda>row gs. add_row (?k row) row gs) rows (add_row (?k row) row gs)) \<and>
      length (composite g') = n \<and> g_exprs g' = es \<and> dump_idx g' = dump_idx g1"
  proof (rule Cons.IH [OF _ _ _ Cons.prems(4) 1(3,5,4,2)])
    fix pre row' post j assume "rows = pre @ row' # post" "j < length as"
    then show "evaluates I (agg_row (x_flt x) (G row') (as ! j)
        (res j (group_so_far (?k row') (fold (\<lambda>row gs. add_row (?k row) row gs) pre (add_row (?k row) row gs)))))
        (res j (group_so_far (?k row') (fold (\<lambda>row gs. add_row (?k row) row gs) pre (add_row (?k row) row gs)) @ [row']))"
      using Cons.prems(3) [of "row # pre" row' post j] by simp
  qed (use Cons.prems(1,2) in auto)
  then obtain s2 g2 where 2: "group_all (\<lambda>row. group_record x (G row)) rows (s1, g1) =
        (Good (first_of_key ?k (map (gkey \<circ> fst) (add_row (?k row) row gs)) rows), (s2, g2))" "I s2"
      "group_ok as res g2 (fold (\<lambda>row gs. add_row (?k row) row gs) rows (add_row (?k row) row gs))"
      "length (composite g2) = n" "g_exprs g2 = es" "dump_idx g2 = dump_idx g1"
    by blast
  have "first_of_key ?k (map (gkey \<circ> fst) (add_row (?k row) row gs)) rows = first_of_key ?k (gkey (?k row) # map (gkey \<circ> fst) gs) rows"
    by (rule first_of_key_set) (simp only: add_row_keys list.set)
  then show ?case using 1 2 by (simp add: first_of_key_Cons outA_def comp_def)
qed

section \<open>Dumping the groups\<close>

definition strings_ok :: "row_record \<Rightarrow> bool" where
  "strings_ok rec \<longleftrightarrow> pool_ok (group_strings rec) (max_group_count rec)"

lemma generate_groupby_spec:
  assumes "strings_ok rec"
  shows "\<exists>ret rec' ss sb. record_generate_groupby_string rec = Some (ret, rec') \<and> strings_ok rec' \<and>
    rec_fields rec' = rec_fields rec \<and> group_strings rec' = Some ss \<and> vec_at ss ret = Some (Some sb) \<and> str_ok sb \<and>
    ret < vsize ss"
  using generate_string_spec [of "group_strings rec" "max_group_count rec"] assms
  by (auto simp: yields_exists record_generate_groupby_string_def strings_ok_def)

lemma print_group_string_spec:
  assumes "strings_ok rec"
  shows "\<exists>rec'. print_group_string rec t = Some rec' \<and> strings_ok rec' \<and> rec_fields rec' = rec_fields rec"
proof -
  obtain ret rec1 ss sb where 1: "record_generate_groupby_string rec = Some (ret, rec1)" "strings_ok rec1"
      "rec_fields rec1 = rec_fields rec" "group_strings rec1 = Some ss" "vec_at ss ret = Some (Some sb)" "str_ok sb"
      "ret < vsize ss" using generate_groupby_spec [OF assms] by blast
  obtain sb' where sb': "string_sprintf sb t = Some sb'" "str_ok sb'"
    using string_sprintf_spec [OF 1(6)] by (auto simp: yields_exists)
  have ss: "vec_ok ss" using 1(2,4) by (simp add: strings_ok_def pool_ok_def)
  then obtain ss' where ss': "vec_set_one ss ret (Some sb') = Some ss'" "ss' = ss\<lparr>vdata := (vdata ss)[ret := Some sb']\<rparr>"
    using 1(7) by (simp add: vec_set_one_def mem_write_in upd_conv_take_nth_drop vec_ok_def)
  have pool: "vec_ok ss" "vsize ss \<le> max_group_count rec1" "max_group_count rec1 \<le> length (vdata ss)"
      "\<forall>i < max_group_count rec1. \<exists>s. vdata ss ! i = Some s \<and> str_ok s"
    using 1(2,4) by (simp_all add: strings_ok_def pool_ok_def)
  have "\<exists>s. (vdata ss)[ret := Some sb'] ! i = Some s \<and> str_ok s" if "i < max_group_count rec1" for i
    using pool(3,4) that sb'(2) by (cases "i = ret") auto
  then have "pool_ok (Some ss') (max_group_count rec1)"
    using pool by (auto simp: pool_ok_def ss'(2) vec_ok_def)
  then show ?thesis using 1 sb'(1) ss'(1) by (simp add: print_group_string_def strings_ok_def)
qed

lemma set_field_spec:
  assumes "vec_ok (rec_fields rec)" "i < vsize (rec_fields rec)" "strings_ok rec"
  shows "\<exists>rec'. set_field rec i v = Some rec' \<and> strings_ok rec' \<and> vec_ok (rec_fields rec') \<and>
    vec_list (rec_fields rec') = (vec_list (rec_fields rec))[i := Some v]"
proof -
  obtain w where "vec_set_at (rec_fields rec) i [Some v] = Some w" "vec_ok w"
      "vec_list w = (vec_list (rec_fields rec))[i := Some v]"
    using vec_set_at_list [OF assms(1), of i "[Some v]"] assms(2) vec_list_length [OF assms(1)]
    by (auto simp: yields_exists upd_conv_take_nth_drop)
  then show ?thesis using assms(3) by (simp add: set_field_def strings_ok_def)
qed

text \<open>The text an aggregate shows for a result.\<close>

definition agg_text :: "'f flt \<Rightarrow> field_type \<Rightarrow> 'f field \<Rightarrow> string option" where
  "agg_text fo t u =
     (case t of
        FIELD_INT \<Rightarrow> (case as_int fo u of Good n \<Rightarrow> Some (show_long n) | _ \<Rightarrow> None)
      | FIELD_FLOAT \<Rightarrow> (case as_float fo u of Good f \<Rightarrow> Some (f_print fo f) | _ \<Rightarrow> None)
      | FIELD_STRING \<Rightarrow> (case u of UStr s \<Rightarrow> Some s | _ \<Rightarrow> None)
      | FIELD_UNDEFINED \<Rightarrow> None)"

lemma read_aggregate_spec:
  assumes "vec_at (results agg) idx = Some (Some r)" "agg_text fo (agg_data_type agg) (agg_value r) = Some t"
    and "vec_ok (rec_fields rec)" "i < vsize (rec_fields rec)" "strings_ok rec"
  shows "\<exists>rec'. read_aggregate fo agg rec i idx = Some rec' \<and> strings_ok rec' \<and> vec_ok (rec_fields rec') \<and>
    vec_list (rec_fields rec') = (vec_list (rec_fields rec))[i := Some (view_of t)]"
proof -
  have print: "\<exists>rec'. (print_group_string rec t \<bind> (\<lambda>rec1. set_field rec1 i (view_of t))) = Some rec' \<and> strings_ok rec' \<and>
      vec_ok (rec_fields rec') \<and> vec_list (rec_fields rec') = (vec_list (rec_fields rec))[i := Some (view_of t)]"
  proof -
    obtain rec1 where "print_group_string rec t = Some rec1" "strings_ok rec1" "rec_fields rec1 = rec_fields rec"
      using print_group_string_spec [OF assms(5)] by blast
    then show ?thesis using set_field_spec [of rec1 i "view_of t"] assms(3,4) by simp
  qed
  have keep: "\<exists>rec'. (record_generate_groupby_string rec \<bind> (\<lambda>(_, rec1). set_field rec1 i (view_of t))) = Some rec' \<and>
      strings_ok rec' \<and> vec_ok (rec_fields rec') \<and> vec_list (rec_fields rec') = (vec_list (rec_fields rec))[i := Some (view_of t)]"
  proof -
    obtain ret rec1 where "record_generate_groupby_string rec = Some (ret, rec1)" "strings_ok rec1" "rec_fields rec1 = rec_fields rec"
      using generate_groupby_spec [OF assms(5)] by blast
    then show ?thesis using set_field_spec [of rec1 i "view_of t"] assms(3,4) by simp
  qed
  show ?thesis
    using assms(1,2) print keep
    by (auto simp: read_aggregate_def agg_text_def split: field_type.splits outcome.splits field.splits)
qed

text \<open>The fields of a group: key texts in order, and the text of each aggregate.\<close>

fun dump_texts :: "'f flt \<Rightarrow> 'f expression list \<Rightarrow> 'f aggregate list \<Rightarrow> (nat \<Rightarrow> 'f aggresult) \<Rightarrow> nat list \<Rightarrow> string list \<Rightarrow> string option list" where
  "dump_texts fo es as r [] ks = []"
| "dump_texts fo es as r (p # ps) ks =
     (if expr (es ! p) = EXPR_AGGREGATE
      then agg_text fo (agg_data_type (as ! the (e_agg (es ! p)))) (agg_value (r (the (e_agg (es ! p))))) #
        dump_texts fo es as r ps ks
      else Some (hd ks) # dump_texts fo es as r ps (tl ks))"

lemma dump_texts_length [simp]: "length (dump_texts fo es as r ps ks) = length ps"
  by (induction ps arbitrary: ks) auto

definition plain_expr :: "'f expression list \<Rightarrow> nat \<Rightarrow> nat \<Rightarrow> bool" where
  "plain_expr es n p \<longleftrightarrow> p < length es \<and> expr (es ! p) \<noteq> EXPR_ROW_NUMBER \<and>
     (expr (es ! p) = EXPR_AGGREGATE \<longrightarrow> (\<exists>a < n. e_agg (es ! p) = Some a))"

lemma dump_loop_spec:
  assumes "flex_ok (group_data g)" "flex_list (group_data g) = pre @ ks @ post"
    and "\<forall>a < length (g_aggs g). vec_at (results (g_aggs g ! a)) (dump_idx g) = Some (Some (r a)) \<and>
      agg_data_type (g_aggs g ! a) = agg_data_type (as ! a)"
    and "\<forall>p \<in> set ps. plain_expr es (length (g_aggs g)) p"
    and "length (filter (\<lambda>p. expr (es ! p) \<noteq> EXPR_AGGREGATE) ps) = length ks"
    and "None \<notin> set (dump_texts fo es as r ps ks)"
    and "vec_ok (rec_fields rec)" "vsize (rec_fields rec) = i + length ps" "strings_ok rec"
  shows "\<exists>rec' vs. dump_loop fo es g ps i (length pre) rec = Some rec' \<and> vec_ok (rec_fields rec') \<and> strings_ok rec' \<and>
    vec_list (rec_fields rec') = take i (vec_list (rec_fields rec)) @ map Some vs \<and>
    map (\<lambda>v. Some (sv_text v)) vs = dump_texts fo es as r ps ks"
  using assms
proof (induction ps arbitrary: pre ks i rec)
  case Nil
  then show ?case using vec_list_length [OF Nil.prems(7)] by simp
next
  case (Cons p ps)
  have p: "plain_expr es (length (g_aggs g)) p" using Cons.prems(4) by simp
  have len: "length (vec_list (rec_fields rec)) = i + length (p # ps)" using vec_list_length [OF Cons.prems(7)] Cons.prems(8) by simp
  have rest: "take (Suc i) ((vec_list (rec_fields rec))[i := Some v]) = take i (vec_list (rec_fields rec)) @ [Some v]" for v
    using len by (simp add: take_Suc_conv_app_nth)
  show ?case
  proof (cases "expr (es ! p) = EXPR_AGGREGATE")
    case True
    then obtain a where a: "e_agg (es ! p) = Some a" "a < length (g_aggs g)" using p by (auto simp: plain_expr_def)
    obtain t where t: "agg_text fo (agg_data_type (as ! a)) (agg_value (r a)) = Some t"
      using Cons.prems(6) True a(1) by fastforce
    obtain rec1 where rec1: "read_aggregate fo (g_aggs g ! a) rec i (dump_idx g) = Some rec1" "strings_ok rec1"
        "vec_ok (rec_fields rec1)" "vec_list (rec_fields rec1) = (vec_list (rec_fields rec))[i := Some (view_of t)]"
      using read_aggregate_spec [of "g_aggs g ! a" "dump_idx g" "r a" fo t rec i] Cons.prems a t by auto
    have "vsize (rec_fields rec1) = Suc i + length ps"
      using vec_list_length [OF rec1(3)] rec1(4) len by simp
    then obtain rec2 vs where rec2: "dump_loop fo es g ps (Suc i) (length pre) rec1 = Some rec2" "vec_ok (rec_fields rec2)"
        "strings_ok rec2" "vec_list (rec_fields rec2) = take (Suc i) (vec_list (rec_fields rec1)) @ map Some vs"
        "map (\<lambda>v. Some (sv_text v)) vs = dump_texts fo es as r ps ks"
      using Cons.IH [of pre ks rec1 "Suc i"] Cons.prems True a rec1(2,3) by auto
    have "dump_loop fo es g (p # ps) i (length pre) rec = Some rec2"
      using True a rec1(1) rec2(1) p by (simp add: plain_expr_def)
    then show ?thesis
      using rec2 True a t by (intro exI [of _ rec2] exI [of _ "view_of t # vs"]) (simp add: rec1(4) rest)
  next
    case False
    then obtain k ks' where ks: "ks = k # ks'" using Cons.prems(5) by (cases ks) auto
    have "length pre < flex_size (group_data g)"
      using flex_list_length [OF Cons.prems(1)] Cons.prems(2) ks by simp
    from flex_pair_at_spec [OF Cons.prems(1) this] obtain v where v: "flex_pair_at (group_data g) (length pre) = Some v" "sv_text v = k"
      using Cons.prems(2) ks by auto
    obtain rec1 where rec1: "set_field rec i v = Some rec1" "strings_ok rec1"
        "vec_ok (rec_fields rec1)" "vec_list (rec_fields rec1) = (vec_list (rec_fields rec))[i := Some v]"
      using set_field_spec [of rec i v] Cons.prems by auto
    have "vsize (rec_fields rec1) = Suc i + length ps"
      using vec_list_length [OF rec1(3)] rec1(4) len by simp
    then obtain rec2 vs where rec2: "dump_loop fo es g ps (Suc i) (length (pre @ [k])) rec1 = Some rec2" "vec_ok (rec_fields rec2)"
        "strings_ok rec2" "vec_list (rec_fields rec2) = take (Suc i) (vec_list (rec_fields rec1)) @ map Some vs"
        "map (\<lambda>v. Some (sv_text v)) vs = dump_texts fo es as r ps ks'"
      using Cons.IH [of "pre @ [k]" ks' rec1 "Suc i"] Cons.prems False ks rec1(2,3) by auto
    have "dump_loop fo es g (p # ps) i (length pre) rec = Some rec2"
      using False v(1) rec1(1) rec2(1) p by (simp add: plain_expr_def)
    then show ?thesis
      using rec2 False v(2) ks by (intro exI [of _ rec2] exI [of _ "v # vs"]) (simp add: rec1(4) rest)
  qed
qed


text \<open>One step of an integer aggregate over an argument that can be read.\<close>

lemma agg_row_int:
  assumes "agg_args a = [i]" "reads I (get_int G i) (Some 0) n"
    and "agg_call a = Some Agg_sum_i \<and> step = sum_i fo \<or> agg_call a = Some Agg_avg_i \<and> step = avg_i fo \<or>
      agg_call a = Some Agg_min_i \<and> step = best_i fo (\<lambda>a b. sint a < sint b) \<or>
      agg_call a = Some Agg_max_i \<and> step = best_i fo (\<lambda>a b. sint a > sint b)"
    and "step r n = Good r'" "r'' = r'\<lparr>qty := qty r' + 1\<rparr>"
  shows "evaluates I (agg_row fo G a r) r''"
  unfolding evaluates_def
proof (intro allI impI)
  fix s assume "I s"
  then obtain s' where s': "I s'" "get_int G i s = (Good n, s') \<or> get_int G i s = (Null (Some n), s') \<or> get_int G i s = (Null None, s') \<and> 0 = n"
    using assms(2) unfolding reads_def by blast
  have "call_aggregate fo G a r = agg_arg a (get_int G) 0 (step r)" using assms(3) by (auto simp: call_aggregate_def)
  then have "agg_row fo G a r s = (Good r'', s')"
    using s'(2) assms(1,4,5) by (auto simp: agg_row_def agg_arg_def tryA_def outA_def derefA_def)
  then show "\<exists>s'. agg_row fo G a r s = (Good r'', s') \<and> I s'" using s'(1) by blast
qed

text \<open>
  A dump hands out the group number \<open>dump_idx\<close>: its key texts and the texts of its results,
  until all groups have been handed out.
\<close>

lemma group_dump_end:
  assumes "group_ok as res g gs" "dump_idx g = length gs"
  shows "group_dump_record fo es g rec = Some (Inl ())"
  using group_count [OF assms(1)] assms(2) by (simp add: group_dump_record_def)

lemma length_concat_const: "\<forall>k \<in> set xs. length k = n \<Longrightarrow> length (concat xs) = n * length xs"
  by (induction xs) auto

lemma concat_position:
  assumes "\<forall>k \<in> set ks. length k = n" "j < length ks"
  shows "concat ks = concat (take j ks) @ ks ! j @ concat (drop (Suc j) ks)" "length (concat (take j ks)) = n * j"
proof -
  show "concat ks = concat (take j ks) @ ks ! j @ concat (drop (Suc j) ks)"
    by (metis Cons_nth_drop_Suc append_take_drop_id assms(2) concat.simps(2) concat_append)
  show "length (concat (take j ks)) = n * j"
    using assms length_concat_const [of "take j ks" n] by (auto dest: in_set_takeD)
qed

lemma group_dump_spec:
  assumes ok: "group_ok as res g gs" and j: "dump_idx g = j" "j < length gs"
    and es: "\<forall>p \<in> set (g_exprs g). plain_expr es (length as) p"
    and n: "length (filter (\<lambda>p. expr (es ! p) \<noteq> EXPR_AGGREGATE) (g_exprs g)) = length (composite g)"
    and texts: "None \<notin> set (dump_texts fo es as (\<lambda>a. res a (snd (gs ! j))) (g_exprs g) (fst (gs ! j)))"
    and rec: "vec_ok (rec_fields rec)" "strings_ok rec"
  shows "\<exists>g' rec' vs. group_dump_record fo es g rec = Some (Inr (g', rec')) \<and> g' = g\<lparr>dump_idx := j + 1\<rparr> \<and>
    vec_ok (rec_fields rec') \<and> strings_ok rec' \<and> vec_list (rec_fields rec') = map Some vs \<and>
    map (\<lambda>v. Some (sv_text v)) vs = dump_texts fo es as (\<lambda>a. res a (snd (gs ! j))) (g_exprs g) (fst (gs ! j))"
proof -
  let ?rec = "record_resize rec (length (g_exprs g))"
  let ?rec1 = "?rec\<lparr>group_strings := record_clear_strings (group_strings ?rec)\<rparr>"
  have r1: "vec_ok (rec_fields ?rec1)" "vsize (rec_fields ?rec1) = 0 + length (g_exprs g)"
    using vec_resize_list [OF rec(1), of "length (g_exprs g)"] vec_list_length [of "vec_resize (rec_fields rec) (length (g_exprs g))"]
    by (simp_all add: record_resize_def)
  have clear: "vec_ok (vec_clear w)" "vsize (vec_clear w) = 0" "vdata (vec_clear w) = vdata w" if "vec_ok w" for w :: "strbuf vec"
  proof -
    show "vec_ok (vec_clear w)" using vec_clear_list [OF that] by simp
    show "vsize (vec_clear w) = 0" "vdata (vec_clear w) = vdata w" using that by (simp_all add: vec_clear_def vec_resize_def vec_ok_def Let_def)
  qed
  have "strings_ok ?rec1"
    using rec(2) clear by (auto simp: strings_ok_def pool_ok_def record_resize_def record_clear_strings_def split: option.splits)
  note r1 = r1 this
  have keys: "\<forall>k \<in> set (map fst gs). length k = length (composite g)" using ok by (auto simp: group_ok_def)
  note pos = concat_position [OF keys, of j]
  have fst_j: "map fst gs ! j = fst (gs ! j)" using j(2) by simp
  have flex: "flex_ok (group_data g)" "flex_list (group_data g) =
      concat (take j (map fst gs)) @ fst (gs ! j) @ concat (drop (Suc j) (map fst gs))"
    using ok pos(1) j(2) fst_j by (simp_all add: group_ok_def)
  have las: "length (g_aggs g) = length as" using ok by (simp add: group_ok_def)
  have aggs: "\<forall>a < length (g_aggs g). vec_at (results (g_aggs g ! a)) (dump_idx g) = Some (Some (res a (snd (gs ! j)))) \<and>
      agg_data_type (g_aggs g ! a) = agg_data_type (as ! a)"
  proof (intro allI impI)
    fix a assume "a < length (g_aggs g)"
    then obtain v where v: "g_aggs g ! a = (as ! a)\<lparr>results := v\<rparr>" "vec_ok v" "vec_list v = map (\<lambda>p. Some (res a (snd p))) gs"
      using ok by (auto simp: group_ok_def)
    then have "vsize v = length gs" using vec_list_length [OF v(2)] by simp
    then show "vec_at (results (g_aggs g ! a)) (dump_idx g) = Some (Some (res a (snd (gs ! j)))) \<and>
      agg_data_type (g_aggs g ! a) = agg_data_type (as ! a)"
      using v j vec_at_list [OF v(2), of j] by simp
  qed
  have len: "length (filter (\<lambda>p. expr (es ! p) \<noteq> EXPR_AGGREGATE) (g_exprs g)) = length (fst (gs ! j))"
    using n keys j(2) by simp
  obtain rec2 vs where "dump_loop fo es g (g_exprs g) 0 (length (concat (take j (map fst gs)))) ?rec1 = Some rec2"
      "vec_ok (rec_fields rec2)" "strings_ok rec2" "vec_list (rec_fields rec2) = take 0 (vec_list (rec_fields ?rec1)) @ map Some vs"
      "map (\<lambda>v. Some (sv_text v)) vs = dump_texts fo es as (\<lambda>a. res a (snd (gs ! j))) (g_exprs g) (fst (gs ! j))"
    using dump_loop_spec [OF flex aggs es [folded las] len texts r1] by blast
  moreover have "\<not> dump_idx g \<ge> vsize (vals (base (val_map g)))" using group_count [OF ok] j by simp
  ultimately show ?thesis using pos(2) j by (simp add: group_dump_record_def Let_def)
qed

text \<open>The consumer of a group calls for records until there are no more.\<close>

fun dump_groups :: "nat \<Rightarrow> 'f flt \<Rightarrow> 'f expression list \<Rightarrow> 'f group \<Rightarrow> row_record \<Rightarrow> view option list list option" where
  "dump_groups 0 fo es g rec = None"
| "dump_groups (Suc n) fo es g rec =
     (case group_dump_record fo es g rec of
        None \<Rightarrow> None
      | Some (Inl _) \<Rightarrow> Some []
      | Some (Inr (g', rec')) \<Rightarrow> map_option (Cons (vec_list (rec_fields rec'))) (dump_groups n fo es g' rec'))"

definition group_texts ::
    "'f flt \<Rightarrow> 'f expression list \<Rightarrow> 'f aggregate list \<Rightarrow> (nat \<Rightarrow> 'r list \<Rightarrow> 'f aggresult) \<Rightarrow> nat list \<Rightarrow>
     string list \<times> 'r list \<Rightarrow> string option list" where
  "group_texts fo es as res ps p = dump_texts fo es as (\<lambda>a. res a (snd p)) ps (fst p)"

lemma dump_groups_spec:
  assumes "group_ok as res g gs" "dump_idx g \<le> length gs"
    and "\<forall>p \<in> set (g_exprs g). plain_expr es (length as) p"
    and "length (filter (\<lambda>p. expr (es ! p) \<noteq> EXPR_AGGREGATE) (g_exprs g)) = length (composite g)"
    and "\<forall>p \<in> set gs. None \<notin> set (group_texts fo es as res (g_exprs g) p)"
    and "vec_ok (rec_fields rec)" "strings_ok rec"
    and "length gs - dump_idx g < n"
  shows "\<exists>out. dump_groups n fo es g rec = Some out \<and>
    map (map (map_option sv_text)) out = map (group_texts fo es as res (g_exprs g)) (drop (dump_idx g) gs)"
  using assms
proof (induction n arbitrary: g rec)
  case 0
  then show ?case by simp
next
  case (Suc n)
  show ?case
  proof (cases "dump_idx g = length gs")
    case True
    then show ?thesis using group_dump_end [OF Suc.prems(1) True] by simp
  next
    case False
    then have j: "dump_idx g < length gs" using Suc.prems(2) by simp
    then have gs_j: "gs ! dump_idx g \<in> set gs" by simp
    obtain g' rec' vs where d: "group_dump_record fo es g rec = Some (Inr (g', rec'))" "g' = g\<lparr>dump_idx := dump_idx g + 1\<rparr>"
        "vec_ok (rec_fields rec')" "strings_ok rec'" "vec_list (rec_fields rec') = map Some vs"
        "map (\<lambda>v. Some (sv_text v)) vs = group_texts fo es as res (g_exprs g) (gs ! dump_idx g)"
      using group_dump_spec [OF Suc.prems(1) refl j Suc.prems(3,4) _ Suc.prems(6,7), of fo] Suc.prems(5) gs_j
      by (auto simp: group_texts_def)
    have "group_ok as res g' gs" using Suc.prems(1) by (simp add: group_ok_def d(2))
    moreover have "length gs - dump_idx g' < n" using Suc.prems(8) j unfolding d(2) by simp
    ultimately obtain out where "dump_groups n fo es g' rec' = Some out"
        "map (map (map_option sv_text)) out = map (group_texts fo es as res (g_exprs g)) (drop (dump_idx g + 1) gs)"
      using Suc.IH [of g' rec'] Suc.prems(3-5) d(3,4) j by (auto simp: d(2))
    then show ?thesis using d j by (simp add: Cons_nth_drop_Suc [symmetric] comp_def)
  qed
qed

section \<open>Construction and reset\<close>

lemma group_construct_ok:
  assumes "\<And>j. j < length as \<Longrightarrow> results (as ! j) = vec_construct"
  shows "group_ok as res (group_construct\<lparr>g_exprs := es, g_aggs := as, composite := replicate n no_view\<rparr>) []"
proof -
  have "as ! j = (as ! j)\<lparr>results := vec_construct\<rparr>" if "j < length as" for j
    using assms [OF that] by (metis aggregate.surjective aggregate.update_convs(3))
  then show ?thesis
    using compositemap_construct_spec [of 128 3, where 'v = nat] flex_ok_construct
    by (force simp: group_ok_def group_construct_def)
qed

lemma group_reset_spec:
  assumes "group_ok as res g gs"
  shows "group_ok as res (group_reset g) [] \<and> dump_idx (group_reset g) = 0"
proof -
  have "\<exists>v. g_aggs (group_reset g) ! j = (as ! j)\<lparr>results := v\<rparr> \<and> vec_ok v \<and> vec_list v = []" if j: "j < length as" for j
  proof -
    obtain v where v: "g_aggs g ! j = (as ! j)\<lparr>results := v\<rparr>" "vec_ok v"
      using assms j unfolding group_ok_def by blast
    moreover have "length (g_aggs g) = length as" using assms by (simp add: group_ok_def)
    ultimately have "g_aggs (group_reset g) ! j = (as ! j)\<lparr>results := vec_clear v\<rparr>"
      using j by (simp add: group_reset_def aggregate_reset_def)
    then show ?thesis using vec_clear_list [OF v(2)] by blast
  qed
  then show ?thesis
    using assms compositemap_clear_spec [of "val_map g"] flex_clear_spec [of "group_data g"]
    by (auto simp: group_ok_def group_reset_def)
qed

text \<open>A text that is NULL without a value groups the row under the text that was read before it.\<close>

lemma push_key_null:
  assumes "i < length (exprs s)" "expr (exprs s ! i) = EXPR_FUNCTION" "e_type (exprs s ! i) = FIELD_STRING"
    and "composite g = sv # svs" "view_ok sv" "get_stringview G i s = (Null None, s')" "flex_ok (group_data g)"
  shows "\<exists>d. push_key x G i (s, g) = (Good (), (s', g\<lparr>group_data := d, composite := sv # svs\<rparr>)) \<and>
    flex_list d = flex_list (group_data g) @ [sv_text sv]"
proof -
  obtain d where d: "flex_push_back (group_data g) (sv_text sv) = Some d" "flex_list d = flex_list (group_data g) @ [sv_text sv]"
    using flex_push_back_spec [OF assms(7), of "sv_text sv"] by (auto simp: yields_exists)
  have "push_key x G i (s, g) = (Good (), (s', g\<lparr>group_data := d, composite := sv # svs\<rparr>))"
    using assms d(1) by (simp add: push_key_def tryA_def on_store_def on_group_def push_view_def view_ok_def)
  then show ?thesis using d(2) by blast
qed

end
