(* ===== verification/Sample.thy ===== *)
theory Sample
  imports GroupSpec
begin

text \<open>Small concrete stores and rows, on which the witnesses of the properties run.\<close>

section \<open>A sample store\<close>

text \<open>
  Concrete values for the instances below: floating point arithmetic is that of the integers,
  no regular expression matches. The store holds a column, its source and a COUNT.
\<close>

definition sample_ext :: "(int, unit) ext" where
  "sample_ext = \<lparr>x_flt = \<lparr>f_of_int = sint, f_to_int = \<lambda>f. Some (word_of_int f), f_parse = \<lambda>s. None, f_print = \<lambda>f. ''0'',
       f_add = (+), f_sub = (-), f_mul = (*), f_div = (div), f_neg = uminus, f_zero = 0, f_eq = (=), f_lt = (<), f_le = (\<le>),
       f_bits = word_of_int, f_of_bits = sint\<rparr>,
     x_compile = \<lambda>s. None, x_match = \<lambda>r s. False\<rparr>"

definition sample_exprs :: "int expression list" where
  "sample_exprs =
     [(blank_expression EXPR_COLUMN_NAME [])\<lparr>e_type := FIELD_STRING, data_source := Some 1\<rparr>,
      (blank_expression EXPR_COLUMN_NAME [])\<lparr>e_type := FIELD_STRING\<rparr>,
      (blank_expression EXPR_AGGREGATE [])\<lparr>e_type := FIELD_INT, e_agg := Some 0\<rparr>]"

definition sample_store :: "(int, unit) store" where
  "sample_store = \<lparr>exprs = sample_exprs, logics = [], rownums = []\<rparr>"

definition sample_row :: "string \<Rightarrow> row_record" where
  "sample_row t = (record_construct 0)\<lparr>rec_fields := \<lparr>vdata = [Some (view_of t), None], vsize = 1, valloc = 2\<rparr>, row_src_idx := 0\<rparr>"

definition sample_count :: "int aggregate" where
  "sample_count = (aggregate_construct AGG_COUNT)\<lparr>agg_call := Some Agg_count, agg_data_type := FIELD_INT\<rparr>"

lemma sample_column:
  "evaluates (\<lambda>s. s = sample_store) (get_stringview (expr_getters sample_ext [sample_row t] 1) 0) (view_of t)"
proof -
  have "get_stringview (expr_getters sample_ext [sample_row t] (Suc 0)) 0 sample_store = (Good (view_of t), sample_store)"
    using column_stringview [of 0 sample_store 1 0 0 "[sample_row t]" sample_ext 0]
    by (simp add: sample_store_def sample_exprs_def blank_expression_def sample_row_def vec_ok_def vec_list_def)
  then show ?thesis by (simp add: evaluates_def)
qed

lemma sample_count_row:
  "evaluates I (agg_row (x_flt sample_ext) G sample_count \<lparr>agg_value = UInt (of_nat n), auxdata = UInt 0, qty = of_nat n\<rparr>)
    \<lparr>agg_value = UInt (of_nat (n + 1)), auxdata = UInt 0, qty = of_nat (n + 1)\<rparr>"
  by (simp add: evaluates_def agg_row_def sample_count_def aggregate_construct_def call_aggregate_def count_step_def as_int_def outA_def add.commute)

text \<open>A second store: a text, a number, and the COUNT, SUM and AVG of the number.\<close>

definition sales_exprs :: "int expression list" where
  "sales_exprs =
     [(blank_expression EXPR_COLUMN_NAME [])\<lparr>e_type := FIELD_STRING, data_source := Some 1\<rparr>,
      (blank_expression EXPR_COLUMN_NAME [])\<lparr>e_type := FIELD_STRING\<rparr>,
      (blank_expression EXPR_AGGREGATE [])\<lparr>e_type := FIELD_INT, e_agg := Some 0\<rparr>,
      (blank_expression EXPR_AGGREGATE [])\<lparr>e_type := FIELD_INT, e_agg := Some 1\<rparr>,
      (blank_expression EXPR_AGGREGATE [])\<lparr>e_type := FIELD_INT, e_agg := Some 2\<rparr>,
      (blank_expression EXPR_COLUMN_NAME [])\<lparr>e_type := FIELD_INT, data_source := Some 6\<rparr>,
      (blank_expression EXPR_COLUMN_NAME [])\<lparr>e_type := FIELD_INT, e_index := 1\<rparr>]"

definition sales_store :: "(int, unit) store" where
  "sales_store = \<lparr>exprs = sales_exprs, logics = [], rownums = []\<rparr>"

definition sales_row :: "string \<times> string list \<Rightarrow> row_record" where
  "sales_row r = (record_construct 0)\<lparr>rec_fields := \<lparr>vdata = map (Some \<circ> view_of) (fst r # snd r) @ [None],
     vsize = 1 + length (snd r), valloc = 2 + length (snd r)\<rparr>, row_src_idx := 0\<rparr>"

definition sales_aggs :: "int aggregate list" where
  "sales_aggs =
     [sample_count,
      (aggregate_construct AGG_SUM)\<lparr>agg_call := Some Agg_sum_i, agg_args := [5], agg_data_type := FIELD_INT\<rparr>,
      (aggregate_construct AGG_AVG)\<lparr>agg_call := Some Agg_avg_i, agg_args := [5], agg_data_type := FIELD_INT\<rparr>]"

lemma sales_vec: "vec_ok (rec_fields (sales_row r))" "vsize (rec_fields (sales_row r)) = 1 + length (snd r)"
    "vec_list (rec_fields (sales_row r)) = map (Some \<circ> view_of) (fst r # snd r)"
    "row_src_idx (sales_row r) = 0"
  by (auto simp: sales_row_def vec_ok_def vec_list_def)

lemma sales_key: "evaluates (\<lambda>s. s = sales_store) (get_stringview (expr_getters sample_ext [sales_row r] 1) 0) (view_of (fst r))"
proof -
  have "get_stringview (expr_getters sample_ext [sales_row r] (Suc 0)) 0 sales_store = (Good (view_of (fst r)), sales_store)"
    using column_stringview [of 0 sales_store 1 0 0 "[sales_row r]" sample_ext 0] sales_vec [of r]
    by (simp add: sales_store_def sales_exprs_def blank_expression_def)
  then show ?thesis by (simp add: evaluates_def)
qed

definition sales_num :: "string \<times> string list \<Rightarrow> i64" where
  "sales_num r = (case snd r of [] \<Rightarrow> 0 | t # _ \<Rightarrow> the (str2long t))"

lemma sales_number:
  assumes "\<forall>t \<in> set (snd r). view_to_int (view_of t) = Good (the (str2long t))"
  shows "reads (\<lambda>s. s = sales_store) (get_int (expr_getters sample_ext [sales_row r] 1) 5) (Some 0) (sales_num r)"
proof -
  have "get_int (expr_getters sample_ext [sales_row r] (Suc 0)) 5 sales_store =
      (if snd r = [] then Null (Some 0) else Good (sales_num r), sales_store)"
    using column_int [of 5 sales_store 6 0 1 "[sales_row r]" sample_ext 0] sales_vec [of r] assms
    by (auto simp: sales_store_def sales_exprs_def blank_expression_def sales_num_def neq_Nil_conv split: list.splits)
  then show ?thesis by (auto simp: reads_def sales_num_def split: if_splits)
qed

definition sales_rows :: "(string \<times> string list) list" where
  "sales_rows = [(''Ab'', [''7'']), (''c'', [''5'']), (''aB '', [''4'']), (''d'', [])]"

text \<open>The results of the three aggregates over the rows of a group.\<close>

definition sales_res :: "nat \<Rightarrow> (string \<times> string list) list \<Rightarrow> int aggresult" where
  "sales_res j ms =
     (if j = 0 then \<lparr>agg_value = UInt (of_nat (length ms)), auxdata = UInt 0, qty = of_nat (length ms)\<rparr>
      else case feed ((if j = 1 then sum_i else avg_i) (x_flt sample_ext)) zero_result (map sales_num ms) of
             Good r \<Rightarrow> r | _ \<Rightarrow> zero_result)"

definition sales_step :: "nat \<Rightarrow> (string \<times> string list) list \<Rightarrow> string \<times> string list \<Rightarrow> bool" where
  "sales_step j ms row = (case (if j = 1 then sum_i else avg_i) (x_flt sample_ext) (sales_res j ms) (sales_num row) of
     Good r \<Rightarrow> sales_res j (ms @ [row]) = r\<lparr>qty := qty r + 1\<rparr> | _ \<Rightarrow> False)"

lemma sales_steps:
  assumes "j < length sales_aggs" "row \<in> set sales_rows" "ms = (if fst row = ''aB '' then [(''Ab'', [''7''])] else [])"
  shows "evaluates (\<lambda>s. s = sales_store) (agg_row (x_flt sample_ext) (expr_getters sample_ext [sales_row row] 1) (sales_aggs ! j) (sales_res j ms))
    (sales_res j (ms @ [row]))"
proof -
  have "list_all (\<lambda>row. list_all (\<lambda>t. view_to_int (view_of t) = Good (the (str2long t))) (snd row)) sales_rows" by code_simp
  then have num: "reads (\<lambda>s. s = sales_store) (get_int (expr_getters sample_ext [sales_row row] 1) 5) (Some 0) (sales_num row)"
    using assms(2) by (intro sales_number) (auto simp: list_all_iff)
  have "sales_step j ms row" if "j = 1 \<or> j = 2"
  proof -
    have "list_all (\<lambda>row. list_all (\<lambda>j. sales_step j (if fst row = ''aB '' then [(''Ab'', [''7''])] else []) row) [1, 2]) sales_rows" by code_simp
    then have "\<forall>j \<in> set [1, 2]. sales_step j (if fst row = ''aB '' then [(''Ab'', [''7''])] else []) row"
      using assms(2) unfolding list_all_iff by blast
    then show ?thesis using that unfolding assms(3) by auto
  qed
  then have step: "\<exists>r. (if j = 1 then sum_i else avg_i) (x_flt sample_ext) (sales_res j ms) (sales_num row) = Good r \<and>
      sales_res j (ms @ [row]) = r\<lparr>qty := qty r + 1\<rparr>" if "j = 1 \<or> j = 2"
    using that unfolding sales_step_def by (auto split: outcome.splits)
  have "j < 3" using assms(1) by (simp add: sales_aggs_def)
  then consider "j = 0" | "j = 1" | "j = 2" by linarith
  then show ?thesis
  proof cases
    case 1
    then show ?thesis using sample_count_row [of _ _ "length ms"] by (simp add: sales_aggs_def sales_res_def)
  next
    case 2
    then obtain r where "sum_i (x_flt sample_ext) (sales_res j ms) (sales_num row) = Good r" "sales_res j (ms @ [row]) = r\<lparr>qty := qty r + 1\<rparr>" using step by auto
    then show ?thesis using 2 num by (intro agg_row_int [where i = 5 and step = "sum_i (x_flt sample_ext)"]) (auto simp: sales_aggs_def aggregate_construct_def)
  next
    case 3
    then obtain r where "avg_i (x_flt sample_ext) (sales_res j ms) (sales_num row) = Good r" "sales_res j (ms @ [row]) = r\<lparr>qty := qty r + 1\<rparr>" using step by auto
    then show ?thesis using 3 num by (intro agg_row_int [where i = 5 and step = "avg_i (x_flt sample_ext)"]) (auto simp: sales_aggs_def aggregate_construct_def)
  qed
qed

end
