(* ===== verification/Node.thy ===== *)
theory Node
  imports FqlPrelude
begin

text \<open>
  Doubly linked lists on a heap (util/node.c). A heap is a partial map from addresses to nodes,
  \<open>NULL\<close> is \<open>None\<close>, and following a pointer to a node that is not allocated is a fault. The list
  itself is the pointer to its first node; it serves as stack, queue and sequence. Allocation
  takes the fresh address as an argument. The laws relate a list on the heap to the list of
  its addresses and data (\<open>dlist\<close>) and leave every other address as it is.
\<close>

section \<open>Nodes\<close>

record 'd node =
  ndata :: 'd
  nprev :: "nat option"
  nnext :: "nat option"

type_synonym 'd heap = "nat \<Rightarrow> 'd node option"

definition set_next :: "'d heap \<Rightarrow> nat \<Rightarrow> nat option \<Rightarrow> 'd heap option" where
  "set_next h a v = do { c \<leftarrow> h a; Some (h(a \<mapsto> c\<lparr>nnext := v\<rparr>)) }"

definition set_prev :: "'d heap \<Rightarrow> nat \<Rightarrow> nat option \<Rightarrow> 'd heap option" where
  "set_prev h a v = do { c \<leftarrow> h a; Some (h(a \<mapsto> c\<lparr>nprev := v\<rparr>)) }"

section \<open>Operations\<close>

text \<open>\<open>node_top\<close> and \<open>node_bottom\<close> follow the pointers and do not return on a cycle.\<close>

partial_function (option) walk_prev :: "'d heap \<Rightarrow> nat \<Rightarrow> nat option" where
  "walk_prev h a = do { c \<leftarrow> h a; case nprev c of None \<Rightarrow> Some a | Some b \<Rightarrow> walk_prev h b }"

partial_function (option) walk_next :: "'d heap \<Rightarrow> nat \<Rightarrow> nat option" where
  "walk_next h a = do { c \<leftarrow> h a; case nnext c of None \<Rightarrow> Some a | Some b \<Rightarrow> walk_next h b }"

definition node_top :: "'d heap \<Rightarrow> nat option \<Rightarrow> nat option option" where
  "node_top h self = (case self of None \<Rightarrow> Some None | Some a \<Rightarrow> map_option Some (walk_prev h a))"

definition node_bottom :: "'d heap \<Rightarrow> nat option \<Rightarrow> nat option option" where
  "node_bottom h self = (case self of None \<Rightarrow> Some None | Some a \<Rightarrow> map_option Some (walk_next h a))"

definition node_front :: "'d heap \<Rightarrow> nat option \<Rightarrow> nat option option" where
  "node_front h self = (case self of None \<Rightarrow> Some None | Some a \<Rightarrow> map_option Some (walk_prev h a))"

definition node_back :: "'d heap \<Rightarrow> nat option \<Rightarrow> nat option option" where
  "node_back h self = (case self of None \<Rightarrow> Some None | Some a \<Rightarrow> map_option Some (walk_next h a))"

definition node_export :: "'d heap \<Rightarrow> nat option \<Rightarrow> 'd heap option" where
  "node_export h export = (case export of None \<Rightarrow> Some h | Some a \<Rightarrow> do {
     c \<leftarrow> h a;
     h1 \<leftarrow> (case nnext c of None \<Rightarrow> Some h | Some b \<Rightarrow> set_prev h b (nprev c));
     c1 \<leftarrow> h1 a;
     h2 \<leftarrow> (case nprev c1 of None \<Rightarrow> Some h1 | Some b \<Rightarrow> set_next h1 b (nnext c1));
     h3 \<leftarrow> set_next h2 a None;
     set_prev h3 a None
   })"

text \<open>\<open>_node_remove\<close> frees the node and hands out its data.\<close>

definition node_remove_at :: "'d heap \<Rightarrow> nat option \<Rightarrow> ('d option \<times> 'd heap) option" where
  "node_remove_at h p = (case p of None \<Rightarrow> Some (None, h) | Some a \<Rightarrow> do {
     c \<leftarrow> h a;
     h1 \<leftarrow> node_export h (Some a);
     Some (Some (ndata c), h1(a := None))
   })"

definition node_pop_head :: "'d heap \<Rightarrow> nat option \<Rightarrow> (nat option \<times> nat option) option" where
  "node_pop_head h head = (case head of None \<Rightarrow> Some (None, None) | Some a \<Rightarrow> do {
     c \<leftarrow> h a;
     Some (Some a, nnext c)
   })"

definition node_pop_export :: "'d heap \<Rightarrow> nat option \<Rightarrow> (nat option \<times> 'd heap \<times> nat option) option" where
  "node_pop_export h head = do {
     (oldhead, head') \<leftarrow> node_pop_head h head;
     h' \<leftarrow> node_export h oldhead;
     Some (oldhead, h', head')
   }"

definition node_pop :: "'d heap \<Rightarrow> nat option \<Rightarrow> ('d option \<times> 'd heap \<times> nat option) option" where
  "node_pop h head = do {
     (oldhead, head') \<leftarrow> node_pop_head h head;
     (d, h') \<leftarrow> node_remove_at h oldhead;
     Some (d, h', head')
   }"

definition node_push_import :: "'d heap \<Rightarrow> nat option \<Rightarrow> nat \<Rightarrow> ('d heap \<times> nat option) option" where
  "node_push_import h head imp = do {
     h1 \<leftarrow> set_next h imp head;
     h2 \<leftarrow> (case head of None \<Rightarrow> Some h1 | Some b \<Rightarrow> set_prev h1 b (Some imp));
     h3 \<leftarrow> set_prev h2 imp None;
     Some (h3, Some imp)
   }"

definition node_push :: "'d heap \<Rightarrow> nat option \<Rightarrow> nat \<Rightarrow> 'd \<Rightarrow> ('d heap \<times> nat option) option" where
  "node_push h head fresh d =
     node_push_import (h(fresh \<mapsto> \<lparr>ndata = d, nprev = None, nnext = head\<rparr>)) head fresh"

definition node_enqueue_import :: "'d heap \<Rightarrow> nat option \<Rightarrow> nat \<Rightarrow> ('d heap \<times> nat option) option" where
  "node_enqueue_import h head imp = do {
     back \<leftarrow> node_back h head;
     h1 \<leftarrow> (case back of None \<Rightarrow> Some h
        | Some b \<Rightarrow> do { h1 \<leftarrow> set_prev h imp (Some b); set_next h1 b (Some imp) });
     let head' = (case head of None \<Rightarrow> Some imp | Some a \<Rightarrow> Some a);
     h2 \<leftarrow> set_next h1 imp None;
     Some (h2, head')
   }"

definition node_enqueue :: "'d heap \<Rightarrow> nat option \<Rightarrow> nat \<Rightarrow> 'd \<Rightarrow> ('d heap \<times> nat option) option" where
  "node_enqueue h head fresh d =
     node_enqueue_import (h(fresh \<mapsto> \<lparr>ndata = d, nprev = None, nnext = None\<rparr>)) head fresh"

fun node_at :: "'d heap \<Rightarrow> nat option \<Rightarrow> nat \<Rightarrow> nat option option" where
  "node_at h None idx = Some None"
| "node_at h (Some a) 0 = Some (Some a)"
| "node_at h (Some a) (Suc idx) = do { c \<leftarrow> h a; node_at h (nnext c) idx }"

definition node_data_at :: "'d heap \<Rightarrow> nat option \<Rightarrow> nat \<Rightarrow> 'd option option" where
  "node_data_at h head idx = do {
     p \<leftarrow> node_at h head idx;
     case p of None \<Rightarrow> Some None | Some a \<Rightarrow> map_option (\<lambda>c. Some (ndata c)) (h a)
   }"

partial_function (option) count_from :: "'d heap \<Rightarrow> nat \<Rightarrow> nat \<Rightarrow> nat option" where
  "count_from h a count = do { c \<leftarrow> h a; case nnext c of None \<Rightarrow> Some count | Some b \<Rightarrow> count_from h b (count + 1) }"

definition node_count :: "'d heap \<Rightarrow> nat option \<Rightarrow> nat option" where
  "node_count h head = (case head of None \<Rightarrow> Some 0 | Some a \<Rightarrow> count_from h a 1)"

definition node_remove :: "'d heap \<Rightarrow> nat option \<Rightarrow> nat option \<Rightarrow> ('d option \<times> 'd heap \<times> nat option) option" where
  "node_remove h head p = (case p of None \<Rightarrow> Some (None, h, head) | Some a \<Rightarrow>
     if head = Some a then node_pop h head
     else do { (d, h') \<leftarrow> node_remove_at h (Some a); Some (d, h', head) })"

text \<open>\<open>node_free\<close> and its variants pop until the list is empty; the data come out in order.\<close>

partial_function (option) pop_all :: "'d heap \<Rightarrow> nat option \<Rightarrow> 'd list \<Rightarrow> ('d list \<times> 'd heap) option" where
  "pop_all h head out = (case head of None \<Rightarrow> Some (out, h) | Some a \<Rightarrow> do {
     (d, h', head') \<leftarrow> node_pop h head;
     pop_all h' head' (case d of None \<Rightarrow> out | Some x \<Rightarrow> out @ [x])
   })"

definition node_free :: "'d heap \<Rightarrow> nat option \<Rightarrow> ('d list \<times> 'd heap) option" where
  "node_free h head = do { top \<leftarrow> node_top h head; pop_all h top [] }"

section \<open>Lists on the heap\<close>

definition first :: "(nat \<times> 'd) list \<Rightarrow> nat option \<Rightarrow> nat option" where
  "first as nx = (case as of [] \<Rightarrow> nx | (a, d) # _ \<Rightarrow> Some a)"

fun linked :: "'d heap \<Rightarrow> nat option \<Rightarrow> (nat \<times> 'd) list \<Rightarrow> nat option \<Rightarrow> bool" where
  "linked h pr [] nx \<longleftrightarrow> True"
| "linked h pr ((a, d) # as) nx \<longleftrightarrow>
     h a = Some \<lparr>ndata = d, nprev = pr, nnext = first as nx\<rparr> \<and> linked h (Some a) as nx"

definition end_of :: "nat option \<Rightarrow> (nat \<times> 'd) list \<Rightarrow> nat option" where
  "end_of pr as = (if as = [] then pr else Some (fst (last as)))"

definition dlist :: "'d heap \<Rightarrow> nat option \<Rightarrow> (nat \<times> 'd) list \<Rightarrow> bool" where
  "dlist h p as \<longleftrightarrow> p = first as None \<and> linked h None as None \<and> distinct (map fst as)"

lemma first_simps [simp]: "first [] nx = nx" "first ((a, d) # as) nx = Some a"
  by (simp_all add: first_def)

lemma first_append: "first (as @ bs) nx = first as (first bs nx)"
  by (cases as) (auto simp: first_def)

lemma end_of_simps [simp]: "end_of pr [] = pr" "end_of pr (as @ [(a, d)]) = Some a"
  "end_of pr ((a, d) # as) = end_of (Some a) as"
  by (auto simp: end_of_def)

lemma linked_append:
  "linked h pr (as @ bs) nx \<longleftrightarrow> linked h pr as (first bs nx) \<and> linked h (end_of pr as) bs nx"
  by (induction h pr as "first bs nx" rule: linked.induct) (auto simp: first_append)

lemma linked_upd [simp]: "x \<notin> fst ` set as \<Longrightarrow> linked (h(x := v)) pr as nx = linked h pr as nx"
  by (induction as arbitrary: pr) auto

lemma linked_alloc: "linked h pr as nx \<Longrightarrow> (x, d) \<in> set as \<Longrightarrow> h x \<noteq> None"
  by (induction as arbitrary: pr) auto

lemma walk_next_linked: "linked h pr ((a, d) # as) None \<Longrightarrow> walk_next h a = end_of (Some a) as"
proof (induction as arbitrary: a d pr)
  case Nil
  then show ?case by (simp add: walk_next.simps)
next
  case (Cons p as)
  obtain b e where p: "p = (b, e)" by (cases p)
  show ?case using Cons.IH [of "Some a" b e] Cons.prems by (auto simp: p walk_next.simps)
qed

lemma node_back_dlist: "dlist h p as \<Longrightarrow> node_back h p = Some (end_of None as)"
proof (cases as)
  case (Cons q bs)
  obtain a d where q: "q = (a, d)" by (cases q)
  assume "dlist h p as"
  then have "p = Some a" "walk_next h a = end_of (Some a) bs"
    using walk_next_linked [of h None a d bs] by (simp_all add: dlist_def Cons q)
  moreover have "end_of (Some a) bs \<noteq> None" by (simp add: end_of_def)
  ultimately show ?thesis by (auto simp: node_back_def Cons q)
qed (simp add: dlist_def node_back_def)

lemma node_top_dlist: "dlist h p as \<Longrightarrow> node_top h p = Some p"
  by (cases as) (auto simp: dlist_def node_top_def walk_prev.simps)

lemma node_at_dlist:
  "linked h pr as None \<Longrightarrow> node_at h (first as None) idx = Some (if idx < length as then Some (fst (as ! idx)) else None)"
proof (induction as arbitrary: pr idx)
  case (Cons p as)
  obtain a d where p: "p = (a, d)" by (cases p)
  show ?case using Cons.IH [of "Some a"] Cons.prems by (cases idx) (auto simp: p)
qed simp

lemma count_from_linked: "linked h pr ((a, d) # as) None \<Longrightarrow> count_from h a n = Some (n + length as)"
proof (induction as arbitrary: a d pr n)
  case Nil
  then show ?case by (simp add: count_from.simps)
next
  case (Cons p as)
  obtain b e where p: "p = (b, e)" by (cases p)
  show ?case using Cons.IH [of "Some a" b e "n + 1"] Cons.prems by (auto simp: p count_from.simps)
qed

lemma node_count_dlist: "dlist h p as \<Longrightarrow> node_count h p = Some (length as)"
  using count_from_linked [of h None "fst (hd as)" "snd (hd as)" "tl as" 1]
  by (cases as) (auto simp: dlist_def node_count_def)

section \<open>What the operations do to the list\<close>

lemma node_push_import_dlist:
  assumes "dlist h p as" "h x = Some c" "x \<notin> fst ` set as"
  shows "yields (node_push_import h p x) (\<lambda>(h', p'). dlist h' p' ((x, ndata c) # as) \<and> p' = Some x \<and>
    (\<forall>y. y \<noteq> x \<and> y \<notin> fst ` set as \<longrightarrow> h' y = h y))"
proof (cases as)
  case Nil
  then show ?thesis using assms by (auto simp: node_push_import_def dlist_def set_next_def set_prev_def)
next
  case (Cons q bs)
  obtain b d where q: "q = (b, d)" by (cases q)
  show ?thesis using assms by (auto simp: Cons q node_push_import_def dlist_def set_next_def set_prev_def)
qed

lemma linked_set_end:
  assumes "linked h pr (as @ [(z, d)]) nx" "z \<notin> fst ` set as"
  shows "linked (h(z \<mapsto> \<lparr>ndata = d, nprev = end_of pr as, nnext = nx'\<rparr>)) pr (as @ [(z, d)]) nx'"
  using assms by (simp add: linked_append)

lemma node_enqueue_import_dlist:
  assumes "dlist h p as" "h x = Some c" "x \<notin> fst ` set as" "as = [] \<longrightarrow> nprev c = None"
  shows "yields (node_enqueue_import h p x) (\<lambda>(h', p'). dlist h' p' (as @ [(x, ndata c)]) \<and>
    (\<forall>y. y \<noteq> x \<and> y \<notin> fst ` set as \<longrightarrow> h' y = h y))"
proof (cases as rule: rev_cases)
  case Nil
  then show ?thesis using assms
    by (auto simp: node_enqueue_import_def node_back_def dlist_def set_next_def set_prev_def intro: node.equality)
next
  case (snoc bs q)
  obtain z d where q: "q = (z, d)" by (cases q)
  have b: "node_back h p = Some (Some z)" using node_back_dlist [OF assms(1)] by (simp add: snoc q)
  obtain a where p: "p = Some a" using assms(1) by (cases bs) (auto simp: dlist_def snoc q)
  have h: "h z = Some \<lparr>ndata = d, nprev = end_of None bs, nnext = None\<rparr>"
    using assms(1) by (simp add: dlist_def snoc q linked_append)
  have xz: "x \<noteq> z" "x \<notin> fst ` set bs" "z \<notin> fst ` set bs" using assms(1,3) by (auto simp: snoc q dlist_def)
  have pf: "first (bs @ [(z, d), (x, ndata c)]) None = Some a"
    using assms(1) p by (simp add: dlist_def snoc q first_append)
  have l: "linked h None bs (Some z)" using assms(1) by (simp add: dlist_def snoc q linked_append)
  have ds: "distinct (map fst bs)" using assms(1) by (simp add: dlist_def snoc q)
  show ?thesis using assms(2) h xz pf l ds
    by (auto simp: node_enqueue_import_def b [unfolded p] p snoc q set_next_def set_prev_def dlist_def linked_append)
qed

lemma node_export_dlist:
  assumes "linked h None (as @ (x, d) # bs) None" "distinct (map fst (as @ (x, d) # bs))"
  shows "yields (node_export h (Some x)) (\<lambda>h'. linked h' None (as @ bs) None \<and>
    h' x = Some \<lparr>ndata = d, nprev = None, nnext = None\<rparr> \<and>
    (\<forall>y. y \<noteq> x \<and> y \<notin> fst ` set (as @ bs) \<longrightarrow> h' y = h y))"
proof -
  have hx: "h x = Some \<lparr>ndata = d, nprev = end_of None as, nnext = first bs None\<rparr>"
    using assms(1) by (simp add: linked_append)
  have l: "linked h None as (Some x)" "linked h (Some x) bs None" using assms(1) by (simp_all add: linked_append)
  show ?thesis
  proof (cases bs)
    case Nil
    show ?thesis
    proof (cases as rule: rev_cases)
      case Nil2: Nil
      show ?thesis using hx by (simp add: Nil Nil2 node_export_def set_next_def set_prev_def)
    next
      case (snoc cs q)
      obtain z e where q: "q = (z, e)" by (cases q)
      show ?thesis using hx l assms(2)
        by (auto simp: Nil snoc q node_export_def set_next_def set_prev_def linked_append)
    qed
  next
    case (Cons r ds)
    obtain b f where r: "r = (b, f)" by (cases r)
    show ?thesis
    proof (cases as rule: rev_cases)
      case Nil2: Nil
      show ?thesis using hx l assms(2) by (auto simp: Cons r Nil2 node_export_def set_next_def set_prev_def)
    next
      case (snoc cs q)
      obtain z e where q: "q = (z, e)" by (cases q)
      show ?thesis using hx l assms(2)
        by (auto simp: Cons r snoc q node_export_def set_next_def set_prev_def linked_append)
    qed
  qed
qed

lemma node_pop_export_dlist:
  assumes "dlist h p ((x, d) # bs)"
  shows "yields (node_pop_export h p) (\<lambda>(y, h', p'). y = Some x \<and> dlist h' p' bs \<and>
    h' x = Some \<lparr>ndata = d, nprev = None, nnext = None\<rparr> \<and>
    (\<forall>y. y \<noteq> x \<and> y \<notin> fst ` set bs \<longrightarrow> h' y = h y))"
proof -
  have a: "linked h None ([] @ (x, d) # bs) None" "distinct (map fst ([] @ (x, d) # bs))" "p = Some x"
      "h x = Some \<lparr>ndata = d, nprev = None, nnext = first bs None\<rparr>"
    using assms by (simp_all add: dlist_def)
  obtain h' where h': "node_export h (Some x) = Some h'" "linked h' None bs None"
      "h' x = Some \<lparr>ndata = d, nprev = None, nnext = None\<rparr>" "\<forall>y. y \<noteq> x \<and> y \<notin> fst ` set bs \<longrightarrow> h' y = h y"
    using node_export_dlist [OF a(1,2)] by (auto simp: yields_exists)
  then show ?thesis using a by (auto simp: node_pop_export_def node_pop_head_def dlist_def)
qed

lemma node_remove_at_dlist:
  assumes "linked h None (as @ (x, d) # bs) None" "distinct (map fst (as @ (x, d) # bs))"
  shows "yields (node_remove_at h (Some x)) (\<lambda>(r, h'). r = Some d \<and> linked h' None (as @ bs) None \<and> h' x = None \<and>
    (\<forall>y. y \<noteq> x \<and> y \<notin> fst ` set (as @ bs) \<longrightarrow> h' y = h y))"
proof -
  obtain h' where h': "node_export h (Some x) = Some h'" "linked h' None (as @ bs) None"
      "\<forall>y. y \<noteq> x \<and> y \<notin> fst ` set (as @ bs) \<longrightarrow> h' y = h y"
    using node_export_dlist [OF assms] by (auto simp: yields_exists)
  have "x \<notin> fst ` set (as @ bs)" using assms(2) by auto
  moreover have "h x = Some \<lparr>ndata = d, nprev = end_of None as, nnext = first bs None\<rparr>"
    using assms(1) by (simp add: linked_append)
  ultimately show ?thesis using h' by (simp add: node_remove_at_def)
qed

lemma node_pop_dlist:
  assumes "dlist h p ((x, d) # bs)"
  shows "yields (node_pop h p) (\<lambda>(r, h', p'). r = Some d \<and> dlist h' p' bs \<and> h' x = None \<and>
    (\<forall>y. y \<noteq> x \<and> y \<notin> fst ` set bs \<longrightarrow> h' y = h y))"
proof -
  have a: "linked h None ([] @ (x, d) # bs) None" "distinct (map fst ([] @ (x, d) # bs))" "p = Some x"
      "h x = Some \<lparr>ndata = d, nprev = None, nnext = first bs None\<rparr>"
    using assms by (simp_all add: dlist_def)
  then show ?thesis using node_remove_at_dlist [OF a(1,2)]
    by (auto simp: node_pop_def node_pop_head_def dlist_def yields_exists)
qed

lemma node_remove_dlist:
  assumes "dlist h p (as @ (x, d) # bs)"
  shows "yields (node_remove h p (Some x)) (\<lambda>(r, h', p'). r = Some d \<and> dlist h' p' (as @ bs) \<and> h' x = None \<and>
    (\<forall>y. y \<noteq> x \<and> y \<notin> fst ` set (as @ bs) \<longrightarrow> h' y = h y))"
proof (cases as)
  case Nil
  then show ?thesis using node_pop_dlist [of h p x d bs] assms by (simp add: node_remove_def dlist_def)
next
  case (Cons q cs)
  obtain a e where q: "q = (a, e)" by (cases q)
  have a: "linked h None (as @ (x, d) # bs) None" "distinct (map fst (as @ (x, d) # bs))" "p = Some a" "a \<noteq> x"
    using assms by (auto simp: dlist_def Cons q)
  then show ?thesis using node_remove_at_dlist [OF a(1,2)]
    by (auto simp: node_remove_def dlist_def yields_exists Cons q)
qed

lemma pop_all_dlist: "dlist h p as \<Longrightarrow> yields (pop_all h p out) (\<lambda>(ds, h'). ds = out @ map snd as \<and>
    (\<forall>y \<in> fst ` set as. h' y = None) \<and> (\<forall>y. y \<notin> fst ` set as \<longrightarrow> h' y = h y))"
proof (induction as arbitrary: h p out)
  case Nil
  then show ?case by (simp add: dlist_def pop_all.simps)
next
  case (Cons q bs)
  obtain x d where q: "q = (x, d)" by (cases q)
  have p: "p = Some x" "x \<notin> fst ` set bs" using Cons.prems by (auto simp: dlist_def q)
  obtain h' p' where h': "node_pop h p = Some (Some d, h', p')" "dlist h' p' bs" "h' x = None"
      "\<forall>y. y \<noteq> x \<and> y \<notin> fst ` set bs \<longrightarrow> h' y = h y"
    using node_pop_dlist [of h p x d bs] Cons.prems by (auto simp: q yields_exists)
  have "pop_all h p out = pop_all h' p' (out @ [d])" using h'(1) by (simp add: p pop_all.simps [of h])
  then show ?case using Cons.IH [OF h'(2), of "out @ [d]"] h'(3,4) p(2) by (auto simp: q yields_exists)
qed

lemma node_free_dlist: "dlist h p as \<Longrightarrow> yields (node_free h p) (\<lambda>(ds, h'). ds = map snd as \<and>
    (\<forall>y \<in> fst ` set as. h' y = None) \<and> (\<forall>y. y \<notin> fst ` set as \<longrightarrow> h' y = h y))"
  using pop_all_dlist [of h p as "[]"] by (simp add: node_free_def node_top_dlist)

lemma node_push_dlist:
  assumes "dlist h p as" "h x = None"
  shows "yields (node_push h p x d) (\<lambda>(h', p'). dlist h' p' ((x, d) # as) \<and> (\<forall>y. y \<noteq> x \<and> y \<notin> fst ` set as \<longrightarrow> h' y = h y))"
proof -
  let ?c = "\<lparr>ndata = d, nprev = None, nnext = p\<rparr>"
  have x: "x \<notin> fst ` set as" using assms linked_alloc [of h None as None x] by (fastforce simp: dlist_def)
  then have "dlist (h(x \<mapsto> ?c)) p as" using assms(1) by (simp add: dlist_def)
  from node_push_import_dlist [OF this _ x, of ?c] show ?thesis
    by (auto simp: node_push_def elim!: yields_mono)
qed

lemma node_enqueue_dlist:
  assumes "dlist h p as" "h x = None"
  shows "yields (node_enqueue h p x d) (\<lambda>(h', p'). dlist h' p' (as @ [(x, d)]) \<and> (\<forall>y. y \<noteq> x \<and> y \<notin> fst ` set as \<longrightarrow> h' y = h y))"
proof -
  let ?c = "\<lparr>ndata = d, nprev = None, nnext = None\<rparr>"
  have x: "x \<notin> fst ` set as" using assms linked_alloc [of h None as None x] by (fastforce simp: dlist_def)
  then have "dlist (h(x \<mapsto> ?c)) p as" using assms(1) by (simp add: dlist_def)
  from node_enqueue_import_dlist [OF this _ x, of ?c] show ?thesis
    by (auto simp: node_enqueue_def elim!: yields_mono)
qed

lemma node_data_at_dlist:
  assumes "dlist h p as"
  shows "node_data_at h p i = Some (if i < length as then Some (snd (as ! i)) else None)"
proof (cases "i < length as")
  case True
  obtain bs x d cs where as: "as = bs @ (x, d) # cs" "length bs = i"
    using id_take_nth_drop [OF True] True by (metis length_take min.absorb4 surj_pair)
  then show ?thesis using assms node_at_dlist [of h None as i] True
    by (auto simp: node_data_at_def dlist_def linked_append nth_append)
next
  case False
  then show ?thesis using assms node_at_dlist [of h None as i] by (simp add: node_data_at_def dlist_def)
qed

section \<open>Histories\<close>

text \<open>
  A client works on one list: it pushes, enqueues, pops, and removes the node at an index. The
  allocator hands out addresses in order, and other lists may live on the same heap.
\<close>

datatype 'd list_op = Push 'd | Enqueue 'd | Pop | Remove nat

fun list_step :: "'d list_op \<Rightarrow> 'd list \<Rightarrow> 'd list" where
  "list_step (Push d) ds = d # ds"
| "list_step (Enqueue d) ds = ds @ [d]"
| "list_step Pop ds = tl ds"
| "list_step (Remove i) ds = take i ds @ drop (i + 1) ds"

fun heap_step :: "'d list_op \<Rightarrow> 'd heap \<times> nat option \<times> nat \<Rightarrow> ('d heap \<times> nat option \<times> nat) option" where
  "heap_step (Push d) (h, p, n) = do { (h', p') \<leftarrow> node_push h p n d; Some (h', p', n + 1) }"
| "heap_step (Enqueue d) (h, p, n) = do { (h', p') \<leftarrow> node_enqueue h p n d; Some (h', p', n + 1) }"
| "heap_step Pop (h, p, n) = do { (d, h', p') \<leftarrow> node_pop h p; Some (h', p', n) }"
| "heap_step (Remove i) (h, p, n) = do { x \<leftarrow> node_at h p i; (d, h', p') \<leftarrow> node_remove h p x; Some (h', p', n) }"

fun heap_run :: "'d list_op list \<Rightarrow> 'd heap \<times> nat option \<times> nat \<Rightarrow> ('d heap \<times> nat option \<times> nat) option" where
  "heap_run [] s = Some s"
| "heap_run (x # xs) s = heap_step x s \<bind> heap_run xs"

definition on_heap :: "'d list \<Rightarrow> 'd heap \<times> nat option \<times> nat \<Rightarrow> bool" where
  "on_heap ds s \<longleftrightarrow> (\<exists>as. dlist (fst s) (fst (snd s)) as \<and> map snd as = ds \<and>
     (\<forall>y. y \<notin> fst ` set as \<longrightarrow> fst s y = None) \<and> (\<forall>y \<in> fst ` set as. y < snd (snd s)))"

lemma heap_step_spec:
  assumes "on_heap ds s"
  shows "yields (heap_step x s) (on_heap (list_step x ds))"
proof -
  obtain h p n where s: "s = (h, p, n)" by (metis prod_cases3)
  obtain as where as: "dlist h p as" "map snd as = ds" "\<forall>y. y \<notin> fst ` set as \<longrightarrow> h y = None"
      and lt: "\<And>y. y \<in> fst ` set as \<Longrightarrow> y < n" using assms by (auto simp: on_heap_def s)
  have lt1: "y < n" "y < Suc n" if "(y, e) \<in> set as" for y e using lt [of y] that by force+
  have nin: "y \<notin> fst ` set as" if "n \<le> y" for y using that lt by (meson leD)
  have del: "on_heap (map snd bs) (h', p', n)"
    if "dlist h' p' bs" "h' y = None" "\<forall>z. z \<noteq> y \<and> z \<notin> fst ` set bs \<longrightarrow> h' z = h z" "fst ` set as = insert y (fst ` set bs)" for h' p' y bs
  proof -
    note t = that
    have "h' z = None" if "z \<notin> fst ` set bs" for z using that t(2-4) as(3) by (metis insertE)
    moreover have "\<forall>z \<in> fst ` set bs. z < n" using lt that(4) by blast
    ultimately show ?thesis using that(1) by (auto simp: on_heap_def)
  qed
  show ?thesis
  proof (cases x)
    case (Push d)
    have "yields (node_push h p n d) (\<lambda>(h', p'). on_heap (d # ds) (h', p', n + 1))"
      by (rule yields_mono [OF node_push_dlist [OF as(1)]]) (use as nin lt1 in \<open>auto simp: on_heap_def intro!: exI [of _ "(n, d) # as"]\<close>)
    then show ?thesis by (auto simp: Push s yields_exists)
  next
    case (Enqueue d)
    have "yields (node_enqueue h p n d) (\<lambda>(h', p'). on_heap (ds @ [d]) (h', p', n + 1))"
      by (rule yields_mono [OF node_enqueue_dlist [OF as(1)]]) (use as nin lt1 in \<open>auto simp: on_heap_def intro!: exI [of _ "as @ [(n, d)]"]\<close>)
    then show ?thesis by (auto simp: Enqueue s yields_exists)
  next
    case Pop
    show ?thesis
    proof (cases as)
      case Nil
      then show ?thesis using as by (auto simp: Pop s dlist_def node_pop_def node_pop_head_def node_remove_at_def on_heap_def)
    next
      case (Cons q bs)
      obtain y d where q: "q = (y, d)" by (cases q)
      have "yields (node_pop h p) (\<lambda>(d, h', p'). on_heap (tl ds) (h', p', n))"
        by (rule yields_mono [OF node_pop_dlist [OF as(1) [unfolded Cons q]]])
          (use as(2) del [of _ _ bs y] in \<open>auto simp: Cons q\<close>)
      then show ?thesis by (auto simp: Pop s yields_exists)
    qed
  next
    case (Remove i)
    have at: "node_at h p i = Some (if i < length as then Some (fst (as ! i)) else None)"
      using node_at_dlist [of h None as i] as(1) by (simp add: dlist_def)
    show ?thesis
    proof (cases "i < length as")
      case False
      then show ?thesis using as at assms by (auto simp: Remove s node_remove_def)
    next
      case True
      obtain bs y d cs where l: "as = bs @ (y, d) # cs" "length bs = i"
        using id_take_nth_drop [OF True] True by (metis length_take min.absorb4 surj_pair)
      have ds: "take i ds @ drop (i + 1) ds = map snd (bs @ cs)" using as(2) l by auto
      have "yields (node_remove h p (Some y)) (\<lambda>(d, h', p'). on_heap (map snd (bs @ cs)) (h', p', n))"
        by (rule yields_mono [OF node_remove_dlist [OF as(1) [unfolded l]]])
          (use del [of _ _ "bs @ cs" y] in \<open>auto simp: l\<close>)
      then show ?thesis using True ds by (auto simp: Remove s at l nth_append yields_exists)
    qed
  qed
qed

lemma heap_run_spec: "on_heap ds s \<Longrightarrow> yields (heap_run xs s) (on_heap (fold list_step xs ds))"
proof (induction xs arbitrary: ds s)
  case (Cons x xs)
  then show ?case using heap_step_spec [OF Cons.prems, of x] by (auto simp: yields_exists)
qed simp

end
