(* ===== verification/Recycle.thy ===== *)
theory Recycle
  imports Node RowRecord Fifo "HOL-Library.Multiset"
begin

text \<open>
  The life of the records of a plan. Every record sits in one node of a heap for good; a row
  group is a list of such nodes, waiting records sit in the root fifos. A join copies records
  (\<open>record_copy\<close>): the copy counts as a reference to its source, whose buffers it shares.
  \<open>fqlprocess_recycle\<close> (lib/fqlprocesses.c) takes a row group apart and returns every record
  that nobody refers to any more to its root fifo.
\<close>

section \<open>Pipes and recycling\<close>

record pipes =
  pheap :: "row_record heap"
  pfifos :: "nat fifo list"

definition upd_rec :: "(row_record \<Rightarrow> row_record) \<Rightarrow> nat \<Rightarrow> 'z pipes_scheme \<Rightarrow> 'z pipes_scheme option" where
  "upd_rec f a s = do { c \<leftarrow> pheap s a; Some (s\<lparr>pheap := (pheap s)(a \<mapsto> c\<lparr>ndata := f (ndata c)\<rparr>)\<rparr>) }"

text \<open>\<open>unsigned\<close> decrement of a reference count.\<close>

definition dec :: "nat \<Rightarrow> nat" where
  "dec n = (if n = 0 then 4294967295 else n - 1)"

definition root_at :: "nat list \<Rightarrow> row_record \<Rightarrow> nat option" where
  "root_at roots r = (if root_fifo_idx r < length roots then Some (roots ! root_fifo_idx r) else None)"

definition add_to :: "nat \<Rightarrow> nat \<Rightarrow> 'z pipes_scheme \<Rightarrow> 'z pipes_scheme option" where
  "add_to i a s = (if i < length (pfifos s) then do {
     f \<leftarrow> fifo_add (pfifos s ! i) (Some a);
     Some (s\<lparr>pfifos := (pfifos s)[i := f]\<rparr>) } else None)"

definition release :: "nat list \<Rightarrow> nat \<Rightarrow> 'z pipes_scheme \<Rightarrow> 'z pipes_scheme option" where
  "release roots a s = do {
     c \<leftarrow> pheap s a;
     let n = dec (ref_count (ndata c));
     if n = 0 then do {
       s1 \<leftarrow> upd_rec (\<lambda>r. r\<lparr>ref_count := 1\<rparr>) a s;
       root \<leftarrow> root_at roots (ndata c);
       add_to root a s1
     } else upd_rec (\<lambda>r. r\<lparr>ref_count := n\<rparr>) a s
   }"

partial_function (option) fqlprocess_recycle :: "nat list \<Rightarrow> 'z pipes_scheme \<Rightarrow> nat option \<Rightarrow> 'z pipes_scheme option" where
  "fqlprocess_recycle roots s rg = (case rg of None \<Rightarrow> Some s | Some _ \<Rightarrow> do {
     (x, h, rg') \<leftarrow> node_pop_export (pheap s) rg;
     a \<leftarrow> x;
     c \<leftarrow> h a;
     let s1 = s\<lparr>pheap := h\<rparr>;
     s2 \<leftarrow> (case rec_copy_node (ndata c) of None \<Rightarrow> Some s1 | Some src \<Rightarrow> do {
        cs \<leftarrow> pheap s1 src;
        s2 \<leftarrow> (if dec (ref_count (ndata cs)) = 0 then fqlprocess_recycle roots s1 (Some src)
           else upd_rec (\<lambda>r. r\<lparr>ref_count := dec (ref_count r)\<rparr>) src s1);
        upd_rec (\<lambda>r. r\<lparr>rec_copy_node := None\<rparr>) a s2
      });
     s3 \<leftarrow> release roots a s2;
     fqlprocess_recycle roots s3 rg'
   })"

text \<open>The row groups left in a buffer, from the iterator on.\<close>

fun recycle_cells :: "nat list \<Rightarrow> 'z pipes_scheme \<Rightarrow> nat option list \<Rightarrow> 'z pipes_scheme option" where
  "recycle_cells roots s [] = Some s"
| "recycle_cells roots s (None # xs) = None"
| "recycle_cells roots s (Some a # xs) = do { s' \<leftarrow> fqlprocess_recycle roots s (Some a); recycle_cells roots s' xs }"

definition fqlprocess_recycle_buffer :: "nat list \<Rightarrow> 'z pipes_scheme \<Rightarrow> nat vec \<Rightarrow> nat \<Rightarrow> ('z pipes_scheme \<times> nat vec \<times> nat) option" where
  "fqlprocess_recycle_buffer roots s buffer iter = do {
     s' \<leftarrow> recycle_cells roots s (drop iter (vec_list buffer));
     Some (s', vec_clear buffer, 0)
   }"

text \<open>\<open>fifo_get_or_wait\<close> on a root fifo; a wait is \<open>None\<close>.\<close>

definition take_from :: "nat \<Rightarrow> 'z pipes_scheme \<Rightarrow> (nat \<times> 'z pipes_scheme) option" where
  "take_from i s = (if i < length (pfifos s) then do {
     (slot, f) \<leftarrow> fifo_get_or_wait (pfifos s ! i);
     x \<leftarrow> vec_at (buf f) slot;
     a \<leftarrow> x;
     Some (a, s\<lparr>pfifos := (pfifos s)[i := f]\<rparr>)
   } else None)"

text \<open>
  How a join makes a row group for one more match: every record of the left group, from the
  last to the first, is copied into a fresh node which is pushed in front of the right record.
\<close>

definition record_copy_at :: "nat \<Rightarrow> nat \<Rightarrow> 'z pipes_scheme \<Rightarrow> 'z pipes_scheme option" where
  "record_copy_at fresh src s = do {
     cf \<leftarrow> pheap s fresh;
     cs \<leftarrow> pheap s src;
     (r, r') \<leftarrow> record_copy (ndata cf) src (ndata cs);
     s1 \<leftarrow> upd_rec (\<lambda>_. r) fresh s;
     upd_rec (\<lambda>_. r') src s1
   }"

partial_function (option) copy_group :: "nat \<Rightarrow> 'z pipes_scheme \<Rightarrow> nat option \<Rightarrow> nat option \<Rightarrow> ('z pipes_scheme \<times> nat option) option" where
  "copy_group aux s left right = (case left of None \<Rightarrow> Some (s, right) | Some l \<Rightarrow> do {
     (fresh, s1) \<leftarrow> take_from aux s;
     s2 \<leftarrow> record_copy_at fresh l s1;
     (h, right') \<leftarrow> node_push_import (pheap s2) right fresh;
     c \<leftarrow> h l;
     copy_group aux (s2\<lparr>pheap := h\<rparr>) (nprev c) right'
   })"

section \<open>The books\<close>

text \<open>
  \<open>L\<close> are the records in row groups, \<open>W\<close> those that are out of their group but still lent to a
  copy, \<open>H\<close> those in the hand of the operation, and the others are in the root fifos.
\<close>

definition rec_of :: "row_record heap \<Rightarrow> nat \<Rightarrow> row_record" where
  "rec_of h a = ndata (the (h a))"

definition copies_of :: "row_record heap \<Rightarrow> nat set \<Rightarrow> nat \<Rightarrow> nat set" where
  "copies_of h L a = {x \<in> L. rec_copy_node (rec_of h x) = Some a}"

definition lone :: "row_record heap \<Rightarrow> nat \<Rightarrow> bool" where
  "lone h a \<longleftrightarrow> h a = Some \<lparr>ndata = rec_of h a, nprev = None, nnext = None\<rparr>"

definition root_list :: "nat list \<Rightarrow> 'z pipes_scheme \<Rightarrow> nat option list" where
  "root_list roots s = concat (map (\<lambda>i. fifo_list (pfifos s ! i)) roots)"

definition rooted :: "nat list \<Rightarrow> 'z pipes_scheme \<Rightarrow> nat set" where
  "rooted roots s = {a. Some a \<in> set (root_list roots s)}"

definition counts_ok :: "row_record heap \<Rightarrow> nat set \<Rightarrow> nat set \<Rightarrow> nat set \<Rightarrow> nat set \<Rightarrow> bool" where
  "counts_ok h L W R H \<longleftrightarrow>
     (\<forall>a \<in> L. ref_count (rec_of h a) = card (copies_of h L a) + 1) \<and>
     (\<forall>a \<in> W. ref_count (rec_of h a) = card (copies_of h L a) \<and> copies_of h L a \<noteq> {} \<and> lone h a) \<and>
     (\<forall>a \<in> R. ref_count (rec_of h a) = 1 \<and> lone h a) \<and>
     (\<forall>a \<in> W \<union> R. rec_copy_node (rec_of h a) = None) \<and>
     (\<forall>x \<in> L. \<forall>a. rec_copy_node (rec_of h x) = Some a \<longrightarrow> a \<in> L \<union> W \<union> H \<and> a \<noteq> x)"

definition assigned :: "nat set \<Rightarrow> 'z pipes_scheme \<Rightarrow> nat \<Rightarrow> nat set" where
  "assigned recs s i = {a \<in> recs. root_fifo_idx (rec_of (pheap s) a) = i}"

definition roots_ok :: "nat set \<Rightarrow> nat list \<Rightarrow> 'z pipes_scheme \<Rightarrow> bool" where
  "roots_ok recs roots s \<longleftrightarrow> finite recs \<and> distinct roots \<and> (\<forall>a \<in> recs. root_fifo_idx (rec_of (pheap s) a) < length roots) \<and>
     (\<forall>i < length roots. roots ! i < length (pfifos s) \<and> fifo_ok (pfifos s ! (roots ! i)) \<and>
        set (fifo_list (pfifos s ! (roots ! i))) \<subseteq> Some ` assigned recs s i \<and>
        card (assigned recs s i) < vsize (buf (pfifos s ! (roots ! i))))"

definition places :: "nat set \<Rightarrow> nat list \<Rightarrow> 'z pipes_scheme \<Rightarrow> nat set \<Rightarrow> nat set \<Rightarrow> nat set \<Rightarrow> bool" where
  "places recs roots s L W H \<longleftrightarrow> roots_ok recs roots s \<and> distinct (root_list roots s) \<and> (\<forall>a \<in> recs. pheap s a \<noteq> None) \<and>
     recs = L \<union> W \<union> H \<union> rooted roots s \<and> L \<inter> W = {} \<and> L \<inter> H = {} \<and> W \<inter> H = {} \<and> (L \<union> W \<union> H) \<inter> rooted roots s = {}"

definition chain :: "row_record heap \<Rightarrow> nat list \<Rightarrow> bool" where
  "chain h g \<longleftrightarrow> dlist h (case g of [] \<Rightarrow> None | a # _ \<Rightarrow> Some a) (map (\<lambda>a. (a, rec_of h a)) g)"

definition books_ok :: "nat set \<Rightarrow> nat list \<Rightarrow> 'z pipes_scheme \<Rightarrow> nat list list \<Rightarrow> nat set \<Rightarrow> bool" where
  "books_ok recs roots s live W \<longleftrightarrow> (\<forall>g \<in> set live. chain (pheap s) g) \<and> distinct (concat live) \<and>
     places recs roots s (set (concat live)) W {} \<and> counts_ok (pheap s) (set (concat live)) W (rooted roots s) {}"

lemma rec_of_upd [simp]: "rec_of (h(a \<mapsto> c)) x = (if x = a then ndata c else rec_of h x)"
  by (simp add: rec_of_def)

lemma upd_rec_eq: "pheap s a = Some c \<Longrightarrow> upd_rec f a s = Some (s\<lparr>pheap := (pheap s)(a \<mapsto> c\<lparr>ndata := f (ndata c)\<rparr>)\<rparr>)"
  by (simp add: upd_rec_def)

lemma root_list_pheap [simp]: "root_list roots (s\<lparr>pheap := h\<rparr>) = root_list roots s"
  by (simp add: root_list_def)

lemma rooted_pheap [simp]: "rooted roots (s\<lparr>pheap := h\<rparr>) = rooted roots s"
  by (simp add: rooted_def)

lemma fifo_list_update:
  assumes "distinct roots" "i < length roots" "roots ! i < length fs" "mset (fifo_list f) = add_mset x (mset (fifo_list (fs ! (roots ! i))))"
  shows "mset (concat (map (\<lambda>j. fifo_list (fs[roots ! i := f] ! j)) roots)) =
    add_mset x (mset (concat (map (\<lambda>j. fifo_list (fs ! j)) roots)))"
proof -
  define r where "r = roots ! i"
  obtain as bs where s: "roots = as @ r # bs" using id_take_nth_drop [OF assms(2)] unfolding r_def by blast
  then have n: "r \<notin> set as" "r \<notin> set bs" using assms(1) by auto
  have eq: "map (\<lambda>j. fifo_list (fs[r := f] ! j)) cs = map (\<lambda>j. fifo_list (fs ! j)) cs" if "r \<notin> set cs" for cs
    using that by (auto intro!: arg_cong [where f = fifo_list] nth_list_update_neq)
  have "r < length fs" "mset (fifo_list f) = add_mset x (mset (fifo_list (fs ! r)))" using assms(3,4) by (simp_all add: r_def)
  then show ?thesis
    unfolding r_def [symmetric] unfolding s map_append list.map eq [OF n(1)] eq [OF n(2)] by simp
qed

lemma add_to_spec:
  assumes P: "places recs roots s L W (insert a H)" and a: "a \<notin> H"
  shows "yields (root_at roots (rec_of (pheap s) a) \<bind> (\<lambda>root. add_to root a s))
    (\<lambda>s'. pheap s' = pheap s \<and> places recs roots s' L W H \<and> rooted roots s' = insert a (rooted roots s))"
proof -
  let ?i = "root_fifo_idx (rec_of (pheap s) a)"
  let ?f = "pfifos s ! (roots ! ?i)"
  have ro: "roots_ok recs roots s" and ar: "a \<in> recs" "a \<notin> rooted roots s" using P by (auto simp: places_def)
  then have i: "?i < length roots" and f: "roots ! ?i < length (pfifos s)" "fifo_ok ?f"
      "set (fifo_list ?f) \<subseteq> Some ` assigned recs s ?i" "card (assigned recs s ?i) < vsize (buf ?f)" "finite recs" "distinct roots"
    by (auto simp: roots_ok_def)
  have sub: "set (fifo_list ?f) \<subseteq> set (root_list roots s)" using i by (auto simp: root_list_def intro!: bexI [of _ "roots ! ?i"])
  have dl: "distinct (fifo_list ?f)"
    using P i by (auto simp: places_def root_list_def distinct_concat_iff)
  have "set (fifo_list ?f) \<subset> Some ` assigned recs s ?i"
    using f(3) ar sub by (auto simp: assigned_def rooted_def)
  then have "card (set (fifo_list ?f)) < card (assigned recs s ?i)"
    using psubset_card_mono [of "Some ` assigned recs s ?i" "set (fifo_list ?f)"] f(5)
    by (simp add: card_image assigned_def)
  then have "fifo_len ?f + 1 < vsize (buf ?f)" using dl f(4) distinct_card [OF dl] by simp
  from fifo_add_spec [OF f(2) this, of "Some a"] obtain g where g: "fifo_add ?f (Some a) = Some g" "fifo_ok g"
      "fifo_list g = fifo_list ?f @ [Some a]" "vsize (buf g) = vsize (buf ?f)" by (auto simp: yields_exists)
  define s' where "s' = s\<lparr>pfifos := (pfifos s)[roots ! ?i := g]\<rparr>"
  have r: "(root_at roots (rec_of (pheap s) a) \<bind> (\<lambda>root. add_to root a s)) = Some s'"
    using i f(1) g(1) by (simp add: root_at_def add_to_def s'_def)
  have m: "mset (root_list roots s') = add_mset (Some a) (mset (root_list roots s))"
    using fifo_list_update [OF f(6) i f(1), of g "Some a"] g(3) by (simp add: root_list_def s'_def)
  then have st: "set (root_list roots s') = insert (Some a) (set (root_list roots s))"
    by (metis set_mset_add_mset_insert set_mset_mset)
  have di: "distinct (root_list roots s')"
    using mset_eq_imp_distinct_iff [of "root_list roots s'" "Some a # root_list roots s"] m P ar(2)
    by (simp add: places_def rooted_def)
  have ro': "roots_ok recs roots s'"
    unfolding roots_ok_def
  proof (intro conjI allI impI ballI)
    fix j assume j: "j < length roots"
    have as: "assigned recs s' j = assigned recs s j" by (simp add: assigned_def s'_def)
    have "pfifos s' ! (roots ! j) = (if j = ?i then g else pfifos s ! (roots ! j))"
      using j i f(1) f(6) by (simp add: s'_def nth_eq_iff_index_eq)
    then show "roots ! j < length (pfifos s')" "fifo_ok (pfifos s' ! (roots ! j))"
        "set (fifo_list (pfifos s' ! (roots ! j))) \<subseteq> Some ` assigned recs s' j"
        "card (assigned recs s' j) < vsize (buf (pfifos s' ! (roots ! j)))"
      using ro j g f ar(1) unfolding as by (auto simp: roots_ok_def s'_def assigned_def)
  qed (use ro in \<open>auto simp: roots_ok_def s'_def\<close>)
  have ri: "rooted roots s' = insert a (rooted roots s)" using st by (auto simp: rooted_def)
  have "pheap s' = pheap s" by (simp add: s'_def)
  moreover have "places recs roots s' L W H" using P ro' di ri a by (auto simp: places_def s'_def)
  ultimately show ?thesis using r ri by simp
qed

section \<open>Links\<close>

definition same_links :: "row_record heap \<Rightarrow> row_record heap \<Rightarrow> bool" where
  "same_links h h' \<longleftrightarrow> (\<forall>x. map_option (\<lambda>c. (nprev c, nnext c)) (h' x) = map_option (\<lambda>c. (nprev c, nnext c)) (h x))"

lemma same_links_refl [simp]: "same_links h h"
  by (simp add: same_links_def)

lemma same_links_trans: "same_links h h' \<Longrightarrow> same_links h' h'' \<Longrightarrow> same_links h h''"
  by (simp add: same_links_def)

lemma same_links_upd [simp]: "h a = Some c \<Longrightarrow> same_links h (h(a \<mapsto> c\<lparr>ndata := d\<rparr>))"
  by (simp add: same_links_def)

lemma same_links_cell:
  assumes "same_links h h'" "h x = Some c"
  shows "h' x = Some \<lparr>ndata = rec_of h' x, nprev = nprev c, nnext = nnext c\<rparr>"
proof -
  have "map_option (\<lambda>c. (nprev c, nnext c)) (h' x) = Some (nprev c, nnext c)"
    using assms by (simp add: same_links_def)
  then obtain c' where "h' x = Some c'" "nprev c' = nprev c" "nnext c' = nnext c" by auto
  then show ?thesis by (simp add: rec_of_def)
qed

lemma lone_links: "same_links h h' \<Longrightarrow> lone h a \<Longrightarrow> lone h' a"
  using same_links_cell by (fastforce simp: lone_def)

lemma linked_links:
  "same_links h h' \<Longrightarrow> linked h pr (map (\<lambda>a. (a, f a)) g) nx \<Longrightarrow> linked h' pr (map (\<lambda>a. (a, rec_of h' a)) g) nx"
proof (induction g arbitrary: pr)
  case (Cons a g)
  have e: "first (map (\<lambda>a. (a, k a)) g) nx = first (map (\<lambda>a. (a, f a)) g) nx" for k :: "nat \<Rightarrow> row_record"
    by (cases g) auto
  show ?case using Cons same_links_cell [OF Cons.prems(1), of a] e [of "rec_of h'"] by simp
qed simp

lemma chain_links: "same_links h h' \<Longrightarrow> chain h g \<Longrightarrow> chain h' g"
  using linked_links [of h h' None "rec_of h" g None] by (cases g) (auto simp: chain_def dlist_def o_def)

text \<open>Outside \<open>A\<close> nothing but reference counts changes.\<close>

definition keeps :: "row_record heap \<Rightarrow> row_record heap \<Rightarrow> nat set \<Rightarrow> bool" where
  "keeps h h' A \<longleftrightarrow> (\<forall>x. x \<notin> A \<longrightarrow> (\<exists>n. rec_of h' x = (rec_of h x)\<lparr>ref_count := n\<rparr>))"

lemma keeps_refl [simp]: "keeps h h A"
proof -
  have "\<exists>n. rec_of h x = (rec_of h x)\<lparr>ref_count := n\<rparr>" for x by (rule exI [of _ "ref_count (rec_of h x)"]) simp
  then show ?thesis by (simp add: keeps_def)
qed

lemma keeps_trans: "keeps h h' A \<Longrightarrow> keeps h' h'' A' \<Longrightarrow> keeps h h'' (A \<union> A')"
  unfolding keeps_def
proof (intro allI impI)
  fix x assume a: "\<forall>x. x \<notin> A \<longrightarrow> (\<exists>n. rec_of h' x = rec_of h x\<lparr>ref_count := n\<rparr>)"
    "\<forall>x. x \<notin> A' \<longrightarrow> (\<exists>n. rec_of h'' x = rec_of h' x\<lparr>ref_count := n\<rparr>)" "x \<notin> A \<union> A'"
  then obtain n n' where "rec_of h' x = rec_of h x\<lparr>ref_count := n\<rparr>" "rec_of h'' x = rec_of h' x\<lparr>ref_count := n'\<rparr>" by blast
  then show "\<exists>n. rec_of h'' x = rec_of h x\<lparr>ref_count := n\<rparr>" by auto
qed

lemma keeps_upd: "h a = Some c \<Longrightarrow> keeps h (h(a \<mapsto> c\<lparr>ndata := (rec_of h a)\<lparr>ref_count := n\<rparr>\<rparr>)) A"
proof -
  assume "h a = Some c"
  have "\<exists>m. rec_of (h(a \<mapsto> c\<lparr>ndata := (rec_of h a)\<lparr>ref_count := n\<rparr>\<rparr>)) x = (rec_of h x)\<lparr>ref_count := m\<rparr>" for x
    by (rule exI [of _ "if x = a then n else ref_count (rec_of h x)"]) simp
  then show ?thesis by (simp add: keeps_def)
qed

lemma keeps_mono: "keeps h h' A \<Longrightarrow> A \<subseteq> B \<Longrightarrow> keeps h h' B"
  by (auto simp: keeps_def)

lemma keeps_same: "keeps h h' A \<Longrightarrow> (\<And>x. rec_of h'' x = rec_of h' x) \<Longrightarrow> keeps h h'' A"
  "keeps h h' A \<Longrightarrow> (\<And>x. rec_of h'' x = rec_of h x) \<Longrightarrow> keeps h'' h' A"
  by (simp_all add: keeps_def)

lemma keeps_copy: "keeps h h' A \<Longrightarrow> x \<notin> A \<Longrightarrow> rec_copy_node (rec_of h' x) = rec_copy_node (rec_of h x)"
  by (auto simp: keeps_def)

section \<open>Recycling keeps the books\<close>

lemma copies_of_upd [simp]:
  "copies_of (h(a \<mapsto> c)) L x = (if a \<in> L then (if rec_copy_node (ndata c) = Some x then insert a (copies_of h L x) else copies_of h L x - {a})
     else copies_of h L x)"
  by (auto simp: copies_of_def)

lemma finite_copies [simp]: "finite L \<Longrightarrow> finite (copies_of h L a)"
  by (simp add: copies_of_def)

lemma places_pheap:
  assumes "places recs roots s L W H" "\<forall>a \<in> recs. h a \<noteq> None" "\<forall>a. root_fifo_idx (rec_of h a) = root_fifo_idx (rec_of (pheap s) a)"
  shows "places recs roots (s\<lparr>pheap := h\<rparr>) L W H"
proof -
  have "roots_ok recs roots s" using assms(1) unfolding places_def by blast
  then have "roots_ok recs roots (s\<lparr>pheap := h\<rparr>)" using assms(3) by (simp add: roots_ok_def assigned_def)
  moreover have "\<forall>a \<in> recs. pheap (s\<lparr>pheap := h\<rparr>) a \<noteq> None" using assms(2) by simp
  ultimately show ?thesis using assms(1) unfolding places_def rooted_pheap root_list_pheap
    by (elim conjE) (intro conjI; assumption)
qed

lemma places_alloc:
  assumes "places recs roots s L W H" "x \<in> L \<union> W \<union> H"
  shows "x \<in> recs" "\<exists>c. pheap s x = Some c"
  using assms unfolding places_def by blast+

lemma places_heap: "places recs roots s L W H \<Longrightarrow> \<forall>a \<in> recs. pheap s a \<noteq> None"
  unfolding places_def by (elim conjE)

lemma places_recs: "places recs roots s L W H \<Longrightarrow> recs = L \<union> W \<union> H \<union> rooted roots s"
  unfolding places_def by (elim conjE)

lemma places_apart:
  assumes "places recs roots s L W H"
  shows "L \<inter> W = {}" "L \<inter> H = {}" "W \<inter> H = {}" "L \<inter> rooted roots s = {}" "W \<inter> rooted roots s = {}" "H \<inter> rooted roots s = {}"
  using assms unfolding places_def by blast+

lemma counts_D:
  assumes "counts_ok h L W R H"
  shows "a \<in> L \<Longrightarrow> ref_count (rec_of h a) = card (copies_of h L a) + 1"
    "a \<in> W \<Longrightarrow> ref_count (rec_of h a) = card (copies_of h L a)"
    "a \<in> W \<Longrightarrow> copies_of h L a \<noteq> {}" "a \<in> W \<Longrightarrow> lone h a"
    "a \<in> R \<Longrightarrow> ref_count (rec_of h a) = 1 \<and> lone h a" "a \<in> W \<union> R \<Longrightarrow> rec_copy_node (rec_of h a) = None"
    "x \<in> L \<Longrightarrow> rec_copy_node (rec_of h x) = Some a \<Longrightarrow> a \<in> L \<union> W \<union> H \<and> a \<noteq> x"
  using assms unfolding counts_ok_def by blast+

lemma places_move:
  assumes "places recs roots s L W H" "L' \<union> W' \<union> H' = L \<union> W \<union> H" "L' \<inter> W' = {}" "L' \<inter> H' = {}" "W' \<inter> H' = {}"
  shows "places recs roots s L' W' H'"
  using assms(1) assms(3-5) unfolding places_def assms(2) by (elim conjE) (intro conjI; assumption)

lemma upd_rec_places:
  assumes "places recs roots s L W H" "pheap s a = Some c" "root_fifo_idx (f (ndata c)) = root_fifo_idx (ndata c)"
  shows "places recs roots (s\<lparr>pheap := (pheap s)(a \<mapsto> c\<lparr>ndata := f (ndata c)\<rparr>)\<rparr>) L W H"
  by (rule places_pheap [OF assms(1)]) (use assms in \<open>auto simp: places_def rec_of_def\<close>)

lemma places_finite: "places recs roots s L W H \<Longrightarrow> finite L"
  by (auto simp: places_def roots_ok_def)

lemma release_spec:
  assumes P: "places recs roots s L W (insert a H)" and a: "a \<notin> H"
    and C: "counts_ok (pheap s) L W (rooted roots s) (insert a H)"
    and r: "lone (pheap s) a" "rec_copy_node (rec_of (pheap s) a) = None"
      "ref_count (rec_of (pheap s) a) = card (copies_of (pheap s) L a) + 1"
  shows "yields (release roots a s) (\<lambda>s'. \<exists>W'. places recs roots s' L W' H \<and>
    counts_ok (pheap s') L W' (rooted roots s') H \<and> same_links (pheap s) (pheap s') \<and>
    (\<forall>x. x \<noteq> a \<longrightarrow> rec_of (pheap s') x = rec_of (pheap s) x) \<and> keeps (pheap s) (pheap s') {} \<and>
    (if copies_of (pheap s) L a = {} then W' = W \<and> rooted roots s' = insert a (rooted roots s)
     else W' = insert a W \<and> rooted roots s' = rooted roots s))"
proof -
  let ?h = "pheap s" and ?c = "\<lparr>ndata = rec_of (pheap s) a, nprev = None, nnext = None\<rparr>"
  have ha: "?h a = Some ?c" using r(1) by (simp add: lone_def)
  have al: "a \<notin> L" "a \<notin> W" "a \<in> recs" "a \<notin> rooted roots s" using P by (auto simp: places_def)
  have d: "dec (ref_count (rec_of ?h a)) = card (copies_of ?h L a)" using r(3) by (simp add: dec_def)
  have fin: "finite (copies_of ?h L a)" using places_finite [OF P] by simp
  show ?thesis
  proof (cases "copies_of ?h L a = {}")
    case True
    let ?s1 = "s\<lparr>pheap := ?h(a \<mapsto> ?c\<lparr>ndata := (rec_of ?h a)\<lparr>ref_count := 1\<rparr>\<rparr>)\<rparr>"
    have P1: "places recs roots ?s1 L W (insert a H)"
      using upd_rec_places [OF P ha, of "\<lambda>r. r\<lparr>ref_count := 1\<rparr>"] by simp
    have ra: "root_at roots (rec_of (pheap ?s1) a) = root_at roots (rec_of ?h a)" by (simp add: root_at_def)
    obtain s2 where s2: "(root_at roots (rec_of ?h a) \<bind> (\<lambda>root. add_to root a ?s1)) = Some s2" "pheap s2 = pheap ?s1"
        "places recs roots s2 L W H" "rooted roots s2 = insert a (rooted roots s)"
      using add_to_spec [OF P1 a] unfolding ra by (auto simp: yields_exists)
    have rel: "release roots a s = Some s2"
      using ha d True s2(1) by (simp add: release_def upd_rec_eq)
    have "rec_copy_node (rec_of ?h x) \<noteq> Some a" if "x \<in> L" for x using True that by (auto simp: copies_of_def)
    then have "counts_ok (pheap s2) L W (rooted roots s2) H"
      using C r(2) al ha unfolding counts_ok_def s2(2,4) by (auto simp: lone_def) blast
    then show ?thesis using rel s2 True ha keeps_upd [of ?h a ?c 1 "{}"] by (auto simp: same_links_def)
  next
    case False
    let ?s1 = "s\<lparr>pheap := ?h(a \<mapsto> ?c\<lparr>ndata := (rec_of ?h a)\<lparr>ref_count := card (copies_of ?h L a)\<rparr>\<rparr>)\<rparr>"
    have "card (copies_of ?h L a) \<noteq> 0" using False fin by simp
    then have rel: "release roots a s = Some ?s1" using ha d by (simp add: release_def upd_rec_eq)
    have "places recs roots ?s1 L W (insert a H)"
      using upd_rec_places [OF P ha, of "\<lambda>r. r\<lparr>ref_count := card (copies_of ?h L a)\<rparr>"] by simp
    then have P1: "places recs roots ?s1 L (insert a W) H" by (rule places_move) (use a al P in \<open>auto simp: places_def\<close>)
    have "counts_ok (pheap ?s1) L (insert a W) (rooted roots ?s1) H"
      using C False r(2) al ha unfolding counts_ok_def by (auto simp: lone_def)
    then show ?thesis using rel P1 False ha keeps_upd [of ?h a ?c "card (copies_of ?h L a)" "{}"] by (auto simp: same_links_def)
  qed
qed

lemma recycle_lone:
  assumes "lone (pheap s) a" "rec_copy_node (rec_of (pheap s) a) = None"
  shows "fqlprocess_recycle roots s (Some a) = release roots a s"
proof -
  let ?c = "\<lparr>ndata = rec_of (pheap s) a, nprev = None, nnext = None\<rparr>"
  have h: "pheap s a = Some ?c" using assms(1) by (simp add: lone_def)
  then have "node_pop_export (pheap s) (Some a) = Some (Some a, pheap s, None)"
    by (auto simp: node_pop_export_def node_pop_head_def node_export_def set_next_def set_prev_def)
  then show ?thesis using h assms(2) by (simp add: fqlprocess_recycle.simps)
qed

text \<open>
  A record taken out of its group lets go of the source it is a copy of: the source goes back
  to its root fifo when this was the last copy and its own group is gone.
\<close>

definition unshare :: "nat list \<Rightarrow> nat \<Rightarrow> nat \<Rightarrow> 'z pipes_scheme \<Rightarrow> 'z pipes_scheme option" where
  "unshare roots a src s1 = do {
     cs \<leftarrow> pheap s1 src;
     s2 \<leftarrow> (if dec (ref_count (ndata cs)) = 0 then fqlprocess_recycle roots s1 (Some src)
        else upd_rec (\<lambda>r. r\<lparr>ref_count := dec (ref_count r)\<rparr>) src s1);
     upd_rec (\<lambda>r. r\<lparr>rec_copy_node := None\<rparr>) a s2
   }"

definition off :: "nat \<Rightarrow> row_record heap \<Rightarrow> nat set \<Rightarrow> bool" where
  "off a h L \<longleftrightarrow> lone h a \<and> rec_copy_node (rec_of h a) = None \<and> ref_count (rec_of h a) = card (copies_of h L a) + 1"

lemma copies_minus: "a \<in> L \<Longrightarrow> rec_copy_node (rec_of h a) = Some src \<Longrightarrow>
    copies_of h (L - {a}) x = (if x = src then copies_of h L x - {a} else copies_of h L x)"
  by (auto simp: copies_of_def)

lemma copies_minus_none: "rec_copy_node (rec_of h a) = None \<Longrightarrow> copies_of h (L - {a}) x = copies_of h L x"
  by (auto simp: copies_of_def)

lemma unshare_spec:
  assumes P: "places recs roots s L W {}" and C: "counts_ok (pheap s) L W (rooted roots s) {}"
    and a: "a \<in> L" "lone (pheap s) a" "rec_copy_node (rec_of (pheap s) a) = Some src"
  shows "yields (unshare roots a src s) (\<lambda>s'. \<exists>W'. places recs roots s' (L - {a}) W' {a} \<and>
    counts_ok (pheap s') (L - {a}) W' (rooted roots s') {a} \<and> off a (pheap s') (L - {a}) \<and>
    same_links (pheap s) (pheap s') \<and>
    keeps (pheap s) (pheap s') {a} \<and>
    (if src \<in> W \<and> copies_of (pheap s) L src = {a} then W' = W - {src} \<and> rooted roots s' = insert src (rooted roots s)
     else W' = W \<and> rooted roots s' = rooted roots s))"
proof -
  let ?h = "pheap s" and ?L = "L - {a}"
  have fin: "finite L" by (rule places_finite [OF P])
  have src: "src \<in> L \<union> W" "src \<noteq> a" using counts_D(7) [OF C a(1,3)] by auto
  have mem: "a \<in> copies_of ?h L src" using a by (simp add: copies_of_def)
  have card: "card (copies_of ?h L src) = card (copies_of ?h ?L src) + 1"
    using card_Suc_Diff1 [OF _ mem] fin by (simp add: copies_minus [OF a(1,3)])
  have na: "copies_of ?h ?L a = copies_of ?h L a" using src copies_minus [OF a(1,3), of a] by simp
  have ref_a: "ref_count (rec_of ?h a) = card (copies_of ?h ?L a) + 1" using counts_D(1) [OF C a(1)] na by simp
  have ref_s: "dec (ref_count (rec_of ?h src)) = (if src \<in> L then card (copies_of ?h ?L src) + 1 else card (copies_of ?h ?L src))"
    using counts_D(1,2) [OF C, of src] src card by (cases "src \<in> L") (simp_all add: dec_def)
  obtain cs where cs: "?h src = Some cs" using places_alloc(2) [OF P, of src] src by blast
  have csr: "ndata cs = rec_of ?h src" using cs by (simp add: rec_of_def)
  have ha: "?h a = Some \<lparr>ndata = rec_of ?h a, nprev = None, nnext = None\<rparr>" using a(2) by (simp add: lone_def)
  have Wn: "a \<notin> W" "a \<notin> rooted roots s" "L \<inter> W = {}" "L \<inter> rooted roots s = {}" "W \<inter> rooted roots s = {}" using places_apart [OF P] a(1) by auto
  have Pa: "places recs roots s ?L W {a}" by (rule places_move [OF P]) (use a(1) Wn in auto)
  show ?thesis
  proof (cases "dec (ref_count (rec_of ?h src)) = 0")
    case False
    define h1 where "h1 = ?h(src \<mapsto> cs\<lparr>ndata := (rec_of ?h src)\<lparr>ref_count := dec (ref_count (rec_of ?h src))\<rparr>\<rparr>)"
    define h2 where "h2 = h1(a \<mapsto> \<lparr>ndata = (rec_of ?h a)\<lparr>rec_copy_node := None\<rparr>, nprev = None, nnext = None\<rparr>)"
    have h1a: "h1 a = ?h a" using src by (simp add: h1_def)
    have u: "unshare roots a src s = Some (s\<lparr>pheap := h2\<rparr>)"
      using False cs csr ha h1a by (simp add: unshare_def upd_rec_eq h1_def [symmetric] h2_def)
    have rc: "rec_of h2 x = (if x = a then (rec_of ?h a)\<lparr>rec_copy_node := None\<rparr>
        else if x = src then (rec_of ?h src)\<lparr>ref_count := dec (ref_count (rec_of ?h src))\<rparr> else rec_of ?h x)" for x
      by (simp add: h2_def h1_def)
    have co: "copies_of h2 ?L x = copies_of ?h ?L x" for x by (auto simp: copies_of_def rc)
    have sl: "same_links ?h h2" using cs ha src by (auto simp: same_links_def h2_def h1_def)
    have P2: "places recs roots (s\<lparr>pheap := h2\<rparr>) ?L W {a}"
      by (rule places_pheap [OF Pa]) (use P in \<open>auto simp: rc h2_def h1_def places_def\<close>)
    have L2: "lone h2 x" if "x \<in> W" for x using lone_links [OF sl] counts_D(4) [OF C that] by blast
    have off: "off a h2 ?L" using ref_a by (simp add: off_def lone_def rc co) (simp add: h2_def)
    have ne: "copies_of ?h ?L x \<noteq> {}" if "x \<in> W" for x
    proof (cases "x = src")
      case True
      then have "src \<notin> L" using that Wn by auto
      then have "card (copies_of ?h ?L src) \<noteq> 0" using False ref_s by simp
      then show ?thesis using True by auto
    next
      case False
      then show ?thesis using counts_D(3) [OF C that] copies_minus [OF a(1,3), of x] by simp
    qed
    have cm: "card (copies_of ?h ?L x) = card (copies_of ?h L x)" if "x \<noteq> src" for x
      using that copies_minus [OF a(1,3), of x] by simp
    have C2: "counts_ok h2 ?L W (rooted roots s) {a}"
      unfolding counts_ok_def co
    proof (intro conjI ballI allI impI)
      fix x assume "x \<in> ?L"
      then show "ref_count (rec_of h2 x) = card (copies_of ?h ?L x) + 1"
        using counts_D(1) [OF C, of x] ref_s cm [of x] by (cases "x = src") (simp_all add: rc)
    next
      fix x assume x: "x \<in> W"
      then show "ref_count (rec_of h2 x) = card (copies_of ?h ?L x)" "copies_of ?h ?L x \<noteq> {}" "lone h2 x"
        using counts_D(2) [OF C, of x] ref_s cm [of x] Wn ne L2 by (cases "x = src"; auto simp: rc)+
    next
      fix x assume "x \<in> rooted roots s"
      then show "ref_count (rec_of h2 x) = 1" "lone h2 x"
        using counts_D(5) [OF C, of x] lone_links [OF sl] Wn src by (auto simp: rc)
    next
      fix x assume "x \<in> W \<union> rooted roots s"
      then show "rec_copy_node (rec_of h2 x) = None" using counts_D(6) [OF C, of x] by (auto simp: rc)
    next
      fix x y assume "x \<in> ?L" "rec_copy_node (rec_of h2 x) = Some y"
      then show "y \<in> ?L \<union> W \<union> {a}" "y \<noteq> x" using counts_D(7) [OF C, of x y] by (auto simp: rc split: if_splits)
    qed
    have "\<not> (src \<in> W \<and> copies_of ?h L src = {a})"
    proof
      assume w: "src \<in> W \<and> copies_of ?h L src = {a}"
      then have "copies_of ?h ?L src = {}" using copies_minus [OF a(1,3), of src] by simp
      then show False using ne w by blast
    qed
    moreover have "\<exists>n. rec_of h2 x = (rec_of ?h x)\<lparr>ref_count := n\<rparr>" if "x \<noteq> a" for x
      by (rule exI [of _ "if x = src then dec (ref_count (rec_of ?h src)) else ref_count (rec_of ?h x)"]) (simp add: rc that)
    ultimately show ?thesis using u P2 C2 off sl by (auto simp: keeps_def)
  next
    case True
    have sW: "src \<in> W" "copies_of ?h ?L src = {}" using True ref_s src fin by (auto split: if_splits simp: copies_of_def)
    have sl0: "lone ?h src" "rec_copy_node (rec_of ?h src) = None" using counts_D(4,6) [OF C, of src] sW by auto
    have P1: "places recs roots s ?L (W - {src}) (insert src {a})" by (rule places_move [OF Pa]) (use sW src Wn in auto)
    have rr: "ref_count (rec_of ?h src) = card (copies_of ?h ?L src) + 1"
      using counts_D(2) [OF C sW(1)] card by simp
    have C1: "counts_ok ?h ?L (W - {src}) (rooted roots s) (insert src {a})"
      unfolding counts_ok_def
    proof (intro conjI ballI allI impI)
      fix x assume x: "x \<in> ?L"
      then show "ref_count (rec_of ?h x) = card (copies_of ?h ?L x) + 1"
        using counts_D(1) [OF C, of x] copies_minus [OF a(1,3), of x] sW(1) Wn by auto
      fix y assume "rec_copy_node (rec_of ?h x) = Some y"
      then show "y \<in> ?L \<union> (W - {src}) \<union> insert src {a}" "y \<noteq> x" using counts_D(7) [OF C, of x y] x by auto
    next
      fix x assume "x \<in> W - {src}"
      then show "ref_count (rec_of ?h x) = card (copies_of ?h ?L x)" "copies_of ?h ?L x \<noteq> {}" "lone ?h x"
        using counts_D(2-4) [OF C, of x] copies_minus [OF a(1,3), of x] by auto
    qed (use counts_D(5,6) [OF C] in auto)
    obtain s2 where s2: "release roots src s = Some s2" "places recs roots s2 ?L (W - {src}) {a}"
        "counts_ok (pheap s2) ?L (W - {src}) (rooted roots s2) {a}" "same_links ?h (pheap s2)"
        "\<forall>x. x \<noteq> src \<longrightarrow> rec_of (pheap s2) x = rec_of ?h x" "rooted roots s2 = insert src (rooted roots s)"
        "keeps ?h (pheap s2) {}"
      using release_spec [OF P1 _ C1 sl0 rr] sW(2) src by (auto simp: yields_exists)
    define h3 where "h3 = (pheap s2)(a \<mapsto> \<lparr>ndata = (rec_of ?h a)\<lparr>rec_copy_node := None\<rparr>, nprev = None, nnext = None\<rparr>)"
    have ra: "rec_of (pheap s2) a = rec_of ?h a" using s2(5) src by auto
    have h2a: "pheap s2 a = Some \<lparr>ndata = rec_of ?h a, nprev = None, nnext = None\<rparr>"
      using same_links_cell [OF s2(4) ha] ra by simp
    have u: "unshare roots a src s = Some (s2\<lparr>pheap := h3\<rparr>)"
      using True cs csr s2(1) h2a recycle_lone [OF sl0] by (simp add: unshare_def upd_rec_eq h3_def)
    have rc: "rec_of h3 x = (if x = a then (rec_of ?h a)\<lparr>rec_copy_node := None\<rparr> else rec_of (pheap s2) x)" for x
      by (simp add: h3_def)
    have co: "copies_of h3 ?L x = copies_of (pheap s2) ?L x" for x by (auto simp: copies_of_def rc)
    have sl: "same_links ?h h3" using s2(4) h2a ha by (auto simp: same_links_def h3_def)
    have P3: "places recs roots (s2\<lparr>pheap := h3\<rparr>) ?L (W - {src}) {a}"
      by (rule places_pheap [OF s2(2)]) (use s2(2) ra in \<open>auto simp: rc h3_def places_def\<close>)
    have nin: "a \<notin> W - {src}" "a \<notin> rooted roots s2" using Wn s2(6) src by auto
    have l3: "lone h3 x" if "x \<in> W - {src} \<union> rooted roots s2" for x
      using counts_D(4,5) [OF s2(3), of x] that nin by (auto simp: lone_def h3_def)
    have C3: "counts_ok h3 ?L (W - {src}) (rooted roots s2) {a}"
      unfolding counts_ok_def co
    proof (intro conjI ballI allI impI)
      fix x y assume "x \<in> ?L" "rec_copy_node (rec_of h3 x) = Some y"
      then show "y \<in> ?L \<union> (W - {src}) \<union> {a}" "y \<noteq> x" using counts_D(7) [OF s2(3), of x y] by (auto simp: rc)
    qed (use counts_D(1-3,5,6) [OF s2(3)] nin l3 in \<open>auto simp: rc\<close>)
    have ca: "copies_of (pheap s2) ?L a = copies_of ?h ?L a" 
    proof -
      have "rec_copy_node (rec_of (pheap s2) src) = rec_copy_node (rec_of ?h src)"
        using counts_D(6) [OF s2(3), of src] s2(6) sl0(2) by simp
      then have "rec_copy_node (rec_of (pheap s2) x) = rec_copy_node (rec_of ?h x)" for x using s2(5) by metis
      then show ?thesis by (simp add: copies_of_def)
    qed
    have off: "off a h3 ?L" using ref_a ca by (simp add: off_def lone_def rc co) (simp add: h3_def)
    have ss: "src \<in> W \<and> copies_of ?h L src = {a}"
      using sW mem copies_minus [OF a(1,3), of src] by auto
    have "keeps ?h h3 {a}" using s2(7) rc by (auto simp: keeps_def)
    then show ?thesis using u P3 C3 off sl ss s2(6) by auto
  qed
qed

definition head_of :: "nat list \<Rightarrow> nat option" where
  "head_of g = (case g of [] \<Rightarrow> None | a # _ \<Rightarrow> Some a)"

lemma head_of_simps [simp]: "head_of [] = None" "head_of (a # g) = Some a"
  by (simp_all add: head_of_def)

lemma chain_dlist: "chain h g \<longleftrightarrow> dlist h (head_of g) (map (\<lambda>a. (a, rec_of h a)) g)"
  by (simp add: chain_def head_of_def)

lemma counts_none:
  assumes "counts_ok h L W R H" "rec_copy_node (rec_of h a) = None" "a \<in> L" "a \<notin> W" "a \<notin> R"
  shows "counts_ok h (L - {a}) W R (insert a H)"
  using assms unfolding counts_ok_def copies_minus_none [OF assms(2)] by blast

lemma recycle_step: "fqlprocess_recycle roots s (Some p) = do {
     (x, h, rg') \<leftarrow> node_pop_export (pheap s) (Some p);
     a \<leftarrow> x;
     c \<leftarrow> h a;
     s2 \<leftarrow> (case rec_copy_node (ndata c) of None \<Rightarrow> Some (s\<lparr>pheap := h\<rparr>) | Some src \<Rightarrow> unshare roots a src (s\<lparr>pheap := h\<rparr>));
     s3 \<leftarrow> release roots a s2;
     fqlprocess_recycle roots s3 rg'
   }"
  unfolding unshare_def by (subst fqlprocess_recycle.simps) (simp add: Let_def)

text \<open>
  Recycling a row group keeps the books: every record stays in exactly one place, and the
  reference counts stay exact.
\<close>

lemma recycle_books:
  "books_ok recs roots s (g # gs) W \<Longrightarrow>
   yields (fqlprocess_recycle roots s (head_of g)) (\<lambda>s'. \<exists>W'. books_ok recs roots s' gs W' \<and> keeps (pheap s) (pheap s') (set g))"
proof (induction g arbitrary: s W)
  case Nil
  then show ?case by (auto simp: fqlprocess_recycle.simps books_ok_def)
next
  case (Cons a as)
  let ?h = "pheap s" and ?L = "set (concat ((a # as) # gs))"
  have B: "chain ?h (a # as)" "\<forall>g \<in> set gs. chain ?h g" "distinct (concat ((a # as) # gs))"
      "places recs roots s ?L W {}" "counts_ok ?h ?L W (rooted roots s) {}"
    using Cons.prems by (auto simp: books_ok_def)
  have La: "?L - {a} = set (concat (as # gs))" "distinct (concat (as # gs))" using B(3) by auto
  obtain h p where h: "node_pop_export ?h (Some a) = Some (Some a, h, p)" "dlist h p (map (\<lambda>x. (x, rec_of ?h x)) as)"
      "h a = Some \<lparr>ndata = rec_of ?h a, nprev = None, nnext = None\<rparr>" "\<And>y. y \<noteq> a \<Longrightarrow> y \<notin> set as \<Longrightarrow> h y = ?h y"
    using node_pop_export_dlist [of ?h "Some a" a "rec_of ?h a" "map (\<lambda>x. (x, rec_of ?h x)) as"] B(1)
    by (auto simp: chain_dlist yields_exists o_def image_image)
  have lk: "linked h None (map (\<lambda>x. (x, rec_of ?h x)) as) None" using h(2) by (simp add: dlist_def)
  have data: "linked h pr (map (\<lambda>x. (x, rec_of ?h x)) bs) None \<Longrightarrow> y \<in> set bs \<Longrightarrow> rec_of h y = rec_of ?h y" for pr bs y
    by (induction bs arbitrary: pr) (auto simp: rec_of_def)
  have rc: "rec_of h x = rec_of ?h x" for x
    using h(3,4) data [OF lk, of x] by (cases "x = a"; cases "x \<in> set as") (auto simp: rec_of_def)
  have p: "p = head_of as" using h(2) by (cases as) (auto simp: dlist_def)
  have ch: "chain h as" using h(2) p by (simp add: chain_dlist rc)
  have chs: "chain h g" if "g \<in> set gs" for g
  proof -
    have "x \<noteq> a \<and> x \<notin> set as" if "x \<in> set g" for x using B(3) \<open>g \<in> set gs\<close> that by auto
    then have "linked ?h pr (map (\<lambda>x. (x, rec_of ?h x)) bs) nx = linked h pr (map (\<lambda>x. (x, rec_of ?h x)) bs) nx"
      if "set bs \<subseteq> set g" for bs pr nx using that h(4) by (induction bs arbitrary: pr) auto
    from this [of g None None] B(2) that show ?thesis by (auto simp: chain_dlist rc dlist_def)
  qed
  let ?s1 = "s\<lparr>pheap := h\<rparr>"
  have nn: "h x \<noteq> None" if "?h x \<noteq> None" for x
    using that h(3,4) linked_alloc [OF lk, of x "rec_of ?h x"] by (cases "x = a"; cases "x \<in> set as") auto
  have P1: "places recs roots ?s1 ?L W {}"
    by (rule places_pheap [OF B(4)]) (use nn B(4) in \<open>auto simp: rc places_def\<close>)
  have co: "copies_of h L x = copies_of ?h L x" for L x by (simp add: copies_of_def rc)
  have W: "lone h x" if "x \<in> W \<union> rooted roots s" for x
  proof -
    have "x \<notin> ?L" using places_apart(1,4) [OF B(4)] that by auto
    then have "h x = ?h x" using h(4) by auto
    then show ?thesis using counts_D(4,5) [OF B(5), of x] that by (auto simp: lone_def rc)
  qed
  have C1: "counts_ok h ?L W (rooted roots ?s1) {}"
    using B(5) W unfolding counts_ok_def co rc by auto
  have la: "lone (pheap ?s1) a" using h(3) by (simp add: lone_def rc)
  obtain s2 W2 where s2: "(case rec_copy_node (rec_of ?h a) of None \<Rightarrow> Some ?s1 | Some src \<Rightarrow> unshare roots a src ?s1) = Some s2"
      "places recs roots s2 (?L - {a}) W2 {a}" "counts_ok (pheap s2) (?L - {a}) W2 (rooted roots s2) {a}"
      "off a (pheap s2) (?L - {a})" "same_links h (pheap s2)" "keeps h (pheap s2) {a}"
  proof (cases "rec_copy_node (rec_of ?h a)")
    case None
    have ap: "a \<notin> W" "a \<notin> rooted roots ?s1" using places_apart [OF P1] by auto
    have P2: "places recs roots ?s1 (?L - {a}) W {a}" by (rule places_move [OF P1]) (use ap places_apart [OF P1] in auto)
    have C2: "counts_ok h (?L - {a}) W (rooted roots ?s1) {a}"
      by (rule counts_none [OF C1]) (use None ap in \<open>auto simp: rc\<close>)
    have "off a h (?L - {a})"
      using counts_D(1) [OF C1, of a] la None copies_minus_none [of h a ?L a] by (simp add: off_def rc)
    then show thesis using that [of ?s1 W] None P2 C2 by simp
  next
    case (Some src)
    then show thesis using unshare_spec [OF P1 _ _ la, of src] C1 that by (fastforce simp: yields_exists rc)
  qed
  have of2: "lone (pheap s2) a" "rec_copy_node (rec_of (pheap s2) a) = None"
      "ref_count (rec_of (pheap s2) a) = card (copies_of (pheap s2) (?L - {a}) a) + 1" using s2(4) by (auto simp: off_def)
  obtain s3 W3 where s3: "release roots a s2 = Some s3" "places recs roots s3 (?L - {a}) W3 {}"
      "counts_ok (pheap s3) (?L - {a}) W3 (rooted roots s3) {}" "same_links (pheap s2) (pheap s3)" "keeps (pheap s2) (pheap s3) {}"
    using release_spec [OF s2(2) _ s2(3) of2] by (auto simp: yields_exists)
  have eq: "fqlprocess_recycle roots s (Some a) = fqlprocess_recycle roots s3 (head_of as)"
    using h(1,3) s2(1) s3(1) by (simp add: recycle_step p)
  have sl: "same_links h (pheap s3)" using same_links_trans s2(5) s3(4) by blast
  have "books_ok recs roots s3 (as # gs) W3"
    using s3(2,3) La chain_links [OF sl] ch chs by (auto simp: books_ok_def)
  then obtain s4 W4 where s4: "fqlprocess_recycle roots s3 (head_of as) = Some s4" "books_ok recs roots s4 gs W4"
      "keeps (pheap s3) (pheap s4) (set as)" using Cons.IH [of s3 W3] by (auto simp: yields_exists)
  have "keeps ?h (pheap s4) (set (a # as))"
    using keeps_trans [OF keeps_trans [OF keeps_same(2) [OF s2(6) rc [symmetric]] s3(5)] s4(3)] by simp
  then show ?case using eq s4(1,2) by auto
qed

text \<open>When the last row group is gone, every record is back in its root fifo.\<close>

lemma books_all_home:
  assumes "books_ok recs roots s [] W"
  shows "W = {}" "rooted roots s = recs" "\<forall>a \<in> recs. ref_count (rec_of (pheap s) a) = 1"
proof -
  have C: "counts_ok (pheap s) {} W (rooted roots s) {}" and P: "places recs roots s {} W {}"
    using assms by (auto simp: books_ok_def)
  have "copies_of (pheap s) {} a = {}" for a by (simp add: copies_of_def)
  then show W: "W = {}" using counts_D(3) [OF C] by blast
  then show R: "rooted roots s = recs" using P by (simp add: places_def)
  show "\<forall>a \<in> recs. ref_count (rec_of (pheap s) a) = 1" using counts_D(5) [OF C] R by simp
qed

lemma recycle_cells_books:
  assumes "books_ok recs roots s (gs @ live) W" "[] \<notin> set gs"
  shows "yields (recycle_cells roots s (map head_of gs)) (\<lambda>s'. \<exists>W'. books_ok recs roots s' live W' \<and>
    keeps (pheap s) (pheap s') (set (concat gs)))"
  using assms
proof (induction gs arbitrary: s W)
  case Nil
  then show ?case by auto
next
  case (Cons g gs)
  obtain a as where g: "g = a # as" using Cons.prems(2) by (cases g) auto
  obtain s1 W1 where s1: "fqlprocess_recycle roots s (head_of g) = Some s1" "books_ok recs roots s1 (gs @ live) W1"
      "keeps (pheap s) (pheap s1) (set g)" using recycle_books [of recs roots s g "gs @ live" W] Cons.prems(1) by (auto simp: yields_exists)
  obtain s2 W2 where s2: "recycle_cells roots s1 (map head_of gs) = Some s2" "books_ok recs roots s2 live W2"
      "keeps (pheap s1) (pheap s2) (set (concat gs))" using Cons.IH [OF s1(2)] Cons.prems(2) by (auto simp: yields_exists)
  have "keeps (pheap s) (pheap s2) (set (concat (g # gs)))" using keeps_trans [OF s1(3) s2(3)] by simp
  then show ?case using s1(1) s2(1,2) g by auto
qed

section \<open>Copying keeps the books\<close>

lemma linked_data: "linked h pr (map (\<lambda>x. (x, k x)) bs) nx \<Longrightarrow> y \<in> set bs \<Longrightarrow> rec_of h y = k y"
  by (induction bs arbitrary: pr) (auto simp: rec_of_def)

lemma chain_frame:
  assumes "chain h g" "\<forall>x \<in> set g. h' x = h x"
  shows "chain h' g"
proof -
  have "linked h' pr (map (\<lambda>x. (x, rec_of h' x)) bs) nx = linked h pr (map (\<lambda>x. (x, rec_of h x)) bs) nx"
    if "set bs \<subseteq> set g" for bs pr nx
    using that assms(2)
  proof (induction bs arbitrary: pr)
    case (Cons b bs)
    have "first (map (\<lambda>x. (x, rec_of h' x)) bs) nx = first (map (\<lambda>x. (x, rec_of h x)) bs) nx" by (cases bs) auto
    then show ?case using Cons by (auto simp: rec_of_def)
  qed simp
  from this [of g None None] show ?thesis using assms(1) by (cases g) (auto simp: chain_dlist dlist_def o_def)
qed

lemma counts_frame:
  assumes "counts_ok h L W R H" "\<And>x. rec_of h' x = rec_of h x" "\<forall>x \<in> W \<union> R. h' x = h x"
  shows "counts_ok h' L W R H"
proof -
  have "copies_of h' L x = copies_of h L x" for x by (simp add: copies_of_def assms(2))
  then show ?thesis using assms(1,3) by (auto simp: counts_ok_def assms(2) lone_def)
qed

lemma books_D:
  assumes "books_ok recs roots s live W"
  shows "g \<in> set live \<Longrightarrow> chain (pheap s) g" "distinct (concat live)" "places recs roots s (set (concat live)) W {}"
    "counts_ok (pheap s) (set (concat live)) W (rooted roots s) {}"
  using assms by (auto simp: books_ok_def)

lemma lone_chain: "lone h a \<Longrightarrow> chain h [a]"
  by (simp add: lone_def chain_dlist dlist_def)

lemma take_from_books:
  assumes B: "books_ok recs roots s live W" and i: "i \<in> set roots" and l: "fifo_list (pfifos s ! i) = Some a # rest"
  shows "yields (take_from i s) (\<lambda>(b, s'). b = a \<and> pheap s' = pheap s \<and> books_ok recs roots s' ([a] # live) W \<and>
    fifo_list (pfifos s' ! i) = rest \<and> (\<forall>j. j \<noteq> i \<longrightarrow> pfifos s' ! j = pfifos s ! j) \<and> length (pfifos s') = length (pfifos s) \<and>
    a \<in> recs \<and> rec_copy_node (rec_of (pheap s) a) = None \<and> copies_of (pheap s) (set (concat live)) a = {})"
proof -
  let ?f = "pfifos s ! i"
  define L where "L = set (concat live)"
  note P = books_D(3) [OF B, folded L_def] and C = books_D(4) [OF B, folded L_def]
  have ro: "roots_ok recs roots s" using P unfolding places_def by blast
  obtain k where k: "k < length roots" "roots ! k = i" using i by (auto simp: in_set_conv_nth)
  then have f: "i < length (pfifos s)" "fifo_ok ?f" "distinct roots" using ro by (auto simp: roots_ok_def)
  obtain slot g where g: "fifo_get ?f = (slot, g)" by (cases "fifo_get ?f")
  have gs: "fifo_ok g" "vec_at (buf ?f) slot = Some (Some a)" "fifo_list g = rest" "buf g = buf ?f"
    using fifo_get_spec [OF f(2) _ g] l by auto
  have "0 < fifo_len ?f" using l by (metis fifo_list_length length_greater_0_conv list.discI)
  then have "fifo_available ?f \<noteq> 0" using fifo_available_len [OF f(2)] by auto
  then have "fifo_get_or_wait ?f = Some (slot, g)" using g by (simp add: fifo_get_or_wait_def)
  have "set (fifo_list (pfifos s ! (roots ! k))) \<subseteq> Some ` assigned recs s k" using ro k(1) by (simp add: roots_ok_def)
  then have sk: "set (fifo_list g) \<subseteq> Some ` assigned recs s k" using l gs(3) k(2) by simp
  define s' where "s' = s\<lparr>pfifos := (pfifos s)[i := g]\<rparr>"
  have t: "take_from i s = Some (a, s')"
    using f(1) \<open>fifo_get_or_wait ?f = _\<close> gs by (simp add: take_from_def s'_def)
  have m: "mset (root_list roots s) = add_mset (Some a) (mset (root_list roots s'))"
    using fifo_list_update [OF f(3) k(1), of "pfifos s'" ?f "Some a"] k f(1) gs(3) l by (simp add: root_list_def s'_def)
  then have st: "set (root_list roots s) = insert (Some a) (set (root_list roots s'))"
    by (metis set_mset_add_mset_insert set_mset_mset)
  have "distinct (root_list roots s)" using P unfolding places_def by blast
  then have d: "distinct (root_list roots s')" "Some a \<notin> set (root_list roots s')"
    using mset_eq_imp_distinct_iff [of "root_list roots s" "Some a # root_list roots s'"] m by auto
  have r: "rooted roots s = insert a (rooted roots s')" "a \<notin> rooted roots s'" using st d(2) by (auto simp: rooted_def)
  have ro': "roots_ok recs roots s'"
    unfolding roots_ok_def
  proof (intro conjI allI impI ballI)
    fix j assume j: "j < length roots"
    have as: "assigned recs s' j = assigned recs s j" by (simp add: assigned_def s'_def)
    have "pfifos s' ! (roots ! j) = (if j = k then g else pfifos s ! (roots ! j))"
      using j k f(1,3) by (auto simp: s'_def nth_eq_iff_index_eq)
    then show "roots ! j < length (pfifos s')" "fifo_ok (pfifos s' ! (roots ! j))"
        "set (fifo_list (pfifos s' ! (roots ! j))) \<subseteq> Some ` assigned recs s' j"
        "card (assigned recs s' j) < vsize (buf (pfifos s' ! (roots ! j)))"
      using ro j gs(1,2,4) l k sk unfolding as by (auto simp: roots_ok_def s'_def)
  qed (use ro in \<open>auto simp: roots_ok_def s'_def\<close>)
  note A = places_apart [OF P]
  have aL: "a \<notin> L" "a \<notin> W" "a \<in> rooted roots s" using A r by auto
  have ar: "a \<in> recs" using P aL(3) unfolding places_def by blast
  have P': "places recs roots s' (insert a L) W {}"
    unfolding places_def
  proof (intro conjI)
    show "recs = insert a L \<union> W \<union> {} \<union> rooted roots s'" using places_recs [OF P] unfolding r(1) by auto
    show "\<forall>a \<in> recs. pheap s' a \<noteq> None" using places_heap [OF P] by (simp add: s'_def)
  qed (use A r aL d ro' in auto)
  have ra: "ref_count (rec_of (pheap s) a) = 1" "lone (pheap s) a" "rec_copy_node (rec_of (pheap s) a) = None"
    using counts_D(5,6) [OF C, of a] aL by auto
  have co: "copies_of (pheap s) (insert a L) x = copies_of (pheap s) L x" for x using ra(3) by (auto simp: copies_of_def)
  have ca: "copies_of (pheap s) L a = {}" using counts_D(7) [OF C] aL by (fastforce simp: copies_of_def)
  have "counts_ok (pheap s) (insert a L) W (rooted roots s') {}"
    unfolding counts_ok_def co
  proof (intro conjI ballI allI impI)
    fix x assume x: "x \<in> insert a L"
    then show "ref_count (rec_of (pheap s) x) = card (copies_of (pheap s) L x) + 1"
      using counts_D(1) [OF C, of x] ra(1) ca by auto
    fix y assume "rec_copy_node (rec_of (pheap s) x) = Some y"
    then show "y \<in> insert a L \<union> W \<union> {}" "y \<noteq> x" using counts_D(7) [OF C, of x y] x ra(3) by auto
  qed (use counts_D(2-6) [OF C] r(1) in auto)
  then have "books_ok recs roots s' ([a] # live) W"
    using B P' aL lone_chain [OF ra(2)] by (auto simp: books_ok_def s'_def L_def)
  then show ?thesis using t gs f(1) ar ra(3) ca by (simp add: s'_def L_def)
qed

text \<open>A copy shows the row of its source.\<close>

definition same_row :: "row_record \<Rightarrow> row_record \<Rightarrow> bool" where
  "same_row r r' \<longleftrightarrow> vec_ok (rec_fields r) \<and> vec_ok (rec_fields r') \<and> vec_list (rec_fields r) = vec_list (rec_fields r') \<and>
     row_src_idx r = row_src_idx r' \<and> rec_idx r = rec_idx r' \<and> rec_ref r = rec_ref r'"

definition fields_ok :: "nat set \<Rightarrow> 'z pipes_scheme \<Rightarrow> bool" where
  "fields_ok recs s \<longleftrightarrow> (\<forall>a \<in> recs. vec_ok (rec_fields (rec_of (pheap s) a)))"

lemma record_copy_books:
  assumes B: "books_ok recs roots s live W" and f: "f \<in> set (concat live)" "lone (pheap s) f"
      "rec_copy_node (rec_of (pheap s) f) = None" "copies_of (pheap s) (set (concat live)) f = {}"
    and l: "l \<in> set (concat live)" "l \<noteq> f" and v: "fields_ok recs s"
  shows "yields (record_copy_at f l s) (\<lambda>s'. books_ok recs roots s' live W \<and> pfifos s' = pfifos s \<and> lone (pheap s') f \<and>
    same_links (pheap s) (pheap s') \<and> fields_ok recs s' \<and> same_row (rec_of (pheap s') f) (rec_of (pheap s) l) \<and>
    (\<forall>x. x \<noteq> f \<longrightarrow> rec_of (pheap s') x = (rec_of (pheap s) x)\<lparr>ref_count := ref_count (rec_of (pheap s) x) + (if x = l then 1 else 0)\<rparr>))"
proof -
  let ?h = "pheap s"
  define L where "L = set (concat live)"
  note P = books_D(3) [OF B, folded L_def] and C = books_D(4) [OF B, folded L_def]
  note f = f [folded L_def] and l = l [folded L_def]
  have recs: "f \<in> recs" "l \<in> recs" using places_alloc(1) [OF P] f(1) l(1) by blast+
  obtain cl where cl: "?h l = Some cl" using places_alloc(2) [OF P] l(1) by blast
  have cf: "?h f = Some \<lparr>ndata = rec_of ?h f, nprev = None, nnext = None\<rparr>" using f(2) by (simp add: lone_def)
  have cr: "ndata cl = rec_of ?h l" using cl by (simp add: rec_of_def)
  have vf: "vec_ok (rec_fields (rec_of ?h f))" "vec_ok (rec_fields (rec_of ?h l))" using v recs by (auto simp: fields_ok_def)
  obtain r where r: "record_copy (rec_of ?h f) l (rec_of ?h l) = Some (r, (rec_of ?h l)\<lparr>ref_count := ref_count (rec_of ?h l) + 1\<rparr>)"
      "vec_ok (rec_fields r)" "vec_list (rec_fields r) = vec_list (rec_fields (rec_of ?h l))" "row_src_idx r = row_src_idx (rec_of ?h l)"
      "rec_ref r = rec_ref (rec_of ?h l)" "rec_idx r = rec_idx (rec_of ?h l)"
    using record_copy_spec [OF vf, of l] by (auto simp: yields_exists)
  have r2: "rec_copy_node r = Some l" "ref_count r = ref_count (rec_of ?h f)" "root_fifo_idx r = root_fifo_idx (rec_of ?h f)"
    using r(1) by (auto simp: record_copy_def Let_def bind_eq_Some_conv)
  define h' where "h' = ?h(f \<mapsto> \<lparr>ndata = r, nprev = None, nnext = None\<rparr>,
    l \<mapsto> cl\<lparr>ndata := (rec_of ?h l)\<lparr>ref_count := ref_count (rec_of ?h l) + 1\<rparr>\<rparr>)"
  let ?s' = "s\<lparr>pheap := h'\<rparr>"
  have eq: "record_copy_at f l s = Some ?s'"
    using cl cf cr r(1) l(2) by (simp add: record_copy_at_def upd_rec_def h'_def)
  have rc: "rec_of h' x = (if x = f then r else (rec_of ?h x)\<lparr>ref_count := ref_count (rec_of ?h x) + (if x = l then 1 else 0)\<rparr>)" for x
    using l(2) by (simp add: h'_def)
  have sl: "same_links ?h h'" using cl cf l(2) by (auto simp: same_links_def h'_def)
  have co: "copies_of h' L x = (if x = l then insert f (copies_of ?h L x) else copies_of ?h L x)" for x
    using f(1,3) r2(1) by (auto simp: copies_of_def rc)
  have nf: "f \<notin> copies_of ?h L x" for x using f(3) by (simp add: copies_of_def)
  have fin: "finite (copies_of ?h L x)" for x using places_finite [OF P] by simp
  have P': "places recs roots ?s' L W {}"
    by (rule places_pheap [OF P]) (use P cl cf r r2 in \<open>auto simp: rc h'_def places_def\<close>)
  note A = places_apart [OF P]
  have "counts_ok h' L W (rooted roots ?s') {}"
    unfolding counts_ok_def
  proof (intro conjI ballI allI impI)
    fix x assume x: "x \<in> L"
    show "ref_count (rec_of h' x) = card (copies_of h' L x) + 1"
      using counts_D(1) [OF C x] fin nf l(2) r2(2) f(4) by (auto simp: rc co)
    fix y assume "rec_copy_node (rec_of h' x) = Some y"
    then show "y \<in> L \<union> W \<union> {}" "y \<noteq> x"
      using counts_D(7) [OF C x, of y] r2(1) l by (auto simp: rc split: if_splits)
  next
    fix x assume x: "x \<in> W"
    then have "x \<noteq> l" "x \<noteq> f" using A l(1) f(1) by auto
    then show "ref_count (rec_of h' x) = card (copies_of h' L x)" "copies_of h' L x \<noteq> {}" "lone h' x"
      using counts_D(2,3,4) [OF C x] lone_links [OF sl] by (auto simp: rc co)
  next
    fix x assume x: "x \<in> rooted roots ?s'"
    then have "x \<noteq> l" "x \<noteq> f" using A l(1) f(1) by auto
    then show "ref_count (rec_of h' x) = 1" "lone h' x" using counts_D(5) [OF C, of x] lone_links [OF sl] x by (auto simp: rc)
  next
    fix x assume x: "x \<in> W \<union> rooted roots ?s'"
    then have "x \<noteq> l" "x \<noteq> f" using A l(1) f(1) by auto
    then show "rec_copy_node (rec_of h' x) = None" using counts_D(6) [OF C, of x] x by (auto simp: rc)
  qed
  then have "books_ok recs roots ?s' live W"
    using B P' chain_links [OF sl] by (auto simp: books_ok_def L_def)
  moreover have "lone h' f" by (rule lone_links [OF sl f(2)])
  moreover have "fields_ok recs ?s'" using v r(2) by (auto simp: fields_ok_def rc)
  moreover have "same_row (rec_of h' f) (rec_of ?h l)" using r vf by (simp add: same_row_def rc)
  ultimately show ?thesis using eq sl by (auto simp: rc)
qed

text \<open>Pushing a record that is on its own in front of a group.\<close>

lemma push_books:
  assumes B: "books_ok recs roots s ([f] # g # live) W"
  shows "yields (node_push_import (pheap s) (head_of g) f) (\<lambda>(h, p). p = Some f \<and>
    books_ok recs roots (s\<lparr>pheap := h\<rparr>) ((f # g) # live) W \<and> (\<forall>x. rec_of h x = rec_of (pheap s) x) \<and>
    (\<forall>x. x \<noteq> f \<and> x \<notin> set g \<longrightarrow> h x = pheap s x))"
proof -
  let ?h = "pheap s" and ?L = "set (concat ((f # g) # live))"
  have L: "set (concat ([f] # g # live)) = ?L" by simp
  note P = books_D(3) [OF B, unfolded L] and C = books_D(4) [OF B, unfolded L]
  have ch: "chain ?h [f]" "chain ?h g" using books_D(1) [OF B] by auto
  have d: "distinct (concat ((f # g) # live))" using books_D(2) [OF B] by simp
  obtain c where c: "?h f = Some c" "ndata c = rec_of ?h f" using ch(1) by (auto simp: chain_dlist dlist_def rec_of_def)
  have nf: "f \<notin> fst ` set (map (\<lambda>a. (a, rec_of ?h a)) g)" using d by auto
  obtain h where h: "node_push_import ?h (head_of g) f = Some (h, Some f)"
      "dlist h (Some f) ((f, rec_of ?h f) # map (\<lambda>a. (a, rec_of ?h a)) g)" "\<forall>y. y \<noteq> f \<and> y \<notin> set g \<longrightarrow> h y = ?h y"
    using node_push_import_dlist [of ?h "head_of g" "map (\<lambda>a. (a, rec_of ?h a)) g" f c] ch(2) nf c
    by (auto simp: chain_dlist yields_exists image_image)
  have lk: "linked h None (map (\<lambda>a. (a, rec_of ?h a)) (f # g)) None" using h(2) by (simp add: dlist_def)
  have rc: "rec_of h x = rec_of ?h x" for x
    using h(3) linked_data [OF lk, of x] by (cases "x = f \<or> x \<in> set g") (auto simp: rec_of_def)
  have nn: "h x \<noteq> None" if "?h x \<noteq> None" for x
    using that h(3) linked_alloc [OF lk, of x "rec_of ?h x"] by (cases "x = f \<or> x \<in> set g") auto
  have P': "places recs roots (s\<lparr>pheap := h\<rparr>) ?L W {}"
    by (rule places_pheap [OF P]) (use P nn in \<open>auto simp: rc places_def\<close>)
  have out: "\<forall>x \<in> W \<union> rooted roots s. h x = ?h x" using places_apart [OF P] h(3) by auto
  have C': "counts_ok h ?L W (rooted roots s) {}" by (rule counts_frame [OF C rc out])
  have "chain h (f # g)" using h(2) by (simp add: chain_dlist rc)
  moreover have "chain h k" if "k \<in> set live" for k
  proof (rule chain_frame)
    show "chain ?h k" using books_D(1) [OF B] that by simp
    have "x \<noteq> f \<and> x \<notin> set g" if "x \<in> set k" for x using d \<open>k \<in> set live\<close> that by auto
    then show "\<forall>x \<in> set k. h x = ?h x" using h(3) by blast
  qed
  ultimately have "books_ok recs roots (s\<lparr>pheap := h\<rparr>) ((f # g) # live) W" using P' C' d by (auto simp: books_ok_def)
  then show ?thesis using h(1,3) rc by simp
qed

text \<open>
  Copying a whole row group in front of a record: the copies show the rows of the group, in its
  order, and nothing else changes but reference counts.
\<close>

definition last_of :: "nat list \<Rightarrow> nat option" where
  "last_of g = (if g = [] then None else Some (last g))"

lemma same_row_ref [simp]: "same_row (r\<lparr>ref_count := n\<rparr>) r' = same_row r r'" "same_row r (r'\<lparr>ref_count := n\<rparr>) = same_row r r'"
  by (auto simp: same_row_def)

lemma keeps_row: "keeps h h' A \<Longrightarrow> x \<notin> A \<Longrightarrow> same_row (rec_of h' x) r = same_row (rec_of h x) r"
  "keeps h h' A \<Longrightarrow> x \<notin> A \<Longrightarrow> same_row r (rec_of h' x) = same_row r (rec_of h x)"
  unfolding keeps_def by (metis same_row_ref)+

lemma chain_prev:
  assumes "chain h (ps @ l # qs)"
  shows "\<exists>c. h l = Some c \<and> nprev c = last_of ps"
  using assms by (auto simp: chain_dlist dlist_def linked_append end_of_def last_of_def last_map)

lemma yieldsE2:
  assumes "yields r (\<lambda>(a, b). P a b)"
  obtains a b where "r = Some (a, b)" "P a b"
  using assms by (auto simp: yields_exists)

lemma yieldsE1:
  assumes "yields r P"
  obtains a where "r = Some a" "P a"
  using assms by (auto simp: yields_exists)

lemma copy_group_books:
  assumes "books_ok recs roots s (rg # live) W" "ps @ qs \<in> set live" "aux \<in> set roots"
    "fifo_list (pfifos s ! aux) = map Some fs @ rest" "length fs = length ps" "fields_ok recs s"
  shows "yields (copy_group aux s (last_of ps) (head_of rg)) (\<lambda>(s', p). books_ok recs roots s' ((rev fs @ rg) # live) W \<and>
    p = head_of (rev fs @ rg) \<and> fields_ok recs s' \<and> fifo_list (pfifos s' ! aux) = rest \<and>
    (\<forall>j. j \<noteq> aux \<longrightarrow> pfifos s' ! j = pfifos s ! j) \<and> length (pfifos s') = length (pfifos s) \<and>
    list_all2 (\<lambda>f l. same_row (rec_of (pheap s') f) (rec_of (pheap s) l)) (rev fs) ps \<and>
    keeps (pheap s) (pheap s') (set fs))"
  using assms
proof (induction ps arbitrary: s rg fs qs rule: rev_induct)
  case Nil
  then show ?case by (simp add: last_of_def copy_group.simps)
next
  case (snoc l ps)
  obtain f fs' where fs: "fs = f # fs'" using snoc.prems(5) by (cases fs) auto
  obtain s1 where s1: "take_from aux s = Some (f, s1)" "pheap s1 = pheap s" "books_ok recs roots s1 ([f] # rg # live) W"
      "fifo_list (pfifos s1 ! aux) = map Some fs' @ rest" "\<forall>j. j \<noteq> aux \<longrightarrow> pfifos s1 ! j = pfifos s ! j"
      "length (pfifos s1) = length (pfifos s)" "rec_copy_node (rec_of (pheap s) f) = None"
      "copies_of (pheap s) (set (concat (rg # live))) f = {}"
    by (rule yieldsE2 [OF take_from_books [OF snoc.prems(1,3), of f "map Some fs' @ rest"]])
      (use snoc.prems(4) fs in \<open>simp, blast\<close>)
  let ?live = "[f] # rg # live"
  have f: "f \<in> set (concat ?live)" "lone (pheap s1) f"
    using books_D(1) [OF s1(3), of "[f]"] by (auto simp: chain_dlist dlist_def lone_def)
  have cf: "copies_of (pheap s1) (set (concat ?live)) f = {}"
    using s1(2,7,8) by (auto simp: copies_of_def)
  have l: "l \<in> set (concat ?live)" "l \<noteq> f" using snoc.prems(2) books_D(2) [OF s1(3)] by fastforce+
  have v1: "fields_ok recs s1" using snoc.prems(6) s1(2) by (simp add: fields_ok_def)
  obtain s2 where s2: "record_copy_at f l s1 = Some s2" "books_ok recs roots s2 ?live W" "pfifos s2 = pfifos s1" "fields_ok recs s2"
      "same_row (rec_of (pheap s2) f) (rec_of (pheap s1) l)"
      "\<forall>x. x \<noteq> f \<longrightarrow> rec_of (pheap s2) x = (rec_of (pheap s1) x)\<lparr>ref_count := ref_count (rec_of (pheap s1) x) + (if x = l then 1 else 0)\<rparr>"
    by (rule yieldsE1 [OF record_copy_books [OF s1(3) f _ cf l v1]]) (use s1(2,7) in \<open>simp, blast\<close>)
  obtain h where h: "node_push_import (pheap s2) (head_of rg) f = Some (h, Some f)"
      "books_ok recs roots (s2\<lparr>pheap := h\<rparr>) ((f # rg) # live) W" "\<forall>x. rec_of h x = rec_of (pheap s2) x"
    by (rule yieldsE2 [OF push_books [OF s2(2)]]) blast
  let ?s3 = "s2\<lparr>pheap := h\<rparr>"
  have g: "ps @ l # qs \<in> set live" using snoc.prems(2) by simp
  have "chain h (ps @ l # qs)" using books_D(1) [OF h(2), of "ps @ l # qs"] g by simp
  then obtain c where c: "h l = Some c" "nprev c = last_of ps" using chain_prev by blast
  have k3: "keeps (pheap s) h {f}"
    unfolding keeps_def using s1(2) s2(6) h(3) by (metis insertCI)
  have v3: "fields_ok recs ?s3" using s2(4) h(3) by (simp add: fields_ok_def)
  obtain s4 where s4: "copy_group aux ?s3 (last_of ps) (Some f) = Some (s4, head_of (rev fs' @ f # rg))"
      "books_ok recs roots s4 ((rev fs' @ f # rg) # live) W" "fields_ok recs s4" "fifo_list (pfifos s4 ! aux) = rest"
      "\<forall>j. j \<noteq> aux \<longrightarrow> pfifos s4 ! j = pfifos s1 ! j" "length (pfifos s4) = length (pfifos s1)"
      "list_all2 (\<lambda>f l. same_row (rec_of (pheap s4) f) (rec_of h l)) (rev fs') ps" "keeps h (pheap s4) (set fs')"
    by (rule yieldsE2 [OF snoc.IH [OF h(2), of "l # qs" fs']]) (use g snoc.prems(3,5) s1(4) s2(3) fs v3 in \<open>simp_all\<close>)
  have eq: "copy_group aux s (last_of (ps @ [l])) (head_of rg) = Some (s4, head_of (rev fs' @ f # rg))"
    using s1(1) s2(1) h(1) c s4(1) by (simp add: copy_group.simps [of aux s] last_of_def [of "ps @ [l]"])
  have "set (fifo_list (pfifos s1 ! aux)) \<subseteq> set (root_list roots s1)" using snoc.prems(3) by (auto simp: root_list_def)
  then have "set (map Some fs') \<subseteq> set (root_list roots s1)" using s1(4) by simp
  then have ro: "set fs' \<subseteq> rooted roots s1" by (auto simp: rooted_def)
  have disj: "set fs' \<inter> set (concat ?live) = {}" using places_apart(4) [OF books_D(3) [OF s1(3)]] ro by blast
  then have ff: "f \<notin> set fs'" by auto
  have np: "f \<notin> set ps" using books_D(2) [OF s1(3)] g by fastforce
  have la: "list_all2 (\<lambda>f l. same_row (rec_of (pheap s4) f) (rec_of (pheap s) l)) (rev fs') ps"
    by (rule list.rel_mono_strong [OF s4(7)]) (use np keeps_row(2) [OF k3] in \<open>metis singletonD\<close>)
  have "same_row (rec_of h f) (rec_of (pheap s) l)" using s2(5) h(3) s1(2) by simp
  then have "same_row (rec_of (pheap s4) f) (rec_of (pheap s) l)" using keeps_row(1) [OF s4(8) ff] by blast
  then have "list_all2 (\<lambda>f l. same_row (rec_of (pheap s4) f) (rec_of (pheap s) l)) (rev fs) (ps @ [l])"
    using la by (simp add: fs list_all2_appendI)
  moreover have "keeps (pheap s) (pheap s4) (set fs)" using keeps_trans [OF k3 s4(8)] by (simp add: fs)
  ultimately show ?case using eq s4(2-6) s1(5,6) by (simp add: fs)
qed

text \<open>
  A copy of a copy does not keep the original alive: when the copy between them is recycled, the
  original goes back to its root fifo while the row it holds is still shown by the second copy.
\<close>

lemma copy_of_copy:
  assumes B: "books_ok recs roots s ([b] # live) W"
    and a: "a \<in> W" "copies_of (pheap s) (set (concat ([b] # live))) a = {b}"
  shows "yields (fqlprocess_recycle roots s (Some b)) (\<lambda>s'. a \<in> rooted roots s' \<and> keeps (pheap s) (pheap s') {b})"
proof -
  obtain s' W' where s': "fqlprocess_recycle roots s (Some b) = Some s'" "books_ok recs roots s' live W'" "keeps (pheap s) (pheap s') {b}"
    using recycle_books [OF B] by (auto simp: yields_exists)
  note P = books_D(3) [OF B] and P' = books_D(3) [OF s'(2)]
  have "a \<in> recs" using places_alloc(1) [OF P] a(1) by blast
  moreover have "a \<notin> set (concat live)" using places_apart(1) [OF P] a(1) by auto
  moreover have "a \<notin> W'"
  proof
    assume "a \<in> W'"
    then obtain x where "x \<in> copies_of (pheap s') (set (concat live)) a"
      using counts_D(3) [OF books_D(4) [OF s'(2)]] by blast
    then have x: "x \<in> set (concat live)" "rec_copy_node (rec_of (pheap s') x) = Some a"
      unfolding copies_of_def by blast+
    have "x \<noteq> b" using books_D(2) [OF B] x(1) by auto
    then have "x \<in> copies_of (pheap s) (set (concat ([b] # live))) a"
      using x keeps_copy [OF s'(3), of x] by (auto simp: copies_of_def)
    then show False using a(2) \<open>x \<noteq> b\<close> by blast
  qed
  ultimately have "a \<in> rooted roots s'" using places_recs [OF P'] by blast
  then show ?thesis using s' by simp
qed

section \<open>Sample pipes\<close>

text \<open>Records on their own in one plan with one root fifo, for concrete instances.\<close>

definition sample_pipes :: "nat list \<Rightarrow> (nat option \<times> nat) list \<Rightarrow> pipes" where
  "sample_pipes spare rs = \<lparr>pheap = (\<lambda>i. if i < length rs
       then Some \<lparr>ndata = (record_construct 0)\<lparr>rec_copy_node := fst (rs ! i), ref_count := snd (rs ! i)\<rparr>, nprev = None, nnext = None\<rparr> else None),
     pfifos = [\<lparr>buf = \<lparr>vdata = map Some spare @ replicate (9 - length spare) None, vsize = 8, valloc = 9\<rparr>,
       shared_mutex_fifo = None, input_count = 1, head = of_nat (length spare), tail = 0, iter_head = 0, is_open = True, siglog = []\<rparr>]\<rparr>"

lemma sample_pipes_rec: "i < length rs \<Longrightarrow>
    rec_of (pheap (sample_pipes spare rs)) i = (record_construct 0)\<lparr>rec_copy_node := fst (rs ! i), ref_count := snd (rs ! i)\<rparr>"
  "i < length rs \<Longrightarrow> lone (pheap (sample_pipes spare rs)) i" "i < length rs \<Longrightarrow> chain (pheap (sample_pipes spare rs)) [i]"
  by (simp_all add: sample_pipes_def rec_of_def lone_def chain_dlist dlist_def)

lemma sample_pipes_list:
  assumes "length spare < 8"
  shows "fifo_ok (pfifos (sample_pipes spare rs) ! 0)" "fifo_list (pfifos (sample_pipes spare rs) ! 0) = map Some spare"
    "vsize (buf (pfifos (sample_pipes spare rs) ! 0)) = 8" "length (pfifos (sample_pipes spare rs)) = 1"
proof -
  have u: "unat (of_nat (length spare) :: 32 word) = length spare" using assms by (simp add: unat_of_nat)
  show "fifo_ok (pfifos (sample_pipes spare rs) ! 0)" using assms u by (simp add: sample_pipes_def fifo_ok_def vec_ok_def)
  show "fifo_list (pfifos (sample_pipes spare rs) ! 0) = map Some spare"
    using assms u by (intro nth_equalityI) (simp_all add: sample_pipes_def fifo_list_def fifo_len_def vec_list_def nth_append)
qed (simp_all add: sample_pipes_def)

lemma sample_pipes_books:
  assumes "length rs < 8" "distinct (spare @ ls @ ws)" "set (spare @ ls @ ws) = {..<length rs}"
    "\<forall>a \<in> set ls. snd (rs ! a) = length (filter (\<lambda>x. fst (rs ! x) = Some a) ls) + 1"
    "\<forall>a \<in> set ws. snd (rs ! a) = length (filter (\<lambda>x. fst (rs ! x) = Some a) ls) \<and> 0 < snd (rs ! a)"
    "\<forall>a \<in> set spare. snd (rs ! a) = 1" "\<forall>a \<in> set (spare @ ws). fst (rs ! a) = None"
    "\<forall>x \<in> set ls. \<forall>a. fst (rs ! x) = Some a \<longrightarrow> a \<in> set (ls @ ws) \<and> a \<noteq> x"
  shows "books_ok {..<length rs} [0] (sample_pipes spare rs) (map (\<lambda>a. [a]) ls) (set ws)"
proof -
  have "length (spare @ ls @ ws) = length rs" using distinct_card [OF assms(2)] assms(3) by simp
  then have l: "length spare < 8" using assms(1) by simp
  have lt: "a < length rs" if "a \<in> set spare \<or> a \<in> set ls \<or> a \<in> set ws" for a using assms(3) that by auto
  have cl: "length (filter P ls) = card {x \<in> set ls. P x}" for P
    using distinct_length_filter [of ls P] assms(2) by (simp add: Int_def conj_commute)
  have rl: "root_list [0] (sample_pipes spare rs) = map Some spare" by (simp add: root_list_def sample_pipes_list(2) [OF l])
  have ro: "rooted [0] (sample_pipes spare rs) = set spare" by (auto simp: rooted_def rl)
  have as: "assigned {..<length rs} (sample_pipes spare rs) 0 = {..<length rs}"
    by (auto simp: assigned_def sample_pipes_rec record_construct_def)
  have co: "copies_of (pheap (sample_pipes spare rs)) (set ls) a = {x \<in> set ls. fst (rs ! x) = Some a}" for a
    using lt by (auto simp: copies_of_def sample_pipes_rec)
  have "roots_ok {..<length rs} [0] (sample_pipes spare rs)"
    using assms(1) lt by (auto simp: roots_ok_def as sample_pipes_list [OF l] sample_pipes_rec record_construct_def)
  then have "places {..<length rs} [0] (sample_pipes spare rs) (set ls) (set ws) {}"
    using assms(2,3) by (auto simp: places_def rl ro distinct_map) (auto simp: sample_pipes_def)
  moreover have "counts_ok (pheap (sample_pipes spare rs)) (set ls) (set ws) (set spare) {}"
    using lt assms(4-8) unfolding counts_ok_def co cl by (auto simp: sample_pipes_rec) (metis (mono_tags, lifting) card.empty empty_Collect_eq less_numeral_extra(3))
  ultimately show ?thesis using assms(2) lt by (auto simp: books_ok_def ro sample_pipes_rec(3))
qed

end
