(* ===== verification/Select.thy ===== *)
theory Select
  imports Expression ExprOps Sample
begin

text \<open>
  What a SELECT does with a row group (lib/fqlselect.c): hand it to the caller of the library
  (\<open>_select_record_api\<close>), write it for a later ORDER BY (\<open>_select_record_order_api\<close>), add it to
  the set of an IN subquery, or make it the value of a subquery. An operation runs on the store
  of expressions and the select; what is written through a \<open>FILE\<close> is the text \<open>sel_file\<close>. The
  delimited output of \<open>writer.c\<close> is a parameter.
\<close>

section \<open>Bytes of numbers\<close>

text \<open>A number in memory, in the byte order of the supported platforms.\<close>

fun num_bytes :: "nat \<Rightarrow> nat \<Rightarrow> string" where
  "num_bytes 0 n = []"
| "num_bytes (Suc k) n = char_of n # num_bytes k (n div 256)"

fun bytes_num :: "string \<Rightarrow> nat" where
  "bytes_num [] = 0"
| "bytes_num (c # cs) = of_char c + 256 * bytes_num cs"

lemma num_bytes_length [simp]: "length (num_bytes k n) = k"
  by (induction k arbitrary: n) auto

lemma bytes_num_bytes: "bytes_num (num_bytes k n) = n mod 256 ^ k"
  by (induction k arbitrary: n) (auto simp: mod_mult2_eq)

lemma bytes_num_u64 [simp]: "of_nat (bytes_num (num_bytes 8 (unat w))) = (w :: 64 word)"
  using unsigned_less [where 'b = 64 and 'a = nat and w = w] by (simp add: bytes_num_bytes)

text \<open>Reading \<open>n\<close> bytes at an offset of a file; outside of it there is no memory.\<close>

definition bytes_at :: "string \<Rightarrow> nat \<Rightarrow> nat \<Rightarrow> string option" where
  "bytes_at file i n = (if i + n \<le> length file then Some (take n (drop i file)) else None)"

lemma bytes_at_append: "bytes_at (xs @ ys @ zs) (length xs) (length ys) = Some ys"
  by (simp add: bytes_at_def)

section \<open>Data\<close>

record 'f api_field =
  api_type :: field_type
  api_null :: bool
  api_data :: "'f field"

text \<open>
  \<open>sel_exprs\<close>, \<open>sel_top\<close> and \<open>sel_const\<close> are those of \<open>current_select\<close>, which is the select itself
  (\<open>sel_own\<close>) or one of those that follow with UNION; \<open>union_selects\<close> and the iterator
  \<open>_union_node\<close> are lists.
\<close>

record select_part =
  part_exprs :: "nat list"
  part_top :: nat
  part_const :: bool

record 'f fqlselect =
  sel_own :: select_part
  sel_exprs :: "nat list"
  union_selects :: "select_part list"
  union_node :: "select_part list"
  sel_api :: "'f api_field list"
  sel_file :: string
  sel_offset :: nat
  sel_rownum :: nat
  sel_rows :: nat
  sel_top :: nat
  sel_const :: bool
  must_run_once :: bool
  sel_const_dest :: "nat option"
  sel_list :: "nat hashtab option"

type_synonym ('f, 're, 'a) selact = "(('f, 're) store \<times> 'f fqlselect, 'a) act"

definition on_fst :: "('s, 'a) act \<Rightarrow> ('s \<times> 't, 'a) act" where
  "on_fst m st = (case m (fst st) of (r, s) \<Rightarrow> (r, (s, snd st)))"

definition on_snd :: "('t \<Rightarrow> 't option) \<Rightarrow> ('s \<times> 't, unit) act" where
  "on_snd f st = (case f (snd st) of None \<Rightarrow> (Crash, st) | Some t \<Rightarrow> (Good (), (fst st, t)))"

text \<open>
  \<open>try_\<close> with an out parameter: a NULL leaves what the variable held before, nothing for a
  variable that was declared only. The continuation is also given whether the value is NULL.
\<close>

definition read_or :: "'a option \<Rightarrow> ('s, 'a) act \<Rightarrow> ('a \<Rightarrow> bool \<Rightarrow> ('s, 'b) act) \<Rightarrow> ('s, 'b) act" where
  "read_or init m k s = (case m s of
     (Good a, s') \<Rightarrow> k a False s'
   | (Null (Some a), s') \<Rightarrow> k a True s'
   | (Null None, s') \<Rightarrow> (case init of None \<Rightarrow> (Crash, s') | Some a \<Rightarrow> k a True s')
   | (Fail, s') \<Rightarrow> (Fail, s')
   | (Crash, s') \<Rightarrow> (Crash, s'))"

definition type_of :: "nat \<Rightarrow> (field_type \<Rightarrow> (('f, 're) store \<times> 't, 'a) act) \<Rightarrow> (('f, 're) store \<times> 't, 'a) act" where
  "type_of i k st = (if i < length (exprs (fst st)) then k (e_type (exprs (fst st) ! i)) st else (Crash, st))"

section \<open>Rows for the caller of the library\<close>

definition set_api :: "nat \<Rightarrow> ('f api_field \<Rightarrow> 'f api_field) \<Rightarrow> ('f, 're, unit) selact" where
  "set_api j f = on_snd (\<lambda>sel. if j < length (sel_api sel)
     then Some (sel\<lparr>sel_api := (sel_api sel)[j := f (sel_api sel ! j)]\<rparr>) else None)"

definition select_field_api :: "('f, 're) ext \<Rightarrow> ('f, 're) sget \<Rightarrow> nat \<Rightarrow> nat \<Rightarrow> ('f, 're, unit) selact" where
  "select_field_api x G j i = derefA (set_api j (api_null_update (\<lambda>_. False))) (\<lambda>_. type_of i (\<lambda>t. case t of
     FIELD_INT \<Rightarrow> read_or (Some 0) (on_fst (get_int G i)) (\<lambda>n null.
       set_api j (\<lambda>f. f\<lparr>api_null := null, api_data := UInt (if null then 0 else n)\<rparr>))
   | FIELD_FLOAT \<Rightarrow> read_or (Some (f_zero (x_flt x))) (on_fst (get_float G i)) (\<lambda>n null.
       set_api j (\<lambda>f. f\<lparr>api_null := null, api_data := UFloat (if null then f_zero (x_flt x) else n)\<rparr>))
   | FIELD_STRING \<Rightarrow> read_or (Some (view_of [])) (on_fst (get_stringview G i)) (\<lambda>v null.
       if null then set_api j (\<lambda>f. f\<lparr>api_null := True, api_data := UStr []\<rparr>)
       else if sv_len v \<le> length (sv_data v) then set_api j (\<lambda>f. f\<lparr>api_data := UStr (sv_text v)\<rparr>)
       else outA Crash)
   | FIELD_UNDEFINED \<Rightarrow> outA (Good ())))"

fun each_at :: "nat \<Rightarrow> (nat \<Rightarrow> 'i \<Rightarrow> ('s, unit) act) \<Rightarrow> 'i list \<Rightarrow> ('s, unit) act" where
  "each_at j f [] = outA (Good ())"
| "each_at j f (i # is) = derefA (f j i) (\<lambda>_. each_at (j + 1) f is)"

definition count_row :: "('f, 're, nat list) selact" where
  "count_row st = (Good (sel_exprs (snd st)), (fst st, (snd st)\<lparr>sel_rownum := sel_rownum (snd st) + 1\<rparr>))"

definition select_record_api :: "('f, 're) ext \<Rightarrow> ('f, 're) sget \<Rightarrow> ('f, 're, unit) selact" where
  "select_record_api x G = derefA count_row (each_at 0 (select_field_api x G))"

section \<open>Rows for a later ORDER BY\<close>

definition put_bytes :: "string \<Rightarrow> ('f, 're, nat) selact" where
  "put_bytes bs st = (Good (length bs), (fst st, (snd st)\<lparr>sel_file := sel_file (snd st) @ bs\<rparr>))"

text \<open>The length of a text is an \<open>unsigned\<close> of four bytes in front of it.\<close>

definition put_value :: "('f, 're) ext \<Rightarrow> ('f, 're) sget \<Rightarrow> nat \<Rightarrow> ('f, 're, nat) selact" where
  "put_value x G i = type_of i (\<lambda>t. case t of
     FIELD_INT \<Rightarrow> read_or (Some 0) (on_fst (get_int G i)) (\<lambda>n _. put_bytes (num_bytes 8 (unat n)))
   | FIELD_FLOAT \<Rightarrow> read_or (Some (f_zero (x_flt x))) (on_fst (get_float G i)) (\<lambda>n _. put_bytes (num_bytes 8 (unat (f_bits (x_flt x) n))))
   | FIELD_STRING \<Rightarrow> read_or None (on_fst (get_stringview G i)) (\<lambda>v _.
       if sv_len v \<le> length (sv_data v) then put_bytes (num_bytes 4 (sv_len v) @ sv_text v) else outA Crash)
   | FIELD_UNDEFINED \<Rightarrow> outA (Good 0))"

fun put_values :: "('f, 're) ext \<Rightarrow> ('f, 're) sget \<Rightarrow> nat list \<Rightarrow> nat \<Rightarrow> ('f, 're, nat) selact" where
  "put_values x G [] len = outA (Good len)"
| "put_values x G (i # is) len = derefA (put_value x G i) (\<lambda>n. put_values x G is ((len + n) mod 4294967296))"

text \<open>The offset goes into the first record of the row group; a NULL row group has none.\<close>

definition select_record_order_api :: "('f, 're) ext \<Rightarrow> ('f, 're) sget \<Rightarrow> row_record list \<Rightarrow> ('f, 're, row_record list) selact" where
  "select_record_order_api x G rg = derefA count_row (\<lambda>is. derefA (put_values x G is 0) (\<lambda>len st.
     case rg of [] \<Rightarrow> (Crash, st)
     | rec # rest \<Rightarrow> (Good (rec\<lparr>row_offset := sel_offset (snd st)\<rparr> # rest),
         (fst st, (snd st)\<lparr>sel_offset := sel_offset (snd st) + len\<rparr>))))"

section \<open>Subqueries\<close>

definition list_add :: "string \<Rightarrow> ('f, 're, unit) selact" where
  "list_add key = on_snd (\<lambda>sel. do { l \<leftarrow> sel_list sel; l' \<leftarrow> set_nadd l key; Some (sel\<lparr>sel_list := Some l'\<rparr>) })"

definition first_expr :: "nat list \<Rightarrow> (nat \<Rightarrow> ('s, 'a) act) \<Rightarrow> ('s, 'a) act" where
  "first_expr is k = (case is of [] \<Rightarrow> outA Crash | i # _ \<Rightarrow> k i)"

definition select_record_to_list :: "('f, 're) ext \<Rightarrow> ('f, 're) sget \<Rightarrow> ('f, 're, unit) selact" where
  "select_record_to_list x G = derefA count_row (\<lambda>is. first_expr is (\<lambda>i. type_of i (\<lambda>t. case t of
     FIELD_INT \<Rightarrow> read_or (Some 0) (on_fst (get_int G i)) (\<lambda>n _. list_add (num_bytes 8 (unat n)))
   | FIELD_FLOAT \<Rightarrow> read_or (Some (f_zero (x_flt x))) (on_fst (get_float G i)) (\<lambda>n _. list_add (num_bytes 8 (unat (f_bits (x_flt x) n))))
   | FIELD_STRING \<Rightarrow> read_or None (on_fst (get_stringview G i)) (\<lambda>v _.
       if sv_len v \<le> length (sv_data v) then list_add (sv_text v) else outA Crash)
   | FIELD_UNDEFINED \<Rightarrow> outA Fail)))"

definition set_dest :: "nat \<Rightarrow> ('f expression \<Rightarrow> 'f expression) \<Rightarrow> (('f, 're) store \<times> 't, unit) act" where
  "set_dest d f st = (if d < length (exprs (fst st))
     then (Good (), (set_expr d (f (exprs (fst st) ! d)) (fst st), snd st)) else (Crash, st))"

text \<open>
  The value of a subquery: a second row is refused, unless the first one was NULL, which makes
  the destination \<open>EXPR_NULL\<close> and not \<open>EXPR_CONST\<close>.
\<close>

definition select_record_to_const :: "('f, 're) ext \<Rightarrow> ('f, 're) sget \<Rightarrow> ('f, 're, unit) selact" where
  "select_record_to_const x G = derefA count_row (\<lambda>is st. at_ptr (sel_const_dest (snd st)) (\<lambda>d.
     if \<not> d < length (exprs (fst st)) then outA Crash
     else if expr (exprs (fst st) ! d) = EXPR_CONST then outA Fail
     else first_expr is (\<lambda>i. type_of i (\<lambda>t. derefA (set_dest d (\<lambda>e. e\<lparr>e_type := t, expr := EXPR_CONST\<rparr>)) (\<lambda>_.
       case t of
         FIELD_INT \<Rightarrow> read_or (Some 0) (on_fst (get_int G i)) (\<lambda>n null.
           set_dest d (\<lambda>e. e\<lparr>expr := (if null then EXPR_NULL else expr e), e_field := UInt n\<rparr>))
       | FIELD_FLOAT \<Rightarrow> read_or (Some (f_zero (x_flt x))) (on_fst (get_float G i)) (\<lambda>n null.
           set_dest d (\<lambda>e. e\<lparr>expr := (if null then EXPR_NULL else expr e), e_field := UFloat n\<rparr>))
       | FIELD_STRING \<Rightarrow> read_or None (on_fst (get_stringview G i)) (\<lambda>v null.
           if sv_len v \<le> length (sv_data v)
           then set_dest d (\<lambda>e. e\<lparr>expr := (if null then EXPR_NULL else expr e), e_field := UStr (sv_text v)\<rparr>)
           else outA Crash)
       | FIELD_UNDEFINED \<Rightarrow> outA Fail)))) st)"

definition select_subquery :: "('f, 're, unit) selact" where
  "select_subquery = derefA count_row (\<lambda>_. outA (Good ()))"

section \<open>Unions and runs\<close>

definition fqlselect_construct :: "'f fqlselect" where
  "fqlselect_construct = \<lparr>sel_own = \<lparr>part_exprs = [], part_top = 18446744073709551615, part_const = False\<rparr>, sel_exprs = [], union_selects = [], union_node = [], sel_api = [], sel_file = [],
     sel_offset = 0, sel_rownum = 0, sel_rows = 0, sel_top = 18446744073709551615, sel_const = False, must_run_once = True,
     sel_const_dest = None, sel_list = None\<rparr>"

definition fqlselect_next_union :: "'f fqlselect \<Rightarrow> bool \<times> 'f fqlselect" where
  "fqlselect_next_union self = (case union_node self of [] \<Rightarrow> (False, self)
     | part # rest \<Rightarrow> (True, self\<lparr>sel_exprs := part_exprs part, sel_top := part_top part, sel_const := part_const part,
         union_node := rest, sel_rows := 0\<rparr>))"

definition fqlselect_verify_must_run :: "'f expression list \<Rightarrow> 'f fqlselect \<Rightarrow> 'f fqlselect" where
  "fqlselect_verify_must_run es self =
     (if must_run_once self then self\<lparr>must_run_once := list_ex (\<lambda>i. expr (es ! i) = EXPR_AGGREGATE) (part_exprs (sel_own self))\<rparr> else self)"

definition fqlselect_reset :: "('f, 're, unit) selact" where
  "fqlselect_reset = derefA (on_snd (\<lambda>self. Some (self\<lparr>sel_offset := 0, sel_rownum := 0, sel_rows := 0\<rparr>))) (\<lambda>_ st.
     derefA (case sel_const_dest (snd st) of None \<Rightarrow> outA (Good ()) | Some d \<Rightarrow> set_dest d (\<lambda>e. e\<lparr>expr := EXPR_SUBQUERY\<rparr>)) (\<lambda>_.
       on_snd (\<lambda>self. Some (self\<lparr>union_node := (if union_selects self \<noteq> [] then union_selects self else union_node self),
         sel_exprs := part_exprs (sel_own self), sel_top := part_top (sel_own self), sel_const := part_const (sel_own self)\<rparr>))) st)"

definition fqlselect_set_as_inlist :: "'f fqlselect \<Rightarrow> ('f fqlselect \<times> nat hashtab) option" where
  "fqlselect_set_as_inlist self =
     (if length (part_exprs (sel_own self)) \<noteq> 1 then None
      else let l = set_construct 16 3 in Some (self\<lparr>sel_list := Some l\<rparr>, l))"

text \<open>The types of the columns of a UNION are brought together, column by column.\<close>

definition cast_pair :: "('f, 're) ext \<Rightarrow> ('f, 're) sget \<Rightarrow> nat \<times> nat \<Rightarrow> ('f, 're, unit) sact" where
  "cast_pair x G p s = (case p of (i, j) \<Rightarrow>
     if i < length (exprs s) \<and> j < length (exprs s)
     then (let t1 = e_type (exprs s ! i); t2 = e_type (exprs s ! j); t = field_determine_type t1 t2 in
       derefA (if t \<noteq> t1 then expression_cast x G i t else outA (Good ())) (\<lambda>_.
         if t \<noteq> t2 then expression_cast x G j t else outA (Good ())) s)
     else (Crash, s))"

fun cast_pairs :: "('f, 're) ext \<Rightarrow> ('f, 're) sget \<Rightarrow> (nat \<times> nat) list \<Rightarrow> ('f, 're, unit) sact" where
  "cast_pairs x G [] = outA (Good ())"
| "cast_pairs x G (p # ps) = derefA (cast_pair x G p) (\<lambda>_. cast_pairs x G ps)"

definition fqlselect_resolve_final_types :: "('f, 're) ext \<Rightarrow> ('f, 're) sget \<Rightarrow> 'f fqlselect \<Rightarrow> ('f, 're, unit) sact" where
  "fqlselect_resolve_final_types x G self =
     (let own = part_exprs (sel_own self); parts = map part_exprs (union_selects self) in
      if list_all (\<lambda>is. length own \<le> length is) parts then cast_pairs x G (concat (map (zip own) parts)) else outA Crash)"

section \<open>Values\<close>

text \<open>
  What an expression is worth for a row: what its accessor returns from any store of the
  invariant, in the type of the expression. A NULL is worth what it leaves in the variable.
\<close>

datatype 'f sqlval = VInt i64 | VFloat 'f | VText string

lemma read_or_reads:
  assumes "reads I m init v" "I s"
  shows "\<exists>s' null. I s' \<and> read_or init (on_fst m) k (s, t) = k v null (s', t)"
proof -
  obtain s' where "I s'" "m s = (Good v, s') \<or> m s = (Null (Some v), s') \<or> m s = (Null None, s') \<and> init = Some v"
    using assms unfolding reads_def by blast
  then show ?thesis by (intro exI [of _ s'], elim disjE conjE) (auto simp: read_or_def on_fst_def)
qed

definition value_read :: "'f flt \<Rightarrow> (('f, 're) store \<Rightarrow> bool) \<Rightarrow> ('f, 're) sget \<Rightarrow> nat \<Rightarrow> 'f sqlval \<Rightarrow> bool" where
  "value_read fo I G i val \<longleftrightarrow> (\<forall>s. I s \<longrightarrow> i < length (exprs s)) \<and> (case val of
     VInt n \<Rightarrow> (\<forall>s. I s \<longrightarrow> e_type (exprs s ! i) = FIELD_INT) \<and> reads I (get_int G i) (Some 0) n
   | VFloat f \<Rightarrow> (\<forall>s. I s \<longrightarrow> e_type (exprs s ! i) = FIELD_FLOAT) \<and> reads I (get_float G i) (Some (f_zero fo)) f
   | VText t \<Rightarrow> length t < 4294967296 \<and> (\<exists>v. (\<forall>s. I s \<longrightarrow> e_type (exprs s ! i) = FIELD_STRING) \<and>
       reads I (get_stringview G i) None v \<and> view_ok v \<and> sv_text v = t))"

definition value_type :: "'f sqlval \<Rightarrow> field_type" where
  "value_type val = (case val of VInt _ \<Rightarrow> FIELD_INT | VFloat _ \<Rightarrow> FIELD_FLOAT | VText _ \<Rightarrow> FIELD_STRING)"

definition value_field :: "'f sqlval \<Rightarrow> 'f field" where
  "value_field val = (case val of VInt n \<Rightarrow> UInt n | VFloat f \<Rightarrow> UFloat f | VText t \<Rightarrow> UStr t)"

lemma value_read_type: "value_read fo I G i val \<Longrightarrow> I s \<Longrightarrow> i < length (exprs s) \<and> e_type (exprs s ! i) = value_type val"
  by (auto simp: value_read_def value_type_def split: sqlval.splits)

definition value_bytes :: "'f flt \<Rightarrow> 'f sqlval \<Rightarrow> string" where
  "value_bytes fo val = (case val of
     VInt n \<Rightarrow> num_bytes 8 (unat n) | VFloat f \<Rightarrow> num_bytes 8 (unat (f_bits fo f)) | VText t \<Rightarrow> num_bytes 4 (length t) @ t)"

lemma put_value_spec:
  assumes "value_read (x_flt x) I G i val" "I s"
  shows "\<exists>s'. put_value x G i (s, sel) = (Good (length (value_bytes (x_flt x) val)),
    (s', sel\<lparr>sel_file := sel_file sel @ value_bytes (x_flt x) val\<rparr>)) \<and> I s'"
proof -
  have t: "i < length (exprs s)" "e_type (exprs s ! i) = value_type val" using value_read_type [OF assms] by auto
  show ?thesis
  proof (cases val)
    case (VInt n)
    have "reads I (get_int G i) (Some 0) n" using assms(1) by (simp add: value_read_def VInt)
    from read_or_reads [OF this assms(2), where t = sel and k = "\<lambda>n _. put_bytes (num_bytes 8 (unat n))"]
    show ?thesis using t by (auto simp: put_value_def type_of_def value_type_def VInt put_bytes_def value_bytes_def)
  next
    case (VFloat f)
    have "reads I (get_float G i) (Some (f_zero (x_flt x))) f" using assms(1) by (simp add: value_read_def VFloat)
    from read_or_reads [OF this assms(2), where t = sel and k = "\<lambda>n _. put_bytes (num_bytes 8 (unat (f_bits (x_flt x) n)))"]
    show ?thesis using t by (auto simp: put_value_def type_of_def value_type_def VFloat put_bytes_def value_bytes_def)
  next
    case (VText tx)
    obtain v where v: "reads I (get_stringview G i) None v" "view_ok v" "sv_text v = tx"
      using assms(1) by (auto simp: value_read_def VText)
    from read_or_reads [OF v(1) assms(2), where t = sel and k = "\<lambda>v _. if sv_len v \<le> length (sv_data v) then put_bytes (num_bytes 4 (sv_len v) @ sv_text v) else outA Crash"]
    show ?thesis using t v(2,3) sv_text_length [OF v(2)]
      by (auto simp: put_value_def type_of_def value_type_def VText put_bytes_def value_bytes_def view_ok_def)
  qed
qed

definition row_bytes :: "'f flt \<Rightarrow> (nat \<Rightarrow> 'f sqlval) \<Rightarrow> nat list \<Rightarrow> string" where
  "row_bytes fo v is = concat (map (\<lambda>i. value_bytes fo (v i)) is)"

lemma row_bytes_simps [simp]: "row_bytes fo v [] = []" "row_bytes fo v (i # is) = value_bytes fo (v i) @ row_bytes fo v is"
  by (simp_all add: row_bytes_def)

lemma put_values_spec:
  "\<forall>i \<in> set is. value_read (x_flt x) I G i (v i) \<Longrightarrow> I s \<Longrightarrow> len + length (row_bytes (x_flt x) v is) < 4294967296 \<Longrightarrow>
   \<exists>s'. put_values x G is len (s, sel) = (Good (len + length (row_bytes (x_flt x) v is)),
     (s', sel\<lparr>sel_file := sel_file sel @ row_bytes (x_flt x) v is\<rparr>)) \<and> I s'"
proof (induction "is" arbitrary: s sel len)
  case (Cons i "is")
  let ?b = "value_bytes (x_flt x) (v i)"
  obtain s1 where s1: "put_value x G i (s, sel) = (Good (length ?b), (s1, sel\<lparr>sel_file := sel_file sel @ ?b\<rparr>))" "I s1"
    using put_value_spec [of x I G i "v i" s sel] Cons.prems by auto
  have "len + length ?b < 4294967296" using Cons.prems(3) by simp
  then show ?case
    using Cons.IH [OF _ s1(2), of "len + length ?b" "sel\<lparr>sel_file := sel_file sel @ ?b\<rparr>"] Cons.prems(1,3) s1(1) by (simp add: add.assoc)
qed (simp add: outA_def)

lemma select_record_order_api_spec:
  assumes "\<forall>i \<in> set (sel_exprs sel). value_read (x_flt x) I G i (v i)" "I s"
    "length (row_bytes (x_flt x) v (sel_exprs sel)) < 4294967296"
  shows "\<exists>s'. select_record_order_api x G (rec # rest) (s, sel) = (Good (rec\<lparr>row_offset := sel_offset sel\<rparr> # rest),
    (s', sel\<lparr>sel_rownum := sel_rownum sel + 1, sel_file := sel_file sel @ row_bytes (x_flt x) v (sel_exprs sel),
      sel_offset := sel_offset sel + length (row_bytes (x_flt x) v (sel_exprs sel))\<rparr>)) \<and> I s'"
  using put_values_spec [OF assms(1,2), of 0 "sel\<lparr>sel_rownum := sel_rownum sel + 1\<rparr>"] assms(3)
  by (auto simp: select_record_order_api_def count_row_def)

text \<open>A row without a row group cannot be written for ORDER BY: there is no record for its offset.\<close>

lemma select_order_api_null_row: "put_values x G (sel_exprs sel) 0 (s, sel\<lparr>sel_rownum := sel_rownum sel + 1\<rparr>) = (Good n, st) \<Longrightarrow>
    fst (select_record_order_api x G [] (s, sel)) = Crash"
  by (simp add: select_record_order_api_def count_row_def)

end
