(* ===== verification/Orderby.thy ===== *)
theory Orderby
  imports Select "HOL-Library.Multiset"
begin

text \<open>
  ORDER BY and TOP (lib/order.c). The rows themselves are in a file, written by the SELECT in
  front; of every row the order keeps where it is in the file and the values of the ORDER BY
  expressions, packed in a \<open>flex\<close>. Sorting is \<open>qsort_r\<close> of the C library, a parameter; the file
  mapped into memory is the text that was written.
\<close>

section \<open>Data\<close>

record entry =
  ent_idx :: nat
  ent_offset :: nat
  ent_len :: nat

datatype order_select_fn = Order_select | Order_select_api | Order_select_to_const

text \<open>\<open>o_rows\<close> is \<open>rows_affected\<close> of the process; \<open>out_text\<close> is what went to \<open>out_file\<close>.\<close>

record 'f order =
  o_exprs :: "nat list"
  o_entries :: "entry vec"
  order_data :: flex
  o_select :: order_select_fn
  o_api :: "'f api_field list"
  o_const_dest :: "nat option"
  out_text :: string
  entry_iter :: "nat option"
  o_mmap :: "string option"
  top_count :: nat
  o_sorted :: bool
  o_rows :: nat

type_synonym ('f, 're, 'a) ordact = "(('f, 're) store \<times> 'f order, 'a) act"

definition order_construct :: "'f order" where
  "order_construct = \<lparr>o_exprs = [], o_entries = vec_construct, order_data = flex_construct, o_select = Order_select,
     o_api = [], o_const_dest = None, out_text = [], entry_iter = None, o_mmap = None,
     top_count = 18446744073709551615, o_sorted = False, o_rows = 0\<rparr>"

definition order_init_io :: "'f order \<Rightarrow> 'f order" where
  "order_init_io self = self\<lparr>o_sorted := False, o_entries := vec_clear (o_entries self), order_data := flex_clear (order_data self),
     o_mmap := None\<rparr>"

definition order_set_const_dest :: "'f order \<Rightarrow> nat \<Rightarrow> 'f order" where
  "order_set_const_dest self d = self\<lparr>o_const_dest := Some d, o_select := Order_select_to_const\<rparr>"

definition order_connect_api :: "'f order \<Rightarrow> 'f api_field list \<Rightarrow> 'f order" where
  "order_connect_api self api_vec = self\<lparr>o_select := Order_select_api, o_api := api_vec\<rparr>"

definition order_add_expression :: "'f order \<Rightarrow> nat \<Rightarrow> 'f expression list \<Rightarrow> ('f order \<times> 'f expression list) option" where
  "order_add_expression self i es =
     (if i < length es
      then Some (self\<lparr>o_exprs := o_exprs self @ [i]\<rparr>, es[i := (es ! i)\<lparr>e_index := length (o_exprs self)\<rparr>])
      else None)"

section \<open>Adding a row\<close>

definition push_order :: "string \<Rightarrow> ('f, 're, unit) ordact" where
  "push_order bs = on_snd (\<lambda>self. do { d \<leftarrow> flex_push_back (order_data self) bs; Some (self\<lparr>order_data := d\<rparr>) })"

definition add_key :: "('f, 're) ext \<Rightarrow> ('f, 're) sget \<Rightarrow> nat \<Rightarrow> ('f, 're, unit) ordact" where
  "add_key x G i = type_of i (\<lambda>t. case t of
     FIELD_INT \<Rightarrow> read_or (Some 0) (on_fst (get_int G i)) (\<lambda>n _. push_order (num_bytes 8 (unat n)))
   | FIELD_FLOAT \<Rightarrow> read_or (Some (f_zero (x_flt x))) (on_fst (get_float G i)) (\<lambda>n _. push_order (num_bytes 8 (unat (f_bits (x_flt x) n))))
   | FIELD_STRING \<Rightarrow> read_or None (on_fst (get_stringview G i)) (\<lambda>v _.
       if sv_len v \<le> length (sv_data v) then push_order (sv_text v) else outA Crash)
   | FIELD_UNDEFINED \<Rightarrow> outA Fail)"

fun add_keys :: "('f, 're) ext \<Rightarrow> ('f, 're) sget \<Rightarrow> nat list \<Rightarrow> ('f, 're, unit) ordact" where
  "add_keys x G [] = outA (Good ())"
| "add_keys x G (i # is) = derefA (add_key x G i) (\<lambda>_. add_keys x G is)"

definition order_add_record :: "('f, 're) ext \<Rightarrow> ('f, 're) sget \<Rightarrow> row_record list \<Rightarrow> ('f, 're, unit) ordact" where
  "order_add_record x G rg st = (case rg of [] \<Rightarrow> (Crash, st) | rec # _ \<Rightarrow>
     (let self = snd st; entry = \<lparr>ent_idx = flex_size (order_data self), ent_offset = row_offset rec, ent_len = select_len rec\<rparr> in
      derefA (add_keys x G (o_exprs self)) (\<lambda>_. on_snd (\<lambda>self. do {
        es \<leftarrow> vec_push_back (o_entries self) (Some entry);
        Some (self\<lparr>o_entries := es\<rparr>)
      })) st))"

section \<open>Sorting\<close>

definition word_at :: "flex \<Rightarrow> nat \<Rightarrow> u64 option" where
  "word_at f idx = do {
     i \<leftarrow> flex_at f idx;
     cells \<leftarrow> mem_read i 8 (vdata (raw f));
     bs \<leftarrow> those cells;
     Some (of_nat (bytes_num bs))
   }"

definition text_at :: "flex \<Rightarrow> nat \<Rightarrow> string option" where
  "text_at f idx = do {
     v \<leftarrow> flex_pair_at f idx;
     if view_ok v then Some (sv_text v) else None
   }"

definition long_compare :: "i64 \<Rightarrow> i64 \<Rightarrow> int" where
  "long_compare a b = of_bool (sint b < sint a) - of_bool (sint a < sint b)"

definition double_compare :: "'f flt \<Rightarrow> 'f \<Rightarrow> 'f \<Rightarrow> int" where
  "double_compare fo a b = of_bool (f_lt fo b a) - of_bool (f_lt fo a b)"

definition compare_at :: "'f flt \<Rightarrow> flex \<Rightarrow> field_type \<Rightarrow> nat \<Rightarrow> nat \<Rightarrow> int option" where
  "compare_at fo d t idx0 idx1 = (case t of
     FIELD_INT \<Rightarrow> do { a \<leftarrow> word_at d idx0; b \<leftarrow> word_at d idx1; Some (long_compare a b) }
   | FIELD_FLOAT \<Rightarrow> do { a \<leftarrow> word_at d idx0; b \<leftarrow> word_at d idx1; Some (double_compare fo (f_of_bits fo a) (f_of_bits fo b)) }
   | FIELD_STRING \<Rightarrow> do { a \<leftarrow> text_at d idx0; b \<leftarrow> text_at d idx1; Some (stringview_compare_nocase_rtrim a b) }
   | FIELD_UNDEFINED \<Rightarrow> Some 0)"

fun compare_keys :: "'f flt \<Rightarrow> flex \<Rightarrow> 'f expression list \<Rightarrow> nat \<Rightarrow> nat \<Rightarrow> int option" where
  "compare_keys fo d [] idx0 idx1 = Some 0"
| "compare_keys fo d (e # es) idx0 idx1 = do {
     c \<leftarrow> compare_at fo d (e_type e) idx0 idx1;
     let ret = (if descending e then - c else c);
     if ret = 0 then compare_keys fo d es (idx0 + 1) (idx1 + 1) else Some ret
   }"

definition order_compare :: "'f flt \<Rightarrow> 'f expression list \<Rightarrow> 'f order \<Rightarrow> entry \<Rightarrow> entry \<Rightarrow> int option" where
  "order_compare fo es self a b = compare_keys fo (order_data self) (map ((!) es) (o_exprs self)) (ent_idx a) (ent_idx b)"

text \<open>
  \<open>qs\<close> is \<open>qsort_r\<close> on the entries, \<open>file\<close> what \<open>open\<close> finds. An empty file is not mapped, and
  leaves \<open>entry_iter\<close> as it was.
\<close>

type_synonym entry_sort = "(entry \<Rightarrow> entry \<Rightarrow> int) \<Rightarrow> entry list \<Rightarrow> entry list"

definition order_sort :: "entry_sort \<Rightarrow> 'f flt \<Rightarrow> 'f expression list \<Rightarrow> string option \<Rightarrow> ('f order, unit) act" where
  "order_sort qs fo es file self = (case those (vec_list (o_entries self)) of
     None \<Rightarrow> (Crash, self)
   | Some ents \<Rightarrow>
       if list_all (\<lambda>i. i < length es) (o_exprs self) \<and> list_all (\<lambda>a. list_all (\<lambda>b. order_compare fo es self a b \<noteq> None) ents) ents
       then (let ents' = qs (\<lambda>a b. the (order_compare fo es self a b)) ents;
               self1 = self\<lparr>o_entries := (o_entries self)\<lparr>vdata := map Some ents' @ drop (length ents') (vdata (o_entries self))\<rparr>, o_sorted := True\<rparr>
             in case file of
                  None \<Rightarrow> (Fail, self1)
                | Some bytes \<Rightarrow> if bytes = [] then (Good (), self1)
                    else (Good (), self1\<lparr>o_mmap := Some bytes, entry_iter := Some 0\<rparr>))
       else (Crash, self))"

section \<open>Handing out the rows\<close>

definition entry_at :: "'f order \<Rightarrow> nat \<Rightarrow> entry option" where
  "entry_at self k = do { cell \<leftarrow> vec_at (o_entries self) k; cell }"

fun write_entries :: "nat \<Rightarrow> nat \<Rightarrow> ('f order, unit) act" where
  "write_entries k 0 self = (Good (), self)"
| "write_entries k (Suc n) self =
     (if o_rows self < top_count self
      then (case (do { e \<leftarrow> entry_at self k; mm \<leftarrow> o_mmap self; bytes_at mm (ent_offset e) (ent_len e) }) of
          None \<Rightarrow> (Crash, self)
        | Some bs \<Rightarrow> write_entries (k + 1) n (self\<lparr>out_text := out_text self @ bs, o_rows := o_rows self + 1\<rparr>))
      else (Good (), self))"

definition order_select :: "('f order, bool) act" where
  "order_select self = derefA (write_entries 0 (vsize (o_entries self))) (\<lambda>_. outA (Good False)) self"

fun read_fields :: "'f flt \<Rightarrow> string \<Rightarrow> nat \<Rightarrow> 'f api_field list \<Rightarrow> 'f api_field list outcome" where
  "read_fields fo mm offset [] = Good []"
| "read_fields fo mm offset (it # its) =
     (case api_type it of
        FIELD_INT \<Rightarrow> (case bytes_at mm offset 8 of None \<Rightarrow> Crash
          | Some bs \<Rightarrow> o_bind (read_fields fo mm (offset + 8) its) (\<lambda>r. Good (it\<lparr>api_data := UInt (of_nat (bytes_num bs))\<rparr> # r)))
      | FIELD_FLOAT \<Rightarrow> (case bytes_at mm offset 8 of None \<Rightarrow> Crash
          | Some bs \<Rightarrow> o_bind (read_fields fo mm (offset + 8) its) (\<lambda>r. Good (it\<lparr>api_data := UFloat (f_of_bits fo (of_nat (bytes_num bs)))\<rparr> # r)))
      | FIELD_STRING \<Rightarrow> (case bytes_at mm offset 4 of None \<Rightarrow> Crash
          | Some ns \<Rightarrow> (let len = bytes_num ns in case bytes_at mm (offset + 4) len of None \<Rightarrow> Crash
              | Some bs \<Rightarrow> o_bind (read_fields fo mm (offset + 4 + len) its) (\<lambda>r. Good (it\<lparr>api_data := UStr bs\<rparr> # r))))
      | FIELD_UNDEFINED \<Rightarrow> Fail)"

text \<open>The NULL of \<open>entry_iter\<close> is not the end of the entries, which have a block of their own.\<close>

definition order_select_api :: "'f flt \<Rightarrow> ('f order, bool) act" where
  "order_select_api fo self = (case entry_iter self of
     None \<Rightarrow> (Crash, self)
   | Some k \<Rightarrow> if k = vsize (o_entries self) then (Good False, self)
       else (case (entry_at self k, o_mmap self) of
           (Some e, Some mm) \<Rightarrow> (case read_fields fo mm (ent_offset e) (o_api self) of
               Good fs \<Rightarrow> (Good True, self\<lparr>o_api := fs, o_rows := o_rows self + 1, entry_iter := Some (k + 1)\<rparr>)
             | Fail \<Rightarrow> (Fail, self) | _ \<Rightarrow> (Crash, self))
         | _ \<Rightarrow> (Crash, self)))"

definition dest_field :: "'f flt \<Rightarrow> string \<Rightarrow> nat \<Rightarrow> field_type \<Rightarrow> 'f field outcome" where
  "dest_field fo mm offset t = o_bind (read_fields fo mm offset [\<lparr>api_type = t, api_null = False, api_data = UInt 0\<rparr>])
     (\<lambda>fs. case fs of [f] \<Rightarrow> Good (api_data f) | _ \<Rightarrow> Crash)"

definition order_select_to_const :: "'f flt \<Rightarrow> ('f, 're, bool) ordact" where
  "order_select_to_const fo st = (let self = snd st in at_ptr (o_const_dest self) (\<lambda>d.
     if vsize (o_entries self) = 0 \<or> top_count self = 0
     then derefA (set_dest d (\<lambda>e. e\<lparr>expr := EXPR_NULL\<rparr>)) (\<lambda>_. outA (Good False))
     else if 1 < vsize (o_entries self) \<and> 1 < top_count self then outA Fail
     else first_expr (o_exprs self) (\<lambda>i. type_of i (\<lambda>t.
       derefA (set_dest d (\<lambda>e. e\<lparr>expr := EXPR_CONST, e_type := t\<rparr>)) (\<lambda>_.
         case (entry_at self 0, o_mmap self) of
           (Some e, Some mm) \<Rightarrow> derefA (outA (dest_field fo mm (ent_offset e) t)) (\<lambda>v.
             derefA (set_dest d (\<lambda>e. e\<lparr>e_field := v\<rparr>)) (\<lambda>_. outA (Good False)))
         | _ \<Rightarrow> outA Crash)))) st)"

text \<open>
  The end of the ORDER BY process, when its input is closed and empty: sort once, then hand out
  rows until there are no more, or TOP many. \<open>True\<close> is \<open>PROC_RETURN_COMPLETE\<close>.
\<close>

definition order_call :: "'f flt \<Rightarrow> ('f, 're, bool) ordact" where
  "order_call fo st = (case o_select (snd st) of
     Order_select \<Rightarrow> (case order_select (snd st) of (r, self) \<Rightarrow> (r, (fst st, self)))
   | Order_select_api \<Rightarrow> (case order_select_api fo (snd st) of (r, self) \<Rightarrow> (r, (fst st, self)))
   | Order_select_to_const \<Rightarrow> order_select_to_const fo st)"

definition orderby_finish :: "entry_sort \<Rightarrow> 'f flt \<Rightarrow> string option \<Rightarrow> ('f, 're, bool) ordact" where
  "orderby_finish qs fo file st =
     derefA (if o_sorted (snd st) then outA (Good ())
             else (\<lambda>st. case order_sort qs fo (exprs (fst st)) file (snd st) of (r, self) \<Rightarrow> (r, (fst st, self)))) (\<lambda>_.
       derefA (order_call fo) (\<lambda>ret st. (Good (\<not> ret \<or> top_count (snd st) \<le> o_rows (snd st)), st))) st"

end
