(* ===== verification/OrderSpec.thy ===== *)
theory OrderSpec
  imports Orderby JoinKey
begin

text \<open>
  What ORDER BY computes: the keys of the rows are compared column by column, a DESC column the
  other way round (\<open>key_cmp\<close>). On keys without control characters and NaN that comparison decides
  the order one expects (\<open>key_less\<close>), and the rows come out sorted by it, each with the values that
  were selected for it.
\<close>

section \<open>Keys\<close>

definition val_cmp :: "'f flt \<Rightarrow> 'f sqlval \<Rightarrow> 'f sqlval \<Rightarrow> int" where
  "val_cmp fo u v = (case (u, v) of
     (VInt a, VInt b) \<Rightarrow> long_compare a b
   | (VFloat a, VFloat b) \<Rightarrow> double_compare fo a b
   | (VText a, VText b) \<Rightarrow> stringview_compare_nocase_rtrim a b
   | _ \<Rightarrow> 0)"

fun key_cmp :: "'f flt \<Rightarrow> (bool \<times> 'f sqlval) list \<Rightarrow> (bool \<times> 'f sqlval) list \<Rightarrow> int" where
  "key_cmp fo ((desc, u) # us) ((_, v) # vs) =
     (let c = (if desc then - val_cmp fo u v else val_cmp fo u v) in if c = 0 then key_cmp fo us vs else c)"
| "key_cmp fo us vs = 0"

definition consistent :: "('a \<Rightarrow> 'a \<Rightarrow> int) \<Rightarrow> 'a set \<Rightarrow> bool" where
  "consistent cmp A \<longleftrightarrow> (\<forall>a \<in> A. \<forall>b \<in> A. (cmp a b \<le> 0 \<or> cmp b a \<le> 0) \<and> (cmp a b < 0 \<longleftrightarrow> 0 < cmp b a) \<and>
     (\<forall>c \<in> A. cmp a b \<le> 0 \<longrightarrow> cmp b c \<le> 0 \<longrightarrow> cmp a c \<le> 0))"

text \<open>What \<open>qsort_r\<close> promises: sorted by any comparison that is consistent.\<close>

definition sorts :: "(('a \<Rightarrow> 'a \<Rightarrow> int) \<Rightarrow> 'a list \<Rightarrow> 'a list) \<Rightarrow> bool" where
  "sorts qs \<longleftrightarrow> (\<forall>cmp xs. consistent cmp (set xs) \<longrightarrow> mset (qs cmp xs) = mset xs \<and> sorted_wrt (\<lambda>a b. cmp a b \<le> 0) (qs cmp xs))"

fun insert_by :: "('a \<Rightarrow> 'a \<Rightarrow> int) \<Rightarrow> 'a \<Rightarrow> 'a list \<Rightarrow> 'a list" where
  "insert_by cmp x [] = [x]"
| "insert_by cmp x (y # ys) = (if cmp x y \<le> 0 then x # y # ys else y # insert_by cmp x ys)"

definition sort_by :: "('a \<Rightarrow> 'a \<Rightarrow> int) \<Rightarrow> 'a list \<Rightarrow> 'a list" where
  "sort_by cmp xs = foldr (insert_by cmp) xs []"

lemma insert_by_mset [simp]: "mset (insert_by cmp x ys) = add_mset x (mset ys)"
  by (induction ys) auto

lemma insert_by_set [simp]: "set (insert_by cmp x ys) = insert x (set ys)"
  using insert_by_mset [of cmp x ys] by (metis set_mset_add_mset_insert set_mset_mset)

lemma consistent_subset: "consistent cmp A \<Longrightarrow> B \<subseteq> A \<Longrightarrow> consistent cmp B"
  unfolding consistent_def by (meson subsetD)

lemma insert_by_sorted:
  assumes "consistent cmp (insert x (set ys))" "sorted_wrt (\<lambda>a b. cmp a b \<le> 0) ys"
  shows "sorted_wrt (\<lambda>a b. cmp a b \<le> 0) (insert_by cmp x ys)"
  using assms
proof (induction ys)
  case (Cons y ys)
  have c: "consistent cmp (insert x (set ys))" using Cons.prems(1) by (rule consistent_subset) auto
  have "cmp x z \<le> 0" if "cmp x y \<le> 0" "z \<in> set ys" for z
    using Cons.prems that unfolding consistent_def by (metis insertCI list.set_intros(1,2) sorted_wrt.simps(2))
  moreover have "cmp y x \<le> 0" if "\<not> cmp x y \<le> 0"
    using Cons.prems(1) that unfolding consistent_def by (metis insertCI list.set_intros(1))
  ultimately show ?case using Cons.IH [OF c] Cons.prems(2) by auto
qed simp

lemma sorts_sort_by: "sorts sort_by"
proof (unfold sorts_def, intro allI impI)
  fix cmp :: "'a \<Rightarrow> 'a \<Rightarrow> int" and xs assume "consistent cmp (set xs)"
  then have "mset (sort_by cmp xs) = mset xs \<and> sorted_wrt (\<lambda>a b. cmp a b \<le> 0) (sort_by cmp xs)"
  proof (induction xs)
    case (Cons x xs)
    have c: "consistent cmp (set xs)" using Cons.prems by (rule consistent_subset) auto
    have s: "set (sort_by cmp xs) = set xs" using Cons.IH [OF c] by (metis set_mset_mset)
    have "sort_by cmp (x # xs) = insert_by cmp x (sort_by cmp xs)" by (simp add: sort_by_def)
    then show ?case using insert_by_sorted [of cmp x "sort_by cmp xs"] Cons s c by simp
  qed (simp add: sort_by_def)
  then show "mset (sort_by cmp xs) = mset xs \<and> sorted_wrt (\<lambda>a b. cmp a b \<le> 0) (sort_by cmp xs)" .
qed

section \<open>The order of the keys\<close>

text \<open>
  What sorted means, without the comparison routines of the code: integers by their value, doubles
  by \<open><\<close>, texts by the bytes of the trimmed lower case texts; a DESC column the other way round.
\<close>

definition val_less :: "'f flt \<Rightarrow> 'f sqlval \<Rightarrow> 'f sqlval \<Rightarrow> bool" where
  "val_less fo u v = (case (u, v) of
     (VInt a, VInt b) \<Rightarrow> sint a < sint b
   | (VFloat a, VFloat b) \<Rightarrow> f_lt fo a b
   | (VText a, VText b) \<Rightarrow> (rtrim (map tolower_c a), rtrim (map tolower_c b)) \<in> text_order
   | _ \<Rightarrow> False)"

fun key_less :: "'f flt \<Rightarrow> (bool \<times> 'f sqlval) list \<Rightarrow> (bool \<times> 'f sqlval) list \<Rightarrow> bool" where
  "key_less fo ((desc, u) # us) ((_, v) # vs) \<longleftrightarrow>
     (if desc then val_less fo v u else val_less fo u v) \<or> \<not> val_less fo u v \<and> \<not> val_less fo v u \<and> key_less fo us vs"
| "key_less fo us vs \<longleftrightarrow> False"

definition weak_order :: "('a \<Rightarrow> 'a \<Rightarrow> bool) \<Rightarrow> 'a set \<Rightarrow> bool" where
  "weak_order lt A \<longleftrightarrow> (\<forall>a \<in> A. \<forall>b \<in> A. (lt a b \<longrightarrow> \<not> lt b a) \<and> (\<forall>c \<in> A. lt a c \<longrightarrow> lt a b \<or> lt b c))"

definition decides :: "('a \<Rightarrow> 'a \<Rightarrow> int) \<Rightarrow> ('a \<Rightarrow> 'a \<Rightarrow> bool) \<Rightarrow> 'a set \<Rightarrow> bool" where
  "decides cmp lt A \<longleftrightarrow> (\<forall>a \<in> A. \<forall>b \<in> A. (cmp a b < 0 \<longleftrightarrow> lt a b) \<and> (0 < cmp a b \<longleftrightarrow> lt b a))"

lemma consistent_decides: "weak_order lt A \<Longrightarrow> decides cmp lt A \<Longrightarrow> consistent cmp A"
  unfolding weak_order_def decides_def consistent_def by (meson not_le)

text \<open>
  Key values on which the comparison of the code is an order: texts without control characters,
  and doubles that \<open><\<close> orders, which it does without NaN.
\<close>

definition comparable :: "'f flt \<Rightarrow> 'f sqlval set \<Rightarrow> bool" where
  "comparable fo V \<longleftrightarrow> (\<forall>t. VText t \<in> V \<longrightarrow> printable t \<and> length t < 2147483648) \<and> weak_order (f_lt fo) {f. VFloat f \<in> V}"

lemma text_order_weak: "weak_order (\<lambda>a b. (k a, k b) \<in> text_order) A"
proof -
  have "(s, u) \<in> text_order \<Longrightarrow> (s, t) \<in> text_order \<or> (t, u) \<in> text_order" for s t u
    using lex_cmp_trans [of u t s] lex_cmp_less [of s u] lex_cmp_greater [of u s] lex_cmp_greater [of t s] lex_cmp_greater [of u t]
    by force
  moreover have "(s, t) \<in> text_order \<Longrightarrow> (t, s) \<notin> text_order" for s t
    using lex_cmp_less [of s t] lex_cmp_greater [of s t] by force
  ultimately show ?thesis unfolding weak_order_def by blast
qed

lemma weak_order_image: "weak_order lt (f ` R) \<longleftrightarrow> weak_order (\<lambda>a b. lt (f a) (f b)) R"
  by (simp add: weak_order_def)

lemma weak_order_via:
  assumes "weak_order lt B" "\<And>a. a \<in> A \<Longrightarrow> \<exists>b \<in> B. a = C b" "\<And>a b. rel (C a) (C b) = lt a b"
  shows "weak_order rel A"
proof (unfold weak_order_def, intro ballI conjI impI)
  fix a b assume "a \<in> A" "b \<in> A"
  then obtain a' b' where ab: "a' \<in> B" "b' \<in> B" "a = C a'" "b = C b'" using assms(2) by metis
  then show "\<not> rel b a" if "rel a b" using that assms(1,3) unfolding weak_order_def by simp
  fix c assume "c \<in> A" and l: "rel a c"
  then obtain c' where "c' \<in> B" "c = C c'" using assms(2) by blast
  then show "rel a b \<or> rel b c" using ab l assms(1,3) unfolding weak_order_def by simp
qed

lemma value_type_simps:
  "value_type u = FIELD_INT \<longleftrightarrow> (\<exists>n. u = VInt n)" "value_type u = FIELD_FLOAT \<longleftrightarrow> (\<exists>f. u = VFloat f)"
  "value_type u = FIELD_STRING \<longleftrightarrow> (\<exists>t. u = VText t)" "value_type u \<noteq> FIELD_UNDEFINED"
  by (cases u; simp add: value_type_def)+

lemma val_less_weak:
  assumes "comparable fo V" "\<forall>u \<in> V. value_type u = t"
  shows "weak_order (val_less fo) V"
proof (cases t)
  case FIELD_INT
  have "weak_order (\<lambda>a b :: i64. sint a < sint b) UNIV" by (auto simp: weak_order_def)
  then show ?thesis
    by (rule weak_order_via [where C = VInt]) (use assms(2) FIELD_INT in \<open>auto simp: val_less_def value_type_simps\<close>)
next
  case FIELD_FLOAT
  have "weak_order (f_lt fo) {f. VFloat f \<in> V}" using assms(1) by (simp add: comparable_def)
  then show ?thesis
    by (rule weak_order_via [where C = VFloat]) (use assms(2) FIELD_FLOAT in \<open>auto simp: val_less_def value_type_simps\<close>)
next
  case FIELD_STRING
  show ?thesis
    by (rule weak_order_via [where C = VText, OF text_order_weak [of "\<lambda>a. rtrim (map tolower_c a)" UNIV]])
      (use assms(2) FIELD_STRING in \<open>auto simp: val_less_def value_type_simps\<close>)
next
  case FIELD_UNDEFINED
  then have "V = {}" using assms(2) by (auto simp: value_type_simps)
  then show ?thesis by (simp add: weak_order_def)
qed

lemma val_cmp_decides:
  assumes "comparable fo V"
  shows "decides (val_cmp fo) (val_less fo) V"
  unfolding decides_def
proof (intro ballI)
  fix u v assume uv: "u \<in> V" "v \<in> V"
  show "(val_cmp fo u v < 0 \<longleftrightarrow> val_less fo u v) \<and> (0 < val_cmp fo u v \<longleftrightarrow> val_less fo v u)"
  proof (cases "\<exists>a b. u = VText a \<and> v = VText b")
    case True
    then obtain a b where ab: "u = VText a" "v = VText b" by blast
    then have "printable a" "printable b" "length a < 2147483648" "length b < 2147483648"
      using assms uv by (auto simp: comparable_def)
    from compare_nocase_rtrim_order [OF this] show ?thesis by (simp add: ab val_cmp_def val_less_def)
  next
    case False
    have f: "f_lt fo a b \<Longrightarrow> \<not> f_lt fo b a" if "VFloat a \<in> V" "VFloat b \<in> V" for a b
      using assms that by (simp add: comparable_def weak_order_def)
    consider m n where "u = VInt m" "v = VInt n" | a b where "u = VFloat a" "v = VFloat b" | "value_type u \<noteq> value_type v"
      using False by (cases u; cases v) (auto simp: value_type_def)
    then show ?thesis
    proof cases
      case 1
      then show ?thesis by (auto simp: val_cmp_def val_less_def long_compare_def)
    next
      case 2
      then show ?thesis using f [of a b] f [of b a] uv by (auto simp: val_cmp_def val_less_def double_compare_def)
    next
      case 3
      then show ?thesis by (cases u; cases v) (simp_all add: val_cmp_def val_less_def value_type_def)
    qed
  qed
qed

text \<open>First by one order, then by another.\<close>

definition then_by :: "('a \<Rightarrow> 'a \<Rightarrow> bool) \<Rightarrow> ('a \<Rightarrow> 'a \<Rightarrow> bool) \<Rightarrow> 'a \<Rightarrow> 'a \<Rightarrow> bool" where
  "then_by p q a b \<longleftrightarrow> p a b \<or> \<not> p a b \<and> \<not> p b a \<and> q a b"

lemma weak_order_then:
  assumes "weak_order p A" "weak_order q A"
  shows "weak_order (then_by p q) A"
proof (unfold weak_order_def, intro ballI conjI impI)
  fix a b assume ab: "a \<in> A" "b \<in> A"
  show "\<not> then_by p q b a" if "then_by p q a b"
    using that assms ab unfolding weak_order_def then_by_def by blast
  fix c assume c: "c \<in> A" "then_by p q a c"
  have p: "p x z \<Longrightarrow> p x y \<or> p y z" "p x y \<Longrightarrow> \<not> p y x" if "x \<in> A" "y \<in> A" "z \<in> A" for x y z
    using assms(1) that unfolding weak_order_def by blast+
  have q: "q a c \<Longrightarrow> q a b \<or> q b c" using assms(2) ab c(1) unfolding weak_order_def by blast
  show "then_by p q a b \<or> then_by p q b c"
  proof (cases "p a b \<or> p b c")
    case False
    then have "\<not> p a c" using p(1) ab c(1) by blast
    then have "\<not> p c a" "q a c" using c(2) by (auto simp: then_by_def)
    then have "p b a \<longrightarrow> p b c" "p c b \<longrightarrow> p a b" using p ab c(1) by blast+
    then show ?thesis using False q \<open>q a c\<close> by (auto simp: then_by_def)
  qed (auto simp: then_by_def)
qed

lemma weak_order_converse: "weak_order lt A \<Longrightarrow> weak_order (\<lambda>a b. lt b a) A"
  unfolding weak_order_def by blast

lemma key_order:
  assumes "\<And>k. k \<in> set ks \<Longrightarrow> comparable fo ((\<lambda>r. v r k) ` R)" "\<And>k r s. k \<in> set ks \<Longrightarrow> r \<in> R \<Longrightarrow> s \<in> R \<Longrightarrow> value_type (v r k) = value_type (v s k)"
  shows "weak_order (key_less fo) ((\<lambda>r. zip (map desc ks) (map (v r) ks)) ` R) \<and>
    decides (key_cmp fo) (key_less fo) ((\<lambda>r. zip (map desc ks) (map (v r) ks)) ` R)"
  using assms
proof (induction ks)
  case Nil
  then show ?case by (auto simp: weak_order_def decides_def)
next
  case (Cons k ks)
  let ?V = "(\<lambda>r. v r k) ` R" and ?key = "\<lambda>r. zip (map desc ks) (map (v r) ks)"
  let ?p = "\<lambda>a b. if desc k then val_less fo (v b k) (v a k) else val_less fo (v a k) (v b k)"
  let ?q = "\<lambda>a b. key_less fo (?key a) (?key b)"
  have c: "comparable fo ?V" using Cons.prems(1) by simp
  have IH0: "weak_order (key_less fo) (?key ` R) \<and> decides (key_cmp fo) (key_less fo) (?key ` R)"
  proof (rule Cons.IH)
    show "comparable fo ((\<lambda>r. v r j) ` R)" if "j \<in> set ks" for j using that by (intro Cons.prems(1)) simp
    show "value_type (v r j) = value_type (v s j)" if "j \<in> set ks" "r \<in> R" "s \<in> R" for j r s
      using that(1) by (intro Cons.prems(2) [OF _ that(2,3)]) simp
  qed
  have "weak_order (val_less fo) ?V"
  proof (cases "R = {}")
    case False
    then obtain s where s: "s \<in> R" by blast
    have "\<forall>u \<in> ?V. value_type u = value_type (v s k)" using Cons.prems(2) [of k _ s] s by (metis (no_types, lifting) imageE list.set_intros(1))
    then show ?thesis by (rule val_less_weak [OF c])
  qed (simp add: weak_order_def)
  then have p: "weak_order ?p R" using weak_order_converse [of "\<lambda>a b. val_less fo (v a k) (v b k)" R] by (cases "desc k") (simp_all add: weak_order_image)
  have IH: "weak_order (key_less fo) (?key ` R)" "decides (key_cmp fo) (key_less fo) (?key ` R)"
    using conjunct1 [OF IH0] conjunct2 [OF IH0] by blast+
  have w: "weak_order (then_by ?p ?q) R" by (rule weak_order_then [OF p IH(1) [unfolded weak_order_image]])
  have eq: "key_less fo (zip (map desc (k # ks)) (map (v a) (k # ks))) (zip (map desc (k # ks)) (map (v b) (k # ks))) = then_by ?p ?q a b" for a b
    by (auto simp: then_by_def)
  have d: "val_cmp fo (v a k) (v b k) < 0 \<longleftrightarrow> val_less fo (v a k) (v b k)" "0 < val_cmp fo (v a k) (v b k) \<longleftrightarrow> val_less fo (v b k) (v a k)"
    if "a \<in> R" "b \<in> R" for a b using val_cmp_decides [OF c] that unfolding decides_def by blast+
  have IHd: "key_cmp fo (?key a) (?key b) < 0 \<longleftrightarrow> ?q a b" "0 < key_cmp fo (?key a) (?key b) \<longleftrightarrow> ?q b a"
    if "a \<in> R" "b \<in> R" for a b using IH(2) that unfolding decides_def by blast+
  have "(key_cmp fo (zip (map desc (k # ks)) (map (v a) (k # ks))) (zip (map desc (k # ks)) (map (v b) (k # ks))) < 0 \<longleftrightarrow> then_by ?p ?q a b) \<and>
      (0 < key_cmp fo (zip (map desc (k # ks)) (map (v a) (k # ks))) (zip (map desc (k # ks)) (map (v b) (k # ks))) \<longleftrightarrow> then_by ?p ?q b a)"
    if R: "a \<in> R" "b \<in> R" for a b
  proof -
    consider "val_cmp fo (v a k) (v b k) < 0" | "val_cmp fo (v a k) (v b k) = 0" | "0 < val_cmp fo (v a k) (v b k)" by linarith
    then show ?thesis
      by cases (use d [OF R] IHd [OF R] in \<open>simp_all add: Let_def then_by_def\<close>)
  qed
  then have "decides (key_cmp fo) (key_less fo) ((\<lambda>r. zip (map desc (k # ks)) (map (v r) (k # ks))) ` R)"
    unfolding decides_def eq [symmetric] by (intro ballI, elim imageE) (simp only:)
  then show ?case using w unfolding weak_order_image eq by (rule conjI [rotated])
qed

text \<open>Sorted by a comparison that decides an order: no row comes behind one that is greater.\<close>

lemma sorted_decides:
  assumes "decides cmp lt (f ` set xs)" "sorted_wrt (\<lambda>a b. cmp (f a) (f b) \<le> 0) xs"
  shows "sorted_wrt (\<lambda>a b. \<not> lt (f b) (f a)) xs"
  by (rule sorted_wrt_mono_rel [OF _ assms(2)]) (use assms(1) in \<open>unfold decides_def, meson imageI not_le\<close>)

section \<open>The packed keys\<close>

lemma readable_cells: "n \<le> length (readable cs) \<Longrightarrow> take n cs = map Some (take n (readable cs))"
proof (induction cs arbitrary: n)
  case (Cons c cs)
  then show ?case by (cases c; cases n) (auto simp: readable_def chars_def)
qed (simp add: readable_def chars_def)

lemma text_at_spec: "flex_ok f \<Longrightarrow> i < flex_size f \<Longrightarrow> text_at f i = Some (flex_list f ! i)"
  using flex_pair_at_spec [of f i] by (auto simp: text_at_def)

lemma word_at_spec:
  assumes "flex_ok f" "i < flex_size f" "length (flex_list f ! i) = 8"
  shows "word_at f i = Some (of_nat (bytes_num (flex_list f ! i)))"
proof -
  obtain v where v: "flex_pair_at f i = Some v" "view_ok v" "sv_text v = flex_list f ! i" using flex_pair_at_spec [OF assms(1,2)] by blast
  then obtain p where p: "flex_at f i = Some p" "sv_data v = readable (drop p (vdata (raw f)))"
    by (auto simp: flex_pair_at_def flex_at_def bind_eq_Some_conv)
  have n: "sv_len v = 8" using v assms(3) sv_text_length by metis
  then have "8 \<le> length (readable (drop p (vdata (raw f))))" using v(2) p(2) by (simp add: view_ok_def)
  then have t: "take 8 (drop p (vdata (raw f))) = map Some (flex_list f ! i)"
    using readable_cells v(3) p(2) n by (metis sv_text_def)
  then have "8 \<le> length (drop p (vdata (raw f)))" using assms(3) by (metis length_map length_take min.absorb_iff2 min.commute nle_le)
  then have "mem_read p 8 (vdata (raw f)) = Some (map Some (flex_list f ! i))" using t by (auto simp: mem_read_def)
  moreover have "those (map Some xs) = Some xs" for xs :: string by (induction xs) auto
  ultimately show ?thesis using p(1) by (simp add: word_at_def)
qed

text \<open>The bytes kept of a key; a text is kept as it is.\<close>

definition key_bytes :: "'f flt \<Rightarrow> 'f sqlval \<Rightarrow> string" where
  "key_bytes fo val = (case val of VText t \<Rightarrow> t | _ \<Rightarrow> value_bytes fo val)"

lemma compare_at_spec:
  assumes "flex_ok d" "i < flex_size d" "j < flex_size d" "flex_list d ! i = key_bytes fo u" "flex_list d ! j = key_bytes fo v"
    "value_type u = t" "value_type v = t" "\<And>f. f_of_bits fo (f_bits fo f) = f"
  shows "compare_at fo d t i j = Some (val_cmp fo u v)"
  using assms(4-8) word_at_spec [OF assms(1,2)] word_at_spec [OF assms(1,3)] text_at_spec [OF assms(1,2)] text_at_spec [OF assms(1,3)]
  by (cases u; cases v) (auto simp: compare_at_def val_cmp_def value_type_def key_bytes_def value_bytes_def)

lemma compare_keys_spec:
  assumes "flex_ok d" "\<And>f. f_of_bits fo (f_bits fo f) = f"
  shows "i + length es \<le> flex_size d \<Longrightarrow> j + length es \<le> flex_size d \<Longrightarrow> length us = length es \<Longrightarrow> length vs = length es \<Longrightarrow>
    (\<And>k. k < length es \<Longrightarrow> flex_list d ! (i + k) = key_bytes fo (us ! k) \<and> flex_list d ! (j + k) = key_bytes fo (vs ! k) \<and>
       value_type (us ! k) = e_type (es ! k) \<and> value_type (vs ! k) = e_type (es ! k)) \<Longrightarrow>
    compare_keys fo d es i j = Some (key_cmp fo (zip (map descending es) us) (zip (map descending es) vs))"
proof (induction es arbitrary: i j us vs)
  case (Cons e es)
  obtain u us' v vs' where uv: "us = u # us'" "vs = v # vs'" using Cons.prems(3,4) by (metis length_Suc_conv)
  have c: "compare_at fo d (e_type e) i j = Some (val_cmp fo u v)"
    using Cons.prems(1,2) Cons.prems(5) [of 0] uv by (intro compare_at_spec [OF assms(1)]) (auto simp: assms(2))
  have "compare_keys fo d es (i + 1) (j + 1) = Some (key_cmp fo (zip (map descending es) us') (zip (map descending es) vs'))"
    using Cons.prems(1-4) Cons.prems(5) [of "Suc _"] uv by (intro Cons.IH) auto
  then show ?case using c by (simp add: uv Let_def)
qed simp

section \<open>Recording the rows\<close>

lemma add_key_spec:
  assumes "value_read (x_flt x) I G i val" "I s" "flex_ok (order_data self)"
  shows "\<exists>s' d. add_key x G i (s, self) = (Good (), (s', self\<lparr>order_data := d\<rparr>)) \<and> I s' \<and> flex_ok d \<and>
    flex_list d = flex_list (order_data self) @ [key_bytes (x_flt x) val]"
proof -
  have t: "i < length (exprs s)" "e_type (exprs s ! i) = value_type val" using value_read_type [OF assms(1,2)] by auto
  obtain d where d: "flex_push_back (order_data self) (key_bytes (x_flt x) val) = Some d" "flex_ok d"
      "flex_list d = flex_list (order_data self) @ [key_bytes (x_flt x) val]"
    using flex_push_back_spec [OF assms(3)] by (auto simp: yields_exists)
  show ?thesis
  proof (cases val)
    case (VInt n)
    have "reads I (get_int G i) (Some 0) n" using assms(1) by (simp add: value_read_def VInt)
    from read_or_reads [OF this assms(2), where t = self and k = "\<lambda>n _. push_order (num_bytes 8 (unat n))"]
    show ?thesis using t d by (auto simp: add_key_def type_of_def value_type_def VInt push_order_def on_snd_def key_bytes_def value_bytes_def)
  next
    case (VFloat f)
    have "reads I (get_float G i) (Some (f_zero (x_flt x))) f" using assms(1) by (simp add: value_read_def VFloat)
    from read_or_reads [OF this assms(2), where t = self and k = "\<lambda>n _. push_order (num_bytes 8 (unat (f_bits (x_flt x) n)))"]
    show ?thesis using t d by (auto simp: add_key_def type_of_def value_type_def VFloat push_order_def on_snd_def key_bytes_def value_bytes_def)
  next
    case (VText tx)
    obtain v where v: "reads I (get_stringview G i) None v" "view_ok v" "sv_text v = tx"
      using assms(1) by (auto simp: value_read_def VText)
    from read_or_reads [OF v(1) assms(2), where t = self and k = "\<lambda>v _. if sv_len v \<le> length (sv_data v) then push_order (sv_text v) else outA Crash"]
    show ?thesis using t d v(2,3) by (auto simp: add_key_def type_of_def value_type_def VText push_order_def on_snd_def key_bytes_def view_ok_def)
  qed
qed

lemma add_keys_spec:
  "\<forall>i \<in> set is. value_read (x_flt x) I G i (v i) \<Longrightarrow> I s \<Longrightarrow> flex_ok (order_data self) \<Longrightarrow>
   \<exists>s' d. add_keys x G is (s, self) = (Good (), (s', self\<lparr>order_data := d\<rparr>)) \<and> I s' \<and> flex_ok d \<and>
    flex_list d = flex_list (order_data self) @ map (\<lambda>i. key_bytes (x_flt x) (v i)) is"
proof (induction "is" arbitrary: s self)
  case Nil
  then show ?case by (auto simp: outA_def intro!: exI [of _ s] exI [of _ "order_data self"])
next
  case (Cons i "is")
  obtain s1 d where d: "add_key x G i (s, self) = (Good (), (s1, self\<lparr>order_data := d\<rparr>))" "I s1" "flex_ok d"
      "flex_list d = flex_list (order_data self) @ [key_bytes (x_flt x) (v i)]"
    using add_key_spec [of x I G i "v i" s self] Cons.prems by auto
  obtain s2 d2 where "add_keys x G is (s1, self\<lparr>order_data := d\<rparr>) = (Good (), (s2, self\<lparr>order_data := d2\<rparr>))" "I s2" "flex_ok d2"
      "flex_list d2 = flex_list d @ map (\<lambda>i. key_bytes (x_flt x) (v i)) is"
    using Cons.IH [of s1 "self\<lparr>order_data := d\<rparr>"] Cons.prems(1) d by auto
  then show ?case using d by (intro exI [of _ s2] exI [of _ d2]) simp
qed

text \<open>One row through the SELECT and the ORDER BY behind it, and all rows.\<close>

definition order_row :: "('f, 're) ext \<Rightarrow> ('f, 're) sget \<Rightarrow> row_record list \<Rightarrow>
    ('f, 're) store \<times> 'f fqlselect \<times> 'f order \<Rightarrow> unit outcome \<times> ('f, 're) store \<times> 'f fqlselect \<times> 'f order" where
  "order_row x G rg st = (case st of (s, sel, ord) \<Rightarrow>
     (case select_record_order_api x G rg (s, sel) of
        (Good rg', (s', sel')) \<Rightarrow> (case order_add_record x G rg' (s', ord) of (r, (s'', ord')) \<Rightarrow> (r, (s'', sel', ord')))
      | (r, (s', sel')) \<Rightarrow> (o_bind r (\<lambda>_. Crash), (s', sel', ord))))"

fun order_rows :: "('f, 're) ext \<Rightarrow> ('r \<Rightarrow> ('f, 're) sget) \<Rightarrow> ('r \<Rightarrow> row_record list) \<Rightarrow> 'r list \<Rightarrow>
    ('f, 're) store \<times> 'f fqlselect \<times> 'f order \<Rightarrow> unit outcome \<times> ('f, 're) store \<times> 'f fqlselect \<times> 'f order" where
  "order_rows x G rg [] = outA (Good ())"
| "order_rows x G rg (r # rs) = derefA (order_row x (G r) (rg r)) (\<lambda>_. order_rows x G rg rs)"

definition file_of :: "'f flt \<Rightarrow> ('r \<Rightarrow> nat \<Rightarrow> 'f sqlval) \<Rightarrow> nat list \<Rightarrow> 'r list \<Rightarrow> string" where
  "file_of fo v is rows = concat (map (\<lambda>r. row_bytes fo (v r) is) rows)"

definition keys_of :: "'f flt \<Rightarrow> ('r \<Rightarrow> nat \<Rightarrow> 'f sqlval) \<Rightarrow> nat list \<Rightarrow> 'r list \<Rightarrow> string list" where
  "keys_of fo v ks rows = concat (map (\<lambda>r. map (\<lambda>i. key_bytes fo (v r i)) ks) rows)"

lemma file_of_snoc [simp]: "file_of fo v is (rows @ [r]) = file_of fo v is rows @ row_bytes fo (v r) is"
  by (simp add: file_of_def)

lemma keys_of_snoc [simp]: "keys_of fo v ks (rows @ [r]) = keys_of fo v ks rows @ map (\<lambda>i. key_bytes fo (v r i)) ks"
  by (simp add: keys_of_def)

lemma keys_of_length: "length (keys_of fo v ks rows) = length rows * length ks"
  by (induction rows) (auto simp: keys_of_def)

lemma keys_of_nth: "j < length rows \<Longrightarrow> k < length ks \<Longrightarrow> keys_of fo v ks rows ! (j * length ks + k) = key_bytes fo (v (rows ! j) (ks ! k))"
proof (induction rows arbitrary: j)
  case (Cons r rows)
  then show ?case by (cases j) (auto simp: keys_of_def nth_append)
qed simp

definition recorded :: "'f flt \<Rightarrow> ('r \<Rightarrow> nat \<Rightarrow> 'f sqlval) \<Rightarrow> nat list \<Rightarrow> nat list \<Rightarrow> 'r list \<Rightarrow> 'f fqlselect \<Rightarrow> 'f order \<Rightarrow> bool" where
  "recorded fo v is ks rows sel ord \<longleftrightarrow> sel_exprs sel = is \<and> o_exprs ord = ks \<and>
     sel_file sel = file_of fo v is rows \<and> sel_offset sel = length (file_of fo v is rows) \<and>
     flex_ok (order_data ord) \<and> flex_list (order_data ord) = keys_of fo v ks rows \<and> vec_ok (o_entries ord) \<and>
     (\<exists>ents. vec_list (o_entries ord) = map Some ents \<and> length ents = length rows \<and>
       (\<forall>j < length rows. ent_idx (ents ! j) = j * length ks \<and> ent_offset (ents ! j) = length (file_of fo v is (take j rows))))"

definition untouched :: "'f order \<Rightarrow> 'f order \<Rightarrow> bool" where
  "untouched ord ord' \<longleftrightarrow> o_select ord' = o_select ord \<and> o_api ord' = o_api ord \<and> o_rows ord' = o_rows ord \<and>
     top_count ord' = top_count ord \<and> o_sorted ord' = o_sorted ord"

lemma order_row_spec:
  assumes "\<forall>i \<in> set is \<union> set ks. value_read (x_flt x) I G i (v r i)" "I s" "length (row_bytes (x_flt x) (v r) is) < 4294967296"
    "recorded (x_flt x) v is ks rows sel ord" "rg \<noteq> []"
  shows "\<exists>s' sel' ord'. order_row x G rg (s, sel, ord) = (Good (), (s', sel', ord')) \<and> I s' \<and>
    recorded (x_flt x) v is ks (rows @ [r]) sel' ord' \<and> untouched ord ord'"
proof -
  let ?fo = "x_flt x"
  obtain rec rest where rg: "rg = rec # rest" using assms(5) by (cases rg) auto
  obtain ents where R: "sel_exprs sel = is" "o_exprs ord = ks" "sel_file sel = file_of ?fo v is rows"
      "sel_offset sel = length (file_of ?fo v is rows)" "flex_ok (order_data ord)" "flex_list (order_data ord) = keys_of ?fo v ks rows"
      "vec_ok (o_entries ord)" "vec_list (o_entries ord) = map Some ents" "length ents = length rows"
      "\<forall>j < length rows. ent_idx (ents ! j) = j * length ks \<and> ent_offset (ents ! j) = length (file_of ?fo v is (take j rows))"
    using assms(4) by (auto simp: recorded_def)
  have vis: "\<forall>i \<in> set (sel_exprs sel). value_read ?fo I G i (v r i)" and vks: "\<forall>i \<in> set ks. value_read ?fo I G i (v r i)"
    using assms(1) R(1) by auto
  let ?rec = "rec\<lparr>row_offset := sel_offset sel\<rparr>"
  let ?sel = "sel\<lparr>sel_rownum := sel_rownum sel + 1, sel_file := sel_file sel @ row_bytes ?fo (v r) is,
      sel_offset := sel_offset sel + length (row_bytes ?fo (v r) is)\<rparr>"
  obtain s1 where s1: "select_record_order_api x G rg (s, sel) = (Good (?rec # rest), (s1, ?sel))" "I s1"
    using select_record_order_api_spec [OF vis assms(2), of rec rest] assms(3) rg R(1) by auto
  obtain s2 d where d: "add_keys x G ks (s1, ord) = (Good (), (s2, ord\<lparr>order_data := d\<rparr>))" "I s2" "flex_ok d"
      "flex_list d = keys_of ?fo v ks (rows @ [r])"
    using add_keys_spec [OF vks s1(2) R(5)] R(6) by auto
  let ?e = "\<lparr>ent_idx = flex_size (order_data ord), ent_offset = sel_offset sel, ent_len = select_len rec\<rparr>"
  obtain es where es: "vec_push_back (o_entries ord) (Some ?e) = Some es" "vec_ok es" "vec_list es = map Some (ents @ [?e])"
    using vec_push_back_list [OF R(7), of "Some ?e"] R(8) by (auto simp: yields_exists)
  let ?ord = "ord\<lparr>order_data := d, o_entries := es\<rparr>"
  have eq: "order_row x G rg (s, sel, ord) = (Good (), (s2, ?sel, ?ord))"
    using s1(1) d(1) es(1) by (simp add: order_row_def order_add_record_def R(2) on_snd_def)
  have idx: "flex_size (order_data ord) = length rows * length ks"
    using flex_list_length [OF R(5)] R(6) keys_of_length by metis
  have "\<forall>j < length (rows @ [r]). ent_idx ((ents @ [?e]) ! j) = j * length ks \<and>
      ent_offset ((ents @ [?e]) ! j) = length (file_of ?fo v is (take j (rows @ [r])))"
    using R(4,9,10) idx by (auto simp: nth_append less_Suc_eq)
  then have "recorded ?fo v is ks (rows @ [r]) ?sel ?ord"
    unfolding recorded_def using R es(2,3) d(3,4) by (auto intro!: exI [of _ "ents @ [?e]"])
  then show ?thesis using eq d(2) by (auto simp: untouched_def)
qed

lemma order_rows_spec:
  assumes "\<And>r i. r \<in> set rs \<Longrightarrow> i \<in> set is \<union> set ks \<Longrightarrow> value_read (x_flt x) I (G r) i (v r i)"
    "\<And>r. r \<in> set rs \<Longrightarrow> rg r \<noteq> [] \<and> length (row_bytes (x_flt x) (v r) is) < 4294967296"
    "I s" "recorded (x_flt x) v is ks rows sel ord"
  shows "\<exists>s' sel' ord'. order_rows x G rg rs (s, sel, ord) = (Good (), (s', sel', ord')) \<and> I s' \<and>
    recorded (x_flt x) v is ks (rows @ rs) sel' ord' \<and> untouched ord ord'"
  using assms
proof (induction rs arbitrary: s sel ord rows)
  case Nil
  then show ?case by (auto simp: outA_def untouched_def)
next
  case (Cons r rs)
  obtain s1 sel1 ord1 where 1: "order_row x (G r) (rg r) (s, sel, ord) = (Good (), (s1, sel1, ord1))" "I s1"
      "recorded (x_flt x) v is ks (rows @ [r]) sel1 ord1" "untouched ord ord1"
    using order_row_spec [of "is" ks x I "G r" v r s rows sel ord "rg r"] Cons.prems by auto
  obtain s2 sel2 ord2 where 2: "order_rows x G rg rs (s1, sel1, ord1) = (Good (), (s2, sel2, ord2))" "I s2"
      "recorded (x_flt x) v is ks (rows @ r # rs) sel2 ord2" "untouched ord1 ord2"
    using Cons.IH [of s1 "rows @ [r]" sel1 ord1] Cons.prems(1,2) 1 by auto
  then show ?case using 1 by (auto simp: untouched_def)
qed

section \<open>Sorting the entries\<close>

lemma mset_map_split: "mset ys = image_mset f (mset xs) \<Longrightarrow> \<exists>zs. ys = map f zs \<and> mset zs = mset xs"
proof (induction ys arbitrary: xs)
  case (Cons y ys)
  have "y \<in># image_mset f (mset xs)" by (simp flip: Cons.prems)
  then obtain x where x: "x \<in> set xs" "f x = y" by auto
  obtain xs' where m: "mset xs = add_mset x (mset xs')" using x(1) by (metis insert_DiffM mset_remove1 set_mset_mset)
  have "mset ys = image_mset f (mset xs')" using Cons.prems m x(2) by simp
  then obtain zs where "ys = map f zs" "mset zs = mset xs'" using Cons.IH by blast
  then show ?case using m x(2) by (intro exI [of _ "x # zs"]) auto
qed simp

definition row_key :: "'f expression list \<Rightarrow> nat list \<Rightarrow> (nat \<Rightarrow> 'f sqlval) \<Rightarrow> (bool \<times> 'f sqlval) list" where
  "row_key es ks v = zip (map (\<lambda>i. descending (es ! i)) ks) (map v ks)"

lemma order_compare_spec:
  assumes "recorded fo v is ks rows sel ord" "\<And>f. f_of_bits fo (f_bits fo f) = f"
    "\<And>r i. r \<in> set rows \<Longrightarrow> i \<in> set ks \<Longrightarrow> i < length es \<and> value_type (v r i) = e_type (es ! i)"
    "a < length rows" "b < length rows" "ent_idx ea = a * length ks" "ent_idx eb = b * length ks"
  shows "order_compare fo es ord ea eb = Some (key_cmp fo (row_key es ks (v (rows ! a))) (row_key es ks (v (rows ! b))))"
proof -
  have R: "o_exprs ord = ks" "flex_ok (order_data ord)" "flex_list (order_data ord) = keys_of fo v ks rows"
    using assms(1) by (auto simp: recorded_def)
  have sz: "flex_size (order_data ord) = length rows * length ks" using flex_list_length [OF R(2)] R(3) keys_of_length by metis
  have in_range: "j * length ks + length ks \<le> length rows * length ks" if "j < length rows" for j
    using that mult_le_mono1 [of "j + 1" "length rows" "length ks"] by simp
  have "compare_keys fo (order_data ord) (map ((!) es) ks) (a * length ks) (b * length ks) =
      Some (key_cmp fo (zip (map descending (map ((!) es) ks)) (map (v (rows ! a)) ks)) (zip (map descending (map ((!) es) ks)) (map (v (rows ! b)) ks)))"
    using assms(3-5) in_range by (intro compare_keys_spec [OF R(2) assms(2)]) (auto simp: sz R(3) keys_of_nth)
  then show ?thesis using assms(6,7) R(1) by (simp add: order_compare_def row_key_def o_def)
qed

lemma order_sort_spec:
  assumes "recorded fo v is ks rows sel ord" "\<And>f. f_of_bits fo (f_bits fo f) = f" "sorts qs"
    "\<And>r i. r \<in> set rows \<Longrightarrow> i \<in> set ks \<Longrightarrow> i < length es \<and> value_type (v r i) = e_type (es ! i)" "list_all (\<lambda>i. i < length es) ks"
    "consistent (key_cmp fo) ((\<lambda>r. row_key es ks (v r)) ` set rows)" "file_of fo v is rows \<noteq> []"
  shows "\<exists>ord' perm ents. order_sort qs fo es (Some (file_of fo v is rows)) ord = (Good (), ord') \<and> mset perm = mset rows \<and>
    sorted_wrt (\<lambda>a b. key_cmp fo (row_key es ks (v a)) (row_key es ks (v b)) \<le> 0) perm \<and>
    vec_list (o_entries ord') = map Some ents \<and> vec_ok (o_entries ord') \<and> length ents = length perm \<and>
    (\<forall>j < length perm. \<exists>pre post. file_of fo v is rows = pre @ row_bytes fo (v (perm ! j)) is @ post \<and> ent_offset (ents ! j) = length pre) \<and>
    untouched (ord\<lparr>o_sorted := True\<rparr>) ord' \<and> o_mmap ord' = Some (file_of fo v is rows) \<and> entry_iter ord' = Some 0"
proof -
  let ?k = "\<lambda>r. row_key es ks (v r)"
  obtain ents where R: "o_exprs ord = ks" "vec_ok (o_entries ord)" "vec_list (o_entries ord) = map Some ents" "length ents = length rows"
      "\<And>j. j < length rows \<Longrightarrow> ent_idx (ents ! j) = j * length ks \<and> ent_offset (ents ! j) = length (file_of fo v is (take j rows))"
    using assms(1) by (auto simp: recorded_def)
  have th: "those (map Some ys) = Some ys" for ys :: "entry list" by (induction ys) auto
  have cmp: "order_compare fo es ord (ents ! a) (ents ! b) = Some (key_cmp fo (?k (rows ! a)) (?k (rows ! b)))"
    if "a < length rows" "b < length rows" for a b
    using order_compare_spec [OF assms(1,2,4) that] R(5) that by blast
  have all: "list_all (\<lambda>a. list_all (\<lambda>b. order_compare fo es ord a b \<noteq> None) ents) ents"
    unfolding list_all_length using cmp R(4) by fastforce
  let ?c = "\<lambda>a b. the (order_compare fo es ord a b)"
  have cmp': "?c (ents ! a) (ents ! b) = key_cmp fo (?k (rows ! a)) (?k (rows ! b))" if "a < length rows" "b < length rows" for a b
    using cmp [OF that] by simp
  have "consistent ?c (set ents)"
    unfolding consistent_def
  proof (intro ballI)
    fix x y assume "x \<in> set ents" "y \<in> set ents"
    then obtain a b where ab: "x = ents ! a" "y = ents ! b" "a < length rows" "b < length rows" using R(4) by (auto simp: in_set_conv_nth)
    have tr: "?c x z \<le> 0" if z: "z \<in> set ents" "?c x y \<le> 0" "?c y z \<le> 0" for z
    proof -
      obtain d where d: "z = ents ! d" "d < length rows" using z(1) R(4) by (metis in_set_conv_nth)
      have "?k (rows ! a) \<in> ?k ` set rows" "?k (rows ! b) \<in> ?k ` set rows" "?k (rows ! d) \<in> ?k ` set rows" using ab(3,4) d(2) by auto
      then show ?thesis using assms(6) z(2,3) cmp' [OF ab(3,4)] cmp' [OF ab(4) d(2)] cmp' [OF ab(3) d(2)]
        unfolding consistent_def ab d(1) by metis
    qed
    have "(?c x y \<le> 0 \<or> ?c y x \<le> 0) \<and> (?c x y < 0 \<longleftrightarrow> 0 < ?c y x)"
    proof -
      have "?k (rows ! a) \<in> ?k ` set rows" "?k (rows ! b) \<in> ?k ` set rows" using ab(3,4) by auto
      then show ?thesis using assms(6) unfolding consistent_def ab(1,2) cmp' [OF ab(3,4)] cmp' [OF ab(4,3)] by blast
    qed
    then show "(?c x y \<le> 0 \<or> ?c y x \<le> 0) \<and> (?c x y < 0 \<longleftrightarrow> 0 < ?c y x) \<and> (\<forall>z \<in> set ents. ?c x y \<le> 0 \<longrightarrow> ?c y z \<le> 0 \<longrightarrow> ?c x z \<le> 0)"
      using tr by blast
  qed
  then have qs: "mset (qs ?c ents) = mset ents" "sorted_wrt (\<lambda>a b. ?c a b \<le> 0) (qs ?c ents)" using assms(3) unfolding sorts_def by blast+
  have "ents = map ((!) ents) [0..<length rows]" using R(4) map_nth [of ents] by simp
  then have "mset (qs ?c ents) = image_mset ((!) ents) (mset [0..<length rows])" using qs(1) by (metis mset_map)
  then obtain js where js: "qs ?c ents = map ((!) ents) js" "mset js = mset [0..<length rows]" using mset_map_split by blast
  have jlt: "j < length rows" if "j \<in> set js" for j using js(2) that by (metis atLeastLessThan_iff set_mset_mset set_upt)
  let ?perm = "map ((!) rows) js"
  have "mset ?perm = mset (map ((!) rows) [0..<length rows])" using js(2) by (simp add: mset_map)
  then have perm: "mset ?perm = mset rows" by (simp add: map_nth)
  have "sorted_wrt (\<lambda>a b. ?c (ents ! a) (ents ! b) \<le> 0) js" using qs(2) js(1) by (simp add: sorted_wrt_map)
  then have sorted: "sorted_wrt (\<lambda>a b. key_cmp fo (?k a) (?k b) \<le> 0) ?perm"
    unfolding sorted_wrt_map by (rule sorted_wrt_mono_rel [rotated]) (use jlt cmp' in auto)
  let ?es' = "(o_entries ord)\<lparr>vdata := map Some (qs ?c ents) @ drop (length (qs ?c ents)) (vdata (o_entries ord))\<rparr>"
  have len: "length (qs ?c ents) = length ents" "length js = length rows"
    using arg_cong [OF qs(1), of size] arg_cong [OF js(2), of size] by simp_all
  have vs: "vsize (o_entries ord) = length ents" using vec_list_length [OF R(2)] R(3) by simp
  have es': "vec_list ?es' = map Some (qs ?c ents)" "vec_ok ?es'"
    using R(2) len(1) vs by (auto simp: vec_list_def vec_ok_def)
  let ?ord' = "ord\<lparr>o_entries := ?es', o_sorted := True, o_mmap := Some (file_of fo v is rows), entry_iter := Some 0\<rparr>"
  have eq: "order_sort qs fo es (Some (file_of fo v is rows)) ord = (Good (), ?ord')"
    using all assms(5,7) by (simp add: order_sort_def R(1,3) th Let_def)
  have place: "\<exists>pre post. file_of fo v is rows = pre @ row_bytes fo (v (?perm ! j)) is @ post \<and> ent_offset (qs ?c ents ! j) = length pre"
    if "j < length ?perm" for j
  proof -
    have j: "js ! j < length rows" using that jlt by simp
    have "rows = take (js ! j) rows @ rows ! (js ! j) # drop (Suc (js ! j)) rows" using id_take_nth_drop [OF j] .
    then have "file_of fo v is rows = file_of fo v is (take (js ! j) rows) @ row_bytes fo (v (rows ! (js ! j))) is @ file_of fo v is (drop (Suc (js ! j)) rows)"
      by (metis (no_types, lifting) append.assoc concat.simps(2) concat_append file_of_def list.simps(9) map_append)
    then show ?thesis using that R(5) [OF j] js(1) by auto
  qed
  show ?thesis
  proof (intro exI conjI)
    show "order_sort qs fo es (Some (file_of fo v is rows)) ord = (Good (), ?ord')" by (rule eq)
    show "mset ?perm = mset rows" by (rule perm)
    show "sorted_wrt (\<lambda>a b. key_cmp fo (?k a) (?k b) \<le> 0) ?perm" by (rule sorted)
    show "vec_list (o_entries ?ord') = map Some (qs ?c ents)" "vec_ok (o_entries ?ord')" using es' by simp_all
    show "length (qs ?c ents) = length ?perm" using len R(4) by simp
    show "\<forall>j < length ?perm. \<exists>pre post. file_of fo v is rows = pre @ row_bytes fo (v (?perm ! j)) is @ post \<and> ent_offset (qs ?c ents ! j) = length pre"
      using place by blast
  qed (simp_all add: untouched_def)
qed

section \<open>Handing out the rows\<close>

definition api_of :: "'f sqlval list \<Rightarrow> 'f api_field list" where
  "api_of us = map (\<lambda>u. \<lparr>api_type = value_type u, api_null = False, api_data = value_field u\<rparr>) us"

lemma bytes_num_u32: "n < 4294967296 \<Longrightarrow> bytes_num (num_bytes 4 n) = n"
  by (simp add: bytes_num_bytes)

lemma read_fields_spec:
  assumes "\<And>f. f_of_bits fo (f_bits fo f) = f"
  shows "map api_type fs = map (\<lambda>i. value_type (v i)) is \<Longrightarrow> \<forall>f \<in> set fs. \<not> api_null f \<Longrightarrow>
    (\<And>i t. i \<in> set is \<Longrightarrow> v i = VText t \<Longrightarrow> length t < 4294967296) \<Longrightarrow>
    read_fields fo (pre @ row_bytes fo v is @ post) (length pre) fs = Good (api_of (map v is))"
proof (induction "is" arbitrary: fs pre)
  case (Cons i "is")
  obtain f fs' where fs: "fs = f # fs'" using Cons.prems(1) by (cases fs) auto
  let ?b = "value_bytes fo (v i)" and ?r = "row_bytes fo v is"
  have rec: "read_fields fo (pre @ ?b @ ?r @ post) (length pre + length ?b) fs' = Good (api_of (map v is))"
    using Cons.IH [of fs' "pre @ ?b"] Cons.prems(1,2) Cons.prems(3) [OF list.set_intros(2)] fs by simp
  have f: "api_type f = value_type (v i)" "\<not> api_null f" using Cons.prems(1,2) fs by auto
  have b8: "bytes_at (pre @ num_bytes 8 n @ rest) (length pre) 8 = Some (num_bytes 8 n)" for n rest
    using bytes_at_append [of pre "num_bytes 8 n" rest] by simp
  have b4: "bytes_at (pre @ num_bytes 4 n @ rest) (length pre) 4 = Some (num_bytes 4 n)" for n rest
    using bytes_at_append [of pre "num_bytes 4 n" rest] by simp
  show ?case
  proof (cases "v i")
    case (VInt n)
    have "value_type (v i) = FIELD_INT" "?b = num_bytes 8 (unat n)" by (simp_all add: VInt value_type_def value_bytes_def)
    then show ?thesis using rec f b8 [of "unat n" "?r @ post"] by (simp add: fs api_of_def VInt value_field_def value_type_def)
  next
    case (VFloat x)
    have "value_type (v i) = FIELD_FLOAT" "?b = num_bytes 8 (unat (f_bits fo x))" by (simp_all add: VFloat value_type_def value_bytes_def)
    then show ?thesis using rec f b8 [of "unat (f_bits fo x)" "?r @ post"] assms by (simp add: fs api_of_def VFloat value_field_def value_type_def)
  next
    case (VText t)
    have lt: "length t < 4294967296" using Cons.prems(3) [of i t] VText by simp
    have vt: "value_type (v i) = FIELD_STRING" "?b = num_bytes 4 (length t) @ t" by (simp_all add: VText value_type_def value_bytes_def)
    have "bytes_at ((pre @ num_bytes 4 (length t)) @ t @ ?r @ post) (length (pre @ num_bytes 4 (length t))) (length t) = Some t"
      by (rule bytes_at_append)
    then show ?thesis using rec f vt b4 [of "length t" "t @ ?r @ post"] bytes_num_u32 [OF lt]
      by (simp add: fs api_of_def VText value_field_def value_type_def add.assoc)
  qed
qed (simp add: api_of_def)

text \<open>The rows a caller of the library sees, one for each step of the process until it completes.\<close>

fun pull_rows :: "nat \<Rightarrow> entry_sort \<Rightarrow> 'f flt \<Rightarrow> string option \<Rightarrow> ('f, 're) store \<times> 'f order \<Rightarrow> 'f api_field list list option" where
  "pull_rows 0 qs fo file st = None"
| "pull_rows (Suc n) qs fo file st = (case orderby_finish qs fo file st of
     (Good complete, st') \<Rightarrow>
       let row = (if o_rows (snd st') = o_rows (snd st) then [] else [o_api (snd st')])
       in if complete then Some row else map_option ((@) row) (pull_rows n qs fo file st')
   | _ \<Rightarrow> None)"

definition handing_out :: "'f flt \<Rightarrow> ('r \<Rightarrow> nat \<Rightarrow> 'f sqlval) \<Rightarrow> nat list \<Rightarrow> string \<Rightarrow> 'r list \<Rightarrow> nat \<Rightarrow> 'f order \<Rightarrow> bool" where
  "handing_out fo v is file perm k ord \<longleftrightarrow> o_sorted ord \<and> o_select ord = Order_select_api \<and> o_mmap ord = Some file \<and>
     entry_iter ord = Some k \<and> o_rows ord = k \<and> vec_ok (o_entries ord) \<and> (\<exists>ents. vec_list (o_entries ord) = map Some ents \<and> length ents = length perm \<and>
       (\<forall>j < length perm. \<exists>pre post. file = pre @ row_bytes fo (v (perm ! j)) is @ post \<and> ent_offset (ents ! j) = length pre)) \<and>
     (\<forall>r \<in> set perm. map api_type (o_api ord) = map (\<lambda>i. value_type (v r i)) is) \<and> (\<forall>f \<in> set (o_api ord). \<not> api_null f)"

lemma api_of_types [simp]: "map api_type (api_of us) = map value_type us" "f \<in> set (api_of us) \<Longrightarrow> \<not> api_null f"
  by (auto simp: api_of_def)

lemma order_step:
  assumes H: "handing_out fo v is file perm k ord" and k: "k < length perm" and b: "\<And>f. f_of_bits fo (f_bits fo f) = f"
    and t: "\<And>i t. i \<in> set is \<Longrightarrow> v (perm ! k) i = VText t \<Longrightarrow> length t < 4294967296"
  shows "\<exists>ord'. order_select_api fo ord = (Good True, ord') \<and> handing_out fo v is file perm (k + 1) ord' \<and>
    o_api ord' = api_of (map (v (perm ! k)) is) \<and> top_count ord' = top_count ord"
proof -
  obtain ents pre post where e: "vec_list (o_entries ord) = map Some ents" "length ents = length perm"
      "file = pre @ row_bytes fo (v (perm ! k)) is @ post" "ent_offset (ents ! k) = length pre"
    using H k by (auto simp: handing_out_def)
  have ok: "vec_ok (o_entries ord)" "entry_iter ord = Some k" "o_mmap ord = Some file" "o_rows ord = k" using H by (auto simp: handing_out_def)
  have sz: "vsize (o_entries ord) = length perm" using vec_list_length [OF ok(1)] e(1,2) by simp
  have at: "entry_at ord k = Some (ents ! k)"
    using ok(1) e(1,2) k sz vec_at_list [OF ok(1), of k] by (simp add: entry_at_def)
  have r: "read_fields fo file (length pre) (o_api ord) = Good (api_of (map (v (perm ! k)) is))"
    unfolding e(3) by (rule read_fields_spec [OF b]) (use H k t in \<open>auto simp: handing_out_def\<close>)
  let ?ord = "ord\<lparr>o_api := api_of (map (v (perm ! k)) is), o_rows := o_rows ord + 1, entry_iter := Some (k + 1)\<rparr>"
  have types: "map (\<lambda>i. value_type (v (perm ! k) i)) is = map (\<lambda>i. value_type (v r i)) is" if "r \<in> set perm" for r
    using H k that unfolding handing_out_def by (metis nth_mem)
  have "handing_out fo v is file perm (k + 1) ?ord"
    using H ok types by (auto simp: handing_out_def o_def)
  then show ?thesis using ok sz at r k e(4) by (auto simp: order_select_api_def)
qed

lemma pull_rows_spec:
  assumes b: "\<And>f. f_of_bits fo (f_bits fo f) = f"
    and t: "\<And>r i t. r \<in> set perm \<Longrightarrow> i \<in> set is \<Longrightarrow> v r i = VText t \<Longrightarrow> length t < 4294967296"
  shows "handing_out fo v is file perm k ord \<Longrightarrow> k \<le> length perm \<Longrightarrow> k = 0 \<or> k < top_count ord \<Longrightarrow> length perm - k < n \<Longrightarrow>
    pull_rows n qs fo file' (s, ord) = Some (map (\<lambda>r. api_of (map (v r) is)) (take (max 1 (top_count ord) - k) (drop k perm)))"
proof (induction n arbitrary: k ord)
  case (Suc n)
  have ok: "o_sorted ord" "o_select ord = Order_select_api" "entry_iter ord = Some k" "vec_ok (o_entries ord)" "o_rows ord = k"
    using Suc.prems(1) by (auto simp: handing_out_def)
  show ?case
  proof (cases "k = length perm")
    case True
    have "vsize (o_entries ord) = length perm" using Suc.prems(1) vec_list_length [OF ok(4)] by (auto simp: handing_out_def)
    then have "orderby_finish qs fo file' (s, ord) = (Good True, (s, ord))"
      using ok True by (simp add: orderby_finish_def derefA_def order_call_def order_select_api_def outA_def)
    then show ?thesis using True by simp
  next
    case False
    then have k: "k < length perm" using Suc.prems(2) by simp
    have "perm ! k \<in> set perm" using k by simp
    then have tk: "length tx < 4294967296" if "i \<in> set is" "v (perm ! k) i = VText tx" for i tx using t that by blast
    have "\<exists>ord'. order_select_api fo ord = (Good True, ord') \<and> handing_out fo v is file perm (k + 1) ord' \<and>
        o_api ord' = api_of (map (v (perm ! k)) is) \<and> top_count ord' = top_count ord"
      by (rule order_step [OF Suc.prems(1) k b]) (use tk in blast)
    then obtain ord' where o: "order_select_api fo ord = (Good True, ord')" "handing_out fo v is file perm (k + 1) ord'"
        "o_api ord' = api_of (map (v (perm ! k)) is)" "top_count ord' = top_count ord"
      by blast
    have rows: "o_rows ord' = k + 1" using o(2) by (simp add: handing_out_def)
    have f: "orderby_finish qs fo file' (s, ord) = (Good (top_count ord \<le> k + 1), (s, ord'))"
      using ok o(1,4) rows by (simp add: orderby_finish_def derefA_def order_call_def outA_def)
    have d: "drop k perm = perm ! k # drop (k + 1) perm" using k by (simp add: Cons_nth_drop_Suc)
    show ?thesis
    proof (cases "top_count ord \<le> k + 1")
      case True
      then have "max 1 (top_count ord) - k = 1" using Suc.prems(3) by auto
      then show ?thesis using f True rows ok(5) o(3) d by simp
    next
      case False
      have IH: "pull_rows n qs fo file' (s, ord') =
          Some (map (\<lambda>r. api_of (map (v r) is)) (take (max 1 (top_count ord') - (k + 1)) (drop (k + 1) perm)))"
        by (rule Suc.IH [OF o(2)]) (use k False o(4) Suc.prems(4) in auto)
      have "max 1 (top_count ord) - k = Suc (max 1 (top_count ord) - (k + 1))" using False by auto
      then show ?thesis using f False rows ok(5) o(3,4) d IH by simp
    qed
  qed
qed simp

end
