(* ===== verification/Dgraph.thy ===== *)
theory Dgraph
  imports Fifo Node
begin

text \<open>
  The graph of the processes of a plan (util/dgraph.c). Nodes live on a heap and have at most two
  arcs; \<open>dg_nodes\<close> and \<open>dg_roots\<close> hold their addresses. The traversal is breadth first over a ring
  buffer with as many cells as there are nodes; a node counts how often it was visited. A node may
  wait in the ring more than once, so that the ring can overflow: the waiting nodes are then lost.
\<close>

section \<open>Operations\<close>

record 'd dnode =
  dn_data :: 'd
  out0 :: "nat option"
  out1 :: "nat option"
  visit_count :: nat
  is_root :: bool

record 'd dgraph =
  dheap :: "nat \<Rightarrow> 'd dnode option"
  dg_nodes :: "nat list"
  newest :: "nat option"
  trav :: "nat fifo"
  dg_roots :: "nat list"
  root_idx :: nat
  roots_good :: bool

definition dnode_construct :: "'d \<Rightarrow> 'd dnode" where
  "dnode_construct d = \<lparr>dn_data = d, out0 = None, out1 = None, visit_count = 0, is_root = False\<rparr>"

definition dgraph_construct :: "'d dgraph option" where
  "dgraph_construct = do {
     f \<leftarrow> fifo_construct 0 5;
     Some \<lparr>dheap = Map.empty, dg_nodes = [], newest = None, trav = f, dg_roots = [], root_idx = 0, roots_good = False\<rparr>
   }"

definition upd_node :: "nat \<Rightarrow> ('d dnode \<Rightarrow> 'd dnode) \<Rightarrow> 'd dgraph \<Rightarrow> 'd dgraph option" where
  "upd_node a f self = do { n \<leftarrow> dheap self a; Some (self\<lparr>dheap := (dheap self)(a \<mapsto> f n)\<rparr>) }"

fun for_nodes :: "(nat \<Rightarrow> 'd dgraph \<Rightarrow> 'd dgraph option) \<Rightarrow> nat list \<Rightarrow> 'd dgraph \<Rightarrow> 'd dgraph option" where
  "for_nodes f [] self = Some self"
| "for_nodes f (a # as) self = f a self \<bind> for_nodes f as"

definition dgraph_add_node :: "'d dgraph \<Rightarrow> nat \<Rightarrow> 'd dgraph" where
  "dgraph_add_node self a = self\<lparr>dg_nodes := dg_nodes self @ [a], newest := Some a, roots_good := False\<rparr>"

text \<open>\<open>a\<close> is the address \<open>malloc\<close> returns.\<close>

definition dgraph_add_data :: "'d dgraph \<Rightarrow> nat \<Rightarrow> 'd \<Rightarrow> 'd dgraph" where
  "dgraph_add_data self a d = dgraph_add_node (self\<lparr>dheap := (dheap self)(a \<mapsto> dnode_construct d)\<rparr>) a"

text \<open>Both graphs are on the same heap, that of \<open>dest\<close>.\<close>

definition dgraph_consume :: "'d dgraph \<Rightarrow> nat list \<Rightarrow> 'd dgraph" where
  "dgraph_consume dest src_nodes = dest\<lparr>roots_good := False, dg_nodes := dg_nodes dest @ src_nodes\<rparr>"

definition cut_arc :: "nat \<Rightarrow> 'd dnode \<Rightarrow> 'd dnode" where
  "cut_arc a n = n\<lparr>out0 := (if out0 n = Some a then None else out0 n), out1 := (if out1 n = Some a then None else out1 n)\<rparr>"

definition dgraph_remove :: "'d dgraph \<Rightarrow> nat \<Rightarrow> ('d \<times> 'd dgraph) option" where
  "dgraph_remove self i = (if i < length (dg_nodes self) then do {
     let a = dg_nodes self ! i;
     g \<leftarrow> for_nodes (\<lambda>b. upd_node b (cut_arc a)) (dg_nodes self) self;
     n \<leftarrow> dheap g a;
     Some (dn_data n, g\<lparr>dheap := (dheap g)(a := None), dg_nodes := take i (dg_nodes g) @ drop (i + 1) (dg_nodes g), roots_good := False\<rparr>)
   } else None)"

definition count_arc :: "nat option \<Rightarrow> 'd dgraph \<Rightarrow> 'd dgraph option" where
  "count_arc b self = (case b of None \<Rightarrow> Some self | Some b \<Rightarrow> upd_node b (\<lambda>n. n\<lparr>visit_count := visit_count n + 1\<rparr>) self)"

definition count_arcs :: "nat \<Rightarrow> 'd dgraph \<Rightarrow> 'd dgraph option" where
  "count_arcs a self = do {
     n \<leftarrow> dheap self a;
     g \<leftarrow> count_arc (out0 n) self;
     count_arc (out1 n) g
   }"

definition take_root :: "nat \<Rightarrow> 'd dgraph \<Rightarrow> 'd dgraph option" where
  "take_root a self = do {
     n \<leftarrow> dheap self a;
     if visit_count n = 0 then do { g \<leftarrow> upd_node a (\<lambda>n. n\<lparr>is_root := True\<rparr>) self; Some (g\<lparr>dg_roots := dg_roots g @ [a]\<rparr>) }
     else upd_node a (\<lambda>n. n\<lparr>visit_count := 0\<rparr>) self
   }"

definition reset_count :: "nat \<Rightarrow> 'd dgraph \<Rightarrow> 'd dgraph option" where
  "reset_count a = upd_node a (\<lambda>n. n\<lparr>visit_count := 0\<rparr>)"

definition assume_roots :: "'d dgraph \<Rightarrow> 'd dgraph option" where
  "assume_roots self = do {
     g1 \<leftarrow> for_nodes reset_count (dg_nodes self) self;
     g2 \<leftarrow> for_nodes count_arcs (dg_nodes g1) g1;
     for_nodes take_root (dg_nodes g2) g2
   }"

definition add_if_root :: "nat \<Rightarrow> 'd dgraph \<Rightarrow> 'd dgraph option" where
  "add_if_root a self = do { n \<leftarrow> dheap self a; Some (if is_root n then self\<lparr>dg_roots := dg_roots self @ [a]\<rparr> else self) }"

definition dgraph_get_roots :: "'d dgraph \<Rightarrow> 'd dgraph option" where
  "dgraph_get_roots self =
     (if roots_good self then Some self
      else do {
        g1 \<leftarrow> for_nodes add_if_root (dg_nodes self) (self\<lparr>dg_roots := []\<rparr>);
        g2 \<leftarrow> (if dg_roots g1 = [] then assume_roots g1 else Some g1);
        Some (g2\<lparr>roots_good := True\<rparr>)
      })"

definition enqueue :: "nat \<Rightarrow> 'd dgraph \<Rightarrow> 'd dgraph option" where
  "enqueue a self = do { f \<leftarrow> fifo_add (trav self) (Some a); Some (self\<lparr>trav := f\<rparr>) }"

definition dgraph_traverse_reset :: "'d dgraph \<Rightarrow> 'd dgraph option" where
  "dgraph_traverse_reset self = do {
     g1 \<leftarrow> dgraph_get_roots self;
     f \<leftarrow> fifo_resize 0 (trav g1) (of_nat (length (dg_nodes g1)));
     g2 \<leftarrow> for_nodes reset_count (dg_nodes g1) (g1\<lparr>trav := f, root_idx := 1\<rparr>);
     case dg_roots g2 of [] \<Rightarrow> None | r # _ \<Rightarrow> enqueue r g2
   }"

text \<open>
  \<open>fifo_get\<close> gives a pointer into the ring, through which the node is read again after each
  addition to it.
\<close>

definition in_slot :: "nat \<Rightarrow> 'd dgraph \<Rightarrow> nat option" where
  "in_slot i self = do { cell \<leftarrow> vec_at (buf (trav self)) i; cell }"

definition push_out :: "('d dnode \<Rightarrow> nat option) \<Rightarrow> nat \<Rightarrow> 'd dgraph \<Rightarrow> 'd dgraph option" where
  "push_out out i self = do {
     a \<leftarrow> in_slot i self;
     n \<leftarrow> dheap self a;
     case out n of None \<Rightarrow> Some self
     | Some b \<Rightarrow> do { m \<leftarrow> dheap self b; if visit_count m = 0 then enqueue b self else Some self }
   }"

definition visit_front :: "'d dgraph \<Rightarrow> (nat option \<times> 'd dgraph) option" where
  "visit_front self = (let (i, f) = fifo_get (trav self); g1 = self\<lparr>trav := f\<rparr> in do {
     a \<leftarrow> in_slot i g1;
     g2 \<leftarrow> upd_node a (\<lambda>n. n\<lparr>visit_count := visit_count n + 1\<rparr>) g1;
     g3 \<leftarrow> push_out out0 i g2;
     g4 \<leftarrow> push_out out1 i g3;
     b \<leftarrow> in_slot i g4;
     Some (Some b, g4)
   })"

function dgraph_traverse :: "'d dgraph \<Rightarrow> (nat option \<times> 'd dgraph) option" where
  "dgraph_traverse self =
     (if \<not> fifo_is_empty (trav self) then visit_front self
      else if \<not> root_idx self < length (dg_roots self) then Some (None, self)
      else do {
        let r = dg_roots self ! root_idx self;
        n \<leftarrow> dheap self r;
        if visit_count n \<noteq> 0 then dgraph_traverse (self\<lparr>root_idx := root_idx self + 1\<rparr>)
        else do {
          f \<leftarrow> fifo_add (trav self) (Some r);
          dgraph_traverse (self\<lparr>root_idx := root_idx self + 1, trav := f\<rparr>)
        }
      })"
  by pat_completeness auto

termination by (relation "measure (\<lambda>self. length (dg_roots self) - root_idx self)") auto

declare dgraph_traverse.simps [simp del]

text \<open>The loop \<open>while (dgraph_traverse(..))\<close>, with the nodes it was given.\<close>

partial_function (option) traverse_all :: "'d dgraph \<Rightarrow> nat list \<Rightarrow> (nat list \<times> 'd dgraph) option" where
  "traverse_all self out = do {
     (x, g) \<leftarrow> dgraph_traverse self;
     case x of None \<Rightarrow> Some (out, g) | Some a \<Rightarrow> traverse_all g (out @ [a])
   }"

declare traverse_all.simps [code]

section \<open>The search itself\<close>

lemma takeWhile_all_append: "takeWhile P (xs @ ys) = (if list_all P xs then xs @ takeWhile P ys else takeWhile P xs)"
  by (induction xs) auto

lemma takeWhile_filter_not: "takeWhile (\<lambda>n. 0 < P n) (filter (\<lambda>n. P n = (0 :: nat)) xs) = []"
  by (induction xs) auto

text \<open>
  The same search over a queue without bounds: \<open>c\<close> counts the visits, \<open>q\<close> are the waiting nodes,
  \<open>rs\<close> the roots still to be looked at. Each visit is given with the queue it leaves.
\<close>

function bfs :: "nat set \<Rightarrow> (nat \<Rightarrow> nat list) \<Rightarrow> (nat \<Rightarrow> nat) \<Rightarrow> nat list \<Rightarrow> nat list \<Rightarrow> (nat \<times> nat list) list" where
  "bfs N outs c [] [] = []"
| "bfs N outs c [] (r # rs) = (if c r \<noteq> 0 then bfs N outs c [] rs else bfs N outs c [r] rs)"
| "bfs N outs c (a # q) rs =
     (if finite N \<and> a \<in> N then
        let c' = c(a := c a + 1); q' = q @ filter (\<lambda>b. c' b = 0) (outs a) in (a, q') # bfs N outs c' q' rs
      else [])"
  by pat_completeness auto

termination
proof (relation "inv_image (less_than <*lex*> less_than <*lex*> less_than)
    (\<lambda>(N, outs, c, q, rs). (card {n \<in> N. c n = 0}, length (takeWhile (\<lambda>n. c n \<noteq> 0) q), length rs))", goal_cases)
  case (4 N outs c a q rs c' q')
  have fin: "finite {n \<in> N. c n = 0}" using 4 by simp
  show ?case
  proof (cases "c a = 0")
    case True
    have "{n \<in> N. c' n = 0} \<subset> {n \<in> N. c n = 0}" using 4 True by auto
    then show ?thesis using psubset_card_mono [OF fin] 4(3) by simp
  next
    case False
    have eq: "c' n = 0 \<longleftrightarrow> c n = 0" for n using 4(2) False by simp
    have "takeWhile (\<lambda>n. c' n \<noteq> 0) q' = takeWhile (\<lambda>n. c n \<noteq> 0) q"
      unfolding 4(3) eq by (cases "list_all (\<lambda>n. c n \<noteq> 0) q")
        (simp_all add: takeWhile_all_append takeWhile_filter_not list_all_iff takeWhile_eq_all_conv [THEN iffD2])
    moreover have "0 < c' n \<longleftrightarrow> 0 < c n" for n using eq [of n] by (metis neq0_conv)
    ultimately show ?thesis using False eq by simp
  qed
qed auto

declare bfs.simps(3) [simp del]

lemma bfs_visit: "finite N \<Longrightarrow> a \<in> N \<Longrightarrow> c' = c(a := c a + 1) \<Longrightarrow> q' = q @ filter (\<lambda>b. c' b = 0) (outs a) \<Longrightarrow>
    bfs N outs c (a # q) rs = (a, q') # bfs N outs c' q' rs"
  by (simp add: bfs.simps(3) Let_def)

definition arcs :: "(nat \<Rightarrow> nat list) \<Rightarrow> (nat \<times> nat) set" where
  "arcs outs = {(a, b). b \<in> set (outs a)}"

definition visited :: "(nat \<times> nat list) list \<Rightarrow> nat list" where
  "visited tr = map fst tr"

lemma visited_simps [simp]: "visited [] = []" "visited (p # tr) = fst p # visited tr"
  by (simp_all add: visited_def)

lemma bfs_sound: "set (visited (bfs N outs c q rs)) \<subseteq> (arcs outs)\<^sup>* `` (set q \<union> set rs)"
proof (induction N outs c q rs rule: bfs.induct)
  case (3 N outs c a q rs)
  define c' where "c' = c(a := c a + 1)"
  define q' where "q' = q @ filter (\<lambda>b. c' b = 0) (outs a)"
  show ?case
  proof (cases "finite N \<and> a \<in> N")
    case True
    have ih: "set (visited (bfs N outs c' q' rs)) \<subseteq> (arcs outs)\<^sup>* `` (set q' \<union> set rs)" using 3 True c'_def q'_def by blast
    have "set q' \<subseteq> set q \<union> set (outs a)" by (auto simp: q'_def)
    then have "(arcs outs)\<^sup>* `` (set q' \<union> set rs) \<subseteq> (arcs outs)\<^sup>* `` (set (a # q) \<union> set rs)"
    proof (intro subsetI)
      fix y assume "y \<in> (arcs outs)\<^sup>* `` (set q' \<union> set rs)"
      then obtain z where z: "(z, y) \<in> (arcs outs)\<^sup>*" "z \<in> set q \<union> set (outs a) \<union> set rs"
        using \<open>set q' \<subseteq> set q \<union> set (outs a)\<close> by blast
      have "(a, y) \<in> (arcs outs)\<^sup>*" if "z \<in> set (outs a)"
        using that z(1) by (auto simp: arcs_def intro: converse_rtrancl_into_rtrancl)
      then show "y \<in> (arcs outs)\<^sup>* `` (set (a # q) \<union> set rs)" using z by auto
    qed
    moreover have "a \<in> (arcs outs)\<^sup>* `` (set (a # q) \<union> set rs)" by auto
    ultimately show ?thesis unfolding bfs_visit [where outs = outs, OF conjunct1 [OF True] conjunct2 [OF True] c'_def q'_def] using ih by simp
  qed (auto simp: bfs.simps(3))
qed auto

lemma bfs_closed:
  assumes "\<And>n. c n \<noteq> 0 \<Longrightarrow> set (outs n) \<subseteq> {n. c n \<noteq> 0} \<union> set q" "finite N" "set q \<subseteq> N" "set rs \<subseteq> N" "\<And>n. n \<in> N \<Longrightarrow> set (outs n) \<subseteq> N"
  shows "set q \<union> set rs \<subseteq> {n. c n \<noteq> 0} \<union> set (visited (bfs N outs c q rs)) \<and>
    (\<forall>n \<in> {n. c n \<noteq> 0} \<union> set (visited (bfs N outs c q rs)). set (outs n) \<subseteq> {n. c n \<noteq> 0} \<union> set (visited (bfs N outs c q rs)))"
  using assms
proof (induction N outs c q rs rule: bfs.induct)
  case (1 N outs c)
  then show ?case by auto
next
  case (2 N outs c r rs)
  show ?case
  proof (cases "c r = 0")
    case True
    have "set (outs n) \<subseteq> {n. c n \<noteq> 0} \<union> set [r]" if "c n \<noteq> 0" for n using 2(3) [OF that] by auto
    then show ?thesis using 2(2) 2(4-7) True by auto
  next
    case False
    then show ?thesis using 2(1) 2(3-7) by auto
  qed
next
  case (3 N outs c a q rs)
  define c' where "c' = c(a := c a + 1)"
  define q' where "q' = q @ filter (\<lambda>b. c' b = 0) (outs a)"
  have a: "finite N" "a \<in> N" using 3(3,4) by auto
  have c': "{n. c' n \<noteq> 0} = insert a {n. c n \<noteq> 0}" by (auto simp: c'_def)
  have o: "set (outs n) \<subseteq> {n. c' n \<noteq> 0} \<union> set q'" if "c' n \<noteq> 0" for n
    using 3(2) [of n] that by (cases "n = a") (auto simp: c'_def q'_def)
  have q': "set q' \<subseteq> N" "set q \<subseteq> set q'" using 3(4) 3(6) [OF a(2)] by (auto simp: q'_def)
  have ih: "set q' \<union> set rs \<subseteq> {n. c' n \<noteq> 0} \<union> set (visited (bfs N outs c' q' rs)) \<and>
    (\<forall>n \<in> {n. c' n \<noteq> 0} \<union> set (visited (bfs N outs c' q' rs)). set (outs n) \<subseteq> {n. c' n \<noteq> 0} \<union> set (visited (bfs N outs c' q' rs)))"
    by (rule 3(1) [OF _ c'_def q'_def o]) (use a q' 3(5,6) in auto)
  have v: "{n. c n \<noteq> 0} \<union> set (visited (bfs N outs c (a # q) rs)) = {n. c' n \<noteq> 0} \<union> set (visited (bfs N outs c' q' rs))"
    unfolding bfs_visit [where outs = outs, OF a c'_def q'_def] visited_simps c' by auto
  show ?case unfolding v using ih q'(2) c' by auto
qed

lemma closed_reach: "S \<subseteq> F \<Longrightarrow> (\<And>n. n \<in> F \<Longrightarrow> set (outs n) \<subseteq> F) \<Longrightarrow> (arcs outs)\<^sup>* `` S \<subseteq> F"
proof
  fix n assume S: "S \<subseteq> F" "\<And>n. n \<in> F \<Longrightarrow> set (outs n) \<subseteq> F" and "n \<in> (arcs outs)\<^sup>* `` S"
  then obtain r where r: "(r, n) \<in> (arcs outs)\<^sup>*" "r \<in> S" by blast
  then show "n \<in> F" by (induction rule: rtrancl_induct) (use S in \<open>auto simp: arcs_def\<close>)
qed

text \<open>Every node that can be reached is visited, and no other one.\<close>

lemma bfs_reaches:
  assumes "finite N" "set rs \<subseteq> N" "\<And>n. n \<in> N \<Longrightarrow> set (outs n) \<subseteq> N"
  shows "set (visited (bfs N outs (\<lambda>_. 0) [] rs)) = (arcs outs)\<^sup>* `` set rs"
proof
  show "set (visited (bfs N outs (\<lambda>_. 0) [] rs)) \<subseteq> (arcs outs)\<^sup>* `` set rs" using bfs_sound [of N outs "\<lambda>_. 0" "[]" rs] by simp
  have "set rs \<subseteq> set (visited (bfs N outs (\<lambda>_. 0) [] rs)) \<and>
      (\<forall>n \<in> set (visited (bfs N outs (\<lambda>_. 0) [] rs)). set (outs n) \<subseteq> set (visited (bfs N outs (\<lambda>_. 0) [] rs)))"
    using bfs_closed [of "\<lambda>_. 0" outs "[]" N rs] assms by simp
  then show "(arcs outs)\<^sup>* `` set rs \<subseteq> set (visited (bfs N outs (\<lambda>_. 0) [] rs))" by (intro closed_reach) auto
qed

section \<open>The ring holds the queue\<close>

definition outs_of :: "(nat \<Rightarrow> 'd dnode option) \<Rightarrow> nat \<Rightarrow> nat list" where
  "outs_of h a = (case h a of None \<Rightarrow> [] | Some n \<Rightarrow>
     (case out0 n of None \<Rightarrow> [] | Some b \<Rightarrow> [b]) @ (case out1 n of None \<Rightarrow> [] | Some b \<Rightarrow> [b]))"

definition counts_of :: "(nat \<Rightarrow> 'd dnode option) \<Rightarrow> nat \<Rightarrow> nat" where
  "counts_of h a = (case h a of None \<Rightarrow> 0 | Some n \<Rightarrow> visit_count n)"

definition graph_ok :: "'d dgraph \<Rightarrow> bool" where
  "graph_ok g \<longleftrightarrow> distinct (dg_nodes g) \<and> (\<forall>a \<in> set (dg_nodes g). dheap g a \<noteq> None \<and> set (outs_of (dheap g) a) \<subseteq> set (dg_nodes g)) \<and>
     set (dg_roots g) \<subseteq> set (dg_nodes g) \<and> length (dg_nodes g) < 2147483648"

text \<open>\<open>g\<close> shows the nodes and arcs of \<open>g0\<close>, the queue \<open>q\<close>, the counts \<open>c\<close> and the roots \<open>rs\<close> to come.\<close>

definition searching :: "'d dgraph \<Rightarrow> (nat \<Rightarrow> nat) \<Rightarrow> nat list \<Rightarrow> nat list \<Rightarrow> 'd dgraph \<Rightarrow> bool" where
  "searching g0 c q rs g \<longleftrightarrow> graph_ok g \<and> dg_nodes g = dg_nodes g0 \<and> dg_roots g = dg_roots g0 \<and>
     (\<forall>a. outs_of (dheap g) a = outs_of (dheap g0) a) \<and> (\<forall>a \<in> set (dg_nodes g0). counts_of (dheap g) a = c a) \<and>
     fifo_ok (trav g) \<and> fifo_list (trav g) = map Some q \<and> vsize (buf (trav g)) = max 2 (length (dg_nodes g0)) \<and>
     set q \<subseteq> set (dg_nodes g0) \<and> rs = drop (root_idx g) (dg_roots g0)"

lemma graph_ok_cong: "dheap g' = dheap g \<Longrightarrow> dg_nodes g' = dg_nodes g \<Longrightarrow> dg_roots g' = dg_roots g \<Longrightarrow> graph_ok g' = graph_ok g"
  by (simp add: graph_ok_def)

lemma searching_node:
  assumes "searching g0 c q rs g" "a \<in> set (dg_nodes g0)"
  obtains n where "dheap g a = Some n" "visit_count n = c a" "set (outs_of (dheap g0) a) \<subseteq> set (dg_nodes g0)"
proof -
  have "graph_ok g" "dg_nodes g = dg_nodes g0" "outs_of (dheap g) a = outs_of (dheap g0) a" "counts_of (dheap g) a = c a"
    using assms by (simp_all add: searching_def)
  moreover from this have "dheap g a \<noteq> None \<and> set (outs_of (dheap g) a) \<subseteq> set (dg_nodes g)" using assms(2) unfolding graph_ok_def by metis
  ultimately show thesis using that by (auto simp: counts_of_def)
qed

lemma searching_root: "searching g0 c q rs g \<Longrightarrow> r \<in> set (dg_roots g0) \<Longrightarrow> r \<in> set (dg_nodes g0)"
  by (auto simp: searching_def graph_ok_def)

text \<open>The slot of the node taken last is not written before the ring is full.\<close>

definition slot_holds :: "nat \<Rightarrow> nat \<Rightarrow> 'd dgraph \<Rightarrow> bool" where
  "slot_holds i a g \<longleftrightarrow> i < vsize (buf (trav g)) \<and> vec_list (buf (trav g)) ! i = Some a \<and>
     (i + 1) mod vsize (buf (trav g)) = unat (tail (trav g))"

lemma slot_holds_in_slot: "fifo_ok (trav g) \<Longrightarrow> slot_holds i a g \<Longrightarrow> in_slot i g = Some a"
  by (simp add: slot_holds_def in_slot_def fifo_ok_def vec_at_list)

lemma enqueue_searching:
  assumes S: "searching g0 c q rs g" and b: "b \<in> set (dg_nodes g0)" and fits: "length q + 1 < max 2 (length (dg_nodes g0))"
  shows "\<exists>g'. enqueue b g = Some g' \<and> searching g0 c (q @ [b]) rs g' \<and> dheap g' = dheap g \<and> dg_roots g' = dg_roots g \<and>
    root_idx g' = root_idx g \<and> (\<forall>i a. slot_holds i a g \<longrightarrow> slot_holds i a g')"
proof -
  have f: "fifo_ok (trav g)" "fifo_list (trav g) = map Some q" "vsize (buf (trav g)) = max 2 (length (dg_nodes g0))"
    using S by (auto simp: searching_def)
  have len: "fifo_len (trav g) = length q" using f(2) by (metis fifo_list_length length_map)
  then obtain f' where f': "fifo_add (trav g) (Some b) = Some f'" "fifo_ok f'" "fifo_list f' = fifo_list (trav g) @ [Some b]"
      "tail f' = tail (trav g)" "vsize (buf f') = vsize (buf (trav g))" "vec_list (buf f') = (vec_list (buf (trav g)))[unat (head (trav g)) := Some b]"
    using fifo_add_spec [OF f(1), of "Some b"] f(3) fits by (auto simp: yields_exists)
  let ?g = "g\<lparr>trav := f'\<rparr>"
  have "graph_ok ?g" using S graph_ok_cong [of ?g g] by (simp add: searching_def)
  then have S': "searching g0 c (q @ [b]) rs ?g" using S b f' f(2,3) by (simp add: searching_def)
  have "slot_holds i a ?g" if sl: "slot_holds i a g" for i a
  proof -
    let ?n = "vsize (buf (trav g))"
    have i: "i < ?n" "(i + 1) mod ?n = unat (tail (trav g))" using sl by (auto simp: slot_holds_def)
    have "unat (head (trav g)) = ((i + 1) mod ?n + length q) mod ?n" using fifo_head_ring [OF f(1)] len i(2) by simp
    also have "\<dots> = (i + (length q + 1)) mod ?n" by (simp add: mod_simps add.assoc)
    finally have "unat (head (trav g)) \<noteq> i"
      using mod_shift_inj [of i 0 ?n "length q + 1"] i(1) fits f(3) by (auto simp: mod_if)
    then show ?thesis using sl f'(4-6) by (simp add: slot_holds_def)
  qed
  then show ?thesis using S' f'(1) by (auto simp: enqueue_def)
qed

lemma push_out_searching:
  assumes S: "searching g0 c q rs g" and sl: "slot_holds i a g" and n: "dheap g a = Some n"
    and b: "\<And>b. out n = Some b \<Longrightarrow> b \<in> set (dg_nodes g0)"
    and q': "q' = q @ filter (\<lambda>b. c b = 0) (case out n of None \<Rightarrow> [] | Some b \<Rightarrow> [b])" and fits: "length q' < max 2 (length (dg_nodes g0))"
  shows "\<exists>g'. push_out out i g = Some g' \<and> searching g0 c q' rs g' \<and> dheap g' = dheap g \<and> slot_holds i a g'"
proof -
  have slot: "in_slot i g = Some a" using slot_holds_in_slot sl S by (auto simp: searching_def)
  show ?thesis
  proof (cases "out n")
    case None
    then show ?thesis using S sl n slot q' by (simp add: push_out_def)
  next
    case (Some b)
    then have bn: "b \<in> set (dg_nodes g0)" using assms(4) by simp
    obtain m where m: "dheap g b = Some m" and "visit_count m = c b" using searching_node [OF S bn] by blast
    then show ?thesis
      using S sl n slot q' fits Some m enqueue_searching [OF S bn] by (cases "c b = 0") (auto simp: push_out_def)
  qed
qed

lemma visit_front_searching:
  assumes S: "searching g0 c (a # q) rs g" and c': "c' = c(a := c a + 1)"
    and q': "q' = q @ filter (\<lambda>b. c' b = 0) (outs_of (dheap g0) a)" and fits: "length q' < max 2 (length (dg_nodes g0))"
  shows "\<exists>g'. visit_front g = Some (Some a, g') \<and> searching g0 c' q' rs g' \<and> \<not> fifo_is_empty (trav g)"
proof -
  let ?n = "vsize (buf (trav g))"
  have f: "fifo_ok (trav g)" "fifo_list (trav g) = map Some (a # q)" "?n = max 2 (length (dg_nodes g0))" "a \<in> set (dg_nodes g0)"
    using S by (auto simp: searching_def)
  obtain i f1 where get: "fifo_get (trav g) = (i, f1)" by (cases "fifo_get (trav g)")
  have f1: "fifo_ok f1" "fifo_list f1 = map Some q" "buf f1 = buf (trav g)" "vec_at (buf (trav g)) i = Some (Some a)"
    using fifo_get_spec [OF f(1) _ get] f(2) by auto
  have it: "i = unat (tail (trav g))" "unat (tail f1) = (i + 1) mod ?n" "i < ?n"
    using get idx_adv_unat [OF f(1), of "tail (trav g)"] f(1) by (auto simp: fifo_get_def fifo_ok_def)
  let ?g1 = "g\<lparr>trav := f1\<rparr>"
  obtain n where n: "dheap g a = Some n" and cn: "visit_count n = c a"
      and oa: "set (outs_of (dheap g0) a) \<subseteq> set (dg_nodes g0)" using searching_node [OF S f(4)] by blast
  let ?g2 = "?g1\<lparr>dheap := (dheap g)(a \<mapsto> n\<lparr>visit_count := visit_count n + 1\<rparr>)\<rparr>"
  have outs: "outs_of (dheap ?g2) b = outs_of (dheap g) b" for b using n by (auto simp: outs_of_def)
  have vl: "vec_list (buf (trav g)) ! i = Some a"
    using f1(4) vec_at_list [of "buf (trav g)" i] f(1) it(3) by (simp add: fifo_ok_def)
  have sl: "slot_holds i a ?g2" using it vl f1(3) by (simp add: slot_holds_def)
  have "in_slot i ?g1 = Some a" using f1(3,4) by (simp add: in_slot_def)
  have nn: "dheap ?g2 b \<noteq> None \<longleftrightarrow> dheap g b \<noteq> None" for b using n by simp
  have "graph_ok g" using S by (simp add: searching_def)
  then have ok: "graph_ok ?g2" unfolding graph_ok_def outs nn by simp
  have cs: "counts_of (dheap ?g2) b = c' b" if "b \<in> set (dg_nodes g0)" for b
    using S that cn n unfolding searching_def by (cases "b = a") (simp_all add: counts_of_def c')
  have S2: "searching g0 c' q rs ?g2" unfolding searching_def outs using S ok cs f1 f(3) by (simp add: searching_def)
  have oe: "outs_of (dheap g) a = outs_of (dheap g0) a" using S by (simp add: searching_def)
  let ?n1 = "n\<lparr>visit_count := visit_count n + 1\<rparr>"
  let ?l = "\<lambda>out. case out ?n1 of None \<Rightarrow> [] | Some (b :: nat) \<Rightarrow> [b]"
  have split: "outs_of (dheap g0) a = ?l out0 @ ?l out1" using oe n by (simp add: outs_of_def)
  define q1 where "q1 = q @ filter (\<lambda>b. c' b = 0) (?l out0)"
  have q2: "q' = q1 @ filter (\<lambda>b. c' b = 0) (?l out1)" by (simp add: q' q1_def split)
  have in0: "\<And>b. out0 ?n1 = Some b \<Longrightarrow> b \<in> set (dg_nodes g0)" "\<And>b. out1 ?n1 = Some b \<Longrightarrow> b \<in> set (dg_nodes g0)"
    using oa unfolding split by auto
  have "length q1 < max 2 (length (dg_nodes g0))" using fits q2 by simp
  then obtain g3 where g3: "push_out out0 i ?g2 = Some g3" "searching g0 c' q1 rs g3" "dheap g3 = dheap ?g2" "slot_holds i a g3"
    using push_out_searching [OF S2 sl, of ?n1 out0 q1] in0(1) q1_def by auto
  obtain g4 where g4: "push_out out1 i g3 = Some g4" "searching g0 c' q' rs g4" "slot_holds i a g4"
    using push_out_searching [OF g3(2,4), of ?n1 out1 q'] in0(2) q2 fits g3(3) by auto
  have "in_slot i g4 = Some a" using slot_holds_in_slot [OF _ g4(3)] g4(2) by (simp add: searching_def)
  then have vf: "visit_front g = Some (Some a, g4)"
    unfolding visit_front_def get Let_def prod.case upd_node_def
    using \<open>in_slot i ?g1 = Some a\<close> n g3(1) g4(1) by simp
  have "fifo_len (trav g) \<noteq> 0" using fifo_list_length [of "trav g"] f(2) by simp
  then have "\<not> fifo_is_empty (trav g)" using fifo_is_empty_len [OF f(1)] by simp
  with vf g4(2) show ?thesis by (intro exI [of _ g4] conjI)
qed

lemma traverse_all_searching:
  "searching g0 c q rs g \<Longrightarrow> N = set (dg_nodes g0) \<Longrightarrow> outs = outs_of (dheap g0) \<Longrightarrow>
   (\<And>a q'. (a, q') \<in> set (bfs N outs c q rs) \<Longrightarrow> length q' < max 2 (length (dg_nodes g0))) \<Longrightarrow>
   \<exists>g'. traverse_all g out = Some (out @ visited (bfs N outs c q rs), g') \<and>
     searching g0 (\<lambda>n. c n + count_list (visited (bfs N outs c q rs)) n) [] [] g'"
proof (induction N outs c q rs arbitrary: g out rule: bfs.induct)
  case (1 N outs c)
  have e: "fifo_is_empty (trav g)" "\<not> root_idx g < length (dg_roots g)"
    using 1(1) fifo_is_empty_len [of "trav g"] fifo_list_length [of "trav g"] by (auto simp: searching_def)
  then show ?case using 1(1) by (simp add: traverse_all.simps [of g] dgraph_traverse.simps [of g])
next
  case (2 N outs c r rs)
  let ?g = "g\<lparr>root_idx := root_idx g + 1\<rparr>"
  have e: "fifo_is_empty (trav g)" using 2(3) fifo_is_empty_len [of "trav g"] fifo_list_length [of "trav g"] by (auto simp: searching_def)
  have d: "drop (root_idx g) (dg_roots g) = r # rs" using 2(3) by (auto simp: searching_def)
  then have lt: "root_idx g < length (dg_roots g)" by (metis drop_eq_Nil linorder_not_less list.distinct(1))
  then have r: "dg_roots g ! root_idx g = r" "drop (root_idx g + 1) (dg_roots g) = rs" using d by (auto simp: Cons_nth_drop_Suc [symmetric])
  have "dg_roots g = dg_roots g0" using 2(3) by (simp add: searching_def)
  then have rn: "r \<in> set (dg_nodes g0)" using searching_root [OF 2(3)] lt r(1) by (metis nth_mem)
  obtain n where n: "dheap g r = Some n" and cn: "visit_count n = c r" using searching_node [OF 2(3) rn] by blast
  have S: "searching g0 c [] rs ?g" using 2(3) r(2) graph_ok_cong [of ?g g] by (simp add: searching_def)
  show ?case
  proof (cases "c r = 0")
    case False
    have "dgraph_traverse g = dgraph_traverse ?g" using e lt r n cn False by (simp add: dgraph_traverse.simps [of g] Let_def)
    then have "traverse_all g out = traverse_all ?g out" by (subst (1 2) traverse_all.simps) simp
    then show ?thesis using 2(1) [OF _ S 2(4,5)] 2(6) False by simp
  next
    case True
    obtain g1 where g1: "enqueue r ?g = Some g1" "searching g0 c [r] rs g1" using enqueue_searching [OF S rn] by (auto simp: less_max_iff_disj)
    have "dgraph_traverse g = dgraph_traverse g1" using e lt r n cn True g1(1)
      by (auto simp: dgraph_traverse.simps [of g] Let_def enqueue_def bind_eq_Some_conv)
    then have "traverse_all g out = traverse_all g1 out" by (subst (1 2) traverse_all.simps) simp
    then show ?thesis using 2(2) [OF _ g1(2) 2(4,5)] 2(6) True by simp
  qed
next
  case (3 N outs c a q rs)
  define c' where "c' = c(a := c a + 1)"
  define q' where "q' = q @ filter (\<lambda>b. c' b = 0) (outs a)"
  have a: "finite N" "a \<in> N" using 3(2,3) by (auto simp: searching_def)
  have v: "bfs N outs c (a # q) rs = (a, q') # bfs N outs c' q' rs" by (rule bfs_visit [where outs = outs, OF a c'_def q'_def])
  have "length q' < max 2 (length (dg_nodes g0))" using 3(5) [of a q'] v by simp
  then obtain g1 where g1: "visit_front g = Some (Some a, g1)" "searching g0 c' q' rs g1" "\<not> fifo_is_empty (trav g)"
    using visit_front_searching [OF 3(2) c'_def, of q'] q'_def 3(4) by auto
  have "traverse_all g out = traverse_all g1 (out @ [a])"
    using g1(1,3) by (simp add: traverse_all.simps [of g] dgraph_traverse.simps [of g])
  moreover have "\<exists>g'. traverse_all g1 (out @ [a]) = Some ((out @ [a]) @ visited (bfs N outs c' q' rs), g') \<and>
      searching g0 (\<lambda>n. c' n + count_list (visited (bfs N outs c' q' rs)) n) [] [] g'"
  proof (rule 3(1) [OF _ c'_def q'_def g1(2) 3(3,4)])
    show "length p < max 2 (length (dg_nodes g0))" if "(b, p) \<in> set (bfs N outs c' q' rs)" for b p
      using 3(5) [of b p] that by (simp add: v)
  qed (use a in simp)
  moreover have "(\<lambda>n. c' n + count_list (visited (bfs N outs c' q' rs)) n) = (\<lambda>n. c n + count_list (visited (bfs N outs c (a # q) rs)) n)"
    by (auto simp: v c'_def)
  ultimately show ?case by (simp add: v)
qed

section \<open>Starting a traversal\<close>

lemma vec_resize_and_zero_ok:
  assumes "vec_ok v"
  shows "yields (vec_resize_and_zero z v n) (\<lambda>v'. vec_ok v' \<and> vsize v' = n)"
proof -
  note sh = vec_resize_shape [OF assms, of n]
  have le: "vsize v \<le> valloc (vec_resize v n)" using assms sh(3) by (simp add: vec_ok_def)
  show ?thesis
  proof (cases "valloc v = valloc (vec_resize v n)")
    case True
    then show ?thesis using sh(1,2) by (simp add: vec_resize_and_zero_def Let_def)
  next
    case False
    have "mem_write (vsize v) (replicate (valloc (vec_resize v n) - vsize v) (Some z)) (vdata (vec_resize v n)) \<noteq> None"
      using le sh(4) by (simp add: mem_write_def)
    then obtain d where d: "mem_write (vsize v) (replicate (valloc (vec_resize v n) - vsize v) (Some z)) (vdata (vec_resize v n)) = Some d" by blast
    then have "length d = length (vdata (vec_resize v n))" by (rule mem_write_length)
    then show ?thesis using False d sh(1,2) by (simp add: vec_resize_and_zero_def Let_def vec_ok_def)
  qed
qed

lemma fifo_resize_spec:
  assumes "fifo_ok f" "n \<le> 2147483648"
  shows "yields (fifo_resize z f n) (\<lambda>f'. fifo_ok f' \<and> fifo_list f' = [] \<and> vsize (buf f') = max 2 (unat n))"
proof -
  define m where "m = (if n \<le> 1 then 2 else n)"
  have m: "unat m = max 2 (unat n)" "2 \<le> unat m" "unat m \<le> 2147483648"
    using assms(2) by (auto simp: m_def word_le_nat_alt max_def)
  have "vec_ok (buf f)" using assms(1) by (simp add: fifo_ok_def)
  from vec_resize_and_zero_ok [OF this, of z "unat m"] show ?thesis
    using m by (auto simp: fifo_resize_def Let_def yields_exists fifo_ok_def fifo_list_def fifo_len_def ring_def simp flip: m_def)
qed

lemma reset_counts:
  "\<forall>a \<in> set as. dheap g a \<noteq> None \<Longrightarrow> \<exists>h. for_nodes reset_count as g = Some (g\<lparr>dheap := h\<rparr>) \<and>
    (\<forall>a. h a = (if a \<in> set as then map_option (\<lambda>n. n\<lparr>visit_count := 0\<rparr>) (dheap g a) else dheap g a))"
proof (induction as arbitrary: g)
  case Nil
  then show ?case by (auto intro!: exI [of _ "dheap g"])
next
  case (Cons b as)
  then obtain n where n: "dheap g b = Some n" by auto
  let ?g = "g\<lparr>dheap := (dheap g)(b \<mapsto> n\<lparr>visit_count := 0\<rparr>)\<rparr>"
  have "\<forall>a \<in> set as. dheap ?g a \<noteq> None" using Cons.prems by auto
  from Cons.IH [OF this] obtain h where h: "for_nodes reset_count as ?g = Some (?g\<lparr>dheap := h\<rparr>)"
      "\<forall>a. h a = (if a \<in> set as then map_option (\<lambda>n. n\<lparr>visit_count := 0\<rparr>) (dheap ?g a) else dheap ?g a)" by blast
  have "for_nodes reset_count (b # as) g = Some (g\<lparr>dheap := h\<rparr>)" using n h(1) by (simp add: reset_count_def upd_node_def)
  moreover have "h a = (if a \<in> set (b # as) then map_option (\<lambda>n. n\<lparr>visit_count := 0\<rparr>) (dheap g a) else dheap g a)" for a
    using h(2) [rule_format, of a] n by auto
  ultimately show ?case by blast
qed

lemma traverse_reset_searching:
  assumes "graph_ok g" "roots_good g" "dg_roots g = r # rs" "fifo_ok (trav g)"
  shows "\<exists>g'. dgraph_traverse_reset g = Some g' \<and> searching g (\<lambda>_. 0) [r] rs g'"
proof -
  have G: "\<forall>a \<in> set (dg_nodes g). dheap g a \<noteq> None" "r \<in> set (dg_nodes g)" "length (dg_nodes g) < 2147483648"
    using assms(1,3) unfolding graph_ok_def by auto
  have n: "unat (of_nat (length (dg_nodes g)) :: u32) = length (dg_nodes g)" using G(3) by (simp add: unat_of_nat_u32)
  have "(of_nat (length (dg_nodes g)) :: u32) \<le> 2147483648" using n G(3) by (simp add: word_le_nat_alt)
  then obtain f where f: "fifo_resize 0 (trav g) (of_nat (length (dg_nodes g))) = Some f" "fifo_ok f" "fifo_list f = []"
      "vsize (buf f) = max 2 (length (dg_nodes g))"
    using fifo_resize_spec [OF assms(4), of "of_nat (length (dg_nodes g))" 0] n by (auto simp: yields_exists)
  let ?g1 = "g\<lparr>trav := f, root_idx := 1\<rparr>"
  obtain h where h: "for_nodes reset_count (dg_nodes g) ?g1 = Some (?g1\<lparr>dheap := h\<rparr>)"
      "\<And>a. h a = (if a \<in> set (dg_nodes g) then map_option (\<lambda>n. n\<lparr>visit_count := 0\<rparr>) (dheap g a) else dheap g a)"
    using reset_counts [of "dg_nodes g" ?g1] G(1) by auto
  let ?g2 = "?g1\<lparr>dheap := h\<rparr>"
  have outs: "outs_of h a = outs_of (dheap g) a" for a by (auto simp: outs_of_def h(2) split: option.splits)
  have nn: "h a \<noteq> None \<longleftrightarrow> dheap g a \<noteq> None" for a by (auto simp: h(2))
  have cs: "counts_of h a = 0" if "a \<in> set (dg_nodes g)" for a using that by (auto simp: counts_of_def h(2) split: option.splits)
  have "graph_ok ?g2" using assms(1) unfolding graph_ok_def by (simp add: outs nn del: not_None_eq)
  then have "searching g (\<lambda>_. 0) [] rs ?g2" using f(2-4) assms(3) cs by (simp add: searching_def outs)
  from enqueue_searching [OF this G(2)] obtain g' where "enqueue r ?g2 = Some g'" "searching g (\<lambda>_. 0) [r] rs g'"
    by (auto simp: less_max_iff_disj)
  then show ?thesis using assms(2,3) f(1) h(1) by (auto simp: dgraph_traverse_reset_def dgraph_get_roots_def)
qed

definition search_of :: "'d dgraph \<Rightarrow> (nat \<times> nat list) list" where
  "search_of g = bfs (set (dg_nodes g)) (outs_of (dheap g)) (\<lambda>_. 0) [] (dg_roots g)"

text \<open>A small graph from the arcs of its nodes.\<close>

definition sample_graph :: "(nat option \<times> nat option) list \<Rightarrow> nat list \<Rightarrow> unit dgraph" where
  "sample_graph as rs = \<lparr>dheap = (\<lambda>a. if a < length as then Some ((dnode_construct ())\<lparr>out0 := fst (as ! a), out1 := snd (as ! a)\<rparr>) else None),
     dg_nodes = [0..<length as], newest = None,
     trav = \<lparr>buf = \<lparr>vdata = replicate 6 None, vsize = 5, valloc = 6\<rparr>, shared_mutex_fifo = None, input_count = 0, head = 0, tail = 0,
       iter_head = 0, is_open = True, siglog = []\<rparr>,
     dg_roots = rs, root_idx = 0, roots_good = True\<rparr>"

text \<open>
  Seven nodes of which no two ways have different lengths: 3 and 4 wait twice each, and so do 5 and
  6 behind them. The ring of seven cells overflows.
\<close>

definition crowded_graph :: "unit dgraph" where
  "crowded_graph = sample_graph [(Some 1, Some 2), (Some 3, Some 4), (Some 3, Some 4), (Some 5, Some 6), (Some 5, Some 6),
     (None, None), (None, None)] [0]"

lemma crowded_graph_traversal:
  "map_option fst (dgraph_traverse_reset crowded_graph \<bind> (\<lambda>g. traverse_all g [])) = Some [0, 1, 2, 3, 4, 6]"
  by code_simp

lemma crowded_graph_reach: "(0, 5) \<in> (arcs (outs_of (dheap crowded_graph)))\<^sup>*"
proof -
  have "(0, 1) \<in> arcs (outs_of (dheap crowded_graph))" "(1, 3) \<in> arcs (outs_of (dheap crowded_graph))" "(3, 5) \<in> arcs (outs_of (dheap crowded_graph))"
    by (simp_all add: arcs_def outs_of_def crowded_graph_def sample_graph_def dnode_construct_def)
  then show ?thesis by (meson converse_rtrancl_into_rtrancl rtrancl.rtrancl_refl)
qed

end
