(* ===== verification/Schema.thy ===== *)
theory Schema
  imports ExprOps
begin

text \<open>
  The schema of a source (lib/schema.c): its column expressions in order, where a column lies
  in a fixed-width record, and the formats of the file. Expressions are addressed by their index
  in a list of all expressions; \<open>new_(expression, ..)\<close> appends to it. A parsed CSV record is the
  list of its fields.
\<close>

section \<open>State\<close>

datatype io = IO_UNDEFINED | IO_LIBCSV | IO_FIXED | IO_SUBQUERY

record schema =
  s_exprs :: "nat list"
  s_name :: "string option"
  s_delimiter :: string
  s_terminator :: string
  s_io_type :: io
  s_write_io :: io
  is_default :: bool
  delim_is_set :: bool
  is_preresolved :: bool

definition schema_construct :: schema where
  "schema_construct = \<lparr>s_exprs = [], s_name = None, s_delimiter = [], s_terminator = [], s_io_type = IO_UNDEFINED,
     s_write_io = IO_UNDEFINED, is_default = True, delim_is_set = False, is_preresolved = False\<rparr>"

text \<open>\<open>strncpy_\<close> copies at most \<open>DELIM_LEN_MAX\<close> bytes.\<close>

definition schema_set_delim :: "schema \<Rightarrow> string \<Rightarrow> schema" where
  "schema_set_delim self delim = self\<lparr>s_delimiter := take 32 (c_str delim), delim_is_set := True\<rparr>"

definition schema_copy :: "schema \<Rightarrow> schema option \<Rightarrow> schema" where
  "schema_copy self src_schema = (case src_schema of
     None \<Rightarrow>
       (let self1 = (if \<not> delim_is_set self then schema_set_delim self '','' else self)
        in self1\<lparr>s_io_type := IO_LIBCSV, s_write_io := IO_LIBCSV, is_default := True\<rparr>)
   | Some src \<Rightarrow>
       (let self1 = (if \<not> delim_is_set self then schema_set_delim self (s_delimiter src) else self)
        in self1\<lparr>s_write_io := s_write_io src,
             s_io_type := (if s_io_type src = IO_UNDEFINED then s_write_io src else s_io_type src),
             is_default := is_default src\<rparr>))"

definition schema_eq :: "schema \<Rightarrow> schema \<Rightarrow> bool" where
  "schema_eq s1 s2 = (if s_io_type s1 \<noteq> s_io_type s2 then False
     else if s_io_type s1 = IO_LIBCSV then s_delimiter s1 = s_delimiter s2 else True)"

section \<open>Columns\<close>

definition schema_add_expression :: "'f expression list \<Rightarrow> schema \<Rightarrow> nat \<Rightarrow> int \<Rightarrow> 'f expression list \<times> schema" where
  "schema_add_expression es self p src_idx =
     (es[p := (es ! p)\<lparr>e_src_idx := src_idx, e_index := length (s_exprs self)\<rparr>], self\<lparr>s_exprs := s_exprs self @ [p]\<rparr>)"

definition schema_apply_expression_alias :: "'f expression list \<Rightarrow> schema \<Rightarrow> string \<Rightarrow> 'f expression list option" where
  "schema_apply_expression_alias es schema alias =
     (if s_exprs schema = [] then None
      else let p = last (s_exprs schema) in Some (es[p := (es ! p)\<lparr>e_alias := c_str alias\<rparr>]))"

text \<open>A new column: \<open>new_(expression, EXPR_COLUMN_NAME, name, "")\<close>.\<close>

definition new_column :: "string \<Rightarrow> 'f expression" where
  "new_column field = (blank_expression EXPR_COLUMN_NAME [])\<lparr>e_alias := c_str field, e_name := c_str field\<rparr>"

text \<open>The header of a CSV file names its columns.\<close>

fun schema_assign_header :: "string list \<Rightarrow> int \<Rightarrow> 'f expression list \<times> schema \<Rightarrow> 'f expression list \<times> schema" where
  "schema_assign_header [] src_idx st = st"
| "schema_assign_header (field # rec) src_idx (es, self) =
     (case schema_add_expression (es @ [new_column field]) self (length es) src_idx of (es1, self1) \<Rightarrow>
        schema_assign_header rec src_idx (es1[length es := (es1 ! length es)\<lparr>e_type := FIELD_STRING\<rparr>], self1))"

section \<open>Schema files\<close>

text \<open>\<open>source\<close> is what the parse of a schema file fills: the reader's format and \<open>running_offset\<close>.\<close>

record 'f source =
  so_exprs :: "'f expression list"
  so_schema :: schema
  so_type :: io
  so_offset :: nat

definition set_variable_from_rec :: "string list \<Rightarrow> unit outcome" where
  "set_variable_from_rec rec = (if length rec \<noteq> 2 then Fail else Good ())"

text \<open>A width is positive; \<open>unsigned\<close> keeps its lower 32 bits, and those of the offset.\<close>

definition u32_of :: "nat \<Rightarrow> nat" where
  "u32_of n = n mod 4294967296"

definition add_expression_from_rec :: "string list \<Rightarrow> int \<Rightarrow> ('f source, nat) act" where
  "add_expression_from_rec rec src_idx s =
     (if rec = [] \<or> length rec > 3 then (Fail, s)
      else
        let e = (new_column (rec ! 0))\<lparr>e_type := FIELD_STRING\<rparr>;
            add = (\<lambda>e s. case schema_add_expression (so_exprs s @ [e]) (so_schema s) (length (so_exprs s)) src_idx of
              (es, sch) \<Rightarrow> (Good (length rec), s\<lparr>so_exprs := es, so_schema := sch\<rparr>))
        in if length rec < 3 then add e (s\<lparr>so_type := IO_LIBCSV\<rparr>)
           else case str2long (c_str (rec ! 1)) of
             None \<Rightarrow> (Fail, s\<lparr>so_type := IO_FIXED\<rparr>)
           | Some width \<Rightarrow>
               if sint width \<le> 0 then (Fail, s\<lparr>so_type := IO_FIXED\<rparr>)
               else add (e\<lparr>e_location := u32_of (so_offset s), e_width := u32_of (nat (sint width))\<rparr>)
                     (s\<lparr>so_type := IO_FIXED, so_offset := (so_offset s + nat (sint width)) mod 18446744073709551616\<rparr>))"

text \<open>
  The loop over the records of a schema file. Each record comes with its parse as an assignment
  (\<open>a = b\<close>); \<open>failed\<close> is whether the CSV reader ends with a failure.
\<close>

fun schema_records :: "bool \<Rightarrow> (string list \<times> string list) list \<Rightarrow> int \<Rightarrow> nat \<Rightarrow> ('f source, unit) act" where
  "schema_records failed [] src_idx first_count s = (if failed then Fail else Good (), s)"
| "schema_records failed ((rec, assignment) # recs) src_idx first_count s =
     (if length assignment > 1
      then derefA (outA (set_variable_from_rec assignment)) (\<lambda>_. schema_records failed recs src_idx first_count) s
      else derefA (add_expression_from_rec rec src_idx) (\<lambda>count.
        if first_count = 0 then schema_records failed recs src_idx count
        else if first_count \<noteq> count then outA Fail
        else schema_records failed recs src_idx first_count) s)"

text \<open>Also gives \<open>reclen\<close>, the length of a record. An unreadable schema file is \<open>None\<close>.\<close>

definition parse_schema_file :: "(bool \<times> (string list \<times> string list) list) option \<Rightarrow> int \<Rightarrow> 'f source \<times> nat \<Rightarrow> unit outcome \<times> 'f source \<times> nat" where
  "parse_schema_file content src_idx s = (case content of
     None \<Rightarrow> (Fail, s)
   | Some (failed, recs) \<Rightarrow>
       (case schema_records failed recs src_idx 0 ((fst s)\<lparr>so_offset := 0\<rparr>) of (r, s') \<Rightarrow> (r, s', so_offset s')))"

end
