(* ===== verification/Fixed.thy ===== *)
theory Fixed
  imports Schema Select
begin

text \<open>
  Fixed-width files (lib/fixedwrite.c, lib/fixedread.c). The writer writes to a temporary file
  beside its target and renames it over the target when it is closed; the reader maps the file
  into memory, and the fields of its records are views of that mapping.
\<close>

section \<open>Files\<close>

text \<open>
  A stream is the standard output or the file that has (or had) a path. \<open>os\<close> is what the C
  library decides: the name that \<open>mkstemp\<close> makes of a template, and whether a call succeeds.
  \<open>sig_tmps\<close> is the list of files that lib/fqlsig.c removes when the program is interrupted.
\<close>

datatype stream = Stdout | Path string

record disk =
  std_out :: string
  contents :: "string \<Rightarrow> string option"
  sig_tmps :: "string list"

record os =
  os_mkstemp :: "disk \<Rightarrow> string \<Rightarrow> string option"
  os_rename :: "disk \<Rightarrow> string \<Rightarrow> string \<Rightarrow> bool"
  os_chmod :: "disk \<Rightarrow> string \<Rightarrow> bool"

definition emit :: "stream \<Rightarrow> string \<Rightarrow> disk \<Rightarrow> disk" where
  "emit f t d = (case f of
     Stdout \<Rightarrow> d\<lparr>std_out := std_out d @ t\<rparr>
   | Path p \<Rightarrow> (case contents d p of None \<Rightarrow> d | Some c \<Rightarrow> d\<lparr>contents := (contents d)(p \<mapsto> c @ t)\<rparr>))"

definition rename_file :: "string \<Rightarrow> string \<Rightarrow> disk \<Rightarrow> disk" where
  "rename_file tmp f d = d\<lparr>contents := ((contents d)(tmp := None))(f := contents d tmp)\<rparr>"

definition strip_end :: "char \<Rightarrow> string \<Rightarrow> string" where
  "strip_end c s = rev (dropWhile (\<lambda>x. x = c) (rev s))"

definition dirname :: "string \<Rightarrow> string" where
  "dirname p = (let q = strip_end (CHR 0x2F) p; d = rev (dropWhile (\<lambda>x. x \<noteq> CHR 0x2F) (rev q)); e = strip_end (CHR 0x2F) d
     in if p = [] then ''.'' else if q = [] then [CHR 0x2F] else if d = [] then ''.'' else if e = [] then [CHR 0x2F] else e)"

definition fqlsig_tmp_push :: "string \<Rightarrow> disk \<Rightarrow> disk" where
  "fqlsig_tmp_push tmp d = d\<lparr>sig_tmps := sig_tmps d @ [tmp]\<rparr>"

definition fqlsig_tmp_remove_node :: "string \<Rightarrow> disk \<Rightarrow> disk" where
  "fqlsig_tmp_remove_node tmp d = d\<lparr>sig_tmps := remove1 tmp (sig_tmps d)\<rparr>"

definition fqlsig_tmp_remove_file :: "string \<Rightarrow> disk \<Rightarrow> disk" where
  "fqlsig_tmp_remove_file tmp d = d\<lparr>contents := (contents d)(tmp := None)\<rparr>"

definition fqlsig_tmp_removeall :: "disk \<Rightarrow> disk" where
  "fqlsig_tmp_removeall d = (fold fqlsig_tmp_remove_file (sig_tmps d) d)\<lparr>sig_tmps := []\<rparr>"

section \<open>The writer\<close>

record fixedwriter =
  fw_file :: "stream option"
  fw_tempnode :: "string option"
  fw_tempname :: string
  fw_filename :: string
  is_detached :: bool

definition fixedwriter_construct :: fixedwriter where
  "fixedwriter_construct = \<lparr>fw_file = Some Stdout, fw_tempnode = None, fw_tempname = [], fw_filename = [], is_detached = False\<rparr>"

definition set_filename :: "fixedwriter \<Rightarrow> string \<Rightarrow> fixedwriter" where
  "set_filename self filename = self\<lparr>fw_filename := c_str filename, is_detached := False\<rparr>"

definition mktmp :: "os \<Rightarrow> fixedwriter \<times> disk \<Rightarrow> unit outcome \<times> fixedwriter \<times> disk" where
  "mktmp os st = (case st of (self, d) \<Rightarrow>
     let targetdir = (if fw_filename self \<noteq> [] then dirname (fw_filename self) else ''.'');
         template = targetdir @ CHR 0x2F # ''fixed_XXXXXX''
     in case os_mkstemp os d template of
          None \<Rightarrow> (Fail, self\<lparr>fw_tempname := template, fw_file := None\<rparr>, d)
        | Some tmp \<Rightarrow> (Good (), self\<lparr>fw_tempname := tmp, fw_file := Some (Path tmp), fw_tempnode := Some tmp\<rparr>,
            fqlsig_tmp_push tmp (d\<lparr>contents := (contents d)(tmp \<mapsto> [])\<rparr>)))"

definition isopen :: "fixedwriter \<Rightarrow> bool" where
  "isopen self \<longleftrightarrow> fw_file self \<noteq> None \<and> fw_file self \<noteq> Some Stdout"

definition fixedwriter_open :: "os \<Rightarrow> string \<Rightarrow> fixedwriter \<times> disk \<Rightarrow> unit outcome \<times> fixedwriter \<times> disk" where
  "fixedwriter_open os filename st = (case st of (self0, d) \<Rightarrow>
     let self = set_filename self0 filename in if isopen self then (Fail, self, d) else mktmp os (self, d))"

text \<open>Closing twice passes NULL to \<open>fclose\<close>.\<close>

definition fixedwriter_close :: "os \<Rightarrow> fixedwriter \<times> disk \<Rightarrow> unit outcome \<times> fixedwriter \<times> disk" where
  "fixedwriter_close os st = (case st of (self, d) \<Rightarrow>
     if fw_file self = Some Stdout then (Good (), self, d)
     else if fw_file self = None then (Crash, self, d)
     else
       let self1 = self\<lparr>fw_file := None\<rparr>; f = fw_filename self; tmp = fw_tempname self in
       if is_detached self then (Good (), self1\<lparr>is_detached := False\<rparr>, d)
       else if f = [] then (Fail, self1, d)
       else if \<not> os_rename os d tmp f \<or> contents d tmp = None then (Fail, self1, d)
       else let d1 = rename_file tmp f d in
         if \<not> os_chmod os d1 f then (Fail, self1, d1)
         else (Good (), self1\<lparr>fw_tempnode := None\<rparr>,
           case fw_tempnode self of None \<Rightarrow> d1 | Some n \<Rightarrow> fqlsig_tmp_remove_node n d1))"

definition fixedwriter_take_filename :: "fixedwriter \<Rightarrow> string option \<times> fixedwriter" where
  "fixedwriter_take_filename self =
     (if fw_filename self = [] then (None, self\<lparr>is_detached := True\<rparr>)
      else (Some (fw_filename self), self\<lparr>is_detached := True, fw_filename := []\<rparr>))"

definition get_filename :: "fixedwriter \<Rightarrow> string option \<times> fixedwriter" where
  "get_filename self =
     (let self1 = (if is_detached self then self\<lparr>fw_tempnode := None\<rparr> else self);
          f = (if is_detached self then fw_tempname self else fw_filename self)
      in (if f = [] then None else Some f, self1))"

definition fixedwriter_export_temp :: "os \<Rightarrow> fixedwriter \<times> disk \<Rightarrow> string option \<times> fixedwriter \<times> disk" where
  "fixedwriter_export_temp os st = (case st of (self, d) \<Rightarrow>
     case (if isopen self then (Good (), self, d) else mktmp os (self, d)) of
       (Good _, self1, d1) \<Rightarrow> (case get_filename self1 of (f, self2) \<Rightarrow> (f, self2, d1))
     | (_, self1, d1) \<Rightarrow> (None, self1, d1))"

section \<open>Writing a record\<close>

text \<open>What \<open>fwrite\<close> and \<open>fputc\<close> add to the file of the writer; NULL is undefined.\<close>

definition write_text :: "string \<Rightarrow> ('s \<times> fixedwriter \<times> disk, unit) act" where
  "write_text t st = (case fw_file (fst (snd st)) of
     None \<Rightarrow> (Crash, st)
   | Some f \<Rightarrow> (Good (), (fst st, fst (snd st), emit f t (snd (snd st)))))"

definition set_file :: "stream option \<Rightarrow> ('s \<times> fixedwriter \<times> disk, unit) act" where
  "set_file f st = (Good (), (fst st, (fst (snd st))\<lparr>fw_file := f\<rparr>, snd (snd st)))"

type_synonym ('f, 're, 'a) wact = "(('f, 're) store \<times> fixedwriter \<times> disk, 'a) act"

text \<open>The text of one column. A column of \<open>*\<close> is the whole record of its source.\<close>

definition column_text :: "('f, 're) ext \<Rightarrow> ('f, 're) sget \<Rightarrow> bool \<Rightarrow> row_record list \<Rightarrow> nat \<Rightarrow> (view \<Rightarrow> ('f, 're, 'a) wact) \<Rightarrow> ('f, 're, 'a) wact" where
  "column_text x G strict rg i k = derefA (on_fst (with_expr i (\<lambda>e. outA (Good e)))) (\<lambda>e.
     if expr e = EXPR_ASTERISK
     then (if e_src_idx e < 0 \<or> length rg \<le> nat (e_src_idx e) then outA Crash else k (rec_ref (rg ! nat (e_src_idx e))))
     else derefA (if strict \<and> e_type e \<noteq> FIELD_STRING then on_fst (expression_type_check x G i) else outA (Good ())) (\<lambda>_.
       read_or (Some \<lparr>sv_data = [], sv_len = 0\<rparr>) (on_fst (get_stringview G i)) (\<lambda>sv _. k sv)))"

text \<open>
  The length of the record, an \<open>int\<close> in C, is a number without bound, and the text reaches the
  file at once; \<open>fclose\<close> writes the buffer before the file is renamed.
\<close>

fun write_columns :: "('f, 're) ext \<Rightarrow> ('f, 're) sget \<Rightarrow> bool \<Rightarrow> row_record list \<Rightarrow> nat list \<Rightarrow> nat \<Rightarrow> ('f, 're, nat) wact" where
  "write_columns x G strict rg [] len = outA (Good len)"
| "write_columns x G strict rg (i # is) len = column_text x G strict rg i (\<lambda>sv.
     derefA (on_fst (with_expr i (\<lambda>e. outA (Good (e_width e))))) (\<lambda>w.
       let width = (if w \<noteq> 0 then w else sv_len sv) in
       if width < sv_len sv then outA Fail
       else if length (sv_data sv) < sv_len sv then outA Crash
       else derefA (write_text (sv_text sv @ replicate (width - sv_len sv) (CHR 0x20))) (\<lambda>_.
         write_columns x G strict rg is (len + width))))"

text \<open>
  \<open>outstream\<close> takes the place of the writer's own file for one record; it stays there when a
  column fails.
\<close>

definition fixedwriter_write_record :: "('f, 're) ext \<Rightarrow> ('f, 're) sget \<Rightarrow> bool \<Rightarrow> nat list \<Rightarrow> row_record list \<Rightarrow> stream option \<Rightarrow> ('f, 're, nat) wact" where
  "fixedwriter_write_record x G strict is rg outstream st =
     (let store_stream = (if outstream = None then None else fw_file (fst (snd st)))
      in derefA (if outstream = None then outA (Good ()) else set_file outstream) (\<lambda>_.
         derefA (write_columns x G strict rg is 0) (\<lambda>len.
           if store_stream = None then outA (Good len)
           else derefA (set_file store_stream) (\<lambda>_. outA (Good len)))) st)"

section \<open>The reader\<close>

text \<open>\<open>mmap\<close> is the mapped file, and \<open>expressions\<close> the columns.\<close>

record fixedread =
  fr_mmap :: "string option"
  fr_exprs :: "nat list"
  fr_offset :: nat
  file_size :: nat
  fr_open :: bool

record reader =
  r_fixed :: fixedread
  r_file_name :: string
  reclen :: nat
  rec_id :: nat
  skip_rows :: nat
  r_eof :: bool

definition fixedread_construct :: "nat list \<Rightarrow> fixedread" where
  "fixedread_construct is = \<lparr>fr_mmap = None, fr_exprs = is, fr_offset = 0, file_size = 0, fr_open = False\<rparr>"

text \<open>An empty file is not mapped: the fields keep what they held before.\<close>

definition fixedread_open :: "disk \<Rightarrow> string \<Rightarrow> reader \<Rightarrow> unit outcome \<times> reader" where
  "fixedread_open d f self = (case contents d f of
     None \<Rightarrow> (Fail, self\<lparr>r_fixed := (r_fixed self)\<lparr>fr_open := False\<rparr>\<rparr>)
   | Some c \<Rightarrow>
       if c = [] then (Good (), self\<lparr>r_fixed := (r_fixed self)\<lparr>fr_open := True\<rparr>\<rparr>)
       else (Good (), self\<lparr>r_fixed := (r_fixed self)\<lparr>fr_open := True, file_size := length c, fr_mmap := Some c, fr_offset := 0\<rparr>\<rparr>))"

text \<open>The fields of a record at \<open>offset\<close>; \<open>rec->offset\<close> is where the reader stands, not \<open>offset\<close>.\<close>

fun set_columns :: "'f expression list \<Rightarrow> (nat \<Rightarrow> string) \<Rightarrow> nat list \<Rightarrow> nat \<Rightarrow> row_record \<Rightarrow> row_record option" where
  "set_columns es begin_at [] i rec = Some rec"
| "set_columns es begin_at (c # cs) i rec = do {
     fs \<leftarrow> vec_set_at (rec_fields rec) i [Some \<lparr>sv_data = begin_at (e_location (es ! c)), sv_len = e_width (es ! c)\<rparr>];
     set_columns es begin_at cs (Suc i) (rec\<lparr>rec_fields := fs\<rparr>)
   }"

definition fixedread_get_record_at :: "'f expression list \<Rightarrow> nat \<Rightarrow> reader \<times> row_record \<Rightarrow> bool outcome \<times> reader \<times> row_record" where
  "fixedread_get_record_at es offset st = (case st of (self, rec) \<Rightarrow>
     case fr_mmap (r_fixed self) of
       None \<Rightarrow> (Crash, st)
     | Some m \<Rightarrow>
         (case set_columns es (\<lambda>loc. drop (offset + loc) m) (fr_exprs (r_fixed self)) 0 (record_resize rec (length (fr_exprs (r_fixed self)))) of
            None \<Rightarrow> (Crash, st)
          | Some rec1 \<Rightarrow>
              (Good True, self\<lparr>rec_id := rec_id self + 1\<rparr>,
               rec1\<lparr>rec_ref := \<lparr>sv_data = drop offset m, sv_len = reclen self\<rparr>, rec_idx := rec_id self,
                 row_offset := fr_offset (r_fixed self)\<rparr>)))"

definition fixedread_get_record :: "'f expression list \<Rightarrow> reader \<times> row_record \<Rightarrow> bool outcome \<times> reader \<times> row_record" where
  "fixedread_get_record es st = (case st of (self, rec) \<Rightarrow>
     if file_size (r_fixed self) < fr_offset (r_fixed self) + reclen self then (Good False, self\<lparr>r_eof := True\<rparr>, rec)
     else case fixedread_get_record_at es (fr_offset (r_fixed self)) st of
       (r, self1, rec1) \<Rightarrow> (r, self1\<lparr>r_fixed := (r_fixed self1)\<lparr>fr_offset := fr_offset (r_fixed self1) + reclen self1\<rparr>\<rparr>, rec1))"

definition fixedread_reset :: "reader \<Rightarrow> reader" where
  "fixedread_reset self = self\<lparr>r_eof := False, rec_id := 0, r_fixed := (r_fixed self)\<lparr>fr_offset := reclen self * skip_rows self\<rparr>\<rparr>"

text \<open>The old mapping is gone before the file is opened again; if that fails, or the file is now empty, nothing is mapped.\<close>

definition fixedread_reopen :: "disk \<Rightarrow> reader \<Rightarrow> unit outcome \<times> reader" where
  "fixedread_reopen d self = fixedread_open d (r_file_name self) (self\<lparr>r_fixed := (r_fixed self)\<lparr>fr_mmap := None\<rparr>\<rparr>)"

text \<open>
  Records from the standard input, of which \<open>input\<close> is what is left. Each is read into a buffer
  of its own and copied to the file \<open>backing\<close>, from which a join reads it again.
\<close>

definition fixedread_get_record_stdin :: "'f expression list \<Rightarrow> stream option \<Rightarrow> string \<times> reader \<times> row_record \<times> disk \<Rightarrow>
    bool outcome \<times> string \<times> reader \<times> row_record \<times> disk" where
  "fixedread_get_record_stdin es backing st = (case st of (input, self, rec0, d) \<Rightarrow>
     let n = length (fr_exprs (r_fixed self)); rec = record_resize rec0 n; cpy = take (reclen self) input in
     if length cpy < reclen self then (Good False, [], self\<lparr>r_eof := True\<rparr>, rec, d)
     else case set_columns es (\<lambda>loc. drop loc cpy) (fr_exprs (r_fixed self)) 0 rec of
         None \<Rightarrow> (Crash, st)
       | Some rec1 \<Rightarrow>
           (Good True, drop (reclen self) input,
            self\<lparr>rec_id := rec_id self + 1, r_fixed := (r_fixed self)\<lparr>fr_offset := fr_offset (r_fixed self) + reclen self\<rparr>\<rparr>,
            rec1\<lparr>rec_ref := \<lparr>sv_data = cpy, sv_len = reclen self\<rparr>, rec_idx := rec_id self, row_offset := fr_offset (r_fixed self)\<rparr>,
            (case backing of None \<Rightarrow> d | Some f \<Rightarrow> emit f cpy d)))"

end
