(* ===== verification/FixedSpec.thy ===== *)
theory FixedSpec
  imports Fixed
begin

text \<open>
  What the writer and the reader of fixed-width files promise each other: the layout that a
  schema file describes, the line a row is written as, and that the reader finds the columns
  again. Lemmas for the round trip.
\<close>

section \<open>Layout\<close>

text \<open>The columns \<open>cs\<close> follow each other from \<open>loc\<close> on and have the widths \<open>ws\<close>.\<close>

fun laid_out :: "'f expression list \<Rightarrow> nat \<Rightarrow> nat list \<Rightarrow> nat list \<Rightarrow> bool" where
  "laid_out es loc [] [] = True"
| "laid_out es loc (c # cs) (w # ws) =
     (c < length es \<and> e_location (es ! c) = loc \<and> e_width (es ! c) = w \<and> laid_out es (loc + w) cs ws)"
| "laid_out es loc _ _ = False"

lemma laid_out_length: "laid_out es loc cs ws \<Longrightarrow> length cs = length ws"
  by (induction es loc cs ws rule: laid_out.induct) auto

lemma laid_out_append:
  "length cs = length ws \<Longrightarrow> laid_out es loc (cs @ cs') (ws @ ws') \<longleftrightarrow> laid_out es loc cs ws \<and> laid_out es (loc + sum_list ws) cs' ws'"
  by (induction cs ws arbitrary: loc rule: list_induct2) (auto simp: add.assoc)

lemma laid_out_mono:
  "laid_out es loc cs ws \<Longrightarrow> (\<And>c. c < length es \<Longrightarrow> c < length es' \<and> es' ! c = es ! c) \<Longrightarrow> laid_out es' loc cs ws"
  by (induction es loc cs ws rule: laid_out.induct) auto

text \<open>A record of a schema file for a fixed-width column, and its parse as an assignment.\<close>

definition fixed_rec :: "string \<times> nat \<Rightarrow> string list \<times> string list" where
  "fixed_rec c = ([fst c, show_long (of_nat (snd c)), ''char''], [])"

lemma str2long_width:
  assumes "w < 4294967296"
  shows "str2long (c_str (show_long (of_nat w :: i64))) = Some (of_nat w)" "sint (of_nat w :: i64) = int w"
proof -
  have "c_str (show_long (of_nat w :: i64)) = show_long (of_nat w)"
    by (rule show_long_no_nul)
  then show "str2long (c_str (show_long (of_nat w :: i64))) = Some (of_nat w)" by (metis str2long_show)
  show "sint (of_nat w :: i64) = int w" using assms by (simp add: sint_uint uint_nat unat_of_nat signed_take_bit_int_eq_self)
qed

lemma schema_records_fixed:
  assumes "\<forall>c \<in> set cols. 0 < snd c" "so_offset s + sum_list (map snd cols) < 4294967296" "first = 0 \<or> first = 3"
    "laid_out (so_exprs s) 0 (s_exprs (so_schema s)) ws" "so_offset s = sum_list ws"
  shows "\<exists>s'. schema_records False (map fixed_rec cols) idx first s = (Good (), s') \<and>
    laid_out (so_exprs s') 0 (s_exprs (so_schema s')) (ws @ map snd cols) \<and> so_offset s' = sum_list (ws @ map snd cols)"
  using assms
proof (induction cols arbitrary: s first ws)
  case (Cons c cols)
  obtain n w where c: "c = (n, w)" by fastforce
  have w: "0 < w" "w < 4294967296" "so_offset s + w + sum_list (map snd cols) < 4294967296" using Cons.prems c by auto
  define e where "e = ((new_column n)\<lparr>e_type := FIELD_STRING, e_location := so_offset s, e_width := w, e_src_idx := idx,
    e_index := length (s_exprs (so_schema s))\<rparr> :: 'a expression)"
  define s1 where "s1 = s\<lparr>so_type := IO_FIXED, so_offset := so_offset s + w, so_exprs := so_exprs s @ [e],
    so_schema := (so_schema s)\<lparr>s_exprs := s_exprs (so_schema s) @ [length (so_exprs s)]\<rparr>\<rparr>"
  have a: "add_expression_from_rec (fst (fixed_rec c)) idx s = (Good 3, s1)"
    using w str2long_width [OF w(2)]
    by (simp add: add_expression_from_rec_def fixed_rec_def c u32_of_def schema_add_expression_def s1_def e_def Let_def)
  have l: "laid_out (so_exprs s1) 0 (s_exprs (so_schema s1)) (ws @ [w])"
    using laid_out_mono [OF Cons.prems(4), of "so_exprs s @ [e]"] laid_out_length [OF Cons.prems(4)] Cons.prems(5)
    by (simp add: s1_def laid_out_append e_def nth_append)
  have "so_offset s1 + sum_list (map snd cols) < 4294967296" "so_offset s1 = sum_list (ws @ [w])" "\<forall>c \<in> set cols. 0 < snd c"
    using w(3) Cons.prems(1,5) by (simp_all add: s1_def)
  from Cons.IH [OF this(3,1) _ l this(2), of 3] obtain s' where s': "schema_records False (map fixed_rec cols) idx 3 s1 = (Good (), s')"
      "laid_out (so_exprs s') 0 (s_exprs (so_schema s')) ((ws @ [w]) @ map snd cols)" "so_offset s' = sum_list ((ws @ [w]) @ map snd cols)" by auto
  have "schema_records False (map fixed_rec (c # cols)) idx first s = schema_records False (map fixed_rec cols) idx 3 s1"
    using a Cons.prems(3) by (cases "fixed_rec c") (auto simp: derefA_def fixed_rec_def)
  then show ?case using s' c by auto
qed simp

section \<open>Lines\<close>

definition padded :: "nat \<Rightarrow> string \<Rightarrow> string" where
  "padded w t = t @ replicate (w - length t) (CHR 0x20)"

definition line_of :: "nat list \<Rightarrow> string list \<Rightarrow> string" where
  "line_of ws ts = concat (map2 padded ws ts)"

lemma padded_length [simp]: "length t \<le> w \<Longrightarrow> length (padded w t) = w"
  by (simp add: padded_def)

lemma line_length: "list_all2 (\<lambda>w t. length t \<le> w) ws ts \<Longrightarrow> length (line_of ws ts) = sum_list ws"
  unfolding line_of_def by (induction ws ts rule: list_all2_induct) auto

text \<open>The expression \<open>i\<close> gives the text \<open>t\<close> for a column of width \<open>w\<close>.\<close>

definition column_reads :: "(('f, 're) store \<Rightarrow> bool) \<Rightarrow> ('f, 're) sget \<Rightarrow> nat \<Rightarrow> nat \<Rightarrow> string \<Rightarrow> bool" where
  "column_reads I G i w t \<longleftrightarrow> (\<forall>s. I s \<longrightarrow> i < length (exprs s) \<and> expr (exprs s ! i) \<noteq> EXPR_ASTERISK \<and> e_width (exprs s ! i) = w) \<and>
     (\<exists>v. reads I (get_stringview G i) (Some \<lparr>sv_data = [], sv_len = 0\<rparr>) v \<and> view_ok v \<and> sv_text v = t)"

lemma write_column:
  assumes c: "column_reads I G i w t" and t: "0 < w" "length t \<le> w" and I: "I st" and f: "fw_file wr = Some (Path p)"
  shows "\<exists>st'. I st' \<and> write_columns x G False rg (i # is) len (st, wr, d) =
    write_columns x G False rg is (len + w) (st', wr, emit (Path p) (padded w t) d)"
proof -
  obtain v where v: "reads I (get_stringview G i) (Some \<lparr>sv_data = [], sv_len = 0\<rparr>) v" "view_ok v" "sv_text v = t"
    using c unfolding column_reads_def by blast
  then obtain st' where I': "I st'" and r: "get_stringview G i st = (Good v, st') \<or> get_stringview G i st = (Null (Some v), st') \<or>
      get_stringview G i st = (Null None, st') \<and> v = \<lparr>sv_data = [], sv_len = 0\<rparr>"
    using I unfolding reads_def by auto
  have e: "i < length (exprs s) \<and> expr (exprs s ! i) \<noteq> EXPR_ASTERISK \<and> e_width (exprs s ! i) = w" if "I s" for s
    using c that unfolding column_reads_def by blast
  have len: "sv_len v = length t" "sv_len v \<le> length (sv_data v)" using v sv_text_length by (auto simp: view_ok_def)
  have "write_columns x G False rg (i # is) len (st, wr, d) =
    write_columns x G False rg is (len + w) (st', wr, emit (Path p) (padded w t) d)"
    using e [OF I] e [OF I'] r t f v(3) len
    by (auto simp: column_text_def derefA_def on_fst_def with_expr_def outA_def read_or_def Let_def write_text_def padded_def)
  then show ?thesis using I' by blast
qed

lemma emit_emit [simp]: "emit f u (emit f t d) = emit f (t @ u) d"
  by (auto simp: emit_def split: stream.splits option.splits)

lemma emit_Nil [simp]: "emit f [] d = d"
  by (auto simp: emit_def fun_upd_idem split: stream.splits option.splits)

lemma write_columns_spec:
  assumes "list_all2 (\<lambda>(i, w) t. column_reads I G i w t \<and> 0 < w \<and> length t \<le> w) (zip is ws) ts" "length is = length ws"
    "I st" "fw_file wr = Some (Path p)"
  shows "\<exists>st'. I st' \<and> write_columns x G False rg is len (st, wr, d) = (Good (len + sum_list ws), st', wr, emit (Path p) (line_of ws ts) d)"
  using assms(2,1,3,4)
proof (induction "is" ws arbitrary: ts st d len rule: list_induct2)
  case Nil
  then show ?case by (auto simp: outA_def line_of_def)
next
  case (Cons i "is" w ws)
  obtain t ts' where ts: "ts = t # ts'" using Cons.prems(1) by (auto simp: list_all2_Cons1)
  obtain st1 where s1: "I st1" "write_columns x G False rg (i # is) len (st, wr, d) =
      write_columns x G False rg is (len + w) (st1, wr, emit (Path p) (padded w t) d)"
    using write_column [where I = I and st = st and wr = wr and p = p and d = d and G = G and i = i and w = w and t = t and x = x and rg = rg and len = len]
      Cons.prems(1-3) ts by auto
  obtain st' where "I st'" "write_columns x G False rg is (len + w) (st1, wr, emit (Path p) (padded w t) d) =
      (Good (len + w + sum_list ws), st', wr, emit (Path p) (line_of ws ts') (emit (Path p) (padded w t) d))"
    using Cons.IH [OF _ s1(1) Cons.prems(3)] Cons.prems(1) ts by fastforce
  then show ?case unfolding s1(2) by (auto simp: ts line_of_def add.assoc)
qed

text \<open>Writing row after row.\<close>

fun write_rows :: "('f, 're) ext \<Rightarrow> (row_record list \<Rightarrow> ('f, 're) sget) \<Rightarrow> nat list \<Rightarrow> row_record list list \<Rightarrow> ('f, 're, unit) wact" where
  "write_rows x G is [] = outA (Good ())"
| "write_rows x G is (rg # rgs) = derefA (fixedwriter_write_record x (G rg) False is rg None) (\<lambda>_. write_rows x G is rgs)"

lemma write_rows_spec:
  assumes "\<And>rg. rg \<in> set rgs \<Longrightarrow> list_all2 (\<lambda>(i, w) t. column_reads I (G rg) i w t \<and> 0 < w \<and> length t \<le> w) (zip is ws) (texts rg)"
    and "length is = length ws" "I st" "fw_file wr = Some (Path p)"
  shows "\<exists>st'. I st' \<and> write_rows x G is rgs (st, wr, d) = (Good (), st', wr, emit (Path p) (concat (map (\<lambda>rg. line_of ws (texts rg)) rgs)) d)"
  using assms
proof (induction rgs arbitrary: st d)
  case Nil
  then show ?case by (auto simp: outA_def)
next
  case (Cons rg rgs)
  define d1 where "d1 = emit (Path p) (line_of ws (texts rg)) d"
  obtain st1 where s1: "I st1" "write_columns x (G rg) False rg is 0 (st, wr, d) = (Good (0 + sum_list ws), st1, wr, d1)"
    using write_columns_spec [of I "G rg" "is" ws "texts rg" st wr p x rg 0 d] Cons.prems unfolding d1_def by auto
  have step: "write_rows x G is (rg # rgs) (st, wr, d) = write_rows x G is rgs (st1, wr, d1)"
    using s1(2) by (simp add: derefA_def fixedwriter_write_record_def outA_def)
  from Cons.IH [OF Cons.prems(1,2) s1(1) Cons.prems(4)] obtain st' where st': "I st'"
      "write_rows x G is rgs (st1, wr, d1) = (Good (), st', wr, emit (Path p) (concat (map (\<lambda>rg. line_of ws (texts rg)) rgs)) d1)"
    by auto
  show ?case using st'(1) unfolding step st'(2) by (auto simp: d1_def)
qed

section \<open>Reading a line\<close>

lemma set_columns_spec:
  assumes "list_all2 (\<lambda>w t. length t \<le> w) ws ts" "laid_out es loc cs ws" "vec_ok (rec_fields rec)" "n + length cs \<le> vsize (rec_fields rec)"
    "\<And>k. k \<le> sum_list ws \<Longrightarrow> at (loc + k) = drop k (line_of ws ts) @ rest"
  shows "\<exists>fs vs. set_columns es at cs n rec = Some (rec\<lparr>rec_fields := fs\<rparr>) \<and> vec_ok fs \<and> list_all view_ok vs \<and> map sv_text vs = map2 padded ws ts \<and>
    vec_list fs = take n (vec_list (rec_fields rec)) @ map Some vs @ drop (n + length cs) (vec_list (rec_fields rec))"
  using assms
proof (induction ws ts arbitrary: loc cs n rec rule: list_all2_induct)
  case Nil
  then show ?case by (cases cs) (auto intro!: exI [of _ "rec_fields rec"])
next
  case (Cons w ws t ts)
  obtain c cs' where cs: "cs = c # cs'" "c < length es" "e_location (es ! c) = loc" "e_width (es ! c) = w" "laid_out es (loc + w) cs' ws"
    using Cons.prems(1) by (cases cs) auto
  define v where "v = \<lparr>sv_data = at loc, sv_len = w\<rparr>"
  have at: "at loc = padded w t @ line_of ws ts @ rest" using Cons.prems(4) [of 0] by (simp add: line_of_def)
  have v: "view_ok v" "sv_text v = padded w t" using Cons.hyps(1) by (simp_all add: v_def at view_ok_def sv_text_def)
  obtain fs where fs: "vec_set_at (rec_fields rec) n [Some v] = Some fs" "vec_ok fs"
      "vec_list fs = take n (vec_list (rec_fields rec)) @ [Some v] @ drop (n + 1) (vec_list (rec_fields rec))"
    using vec_set_at_list [OF Cons.prems(2), of n "[Some v]"] Cons.prems(3) cs(1) by (auto simp: yields_exists)
  have sz: "vsize fs = vsize (rec_fields rec)"
    using arg_cong [OF fs(3), of length] vec_list_length [OF fs(2)] vec_list_length [OF Cons.prems(2)] Cons.prems(3) cs(1) by simp
  have "at (loc + w + k) = drop k (line_of ws ts) @ rest" if "k \<le> sum_list ws" for k
    using Cons.prems(4) [of "w + k"] that Cons.hyps(1) by (simp add: line_of_def add.assoc)
  from Cons.IH [OF cs(5), of "rec\<lparr>rec_fields := fs\<rparr>" "Suc n", OF _ _ this] obtain fs' vs where
    IH: "set_columns es at cs' (Suc n) (rec\<lparr>rec_fields := fs\<rparr>) = Some (rec\<lparr>rec_fields := fs'\<rparr>)" "vec_ok fs'" "list_all view_ok vs"
      "map sv_text vs = map2 padded ws ts" "vec_list fs' = take (Suc n) (vec_list fs) @ map Some vs @ drop (Suc n + length cs') (vec_list fs)"
    using fs(2) Cons.prems(3) cs(1) sz by auto
  have l: "length (vec_list (rec_fields rec)) = vsize (rec_fields rec)" using vec_list_length [OF Cons.prems(2)] .
  have "vec_list fs' = take n (vec_list (rec_fields rec)) @ map Some (v # vs) @ drop (n + length cs) (vec_list (rec_fields rec))"
    using IH(5) Cons.prems(3) l by (simp add: fs(3) cs(1) min_def add.commute)
  moreover have "set_columns es at cs n rec = Some (rec\<lparr>rec_fields := fs'\<rparr>)" using fs(1) IH(1) by (simp add: cs v_def)
  ultimately show ?case using IH(2-4) v by (intro exI [of _ fs'] exI [of _ "v # vs"]) simp
qed

text \<open>The texts of a record's fields.\<close>

definition field_texts :: "row_record \<Rightarrow> string option list" where
  "field_texts rec = map (map_option sv_text) (vec_list (rec_fields rec))"

lemma fixedread_get_record_spec:
  assumes "list_all2 (\<lambda>w t. length t \<le> w) ws ts" "laid_out es 0 (fr_exprs (r_fixed self)) ws" "vec_ok (rec_fields rec)"
    "fr_mmap (r_fixed self) = Some m" "file_size (r_fixed self) = length m" "reclen self = sum_list ws"
    "m = take (fr_offset (r_fixed self)) m @ line_of ws ts @ rest" "fr_offset (r_fixed self) \<le> length m"
  shows "\<exists>rec'. fixedread_get_record es (self, rec) = (Good True, self\<lparr>rec_id := rec_id self + 1,
      r_fixed := (r_fixed self)\<lparr>fr_offset := fr_offset (r_fixed self) + sum_list ws\<rparr>\<rparr>, rec') \<and> field_texts rec' = map Some (map2 padded ws ts) \<and>
      rec_idx rec' = rec_id self \<and> row_offset rec' = fr_offset (r_fixed self) \<and> sv_text (rec_ref rec') = line_of ws ts"
proof -
  let ?o = "fr_offset (r_fixed self)" and ?cs = "fr_exprs (r_fixed self)" and ?r = "record_resize rec (length (fr_exprs (r_fixed self)))"
  have d: "drop ?o m = line_of ws ts @ rest" using arg_cong [OF assms(7), of "drop ?o"] assms(8) by simp
  have len: "length (line_of ws ts) = sum_list ws" using assms(1) by (rule line_length)
  have fit: "?o + sum_list ws \<le> length m" using arg_cong [OF d, of length] len assms(8) by simp
  have at: "drop (?o + (0 + k)) m = drop k (line_of ws ts) @ rest" if "k \<le> sum_list ws" for k
    using arg_cong [OF d, of "drop k"] that len by (simp add: add.commute)
  have r: "vec_ok (rec_fields ?r)" "vsize (rec_fields ?r) = length ?cs"
    using vec_resize_list [OF assms(3), of "length ?cs"] vec_list_length [of "vec_resize (rec_fields rec) (length ?cs)"] by (simp_all add: record_resize_def)
  obtain fs vs where f: "set_columns es (\<lambda>loc. drop (?o + loc) m) ?cs 0 ?r = Some (?r\<lparr>rec_fields := fs\<rparr>)"
      "map sv_text vs = map2 padded ws ts" "vec_list fs = map Some vs"
    using set_columns_spec [OF assms(1,2) r(1) _ at, of 0] r(2) vec_list_length [OF r(1)] by auto
  have "map (map_option sv_text) (map Some vs) = map Some (map sv_text vs)" by simp
  then have "field_texts (?r\<lparr>rec_fields := fs\<rparr>) = map Some (map2 padded ws ts)" using f(2,3) by (simp add: field_texts_def o_def)
  then show ?thesis
    using f(1) fit assms(4-6) len d by (simp add: fixedread_get_record_def fixedread_get_record_at_def field_texts_def sv_text_def)
qed

text \<open>Reading to the end, each record into a row of its own.\<close>

fun read_rows :: "'f expression list \<Rightarrow> row_record list \<Rightarrow> reader \<Rightarrow> (row_record list \<times> reader) outcome" where
  "read_rows es [] self = (case fixedread_get_record es (self, record_construct 0) of
     (Good False, self', _) \<Rightarrow> Good ([], self') | _ \<Rightarrow> Fail)"
| "read_rows es (rec # recs) self = (case fixedread_get_record es (self, rec) of
     (Good True, self', rec') \<Rightarrow> (case read_rows es recs self' of Good (rs, self2) \<Rightarrow> Good (rec' # rs, self2) | _ \<Rightarrow> Fail) | _ \<Rightarrow> Fail)"

lemma read_rows_spec:
  assumes "\<forall>ts \<in> set tss. list_all2 (\<lambda>w t. length t \<le> w) ws ts" "length recs = length tss" "\<forall>rec \<in> set recs. vec_ok (rec_fields rec)"
    "laid_out es 0 (fr_exprs (r_fixed self)) ws" "reclen self = sum_list ws" "0 < sum_list ws"
    "tss \<noteq> [] \<longrightarrow> fr_mmap (r_fixed self) = Some m" "file_size (r_fixed self) = length m"
    "m = take (fr_offset (r_fixed self)) m @ concat (map (line_of ws) tss)" "fr_offset (r_fixed self) \<le> length m"
  shows "\<exists>rs self'. read_rows es recs self = Good (rs, self') \<and> map field_texts rs = map (\<lambda>ts. map Some (map2 padded ws ts)) tss \<and>
    map rec_idx rs = [rec_id self ..< rec_id self + length tss]"
  using assms
proof (induction tss arbitrary: recs self)
  case Nil
  have "fr_offset (r_fixed self) = length m" using arg_cong [OF Nil.prems(9), of length] Nil.prems(10) by simp
  then show ?case using Nil.prems(2,5,6,8) by (simp add: fixedread_get_record_def)
next
  case (Cons ts tss)
  obtain rec recs' where recs: "recs = rec # recs'" using Cons.prems(2) by (cases recs) auto
  let ?o = "fr_offset (r_fixed self)"
  define self1 where "self1 = self\<lparr>rec_id := rec_id self + 1, r_fixed := (r_fixed self)\<lparr>fr_offset := ?o + sum_list ws\<rparr>\<rparr>"
  have d: "drop ?o m = line_of ws ts @ concat (map (line_of ws) tss)" using arg_cong [OF Cons.prems(9), of "drop ?o"] Cons.prems(10) by simp
  have len: "length (line_of ws ts) = sum_list ws" using Cons.prems(1) line_length by simp
  have fit: "?o + sum_list ws \<le> length m" using arg_cong [OF d, of length] len Cons.prems(10) by simp
  obtain rec' where r: "fixedread_get_record es (self, rec) = (Good True, self1, rec')" "field_texts rec' = map Some (map2 padded ws ts)"
      "rec_idx rec' = rec_id self"
    using fixedread_get_record_spec [of ws ts es self rec m "concat (map (line_of ws) tss)"] Cons.prems recs unfolding self1_def by auto
  have "drop (?o + sum_list ws) m = concat (map (line_of ws) tss)" using arg_cong [OF d, of "drop (sum_list ws)"] len by (simp add: add.commute)
  then have "m = take (fr_offset (r_fixed self1)) m @ concat (map (line_of ws) tss)" by (simp add: self1_def) (metis append_take_drop_id)
  from Cons.IH [OF _ _ _ _ _ Cons.prems(6) _ _ this, of recs'] obtain rs self' where "read_rows es recs' self1 = Good (rs, self')"
      "map field_texts rs = map (\<lambda>ts. map Some (map2 padded ws ts)) tss" "map rec_idx rs = [rec_id self1 ..< rec_id self1 + length tss]"
    using Cons.prems fit recs by (auto simp: self1_def)
  then show ?case using r recs by (auto simp: self1_def upt_rec [of "rec_id self"])
qed

lemma fixedread_open_spec:
  assumes "contents d f = Some m" "r_fixed self = fixedread_construct is"
  shows "\<exists>rd. fixedread_open d f self = (Good (), rd) \<and> rec_id rd = rec_id self \<and> reclen rd = reclen self \<and> fr_exprs (r_fixed rd) = is \<and>
    fr_offset (r_fixed rd) = 0 \<and> file_size (r_fixed rd) = length m \<and> (m \<noteq> [] \<longrightarrow> fr_mmap (r_fixed rd) = Some m)"
  using assms by (cases "m = []") (simp_all add: fixedread_open_def fixedread_construct_def)

end
