(* ===== verification/SampleIo.thy ===== *)
theory SampleIo
  imports FixedSpec Sample
begin

text \<open>A small file system and a store with one column of a given width, for the witnesses.\<close>

definition sample_disk :: disk where
  "sample_disk = \<lparr>std_out = [], contents = [''out'' \<mapsto> ''old''], sig_tmps = []\<rparr>"

definition sample_os :: os where
  "sample_os = \<lparr>os_mkstemp = (\<lambda>d t. if contents d (t @ ''1'') = None \<and> t @ ''1'' \<noteq> ''out'' then Some (t @ ''1'') else None),
     os_rename = (\<lambda>d t f. True), os_chmod = (\<lambda>d f. True)\<rparr>"

definition blank_source :: "int source" where
  "blank_source = \<lparr>so_exprs = [], so_schema = schema_construct, so_type = IO_UNDEFINED, so_offset = 0\<rparr>"

definition wide_store :: "nat \<Rightarrow> (int, unit) store" where
  "wide_store w = sample_store\<lparr>exprs := (exprs sample_store)[0 := (exprs sample_store ! 0)\<lparr>e_width := w\<rparr>]\<rparr>"

lemma wide_column:
  "column_reads (\<lambda>s. s = wide_store w) (expr_getters sample_ext [sample_row t] 1) 0 w t"
proof -
  have "get_stringview (expr_getters sample_ext [sample_row t] (Suc 0)) 0 (wide_store w) = (Good (view_of t), wide_store w)"
    using column_stringview [of 0 "wide_store w" 1 0 0 "[sample_row t]" sample_ext 0]
    by (simp add: wide_store_def sample_store_def sample_exprs_def blank_expression_def sample_row_def vec_ok_def vec_list_def)
  then have "reads (\<lambda>s. s = wide_store w) (get_stringview (expr_getters sample_ext [sample_row t] 1) 0) (Some \<lparr>sv_data = [], sv_len = 0\<rparr>) (view_of t)"
    by (intro reads_evaluates) (simp add: evaluates_def)
  then show ?thesis
    unfolding column_reads_def
    by (auto simp: wide_store_def sample_store_def sample_exprs_def blank_expression_def intro!: exI [of _ "view_of t"])
qed

end
