(* ===== verification/Csv.thy ===== *)
theory Csv
  imports Fixed
begin

text \<open>
  The CSV side of lib/libcsvread.c, lib/libcsvwrite.c and lib/writer.c. The library libcsv is a
  git submodule: its writer and reader are parameters, a type of handles with the calls the code
  makes on them.
\<close>

section \<open>Writing\<close>

record 'c csv_writer_ops =
  cw_file :: "'c \<Rightarrow> stream option"
  cw_set_file :: "stream option \<Rightarrow> 'c \<Rightarrow> 'c"
  cw_delim :: "'c \<Rightarrow> string"
  cw_set_delim :: "string \<Rightarrow> 'c \<Rightarrow> 'c"
  cw_term :: "'c \<Rightarrow> string"
  cw_set_term :: "string \<Rightarrow> 'c \<Rightarrow> 'c"
  cw_quotes :: "'c \<Rightarrow> nat"
  cw_set_quotes :: "nat \<Rightarrow> 'c \<Rightarrow> 'c"
  cw_field :: "'c \<Rightarrow> string \<Rightarrow> string"
  cw_open :: "string \<Rightarrow> 'c \<times> disk \<Rightarrow> bool \<times> 'c \<times> disk"
  cw_close :: "'c \<times> disk \<Rightarrow> bool \<times> 'c \<times> disk"
  cw_detach :: "'c \<Rightarrow> string option \<times> 'c"
  cw_isopen :: "'c \<Rightarrow> bool"
  cw_mktmp :: "'c \<times> disk \<Rightarrow> bool \<times> 'c \<times> disk"
  cw_export :: "'c \<Rightarrow> string option \<times> 'c"

type_synonym ('f, 're, 'c, 'a) cact = "(('f, 're) store \<times> 'c \<times> disk, 'a) act"

definition on_csv :: "('c \<Rightarrow> 'c) \<Rightarrow> ('f, 're, 'c, unit) cact" where
  "on_csv f st = (Good (), (fst st, f (fst (snd st)), snd (snd st)))"

definition put_text :: "stream option \<Rightarrow> string \<Rightarrow> ('f, 're, 'c, unit) cact" where
  "put_text f t st = (case f of None \<Rightarrow> (Crash, st) | Some g \<Rightarrow> (Good (), (fst st, fst (snd st), emit g t (snd (snd st)))))"

text \<open>\<open>csv_write_field\<close> writes to the file of the handle.\<close>

definition write_field :: "'c csv_writer_ops \<Rightarrow> view \<Rightarrow> ('f, 're, 'c, nat) cact" where
  "write_field W sv st = (if length (sv_data sv) < sv_len sv then (Crash, st)
     else let t = cw_field W (fst (snd st)) (sv_text sv) in derefA (put_text (cw_file W (fst (snd st))) t) (\<lambda>_. outA (Good (length t))) st)"

definition csv_column :: "'c csv_writer_ops \<Rightarrow> ('f, 're) ext \<Rightarrow> ('f, 're) sget \<Rightarrow> bool \<Rightarrow> row_record list \<Rightarrow> nat \<Rightarrow> ('f, 're, 'c, nat) cact" where
  "csv_column W x G strict rg i = derefA (on_fst (with_expr i (\<lambda>e. outA (Good e)))) (\<lambda>e.
     if expr e = EXPR_ASTERISK
     then (if e_src_idx e < 0 \<or> length rg \<le> nat (e_src_idx e) then outA Crash
           else (\<lambda>st. derefA (on_csv (cw_set_quotes W 0)) (\<lambda>_. derefA (write_field W (rec_ref (rg ! nat (e_src_idx e)))) (\<lambda>n.
             derefA (on_csv (cw_set_quotes W (cw_quotes W (fst (snd st))))) (\<lambda>_. outA (Good n)))) st))
     else derefA (if strict \<and> e_type e \<noteq> FIELD_STRING then on_fst (expression_type_check x G i) else outA (Good ())) (\<lambda>_.
       read_or (Some \<lparr>sv_data = [], sv_len = 0\<rparr>) (on_fst (get_stringview G i)) (\<lambda>sv null.
         if null then outA (Good 0) else write_field W sv)))"

fun csv_columns :: "'c csv_writer_ops \<Rightarrow> ('f, 're) ext \<Rightarrow> ('f, 're) sget \<Rightarrow> bool \<Rightarrow> row_record list \<Rightarrow>
    stream option \<Rightarrow> string \<Rightarrow> nat list \<Rightarrow> bool \<Rightarrow> nat \<Rightarrow> ('f, 're, 'c, nat) cact" where
  "csv_columns W x G strict rg out delim [] later len = outA (Good len)"
| "csv_columns W x G strict rg out delim (i # is) later len =
     derefA (if later then put_text out delim else outA (Good ())) (\<lambda>_.
     derefA (csv_column W x G strict rg i) (\<lambda>n.
       csv_columns W x G strict rg out delim is True ((if later then len + length delim else len) + n)))"

definition libcsv_write_record :: "'c csv_writer_ops \<Rightarrow> ('f, 're) ext \<Rightarrow> ('f, 're) sget \<Rightarrow> bool \<Rightarrow> nat list \<Rightarrow> row_record list \<Rightarrow>
    stream option \<Rightarrow> ('f, 're, 'c, nat) cact" where
  "libcsv_write_record W x G strict is rg outstream st =
     (let own = cw_file W (fst (snd st)); store_stream = (if outstream = None then None else own);
          out = (if outstream = None then own else outstream)
      in derefA (if outstream = None then outA (Good ()) else on_csv (cw_set_file W outstream)) (\<lambda>_ st1.
         derefA (csv_columns W x G strict rg out (cw_delim W (fst (snd st1))) is False 0) (\<lambda>len.
         derefA (put_text out (cw_term W (fst (snd st1)))) (\<lambda>_.
         derefA (if store_stream = None then outA (Good ()) else on_csv (cw_set_file W store_stream)) (\<lambda>_.
           outA (Good (len + length (cw_term W (fst (snd st1)))))))) st1) st)"

section \<open>A writer of either format\<close>

record 'c writer =
  wr_type :: io
  wr_csv :: 'c
  wr_fixed :: fixedwriter
  wr_file_name :: string
  wr_strict :: bool

definition to_bool :: "bool \<Rightarrow> unit outcome" where
  "to_bool ok = (if ok then Good () else Fail)"

definition writer_open :: "'c csv_writer_ops \<Rightarrow> os \<Rightarrow> string \<Rightarrow> 'c writer \<times> disk \<Rightarrow> unit outcome \<times> 'c writer \<times> disk" where
  "writer_open W os f st = (case st of (self0, d) \<Rightarrow>
     let self = self0\<lparr>wr_file_name := c_str f\<rparr> in
     case wr_type self of
       IO_LIBCSV \<Rightarrow> (case cw_open W f (wr_csv self, d) of (ok, c, d1) \<Rightarrow> (to_bool ok, self\<lparr>wr_csv := c\<rparr>, d1))
     | IO_FIXED \<Rightarrow> (case fixedwriter_open os f (wr_fixed self, d) of (r, w, d1) \<Rightarrow> (r, self\<lparr>wr_fixed := w\<rparr>, d1))
     | _ \<Rightarrow> (Good (), self, d))"

text \<open>A file whose name begins with \<open>#\<close> is temporary, and left to the signal handler's list.\<close>

definition writer_close :: "'c csv_writer_ops \<Rightarrow> os \<Rightarrow> 'c writer option \<times> disk \<Rightarrow> unit outcome \<times> 'c writer option \<times> disk" where
  "writer_close W os st = (case st of (None, d) \<Rightarrow> (Good (), None, d) | (Some self, d) \<Rightarrow>
     (case (case wr_type self of
         IO_LIBCSV \<Rightarrow> (case cw_close W (wr_csv self, d) of (ok, c, d1) \<Rightarrow> (to_bool ok, self\<lparr>wr_csv := c\<rparr>, d1))
       | IO_FIXED \<Rightarrow> (case fixedwriter_close os (wr_fixed self, d) of (r, w, d1) \<Rightarrow> (r, self\<lparr>wr_fixed := w\<rparr>, d1))
       | _ \<Rightarrow> (Fail, self, d)) of
       (Good _, self1, d1) \<Rightarrow>
         (Good (), Some (self1\<lparr>wr_file_name := []\<rparr>),
          if wr_file_name self1 \<noteq> [] \<and> hd (wr_file_name self1) = CHR 0x23 then fqlsig_tmp_push (wr_file_name self1) d1 else d1)
     | (r, self1, d1) \<Rightarrow> (r, Some self1, d1)))"

definition writer_get_file :: "'c csv_writer_ops \<Rightarrow> 'c writer \<Rightarrow> stream option" where
  "writer_get_file W self = (case wr_type self of
     IO_LIBCSV \<Rightarrow> cw_file W (wr_csv self) | IO_FIXED \<Rightarrow> fw_file (wr_fixed self) | _ \<Rightarrow> None)"

definition writer_take_filename :: "'c csv_writer_ops \<Rightarrow> 'c writer \<Rightarrow> string option \<times> 'c writer" where
  "writer_take_filename W self = (case wr_type self of
     IO_LIBCSV \<Rightarrow> (case cw_detach W (wr_csv self) of (f, c) \<Rightarrow> (f, self\<lparr>wr_csv := c\<rparr>))
   | IO_FIXED \<Rightarrow> (case fixedwriter_take_filename (wr_fixed self) of (f, w) \<Rightarrow> (f, self\<lparr>wr_fixed := w\<rparr>))
   | _ \<Rightarrow> (None, self))"

definition writer_export_temp :: "'c csv_writer_ops \<Rightarrow> os \<Rightarrow> 'c writer \<times> disk \<Rightarrow> string option \<times> 'c writer \<times> disk" where
  "writer_export_temp W os st = (case st of (self, d) \<Rightarrow> case wr_type self of
     IO_LIBCSV \<Rightarrow>
       (case (if cw_isopen W (wr_csv self) then (True, wr_csv self, d) else cw_mktmp W (wr_csv self, d)) of
          (False, c, d1) \<Rightarrow> (None, self\<lparr>wr_csv := c\<rparr>, d1)
        | (True, c, d1) \<Rightarrow> (case cw_export W c of (f, c1) \<Rightarrow> (f, self\<lparr>wr_csv := c1\<rparr>, d1)))
   | IO_FIXED \<Rightarrow> (case fixedwriter_export_temp os (wr_fixed self, d) of (f, w, d1) \<Rightarrow> (f, self\<lparr>wr_fixed := w\<rparr>, d1))
   | _ \<Rightarrow> (None, self, d))"

definition writer_set_delimiter :: "'c csv_writer_ops \<Rightarrow> string \<Rightarrow> 'c writer \<Rightarrow> 'c writer" where
  "writer_set_delimiter W delim self =
     (if wr_type self = IO_LIBCSV then self\<lparr>wr_csv := cw_set_delim W delim (wr_csv self)\<rparr> else self)"

definition writer_set_rec_terminator :: "'c csv_writer_ops \<Rightarrow> string \<Rightarrow> 'c writer \<Rightarrow> 'c writer" where
  "writer_set_rec_terminator W term self =
     (if wr_type self = IO_LIBCSV then self\<lparr>wr_csv := cw_set_term W term (wr_csv self)\<rparr> else self)"

section \<open>Reading\<close>

text \<open>
  What \<open>csv_get_record_to\<close> gives: a record of fields with the text of the whole line, the end
  of the file, or a failure (\<open>Inl\<close>). It is told how many fields the query needs.
\<close>

datatype csv_result = Csv_good "view list" view | Csv_eof | Csv_fail

record 'c csv_reader_ops =
  cr_get :: "nat \<Rightarrow> 'c \<Rightarrow> csv_result \<times> 'c"
  cr_skip :: "'c \<Rightarrow> csv_result \<times> 'c"
  cr_offset :: "'c \<Rightarrow> nat"
  cr_seek :: "nat \<Rightarrow> 'c \<Rightarrow> bool \<times> 'c"
  cr_reset :: "'c \<Rightarrow> 'c"

text \<open>\<open>backing\<close> is \<open>random_access_file\<close>, the position at its end, and the file itself.\<close>

record 'c csvread =
  cv_csv :: 'c
  cv_eof :: bool
  cv_rec_id :: nat
  cv_skip :: nat
  cv_max_idx :: nat
  first_rec :: "row_record option"
  backing :: "(nat \<times> stream) option"

text \<open>The record keeps what it held when there is none to read.\<close>

definition fill_record :: "view list \<Rightarrow> view \<Rightarrow> row_record \<Rightarrow> row_record option" where
  "fill_record cells line rec = (let rec1 = record_resize rec (length cells) in do {
     fs \<leftarrow> vec_set_at (rec_fields rec1) 0 (map Some cells);
     Some (rec1\<lparr>rec_fields := fs, rec_ref := line\<rparr>)
   })"

text \<open>
  \<open>first_rec\<close>, read ahead to find the columns, replaces the whole record of the node, its place
  in the root fifos included.
\<close>

definition libcsv_get_record :: "'c csv_reader_ops \<Rightarrow> 'c csvread \<times> row_record \<times> disk \<Rightarrow> bool outcome \<times> 'c csvread \<times> row_record \<times> disk" where
  "libcsv_get_record R st = (case st of (self, rec0, d) \<Rightarrow>
     if cv_eof self then (Good False, st)
     else
       let rec1 = (if backing self = None then rec0\<lparr>row_offset := cr_offset R (cv_csv self)\<rparr> else rec0);
           (got, self1) = (case first_rec self of
             Some r \<Rightarrow> (Good (Some r), self\<lparr>first_rec := None\<rparr>)
           | None \<Rightarrow> (case cr_get R (cv_max_idx self + 1) (cv_csv self) of (res, c) \<Rightarrow>
               (case res of
                  Csv_good fs line \<Rightarrow> (case fill_record fs line rec1 of None \<Rightarrow> Crash | Some r \<Rightarrow> Good (Some r))
                | Csv_eof \<Rightarrow> Good None
                | Csv_fail \<Rightarrow> Fail, self\<lparr>cv_csv := c\<rparr>)))
       in case got of
         Good (Some r) \<Rightarrow>
           (let r1 = r\<lparr>rec_idx := cv_rec_id self1\<rparr>; self2 = self1\<lparr>cv_rec_id := cv_rec_id self1 + 1\<rparr> in
            case backing self of
              None \<Rightarrow> (Good True, self2, r1, d)
            | Some (n, f) \<Rightarrow>
                if length (sv_data (rec_ref r)) < sv_len (rec_ref r) then (Crash, st)
                else (Good True, self2\<lparr>backing := Some (n + sv_len (rec_ref r) + 1, f)\<rparr>, r1\<lparr>row_offset := n\<rparr>,
                      emit f (sv_text (rec_ref r) @ [CHR 0x0A]) d))
       | Good None \<Rightarrow> (Good False, self1\<lparr>cv_eof := True\<rparr>, rec1, d)
       | Fail \<Rightarrow> (Fail, self1, rec1, d)
       | _ \<Rightarrow> (Crash, st))"

definition libcsv_get_record_at :: "'c csv_reader_ops \<Rightarrow> nat \<Rightarrow> 'c csvread \<times> row_record \<times> disk \<Rightarrow> bool outcome \<times> 'c csvread \<times> row_record \<times> disk" where
  "libcsv_get_record_at R offset st = (case st of (self, rec, d) \<Rightarrow>
     case cr_seek R offset (cv_csv self) of (ok, c) \<Rightarrow>
       if ok then libcsv_get_record R (self\<lparr>cv_csv := c, cv_eof := False\<rparr>, rec, d)
       else (Fail, self\<lparr>cv_csv := c\<rparr>, rec, d))"

fun skip_records :: "'c csv_reader_ops \<Rightarrow> nat \<Rightarrow> 'c \<Rightarrow> unit outcome \<times> 'c" where
  "skip_records R 0 c = (Good (), c)"
| "skip_records R (Suc n) c = (case cr_skip R c of (res, c1) \<Rightarrow>
     case res of Csv_fail \<Rightarrow> (Fail, c1) | Csv_eof \<Rightarrow> (Null None, c1) | Csv_good _ _ \<Rightarrow> skip_records R n c1)"

definition libcsv_reset :: "'c csv_reader_ops \<Rightarrow> 'c csvread \<Rightarrow> unit outcome \<times> 'c csvread" where
  "libcsv_reset R self = (case skip_records R (cv_skip self) (cr_reset R (cv_csv self)) of (r, c) \<Rightarrow>
     (r, self\<lparr>cv_csv := c, cv_rec_id := 0, cv_eof := False\<rparr>))"

end
