(* ===== verification/Process.thy ===== *)
theory Process
  imports Recycle Select
begin

text \<open>
  The processes of a plan that move row groups (lib/fqlprocesses.c). A process reads row groups
  from its input fifos and adds them to its output fifos; all fifos of a plan are in one list
  and a process holds their indices, so that two ends of a pipe are the same fifo. One call of
  an action handles what is there and what fits, and reports what it waits for; failure of the
  query is \<open>Fail\<close>, and \<open>Crash\<close> an execution outside the C standard or one that waits for ever.
  A pointer into a fifo is the index of its slot; the NULL that recycling leaves in a slot that
  has been taken is not modelled. The reader of a table is a parameter.
\<close>

section \<open>State\<close>

datatype proc_return = PROC_COMPLETE | PROC_RUNNING | WAIT_ON_IN0 | WAIT_ON_IN1 | WAIT_ON_IN_EITHER
  | WAIT_ON_IN_BOTH | WAIT_ON_OUT0 | WAIT_ON_OUT1

text \<open>
  \<open>queued_results\<close> are the fifos of the selects of a UNION and \<open>queued_pos\<close> where the process is
  in them; \<open>union_end_outs\<close> are the outputs of the processes in \<open>union_end_nodes\<close>. \<open>killed_pipe\<close>
  is which of the two inputs starts closed, \<open>wait_list\<close> holds the processes that must have ended
  before this one begins, and \<open>is_groupby\<close> is \<open>action__ == &fql_groupby\<close>.
\<close>

record process =
  fifo_in0 :: nat
  fifo_in1 :: "nat option"
  fifo_out0 :: "nat option"
  fifo_out1 :: "nat option"
  fifo_aux_root :: "nat option"
  rootvec_ref :: "nat list"
  inbuf :: "nat vec"
  inbuf_iter :: nat
  fifo_base_size :: u32
  out_src_count :: nat
  root_fifo :: int
  max_recs_iter :: nat
  rows_affected :: nat
  is_const_proc :: bool
  wait_for_in0 :: bool
  in0_always_dead :: bool
  is_enabled :: bool
  rebuf :: "nat vec"
  rebuf_iter :: nat
  org_fifo_in0 :: nat
  killed_pipe :: "nat option"
  queued_results :: "nat list"
  queued_pos :: nat
  union_end_outs :: "nat list"
  wait_list :: "nat list"
  is_op_true :: bool
  is_groupby :: bool

text \<open>\<open>pdata\<close> is \<open>proc_data\<close>: the table, group or statement the process works for.\<close>

record ('f, 're, 'd) pstate = pipes +
  pstore :: "('f, 're) store"
  pself :: process
  pdata :: 'd

type_synonym ('f, 're, 'd, 'a) pact = "(('f, 're, 'd) pstate, 'a) act"

definition see :: "('s \<Rightarrow> 'a) \<Rightarrow> ('s, 'a) act" where
  "see f s = (Good (f s), s)"

definition step :: "('s \<Rightarrow> ('a \<times> 's) option) \<Rightarrow> ('s, 'a) act" where
  "step f s = (case f s of None \<Rightarrow> (Crash, s) | Some (a, s') \<Rightarrow> (Good a, s'))"

definition fifo_see :: "nat \<Rightarrow> (nat fifo \<Rightarrow> 'a) \<Rightarrow> ('f, 're, 'd, 'a) pact" where
  "fifo_see i f s = (if i < length (pfifos s) then (Good (f (pfifos s ! i)), s) else (Crash, s))"

text \<open>A NULL fifo pointer that the code guards with \<open>if (out && ..)\<close>.\<close>

definition fifo_opt :: "nat option \<Rightarrow> 'a \<Rightarrow> (nat fifo \<Rightarrow> 'a) \<Rightarrow> ('f, 're, 'd, 'a) pact" where
  "fifo_opt p d f = (case p of None \<Rightarrow> outA (Good d) | Some i \<Rightarrow> fifo_see i f)"

definition fifo_do :: "nat \<Rightarrow> (nat fifo \<Rightarrow> ('a \<times> nat fifo) option) \<Rightarrow> ('f, 're, 'd, 'a) pact" where
  "fifo_do i f = step (\<lambda>s. if i < length (pfifos s)
     then map_option (\<lambda>(a, g). (a, s\<lparr>pfifos := (pfifos s)[i := g]\<rparr>)) (f (pfifos s ! i)) else None)"

definition begin_of :: "nat \<Rightarrow> ('f, 're, 'd, nat) pact" where
  "begin_of i = fifo_do i (\<lambda>f. Some (fifo_begin f))"

definition iter_of :: "nat \<Rightarrow> ('f, 're, 'd, nat) pact" where
  "iter_of i = fifo_do i (\<lambda>f. Some (fifo_iter f))"

definition update_of :: "nat \<Rightarrow> ('f, 're, 'd, unit) pact" where
  "update_of i = fifo_do i (\<lambda>f. Some ((), fifo_update f))"

definition consume_of :: "nat \<Rightarrow> ('f, 're, 'd, unit) pact" where
  "consume_of i = fifo_do i (\<lambda>f. Some ((), fifo_consume f))"

definition slot_of_fifo :: "nat \<Rightarrow> nat \<Rightarrow> ('f, 're, 'd, nat) pact" where
  "slot_of_fifo i it = fifo_do i (\<lambda>f. case vec_at (buf f) it of Some (Some a) \<Rightarrow> Some (a, f) | _ \<Rightarrow> None)"

definition add_rg :: "nat option \<Rightarrow> nat \<Rightarrow> ('f, 're, 'd, unit) pact" where
  "add_rg p a = (case p of None \<Rightarrow> outA Crash
     | Some i \<Rightarrow> fifo_do i (\<lambda>f. map_option (\<lambda>g. ((), g)) (fifo_add f (Some a))))"

definition take_rg :: "nat option \<Rightarrow> ('f, 're, 'd, nat) pact" where
  "take_rg p = (case p of None \<Rightarrow> outA Crash | Some i \<Rightarrow> step (take_from i))"

definition recycle_rg :: "nat \<Rightarrow> ('f, 're, 'd, unit) pact" where
  "recycle_rg a = step (\<lambda>s. map_option (\<lambda>s'. ((), s')) (fqlprocess_recycle (rootvec_ref (pself s)) s (Some a)))"

text \<open>The records of a row group, what an expression reads.\<close>

partial_function (option) rows_of :: "row_record heap \<Rightarrow> nat option \<Rightarrow> row_record list option" where
  "rows_of h p = (case p of None \<Rightarrow> Some [] | Some a \<Rightarrow> do {
     c \<leftarrow> h a;
     rs \<leftarrow> rows_of h (nnext c);
     Some (ndata c # rs)
   })"

definition with_rows :: "nat \<Rightarrow> (row_record list \<Rightarrow> ('f, 're, 'd, 'a) pact) \<Rightarrow> ('f, 're, 'd, 'a) pact" where
  "with_rows a k s = (case rows_of (pheap s) (Some a) of None \<Rightarrow> (Crash, s) | Some rg \<Rightarrow> k rg s)"

definition on_pstore :: "('f, 're, 'a) sact \<Rightarrow> ('f, 're, 'd, 'a) pact" where
  "on_pstore m s = (case m (pstore s) of (r, st) \<Rightarrow> (r, s\<lparr>pstore := st\<rparr>))"

text \<open>
  The loop over an input: the body handles the row group in its slot and says whether the loop
  goes on with the slot it gives, breaks, or leaves the function at once.
\<close>

datatype loop = Next nat | Break proc_return | Return proc_return

fun row_loop :: "nat \<Rightarrow> nat \<Rightarrow> nat \<Rightarrow> (nat \<Rightarrow> nat \<Rightarrow> ('f, 're, 'd, loop) pact) \<Rightarrow> proc_return \<Rightarrow> ('f, 're, 'd, proc_return) pact" where
  "row_loop 0 inp it body ret = outA Crash"
| "row_loop (Suc fuel) inp it body ret =
     derefA (fifo_see inp fifo_end) (\<lambda>e.
     if it = e then derefA (update_of inp) (\<lambda>_. outA (Good ret))
     else derefA (slot_of_fifo inp it) (\<lambda>rg.
       derefA (body it rg) (\<lambda>r. case r of
         Next it' \<Rightarrow> row_loop fuel inp it' body ret
       | Break ret' \<Rightarrow> derefA (update_of inp) (\<lambda>_. outA (Good ret'))
       | Return ret' \<Rightarrow> outA (Good ret'))))"

text \<open>What follows the next slot: stop when an output has no room.\<close>

definition next_if_room :: "nat \<Rightarrow> (nat option \<times> proc_return) list \<Rightarrow> ('f, 're, 'd, loop) pact" where
  "next_if_room inp outs = derefA (iter_of inp) (\<lambda>it.
     foldr (\<lambda>(out, ret) k. derefA (fifo_opt out 1 fifo_receivable) (\<lambda>n. if n = 0 then outA (Good (Break ret)) else k))
       outs (outA (Good (Next it))))"

section \<open>Conditions\<close>

definition fql_logic :: "('f, 're) ext \<Rightarrow> nat \<Rightarrow> nat \<Rightarrow> logicgroup \<Rightarrow> nat option \<Rightarrow> ('f, 're, 'd, proc_return) pact" where
  "fql_logic x depth fuel lg join_logic = derefA (see pself) (\<lambda>p.
     let inp = fifo_in0 p; out_false = fifo_out0 p; out_true = fifo_out1 p in
     derefA (fifo_opt out_true True is_open) (\<lambda>t. derefA (fifo_opt out_false True is_open) (\<lambda>f.
     if \<not> t \<or> \<not> f then outA (Good PROC_COMPLETE) else
     derefA (fifo_see inp (\<lambda>f. (fifo_is_empty f, is_open f))) (\<lambda>(empty, opened).
     if empty then outA (Good (if \<not> opened then PROC_COMPLETE else WAIT_ON_IN0)) else
     derefA (fifo_opt out_true 1 fifo_receivable) (\<lambda>n1. if n1 = 0 then outA (Good WAIT_ON_OUT1) else
     derefA (fifo_opt out_false 1 fifo_receivable) (\<lambda>n0. if n0 = 0 then outA (Good WAIT_ON_OUT0) else
     derefA (begin_of inp) (\<lambda>it.
       row_loop fuel inp it (\<lambda>it rg.
         derefA (with_rows rg (\<lambda>rows. on_pstore (logicgroup_eval (logic_eval x (expr_getters x rows depth)) join_logic lg))) (\<lambda>result.
         derefA (if result \<and> out_true \<noteq> None then add_rg out_true rg
                 else if \<not> result \<and> out_false \<noteq> None then add_rg out_false rg
                 else recycle_rg rg) (\<lambda>_.
         if is_const_proc p then outA (Good (Break PROC_COMPLETE))
         else next_if_room inp [(out_true, WAIT_ON_OUT1), (out_false, WAIT_ON_OUT0)]))) WAIT_ON_IN0)))))))"

text \<open>
  LEFT JOIN: a row group that fails the condition goes on without its last record. The test for
  room in the output is written \<open>!out_true && !fifo_receivable(out_true)\<close>, which never holds.
\<close>

definition fql_left_join_logic :: "('f, 're) ext \<Rightarrow> nat \<Rightarrow> nat \<Rightarrow> logicgroup \<Rightarrow> nat option \<Rightarrow> ('f, 're, 'd, proc_return) pact" where
  "fql_left_join_logic x depth fuel lg join_logic = derefA (see pself) (\<lambda>p.
     let inp = fifo_in0 p; out_true = fifo_out1 p in
     derefA (fifo_opt out_true True is_open) (\<lambda>t.
     if \<not> t then outA (Good PROC_COMPLETE) else
     derefA (fifo_see inp (\<lambda>f. (fifo_is_empty f, is_open f))) (\<lambda>(empty, opened).
     if empty then outA (Good (if \<not> opened then PROC_COMPLETE else WAIT_ON_IN0)) else
     if out_true = None then outA Crash else
     derefA (begin_of inp) (\<lambda>it.
       row_loop fuel inp it (\<lambda>it rg.
         derefA (with_rows rg (\<lambda>rows. if record_at rows (int (out_src_count p) - 1) \<noteq> None
             then on_pstore (logicgroup_eval (logic_eval x (expr_getters x rows depth)) join_logic lg)
             else outA (Good True))) (\<lambda>result.
         derefA (if result then outA (Good ())
                 else step (\<lambda>s. node_back (pheap s) (Some rg) \<bind> (\<lambda>right_side.
                   map_option (\<lambda>s'. ((), s')) (fqlprocess_recycle (rootvec_ref p) s right_side)))) (\<lambda>_.
         derefA (add_rg out_true rg) (\<lambda>_.
         derefA (iter_of inp) (\<lambda>it'. outA (Good (Next it'))))))) WAIT_ON_IN0))))"

section \<open>Reading a table\<close>

text \<open>
  \<open>get_record__\<close> of the reader of a table is a parameter here: it is given the row group, fills
  its first record and says whether there was a record (\<open>FQL_GOOD\<close>) or the end of the file.
\<close>

type_synonym ('f, 're, 'rd) get_record = "row_record list \<Rightarrow> (('f, 're) store \<times> 'rd, bool \<times> row_record) act"

datatype join_type = JOIN_FROM | JOIN_INNER | JOIN_LEFT | JOIN_RIGHT | JOIN_FULL | JOIN_CROSS

datatype join_side = SIDE_UNDEF | SIDE_LEFT | SIDE_RIGHT | SIDE_MIXED

record hashjoin =
  hash_data :: "nat vec vec hashtab"
  left_expr :: nat
  right_expr :: nat
  hj_recs :: "nat option"
  hj_state :: join_side
  hj_comp_type :: field_type
  hj_rec_idx :: nat

record 'rd table =
  t_reader :: 'rd
  t_idx :: nat
  t_join_type :: join_type
  t_join :: "hashjoin option"

definition call_reader :: "('f, 're, 'rd) get_record \<Rightarrow> nat \<Rightarrow> ('f, 're, 'rd table, bool) pact" where
  "call_reader m a s = (case rows_of (pheap s) (Some a) of None \<Rightarrow> (Crash, s) | Some rg \<Rightarrow>
     (case m rg (pstore s, t_reader (pdata s)) of (r, st, rd) \<Rightarrow>
        let s1 = s\<lparr>pstore := st, pdata := (pdata s)\<lparr>t_reader := rd\<rparr>\<rparr> in
        case r of
          Good (ok, rec) \<Rightarrow> (case upd_rec (\<lambda>_. rec) a s1 of None \<Rightarrow> (Crash, s1) | Some s2 \<Rightarrow> (Good ok, s2))
        | Null _ \<Rightarrow> (Null None, s1) | Fail \<Rightarrow> (Fail, s1) | Crash \<Rightarrow> (Crash, s1)))"

definition set_source :: "nat \<Rightarrow> int \<Rightarrow> ('f, 're, 'd, unit) pact" where
  "set_source a idx = step (\<lambda>s. map_option (\<lambda>s'. ((), s')) (upd_rec (\<lambda>r. r\<lparr>row_src_idx := idx\<rparr>) a s))"

text \<open>At the end of the file the action returns before \<open>fifo_update\<close>.\<close>

definition fql_read :: "('f, 're, 'rd) get_record \<Rightarrow> nat \<Rightarrow> ('f, 're, 'rd table, proc_return) pact" where
  "fql_read get_record fuel = derefA (see pself) (\<lambda>p.
     let inp = fifo_in0 p; out = fifo_out0 p in
     case out of None \<Rightarrow> outA Crash | Some o0 \<Rightarrow>
     derefA (fifo_see o0 is_open) (\<lambda>opened. if \<not> opened then outA (Good PROC_COMPLETE) else
     derefA (fifo_see inp (\<lambda>f. (fifo_is_empty f, is_open f))) (\<lambda>(empty, opened).
     if empty then outA (Good (if \<not> opened then PROC_COMPLETE else WAIT_ON_IN0)) else
     derefA (fifo_see o0 fifo_receivable) (\<lambda>n. if n = 0 then outA (Good WAIT_ON_OUT0) else
     derefA (begin_of inp) (\<lambda>it.
       row_loop fuel inp it (\<lambda>it rg.
         derefA (call_reader get_record rg) (\<lambda>ok.
         if \<not> ok then outA (Good (Return PROC_COMPLETE)) else
         derefA (see (\<lambda>s. int (t_idx (pdata s)))) (\<lambda>idx.
         derefA (set_source rg idx) (\<lambda>_.
         derefA (add_rg out rg) (\<lambda>_.
           next_if_room inp [(out, WAIT_ON_OUT0)])))))
         (if root_fifo p = 0 then PROC_RUNNING else WAIT_ON_IN0))))))"

section \<open>Control flow\<close>

text \<open>SET and DECLARE: the variables of the environment, the variable and its value.\<close>

record 'f set_stmt =
  set_variables :: "'f variable list"
  variable_idx :: nat
  init_expr :: "nat option"

type_synonym ('f, 're, 'a) setact = "(('f, 're, 'f set_stmt) pstate, 'a) act"

definition put_var :: "nat \<Rightarrow> 'f variable \<Rightarrow> ('f, 're, unit) setact" where
  "put_var i v s = (Good (), s\<lparr>pdata := (pdata s)\<lparr>set_variables := (set_variables (pdata s))[i := v]\<rparr>\<rparr>)"

definition var_int :: "'f variable \<Rightarrow> i64 option" where
  "var_int v = (case var_value v of UInt n \<Rightarrow> Some n | _ \<Rightarrow> None)"

definition var_float :: "'f variable \<Rightarrow> 'f option" where
  "var_float v = (case var_value v of UFloat n \<Rightarrow> Some n | _ \<Rightarrow> None)"

definition fql_set :: "('f, 're) ext \<Rightarrow> nat \<Rightarrow> ('f, 're, proc_return) setact" where
  "fql_set x depth = derefA (see pdata) (\<lambda>d.
     let i = variable_idx d; G = expr_getters x [] depth in
     if \<not> i < length (set_variables d) then outA Crash else
     let var = set_variables d ! i in
     case init_expr d of
       None \<Rightarrow> derefA (outA (variable_reset (x_flt x) var)) (\<lambda>v. derefA (put_var i v) (\<lambda>_. outA (Good PROC_COMPLETE)))
     | Some e \<Rightarrow>
         let int_value = (\<lambda>conv. read_or (var_int var) (on_pstore (get_int G e)) (\<lambda>n null.
               derefA (put_var i (var\<lparr>variable.is_null := null, var_value := UInt (conv n)\<rparr>)) (\<lambda>_. outA (Good PROC_COMPLETE)))) in
         case var_type var of
           SQL_INT \<Rightarrow> int_value (\<lambda>n. n)
         | SQL_BIT \<Rightarrow> int_value (\<lambda>n. if n \<noteq> 0 then 1 else 0)
         | SQL_FLOAT \<Rightarrow> read_or (var_float var) (on_pstore (get_float G e)) (\<lambda>n null.
               derefA (put_var i (var\<lparr>variable.is_null := null, var_value := UFloat n\<rparr>)) (\<lambda>_. outA (Good PROC_COMPLETE)))
         | SQL_UNDEFINED \<Rightarrow> outA Fail
         | _ \<Rightarrow> read_or (Some (view_of [])) (on_pstore (get_stringview G e)) (\<lambda>sv null.
               derefA (if null then outA (Good (var\<lparr>variable.is_null := True\<rparr>))
                       else outA (variable_set_stringview (var\<lparr>variable.is_null := False\<rparr>) sv)) (\<lambda>v.
               derefA (put_var i v) (\<lambda>_. outA (Good PROC_COMPLETE)))))"

text \<open>IF and WHILE choose the next query.\<close>

record fqlbranch =
  br_condition :: logicgroup
  true_idx :: nat
  false_idx :: int
  next_query_idx :: int

definition fql_if :: "('f, 're) ext \<Rightarrow> nat \<Rightarrow> ('f, 're, fqlbranch, proc_return) pact" where
  "fql_if x depth = derefA (see pdata) (\<lambda>b.
     derefA (on_pstore (logicgroup_eval (logic_eval x (expr_getters x [] depth)) None (br_condition b))) (\<lambda>result.
     derefA (step (\<lambda>s. Some ((), s\<lparr>pdata := b\<lparr>next_query_idx := (if result then int (true_idx b) else false_idx b)\<rparr>\<rparr>))) (\<lambda>_.
       outA (Good PROC_COMPLETE))))"

end
