(* ===== verification/Join.thy ===== *)
theory Join
  imports Process
begin

text \<open>
  The joins (lib/fqlprocesses.c). A row group of the left input meets records of the table on the
  right; the nodes for these records, and for the copies of the left group when it has more than
  one match, come from a root fifo: the second input of the cartesian join (in blocks, by way of
  \<open>inbuf\<close>), the auxiliary root of the hash join. The reader of the table is a parameter.
\<close>

section \<open>Cartesian join\<close>

definition upd_self :: "(process \<Rightarrow> process) \<Rightarrow> ('f, 're, 'd, unit) pact" where
  "upd_self f s = (Good (), s\<lparr>pself := f (pself s)\<rparr>)"

text \<open>Records are taken in blocks of one row group; the result is the return value of \<open>fifo_nget\<close>.\<close>

definition fill_inbuf :: "nat \<Rightarrow> ('f, 're, 'd, nat) pact" where
  "fill_inbuf input = derefA (see pself) (\<lambda>p.
     if inbuf_iter p \<noteq> vsize (inbuf p) then outA (Good 1)
     else derefA (fifo_do input (\<lambda>f. map_option (\<lambda>(n, f', b). ((unat n, b), f'))
         (fifo_nget f (vec_clear (inbuf p)) (of_nat (out_src_count p)) (fifo_base_size p)))) (\<lambda>(n, b).
       derefA (upd_self (\<lambda>p. p\<lparr>inbuf := b, inbuf_iter := 0\<rparr>)) (\<lambda>_. outA (Good n))))"

definition in_buffer :: "nat vec \<Rightarrow> nat \<Rightarrow> nat option" where
  "in_buffer b i = (case vec_at b i of Some (Some a) \<Rightarrow> Some a | _ \<Rightarrow> None)"

text \<open>The left group is copied, last record first, into the nodes that follow in the buffer.\<close>

partial_function (option) copy_buffered :: "nat vec \<Rightarrow> nat \<Rightarrow> 'z pipes_scheme \<Rightarrow> nat option \<Rightarrow> nat option \<Rightarrow> (nat \<times> 'z pipes_scheme \<times> nat option) option" where
  "copy_buffered b it s left right = (case left of None \<Rightarrow> Some (it, s, right) | Some l \<Rightarrow> do {
     fresh \<leftarrow> in_buffer b (it + 1);
     s1 \<leftarrow> record_copy_at fresh l s;
     (h, right') \<leftarrow> node_push_import (pheap s1) right fresh;
     c \<leftarrow> h l;
     copy_buffered b (it + 1) (s1\<lparr>pheap := h\<rparr>) (nprev c) right'
   })"

definition peek_at :: "nat \<Rightarrow> ('f, 're, 'd, nat) pact" where
  "peek_at i = fifo_do i (\<lambda>f. case fifo_peek f of Some (Some a) \<Rightarrow> Some (a, f) | _ \<Rightarrow> None)"

definition buffered_row :: "nat \<Rightarrow> ('f, 're, 'd, nat) pact" where
  "buffered_row left = step (\<lambda>s. do {
     let p = pself s;
     right \<leftarrow> in_buffer (inbuf p) (inbuf_iter p);
     l \<leftarrow> node_back (pheap s) (Some left);
     (it, s1, r) \<leftarrow> copy_buffered (inbuf p) (inbuf_iter p) s l (Some right);
     head \<leftarrow> r;
     b \<leftarrow> vec_set_one (inbuf p) (inbuf_iter p) (Some head);
     Some (head, s1\<lparr>pself := (pself s1)\<lparr>inbuf := b, inbuf_iter := it\<rparr>\<rparr>)
   })"

definition reset_reader :: "(('f, 're) store \<times> 'rd \<Rightarrow> ('f, 're) store \<times> 'rd) \<Rightarrow> ('f, 're, 'rd table, unit) pact" where
  "reset_reader reset s = (case reset (pstore s, t_reader (pdata s)) of (st, rd) \<Rightarrow>
     (Good (), s\<lparr>pstore := st, pdata := (pdata s)\<lparr>t_reader := rd\<rparr>\<rparr>))"

text \<open>
  At the end of the table the left group is done. \<open>fifo_end\<close> of the left input is never set by
  this process, so that the answer there may be either; both make the process run again.
\<close>

fun cartesian_loop :: "('f, 're, 'rd) get_record \<Rightarrow> (('f, 're) store \<times> 'rd \<Rightarrow> ('f, 're) store \<times> 'rd) \<Rightarrow> nat \<Rightarrow> nat \<Rightarrow> nat \<Rightarrow>
    ('f, 're, 'rd table, proc_return) pact" where
  "cartesian_loop get_record reset in_left out 0 = outA Crash"
| "cartesian_loop get_record reset in_left out (Suc fuel) = derefA (see pself) (\<lambda>p.
     if inbuf_iter p = vsize (inbuf p) then outA (Good PROC_RUNNING) else
     derefA (step (\<lambda>s. map_option (\<lambda>a. (a, s)) (in_buffer (inbuf p) (inbuf_iter p)))) (\<lambda>rg.
     derefA (see (\<lambda>s. int (t_idx (pdata s)))) (\<lambda>idx.
     derefA (set_source rg idx) (\<lambda>_.
     derefA (call_reader get_record rg) (\<lambda>ok.
     derefA (peek_at in_left) (\<lambda>left.
     if ok then
       derefA (buffered_row left) (\<lambda>head.
       derefA (add_rg (Some out) head) (\<lambda>_.
       derefA (upd_self (\<lambda>p. p\<lparr>inbuf_iter := inbuf_iter p + 1\<rparr>)) (\<lambda>_.
       derefA (fifo_see out fifo_receivable) (\<lambda>n.
         if n = 0 then outA (Good WAIT_ON_OUT0) else cartesian_loop get_record reset in_left out fuel))))
     else
       derefA (reset_reader reset) (\<lambda>_.
       derefA (consume_of in_left) (\<lambda>_.
       derefA (recycle_rg left) (\<lambda>_.
       derefA (fifo_see in_left (\<lambda>f. unat (tail f) = fifo_end f)) (\<lambda>at_end.
         outA (Good (if at_end then WAIT_ON_IN0 else PROC_RUNNING)))))))))))) "

definition fql_cartesian_join :: "('f, 're, 'rd) get_record \<Rightarrow> (('f, 're) store \<times> 'rd \<Rightarrow> ('f, 're) store \<times> 'rd) \<Rightarrow> nat \<Rightarrow>
    ('f, 're, 'rd table, proc_return) pact" where
  "fql_cartesian_join get_record reset fuel = derefA (see pself) (\<lambda>p.
     case (fifo_out0 p, fifo_in1 p) of
       (Some out, Some in_right) \<Rightarrow>
         derefA (fifo_see out is_open) (\<lambda>opened. if \<not> opened then outA (Good PROC_COMPLETE) else
         derefA (fifo_see (fifo_in0 p) (\<lambda>f. (fifo_is_empty f, is_open f))) (\<lambda>(empty, opened).
         if empty then outA (Good (if \<not> opened then PROC_COMPLETE else WAIT_ON_IN0)) else
         derefA (fill_inbuf in_right) (\<lambda>_. cartesian_loop get_record reset (fifo_in0 p) out fuel)))
     | _ \<Rightarrow> outA Crash)"

section \<open>Hash join\<close>

definition with_join :: "(hashjoin \<Rightarrow> ('f, 're, 'rd table, 'a) pact) \<Rightarrow> ('f, 're, 'rd table, 'a) pact" where
  "with_join k s = (case t_join (pdata s) of None \<Rightarrow> (Crash, s) | Some hj \<Rightarrow> k hj s)"

definition put_join :: "hashjoin \<Rightarrow> ('f, 're, 'rd table, unit) pact" where
  "put_join hj s = (Good (), s\<lparr>pdata := (pdata s)\<lparr>t_join := Some hj\<rparr>\<rparr>)"

text \<open>
  The table of the join is made before the processes run, for twice the rows that are guessed.
  Texts are compared without case and trailing white space.
\<close>

definition table_hash_join_init :: "nat \<Rightarrow> hashjoin \<Rightarrow> hashjoin" where
  "table_hash_join_init guessed_row_count join =
     join\<lparr>hash_data := multimap_construct (guessed_row_count * 2) (if hj_comp_type join = FIELD_STRING then 3 else 0)\<rparr>"

text \<open>
  The bytes a row is hashed by: those of the number, or the text. \<open>hold\<close> is what the two number
  variables hold before, which a NULL may leave there. A view that a NULL does not set is not
  initialised, or that of a record that has been recycled.
\<close>

definition join_key :: "('f, 're) ext \<Rightarrow> nat \<Rightarrow> field_type \<Rightarrow> nat \<Rightarrow> nat \<Rightarrow> i64 \<times> 'f \<Rightarrow> ('f, 're, 'd, string \<times> i64 \<times> 'f) pact" where
  "join_key x depth ty i rg hold = with_rows rg (\<lambda>rows. let G = expr_getters x rows depth in case ty of
     FIELD_INT \<Rightarrow> read_or (Some (fst hold)) (on_pstore (get_int G i)) (\<lambda>n _. outA (Good (num_bytes 8 (unat n), n, snd hold)))
   | FIELD_FLOAT \<Rightarrow> read_or (Some (snd hold)) (on_pstore (get_float G i)) (\<lambda>f _. outA (Good (num_bytes 8 (unat (f_bits (x_flt x) f)), fst hold, f)))
   | FIELD_STRING \<Rightarrow> read_or None (on_pstore (get_stringview G i)) (\<lambda>sv _.
       if sv_len sv \<le> length (sv_data sv) then outA (Good (sv_text sv, hold)) else outA Crash)
   | FIELD_UNDEFINED \<Rightarrow> outA Fail)"

definition hash_offset :: "string \<Rightarrow> nat \<Rightarrow> ('f, 're, 'rd table, unit) pact" where
  "hash_offset key rg = with_join (\<lambda>hj s. case pheap s rg of None \<Rightarrow> (Crash, s) | Some c \<Rightarrow>
     (case multimap_nset (hash_data hj) key (row_offset (ndata c)) of
        None \<Rightarrow> (Crash, s) | Some m \<Rightarrow> put_join (hj\<lparr>hash_data := m\<rparr>) s))"

fun hash_right_loop :: "('f, 're) ext \<Rightarrow> nat \<Rightarrow> nat \<Rightarrow> nat \<Rightarrow> nat \<Rightarrow> i64 \<times> 'f \<Rightarrow> ('f, 're, 'rd table, proc_return) pact" where
  "hash_right_loop x depth inp 0 it hold = outA Crash"
| "hash_right_loop x depth inp (Suc fuel) it hold =
     derefA (fifo_see inp fifo_end) (\<lambda>e.
     if it = e then derefA (update_of inp) (\<lambda>_. outA (Good WAIT_ON_IN1)) else
     derefA (slot_of_fifo inp it) (\<lambda>rg.
     with_join (\<lambda>hj. derefA (join_key x depth (hj_comp_type hj) (right_expr hj) rg hold) (\<lambda>(key, hold').
     derefA (hash_offset key rg) (\<lambda>_.
     derefA (recycle_rg rg) (\<lambda>_.
     derefA (iter_of inp) (\<lambda>it'. hash_right_loop x depth inp fuel it' hold')))))))"

definition hash_join_right_side :: "('f, 're) ext \<Rightarrow> nat \<Rightarrow> nat \<Rightarrow> nat \<Rightarrow> ('f, 're, 'rd table, proc_return) pact" where
  "hash_join_right_side x depth fuel in_right =
     derefA (begin_of in_right) (\<lambda>it. hash_right_loop x depth in_right fuel it (0, f_zero (x_flt x)))"

text \<open>The next match of a left group: the offset of a record, or that there is none.\<close>

definition next_match :: "('f, 're, 'rd table, nat option) pact" where
  "next_match = with_join (\<lambda>hj. case hj_recs hj of None \<Rightarrow> outA Crash | Some r \<Rightarrow>
     (case vec_at (vals (hash_data hj)) r of
        Some (Some v) \<Rightarrow>
          (case vec_at v (hj_rec_idx hj) of
             Some (Some offset) \<Rightarrow>
               derefA (put_join (hj\<lparr>hj_rec_idx := hj_rec_idx hj + 1, hj_recs := (if vsize v \<le> hj_rec_idx hj + 1 then None else Some r)\<rparr>)) (\<lambda>_.
                 outA (Good (Some offset)))
           | _ \<Rightarrow> outA Crash)
      | _ \<Rightarrow> outA Crash))"

definition hash_join_left_side :: "('f, 're) ext \<Rightarrow> nat \<Rightarrow> nat \<Rightarrow> ('f, 're, 'rd table, nat option) pact" where
  "hash_join_left_side x depth left_rg = with_join (\<lambda>hj.
     if hj_recs hj \<noteq> None then next_match else
     derefA (join_key x depth (hj_comp_type hj) (left_expr hj) left_rg (0, f_zero (x_flt x))) (\<lambda>(key, _).
     derefA (step (\<lambda>s. map_option (\<lambda>r. (r, s)) (hashmap_nget (hash_data hj) key))) (\<lambda>(found, m).
     derefA (put_join (hj\<lparr>hash_data := m, hj_recs := found, hj_rec_idx := (if found = None then hj_rec_idx hj else 0)\<rparr>)) (\<lambda>_.
       if found = None then outA (Good None) else next_match))))"

definition emit_match :: "('f, 're, 'rd) get_record \<Rightarrow> nat \<Rightarrow> nat \<Rightarrow> nat \<Rightarrow> nat \<Rightarrow> ('f, 're, 'rd table, nat) pact" where
  "emit_match read_record inp out left_rg it = derefA (see pself) (\<lambda>p.
     derefA (take_rg (fifo_aux_root p)) (\<lambda>right_rg.
     derefA (set_source right_rg (int (out_src_count p) - 1)) (\<lambda>_.
     derefA (call_reader read_record right_rg) (\<lambda>_. with_join (\<lambda>hj.
       if hj_recs hj = None then
         derefA (step (\<lambda>s. do { (h, l) \<leftarrow> node_enqueue_import (pheap s) (Some left_rg) right_rg; l' \<leftarrow> l; Some (l', s\<lparr>pheap := h\<rparr>) })) (\<lambda>l.
         derefA (add_rg (Some out) l) (\<lambda>_. iter_of inp))
       else
         derefA (step (\<lambda>s. do { l \<leftarrow> node_back (pheap s) (Some left_rg); aux \<leftarrow> fifo_aux_root p;
             (s1, r) \<leftarrow> copy_group aux s l (Some right_rg); r' \<leftarrow> r; Some (r', s1) })) (\<lambda>r.
         derefA (add_rg (Some out) r) (\<lambda>_. outA (Good it))))))))"

text \<open>
  A left group without a match goes to the first output of the join if there is one, on to the
  next process in a LEFT JOIN, and is recycled otherwise.
\<close>

fun hash_left_loop :: "('f, 're) ext \<Rightarrow> nat \<Rightarrow> (nat \<Rightarrow> ('f, 're, 'rd) get_record) \<Rightarrow> nat \<Rightarrow> nat \<Rightarrow> nat option \<Rightarrow> nat \<Rightarrow> nat \<Rightarrow>
    ('f, 're, 'rd table, proc_return) pact" where
  "hash_left_loop x depth read_at inp out_true out_false 0 it = outA Crash"
| "hash_left_loop x depth read_at inp out_true out_false (Suc fuel) it =
     derefA (fifo_see inp fifo_end) (\<lambda>e.
     if it = e then derefA (update_of inp) (\<lambda>_. outA (Good WAIT_ON_IN0)) else
     derefA (slot_of_fifo inp it) (\<lambda>left_rg.
     derefA (hash_join_left_side x depth left_rg) (\<lambda>match.
     derefA (case match of
         None \<Rightarrow>
           derefA (see (\<lambda>s. t_join_type (pdata s))) (\<lambda>ty.
           derefA (if ty = JOIN_LEFT then add_rg (Some out_true) left_rg
                   else if out_false \<noteq> None then add_rg out_false left_rg
                   else recycle_rg left_rg) (\<lambda>_. iter_of inp))
       | Some offset \<Rightarrow> emit_match (read_at offset) inp out_true left_rg it) (\<lambda>it'.
     derefA (fifo_see out_true fifo_receivable) (\<lambda>n1.
     if n1 = 0 then derefA (update_of inp) (\<lambda>_. outA (Good WAIT_ON_OUT1)) else
     derefA (fifo_opt out_false 1 fifo_receivable) (\<lambda>n0.
     if n0 = 0 then derefA (update_of inp) (\<lambda>_. outA (Good WAIT_ON_OUT0)) else
     hash_left_loop x depth read_at inp out_true out_false fuel it'))))))"

definition fql_hash_join :: "('f, 're) ext \<Rightarrow> nat \<Rightarrow> (nat \<Rightarrow> ('f, 're, 'rd) get_record) \<Rightarrow> (('f, 're) store \<times> 'rd \<Rightarrow> ('f, 're) store \<times> 'rd) \<Rightarrow> nat \<Rightarrow>
    ('f, 're, 'rd table, proc_return) pact" where
  "fql_hash_join x depth read_at reset fuel = derefA (see pself) (\<lambda>p.
     case (fifo_out1 p, fifo_in1 p) of (Some out_true, Some in_right) \<Rightarrow>
       (let out_false = fifo_out0 p; in_left = fifo_in0 p in
        derefA (fifo_see out_true is_open) (\<lambda>t. derefA (fifo_opt out_false True is_open) (\<lambda>f.
        if \<not> t \<or> \<not> f then outA (Good PROC_COMPLETE) else
        with_join (\<lambda>hj.
        if hj_state hj = SIDE_RIGHT then
          derefA (fifo_see in_right (\<lambda>f. (fifo_is_empty f, is_open f))) (\<lambda>(empty, opened).
          if empty \<and> \<not> opened then derefA (put_join (hj\<lparr>hj_state := SIDE_LEFT\<rparr>)) (\<lambda>_. derefA (reset_reader reset) (\<lambda>_. outA (Good PROC_RUNNING)))
          else if empty then outA (Good WAIT_ON_IN1)
          else hash_join_right_side x depth fuel in_right)
        else
          derefA (fifo_see out_true fifo_receivable) (\<lambda>n1. if n1 = 0 then outA (Good WAIT_ON_OUT1) else
          derefA (fifo_opt out_false 1 fifo_receivable) (\<lambda>n0. if n0 = 0 then outA (Good WAIT_ON_OUT0) else
          derefA (fifo_see in_left (\<lambda>f. (fifo_is_empty f, is_open f))) (\<lambda>(empty, opened).
          if empty then outA (Good (if \<not> opened then PROC_COMPLETE else WAIT_ON_IN0)) else
          derefA (begin_of in_left) (\<lambda>it. hash_left_loop x depth read_at in_left out_true out_false fuel it))))))))
     | _ \<Rightarrow> outA Crash)"

text \<open>\<open>hashjoin_reset\<close> forgets the rows of the table but not the match it was at.\<close>

definition hashjoin_reset :: "hashjoin option \<Rightarrow> hashjoin option" where
  "hashjoin_reset join = map_option (\<lambda>hj. hj\<lparr>hash_data := multimap_clear (hash_data hj), hj_state := SIDE_RIGHT\<rparr>) join"

end
