(* ===== verification/ProcSpec.thy ===== *)
theory ProcSpec
  imports Process
begin

text \<open>
  Lemmas for the processes: what recycling leaves alone, the rows of a row group, positions in
  an input fifo, room in an output fifo, and the rule for the loop that every process runs.
\<close>

section \<open>What recycling leaves alone\<close>

definition same_but :: "nat set \<Rightarrow> 'z pipes_scheme \<Rightarrow> 'z pipes_scheme \<Rightarrow> bool" where
  "same_but A s s' \<longleftrightarrow> pipes.more s' = pipes.more s \<and> length (pfifos s') = length (pfifos s) \<and>
     (\<forall>j. j \<notin> A \<longrightarrow> pfifos s' ! j = pfifos s ! j)"

lemma same_but_refl [simp]: "same_but A s s"
  by (simp add: same_but_def)

lemma same_but_trans: "same_but A s t \<Longrightarrow> same_but A t u \<Longrightarrow> same_but A s u"
  by (simp add: same_but_def)

lemma same_but_heap [simp]: "same_but A (s\<lparr>pheap := h\<rparr>) t = same_but A s t" "same_but A s (t\<lparr>pheap := h\<rparr>) = same_but A s t"
  by (simp_all add: same_but_def)

lemma same_but_upd_rec: "upd_rec f a s = Some s' \<Longrightarrow> same_but A s s'"
  by (auto simp: upd_rec_def split: bind_splits)

lemma same_but_add_to: "add_to i a s = Some s' \<Longrightarrow> i \<in> A \<Longrightarrow> same_but A s s'"
  by (auto simp: add_to_def same_but_def nth_list_update split: if_splits bind_splits)

lemma same_but_release: "release roots a s = Some s' \<Longrightarrow> same_but (set roots) s s'"
  unfolding release_def Let_def root_at_def
  by (auto split: bind_splits if_splits intro: same_but_upd_rec same_but_trans [OF same_but_upd_rec same_but_add_to])

lemma recycle_same_but:
  assumes "fqlprocess_recycle roots s rg = Some s'"
  shows "same_but (set roots) s s'"
  using assms
proof (induction rule: fqlprocess_recycle.raw_induct [rotated, consumes 1, case_names step])
  case (step rec roots s rg y)
  show ?case
  proof (cases rg)
    case None
    then show ?thesis using step(2) by simp
  next
    case (Some p)
    obtain x h rg' a c s2 s3 where st: "node_pop_export (pheap s) rg = Some (x, h, rg')" "x = Some a" "h a = Some c"
        "(case rec_copy_node (ndata c) of None \<Rightarrow> Some (s\<lparr>pheap := h\<rparr>) | Some src \<Rightarrow> do {
           cs \<leftarrow> pheap (s\<lparr>pheap := h\<rparr>) src;
           s2 \<leftarrow> (if dec (ref_count (ndata cs)) = 0 then rec roots (s\<lparr>pheap := h\<rparr>) (Some src)
              else upd_rec (\<lambda>r. r\<lparr>ref_count := dec (ref_count r)\<rparr>) src (s\<lparr>pheap := h\<rparr>));
           upd_rec (\<lambda>r. r\<lparr>rec_copy_node := None\<rparr>) a s2 }) = Some s2"
        "release roots a s2 = Some s3" "rec roots s3 rg' = Some y"
      using step(2) Some by (auto simp: bind_eq_Some_conv Let_def)
    have "same_but (set roots) (s\<lparr>pheap := h\<rparr>) s2"
    proof (cases "rec_copy_node (ndata c)")
      case None
      then show ?thesis using st(4) by auto
    next
      case (Some src)
      then obtain t where t: "rec roots (s\<lparr>pheap := h\<rparr>) (Some src) = Some t \<or>
          upd_rec (\<lambda>r. r\<lparr>ref_count := dec (ref_count r)\<rparr>) src (s\<lparr>pheap := h\<rparr>) = Some t"
          "upd_rec (\<lambda>r. r\<lparr>rec_copy_node := None\<rparr>) a t = Some s2"
        using st(4) by (auto simp: bind_eq_Some_conv split: if_splits)
      have "same_but (set roots) (s\<lparr>pheap := h\<rparr>) t" using t(1) step(1) same_but_upd_rec by blast
      then show ?thesis using same_but_upd_rec [OF t(2)] same_but_trans by blast
    qed
    then show ?thesis using step(1) [OF st(6)] same_but_release [OF st(5)] same_but_trans same_but_heap(1) by blast
  qed
qed

lemma same_but_state:
  fixes s s' :: "('f, 're, 'd) pstate"
  shows "same_but A s s' \<Longrightarrow> pstore s' = pstore s \<and> pself s' = pself s \<and> pdata s' = pdata s"
  by (cases s; cases s') (auto simp: same_but_def)


section \<open>Rows\<close>

lemma rows_of_linked:
  "linked h pr (map (\<lambda>a. (a, rec_of h a)) g) None \<Longrightarrow> rows_of h (head_of g) = Some (map (rec_of h) g)"
proof (induction g arbitrary: pr)
  case Nil
  then show ?case by (simp add: rows_of.simps)
next
  case (Cons a g)
  have "first (map (\<lambda>a. (a, rec_of h a)) g) None = head_of g" by (cases g) auto
  then have c: "h a = Some \<lparr>ndata = rec_of h a, nprev = pr, nnext = head_of g\<rparr>" "linked h (Some a) (map (\<lambda>a. (a, rec_of h a)) g) None"
    using Cons.prems by simp_all
  show ?case using Cons.IH [OF c(2)] c(1) by (simp add: rows_of.simps [of h "Some a"])
qed

lemma rows_of_chain: "chain h g \<Longrightarrow> rows_of h (head_of g) = Some (map (rec_of h) g)"
  using rows_of_linked [of h None g] by (simp add: chain_dlist dlist_def)

text \<open>Recycling other groups can change the reference counts of a row only.\<close>

definition plain :: "row_record \<Rightarrow> row_record" where
  "plain r = r\<lparr>ref_count := 0\<rparr>"

lemma keeps_plain: "keeps h h' A \<Longrightarrow> set g \<inter> A = {} \<Longrightarrow> map (plain \<circ> rec_of h') g = map (plain \<circ> rec_of h) g"
proof (rule map_cong [OF refl])
  fix x assume "keeps h h' A" "set g \<inter> A = {}" "x \<in> set g"
  then obtain n where "rec_of h' x = (rec_of h x)\<lparr>ref_count := n\<rparr>" by (auto simp: keeps_def)
  then show "(plain \<circ> rec_of h') x = (plain \<circ> rec_of h) x" by (simp add: plain_def)
qed

lemma books_perm:
  assumes "mset live = mset live'"
  shows "books_ok recs roots s live W = books_ok recs roots s live' W"
proof -
  have m: "mset (concat live) = mset (concat live')" using assms by (metis mset_concat mset_map sum_mset_sum_list)
  have "set live = set live'" "set (concat live) = set (concat live')" "distinct (concat live) = distinct (concat live')"
    using assms m by (metis set_mset_mset, metis set_mset_mset, metis mset_eq_imp_distinct_iff)
  then show ?thesis by (simp add: books_ok_def)
qed

section \<open>Fifos of a plan\<close>

text \<open>Where a process is in an input: the slot it is at and the row groups from there to the end.\<close>

definition at_input :: "nat \<Rightarrow> nat \<Rightarrow> nat list list \<Rightarrow> ('f, 're, 'd) pstate \<Rightarrow> bool" where
  "at_input i it gs s \<longleftrightarrow> i < length (pfifos s) \<and> fifo_ok (pfifos s ! i) \<and> iter_head (pfifos s ! i) = head (pfifos s ! i) \<and>
     fifo_list (pfifos s ! i) = map head_of gs \<and> it = unat (tail (pfifos s ! i)) \<and> [] \<notin> set gs"

definition with_fifo :: "nat \<Rightarrow> nat fifo \<Rightarrow> ('f, 're, 'd) pstate \<Rightarrow> ('f, 're, 'd) pstate" where
  "with_fifo i f s = s\<lparr>pfifos := (pfifos s)[i := f]\<rparr>"

lemma with_fifo_simps [simp]:
  "pheap (with_fifo i f s) = pheap s" "pstore (with_fifo i f s) = pstore s" "pself (with_fifo i f s) = pself s"
  "pdata (with_fifo i f s) = pdata s" "length (pfifos (with_fifo i f s)) = length (pfifos s)"
  "i < length (pfifos s) \<Longrightarrow> pfifos (with_fifo i f s) ! i = f"
  "j \<noteq> i \<Longrightarrow> pfifos (with_fifo i f s) ! j = pfifos s ! j"
  by (simp_all add: with_fifo_def)

lemma with_fifo_same: "with_fifo i (pfifos s ! i) s = s"
  by (cases s) (simp add: with_fifo_def)

lemma fifo_do_eq: "fifo_do i f s = (if i < length (pfifos s) then (case f (pfifos s ! i) of None \<Rightarrow> (Crash, s)
    | Some (a, g) \<Rightarrow> (Good a, with_fifo i g s)) else (Crash, s))"
  by (simp add: fifo_do_def step_def with_fifo_def split: option.splits)

lemma fifo_list_cong: "buf f = buf g \<Longrightarrow> head f = head g \<Longrightarrow> tail f = tail g \<Longrightarrow>
    fifo_ok f = fifo_ok g \<and> fifo_list f = fifo_list g \<and> fifo_len f = fifo_len g"
  by (simp add: fifo_ok_def fifo_list_def fifo_len_def)

lemma begin_of_spec:
  assumes "i < length (pfifos s)" "fifo_ok (pfifos s ! i)" "fifo_list (pfifos s ! i) = map head_of gs" "[] \<notin> set gs"
  shows "\<exists>it f. begin_of i s = (Good it, with_fifo i f s) \<and> at_input i it gs (with_fifo i f s)"
proof -
  let ?f = "pfifos s ! i"
  let ?g = "snd (fifo_begin ?f)"
  have g: "buf ?g = buf ?f" "head ?g = head ?f" "tail ?g = tail ?f" "iter_head ?g = head ?f"
    using assms(2) by (simp_all add: fifo_begin_def fifo_ok_def)
  then have "fifo_ok ?g" "fifo_list ?g = map head_of gs" using fifo_list_cong [of ?g ?f] assms(2,3) by auto
  then have "at_input i (fst (fifo_begin ?f)) gs (with_fifo i ?g s)"
    using g assms(1,4) by (simp add: at_input_def fifo_begin_def)
  then show ?thesis using assms(1) by (auto simp: begin_of_def fifo_do_eq split: prod.splits)
qed


lemma at_input_slot:
  assumes "at_input i it (g # gs) s"
  shows "slot_of_fifo i it s = (Good (hd g), s)" "it \<noteq> fifo_end (pfifos s ! i)" "g \<noteq> []"
proof -
  let ?f = "pfifos s ! i"
  have f: "i < length (pfifos s)" "fifo_ok ?f" "fifo_list ?f = head_of g # map head_of gs" "it = unat (tail ?f)" "g \<noteq> []"
    "iter_head ?f = head ?f" using assms by (auto simp: at_input_def)
  obtain slot f' where g: "fifo_get ?f = (slot, f')" by force
  have "vec_at (buf ?f) it = Some (head_of g)" using fifo_get_spec [OF f(2) _ g] g f(3,4) by (simp add: fifo_get_def)
  then show "slot_of_fifo i it s = (Good (hd g), s)"
    using f(1,5) by (cases g) (simp_all add: slot_of_fifo_def fifo_do_eq with_fifo_same)
  have "fifo_len ?f = Suc (length gs)" using f(3) by (metis fifo_list_length length_Cons length_map)
  then show "it \<noteq> fifo_end ?f" using fifo_is_empty_len [OF f(2)] f(4,6)
    by (auto simp: fifo_is_empty_def fifo_end_def word_unat_eq_iff)
  show "g \<noteq> []" by (rule f(5))
qed

lemma at_input_end:
  assumes "at_input i it [] s"
  shows "it = fifo_end (pfifos s ! i)"
proof -
  have "fifo_len (pfifos s ! i) = 0" using assms by (metis at_input_def fifo_list_length length_0_conv list.map(1))
  moreover have "fifo_ok (pfifos s ! i)" using assms by (simp add: at_input_def)
  ultimately have "head (pfifos s ! i) = tail (pfifos s ! i)" using fifo_is_empty_len by (auto simp: fifo_is_empty_def)
  then show ?thesis using assms by (simp add: at_input_def fifo_end_def)
qed

lemma iter_of_spec:
  assumes "at_input i it (g # gs) s"
  shows "\<exists>it' f. iter_of i s = (Good it', with_fifo i f s) \<and> at_input i it' gs (with_fifo i f s)"
proof -
  let ?f = "pfifos s ! i"
  have f: "i < length (pfifos s)" "fifo_ok ?f" "fifo_list ?f = head_of g # map head_of gs" "[] \<notin> set gs" "iter_head ?f = head ?f"
    using assms by (auto simp: at_input_def)
  let ?g = "snd (fifo_iter ?f)"
  obtain slot f' where g: "fifo_get ?f = (slot, f')" by force
  have c: "buf ?g = buf f'" "head ?g = head f'" "tail ?g = tail f'" "iter_head ?g = head ?g"
    using g f(5) by (auto simp: fifo_get_def fifo_iter_def Let_def)
  have "fifo_ok f'" "fifo_list f' = map head_of gs" using fifo_get_spec [OF f(2) _ g] f(3) by simp_all
  then have "fifo_ok ?g" "fifo_list ?g = map head_of gs" using fifo_list_cong [OF c(1-3)] by simp_all
  then have "at_input i (fst (fifo_iter ?f)) gs (with_fifo i ?g s)"
    using c(4) f(1,4) by (simp add: at_input_def) (simp add: fifo_iter_def Let_def)
  then show ?thesis using f(1) by (auto simp: iter_of_def fifo_do_eq split: prod.splits)
qed

lemma at_input_cong:
  "pfifos s' ! i = pfifos s ! i \<Longrightarrow> length (pfifos s') = length (pfifos s) \<Longrightarrow> at_input i it gs s' = at_input i it gs s"
  by (simp add: at_input_def)

text \<open>An output that may be NULL: it has room for every process that writes to it.\<close>

definition out_ok :: "nat option \<Rightarrow> ('f, 're, 'd) pstate \<Rightarrow> bool" where
  "out_ok p s \<longleftrightarrow> (\<forall>i. p = Some i \<longrightarrow> i < length (pfifos s) \<and> fifo_ok (pfifos s ! i) \<and> 0 < unat (input_count (pfifos s ! i)) \<and>
     fifo_len (pfifos s ! i) + unat (input_count (pfifos s ! i)) \<le> vsize (buf (pfifos s ! i)))"

definition blocked :: "nat option \<Rightarrow> ('f, 're, 'd) pstate \<Rightarrow> bool" where
  "blocked p s \<longleftrightarrow> (\<exists>i. p = Some i \<and> fifo_receivable (pfifos s ! i) = 0)"

definition put_out :: "nat option \<Rightarrow> ('f, 're, 'd) pstate \<Rightarrow> nat option list" where
  "put_out p s = (case p of None \<Rightarrow> [] | Some i \<Rightarrow> fifo_list (pfifos s ! i))"

lemma receivable_opt:
  assumes "out_ok p s"
  shows "\<exists>n. fifo_opt p 1 fifo_receivable s = (Good n, s) \<and> (n = 0 \<longleftrightarrow> blocked p s)"
  using assms by (cases p) (auto simp: fifo_opt_def fifo_see_def blocked_def out_ok_def outA_def)

lemma blocked_iff:
  assumes "out_ok (Some i) s"
  shows "blocked (Some i) s \<longleftrightarrow> fifo_len (pfifos s ! i) + unat (input_count (pfifos s ! i)) = vsize (buf (pfifos s ! i))"
proof -
  let ?f = "pfifos s ! i"
  have "fifo_ok ?f" "fifo_len ?f + unat (input_count ?f) \<le> vsize (buf ?f)" using assms by (auto simp: out_ok_def)
  note fifo_receivable_unat [OF this]
  moreover have "blocked (Some i) s \<longleftrightarrow> unat (fifo_receivable ?f) = 0" by (simp add: blocked_def unat_eq_0)
  ultimately show ?thesis using assms by (auto simp: out_ok_def)
qed

lemma add_rg_spec:
  assumes "out_ok (Some i) s" "\<not> blocked (Some i) s"
  shows "\<exists>f. add_rg (Some i) a s = (Good (), with_fifo i f s) \<and> out_ok (Some i) (with_fifo i f s) \<and>
    fifo_list f = fifo_list (pfifos s ! i) @ [Some a]"
proof -
  let ?f = "pfifos s ! i"
  have f: "i < length (pfifos s)" "fifo_ok ?f" "0 < unat (input_count ?f)" "fifo_len ?f + unat (input_count ?f) \<le> vsize (buf ?f)"
    using assms(1) by (auto simp: out_ok_def)
  then have room: "fifo_len ?f + unat (input_count ?f) < vsize (buf ?f)" using blocked_iff [OF assms(1)] assms(2) by simp
  then have "fifo_len ?f + 1 < vsize (buf ?f)" using f(3) by simp
  from fifo_add_spec [OF f(2) this, of "Some a"] obtain g where g: "fifo_add ?f (Some a) = Some g" "fifo_ok g"
      "fifo_list g = fifo_list ?f @ [Some a]" "vsize (buf g) = vsize (buf ?f)" "input_count g = input_count ?f"
    by (auto simp: yields_exists)
  have "fifo_len g = fifo_len ?f + 1" using g(3) by (metis fifo_list_length length_append_singleton Suc_eq_plus1)
  then have "out_ok (Some i) (with_fifo i g s)" using f g room by (simp add: out_ok_def)
  then show ?thesis using f(1) g by (auto simp: add_rg_def fifo_do_eq)
qed

lemma out_cong:
  assumes "\<And>i. p = Some i \<Longrightarrow> pfifos s' ! i = pfifos s ! i" "length (pfifos s') = length (pfifos s)"
  shows "out_ok p s' = out_ok p s" "blocked p s' = blocked p s" "put_out p s' = put_out p s"
  using assms by (auto simp: out_ok_def blocked_def put_out_def split: option.splits)

lemma recycle_rg_spec:
  assumes "books_ok recs (rootvec_ref (pself s)) s (g # live) W" "g \<noteq> []"
  shows "\<exists>s' W'. recycle_rg (hd g) s = (Good (), s') \<and> books_ok recs (rootvec_ref (pself s)) s' live W' \<and>
    keeps (pheap s) (pheap s') (set g) \<and> same_but (set (rootvec_ref (pself s))) s s'"
proof -
  obtain s' W' where r: "fqlprocess_recycle (rootvec_ref (pself s)) s (head_of g) = Some s'"
      "books_ok recs (rootvec_ref (pself s)) s' live W'" "keeps (pheap s) (pheap s') (set g)"
    using recycle_books [OF assms(1)] by (auto simp: yields_exists)
  moreover have "head_of g = Some (hd g)" using assms(2) by (cases g) auto
  ultimately show ?thesis using recycle_same_but [OF r(1)] by (auto simp: recycle_rg_def step_def)
qed


section \<open>The loop over an input\<close>

definition signalled :: "nat \<Rightarrow> ('f, 're, 'd) pstate \<Rightarrow> ('f, 're, 'd) pstate" where
  "signalled i s = with_fifo i (fifo_update (pfifos s ! i)) s"

lemma signalled_simps [simp]:
  "pheap (signalled i s) = pheap s" "pstore (signalled i s) = pstore s" "pself (signalled i s) = pself s"
  "pdata (signalled i s) = pdata s" "length (pfifos (signalled i s)) = length (pfifos s)"
  "j \<noteq> i \<Longrightarrow> pfifos (signalled i s) ! j = pfifos s ! j"
  by (simp_all add: signalled_def)

lemma signalled_list [simp]: "fifo_list (pfifos (signalled i s) ! j) = fifo_list (pfifos s ! j)"
    "fifo_ok (pfifos (signalled i s) ! j) = fifo_ok (pfifos s ! j)"
  using fifo_list_cong [of "fifo_update (pfifos s ! i)" "pfifos s ! i"]
  by (cases "j = i"; cases "i < length (pfifos s)"; simp add: signalled_def fifo_update_def with_fifo_def list_update_beyond)+

lemma update_of_eq: "i < length (pfifos s) \<Longrightarrow> update_of i s = (Good (), signalled i s)"
  by (simp add: update_of_def fifo_do_eq signalled_def)

text \<open>
  \<open>J\<close> holds before every row group, for those that are left; \<open>Q\<close> when the loop breaks, \<open>R\<close> when
  the function returns from within.
\<close>

lemma row_loop_rule:
  assumes body: "\<And>it g gs s. J (g # gs) s \<Longrightarrow> at_input i it (g # gs) s \<Longrightarrow>
      \<exists>r s'. body it (hd g) s = (Good r, s') \<and> i < length (pfifos s') \<and>
        (case r of Next it' \<Rightarrow> J gs s' \<and> at_input i it' gs s' | Break ret' \<Rightarrow> Q ret' s' | Return ret' \<Rightarrow> R ret' s')"
  shows "J gs s \<Longrightarrow> at_input i it gs s \<Longrightarrow> length gs < fuel \<Longrightarrow>
    \<exists>ret' s'. row_loop fuel i it body ret s = (Good ret', s') \<and>
      ((ret' = ret \<and> (\<exists>s0 it0. s' = signalled i s0 \<and> J [] s0 \<and> at_input i it0 [] s0)) \<or>
       (\<exists>s0. s' = signalled i s0 \<and> Q ret' s0) \<or> R ret' s')"
proof (induction fuel arbitrary: gs s it)
  case (Suc fuel)
  have i: "i < length (pfifos s)" using Suc.prems(2) by (simp add: at_input_def)
  then have see: "fifo_see i fifo_end s = (Good (fifo_end (pfifos s ! i)), s)" by (simp add: fifo_see_def)
  show ?case
  proof (cases gs)
    case Nil
    have "it = fifo_end (pfifos s ! i)" using at_input_end Suc.prems(2) Nil by blast
    then have "row_loop (Suc fuel) i it body ret s = (Good ret, signalled i s)"
      using see update_of_eq [OF i] by (simp add: outA_def)
    then show ?thesis using Suc.prems(1,2) Nil by blast
  next
    case (Cons g gs')
    note at = Suc.prems(2) [unfolded Cons]
    note slot = at_input_slot [OF at]
    obtain r s1 where r: "body it (hd g) s = (Good r, s1)" "i < length (pfifos s1)"
        "case r of Next it' \<Rightarrow> J gs' s1 \<and> at_input i it' gs' s1 | Break ret' \<Rightarrow> Q ret' s1 | Return ret' \<Rightarrow> R ret' s1"
      using body [OF Suc.prems(1) [unfolded Cons] at] by blast
    have eq: "row_loop (Suc fuel) i it body ret s = (case r of Next it' \<Rightarrow> row_loop fuel i it' body ret
       | Break ret' \<Rightarrow> derefA (update_of i) (\<lambda>_. outA (Good ret')) | Return ret' \<Rightarrow> outA (Good ret')) s1"
      using see slot(1,2) r(1) by simp
    show ?thesis
    proof (cases r)
      case (Next it')
      then show ?thesis using eq r(3) Suc.IH [of gs' s1 it'] Suc.prems(3) Cons by simp
    next
      case (Break ret')
      then have "row_loop (Suc fuel) i it body ret s = (Good ret', signalled i s1)"
        using eq update_of_eq [OF r(2)] by (simp add: outA_def)
      then show ?thesis using r(3) Break by auto
    next
      case (Return ret')
      then have "row_loop (Suc fuel) i it body ret s = (Good ret', s1)" using eq by (simp add: outA_def)
      then show ?thesis using r(3) Return by auto
    qed
  qed
qed simp

lemma next_if_room_spec:
  assumes "at_input i it (g # gs) s" "\<forall>(p, ret) \<in> set outs. out_ok p s \<and> p \<noteq> Some i"
  shows "\<exists>r it' f. next_if_room i outs s = (Good r, with_fifo i f s) \<and> at_input i it' gs (with_fifo i f s) \<and>
    (case r of Next j \<Rightarrow> j = it' \<and> (\<forall>(p, ret) \<in> set outs. \<not> blocked p s)
     | Break ret \<Rightarrow> (\<exists>p. (p, ret) \<in> set outs \<and> blocked p s) | Return _ \<Rightarrow> False)"
proof -
  obtain it' f where f: "iter_of i s = (Good it', with_fifo i f s)" "at_input i it' gs (with_fifo i f s)"
    using iter_of_spec [OF assms(1)] by blast
  let ?s = "with_fifo i f s"
  let ?k = "\<lambda>(out, ret) k. derefA (fifo_opt out 1 fifo_receivable) (\<lambda>n. if n = 0 then outA (Good (Break ret)) else k)"
  have "\<exists>r. foldr ?k ps (outA (Good (Next it'))) ?s = (Good r, ?s) \<and>
      (case r of Next j \<Rightarrow> j = it' \<and> (\<forall>(p, ret) \<in> set ps. \<not> blocked p s)
       | Break ret \<Rightarrow> (\<exists>p. (p, ret) \<in> set ps \<and> blocked p s) | Return _ \<Rightarrow> False)"
    if "\<forall>(p, ret) \<in> set ps. out_ok p s \<and> p \<noteq> Some i" for ps
    using that
  proof (induction ps)
    case Nil
    then show ?case by (simp add: outA_def)
  next
    case (Cons q ps)
    obtain p ret where q: "q = (p, ret)" by force
    have "pfifos ?s ! j = pfifos s ! j" if "p = Some j" for j using Cons.prems q that by auto
    note c' = out_cong [of p ?s s, OF this]
    have c: "out_ok p ?s" "blocked p ?s = blocked p s" using c' Cons.prems q by auto
    obtain n where n: "fifo_opt p 1 fifo_receivable ?s = (Good n, ?s)" "n = 0 \<longleftrightarrow> blocked p s"
      using receivable_opt [OF c(1)] c(2) by auto
    show ?case
    proof (cases "blocked p s")
      case True
      then show ?thesis using n q by (auto simp: outA_def)
    next
      case False
      obtain r where r: "foldr ?k ps (outA (Good (Next it'))) ?s = (Good r, ?s)"
        "case r of Next j \<Rightarrow> j = it' \<and> (\<forall>(p, ret) \<in> set ps. \<not> blocked p s)
         | Break ret \<Rightarrow> (\<exists>p. (p, ret) \<in> set ps \<and> blocked p s) | Return _ \<Rightarrow> False"
        using Cons by auto
      have "foldr ?k (q # ps) (outA (Good (Next it'))) ?s = (Good r, ?s)" using n False r(1) q by simp
      then show ?thesis using r(2) False q by (auto split: loop.splits)
    qed
  qed
  from this [OF assms(2)] obtain r where r: "foldr ?k outs (outA (Good (Next it'))) ?s = (Good r, ?s)"
    "case r of Next j \<Rightarrow> j = it' \<and> (\<forall>(p, ret) \<in> set outs. \<not> blocked p s)
       | Break ret \<Rightarrow> (\<exists>p. (p, ret) \<in> set outs \<and> blocked p s) | Return _ \<Rightarrow> False" by blast
  have "next_if_room i outs s = (Good r, ?s)" using f(1) r(1) by (simp add: next_if_room_def)
  then show ?thesis using f(2) r(2) by blast
qed


section \<open>Conditions\<close>

lemma books_frame:
  assumes "books_ok recs roots s live W" "pheap s' = pheap s" "length (pfifos s) \<le> length (pfifos s')"
    "\<forall>j \<in> set roots. pfifos s' ! j = pfifos s ! j"
  shows "books_ok recs roots s' live W"
proof -
  have r: "root_list roots s' = root_list roots s" using assms(4) by (simp add: root_list_def cong: map_cong)
  have "\<forall>k < length roots. pfifos s' ! (roots ! k) = pfifos s ! (roots ! k)" using assms(4) by simp
  moreover have "roots_ok recs roots s" using assms(1) unfolding books_ok_def places_def by blast
  ultimately have ro: "roots_ok recs roots s'"
    using assms(2,3) by (auto simp: roots_ok_def assigned_def)
  have rr: "rooted roots s' = rooted roots s" by (simp add: rooted_def r)
  show ?thesis using assms(1) ro unfolding books_ok_def places_def assms(2) r rr
    by (elim conjE) (intro conjI; assumption)
qed

lemma books_cong:
  assumes "pheap s' = pheap s" "length (pfifos s') = length (pfifos s)" "\<forall>j \<in> set roots. pfifos s' ! j = pfifos s ! j"
  shows "books_ok recs roots s' live W = books_ok recs roots s live W"
  using books_frame [of recs roots s live W s'] books_frame [of recs roots s' live W s] assms by auto

lemma drop_ConsD:
  assumes "drop n gs = g # gs'"
  shows "n < length gs" "drop (Suc n) gs = gs'" "take (Suc n) gs = take n gs @ [g]"
proof -
  show n: "n < length gs" using assms by (metis drop_all list.distinct(1) not_less)
  then have g: "gs ! n = g" "drop (Suc n) gs = gs'" using assms by (simp_all add: Cons_nth_drop_Suc [symmetric])
  then show "drop (Suc n) gs = gs'" "take (Suc n) gs = take n gs @ [g]" using n by (simp_all add: take_Suc_conv_app_nth)
qed

text \<open>The row groups that go on, with the outputs \<open>t\<close> and \<open>f\<close> for those that do and do not meet the condition.\<close>

definition goes_on :: "('g \<Rightarrow> bool) \<Rightarrow> 'o option \<Rightarrow> 'o option \<Rightarrow> 'g \<Rightarrow> bool" where
  "goes_on P t f g \<longleftrightarrow> (if P g then t \<noteq> None else f \<noteq> None)"

definition put_on :: "'o option \<Rightarrow> nat list list \<Rightarrow> nat option list" where
  "put_on p gs = (if p = None then [] else map head_of gs)"

text \<open>What holds of the state after the first \<open>n\<close> row groups of \<open>gs\<close>.\<close>

definition logic_done :: "nat set \<Rightarrow> (nat list \<Rightarrow> bool) \<Rightarrow> nat list list \<Rightarrow> nat list list \<Rightarrow> (('f, 're) store \<Rightarrow> bool) \<Rightarrow>
    ('f, 're, 'd) pstate \<Rightarrow> nat \<Rightarrow> ('f, 're, 'd) pstate \<Rightarrow> bool" where
  "logic_done recs P gs live I s n s' \<longleftrightarrow> (let p = pself s; t = fifo_out1 p; f = fifo_out0 p; kept = goes_on P t f in
     pself s' = p \<and> pdata s' = pdata s \<and> I (pstore s') \<and>
     fifo_list (pfifos s' ! fifo_in0 p) = map head_of (drop n gs) \<and>
     put_out t s' = put_out t s @ put_on t (filter P (take n gs)) \<and>
     put_out f s' = put_out f s @ put_on f (filter (\<lambda>g. \<not> P g) (take n gs)) \<and>
     (\<exists>W. books_ok recs (rootvec_ref p) s' (drop n gs @ filter kept (take n gs) @ live) W) \<and>
     keeps (pheap s) (pheap s') (set (concat (filter (\<lambda>g. \<not> kept g) (take n gs)))))"

text \<open>The fifos of the process are different ones, and none of them is a root.\<close>

definition wired :: "process \<Rightarrow> bool" where
  "wired p \<longleftrightarrow> distinct ([fifo_in0 p] @ map the (filter (\<lambda>q. q \<noteq> None) [fifo_out0 p, fifo_out1 p])) \<and>
     ({fifo_in0 p} \<union> set_option (fifo_out0 p) \<union> set_option (fifo_out1 p)) \<inter> set (rootvec_ref p) = {}"

lemma wired_D:
  assumes "wired p"
  shows "fifo_out0 p \<noteq> Some (fifo_in0 p)" "fifo_out1 p \<noteq> Some (fifo_in0 p)" "fifo_out0 p = Some i \<Longrightarrow> fifo_out1 p \<noteq> Some i"
    "fifo_in0 p \<notin> set (rootvec_ref p)" "fifo_out0 p = Some i \<Longrightarrow> i \<notin> set (rootvec_ref p)"
    "fifo_out1 p = Some i \<Longrightarrow> i \<notin> set (rootvec_ref p)"
  using assms by (auto simp: wired_def split: if_splits)


lemma with_rows_chain:
  assumes "chain (pheap s) g" "g \<noteq> []"
  shows "with_rows (hd g) k s = k (map (rec_of (pheap s)) g) s"
  using rows_of_chain [OF assms(1)] assms(2) by (cases g) (simp_all add: with_rows_def)

lemma on_pstore_evaluates:
  assumes "evaluates I m b" "I (pstore s)"
  shows "\<exists>st. on_pstore m s = (Good b, s\<lparr>pstore := st\<rparr>) \<and> I st"
proof -
  obtain st where "m (pstore s) = (Good b, st)" "I st" using assms unfolding evaluates_def by blast
  then show ?thesis by (auto simp: on_pstore_def)
qed

lemma dist_step:
  fixes s :: "('f, 're, 'd) pstate"
  assumes D: "logic_done recs P gs live I s0 n s" and n: "drop n gs = g # gs'" and g: "g \<noteq> []"
    and p: "pself s0 = p" "wired p" "fifo_in0 p < length (pfifos s)"
    and o: "out_ok (fifo_out1 p) s" "out_ok (fifo_out0 p) s" "\<not> blocked (fifo_out1 p) s" "\<not> blocked (fifo_out0 p) s"
  shows "\<exists>s'. (if P g \<and> fifo_out1 p \<noteq> None then add_rg (fifo_out1 p) (hd g)
       else if \<not> P g \<and> fifo_out0 p \<noteq> None then add_rg (fifo_out0 p) (hd g) else recycle_rg (hd g)) s = (Good (), s') \<and>
    length (pfifos s') = length (pfifos s) \<and> pfifos s' ! fifo_in0 p = pfifos s ! fifo_in0 p \<and>
    out_ok (fifo_out1 p) s' \<and> out_ok (fifo_out0 p) s' \<and>
    (\<forall>s''. pheap s'' = pheap s' \<and> pself s'' = pself s' \<and> pdata s'' = pdata s' \<and> pstore s'' = pstore s' \<and>
       length (pfifos s'') = length (pfifos s') \<and> (\<forall>j. j \<noteq> fifo_in0 p \<longrightarrow> pfifos s'' ! j = pfifos s' ! j) \<and>
       fifo_list (pfifos s'' ! fifo_in0 p) = map head_of gs' \<longrightarrow> logic_done recs P gs live I s0 (Suc n) s'')"
proof -
  define t where "t = fifo_out1 p" define f where "f = fifo_out0 p" define roots where "roots = rootvec_ref p"
  define kept where "kept = goes_on P t f"
  note nn = drop_ConsD [OF n]
  obtain W where D': "pself s = p" "pdata s = pdata s0" "I (pstore s)"
      "put_out t s = put_out t s0 @ put_on t (filter P (take n gs))" "put_out f s = put_out f s0 @ put_on f (filter (\<lambda>g. \<not> P g) (take n gs))"
      "books_ok recs roots s (drop n gs @ filter kept (take n gs) @ live) W"
      "keeps (pheap s0) (pheap s) (set (concat (filter (\<lambda>g. \<not> kept g) (take n gs))))"
    using D p(1) by (auto simp: logic_done_def Let_def t_def f_def roots_def kept_def)
  have B: "books_ok recs roots s (g # gs' @ filter kept (take n gs) @ live) W" using D'(6) n by simp
  have hg: "head_of g = Some (hd g)" using g by (cases g) auto
  note w = wired_D [OF p(2), folded t_def f_def roots_def]
  show ?thesis
  proof (cases "kept g")
    case True
    define o' where "o' = (if P g then t else f)"
    obtain i where i: "o' = Some i" using True by (auto simp: kept_def goes_on_def o'_def split: if_splits)
    have oo: "out_ok (Some i) s" "\<not> blocked (Some i) s" using o i by (auto simp: o'_def t_def f_def split: if_splits)
    obtain q where q: "add_rg (Some i) (hd g) s = (Good (), with_fifo i q s)" "out_ok (Some i) (with_fifo i q s)"
        "fifo_list q = fifo_list (pfifos s ! i) @ [Some (hd g)]" using add_rg_spec [OF oo] by blast
    let ?s = "with_fifo i q s"
    have il: "i < length (pfifos s)" using oo(1) by (simp add: out_ok_def)
    have ii: "i \<noteq> fifo_in0 p" "i \<notin> set roots" using w i by (auto simp: o'_def split: if_splits)
    have other: "out_ok r ?s" if "out_ok r s" for r
    proof (cases "r = Some i")
      case False
      have "pfifos ?s ! j = pfifos s ! j" if "r = Some j" for j using that False by auto
      from out_cong(1) [of r ?s s, OF this] show ?thesis using that by simp
    qed (use q(2) in simp)
    have oks: "out_ok t ?s" "out_ok f ?s" using o other [of t] other [of f] by (auto simp: t_def f_def)
    have act: "(if P g \<and> fifo_out1 p \<noteq> None then add_rg (fifo_out1 p) (hd g)
       else if \<not> P g \<and> fifo_out0 p \<noteq> None then add_rg (fifo_out0 p) (hd g) else recycle_rg (hd g)) s = (Good (), ?s)"
      using i q(1) by (auto simp: o'_def t_def f_def split: if_splits)
    have fin: "logic_done recs P gs live I s0 (Suc n) s''"
      if e: "pheap s'' = pheap ?s" "pself s'' = pself ?s" "pdata s'' = pdata ?s" "pstore s'' = pstore ?s"
        "length (pfifos s'') = length (pfifos ?s)" "\<forall>j. j \<noteq> fifo_in0 p \<longrightarrow> pfifos s'' ! j = pfifos ?s ! j"
        "fifo_list (pfifos s'' ! fifo_in0 p) = map head_of gs'" for s'' :: "('f, 're, 'd) pstate"
    proof -
      have "books_ok recs roots s'' (g # gs' @ filter kept (take n gs) @ live) W"
      proof (rule iffD2 [OF books_cong B])
        show "\<forall>j \<in> set roots. pfifos s'' ! j = pfifos s ! j" using e(6) w(4) ii by (metis with_fifo_simps(7))
      qed (use e in simp_all)
      then have B': "books_ok recs roots s'' (drop (Suc n) gs @ filter kept (take (Suc n) gs) @ live) W"
        by (rule iffD1 [OF books_perm, rotated]) (simp add: nn True)
      have at: "pfifos s'' ! j = (if j = i then q else pfifos s ! j)" if "t = Some j \<or> f = Some j" for j
        using e(6) that w(1,2) il by (metis with_fifo_simps(6,7))
      have st: "put_out t s'' = put_out t s @ put_on t (filter P [g])" "put_out f s'' = put_out f s @ put_on f (filter (\<lambda>g. \<not> P g) [g])"
        using i w(1-3) at q(3) hg True by (auto simp: o'_def put_out_def put_on_def split: option.splits if_splits)
      show ?thesis
        unfolding logic_done_def Let_def p(1)
        using st D' e B' by (auto simp: t_def [symmetric] f_def [symmetric] roots_def [symmetric] kept_def [symmetric] nn True put_on_def)
    qed
    then show ?thesis using act oks il ii(1) by (auto simp: t_def f_def)
  next
    case False
    obtain s' W' where r: "recycle_rg (hd g) s = (Good (), s')" "books_ok recs roots s' (gs' @ filter kept (take n gs) @ live) W'"
        "keeps (pheap s) (pheap s') (set g)" "same_but (set roots) s s'"
      using recycle_rg_spec [of recs s g "gs' @ filter kept (take n gs) @ live" W] B D'(1) g unfolding roots_def by blast
    have act: "(if P g \<and> fifo_out1 p \<noteq> None then add_rg (fifo_out1 p) (hd g)
       else if \<not> P g \<and> fifo_out0 p \<noteq> None then add_rg (fifo_out0 p) (hd g) else recycle_rg (hd g)) s = (Good (), s')"
      using r(1) False by (auto simp: kept_def goes_on_def t_def f_def split: if_splits)
    have sb: "length (pfifos s') = length (pfifos s)" "\<And>j. j \<notin> set roots \<Longrightarrow> pfifos s' ! j = pfifos s ! j"
      using r(4) by (auto simp: same_but_def)
    have out: "pfifos s' ! j = pfifos s ! j" if "t = Some j \<or> f = Some j" for j using that w sb(2) by blast
    have oks: "out_ok t s'" "out_ok f s'" using out_cong(1) [of t s' s] out_cong(1) [of f s' s] out sb(1) o by (auto simp: t_def f_def)
    note st = same_but_state [OF r(4)]
    have k: "keeps (pheap s0) (pheap s') (set (concat (filter (\<lambda>g. \<not> kept g) (take (Suc n) gs))))"
      using keeps_trans [OF D'(7) r(3)] by (simp add: nn False)
    have fin: "logic_done recs P gs live I s0 (Suc n) s''"
      if e: "pheap s'' = pheap s'" "pself s'' = pself s'" "pdata s'' = pdata s'" "pstore s'' = pstore s'"
        "length (pfifos s'') = length (pfifos s')" "\<forall>j. j \<noteq> fifo_in0 p \<longrightarrow> pfifos s'' ! j = pfifos s' ! j"
        "fifo_list (pfifos s'' ! fifo_in0 p) = map head_of gs'" for s'' :: "('f, 're, 'd) pstate"
    proof -
      have "books_ok recs roots s'' (gs' @ filter kept (take n gs) @ live) W'"
      proof (rule iffD2 [OF books_cong r(2)])
        show "\<forall>j \<in> set roots. pfifos s'' ! j = pfifos s' ! j" using e(6) w(4) by metis
      qed (use e in simp_all)
      then have B': "\<exists>W. books_ok recs roots s'' (drop (Suc n) gs @ filter kept (take (Suc n) gs) @ live) W"
        by (auto simp: nn False)
      have ff: "pfifos s'' ! j = pfifos s ! j" if "t = Some j \<or> f = Some j" for j
        using that w(1,2) e(6) out by metis
      have sn: "put_out t s'' = put_out t s" "put_out f s'' = put_out f s"
        using ff by (auto simp: put_out_def split: option.splits)
      have z: "put_on t (filter P (take (Suc n) gs)) = put_on t (filter P (take n gs))"
          "put_on f (filter (\<lambda>g. \<not> P g) (take (Suc n) gs)) = put_on f (filter (\<lambda>g. \<not> P g) (take n gs))"
        using False by (auto simp: put_on_def nn kept_def goes_on_def split: if_splits)
      have "keeps (pheap s0) (pheap s'') (set (concat (filter (\<lambda>g. \<not> kept g) (take (Suc n) gs))))" using k e(1) by simp
      moreover have "pself s'' = p" "pdata s'' = pdata s0" "I (pstore s'')" using st D'(1-3) e(2-4) by simp_all
      moreover have "fifo_list (pfifos s'' ! fifo_in0 p) = map head_of (drop (Suc n) gs)" using e(7) nn(2) by simp
      moreover have "put_out t s'' = put_out t s0 @ put_on t (filter P (take (Suc n) gs))"
          "put_out f s'' = put_out f s0 @ put_on f (filter (\<lambda>g. \<not> P g) (take (Suc n) gs))"
        using sn z D'(4,5) by simp_all
      ultimately show ?thesis using B'
        unfolding logic_done_def Let_def p(1) t_def [symmetric] f_def [symmetric] roots_def [symmetric] kept_def [symmetric] by blast
    qed
    then show ?thesis using act oks sb w(4) by (auto simp: t_def f_def)
  qed
qed


lemma fifo_opt_see: "out_ok p s \<Longrightarrow> fifo_opt p True is_open s = (Good (case p of None \<Rightarrow> True | Some i \<Rightarrow> is_open (pfifos s ! i)), s)"
  by (auto simp: fifo_opt_def fifo_see_def outA_def out_ok_def split: option.splits)

text \<open>
  The loop of \<open>fql_logic\<close>: it stops behind the last row group, or as soon as an output is full.
\<close>

definition logic_body :: "('f, 're) ext \<Rightarrow> nat \<Rightarrow> logicgroup \<Rightarrow> nat option \<Rightarrow> process \<Rightarrow> nat \<Rightarrow> nat \<Rightarrow> ('f, 're, 'd, loop) pact" where
  "logic_body x depth lg jl p it rg =
     derefA (with_rows rg (\<lambda>rows. on_pstore (logicgroup_eval (logic_eval x (expr_getters x rows depth)) jl lg))) (\<lambda>result.
     derefA (if result \<and> fifo_out1 p \<noteq> None then add_rg (fifo_out1 p) rg
             else if \<not> result \<and> fifo_out0 p \<noteq> None then add_rg (fifo_out0 p) rg
             else recycle_rg rg) (\<lambda>_.
     if is_const_proc p then outA (Good (Break PROC_COMPLETE))
     else next_if_room (fifo_in0 p) [(fifo_out1 p, WAIT_ON_OUT1), (fifo_out0 p, WAIT_ON_OUT0)]))"

definition logic_stop :: "process \<Rightarrow> ('f, 're, 'd) pstate \<Rightarrow> proc_return \<Rightarrow> bool" where
  "logic_stop p s ret \<longleftrightarrow> ret = WAIT_ON_OUT1 \<and> blocked (fifo_out1 p) s \<or> ret = WAIT_ON_OUT0 \<and> blocked (fifo_out0 p) s"

lemma pstore_frame [simp]:
  "out_ok q (s\<lparr>pstore := st\<rparr>) = out_ok q s" "blocked q (s\<lparr>pstore := st\<rparr>) = blocked q s" "put_out q (s\<lparr>pstore := st\<rparr>) = put_out q s"
  "at_input i it gs (s\<lparr>pstore := st\<rparr>) = at_input i it gs s"
  by (simp_all add: out_ok_def blocked_def put_out_def at_input_def split: option.split)

lemma logic_done_pstore: "logic_done recs P gs live I s0 n s \<Longrightarrow> I st \<Longrightarrow> logic_done recs P gs live I s0 n (s\<lparr>pstore := st\<rparr>)"
  unfolding logic_done_def Let_def by (elim conjE exE) (intro conjI exI; (rule iffD2 [OF books_cong]; assumption?)?; simp)

lemma derefA_to: "m s = (Good a, s') \<Longrightarrow> k a s' = r \<Longrightarrow> derefA m k s = r"
  by simp

lemma logic_body_spec:
  fixes s s0 :: "('f, 're, 'd) pstate"
  assumes D: "logic_done recs P gs live I s0 n s" and n: "drop n gs = g # gs'" and at: "at_input (fifo_in0 p) it (g # gs') s"
    and p: "pself s0 = p" "wired p" "\<not> is_const_proc p" "distinct (concat gs)"
    and o: "out_ok (fifo_out1 p) s" "out_ok (fifo_out0 p) s" "\<not> blocked (fifo_out1 p) s" "\<not> blocked (fifo_out0 p) s"
    and P: "\<And>rows. map plain rows = map (plain \<circ> rec_of (pheap s0)) g \<Longrightarrow>
      evaluates I (logicgroup_eval (logic_eval x (expr_getters x rows depth)) jl lg) (P g)"
  shows "\<exists>r s'. logic_body x depth lg jl p it (hd g) s = (Good r, s') \<and> fifo_in0 p < length (pfifos s') \<and>
    (case r of Next it' \<Rightarrow> at_input (fifo_in0 p) it' gs' s' \<and> \<not> blocked (fifo_out1 p) s' \<and> \<not> blocked (fifo_out0 p) s'
     | Break ret \<Rightarrow> logic_stop p s' ret | Return ret \<Rightarrow> False) \<and>
    logic_done recs P gs live I s0 (Suc n) s' \<and> out_ok (fifo_out1 p) s' \<and> out_ok (fifo_out0 p) s'"
proof -
  let ?i = "fifo_in0 p" and ?A = "set (concat (filter (\<lambda>g. \<not> goes_on P (fifo_out1 p) (fifo_out0 p) g) (take n gs)))"
  have il: "?i < length (pfifos s)" and gg: "g \<noteq> []" "[] \<notin> set gs'" using at by (auto simp: at_input_def)
  have D': "I (pstore s)" "chain (pheap s) g" "keeps (pheap s0) (pheap s) ?A"
    using D n p(1) by (auto simp: logic_done_def Let_def books_ok_def)
  have "distinct (concat (take n gs @ g # gs'))" using p(4) n by (metis append_take_drop_id)
  then have "set g \<inter> set (concat (take n gs)) = {}" by auto
  then have "set g \<inter> ?A = {}" by auto
  then have "map plain (map (rec_of (pheap s)) g) = map (plain \<circ> rec_of (pheap s0)) g" using keeps_plain [OF D'(3)] by simp
  from on_pstore_evaluates [OF P [OF this] D'(1)] obtain st where st:
      "on_pstore (logicgroup_eval (logic_eval x (expr_getters x (map (rec_of (pheap s)) g) depth)) jl lg) s = (Good (P g), s\<lparr>pstore := st\<rparr>)"
      "I st" by blast
  let ?s = "s\<lparr>pstore := st\<rparr>"
  have o': "?i < length (pfifos ?s)" "out_ok (fifo_out1 p) ?s" "out_ok (fifo_out0 p) ?s" "\<not> blocked (fifo_out1 p) ?s" "\<not> blocked (fifo_out0 p) ?s"
    using il o by simp_all
  obtain s1 where s1: "(if P g \<and> fifo_out1 p \<noteq> None then add_rg (fifo_out1 p) (hd g)
       else if \<not> P g \<and> fifo_out0 p \<noteq> None then add_rg (fifo_out0 p) (hd g) else recycle_rg (hd g)) ?s = (Good (), s1)"
    "length (pfifos s1) = length (pfifos ?s)" "pfifos s1 ! ?i = pfifos ?s ! ?i" "out_ok (fifo_out1 p) s1" "out_ok (fifo_out0 p) s1"
    "\<And>s''. pheap s'' = pheap s1 \<and> pself s'' = pself s1 \<and> pdata s'' = pdata s1 \<and> pstore s'' = pstore s1 \<and>
       length (pfifos s'') = length (pfifos s1) \<and> (\<forall>j. j \<noteq> ?i \<longrightarrow> pfifos s'' ! j = pfifos s1 ! j) \<and>
       fifo_list (pfifos s'' ! ?i) = map head_of gs' \<Longrightarrow> logic_done recs P gs live I s0 (Suc n) s''"
    using dist_step [OF logic_done_pstore [OF D st(2)] n gg(1) p(1,2) o'] by blast
  have at1: "at_input ?i it (g # gs') s1" using at at_input_cong [of s1 ?i ?s] s1(2,3) by simp
  note w = wired_D [OF p(2)]
  have ob: "\<forall>(q, ret) \<in> set [(fifo_out1 p, WAIT_ON_OUT1), (fifo_out0 p, WAIT_ON_OUT0)]. out_ok q s1 \<and> q \<noteq> Some ?i"
    using s1(4,5) w(1,2) by simp
  obtain r it' f where r: "next_if_room ?i [(fifo_out1 p, WAIT_ON_OUT1), (fifo_out0 p, WAIT_ON_OUT0)] s1 = (Good r, with_fifo ?i f s1)"
    "at_input ?i it' gs' (with_fifo ?i f s1)"
    "case r of Next j \<Rightarrow> j = it' \<and> (\<forall>(q, ret) \<in> set [(fifo_out1 p, WAIT_ON_OUT1), (fifo_out0 p, WAIT_ON_OUT0)]. \<not> blocked q s1)
     | Break ret \<Rightarrow> (\<exists>q. (q, ret) \<in> set [(fifo_out1 p, WAIT_ON_OUT1), (fifo_out0 p, WAIT_ON_OUT0)] \<and> blocked q s1) | Return _ \<Rightarrow> False"
    using next_if_room_spec [OF at1 ob] by blast
  let ?s' = "with_fifo ?i f s1"
  have e1: "with_rows (hd g) (\<lambda>rows. on_pstore (logicgroup_eval (logic_eval x (expr_getters x rows depth)) jl lg)) s = (Good (P g), ?s)"
    unfolding with_rows_chain [OF D'(2) gg(1)] by (rule st(1))
  have eq: "logic_body x depth lg jl p it (hd g) s = (Good r, ?s')"
    unfolding logic_body_def by (rule derefA_to, rule e1, rule derefA_to, rule s1(1)) (use p(3) r(1) in simp)
  have fr: "out_ok q ?s' = out_ok q s1" "blocked q ?s' = blocked q s1" if "q \<noteq> Some ?i" for q
  proof -
    have "pfifos ?s' ! j = pfifos s1 ! j" if "q = Some j" for j using \<open>q \<noteq> Some ?i\<close> that by auto
    from out_cong [of q ?s' s1, OF this] show "out_ok q ?s' = out_ok q s1" "blocked q ?s' = blocked q s1" by auto
  qed
  have "fifo_list f = map head_of gs'" using r(2) by (auto simp: at_input_def)
  then have "logic_done recs P gs live I s0 (Suc n) ?s'" using il s1(2) by (intro s1(6)) simp
  moreover have "case r of Next it' \<Rightarrow> at_input ?i it' gs' ?s' \<and> \<not> blocked (fifo_out1 p) ?s' \<and> \<not> blocked (fifo_out0 p) ?s'
     | Break ret \<Rightarrow> logic_stop p ?s' ret | Return ret \<Rightarrow> False"
    using r(2,3) w(1,2) fr by (cases r) (auto simp: logic_stop_def)
  moreover have "?i < length (pfifos ?s')" using il s1(2) by simp
  ultimately show ?thesis using eq s1(4,5) fr w(1,2) by metis
qed

lemma fql_logic_spec:
  fixes s :: "('f, 're, 'd) pstate"
  assumes B: "books_ok recs (rootvec_ref p) s (gs @ live) W" and I: "I (pstore s)"
    and p: "pself s = p" "wired p" "\<not> is_const_proc p"
    and inp: "fifo_in0 p < length (pfifos s)" "fifo_ok (pfifos s ! fifo_in0 p)" "fifo_list (pfifos s ! fifo_in0 p) = map head_of gs"
      "[] \<notin> set gs" "gs \<noteq> []"
    and o: "out_ok (fifo_out1 p) s" "out_ok (fifo_out0 p) s" "\<not> blocked (fifo_out1 p) s" "\<not> blocked (fifo_out0 p) s"
      "\<forall>i. fifo_out1 p = Some i \<or> fifo_out0 p = Some i \<longrightarrow> is_open (pfifos s ! i)"
    and P: "\<And>g rows. g \<in> set gs \<Longrightarrow> map plain rows = map (plain \<circ> rec_of (pheap s)) g \<Longrightarrow>
      evaluates I (logicgroup_eval (logic_eval x (expr_getters x rows depth)) jl lg) (P g)"
    and fuel: "length gs < fuel"
  shows "\<exists>n ret s'. fql_logic x depth fuel lg jl s = (Good ret, s') \<and> 0 < n \<and> n \<le> length gs \<and>
    logic_done recs P gs live I s n s' \<and> (ret = WAIT_ON_IN0 \<and> n = length gs \<or> logic_stop p s' ret)"
proof -
  let ?i = "fifo_in0 p"
  obtain it f where bg: "begin_of ?i s = (Good it, with_fifo ?i f s)" "at_input ?i it gs (with_fifo ?i f s)"
    using begin_of_spec [OF inp(1-4)] by blast
  let ?s = "with_fifo ?i f s"
  note w = wired_D [OF p(2)]
  have fr: "out_ok q ?s = out_ok q s" "blocked q ?s = blocked q s" "put_out q ?s = put_out q s" if "q \<noteq> Some ?i" for q
  proof -
    have "pfifos ?s ! j = pfifos s ! j" if "q = Some j" for j using \<open>q \<noteq> Some ?i\<close> that by auto
    from out_cong [of q ?s s, OF this] show "out_ok q ?s = out_ok q s" "blocked q ?s = blocked q s" "put_out q ?s = put_out q s" by auto
  qed
  have "books_ok recs (rootvec_ref p) ?s (gs @ live) W"
  proof (rule iffD2 [OF books_cong B])
    show "\<forall>j \<in> set (rootvec_ref p). pfifos ?s ! j = pfifos s ! j" using w(4) by (metis with_fifo_simps(7))
  qed simp_all
  then have D0: "logic_done recs P gs live I s 0 ?s"
    using p(1) I bg(2) fr(3) w(1,2) by (auto simp: logic_done_def Let_def at_input_def put_on_def)
  define J where "J hs t \<longleftrightarrow> (\<exists>n \<le> length gs. hs = drop n gs \<and> logic_done recs P gs live I s n t \<and> out_ok (fifo_out1 p) t \<and>
     out_ok (fifo_out0 p) t \<and> \<not> blocked (fifo_out1 p) t \<and> \<not> blocked (fifo_out0 p) t)" for hs and t :: "('f, 're, 'd) pstate"
  define Q where "Q ret t \<longleftrightarrow> (\<exists>n \<le> length gs. 0 < n \<and> logic_done recs P gs live I s n t \<and> logic_stop p t ret)" for ret and t :: "('f, 're, 'd) pstate"
  have dg: "distinct (concat gs)" using books_D(2) [OF B] by simp
  have "\<exists>ret t. row_loop fuel ?i it (logic_body x depth lg jl p) WAIT_ON_IN0 ?s = (Good ret, t) \<and>
      ((ret = WAIT_ON_IN0 \<and> (\<exists>s0 it0. t = signalled ?i s0 \<and> J [] s0 \<and> at_input ?i it0 [] s0)) \<or>
       (\<exists>s0. t = signalled ?i s0 \<and> Q ret s0) \<or> False)"
  proof (rule row_loop_rule [where J = J and Q = Q and R = "\<lambda>_ _. False"])
    fix it g hs and t :: "('f, 're, 'd) pstate"
    assume J: "J (g # hs) t" and at: "at_input ?i it (g # hs) t"
    then obtain n where n: "drop n gs = g # hs" "logic_done recs P gs live I s n t" "out_ok (fifo_out1 p) t" "out_ok (fifo_out0 p) t"
        "\<not> blocked (fifo_out1 p) t" "\<not> blocked (fifo_out0 p) t" by (auto simp: J_def)
    have g: "g \<in> set gs" using n(1) in_set_dropD [of g n gs] by simp
    note dr = drop_ConsD [OF n(1)]
    obtain r t' where r: "logic_body x depth lg jl p it (hd g) t = (Good r, t')" "?i < length (pfifos t')"
      "case r of Next it' \<Rightarrow> at_input ?i it' hs t' \<and> \<not> blocked (fifo_out1 p) t' \<and> \<not> blocked (fifo_out0 p) t'
       | Break ret \<Rightarrow> logic_stop p t' ret | Return ret \<Rightarrow> False"
      "logic_done recs P gs live I s (Suc n) t'" "out_ok (fifo_out1 p) t'" "out_ok (fifo_out0 p) t'"
      using logic_body_spec [OF n(2,1) at p dg n(3-6) P [OF g]] by metis
    have "case r of Next it' \<Rightarrow> J hs t' \<and> at_input ?i it' hs t' | Break ret' \<Rightarrow> Q ret' t' | Return ret' \<Rightarrow> False"
    proof (cases r)
      case (Next it')
      then have "J hs t'" unfolding J_def using r(3-6) dr by (intro exI [of _ "Suc n"]) simp
      then show ?thesis using r(3) Next by simp
    next
      case (Break ret)
      then show ?thesis unfolding Q_def using r(3,4) dr(1) by (auto intro!: exI [of _ "Suc n"])
    qed (use r(3) in simp)
    then show "\<exists>r t'. logic_body x depth lg jl p it (hd g) t = (Good r, t') \<and> ?i < length (pfifos t') \<and>
        (case r of Next it' \<Rightarrow> J hs t' \<and> at_input ?i it' hs t' | Break ret' \<Rightarrow> Q ret' t' | Return ret' \<Rightarrow> False)"
      using r(1,2) by blast
  qed (use D0 fr w(1,2) o bg(2) fuel in \<open>auto simp: J_def\<close>)
  then obtain ret t s1 n where t: "row_loop fuel ?i it (logic_body x depth lg jl p) WAIT_ON_IN0 ?s = (Good ret, t)"
      "t = signalled ?i s1" "n \<le> length gs" "0 < n" "logic_done recs P gs live I s n s1"
      "ret = WAIT_ON_IN0 \<and> n = length gs \<or> logic_stop p s1 ret"
    using inp(5) by (fastforce simp: J_def Q_def)
  have sl: "put_out q t = put_out q s1" for q by (simp add: put_out_def t(2) split: option.split)
  have "\<exists>W. books_ok recs (rootvec_ref p) s1 (drop n gs @ filter (goes_on P (fifo_out1 p) (fifo_out0 p)) (take n gs) @ live) W"
    using t(5) p(1) by (simp add: logic_done_def Let_def)
  then have "\<exists>W. books_ok recs (rootvec_ref p) t (drop n gs @ filter (goes_on P (fifo_out1 p) (fifo_out0 p)) (take n gs) @ live) W"
    using books_cong [of t s1 "rootvec_ref p"] w(4) unfolding t(2) by (metis signalled_simps(1,5,6))
  then have D: "logic_done recs P gs live I s n t" using t(5) p(1) sl by (simp add: logic_done_def Let_def t(2))
  have "blocked q t = blocked q s1" if "q \<noteq> Some ?i" for q using that by (auto simp: blocked_def t(2))
  then have st: "ret = WAIT_ON_IN0 \<and> n = length gs \<or> logic_stop p t ret" using t(6) w(1,2) by (auto simp: logic_stop_def)
  have ne: "\<not> fifo_is_empty (pfifos s ! ?i)"
    using fifo_is_empty_len [OF inp(2)] inp(3,5) by (metis fifo_list_length length_0_conv map_is_Nil_conv)
  obtain n1 n0 where r: "fifo_opt (fifo_out1 p) 1 fifo_receivable s = (Good n1, s)" "n1 \<noteq> 0"
      "fifo_opt (fifo_out0 p) 1 fifo_receivable s = (Good n0, s)" "n0 \<noteq> 0"
    using receivable_opt [OF o(1)] receivable_opt [OF o(2)] o(3,4) by metis
  have op: "fifo_opt (fifo_out1 p) True is_open s = (Good True, s)" "fifo_opt (fifo_out0 p) True is_open s = (Good True, s)"
    using fifo_opt_see [OF o(1)] fifo_opt_see [OF o(2)] o(5) by (auto split: option.splits)
  have em: "fifo_see ?i (\<lambda>f. (fifo_is_empty f, is_open f)) s = (Good (False, is_open (pfifos s ! ?i)), s)"
    using inp(1) ne by (simp add: fifo_see_def)
  have "fql_logic x depth fuel lg jl s = row_loop fuel ?i it (logic_body x depth lg jl p) WAIT_ON_IN0 ?s"
    using bg(1) r op em p(1) by (simp add: fql_logic_def see_def Let_def logic_body_def [abs_def])
  then show ?thesis using t(1,3,4) D st by auto
qed


section \<open>A sample\<close>

text \<open>A process between the root fifo 0, its input 1 and its outputs 2 and 3, with rows without fields.\<close>

definition sample_fifo :: "nat list \<Rightarrow> nat fifo" where
  "sample_fifo xs = pfifos (sample_pipes xs []) ! 0"

definition sample_process :: process where
  "sample_process = \<lparr>fifo_in0 = 1, fifo_in1 = None, fifo_out0 = None, fifo_out1 = Some 2, fifo_aux_root = None, rootvec_ref = [0],
     inbuf = \<lparr>vdata = [None], vsize = 0, valloc = 1\<rparr>, inbuf_iter = 0, fifo_base_size = 8, out_src_count = 1, root_fifo = -1,
     max_recs_iter = 4, rows_affected = 0, is_const_proc = False, wait_for_in0 = True, in0_always_dead = False, is_enabled = True,
     rebuf = \<lparr>vdata = [None], vsize = 0, valloc = 1\<rparr>, rebuf_iter = 0, org_fifo_in0 = 1, killed_pipe = None, queued_results = [],
     queued_pos = 0, union_end_outs = [], wait_list = [], is_op_true = False, is_groupby = False\<rparr>"

definition sample_state :: "nat list \<Rightarrow> nat list \<Rightarrow> nat list \<Rightarrow> ('f, 're) store \<Rightarrow> process \<Rightarrow> 'd \<Rightarrow> ('f, 're, 'd) pstate" where
  "sample_state root inp out st p d = \<lparr>pheap = pheap (sample_pipes root (replicate (length (root @ inp @ out)) (None, 1))),
     pfifos = [sample_fifo root, sample_fifo inp, sample_fifo out], pstore = st, pself = p, pdata = d\<rparr>"

lemma sample_fifo_spec:
  "length xs < 8 \<Longrightarrow> fifo_ok (sample_fifo xs) \<and> fifo_list (sample_fifo xs) = map Some xs \<and> fifo_len (sample_fifo xs) = length xs \<and>
     vsize (buf (sample_fifo xs)) = 8"
  using sample_pipes_list [of xs "[]"] fifo_list_length [of "sample_fifo xs"] by (simp add: sample_fifo_def)

lemma sample_fifo_flags [simp]: "is_open (sample_fifo xs)" "input_count (sample_fifo xs) = 1"
  by (simp_all add: sample_fifo_def sample_pipes_def)

lemma sample_state_books:
  assumes "length (root @ inp @ out) < 8" "distinct (root @ inp @ out)" "set (root @ inp @ out) = {..<length (root @ inp @ out)}"
  shows "books_ok {..<length (root @ inp @ out)} [0] (sample_state root inp out st p d) (map (\<lambda>a. [a]) (inp @ out)) {}"
proof -
  define n where "n = length (root @ inp @ out)"
  define rs where "rs = replicate n (None :: nat option, 1 :: nat)"
  let ?s = "sample_state root inp out st p d"
  have lr: "length rs = n" by (simp add: rs_def)
  have r: "rs ! a = (None, 1)" if "a \<in> set root \<or> a \<in> set inp \<or> a \<in> set out" for a
    using assms(3) that unfolding rs_def n_def [symmetric] by (subst nth_replicate) auto
  have "books_ok {..<n} [0] (sample_pipes root rs) (map (\<lambda>a. [a]) (inp @ out)) (set [])"
    using sample_pipes_books [of rs root "inp @ out" "[]"] assms r by (simp add: lr n_def [symmetric] del: length_append)
  moreover have "pheap ?s = pheap (sample_pipes root rs)" "\<forall>j \<in> set [0]. pfifos ?s ! j = pfifos (sample_pipes root rs) ! j"
    by (simp_all add: sample_state_def rs_def n_def sample_fifo_def sample_pipes_def)
  moreover have "length (pfifos (sample_pipes root rs)) \<le> length (pfifos ?s)" by (simp add: sample_pipes_def sample_state_def)
  ultimately show ?thesis unfolding n_def by (auto intro: books_frame)
qed

end
