(* ===== verification/JoinSpec.thy ===== *)
theory JoinSpec
  imports Join HashmapMaps Sample ProcSpec
begin

text \<open>
  The hash join as the relation it computes: the offsets that its right side has recorded come
  back for the key of a left group, all of them and in order, one with every call.
\<close>

text \<open>The right side records the row groups \<open>rg\<close> under their keys.\<close>

fun hash_rows :: "(string \<times> nat) list \<Rightarrow> ('f, 're, 'rd table, unit) pact" where
  "hash_rows [] = outA (Good ())"
| "hash_rows ((key, rg) # rows) = derefA (hash_offset key rg) (\<lambda>_. hash_rows rows)"

text \<open>\<open>n\<close> calls of the left side for one left group, and what they return.\<close>

fun left_calls :: "('f, 're) ext \<Rightarrow> nat \<Rightarrow> nat \<Rightarrow> nat \<Rightarrow> ('f, 're, 'rd table, nat option list) pact" where
  "left_calls x depth left_rg 0 = outA (Good [])"
| "left_calls x depth left_rg (Suc n) = derefA (hash_join_left_side x depth left_rg) (\<lambda>m.
     derefA (left_calls x depth left_rg n) (\<lambda>ms. outA (Good (m # ms))))"

definition offset_of :: "'z pipes_scheme \<Rightarrow> nat \<Rightarrow> nat" where
  "offset_of s rg = (case pheap s rg of None \<Rightarrow> 0 | Some c \<Rightarrow> row_offset (ndata c))"

definition set_join :: "hashjoin \<Rightarrow> ('f, 're, 'rd table) pstate \<Rightarrow> ('f, 're, 'rd table) pstate" where
  "set_join hj s = s\<lparr>pdata := (pdata s)\<lparr>t_join := Some hj\<rparr>\<rparr>"

lemma set_join_sel [simp]:
  "t_join (pdata (set_join hj s)) = Some hj" "pheap (set_join hj s) = pheap s" "pstore (set_join hj s) = pstore s"
  "set_join hj' (set_join hj s) = set_join hj' s" "offset_of (set_join hj s) rg = offset_of s rg"
  by (simp_all add: set_join_def offset_of_def)

lemma put_join_step [simp]: "put_join hj s = (Good (), set_join hj s)"
  by (simp add: put_join_def set_join_def)

lemma hash_offset_step:
  "pheap s rg = Some c \<Longrightarrow> t_join (pdata s) = Some hj \<Longrightarrow> multimap_nset (hash_data hj) key (offset_of s rg) = Some m \<Longrightarrow>
   hash_offset key rg s = (Good (), set_join (hj\<lparr>hash_data := m\<rparr>) s)"
  by (simp add: hash_offset_def with_join_def offset_of_def)

lemma hash_rows_table:
  assumes "t_join (pdata s) = Some hj" "\<forall>(key, rg) \<in> set rows. pheap s rg \<noteq> None"
    and "put_all multimap_nset (hash_data hj) (map (\<lambda>(key, rg). (key, offset_of s rg)) rows) = Some m"
  shows "hash_rows rows s = (Good (), set_join (hj\<lparr>hash_data := m\<rparr>) s)"
  using assms
proof (induction rows arbitrary: s hj)
  case Nil
  then show ?case by (simp add: outA_def set_join_def)
next
  case (Cons row rows)
  obtain key rg where row: "row = (key, rg)" by force
  obtain c where c: "pheap s rg = Some c" using Cons.prems(2) row by auto
  obtain m1 where m1: "multimap_nset (hash_data hj) key (offset_of s rg) = Some m1"
      "put_all multimap_nset m1 (map (\<lambda>(key, rg). (key, offset_of s rg)) rows) = Some m"
    using Cons.prems(3) row by (auto simp: bind_eq_Some_conv)
  let ?s1 = "set_join (hj\<lparr>hash_data := m1\<rparr>) s"
  have "hash_rows rows ?s1 = (Good (), set_join ((hj\<lparr>hash_data := m1\<rparr>)\<lparr>hash_data := m\<rparr>) ?s1)"
    by (rule Cons.IH) (use Cons.prems(2) m1(2) in simp_all)
  then show ?case
    using hash_offset_step [OF c Cons.prems(1) m1(1)] by (simp add: row)
qed

text \<open>Reading a key changes nothing but the store of expressions.\<close>

lemma join_key_data:
  assumes "join_key x depth ty i rg hold s = (Good r, s')"
  shows "pdata s' = pdata s"
  using assms
  by (auto simp: join_key_def with_rows_def read_or_def on_pstore_def outA_def Let_def
      split: option.splits field_type.splits outcome.splits prod.splits if_splits)

lemma next_match_step:
  assumes "t_join (pdata s) = Some hj" "hj_recs hj = Some r" "vec_at (vals (hash_data hj)) r = Some (Some w)"
    and "vec_ok w" "vec_list w = map Some u" "hj_rec_idx hj < length u"
  shows "next_match s = (Good (Some (u ! hj_rec_idx hj)),
    set_join (hj\<lparr>hj_rec_idx := hj_rec_idx hj + 1, hj_recs := (if length u \<le> hj_rec_idx hj + 1 then None else Some r)\<rparr>) s)"
proof -
  have "vsize w = length u" using assms(4,5) vec_list_length [of w] by simp
  moreover from this have "vec_at w (hj_rec_idx hj) = Some (Some (u ! hj_rec_idx hj))"
    using vec_at_list [OF assms(4), of "hj_rec_idx hj"] assms(5,6) by simp
  ultimately show ?thesis
    using assms(1-3) by (simp add: next_match_def with_join_def outA_def)
qed

lemma left_calls_rest:
  assumes "t_join (pdata s) = Some hj" "vec_at (vals (hash_data hj)) r = Some (Some w)" "vec_ok w" "vec_list w = map Some u"
    and "hj_recs hj = (if length u \<le> hj_rec_idx hj then None else Some r)" "hj_rec_idx hj + n = length u"
  shows "\<exists>hj'. left_calls x depth left_rg n s = (Good (map Some (drop (hj_rec_idx hj) u)), set_join hj' s) \<and>
    hash_data hj' = hash_data hj \<and> hj_recs hj' = None \<and> hj_comp_type hj' = hj_comp_type hj \<and> left_expr hj' = left_expr hj"
  using assms
proof (induction n arbitrary: s hj)
  case 0
  then show ?case by (intro exI [of _ hj]) (simp add: outA_def set_join_def)
next
  case (Suc n)
  let ?hj = "hj\<lparr>hj_rec_idx := hj_rec_idx hj + 1, hj_recs := (if length u \<le> hj_rec_idx hj + 1 then None else Some r)\<rparr>"
  have i: "hj_rec_idx hj < length u" using Suc.prems(6) by simp
  then have recs: "hj_recs hj = Some r" using Suc.prems(5) by simp
  note nm = next_match_step [OF Suc.prems(1) recs Suc.prems(2-4) i]
  have call: "hash_join_left_side x depth left_rg s = (Good (Some (u ! hj_rec_idx hj)), set_join ?hj s)"
    using Suc.prems(1) recs nm by (simp add: hash_join_left_side_def with_join_def)
  have "\<exists>hj'. left_calls x depth left_rg n (set_join ?hj s) = (Good (map Some (drop (hj_rec_idx ?hj) u)), set_join hj' (set_join ?hj s)) \<and>
    hash_data hj' = hash_data ?hj \<and> hj_recs hj' = None \<and> hj_comp_type hj' = hj_comp_type ?hj \<and> left_expr hj' = left_expr ?hj"
    by (rule Suc.IH [of _ ?hj]) (use Suc.prems in simp_all)
  then obtain hj' where "left_calls x depth left_rg n (set_join ?hj s) = (Good (map Some (drop (hj_rec_idx ?hj) u)), set_join hj' s)"
      "hash_data hj' = hash_data hj" "hj_recs hj' = None"
      "hj_comp_type hj' = hj_comp_type hj" "left_expr hj' = left_expr hj" by auto
  then show ?case
    using call Cons_nth_drop_Suc [OF i, symmetric] by (intro exI [of _ hj']) (simp add: outA_def)
qed

text \<open>
  Between two left groups: the table gives, under every key, the offsets recorded in \<open>kvs\<close>, and
  no match is waiting.
\<close>

definition join_props :: "field_type \<Rightarrow> u32" where
  "join_props ty = (if ty = FIELD_STRING then 3 else 0)"

definition offsets_under :: "field_type \<Rightarrow> string \<Rightarrow> (string \<times> nat) list \<Rightarrow> nat list" where
  "offsets_under ty key kvs =
     map snd (filter (\<lambda>(k, _). if ty = FIELD_STRING then norm_key 3 k = norm_key 3 key else k = key) kvs)"

definition join_ready :: "field_type \<Rightarrow> nat \<Rightarrow> (string \<times> nat) list \<Rightarrow> ('f, 're, 'rd table) pstate \<Rightarrow> bool" where
  "join_ready ty e kvs s = (\<exists>hj. t_join (pdata s) = Some hj \<and> hj_recs hj = None \<and> hj_comp_type hj = ty \<and> left_expr hj = e \<and>
     mm_ok (hash_data hj) \<and> props (hash_data hj) = join_props ty \<and>
     (\<forall>k. mm_map (hash_data hj) k = (let u = under (norm_key (join_props ty)) k kvs in if u = [] then None else Some (map Some u))))"

lemma norm_key_bytes: "norm_key 0 k = k"
  by (simp add: norm_key_def conv_of_def trims_def)

lemma under_offsets: "under (norm_key (join_props ty)) (norm_key (join_props ty) key) kvs = offsets_under ty key kvs"
  by (auto simp: under_def offsets_under_def join_props_def norm_key_bytes intro!: arg_cong [of _ _ "map snd"] filter_cong)

lemma hash_rows_ready:
  assumes "t_join (pdata s) = Some (table_hash_join_init guess hj)" "hj_recs hj = None"
    and "\<forall>(key, rg) \<in> set rows. pheap s rg \<noteq> None"
  shows "\<exists>s1. hash_rows rows s = (Good (), s1) \<and> pheap s1 = pheap s \<and> pstore s1 = pstore s \<and>
    join_ready (hj_comp_type hj) (left_expr hj) (map (\<lambda>(key, rg). (key, offset_of s rg)) rows) s1"
proof -
  let ?ps = "join_props (hj_comp_type hj)"
  let ?kvs = "map (\<lambda>(key, rg). (key, offset_of s rg)) rows"
  let ?m0 = "multimap_construct (guess * 2) ?ps :: nat vec vec hashtab"
  have init: "hash_data (table_hash_join_init guess hj) = ?m0" by (simp add: table_hash_join_init_def join_props_def)
  note c = hashmap_construct_spec [of "guess * 2" ?ps, where 'v = "nat vec"]
  have ok: "mm_ok ?m0 \<and> props ?m0 = ?ps" and empty: "mm_map ?m0 = Map.empty"
    using c by (simp_all add: mm_ok_def multimap_construct_def mm_map_def fun_eq_iff)
  obtain m where m: "put_all multimap_nset ?m0 ?kvs = Some m" "mm_ok m" "props m = ?ps"
      "\<forall>k. mm_map m k = fold (\<lambda>x r. Some (mm_add r (Some x))) (under (norm_key ?ps) k ?kvs) (mm_map ?m0 k)"
    using mm.put_all_content [OF ok, of ?kvs] unfolding yields_exists by blast
  have "hash_rows rows s = (Good (), set_join ((table_hash_join_init guess hj)\<lparr>hash_data := m\<rparr>) s)"
    by (rule hash_rows_table [OF assms(1,3)]) (use init m(1) in simp)
  moreover have "join_ready (hj_comp_type hj) (left_expr hj) ?kvs (set_join ((table_hash_join_init guess hj)\<lparr>hash_data := m\<rparr>) s)"
    using m(2-4) assms(2) by (simp add: join_ready_def table_hash_join_init_def empty fold_collect Let_def)
  ultimately show ?thesis by (intro exI conjI) simp_all
qed

lemma left_calls_ready:
  assumes "join_ready ty e kvs s"
    and "join_key x depth ty e left_rg (0, f_zero (x_flt x)) s = (Good (key, hold), s1)"
  shows "\<exists>s2. left_calls x depth left_rg (max 1 (length (offsets_under ty key kvs))) s =
      (Good (if offsets_under ty key kvs = [] then [None] else map Some (offsets_under ty key kvs)), s2) \<and>
    join_ready ty e kvs s2"
proof -
  let ?u = "offsets_under ty key kvs"
  obtain hj where hj: "t_join (pdata s) = Some hj" "hj_recs hj = None" "hj_comp_type hj = ty" "left_expr hj = e"
      "mm_ok (hash_data hj)" "props (hash_data hj) = join_props ty"
      "\<forall>k. mm_map (hash_data hj) k = (let u = under (norm_key (join_props ty)) k kvs in if u = [] then None else Some (map Some u))"
    using assms(1) by (auto simp: join_ready_def)
  have j: "t_join (pdata s1) = Some hj" using join_key_data [OF assms(2)] hj(1) by simp
  have hm: "hm_ok (hash_data hj)" "\<forall>k v. hm_map (hash_data hj) k = Some v \<longrightarrow> vec_ok v" using hj(5) by (auto simp: mm_ok_def)
  obtain fd m where g: "hashmap_nget (hash_data hj) key = Some (fd, m)" "hm_ok m" "hm_map m = hm_map (hash_data hj)"
      "props m = join_props ty"
      "case fd of None \<Rightarrow> hm_map (hash_data hj) (norm_key (join_props ty) key) = None
        | Some r \<Rightarrow> \<exists>w. vec_at (vals m) r = Some (Some w) \<and> hm_map (hash_data hj) (norm_key (join_props ty) key) = Some w"
    using hashmap_nget_spec [OF hm(1), of key] unfolding yields_exists hj(6) by blast
  have mf: "map_option vec_list (hm_map (hash_data hj) (norm_key (join_props ty) key)) = (if ?u = [] then None else Some (map Some ?u))"
    using spec [OF hj(7), of "norm_key (join_props ty) key"] by (simp add: mm_map_def under_offsets Let_def)
  have ready: "join_ready ty e kvs (set_join hj' s1)" if "hj_recs hj' = None" "hash_data hj' = m" "hj_comp_type hj' = ty" "left_expr hj' = e" for hj'
    using that g hj(7) hm(2) by (simp add: join_ready_def mm_ok_def mm_map_def)
  show ?thesis
  proof (cases fd)
    case None
    then have "?u = []" using g(5) mf by (auto split: if_splits)
    moreover have "left_calls x depth left_rg 1 s = (Good [None], set_join (hj\<lparr>hash_data := m, hj_recs := None\<rparr>) s1)"
      using hj(1-4) assms(2) g(1) j None by (simp add: hash_join_left_side_def with_join_def step_def outA_def)
    ultimately show ?thesis using ready [of "hj\<lparr>hash_data := m, hj_recs := None\<rparr>"] hj(3,4) by auto
  next
    case (Some r)
    then obtain w where w: "vec_at (vals m) r = Some (Some w)" "hm_map (hash_data hj) (norm_key (join_props ty) key) = Some w"
      using g(5) by auto
    then have u: "?u \<noteq> []" "vec_ok w" "vec_list w = map Some ?u" using mf hm(2) by (auto split: if_splits)
    let ?hj = "hj\<lparr>hash_data := m, hj_recs := Some r, hj_rec_idx := 0\<rparr>"
    have "left_calls x depth left_rg (length ?u) s = left_calls x depth left_rg (length ?u) (set_join ?hj s1)"
      using u(1) hj(1-4) assms(2) g(1) j Some
      by (cases "length ?u") (simp_all add: hash_join_left_side_def with_join_def step_def derefA_def)
    moreover have "\<exists>hj'. left_calls x depth left_rg (length ?u) (set_join ?hj s1) = (Good (map Some (drop (hj_rec_idx ?hj) ?u)), set_join hj' (set_join ?hj s1)) \<and>
        hash_data hj' = hash_data ?hj \<and> hj_recs hj' = None \<and> hj_comp_type hj' = hj_comp_type ?hj \<and> left_expr hj' = left_expr ?hj"
      by (rule left_calls_rest [of _ ?hj r w]) (use u w in simp_all)
    ultimately show ?thesis using u(1) ready hj(3,4) by (auto simp: max_def Suc_le_eq)
  qed
qed

section \<open>An instance\<close>

text \<open>Two rows of the right side, hashed under the texts b and c, and a row B of the left side.\<close>

definition sample_hashjoin :: hashjoin where
  "sample_hashjoin = \<lparr>hash_data = multimap_construct 1 0, left_expr = 0, right_expr = 0, hj_recs = None, hj_state = SIDE_LEFT,
     hj_comp_type = FIELD_STRING, hj_rec_idx = 0\<rparr>"

definition sample_join_state :: "(int, unit, unit table) pstate" where
  "sample_join_state = \<lparr>pheap = [0 \<mapsto> \<lparr>ndata = sample_row ''B  '', nprev = None, nnext = None\<rparr>,
       1 \<mapsto> \<lparr>ndata = (sample_row ''b'')\<lparr>row_offset := 10\<rparr>, nprev = None, nnext = None\<rparr>,
       2 \<mapsto> \<lparr>ndata = (sample_row ''c'')\<lparr>row_offset := 20\<rparr>, nprev = None, nnext = None\<rparr>],
     pfifos = [], pstore = sample_store, pself = sample_process,
     pdata = \<lparr>t_reader = (), t_idx = 1, t_join_type = JOIN_INNER, t_join = Some (table_hash_join_init 8 sample_hashjoin)\<rparr>\<rparr>"

lemma sample_join_key:
  assumes "pstore s = sample_store" "pheap s = pheap sample_join_state"
  shows "join_key sample_ext 1 FIELD_STRING 0 0 (0, f_zero (x_flt sample_ext)) s = (Good (''B  '', (0, f_zero (x_flt sample_ext))), s)"
proof -
  have "get_stringview (expr_getters sample_ext [sample_row ''B  ''] 1) 0 sample_store = (Good (view_of ''B  ''), sample_store)"
    using sample_column [of "''B  ''"] by (simp add: evaluates_def)
  moreover have "rows_of (pheap s) (Some 0) = Some [sample_row ''B  '']"
    by (simp add: assms(2) sample_join_state_def rows_of.simps)
  ultimately show ?thesis
    using assms(1) by (simp add: join_key_def with_rows_def read_or_def on_pstore_def outA_def Let_def view_of_def) (simp add: sv_text_def)
qed

end
