(* ===== verification/GroupProc.thy ===== *)
theory GroupProc
  imports Process Group Orderby
begin

text \<open>
  The processes at the end of a query (lib/fqlprocesses.c): GROUP BY and DISTINCT over the groups
  of lib/group.c, SELECT, and ORDER BY.
\<close>

section \<open>Groups\<close>

definition on_pgroup :: "('f, 're, 'a) gact \<Rightarrow> ('f, 're, 'f group, 'a) pact" where
  "on_pgroup m s = (case m (pstore s, pdata s) of (r, st, g) \<Rightarrow> (r, s\<lparr>pstore := st, pdata := g\<rparr>))"

text \<open>\<open>group_dump_record\<close> into the record of a node; \<open>False\<close> when there is no group left.\<close>

definition dump_into :: "('f, 're) ext \<Rightarrow> nat \<Rightarrow> ('f, 're, 'f group, bool) pact" where
  "dump_into x a s = (case pheap s a of None \<Rightarrow> (Crash, s) | Some c \<Rightarrow>
     (case group_dump_record (x_flt x) (exprs (pstore s)) (pdata s) (ndata c) of
        None \<Rightarrow> (Crash, s)
      | Some (Inl _) \<Rightarrow> (Good False, s)
      | Some (Inr (g, rec)) \<Rightarrow> (case upd_rec (\<lambda>_. rec) a s of None \<Rightarrow> (Crash, s) | Some s1 \<Rightarrow> (Good True, s1\<lparr>pdata := g\<rparr>))))"

definition group_dump :: "('f, 're) ext \<Rightarrow> nat \<Rightarrow> nat \<Rightarrow> nat \<Rightarrow> ('f, 're, 'f group, proc_return) pact" where
  "group_dump x fuel in_fresh out =
     derefA (fifo_see out fifo_receivable) (\<lambda>n. if n = 0 then outA (Good WAIT_ON_OUT0) else
     derefA (begin_of in_fresh) (\<lambda>it.
       row_loop fuel in_fresh it (\<lambda>it rg.
         derefA (set_source rg 0) (\<lambda>_.
         derefA (dump_into x rg) (\<lambda>ok.
         if \<not> ok then outA (Good (Return PROC_COMPLETE)) else
         derefA (add_rg (Some out) rg) (\<lambda>_. next_if_room in_fresh [(Some out, WAIT_ON_OUT0)])))) WAIT_ON_IN0))"

definition record_group :: "('f, 're) ext \<Rightarrow> nat \<Rightarrow> nat \<Rightarrow> ('f, 're, 'f group, bool) pact" where
  "record_group x depth rg = with_rows rg (\<lambda>rows. on_pgroup (group_record x (expr_getters x rows depth)))"

definition fql_groupby :: "('f, 're) ext \<Rightarrow> nat \<Rightarrow> nat \<Rightarrow> ('f, 're, 'f group, proc_return) pact" where
  "fql_groupby x depth fuel = derefA (see pself) (\<lambda>p.
     case (fifo_out0 p, fifo_in1 p) of (Some out, Some in_fresh) \<Rightarrow>
       (let in_data = fifo_in0 p in
        derefA (fifo_see out is_open) (\<lambda>opened. if \<not> opened then outA (Good PROC_COMPLETE) else
        derefA (fifo_see in_data (\<lambda>f. \<not> is_open f \<and> fifo_is_empty f)) (\<lambda>finished.
        if finished then group_dump x fuel in_fresh out else
        derefA (begin_of in_data) (\<lambda>it.
          row_loop fuel in_data it (\<lambda>it rg.
            derefA (see (\<lambda>s. g_exprs (pdata s) = [])) (\<lambda>none.
            derefA (if none then outA (Good False) else record_group x depth rg) (\<lambda>_.
            if \<not> is_const_proc p then derefA (recycle_rg rg) (\<lambda>_. derefA (iter_of in_data) (\<lambda>it'. outA (Good (Next it'))))
            else
              derefA (take_rg (Some in_fresh)) (\<lambda>a.
              derefA (set_source a 0) (\<lambda>_.
              derefA (dump_into x a) (\<lambda>_.
              derefA (add_rg (Some out) a) (\<lambda>_. outA (Good (Break PROC_COMPLETE))))))))) WAIT_ON_IN0))))
     | _ \<Rightarrow> outA Crash)"

definition fql_distinct :: "('f, 're) ext \<Rightarrow> nat \<Rightarrow> nat \<Rightarrow> ('f, 're, 'f group, proc_return) pact" where
  "fql_distinct x depth fuel = derefA (see pself) (\<lambda>p.
     case fifo_out0 p of None \<Rightarrow> outA Crash | Some out \<Rightarrow>
       (let inp = fifo_in0 p in
        derefA (fifo_see out is_open) (\<lambda>opened. if \<not> opened then outA (Good PROC_COMPLETE) else
        derefA (fifo_see inp (\<lambda>f. (fifo_is_empty f, is_open f))) (\<lambda>(empty, opened).
        if empty then outA (Good (if wait_for_in0 p \<and> \<not> opened then PROC_COMPLETE else WAIT_ON_IN0)) else
        derefA (fifo_see out fifo_receivable) (\<lambda>n. if n = 0 then outA (Good WAIT_ON_OUT0) else
        derefA (begin_of inp) (\<lambda>it.
          row_loop fuel inp it (\<lambda>it rg.
            derefA (record_group x depth rg) (\<lambda>fresh.
            derefA (if fresh then add_rg (Some out) rg else recycle_rg rg) (\<lambda>_.
              next_if_room inp [(Some out, WAIT_ON_OUT0)]))) WAIT_ON_IN0))))))"

section \<open>SELECT\<close>

text \<open>
  \<open>select__\<close> is one of six functions; the one that writes a file calls the writer of the query,
  here an argument (\<open>libcsv_write_record\<close> or \<open>fixedwriter_write_record\<close>). A NULL row group is
  the empty list of rows; the result is the row group with its first record updated.
\<close>

datatype select_fn = Select_record | Select_record_api | Select_record_order_api
  | Select_record_to_list | Select_record_to_const | Select_subquery

type_synonym ('f, 're, 'w) write_fn = "('f, 're) sget \<Rightarrow> nat list \<Rightarrow> row_record list \<Rightarrow> (('f, 're) store \<times> 'w, nat) act"

definition on_sel :: "('f, 're, 'a) selact \<Rightarrow> (('f, 're) store \<times> 'f fqlselect \<times> 'w, 'a) act" where
  "on_sel m st = (case m (fst st, fst (snd st)) of (r, s, sel) \<Rightarrow> (r, s, sel, snd (snd st)))"

definition on_writer :: "(('f, 're) store \<times> 'w, 'a) act \<Rightarrow> (('f, 're) store \<times> 'f fqlselect \<times> 'w, 'a) act" where
  "on_writer m st = (case m (fst st, snd (snd st)) of (r, s, w) \<Rightarrow> (r, s, fst (snd st), w))"

definition select_record :: "('f, 're, 'w) write_fn \<Rightarrow> ('f, 're) sget \<Rightarrow> row_record list \<Rightarrow> (('f, 're) store \<times> 'f fqlselect \<times> 'w, row_record list) act" where
  "select_record write G rg = derefA (on_sel count_row) (\<lambda>is. derefA (on_writer (write G is rg)) (\<lambda>len st.
     case rg of [] \<Rightarrow> (Good [], st)
     | rec # rest \<Rightarrow> (Good (rec\<lparr>row_offset := sel_offset (fst (snd st)), select_len := len\<rparr> # rest),
         (fst st, (fst (snd st))\<lparr>sel_offset := sel_offset (fst (snd st)) + len\<rparr>, snd (snd st)))))"

definition select_call :: "select_fn \<Rightarrow> ('f, 're) ext \<Rightarrow> nat \<Rightarrow> ('f, 're, 'w) write_fn \<Rightarrow> row_record list \<Rightarrow>
    (('f, 're) store \<times> 'f fqlselect \<times> 'w, row_record list) act" where
  "select_call fn x depth write rg = (let G = expr_getters x rg depth; same = (\<lambda>m. derefA (on_sel m) (\<lambda>_. outA (Good rg))) in
     case fn of
       Select_record \<Rightarrow> select_record write G rg
     | Select_record_api \<Rightarrow> same (select_record_api x G)
     | Select_record_order_api \<Rightarrow> on_sel (select_record_order_api x G rg)
     | Select_record_to_list \<Rightarrow> same (select_record_to_list x G)
     | Select_record_to_const \<Rightarrow> same (select_record_to_const x G)
     | Select_subquery \<Rightarrow> same select_subquery)"

record ('f, 'w) select_data =
  sd_select :: "'f fqlselect"
  sd_fn :: select_fn
  sd_writer :: 'w

definition on_select :: "(('f, 're) store \<times> 'f fqlselect \<times> 'w, 'a) act \<Rightarrow> ('f, 're, ('f, 'w) select_data, 'a) pact" where
  "on_select m s = (case m (pstore s, sd_select (pdata s), sd_writer (pdata s)) of (r, st, sel, w) \<Rightarrow>
     (r, s\<lparr>pstore := st, pdata := (pdata s)\<lparr>sd_select := sel, sd_writer := w\<rparr>\<rparr>))"

definition select_row :: "('f, 're) ext \<Rightarrow> nat \<Rightarrow> ('f, 're, 'w) write_fn \<Rightarrow> nat \<Rightarrow> ('f, 're, ('f, 'w) select_data, unit) pact" where
  "select_row x depth write rg = derefA (see (\<lambda>s. sd_fn (pdata s))) (\<lambda>fn. with_rows rg (\<lambda>rows.
     derefA (on_select (select_call fn x depth write rows)) (\<lambda>rows'. case rows' of
       [] \<Rightarrow> outA Crash
     | rec # _ \<Rightarrow> step (\<lambda>s. map_option (\<lambda>s'. ((), s')) (upd_rec (\<lambda>_. rec) rg s)))))"

definition upd_select :: "('f fqlselect \<Rightarrow> 'f fqlselect) \<Rightarrow> ('f, 're, ('f, 'w) select_data, unit) pact" where
  "upd_select f s = (Good (), s\<lparr>pdata := (pdata s)\<lparr>sd_select := f (sd_select (pdata s))\<rparr>\<rparr>)"

definition upd_proc :: "(process \<Rightarrow> process) \<Rightarrow> ('f, 're, 'd, unit) pact" where
  "upd_proc f s = (Good (), s\<lparr>pself := f (pself s)\<rparr>)"

definition one_more :: "('f, 're, ('f, 'w) select_data, unit) pact" where
  "one_more = derefA (upd_select (\<lambda>sel. sel\<lparr>sel_rows := sel_rows sel + 1\<rparr>)) (\<lambda>_.
     upd_proc (\<lambda>p. p\<lparr>rows_affected := rows_affected p + 1\<rparr>))"

definition close_fifo :: "nat \<Rightarrow> ('f, 're, 'd, unit) pact" where
  "close_fifo i = fifo_do i (\<lambda>f. Some ((), fifo_set_open f False))"

fun close_fifos :: "nat list \<Rightarrow> ('f, 're, 'd, unit) pact" where
  "close_fifos [] = outA (Good ())"
| "close_fifos (i # is) = derefA (close_fifo i) (\<lambda>_. close_fifos is)"

text \<open>
  When the input is used up: the row that an aggregate without input owes, then the next select
  of a UNION, whose results take the place of the input, and in the end the file is closed.
\<close>

definition next_union :: "(('f, 're) store \<times> 'w, unit) act \<Rightarrow> ('f, 're, ('f, 'w) select_data, proc_return) pact" where
  "next_union close = derefA (see (\<lambda>s. fqlselect_next_union (sd_select (pdata s)))) (\<lambda>(found, sel).
     if found then
       derefA (upd_select (\<lambda>_. sel)) (\<lambda>_.
       derefA (see (\<lambda>s. fifo_in0 (pself s))) (\<lambda>inp.
       derefA (close_fifo inp) (\<lambda>_.
       derefA (see pself) (\<lambda>p. if \<not> queued_pos p < length (queued_results p) then outA Crash else
       derefA (upd_proc (\<lambda>p. p\<lparr>wait_for_in0 := True, fifo_in0 := queued_results p ! queued_pos p,
           queued_pos := (if queued_pos p + 1 < length (queued_results p) then queued_pos p + 1 else queued_pos p)\<rparr>)) (\<lambda>_.
         outA (Good PROC_RUNNING))))))
     else derefA (on_select (on_writer close)) (\<lambda>_. outA (Good PROC_COMPLETE)))"

definition select_end :: "('f, 're) ext \<Rightarrow> nat \<Rightarrow> ('f, 're, 'w) write_fn \<Rightarrow> (('f, 're) store \<times> 'w, unit) act \<Rightarrow> nat option \<Rightarrow>
    ('f, 're, ('f, 'w) select_data, proc_return) pact" where
  "select_end x depth write close out = derefA (see pdata) (\<lambda>d.
     if must_run_once (sd_select d) \<and> sel_rows (sd_select d) = 0 then
       derefA (on_select (select_call (sd_fn d) x depth write [])) (\<lambda>_. derefA one_more (\<lambda>_. outA (Good PROC_RUNNING)))
     else derefA (fifo_opt out True fifo_is_empty) (\<lambda>empty.
       if \<not> empty then outA (Good PROC_RUNNING) else next_union close))"

text \<open>TOP is tested before every row, and once more after the loop.\<close>

fun select_loop :: "('f, 're) ext \<Rightarrow> nat \<Rightarrow> ('f, 're, 'w) write_fn \<Rightarrow> nat \<Rightarrow> nat option \<Rightarrow> nat \<Rightarrow> nat \<Rightarrow> nat \<Rightarrow>
    ('f, 're, ('f, 'w) select_data, proc_return) pact" where
  "select_loop x depth write inp out 0 iters it = outA Crash"
| "select_loop x depth write inp out (Suc fuel) iters it =
     derefA (fifo_see inp fifo_end) (\<lambda>e. if it = e then outA (Good WAIT_ON_IN0) else
     derefA (see (\<lambda>s. (max_recs_iter (pself s), sd_select (pdata s)))) (\<lambda>(mx, sel).
     if mx \<le> iters \<or> sel_top sel \<le> sel_rows sel then outA (Good PROC_RUNNING) else
     derefA (slot_of_fifo inp it) (\<lambda>rg.
     derefA (select_row x depth write rg) (\<lambda>_.
     derefA one_more (\<lambda>_.
     derefA (if out \<noteq> None then add_rg out rg else if \<not> sel_const sel then recycle_rg rg else outA (Good ())) (\<lambda>_.
     if sel_const sel then derefA (upd_proc (\<lambda>p. p\<lparr>wait_for_in0 := False\<rparr>)) (\<lambda>_. outA (Good PROC_RUNNING)) else
     derefA (iter_of inp) (\<lambda>it'.
     derefA (fifo_opt out 1 fifo_receivable) (\<lambda>n.
       if n = 0 then outA (Good WAIT_ON_OUT0) else select_loop x depth write inp out fuel (iters + 1) it'))))))))"

definition fql_select :: "('f, 're) ext \<Rightarrow> nat \<Rightarrow> ('f, 're, 'w) write_fn \<Rightarrow> (('f, 're) store \<times> 'w, unit) act \<Rightarrow> nat \<Rightarrow>
    ('f, 're, ('f, 'w) select_data, proc_return) pact" where
  "fql_select x depth write close fuel = derefA (see pself) (\<lambda>p.
     let inp = fifo_in0 p; out = fifo_out0 p in
     derefA (fifo_opt out True is_open) (\<lambda>opened.
     if \<not> opened then derefA (close_fifos (union_end_outs p)) (\<lambda>_. outA (Good PROC_COMPLETE)) else
     if \<not> wait_for_in0 p then select_end x depth write close out else
     derefA (fifo_see inp (\<lambda>f. (fifo_is_empty f, is_open f))) (\<lambda>(empty, opened).
     if empty \<and> opened then outA (Good WAIT_ON_IN0) else
     derefA (if empty then upd_proc (\<lambda>p. p\<lparr>wait_for_in0 := False\<rparr>) else outA (Good ())) (\<lambda>_.
     derefA (fifo_opt out 1 fifo_receivable) (\<lambda>n. if n = 0 then outA (Good WAIT_ON_OUT0) else
     derefA (begin_of inp) (\<lambda>it.
     derefA (select_loop x depth write inp out fuel 0 it) (\<lambda>ret.
     derefA (update_of inp) (\<lambda>_.
     derefA (see (\<lambda>s. sel_top (sd_select (pdata s)) \<le> sel_rows (sd_select (pdata s)))) (\<lambda>full.
     if full then derefA (upd_proc (\<lambda>p. p\<lparr>wait_for_in0 := False\<rparr>)) (\<lambda>_. outA (Good PROC_RUNNING)) else outA (Good ret))))))))))"

section \<open>ORDER BY\<close>

definition on_order :: "('f, 're, 'a) ordact \<Rightarrow> ('f, 're, 'f order, 'a) pact" where
  "on_order m s = (case m (pstore s, pdata s) of (r, st, o') \<Rightarrow> (r, s\<lparr>pstore := st, pdata := o'\<rparr>))"

fun order_loop :: "('f, 're) ext \<Rightarrow> nat \<Rightarrow> nat \<Rightarrow> nat \<Rightarrow> nat \<Rightarrow> nat \<Rightarrow> ('f, 're, 'f order, proc_return) pact" where
  "order_loop x depth inp 0 iters it = outA Crash"
| "order_loop x depth inp (Suc fuel) iters it = derefA (see (\<lambda>s. max_recs_iter (pself s))) (\<lambda>mx.
     if mx \<le> iters then derefA (update_of inp) (\<lambda>_. outA (Good WAIT_ON_IN0)) else
     derefA (fifo_see inp fifo_end) (\<lambda>e. if it = e then derefA (update_of inp) (\<lambda>_. outA (Good WAIT_ON_IN0)) else
     derefA (slot_of_fifo inp it) (\<lambda>rg.
     derefA (with_rows rg (\<lambda>rows. on_order (order_add_record x (expr_getters x rows depth) rows))) (\<lambda>_.
     derefA (recycle_rg rg) (\<lambda>_.
     derefA (iter_of inp) (\<lambda>it'. order_loop x depth inp fuel (iters + 1) it'))))))"

text \<open>\<open>rows_affected\<close> of the process is that of the order.\<close>

definition fql_orderby :: "entry_sort \<Rightarrow> ('f, 're) ext \<Rightarrow> nat \<Rightarrow> string option \<Rightarrow> nat \<Rightarrow> ('f, 're, 'f order, proc_return) pact" where
  "fql_orderby qs x depth file fuel = derefA (see pself) (\<lambda>p. let inp = fifo_in0 p in
     derefA (fifo_see inp (\<lambda>f. \<not> is_open f \<and> fifo_is_empty f)) (\<lambda>finished.
     if finished then derefA (on_order (orderby_finish qs (x_flt x) file)) (\<lambda>complete.
       derefA (see (\<lambda>s. o_rows (pdata s))) (\<lambda>n. derefA (upd_proc (\<lambda>p. p\<lparr>rows_affected := n\<rparr>)) (\<lambda>_.
         outA (Good (if complete then PROC_COMPLETE else PROC_RUNNING)))))
     else derefA (begin_of inp) (\<lambda>it. order_loop x depth inp fuel 0 it)))"

end
