(* ===== verification/Update.thy ===== *)
theory Update
  imports GroupProc
begin

text \<open>
  DELETE and UPDATE (lib/fqlprocesses.c, lib/fqldelete.c, lib/fqlupdate.c) write a new file with
  the rows that stay. The rows that fail and those that meet the condition arrive in two fifos
  and are brought back into the order of the file by \<open>rec_idx\<close>, the number of the row. Over a
  join one row of the file arrives as many row groups; a small state machine then decides it
  once. Both statements have the same state.
\<close>

section \<open>State\<close>

datatype filter_state = FILTER_OPEN | FILTER_PASSTHROUGH | FILTER_FILTERING

text \<open>\<open>fs_idx\<close> is \<open>delete_idx\<close> or \<open>update_idx\<close>, \<open>fs_update_exprs\<close> are the values of an updated row.\<close>

record 'w filter_stmt =
  fs_idx :: nat
  fs_rows :: nat
  fs_top :: nat
  fs_table_idx :: nat
  fs_state :: filter_state
  fs_exprs :: "nat list"
  fs_update_exprs :: "nat list"
  fs_rownum :: nat
  fs_writer :: 'w

definition fqldelete_reset :: "'w filter_stmt \<Rightarrow> 'w filter_stmt" where
  "fqldelete_reset self = self\<lparr>fs_rows := 0, fs_state := FILTER_OPEN, fs_idx := 0\<rparr>"

definition fqlupdate_reset :: "'w filter_stmt \<Rightarrow> 'w filter_stmt" where
  "fqlupdate_reset self = self\<lparr>fs_rownum := 0, fs_rows := 0, fs_state := FILTER_OPEN, fs_idx := 0\<rparr>"

type_synonym ('f, 're, 'w, 'a) fact = "('f, 're, 'w filter_stmt, 'a) pact"

definition upd_stmt :: "('w filter_stmt \<Rightarrow> 'w filter_stmt) \<Rightarrow> ('f, 're, 'w, unit) fact" where
  "upd_stmt f s = (Good (), s\<lparr>pdata := f (pdata s)\<rparr>)"

definition on_file :: "(('f, 're) store \<times> 'w, 'a) act \<Rightarrow> ('f, 're, 'w, 'a) fact" where
  "on_file m s = (case m (pstore s, fs_writer (pdata s)) of (r, st, w) \<Rightarrow> (r, s\<lparr>pstore := st, pdata := (pdata s)\<lparr>fs_writer := w\<rparr>\<rparr>))"

text \<open>The row is written as it is, or with its new values.\<close>

definition write_row :: "('f, 're) ext \<Rightarrow> nat \<Rightarrow> ('f, 're, 'w) write_fn \<Rightarrow> ('w filter_stmt \<Rightarrow> nat list) \<Rightarrow> nat \<Rightarrow> ('f, 're, 'w, unit) fact" where
  "write_row x depth write which rg = derefA (see (\<lambda>s. which (pdata s))) (\<lambda>is.
     with_rows rg (\<lambda>rows. tryA 0 (on_file (write (expr_getters x rows depth) is rows)) (\<lambda>_ _. outA (Good ()))))"

definition delete_writer :: "('f, 're) ext \<Rightarrow> nat \<Rightarrow> ('f, 're, 'w) write_fn \<Rightarrow> nat \<Rightarrow> ('f, 're, 'w, unit) fact" where
  "delete_writer x depth write = write_row x depth write fs_exprs"

definition noupdate_writer :: "('f, 're) ext \<Rightarrow> nat \<Rightarrow> ('f, 're, 'w) write_fn \<Rightarrow> nat \<Rightarrow> ('f, 're, 'w, unit) fact" where
  "noupdate_writer x depth write = write_row x depth write fs_exprs"

definition update_writer :: "('f, 're) ext \<Rightarrow> nat \<Rightarrow> ('f, 're, 'w) write_fn \<Rightarrow> nat \<Rightarrow> ('f, 're, 'w, unit) fact" where
  "update_writer x depth write rg = derefA (upd_stmt (\<lambda>f. f\<lparr>fs_rownum := fs_rownum f + 1\<rparr>)) (\<lambda>_. write_row x depth write fs_update_exprs rg)"

text \<open>The number of the row of the table in a row group; NULL if the group has none.\<close>

definition row_idx :: "nat \<Rightarrow> ('f, 're, 'w, nat) fact" where
  "row_idx rg = derefA (see (\<lambda>s. fs_table_idx (pdata s))) (\<lambda>t. with_rows rg (\<lambda>rows.
     case record_at rows (int t) of None \<Rightarrow> outA Crash | Some rec \<Rightarrow> outA (Good (rec_idx rec))))"

definition beyond :: "nat \<Rightarrow> ('f, 're, 'w, bool) fact" where
  "beyond rg = derefA (row_idx rg) (\<lambda>i. see (\<lambda>s. fs_idx (pdata s) < i))"

definition count_affected :: "('f, 're, 'w, unit) fact" where
  "count_affected = upd_proc (\<lambda>p. p\<lparr>rows_affected := rows_affected p + 1\<rparr>)"

definition advance_idx :: "('f, 're, 'w, unit) fact" where
  "advance_idx = upd_stmt (\<lambda>f. f\<lparr>fs_idx := fs_idx f + 1\<rparr>)"

definition go_on :: "nat \<Rightarrow> ('f, 're, 'd, loop) pact" where
  "go_on inp = derefA (iter_of inp) (\<lambda>it. outA (Good (Next it)))"

text \<open>
  How the four processes begin: wait while an input may still give something, and close the
  file once none can.
\<close>

definition filter_start :: "nat \<Rightarrow> nat \<Rightarrow> (('f, 're) store \<times> 'w, unit) act \<Rightarrow> ('f, 're, 'w, proc_return) fact \<Rightarrow> ('f, 're, 'w, proc_return) fact" where
  "filter_start in_false in_true close rest =
     derefA (fifo_see in_false (\<lambda>f. (fifo_is_empty f, is_open f))) (\<lambda>(e0, o0).
     derefA (fifo_see in_true (\<lambda>f. (fifo_is_empty f, is_open f))) (\<lambda>(e1, o1).
     if e0 \<and> e1 \<and> (o1 \<or> o0) then outA (Good WAIT_ON_IN_EITHER) else
     derefA (if e0 \<and> e1 then upd_proc (\<lambda>p. p\<lparr>wait_for_in0 := False\<rparr>) else outA (Good ())) (\<lambda>_.
     derefA (see (\<lambda>s. wait_for_in0 (pself s))) (\<lambda>wait.
     if \<not> wait then derefA (on_file close) (\<lambda>_. outA (Good PROC_COMPLETE)) else rest))))"

definition with_inputs :: "(nat \<Rightarrow> nat \<Rightarrow> ('f, 're, 'd, 'a) pact) \<Rightarrow> ('f, 're, 'd, 'a) pact" where
  "with_inputs k = derefA (see pself) (\<lambda>p. case fifo_in1 p of None \<Rightarrow> outA Crash | Some i \<Rightarrow> k (fifo_in0 p) i)"

section \<open>One table\<close>

text \<open>
  TOP does not work: nothing counts \<open>rows_affected\<close> of the statement, so that the test after a
  row is either never true, or true after the first row (TOP 0), which leaves the rest of the
  rows out of the new file.
\<close>

definition fql_delete :: "('f, 're) ext \<Rightarrow> nat \<Rightarrow> ('f, 're, 'w) write_fn \<Rightarrow> (('f, 're) store \<times> 'w, unit) act \<Rightarrow> nat \<Rightarrow> ('f, 're, 'w, proc_return) fact" where
  "fql_delete x depth write close fuel = derefA (see pself) (\<lambda>p. let inp = fifo_in0 p in
     derefA (fifo_see inp (\<lambda>f. (fifo_is_empty f, is_open f))) (\<lambda>(empty, opened).
     if wait_for_in0 p \<and> empty \<and> opened then outA (Good WAIT_ON_IN0) else
     derefA (if wait_for_in0 p \<and> empty then upd_proc (\<lambda>p. p\<lparr>wait_for_in0 := False\<rparr>) else outA (Good ())) (\<lambda>_.
     if \<not> wait_for_in0 p \<or> empty then derefA (on_file close) (\<lambda>_. outA (Good PROC_COMPLETE)) else
     derefA (begin_of inp) (\<lambda>it. row_loop fuel inp it (\<lambda>it rg.
       derefA (delete_writer x depth write rg) (\<lambda>_.
       derefA count_affected (\<lambda>_.
       derefA (recycle_rg rg) (\<lambda>_.
       derefA (iter_of inp) (\<lambda>it'.
       derefA (see (\<lambda>s. fs_top (pdata s) \<le> fs_rows (pdata s))) (\<lambda>full.
       if full then derefA (upd_proc (\<lambda>p. p\<lparr>wait_for_in0 := False\<rparr>)) (\<lambda>_. outA (Good (Break PROC_RUNNING)))
       else outA (Good (Next it')))))))) WAIT_ON_IN0))))"

text \<open>The two inputs of UPDATE: rows up to the number that is next, first those that stay as they are.\<close>

definition update_false :: "('f, 're) ext \<Rightarrow> nat \<Rightarrow> ('f, 're, 'w) write_fn \<Rightarrow> nat \<Rightarrow> nat \<Rightarrow> nat \<Rightarrow> ('f, 're, 'w, loop) fact" where
  "update_false x depth write inp it rg = derefA (beyond rg) (\<lambda>b. if b then outA (Good (Break WAIT_ON_IN_EITHER)) else
     derefA (noupdate_writer x depth write rg) (\<lambda>_.
     derefA advance_idx (\<lambda>_.
     derefA (recycle_rg rg) (\<lambda>_. go_on inp))))"

definition update_true :: "('f, 're) ext \<Rightarrow> nat \<Rightarrow> ('f, 're, 'w) write_fn \<Rightarrow> nat \<Rightarrow> nat \<Rightarrow> nat \<Rightarrow> ('f, 're, 'w, loop) fact" where
  "update_true x depth write inp it rg = derefA (beyond rg) (\<lambda>b. if b then outA (Good (Break WAIT_ON_IN_EITHER)) else
     derefA (update_writer x depth write rg) (\<lambda>_.
     derefA advance_idx (\<lambda>_.
     derefA count_affected (\<lambda>_.
     derefA (recycle_rg rg) (\<lambda>_.
     derefA (see (\<lambda>s. fs_top (pdata s) \<le> fs_rows (pdata s))) (\<lambda>full.
     if full then derefA (upd_proc (\<lambda>p. p\<lparr>wait_for_in0 := False\<rparr>)) (\<lambda>_. outA (Good (Break PROC_RUNNING)))
     else go_on inp))))))"

definition fql_update :: "('f, 're) ext \<Rightarrow> nat \<Rightarrow> ('f, 're, 'w) write_fn \<Rightarrow> (('f, 're) store \<times> 'w, unit) act \<Rightarrow> nat \<Rightarrow> ('f, 're, 'w, proc_return) fact" where
  "fql_update x depth write close fuel = with_inputs (\<lambda>in_false in_true. filter_start in_false in_true close (
     derefA (begin_of in_false) (\<lambda>it0.
     derefA (row_loop fuel in_false it0 (update_false x depth write in_false) WAIT_ON_IN_EITHER) (\<lambda>_.
     derefA (begin_of in_true) (\<lambda>it1.
       row_loop fuel in_true it1 (update_true x depth write in_true) WAIT_ON_IN_EITHER)))))"

section \<open>Over a join\<close>

definition set_state :: "filter_state \<Rightarrow> ('f, 're, 'w, unit) fact" where
  "set_state q = upd_stmt (\<lambda>f. f\<lparr>fs_state := q\<rparr>)"

text \<open>PASSTHROUGH: the row is decided, the other row groups of the same row are dropped.\<close>

definition filter_passthrough :: "nat \<Rightarrow> nat \<Rightarrow> nat \<Rightarrow> ('f, 're, 'w, proc_return) fact" where
  "filter_passthrough fuel in_false in_true =
     derefA (begin_of in_false) (\<lambda>it0.
     derefA (fifo_see in_false (\<lambda>f. it0 = fifo_end f)) (\<lambda>none.
     derefA (row_loop fuel in_false it0 (\<lambda>it rg. derefA (beyond rg) (\<lambda>b.
       if b then outA (Good (Break PROC_RUNNING)) else derefA (recycle_rg rg) (\<lambda>_. go_on in_false))) WAIT_ON_IN0) (\<lambda>r.
     let false_done = none \<or> r = PROC_RUNNING in
     derefA (begin_of in_true) (\<lambda>it1.
     derefA (fifo_see in_true (\<lambda>f. it1 = fifo_end f)) (\<lambda>none.
     if none then derefA (set_state FILTER_OPEN) (\<lambda>_. outA (Good PROC_RUNNING)) else
     row_loop fuel in_true it1 (\<lambda>it rg. derefA (beyond rg) (\<lambda>b.
       if \<not> b then derefA (recycle_rg rg) (\<lambda>_. go_on in_true)
       else if false_done then derefA (set_state FILTER_OPEN) (\<lambda>_. outA (Good (Break PROC_RUNNING)))
       else outA (Good (Break WAIT_ON_IN_EITHER)))) WAIT_ON_IN_EITHER)))))"

text \<open>\<open>fifo_get\<close> does not look whether there is anything to get.\<close>

definition get_rg :: "nat \<Rightarrow> ('f, 're, 'd, nat) pact" where
  "get_rg i = fifo_do i (\<lambda>f. case fifo_get f of (slot, f') \<Rightarrow> (case vec_at (buf f') slot of Some (Some a) \<Rightarrow> Some (a, f') | _ \<Rightarrow> None))"

definition peek_rg :: "nat \<Rightarrow> ('f, 're, 'd, nat) pact" where
  "peek_rg i = fifo_do i (\<lambda>f. case fifo_peek f of Some (Some a) \<Rightarrow> Some (a, f) | _ \<Rightarrow> None)"

text \<open>
  FILTERING: no row group has met the condition so far. \<open>keep\<close> writes the row that stays,
  \<open>matched\<close> is what a match does. The loop does not stop when it has found the last row group of the row.
\<close>

definition look_beyond :: "nat \<Rightarrow> ('f, 're, 'w, bool option) fact" where
  "look_beyond inp = derefA (fifo_see inp fifo_look_ahead) (\<lambda>p. case p of
     None \<Rightarrow> outA (Good None) | Some None \<Rightarrow> outA Crash | Some (Some a) \<Rightarrow> derefA (beyond a) (\<lambda>b. outA (Good (Some b))))"

definition filter_filtering :: "(nat \<Rightarrow> ('f, 're, 'w, unit) fact) \<Rightarrow> (nat \<Rightarrow> ('f, 're, 'w, unit) fact) \<Rightarrow> nat \<Rightarrow> nat \<Rightarrow> nat \<Rightarrow> ('f, 're, 'w, proc_return) fact" where
  "filter_filtering keep matched fuel in_false in_true =
     (let decide = derefA (set_state FILTER_PASSTHROUGH) (\<lambda>_. derefA (filter_passthrough fuel in_false in_true) (\<lambda>_. outA (Good PROC_RUNNING)));
          stays = derefA (get_rg in_false) (\<lambda>a. derefA (keep a) (\<lambda>_. derefA (recycle_rg a) (\<lambda>_. decide)))
      in derefA (fifo_see in_true (\<lambda>f. (fifo_available f, is_open f))) (\<lambda>(n, opened).
         if n \<noteq> 0 then
           derefA (peek_rg in_true) (\<lambda>a. derefA (beyond a) (\<lambda>b.
             if b then stays
             else derefA (consume_of in_true) (\<lambda>_. derefA (matched a) (\<lambda>_. derefA count_affected (\<lambda>_. derefA (recycle_rg a) (\<lambda>_. decide))))))
         else if \<not> opened then stays
         else derefA (begin_of in_false) (\<lambda>it. derefA (row_loop fuel in_false it (\<lambda>it rg.
           derefA (look_beyond in_false) (\<lambda>ahead. case ahead of
             None \<Rightarrow> outA (Good (Break PROC_RUNNING))
           | Some b \<Rightarrow> derefA (if b then derefA (keep rg) (\<lambda>_. set_state FILTER_OPEN) else outA (Good ())) (\<lambda>_.
               derefA (recycle_rg rg) (\<lambda>_. go_on in_false)))) PROC_RUNNING) (\<lambda>_. outA (Good PROC_RUNNING)))))"

text \<open>OPEN: the next row of the file is that of the first row group in either input.\<close>

definition peek_idx :: "nat \<Rightarrow> ('f, 're, 'w, (nat \<times> nat) option) fact" where
  "peek_idx i = derefA (fifo_see i fifo_available) (\<lambda>n. if n = 0 then outA (Good None) else
     derefA (peek_rg i) (\<lambda>a. derefA (row_idx a) (\<lambda>r. outA (Good (Some (a, r))))))"

definition filter_open :: "(nat \<Rightarrow> ('f, 're, 'w, unit) fact) \<Rightarrow> nat \<Rightarrow> nat \<Rightarrow> ('f, 're, 'w, proc_return) fact" where
  "filter_open matched in_false in_true =
     derefA (peek_idx in_false) (\<lambda>f. derefA (peek_idx in_true) (\<lambda>t. case (t, f) of
       (None, None) \<Rightarrow> outA Crash
     | (None, Some (_, i)) \<Rightarrow> derefA (upd_stmt (\<lambda>d. d\<lparr>fs_idx := i, fs_state := FILTER_FILTERING\<rparr>)) (\<lambda>_. outA (Good PROC_RUNNING))
     | (Some (a, j), _) \<Rightarrow>
         if (case f of None \<Rightarrow> True | Some (_, i) \<Rightarrow> j \<le> i) then
           derefA (matched a) (\<lambda>_. derefA (consume_of in_true) (\<lambda>_. derefA (recycle_rg a) (\<lambda>_. derefA count_affected (\<lambda>_.
             derefA (upd_stmt (\<lambda>d. d\<lparr>fs_idx := j, fs_state := FILTER_PASSTHROUGH\<rparr>)) (\<lambda>_. outA (Good PROC_RUNNING))))))
         else derefA (upd_stmt (\<lambda>d. d\<lparr>fs_idx := snd (the f), fs_state := FILTER_FILTERING\<rparr>)) (\<lambda>_. outA (Good PROC_RUNNING))))"

definition filter_step :: "(nat \<Rightarrow> ('f, 're, 'w, unit) fact) \<Rightarrow> (nat \<Rightarrow> ('f, 're, 'w, unit) fact) \<Rightarrow> nat \<Rightarrow> nat \<Rightarrow> nat \<Rightarrow> ('f, 're, 'w, proc_return) fact" where
  "filter_step keep matched fuel in_false in_true = derefA (see (\<lambda>s. fs_state (pdata s))) (\<lambda>q. case q of
     FILTER_PASSTHROUGH \<Rightarrow> filter_passthrough fuel in_false in_true
   | FILTER_FILTERING \<Rightarrow> filter_filtering keep matched fuel in_false in_true
   | FILTER_OPEN \<Rightarrow> filter_open matched in_false in_true)"

definition fql_delete_filter :: "('f, 're) ext \<Rightarrow> nat \<Rightarrow> ('f, 're, 'w) write_fn \<Rightarrow> (('f, 're) store \<times> 'w, unit) act \<Rightarrow> nat \<Rightarrow> ('f, 're, 'w, proc_return) fact" where
  "fql_delete_filter x depth write close fuel = with_inputs (\<lambda>in_false in_true. filter_start in_false in_true close
     (filter_step (delete_writer x depth write) (\<lambda>_. outA (Good ())) fuel in_false in_true))"

definition fql_update_filter :: "('f, 're) ext \<Rightarrow> nat \<Rightarrow> ('f, 're, 'w) write_fn \<Rightarrow> (('f, 're) store \<times> 'w, unit) act \<Rightarrow> nat \<Rightarrow> ('f, 're, 'w, proc_return) fact" where
  "fql_update_filter x depth write close fuel = with_inputs (\<lambda>in_false in_true. filter_start in_false in_true close
     (filter_step (noupdate_writer x depth write) (update_writer x depth write) fuel in_false in_true))"

end
