(* ===== verification/Exec.thy ===== *)
theory Exec
  imports Process
begin

text \<open>
  How a plan runs its processes (lib/process.c) in one thread: pass after pass over the
  execution vector, each process that is enabled and waits for no other acts once. The action of
  a process is an argument, since its data may be of any kind; the actions are those of the
  theories of fqlprocesses.c. The threads of the other mode call the same actions.
\<close>

section \<open>A plan\<close>

record ('f, 're, 'd) plan = pipes +
  pl_store :: "('f, 're) store"
  pl_data :: 'd
  pl_procs :: "process list"
  execution_vector :: "nat list"
  pl_rows :: nat
  is_complete :: bool

type_synonym ('f, 're, 'd) action = "nat \<Rightarrow> ('f, 're, 'd, proc_return) pact"
type_synonym ('f, 're, 'd, 'a) plact = "(('f, 're, 'd) plan, 'a) act"

text \<open>One process within the plan.\<close>

definition as_process :: "nat \<Rightarrow> ('f, 're, 'd, 'a) pact \<Rightarrow> ('f, 're, 'd, 'a) plact" where
  "as_process i m s = (if \<not> i < length (pl_procs s) then (Crash, s) else
     (case m \<lparr>pheap = pheap s, pfifos = pfifos s, pstore = pl_store s, pself = pl_procs s ! i, pdata = pl_data s\<rparr> of (r, st) \<Rightarrow>
        (r, s\<lparr>pheap := pheap st, pfifos := pfifos st, pl_store := pstore st, pl_procs := (pl_procs s)[i := pself st], pl_data := pdata st\<rparr>)))"

section \<open>Enabling and disabling\<close>

definition reset_opt :: "nat option \<Rightarrow> ('f, 're, 'd, unit) pact" where
  "reset_opt p = (case p of None \<Rightarrow> outA (Good ()) | Some i \<Rightarrow> fifo_do i (\<lambda>f. Some ((), fifo_reset f)))"

fun reset_all :: "nat list \<Rightarrow> ('f, 're, 'd, unit) pact" where
  "reset_all [] = outA (Good ())"
| "reset_all (i # is) = derefA (reset_opt (Some i)) (\<lambda>_. reset_all is)"

definition upd_of :: "(process \<Rightarrow> process) \<Rightarrow> ('f, 're, 'd, unit) pact" where
  "upd_of f s = (Good (), s\<lparr>pself := f (pself s)\<rparr>)"

definition recycle_buffers :: "('f, 're, 'd, unit) pact" where
  "recycle_buffers = step (\<lambda>s. do {
     let p = pself s;
     (s1, b, it) \<leftarrow> fqlprocess_recycle_buffer (rootvec_ref p) s (inbuf p) (inbuf_iter p);
     (s2, b2, it2) \<leftarrow> fqlprocess_recycle_buffer (rootvec_ref p) s1 (rebuf p) (rebuf_iter p);
     Some ((), s2\<lparr>pself := p\<lparr>inbuf := b, inbuf_iter := it, rebuf := b2, rebuf_iter := it2\<rparr>\<rparr>)
   })"

definition kill_pipe :: "('f, 're, 'd, unit) pact" where
  "kill_pipe = derefA (see pself) (\<lambda>p. case killed_pipe p of
     None \<Rightarrow> outA (Good ())
   | Some k \<Rightarrow> (case (if k = 0 then Some (fifo_in0 p) else fifo_in1 p) of
       None \<Rightarrow> outA Crash
     | Some i \<Rightarrow> fifo_do i (\<lambda>f. Some ((), f\<lparr>is_open := False\<rparr>))))"

text \<open>The walk back over \<open>queued_results\<close> resets the fifos up to where the process was.\<close>

definition process_enable :: "('f, 're, 'd, unit) pact" where
  "process_enable =
     derefA recycle_buffers (\<lambda>_.
     derefA (see pself) (\<lambda>p.
     derefA (if queued_results p = [] then outA (Good ())
             else derefA (reset_all (rev (take (queued_pos p + 1) (queued_results p)))) (\<lambda>_.
               upd_of (\<lambda>p. p\<lparr>queued_pos := 0, fifo_in0 := org_fifo_in0 p\<rparr>))) (\<lambda>_.
     derefA (upd_of (\<lambda>p. p\<lparr>rows_affected := 0\<rparr>)) (\<lambda>_.
     derefA (see pself) (\<lambda>p.
     derefA (reset_opt (Some (fifo_in0 p))) (\<lambda>_.
     derefA (reset_opt (fifo_in1 p)) (\<lambda>_.
     derefA (reset_opt (fifo_out0 p)) (\<lambda>_.
     derefA (reset_opt (fifo_out1 p)) (\<lambda>_.
     derefA kill_pipe (\<lambda>_.
     derefA (upd_of (\<lambda>p. p\<lparr>wait_for_in0 := (if in0_always_dead p then wait_for_in0 p else True), is_enabled := True\<rparr>)) (\<lambda>_.
       if is_groupby p \<and> is_const_proc p then fifo_do (fifo_in0 p) (\<lambda>f. Some ((), fifo_advance f)) else outA (Good ()))))))))))))"

definition shut :: "nat option \<Rightarrow> ('f, 're, 'd, unit) pact" where
  "shut p = (case p of None \<Rightarrow> outA (Good ()) | Some i \<Rightarrow> fifo_do i (\<lambda>f. Some ((), fifo_set_open f False)))"

text \<open>The row groups that are still in an input go back to the roots.\<close>

definition drain :: "nat \<Rightarrow> nat \<Rightarrow> ('f, 're, 'd, unit) pact" where
  "drain fuel i = derefA (begin_of i) (\<lambda>it.
     derefA (row_loop fuel i it (\<lambda>it rg. derefA (recycle_rg rg) (\<lambda>_. derefA (iter_of i) (\<lambda>it'. outA (Good (Next it'))))) PROC_COMPLETE)
       (\<lambda>_. outA (Good ())))"

definition process_disable :: "nat \<Rightarrow> ('f, 're, 'd, unit) pact" where
  "process_disable fuel = derefA (see pself) (\<lambda>p.
     if \<not> is_enabled p then outA (Good ()) else
     derefA (shut (fifo_out0 p)) (\<lambda>_.
     derefA (shut (fifo_out1 p)) (\<lambda>_.
     derefA (upd_of (\<lambda>p. p\<lparr>is_enabled := False\<rparr>)) (\<lambda>_.
     derefA (shut (Some (fifo_in0 p))) (\<lambda>_.
     derefA (if root_fifo p \<noteq> 0 then drain fuel (fifo_in0 p) else outA (Good ())) (\<lambda>_.
       case fifo_in1 p of None \<Rightarrow> outA (Good ()) | Some i \<Rightarrow> if root_fifo p \<noteq> 1 then drain fuel i else outA (Good ())))))))"

section \<open>Running\<close>

text \<open>What a result adds to the count of what is still running.\<close>

definition ret_num :: "proc_return \<Rightarrow> nat" where
  "ret_num r = (case r of PROC_COMPLETE \<Rightarrow> 0 | PROC_RUNNING \<Rightarrow> 1 | WAIT_ON_IN0 \<Rightarrow> 2 | WAIT_ON_IN1 \<Rightarrow> 3
     | WAIT_ON_IN_EITHER \<Rightarrow> 4 | WAIT_ON_IN_BOTH \<Rightarrow> 5 | WAIT_ON_OUT0 \<Rightarrow> 6 | WAIT_ON_OUT1 \<Rightarrow> 7)"

definition check_wait_list :: "process list \<Rightarrow> nat list \<Rightarrow> bool" where
  "check_wait_list ps waits = list_ex (\<lambda>j. j < length ps \<and> is_enabled (ps ! j)) waits"

definition run_process :: "('f, 're, 'd) action \<Rightarrow> nat \<Rightarrow> nat \<Rightarrow> ('f, 're, 'd, nat) plact" where
  "run_process act fuel i s = (if \<not> i < length (pl_procs s) then (Crash, s)
     else if \<not> is_enabled (pl_procs s ! i) then (Good 0, s)
     else if check_wait_list (pl_procs s) (wait_list (pl_procs s ! i)) then (Good 1, s)
     else derefA (as_process i (act i)) (\<lambda>ret.
       derefA (if ret = PROC_COMPLETE then as_process i (process_disable fuel) else outA (Good ())) (\<lambda>_ s1.
         let p = pl_procs s1 ! i in
         (Good ((if wait_for_in0 p then 1 else 0) + ret_num ret), if is_op_true p then s1\<lparr>pl_rows := rows_affected p\<rparr> else s1))) s)"

fun exec_pass :: "('f, 're, 'd) action \<Rightarrow> nat \<Rightarrow> nat list \<Rightarrow> nat \<Rightarrow> ('f, 're, 'd, nat) plact" where
  "exec_pass act fuel [] run_count = outA (Good run_count)"
| "exec_pass act fuel (i # is) run_count = derefA (run_process act fuel i) (\<lambda>n. exec_pass act fuel is (run_count + n))"

definition exec_one_pass :: "('f, 're, 'd) action \<Rightarrow> nat \<Rightarrow> ('f, 're, 'd, nat) plact" where
  "exec_one_pass act fuel s = exec_pass act fuel (execution_vector s) 0 s"

definition complete :: "('f, 're, 'd, unit) plact" where
  "complete s = (Good (), s\<lparr>is_complete := True\<rparr>)"

text \<open>\<open>n\<close> bounds the passes; a plan that runs longer is not followed further (\<open>None\<close>).\<close>

fun process_exec_plan :: "('f, 're, 'd) action \<Rightarrow> nat \<Rightarrow> nat \<Rightarrow> ('f, 're, 'd) plan \<Rightarrow> (unit outcome \<times> ('f, 're, 'd) plan) option" where
  "process_exec_plan act fuel 0 s = None"
| "process_exec_plan act fuel (Suc n) s = (case exec_one_pass act fuel s of
     (Good run_count, s1) \<Rightarrow> if run_count = 0 then Some (complete s1) else process_exec_plan act fuel n s1
   | (Fail, s1) \<Rightarrow> Some (Fail, snd (complete s1))
   | (_, s1) \<Rightarrow> Some (Crash, s1))"

text \<open>A step runs the plan until another row has come out; the result is whether it still runs.\<close>

fun step_loop :: "('f, 're, 'd) action \<Rightarrow> nat \<Rightarrow> nat \<Rightarrow> nat \<Rightarrow> ('f, 're, 'd) plan \<Rightarrow> (bool outcome \<times> ('f, 're, 'd) plan) option" where
  "step_loop act fuel org_rows 0 s = None"
| "step_loop act fuel org_rows (Suc n) s = (case exec_one_pass act fuel s of
     (Good run_count, s1) \<Rightarrow>
       if run_count = 0 then Some (Good False, snd (complete s1))
       else if pl_rows s1 = org_rows then step_loop act fuel org_rows n s1
       else Some (Good True, s1)
   | (Fail, s1) \<Rightarrow> Some (Fail, s1)
   | (_, s1) \<Rightarrow> Some (Crash, s1))"

definition process_step :: "('f, 're, 'd) action \<Rightarrow> nat \<Rightarrow> nat \<Rightarrow> ('f, 're, 'd) plan \<Rightarrow> (bool outcome \<times> ('f, 're, 'd) plan) option" where
  "process_step act fuel n s = step_loop act fuel (pl_rows s) n s"

section \<open>Running again\<close>

fun enable_all :: "nat list \<Rightarrow> ('f, 're, 'd, unit) plact" where
  "enable_all [] = outA (Good ())"
| "enable_all (i # is) = derefA (as_process i process_enable) (\<lambda>_. enable_all is)"

end
