(* ===== verification/Control.thy ===== *)
theory Control
  imports FqlPrelude
begin

text \<open>
  IF, ELSE, WHILE and BEGIN ... END: how the listener (lib/antlr/listenerinterface.cpp) and the
  query builder (lib/query.c, lib/fqlbranch.c) turn a batch of statements into a vector of
  queries with jumps while the parse tree is walked, and how lib/libfql.c runs that vector.

  Pointers to queries are indices into the query vector, pointers to scopes indices into the
  scopes made so far. \<open>None\<close> as a result is an execution that dereferences \<open>NULL\<close>, reads an
  operation as a branch that is none, or fails an assertion. What the listener collects for one
  statement besides (its expressions, its condition) is the argument of type \<open>'a\<close>; a function
  tells how many subqueries that holds.
\<close>

section \<open>Queries, branches and scopes\<close>

datatype fql_operation = FQL_IF | FQL_SET | FQL_WHILE | FQL_SELECT | FQL_DELETE | FQL_UPDATE

datatype branch_state = BRANCH_NO_BRANCH | BRANCH_EXPECT_EXPR | BRANCH_EXPECT_ELSE | BRANCH_EXPECT_EXIT

record scope =
  parent_scope :: "nat option"
  variable_map :: "string \<rightharpoonup> nat"
  is_in_block :: bool

record 'a branch =
  oper_type :: fql_operation
  last_true_block_query :: "nat option"
  scope_of_branch :: nat
  else_scope :: "nat option"
  on_true :: int
  on_false :: int
  expect_else :: bool
  is_elseif :: bool
  condition :: 'a

datatype 'a operation = Simple fql_operation 'a | Branch "'a branch"

record 'a query =
  next_idx :: int
  q_op :: "'a operation option"
  has_stepped :: bool

record 'a fqlhandle =
  scopes :: "scope list"
  cur_scope :: "nat option"
  global_scope :: nat
  query_vec :: "'a query list"
  query_idx :: nat
  branch_state :: branch_state

definition scope_construct :: scope where
  "scope_construct = \<lparr>parent_scope = None, variable_map = Map.empty, is_in_block = False\<rparr>"

definition scope_at :: "('a, 'z) fqlhandle_scheme \<Rightarrow> nat option \<Rightarrow> scope option" where
  "scope_at h p = (case p of None \<Rightarrow> None | Some i \<Rightarrow> if i < length (scopes h) then Some (scopes h ! i) else None)"

definition query_at :: "('a, 'z) fqlhandle_scheme \<Rightarrow> nat \<Rightarrow> 'a query option" where
  "query_at h q = (if q < length (query_vec h) then Some (query_vec h ! q) else None)"

definition upd_query :: "nat \<Rightarrow> ('a query \<Rightarrow> 'a query) \<Rightarrow> ('a, 'z) fqlhandle_scheme \<Rightarrow> ('a, 'z) fqlhandle_scheme" where
  "upd_query q f h = h\<lparr>query_vec := (query_vec h)[q := f (query_vec h ! q)]\<rparr>"

definition op_at :: "('a, 'z) fqlhandle_scheme \<Rightarrow> nat \<Rightarrow> 'a operation option" where
  "op_at h q = query_at h q \<bind> q_op"

text \<open>A pointer read as \<open>fqlbranch*\<close>.\<close>

definition branch_at :: "('a, 'z) fqlhandle_scheme \<Rightarrow> nat \<Rightarrow> 'a branch option" where
  "branch_at h q = (case op_at h q of Some (Branch b) \<Rightarrow> Some b | _ \<Rightarrow> None)"

definition upd_branch :: "nat \<Rightarrow> ('a branch \<Rightarrow> 'a branch) \<Rightarrow> ('a, 'z) fqlhandle_scheme \<Rightarrow> ('a, 'z) fqlhandle_scheme" where
  "upd_branch q f = upd_query q (\<lambda>x. case q_op x of Some (Branch b) \<Rightarrow> x\<lparr>q_op := Some (Branch (f b))\<rparr> | _ \<Rightarrow> x)"

definition set_in_block :: "nat \<Rightarrow> bool \<Rightarrow> ('a, 'z) fqlhandle_scheme \<Rightarrow> ('a, 'z) fqlhandle_scheme" where
  "set_in_block i b h = h\<lparr>scopes := (scopes h)[i := (scopes h ! i)\<lparr>is_in_block := b\<rparr>]\<rparr>"

section \<open>Building the queries\<close>

definition query_enter_query :: "('a, 'z) fqlhandle_scheme \<Rightarrow> nat \<times> ('a, 'z) fqlhandle_scheme" where
  "query_enter_query h = (let n = length (query_vec h) in
     (n, h\<lparr>query_vec := query_vec h @ [\<lparr>next_idx = int n + 1, q_op = None, has_stepped = False\<rparr>]\<rparr>))"

definition fqlbranch_construct :: "nat \<Rightarrow> fql_operation \<Rightarrow> 'a \<Rightarrow> ('a, 'z) fqlhandle_scheme \<Rightarrow> ('a branch \<times> ('a, 'z) fqlhandle_scheme) option" where
  "fqlbranch_construct self oper c h = do {
     let n = length (scopes h);
     (parent, bs) \<leftarrow> (if branch_state h = BRANCH_EXPECT_ELSE
       then do { s \<leftarrow> scope_at h (cur_scope h); Some (parent_scope s, BRANCH_EXPECT_ELSE) }
       else Some (cur_scope h, BRANCH_EXPECT_EXPR));
     Some (\<lparr>oper_type = oper, last_true_block_query = None, scope_of_branch = n, else_scope = None,
            on_true = int self + 1, on_false = - 1, expect_else = False, is_elseif = False, condition = c\<rparr>,
       h\<lparr>scopes := scopes h @ [scope_construct\<lparr>parent_scope := parent\<rparr>], cur_scope := Some n, branch_state := bs\<rparr>)
   }"

text \<open>The second query on the stack is the IF whose ELSE is entered.\<close>

definition enter_else :: "nat \<Rightarrow> nat list \<Rightarrow> fql_operation \<Rightarrow> ('a, 'z) fqlhandle_scheme \<Rightarrow> ('a, 'z) fqlhandle_scheme option" where
  "enter_else self query_stack oper h = (case query_stack of
     _ # p # _ \<Rightarrow> do {
       b \<leftarrow> branch_at h p;
       if oper_type b \<noteq> FQL_IF then None
       else if oper \<noteq> FQL_IF then do {
         s \<leftarrow> scope_at h (Some (scope_of_branch b));
         let n = length (scopes h);
         Some (upd_branch p (\<lambda>b. b\<lparr>on_false := int self, else_scope := Some n\<rparr>)
           (h\<lparr>scopes := scopes h @ [scope_construct\<lparr>parent_scope := parent_scope s\<rparr>], cur_scope := Some n\<rparr>))
       }
       else do {
         let h1 = upd_branch p (\<lambda>b. b\<lparr>on_false := int self\<rparr>) (h\<lparr>branch_state := BRANCH_EXPECT_EXPR\<rparr>);
         _ \<leftarrow> branch_at h1 (length (query_vec h) - 1);
         Some (upd_branch (length (query_vec h) - 1) (\<lambda>b. b\<lparr>is_elseif := True\<rparr>) h1)
       }
     }
   | _ \<Rightarrow> None)"

definition query_init_op :: "nat \<Rightarrow> nat list \<Rightarrow> fql_operation \<Rightarrow> 'a \<Rightarrow> ('a, 'z) fqlhandle_scheme \<Rightarrow> ('a, 'z) fqlhandle_scheme option" where
  "query_init_op self query_stack oper a h = do {
     h1 \<leftarrow> (if oper = FQL_IF \<or> oper = FQL_WHILE
       then do {
         (b, h1) \<leftarrow> fqlbranch_construct self oper a h;
         Some (upd_query self (\<lambda>x. x\<lparr>q_op := Some (Branch b)\<rparr>) h1)
       }
       else Some (upd_query self (\<lambda>x. x\<lparr>q_op := Some (Simple oper a)\<rparr>) h));
     if branch_state h1 = BRANCH_EXPECT_ELSE then enter_else self query_stack oper h1 else Some h1
   }"

definition query_enter_if :: "nat \<Rightarrow> nat list \<Rightarrow> fql_operation \<Rightarrow> bool \<Rightarrow> 'a \<Rightarrow> ('a, 'z) fqlhandle_scheme \<Rightarrow> ('a, 'z) fqlhandle_scheme option" where
  "query_enter_if self query_stack oper exp_else a h = do {
     h1 \<leftarrow> query_init_op self query_stack oper a h;
     _ \<leftarrow> branch_at h1 self;
     Some (upd_branch self (\<lambda>b. b\<lparr>expect_else := exp_else\<rparr>) h1)
   }"

definition query_enter_block :: "('a, 'z) fqlhandle_scheme \<Rightarrow> ('a, 'z) fqlhandle_scheme option" where
  "query_enter_block h = do {
     c \<leftarrow> cur_scope h;
     _ \<leftarrow> scope_at h (Some c);
     Some (set_in_block c True h)
   }"

definition query_exit_block :: "nat \<Rightarrow> ('a, 'z) fqlhandle_scheme \<Rightarrow> ('a, 'z) fqlhandle_scheme option" where
  "query_exit_block self h = do {
     c \<leftarrow> cur_scope h;
     _ \<leftarrow> scope_at h (Some c);
     let h1 = set_in_block c False h;
     b \<leftarrow> branch_at h1 self;
     Some ((upd_branch self (\<lambda>b. b\<lparr>on_false := int (length (query_vec h))\<rparr>) h1)
       \<lparr>branch_state := (if expect_else b then BRANCH_EXPECT_ELSE else BRANCH_EXPECT_EXIT)\<rparr>)
   }"

definition put_next :: "nat option \<Rightarrow> int \<Rightarrow> ('a, 'z) fqlhandle_scheme \<Rightarrow> ('a, 'z) fqlhandle_scheme option" where
  "put_next p n h = do {
     l \<leftarrow> p;
     _ \<leftarrow> query_at h l;
     Some (upd_query l (\<lambda>x. x\<lparr>next_idx := n\<rparr>) h)
   }"

text \<open>The IFs from \<open>self\<close> on whose scope lies in the current one leave their first block for the end.\<close>

fun link_exits :: "nat list \<Rightarrow> ('a, 'z) fqlhandle_scheme \<Rightarrow> ('a, 'z) fqlhandle_scheme option" where
  "link_exits [] h = Some h"
| "link_exits (k # ks) h = do {
     o' \<leftarrow> op_at h k;
     h1 \<leftarrow> (case o' of
       Branch b \<Rightarrow> if oper_type b \<noteq> FQL_IF then Some h else do {
         s \<leftarrow> scope_at h (Some (scope_of_branch b));
         if parent_scope s \<noteq> cur_scope h then Some h
         else put_next (last_true_block_query b) (int (length (query_vec h))) h }
     | Simple _ _ \<Rightarrow> Some h);
     link_exits ks h1
   }"

definition query_exit_branch :: "nat \<Rightarrow> ('a, 'z) fqlhandle_scheme \<Rightarrow> ('a, 'z) fqlhandle_scheme option" where
  "query_exit_branch self h = do {
     b \<leftarrow> branch_at h self;
     s \<leftarrow> scope_at h (Some (scope_of_branch b));
     let h1 = h\<lparr>cur_scope := parent_scope s,
       branch_state := (if parent_scope s = Some (global_scope h) then BRANCH_NO_BRANCH else BRANCH_EXPECT_EXPR)\<rparr>;
     if oper_type b \<noteq> FQL_IF then Some h1 else link_exits [self..<length (query_vec h)] h1
   }"

text \<open>\<open>query_exit_query\<close> first links the branch that ends, then tells the one around it.\<close>

definition link_branch :: "nat \<Rightarrow> ('a, 'z) fqlhandle_scheme \<Rightarrow> ('a, 'z) fqlhandle_scheme option" where
  "link_branch prev h = do {
     o' \<leftarrow> op_at h prev;
     case o' of
       Branch b \<Rightarrow> put_next (last_true_block_query b)
         (if oper_type b = FQL_IF then int (length (query_vec h)) else int prev) h
     | Simple _ _ \<Rightarrow> Some h
   }"

definition leave_to_parent :: "nat \<Rightarrow> nat \<Rightarrow> ('a, 'z) fqlhandle_scheme \<Rightarrow> ('a, 'z) fqlhandle_scheme option" where
  "leave_to_parent self prev h = (if branch_state h \<noteq> BRANCH_EXPECT_EXPR then Some h else do {
     b \<leftarrow> branch_at h self;
     o' \<leftarrow> op_at h prev;
     let h1 = (case o' of
         Branch pb \<Rightarrow> if oper_type pb = FQL_IF \<and> is_elseif pb then h
           else upd_branch self (\<lambda>b. b\<lparr>last_true_block_query := Some prev\<rparr>) h
       | Simple _ _ \<Rightarrow> upd_branch self (\<lambda>b. b\<lparr>last_true_block_query := Some prev\<rparr>) h);
     s \<leftarrow> scope_at h1 (cur_scope h1);
     Some (if is_in_block s then h1
       else if expect_else b then h1\<lparr>branch_state := BRANCH_EXPECT_ELSE\<rparr>
       else upd_branch self (\<lambda>b. b\<lparr>on_false := int (length (query_vec h1))\<rparr>) (h1\<lparr>branch_state := BRANCH_EXPECT_EXIT\<rparr>))
   })"

definition query_exit_query :: "nat option \<Rightarrow> nat \<Rightarrow> ('a, 'z) fqlhandle_scheme \<Rightarrow> ('a, 'z) fqlhandle_scheme option" where
  "query_exit_query self prev h = do {
     h1 \<leftarrow> link_branch prev h;
     case self of
       None \<Rightarrow> Some (h1\<lparr>branch_state := BRANCH_NO_BRANCH\<rparr>)
     | Some p \<Rightarrow> leave_to_parent p prev h1
   }"

section \<open>The walk of the parse tree\<close>

record 'a listener = "'a fqlhandle" +
  active :: "nat option"
  query_stack :: "nat list"
  entering_block_stmt :: bool
  exiting_block_stmt :: bool

definition enterSql_clauses :: "'a listener \<Rightarrow> 'a listener" where
  "enterSql_clauses l = (if entering_block_stmt l then l\<lparr>entering_block_stmt := False\<rparr>
     else (case query_enter_query l of (q, l1) \<Rightarrow> l1\<lparr>active := Some q, query_stack := q # query_stack l1\<rparr>))"

definition exitSql_clauses :: "'a listener \<Rightarrow> 'a listener option" where
  "exitSql_clauses l = (if exiting_block_stmt l then Some (l\<lparr>exiting_block_stmt := False\<rparr>)
     else do {
       _ \<leftarrow> active l;
       case query_stack l of
         [] \<Rightarrow> None
       | prev # st \<Rightarrow> (let up = (case st of [] \<Rightarrow> None | q # _ \<Rightarrow> Some q) in
           query_exit_query up prev (l\<lparr>query_stack := st, active := up\<rparr>))
     })"

definition enterIf_statement :: "'a \<Rightarrow> bool \<Rightarrow> 'a listener \<Rightarrow> 'a listener option" where
  "enterIf_statement c els l = do { q \<leftarrow> active l; query_enter_if q (query_stack l) FQL_IF els c l }"

definition exitIf_statement :: "'a listener \<Rightarrow> 'a listener option" where
  "exitIf_statement l = do { q \<leftarrow> active l; query_exit_branch q l }"

definition enterWhile_statement :: "'a \<Rightarrow> 'a listener \<Rightarrow> 'a listener option" where
  "enterWhile_statement c l = do { q \<leftarrow> active l; query_init_op q (query_stack l) FQL_WHILE c l }"

definition exitWhile_statement :: "'a listener \<Rightarrow> 'a listener option" where
  "exitWhile_statement l = do { q \<leftarrow> active l; query_exit_branch q l }"

definition enterBlock_statement :: "'a listener \<Rightarrow> 'a listener option" where
  "enterBlock_statement l = do { _ \<leftarrow> active l; query_enter_block (l\<lparr>entering_block_stmt := True\<rparr>) }"

definition exitBlock_statement :: "'a listener \<Rightarrow> 'a listener option" where
  "exitBlock_statement l = do { q \<leftarrow> active l; query_exit_block q (l\<lparr>exiting_block_stmt := True\<rparr>) }"

text \<open>SELECT, DELETE, UPDATE, SET and DECLARE.\<close>

definition enter_plain :: "fql_operation \<Rightarrow> 'a \<Rightarrow> 'a listener \<Rightarrow> 'a listener option" where
  "enter_plain oper a l = do { q \<leftarrow> active l; query_init_op q (query_stack l) oper a l }"

text \<open>
  A subquery is a query of its own outside the vector, on top of the stack while it is read. Its
  SELECT calls \<open>query_init_op\<close> too, which has an effect on the batch only where an ELSE is
  expected: there the query around it is read as the IF. How many subqueries a statement or a
  condition holds is the function \<open>subs\<close>.
\<close>

definition enter_subquery :: "'a listener \<Rightarrow> 'a listener option" where
  "enter_subquery l = (if branch_state l = BRANCH_EXPECT_ELSE then enter_else 0 (0 # query_stack l) FQL_SELECT l else Some l)"

primrec enter_subqueries :: "nat \<Rightarrow> 'a listener \<Rightarrow> 'a listener option" where
  "enter_subqueries 0 l = Some l"
| "enter_subqueries (Suc n) l = enter_subquery l \<bind> enter_subqueries n"

lemma enter_subqueries_idle [simp]: "branch_state l \<noteq> BRANCH_EXPECT_ELSE \<Longrightarrow> enter_subqueries n l = Some l"
  by (induction n) (simp_all add: enter_subquery_def)

text \<open>The statements of the grammar; a lone semicolon is one as well.\<close>

datatype 'a stmt =
    Plain fql_operation 'a
  | Semi
  | If 'a "'a stmt"
  | IfElse 'a "'a stmt" "'a stmt"
  | While 'a "'a stmt"
  | Block "'a stmt list"

fun statement :: "('a \<Rightarrow> nat) \<Rightarrow> 'a stmt \<Rightarrow> 'a listener \<Rightarrow> 'a listener option"
and sql_clauses :: "('a \<Rightarrow> nat) \<Rightarrow> 'a stmt list \<Rightarrow> 'a listener \<Rightarrow> 'a listener option" where
  "statement subs (Plain oper a) l = enter_plain oper a l \<bind> enter_subqueries (subs a)"
| "statement subs Semi l = Some l"
| "statement subs (If c s) l = enterIf_statement c False l \<bind> enter_subqueries (subs c)
     \<bind> (\<lambda>l. statement subs s (enterSql_clauses l)) \<bind> exitSql_clauses \<bind> exitIf_statement"
| "statement subs (IfElse c s t) l = enterIf_statement c True l \<bind> enter_subqueries (subs c)
     \<bind> (\<lambda>l. statement subs s (enterSql_clauses l)) \<bind> exitSql_clauses
     \<bind> (\<lambda>l. statement subs t (enterSql_clauses l)) \<bind> exitSql_clauses \<bind> exitIf_statement"
| "statement subs (While c s) l = enterWhile_statement c l \<bind> enter_subqueries (subs c)
     \<bind> (\<lambda>l. statement subs s (enterSql_clauses l)) \<bind> exitSql_clauses \<bind> exitWhile_statement"
| "statement subs (Block ss) l = enterBlock_statement l \<bind> sql_clauses subs ss \<bind> exitBlock_statement"
| "sql_clauses subs [] l = Some l"
| "sql_clauses subs (s # ss) l = statement subs s (enterSql_clauses l) \<bind> exitSql_clauses \<bind> sql_clauses subs ss"

definition listener_of :: "'a fqlhandle \<Rightarrow> 'a listener" where
  "listener_of h = fqlhandle.extend h \<lparr>active = None, query_stack = [], entering_block_stmt = False, exiting_block_stmt = False\<rparr>"

definition analyze_query :: "('a \<Rightarrow> nat) \<Rightarrow> 'a stmt list \<Rightarrow> 'a fqlhandle \<Rightarrow> 'a fqlhandle option" where
  "analyze_query subs p h = map_option fqlhandle.truncate (sql_clauses subs p (listener_of h))"

text \<open>A new handle; \<open>branch_state\<close> starts like inside a branch.\<close>

definition fql_construct :: "'a fqlhandle" where
  "fql_construct = \<lparr>scopes = [scope_construct], cur_scope = Some 0, global_scope = 0, query_vec = [], query_idx = 0,
     branch_state = BRANCH_EXPECT_EXPR\<rparr>"

section \<open>Running the queries\<close>

text \<open>
  \<open>fql_reset\<close> leaves \<open>branch_state\<close> as it was. Of a plan, its run and (for IF and WHILE) the value
  of its condition are arguments; either may change the state \<open>'s\<close> of tables and variables.
\<close>

definition scope_reset :: "scope \<Rightarrow> scope" where
  "scope_reset s = s\<lparr>variable_map := Map.empty\<rparr>"

definition fql_reset :: "'a fqlhandle \<Rightarrow> 'a fqlhandle" where
  "fql_reset h = h\<lparr>query_vec := [], query_idx := 0,
     scopes := (scopes h)[global_scope h := scope_reset (scopes h ! global_scope h)], cur_scope := Some (global_scope h)\<rparr>"

definition exec_query :: "('a \<Rightarrow> ('s, unit) act) \<Rightarrow> ('a \<Rightarrow> ('s, bool) act) \<Rightarrow> nat \<Rightarrow> 'a fqlhandle \<Rightarrow> 's \<Rightarrow> unit outcome \<times> 'a fqlhandle \<times> 's" where
  "exec_query run_plan test q h s = (case q_op (query_vec h ! q) of
     None \<Rightarrow> (Crash, h, s)
   | Some (Simple _ a) \<Rightarrow> (case run_plan a s of (r, s1) \<Rightarrow> (r, h, s1))
   | Some (Branch b) \<Rightarrow> (case test (condition b) s of
       (Good result, s1) \<Rightarrow> (Good (), upd_query q (\<lambda>x. x\<lparr>next_idx := (if result then on_true b else on_false b)\<rparr>) h, s1)
     | (Fail, s1) \<Rightarrow> (Fail, h, s1)
     | (_, s1) \<Rightarrow> (Crash, h, s1)))"

definition exec_end :: "unit outcome \<Rightarrow> 'a fqlhandle \<Rightarrow> 's \<Rightarrow> unit outcome \<times> 'a fqlhandle \<times> 's" where
  "exec_end ret h s = (ret, if ret = Fail \<or> length (query_vec h) \<le> query_idx h then fql_reset h else h, s)"

text \<open>\<open>next_idx\<close> is an \<open>int\<close>, \<open>query_idx\<close> an \<open>unsigned\<close>.\<close>

definition to_unsigned :: "int \<Rightarrow> nat" where
  "to_unsigned n = nat (n mod 2 ^ 32)"

fun fql_exec_plans :: "('a \<Rightarrow> ('s, unit) act) \<Rightarrow> ('a \<Rightarrow> ('s, bool) act) \<Rightarrow> nat \<Rightarrow> 'a fqlhandle \<Rightarrow> 's \<Rightarrow> unit outcome \<times> 'a fqlhandle \<times> 's" where
  "fql_exec_plans run_plan test 0 h s = exec_end (Good ()) h s"
| "fql_exec_plans run_plan test (Suc n) h s =
    (if length (query_vec h) \<le> query_idx h then exec_end (Good ()) h s
     else if has_stepped (query_vec h ! query_idx h) then (Fail, h, s)
     else (case exec_query run_plan test (query_idx h) h s of
       (Good _, h1, s1) \<Rightarrow> fql_exec_plans run_plan test n
          (h1\<lparr>query_idx := to_unsigned (next_idx (query_vec h1 ! query_idx h))\<rparr>) s1
     | (Fail, h1, s1) \<Rightarrow> exec_end Fail h1 s1
     | (_, h1, s1) \<Rightarrow> (Crash, h1, s1)))"

end
