(* ===== verification/ControlSpec.thy ===== *)
theory ControlSpec
  imports Control
begin

text \<open>
  What the jumps of Control.thy mean. \<open>run_program\<close> runs a batch by its structure; \<open>laid\<close> says
  that a statement stands in the query vector at some place and leaves for another; a batch that
  is laid out runs as its structure says. The rest shows that the listener lays out every batch
  of \<open>well_nested\<close> statements.
\<close>

section \<open>The meaning of a batch\<close>

text \<open>
  One unit of \<open>n\<close> is spent on each statement and each condition. The flag tells whether the batch
  has ended, by running out or by a failure.
\<close>

function (sequential) run_program :: "('a \<Rightarrow> ('s, unit) act) \<Rightarrow> ('a \<Rightarrow> ('s, bool) act) \<Rightarrow> nat \<Rightarrow> 'a stmt list \<Rightarrow> 's \<Rightarrow> unit outcome \<times> bool \<times> 's" where
  "run_program r t n [] s = (Good (), True, s)"
| "run_program r t n (Block ss # ks) s = run_program r t n (ss @ ks) s"
| "run_program r t n (Semi # ks) s = run_program r t n ks s"
| "run_program r t 0 (k # ks) s = (Good (), False, s)"
| "run_program r t (Suc n) (Plain oper a # ks) s = (case r a s of
     (Good _, s1) \<Rightarrow> run_program r t n ks s1 | (Fail, s1) \<Rightarrow> (Fail, True, s1) | (_, s1) \<Rightarrow> (Crash, False, s1))"
| "run_program r t (Suc n) (If c x # ks) s = (case t c s of
     (Good b, s1) \<Rightarrow> run_program r t n (if b then x # ks else ks) s1 | (Fail, s1) \<Rightarrow> (Fail, True, s1) | (_, s1) \<Rightarrow> (Crash, False, s1))"
| "run_program r t (Suc n) (IfElse c x y # ks) s = (case t c s of
     (Good b, s1) \<Rightarrow> run_program r t n (if b then x # ks else y # ks) s1 | (Fail, s1) \<Rightarrow> (Fail, True, s1) | (_, s1) \<Rightarrow> (Crash, False, s1))"
| "run_program r t (Suc n) (While c x # ks) s = (case t c s of
     (Good b, s1) \<Rightarrow> run_program r t n (if b then x # While c x # ks else ks) s1 | (Fail, s1) \<Rightarrow> (Fail, True, s1) | (_, s1) \<Rightarrow> (Crash, False, s1))"
  by pat_completeness auto

termination
  by (relation "measures [\<lambda>(r, t, n, ks, s). n, \<lambda>(r, t, n, ks, s). size_list size ks]") auto

section \<open>Statements in the query vector\<close>

datatype 'a instr = Run 'a int | Test 'a int int

definition instr_of :: "'a query \<Rightarrow> 'a instr option" where
  "instr_of q = (case q_op q of None \<Rightarrow> None | Some (Simple _ a) \<Rightarrow> Some (Run a (next_idx q))
     | Some (Branch b) \<Rightarrow> Some (Test (condition b) (on_true b) (on_false b)))"

definition code_of :: "('a, 'z) fqlhandle_scheme \<Rightarrow> 'a instr option list" where
  "code_of h = map instr_of (query_vec h)"

fun stmt_width :: "'a stmt \<Rightarrow> nat" and stmts_width :: "'a stmt list \<Rightarrow> nat" where
  "stmt_width (Plain oper a) = 1"
| "stmt_width Semi = 1"
| "stmt_width (If c x) = 1 + stmt_width x"
| "stmt_width (IfElse c x y) = 1 + stmt_width x + stmt_width y"
| "stmt_width (While c x) = 1 + stmt_width x"
| "stmt_width (Block ss) = stmts_width ss"
| "stmts_width [] = 0"
| "stmts_width (x # xs) = stmt_width x + stmts_width xs"

definition holds_at :: "'a instr option list \<Rightarrow> nat \<Rightarrow> 'a instr \<Rightarrow> bool" where
  "holds_at cs i c = (i < length cs \<and> cs ! i = Some c)"

fun laid :: "'a instr option list \<Rightarrow> 'a stmt \<Rightarrow> nat \<Rightarrow> nat \<Rightarrow> bool"
and laids :: "'a instr option list \<Rightarrow> 'a stmt list \<Rightarrow> nat \<Rightarrow> nat \<Rightarrow> bool" where
  "laid cs (Plain oper a) i j = holds_at cs i (Run a (int j))"
| "laid cs Semi i j = False"
| "laid cs (If c x) i j = (holds_at cs i (Test c (int (i + 1)) (int j)) \<and> laid cs x (i + 1) j)"
| "laid cs (IfElse c x y) i j = (holds_at cs i (Test c (int (i + 1)) (int (i + 1 + stmt_width x))) \<and>
     laid cs x (i + 1) j \<and> laid cs y (i + 1 + stmt_width x) j)"
| "laid cs (While c x) i j = (holds_at cs i (Test c (int (i + 1)) (int j)) \<and> laid cs x (i + 1) i)"
| "laid cs (Block ss) i j = laids cs ss i j"
| "laids cs [] i j = (i = j)"
| "laids cs [x] i j = laid cs x i j"
| "laids cs (x # y # ys) i j = (laid cs x i (i + stmt_width x) \<and> laids cs (y # ys) (i + stmt_width x) j)"

fun rest_laid :: "'a instr option list \<Rightarrow> 'a stmt list \<Rightarrow> nat \<Rightarrow> bool" where
  "rest_laid cs [] i = (i = length cs)"
| "rest_laid cs (k # ks) i = (\<exists>j. laid cs k i j \<and> rest_laid cs ks j)"

lemma rest_laid_append: "laids cs ss i j \<Longrightarrow> rest_laid cs ks j \<Longrightarrow> rest_laid cs (ss @ ks) i"
proof (induction ss arbitrary: i)
  case (Cons x ss)
  then show ?case by (cases ss) auto
qed simp

lemma rest_laid_at: "laid cs k i j \<Longrightarrow> (case k of Block _ \<Rightarrow> True | _ \<Rightarrow> i < length cs)"
  by (cases k) (auto simp: holds_at_def)


definition ran :: "unit outcome \<times> 'a fqlhandle \<times> 's \<Rightarrow> unit outcome \<times> bool \<times> 's" where
  "ran x = (case x of (r, h, s) \<Rightarrow> (r, query_vec h = [], s))"

definition runnable :: "'a stmt list \<Rightarrow> 'a fqlhandle \<Rightarrow> bool" where
  "runnable ks h = (rest_laid (code_of h) ks (query_idx h) \<and> length (query_vec h) < 2 ^ 32 \<and>
     (\<forall>q\<in>set (query_vec h). \<not> has_stepped q))"

lemma instr_of_Test: "instr_of q = Some (Test c n m) \<Longrightarrow> \<exists>b. q_op q = Some (Branch b) \<and> condition b = c \<and> on_true b = n \<and> on_false b = m"
  by (auto simp: instr_of_def split: option.splits operation.splits)

lemma instr_of_Run: "instr_of q = Some (Run a n) \<Longrightarrow> \<exists>oper. q_op q = Some (Simple oper a) \<and> next_idx q = n"
  by (auto simp: instr_of_def split: option.splits operation.splits)

lemma holds_at_query: "holds_at (code_of h) i c \<Longrightarrow> i < length (query_vec h) \<and> instr_of (query_vec h ! i) = Some c"
  by (auto simp: holds_at_def code_of_def)

lemma code_of_jump: "q_op (query_vec h ! q) = Some (Branch b) \<Longrightarrow> code_of (upd_query q (\<lambda>x. x\<lparr>next_idx := n\<rparr>) h) = code_of h"
  by (cases "q < length (query_vec h)")
    (simp_all add: code_of_def upd_query_def map_update list_update_same_conv instr_of_def list_update_beyond)

lemma length_upd_query [simp]: "length (query_vec (upd_query q f h)) = length (query_vec h)"
  by (simp add: upd_query_def)

lemma stepped_upd_query: "\<forall>q\<in>set (query_vec h). \<not> has_stepped q \<Longrightarrow> (\<And>x. has_stepped (f x) = has_stepped x) \<Longrightarrow>
    q < length (query_vec h) \<Longrightarrow> \<forall>q\<in>set (query_vec (upd_query q f h)). \<not> has_stepped q"
  by (auto simp: upd_query_def dest!: subsetD [OF set_update_subset_insert])

lemma idx_back: "n < 2 ^ 32 \<Longrightarrow> to_unsigned (int n) = n"
  by (simp add: to_unsigned_def nat_mod_distrib)

lemma laid_start:
  "laid cs k i j \<Longrightarrow> i < length cs \<or> i = j"
  "laids cs ks i j \<Longrightarrow> i < length cs \<or> i = j"
  by (induction cs k i j and cs ks i j rule: laid_laids.induct) (auto simp: holds_at_def)

lemma rest_laid_bound: "rest_laid cs ks i \<Longrightarrow> i \<le> length cs"
  by (induction ks arbitrary: i) (auto dest: laid_start(1))

lemma exec_end_ran: "ran (exec_end (Good ()) h s) = (Good (), length (query_vec h) \<le> query_idx h, s)"
  by (auto simp: ran_def exec_end_def fql_reset_def)

lemma exec_fail_ran: "ran (exec_end Fail h s) = (Fail, True, s)"
  by (simp add: ran_def exec_end_def fql_reset_def)

lemma run_one:
  assumes "runnable (k # ks) h" and "holds_at (code_of h) (query_idx h) (Run a (int j))" and "rest_laid (code_of h) ks j"
    and follows: "\<And>s1. r a s = (Good (), s1) \<Longrightarrow> ran (fql_exec_plans r t n (h\<lparr>query_idx := j\<rparr>) s1) = run_program r t n ks s1"
  shows "ran (fql_exec_plans r t (Suc n) h s) = (case r a s of
     (Good _, s1) \<Rightarrow> run_program r t n ks s1 | (Fail, s1) \<Rightarrow> (Fail, True, s1) | (_, s1) \<Rightarrow> (Crash, False, s1))"
proof -
  let ?q = "query_vec h ! query_idx h"
  obtain oper where q: "query_idx h < length (query_vec h)" "q_op ?q = Some (Simple oper a)" "next_idx ?q = int j"
    using holds_at_query [OF assms(2)] instr_of_Run by metis
  have "j < 2 ^ 32"
    using rest_laid_bound [OF assms(3)] assms(1) by (simp add: runnable_def code_of_def)
  note j = idx_back [OF this]
  have "\<not> has_stepped ?q" using assms(1) q(1) by (simp add: runnable_def)
  moreover have "query_vec h \<noteq> []" using q(1) by auto
  moreover obtain v s1 where v: "r a s = (v, s1)" by fastforce
  moreover have "exec_query r t (query_idx h) h s = (v, h, s1)"
    using q v by (simp add: exec_query_def)
  ultimately show ?thesis
    using q j follows [of s1] by (cases v) (simp_all add: exec_fail_ran ran_def [of "(Crash, _)"])
qed

lemma test_one:
  assumes "runnable (k # ks) h" and "holds_at (code_of h) (query_idx h) (Test c (int j1) (int j2))"
    and "rest_laid (code_of h) ks1 j1" and "rest_laid (code_of h) ks2 j2"
    and follows: "\<And>b h1 s1. t c s = (Good b, s1) \<Longrightarrow> runnable (if b then ks1 else ks2) h1 \<Longrightarrow>
      ran (fql_exec_plans r t n h1 s1) = run_program r t n (if b then ks1 else ks2) s1"
  shows "ran (fql_exec_plans r t (Suc n) h s) = (case t c s of
     (Good b, s1) \<Rightarrow> run_program r t n (if b then ks1 else ks2) s1 | (Fail, s1) \<Rightarrow> (Fail, True, s1) | (_, s1) \<Rightarrow> (Crash, False, s1))"
proof -
  let ?i = "query_idx h"
  obtain b where q: "?i < length (query_vec h)" "q_op (query_vec h ! ?i) = Some (Branch b)" "condition b = c" "on_true b = int j1" "on_false b = int j2"
    using holds_at_query [OF assms(2)] instr_of_Test by metis
  have "j1 < 2 ^ 32" "j2 < 2 ^ 32"
    using rest_laid_bound [OF assms(3)] rest_laid_bound [OF assms(4)] assms(1) by (simp_all add: runnable_def code_of_def)
  then have unsig: "to_unsigned (if v then on_true b else on_false b) = (if v then j1 else j2)" for v
    using q idx_back by auto
  let ?h = "\<lambda>v. upd_query ?i (\<lambda>x. x\<lparr>next_idx := (if v then on_true b else on_false b)\<rparr>) h"
  have goes: "next_idx (query_vec (?h v) ! ?i) = (if v then on_true b else on_false b)" for v
    using q(1) by (simp add: upd_query_def)
  have "runnable (if v then ks1 else ks2) (?h v\<lparr>query_idx := if v then j1 else j2\<rparr>)" for v
    using assms(1,3,4) q(1) code_of_jump [OF q(2), of "if v then on_true b else on_false b"]
      stepped_upd_query [of h "\<lambda>x. x\<lparr>next_idx := (if v then on_true b else on_false b)\<rparr>" ?i]
    by (simp add: runnable_def code_of_def)
  note f = follows [OF _ this]
  have "\<not> has_stepped (query_vec h ! ?i)" using assms(1) q(1) by (simp add: runnable_def)
  moreover have "query_vec h \<noteq> []" using q(1) by auto
  moreover obtain v s1 where "t c s = (v, s1)" by fastforce
  ultimately show ?thesis
    using q(1,2,3) by (cases v) (simp_all add: exec_query_def exec_fail_ran goes unsig f, simp_all add: ran_def)
qed

lemma exec_follows:
  "runnable ks h \<Longrightarrow> ran (fql_exec_plans r t n h s) = run_program r t n ks s"
proof (induction r t n ks s arbitrary: h rule: run_program.induct)
  case (1 r t n s)
  then show ?case by (cases n) (simp_all add: runnable_def exec_end_ran code_of_def)
next
  case (2 r t n ss ks s)
  then show ?case by (auto simp: runnable_def intro: rest_laid_append)
next
  case (3 r t n ks s)
  then show ?case by (simp add: runnable_def)
next
  case (5 r t n oper a ks s)
  then obtain j where j: "holds_at (code_of h) (query_idx h) (Run a (int j))" "rest_laid (code_of h) ks j"
    by (auto simp: runnable_def)
  have "runnable ks (h\<lparr>query_idx := j\<rparr>)"
    using 5(2) j(2) by (simp add: runnable_def code_of_def)
  then have "ran (fql_exec_plans r t n (h\<lparr>query_idx := j\<rparr>) s1) = run_program r t n ks s1" if "r a s = (Good (), s1)" for s1
    using 5(1) that by simp
  from run_one [OF 5(2) j this] show ?case by simp
next
  case (6 r t n c x ks s)
  then obtain j where j: "holds_at (code_of h) (query_idx h) (Test c (int (query_idx h + 1)) (int j))"
      "laid (code_of h) x (query_idx h + 1) j" "rest_laid (code_of h) ks j"
    by (auto simp: runnable_def)
  have rest: "rest_laid (code_of h) (x # ks) (query_idx h + 1)" using j(2,3) by auto
  have "ran (fql_exec_plans r t n h1 s1) = run_program r t n (if b then x # ks else ks) s1"
    if "t c s = (Good b, s1)" "runnable (if b then x # ks else ks) h1" for b h1 s1
    using 6(1) that by simp
  from test_one [OF 6(2) j(1) rest j(3) this] show ?case by simp
next
  case (7 r t n c x y ks s)
  let ?y = "query_idx h + 1 + stmt_width x"
  from 7 obtain j where j: "holds_at (code_of h) (query_idx h) (Test c (int (query_idx h + 1)) (int ?y))"
      "laid (code_of h) x (query_idx h + 1) j" "laid (code_of h) y ?y j" "rest_laid (code_of h) ks j"
    by (auto simp: runnable_def)
  have rest: "rest_laid (code_of h) (x # ks) (query_idx h + 1)" "rest_laid (code_of h) (y # ks) ?y" using j(2-4) by auto
  have "ran (fql_exec_plans r t n h1 s1) = run_program r t n (if b then x # ks else y # ks) s1"
    if "t c s = (Good b, s1)" "runnable (if b then x # ks else y # ks) h1" for b h1 s1
    using 7(1) that by simp
  from test_one [OF 7(2) j(1) rest this] show ?case by simp
next
  case (8 r t n c x ks s)
  then obtain j where j: "holds_at (code_of h) (query_idx h) (Test c (int (query_idx h + 1)) (int j))"
      "laid (code_of h) x (query_idx h + 1) (query_idx h)" "rest_laid (code_of h) ks j"
    by (auto simp: runnable_def)
  have rest: "rest_laid (code_of h) (x # While c x # ks) (query_idx h + 1)" using j by fastforce
  have "ran (fql_exec_plans r t n h1 s1) = run_program r t n (if b then x # While c x # ks else ks) s1"
    if "t c s = (Good b, s1)" "runnable (if b then x # While c x # ks else ks) h1" for b h1 s1
    using 8(1) that by simp
  from test_one [OF 8(2) j(1) rest j(3) this] show ?case by simp
qed (auto simp: runnable_def exec_end_ran code_of_def holds_at_def)


section \<open>Well nested statements\<close>

text \<open>
  The statements whose jumps come out as they should: a loop and the first branch of an IF with
  ELSE end in a plain statement, ELSE is followed by a plain statement or another IF, and blocks
  are not empty and occur as the bodies of IF and WHILE only.
\<close>

fun parts :: "'a stmt \<Rightarrow> 'a stmt list" where
  "parts (Block ss) = ss"
| "parts s = [s]"

fun is_plain :: "'a stmt \<Rightarrow> bool" where
  "is_plain (Plain oper a) = True"
| "is_plain s = False"

fun is_if :: "'a stmt \<Rightarrow> bool" where
  "is_if (If c x) = True"
| "is_if (IfElse c x y) = True"
| "is_if s = False"

definition ends_plain :: "'a stmt \<Rightarrow> bool" where
  "ends_plain s = (parts s \<noteq> [] \<and> is_plain (last (parts s)))"

fun bare_else :: "('a \<Rightarrow> nat) \<Rightarrow> 'a stmt \<Rightarrow> bool" where
  "bare_else subs (Plain oper a) = (subs a = 0)"
| "bare_else subs s = False"

fun well_nested :: "('a \<Rightarrow> nat) \<Rightarrow> bool \<Rightarrow> 'a stmt \<Rightarrow> bool" where
  "well_nested subs blk (Plain oper a) = (oper \<noteq> FQL_IF \<and> oper \<noteq> FQL_WHILE)"
| "well_nested subs blk Semi = False"
| "well_nested subs blk (If c x) = well_nested subs True x"
| "well_nested subs blk (IfElse c x y) = (well_nested subs True x \<and> ends_plain x \<and> well_nested subs False y \<and> (bare_else subs y \<or> is_if y))"
| "well_nested subs blk (While c x) = (well_nested subs True x \<and> ends_plain x)"
| "well_nested subs blk (Block ss) = (blk \<and> ss \<noteq> [] \<and> list_all (well_nested subs False) ss)"

lemma well_nested_parts: "well_nested subs True x \<Longrightarrow> parts x \<noteq> [] \<and> (\<forall>y\<in>set (parts x). well_nested subs False y)"
  by (cases x) (auto simp: list_all_iff)

lemma laid_parts: "laid cs x i j = laids cs (parts x) i j"
  by (cases x) auto

lemma width_parts: "stmt_width x = stmts_width (parts x)"
  by (cases x) auto

lemma widths_append [simp]: "stmts_width (xs @ ys) = stmts_width xs + stmts_width ys"
  by (induction xs) auto

lemma width_pos: "well_nested subs False x \<Longrightarrow> 0 < stmt_width x"
  by (cases x) auto

lemma laid_cong:
  "length cs = length cs' \<Longrightarrow> (\<And>k. i \<le> k \<Longrightarrow> k < i + stmt_width x \<Longrightarrow> cs ! k = cs' ! k) \<Longrightarrow> laid cs x i j = laid cs' x i j"
  "length cs = length cs' \<Longrightarrow> (\<And>k. i \<le> k \<Longrightarrow> k < i + stmts_width xs \<Longrightarrow> cs ! k = cs' ! k) \<Longrightarrow> laids cs xs i j = laids cs' xs i j"
proof (induction cs x i j and cs xs i j rule: laid_laids.induct)
qed (auto simp: holds_at_def)

lemma laid_more:
  "length cs \<le> length cs' \<Longrightarrow> (\<And>k. i \<le> k \<Longrightarrow> k < i + stmt_width x \<Longrightarrow> k < length cs \<Longrightarrow> cs ! k = cs' ! k) \<Longrightarrow> laid cs x i j \<Longrightarrow> laid cs' x i j"
  "length cs \<le> length cs' \<Longrightarrow> (\<And>k. i \<le> k \<Longrightarrow> k < i + stmts_width xs \<Longrightarrow> k < length cs \<Longrightarrow> cs ! k = cs' ! k) \<Longrightarrow> laids cs xs i j \<Longrightarrow> laids cs' xs i j"
proof (induction cs x i j and cs xs i j rule: laid_laids.induct)
qed (auto simp: holds_at_def)

lemma laids_snoc:
  "xs \<noteq> [] \<Longrightarrow> laids cs (xs @ [x]) i j = (laids cs xs i (i + stmts_width xs) \<and> laid cs x (i + stmts_width xs) j)"
proof (induction xs arbitrary: i)
  case (Cons y xs)
  then show ?case by (cases xs) (auto simp: add.assoc)
qed simp

lemma laids_retarget:
  assumes "laids cs (xs @ [Plain oper a]) i j" "t = i + stmts_width xs"
  shows "laids (cs[t := Some (Run a (int j'))]) (xs @ [Plain oper a]) i j'"
proof (cases "xs = []")
  case True
  then show ?thesis using assms by (auto simp: holds_at_def)
next
  case False
  have "laids (cs[t := Some (Run a (int j'))]) xs i t"
    by (rule laid_more(2) [of cs]) (use assms False in \<open>auto simp: laids_snoc\<close>)
  then show ?thesis using assms False by (auto simp: laids_snoc holds_at_def)
qed


section \<open>The state of the listener\<close>

lemma upd_query_sel [simp]:
  "scopes (upd_query q f l) = scopes l" "cur_scope (upd_query q f l) = cur_scope l"
  "global_scope (upd_query q f l) = global_scope l" "query_idx (upd_query q f l) = query_idx l"
  "branch_state (upd_query q f l) = branch_state l"
  by (simp_all add: upd_query_def)

lemma upd_query_listener [simp]:
  "active (upd_query q f l) = active l" "query_stack (upd_query q f l) = query_stack l"
  "entering_block_stmt (upd_query q f l) = entering_block_stmt l" "exiting_block_stmt (upd_query q f l) = exiting_block_stmt l"
  by (simp_all add: upd_query_def)

lemma upd_query_vec: "query_vec (upd_query q f l) = (query_vec l)[q := f (query_vec l ! q)]"
  by (simp add: upd_query_def)

text \<open>All of a query but the \<open>next_idx\<close> of a branch, which the branch itself sets.\<close>

definition sig :: "'a query \<Rightarrow> 'a operation option \<times> 'a instr option \<times> bool" where
  "sig q = (q_op q, instr_of q, has_stepped q)"

lemma sigD: "sig q = sig q' \<Longrightarrow> q_op q = q_op q' \<and> instr_of q = instr_of q' \<and> has_stepped q = has_stepped q'"
  by (simp add: sig_def)

text \<open>What a statement leaves alone: the queries before \<open>i\<close>, the first \<open>n\<close> scopes, the listener.\<close>

definition kept :: "nat \<Rightarrow> nat \<Rightarrow> 'a listener \<Rightarrow> 'a listener \<Rightarrow> bool" where
  "kept i n l l' = (take i (map sig (query_vec l')) = take i (map sig (query_vec l)) \<and> i \<le> length (query_vec l') \<and>
     take n (scopes l') = take n (scopes l) \<and> n \<le> length (scopes l') \<and>
     global_scope l' = global_scope l \<and> query_idx l' = query_idx l \<and>
     query_stack l' = query_stack l \<and> active l' = active l \<and>
     \<not> entering_block_stmt l' \<and> \<not> exiting_block_stmt l')"

lemma kept_trans: "kept i n l l1 \<Longrightarrow> kept i n l1 l2 \<Longrightarrow> kept i n l l2"
  by (simp add: kept_def)

lemma kept_query:
  assumes "kept i n l l'" "k < i" "i \<le> length (query_vec l)"
  shows "sig (query_vec l' ! k) = sig (query_vec l ! k)"
proof -
  have "take i (map sig (query_vec l')) ! k = take i (map sig (query_vec l)) ! k" using assms(1) by (simp add: kept_def)
  then show ?thesis using assms by (simp add: kept_def)
qed

lemma kept_scope: "kept i n l l' \<Longrightarrow> k < n \<Longrightarrow> scopes l' ! k = scopes l ! k"
  using nth_take [of k n "scopes l'"] nth_take [of k n "scopes l"] by (simp add: kept_def del: nth_take)

text \<open>The branches from \<open>i\<close> on have scopes that lie in scopes with \<open>X\<close>.\<close>

definition op_within :: "(nat \<Rightarrow> bool) \<Rightarrow> scope list \<Rightarrow> 'a operation option \<Rightarrow> bool" where
  "op_within X ss x = (case x of
      None \<Rightarrow> False
    | Some (Simple _ _) \<Rightarrow> True
    | Some (Branch b) \<Rightarrow> scope_of_branch b < length ss \<and> (\<exists>m. parent_scope (ss ! scope_of_branch b) = Some m \<and> X m))"

definition scoped :: "nat \<Rightarrow> (nat \<Rightarrow> bool) \<Rightarrow> ('a, 'z) fqlhandle_scheme \<Rightarrow> bool" where
  "scoped i X l = (\<forall>k. i \<le> k \<and> k < length (query_vec l) \<longrightarrow> op_within X (scopes l) (q_op (query_vec l ! k)))"

lemma op_within_simps [simp]:
  "op_within X ss None = False" "op_within X ss (Some (Simple oper a)) = True"
  "op_within X ss (Some (Branch b)) = (scope_of_branch b < length ss \<and> (\<exists>m. parent_scope (ss ! scope_of_branch b) = Some m \<and> X m))"
  by (simp_all add: op_within_def)

text \<open>The last query of a branch that is a branch itself, or goes on behind everything anyway.\<close>

definition settled :: "('a, 'z) fqlhandle_scheme \<Rightarrow> nat option \<Rightarrow> bool" where
  "settled l p = (case p of None \<Rightarrow> False | Some t \<Rightarrow> t < length (query_vec l) \<and>
     (case q_op (query_vec l ! t) of None \<Rightarrow> False
      | Some (Branch _) \<Rightarrow> True
      | Some (Simple _ _) \<Rightarrow> next_idx (query_vec l ! t) = int (length (query_vec l))))"

definition alike :: "('a, 'z) fqlhandle_scheme \<Rightarrow> ('a, 'z) fqlhandle_scheme \<Rightarrow> bool" where
  "alike l l' = (\<exists>v. l' = l\<lparr>query_vec := v\<rparr> \<and> map sig v = map sig (query_vec l))"

lemma alike_refl [simp]: "alike l l"
  unfolding alike_def by (rule exI [of _ "query_vec l"]) simp

lemma alike_trans: "alike l l1 \<Longrightarrow> alike l1 l2 \<Longrightarrow> alike l l2"
  unfolding alike_def by (elim exE) (rule_tac x = va in exI, simp)

lemma alike_facts:
  assumes "alike l l'"
  shows "length (query_vec l') = length (query_vec l)" and "code_of l' = code_of l"
    and "k < length (query_vec l) \<Longrightarrow> q_op (query_vec l' ! k) = q_op (query_vec l ! k)"
    and "scopes l' = scopes l" and "cur_scope l' = cur_scope l" and "branch_state l' = branch_state l"
    and "global_scope l' = global_scope l" and "query_idx l' = query_idx l"
    and "(\<forall>q\<in>set (query_vec l'). \<not> has_stepped q) = (\<forall>q\<in>set (query_vec l). \<not> has_stepped q)"
    and "map sig (query_vec l') = map sig (query_vec l)"
proof -
  obtain v where v: "l' = l\<lparr>query_vec := v\<rparr>" and m: "map sig v = map sig (query_vec l)"
    using assms by (auto simp: alike_def)
  have len: "length v = length (query_vec l)" using m by (rule map_eq_imp_length_eq)
  have eq: "sig (v ! k) = sig (query_vec l ! k)" if "k < length (query_vec l)" for k
    using arg_cong [OF m, of "\<lambda>x. x ! k"] len that by simp
  then show "q_op (query_vec l' ! k) = q_op (query_vec l ! k)" if "k < length (query_vec l)"
    using v that by (simp add: sig_def)
  show "code_of l' = code_of l"
    using eq len by (auto simp: v code_of_def sig_def intro: nth_equalityI)
  show "(\<forall>q\<in>set (query_vec l'). \<not> has_stepped q) = (\<forall>q\<in>set (query_vec l). \<not> has_stepped q)"
    using eq len by (auto simp: v all_set_conv_all_nth sig_def)
qed (use assms in \<open>auto simp: alike_def dest: map_eq_imp_length_eq\<close>)

lemma settled_alike: "alike l l' \<Longrightarrow> settled l' p = settled l p"
proof -
  assume a: "alike l l'"
  note f = alike_facts [OF a]
  have "next_idx (query_vec l' ! t) = next_idx (query_vec l ! t)"
    if "t < length (query_vec l)" "q_op (query_vec l ! t) = Some (Simple oper x)" for t oper x
  proof -
    have "instr_of (query_vec l' ! t) = instr_of (query_vec l ! t)"
      using f(1,2) that(1) by (metis code_of_def nth_map)
    then show ?thesis using f(3) [OF that(1)] that(2) by (simp add: instr_of_def)
  qed
  then show ?thesis
    using f(1,3) by (auto simp: settled_def split: option.splits operation.splits)
qed

lemma settled_frame [simp]: "settled (l\<lparr>cur_scope := c, branch_state := z\<rparr>) p = settled l p"
  by (auto simp: settled_def split: option.split operation.split)

lemma code_of_frame [simp]: "code_of (l\<lparr>cur_scope := c, branch_state := z\<rparr>) = code_of l"
  by (simp add: code_of_def)

lemma kept_frame [simp]: "kept i n l0 (l\<lparr>cur_scope := c, branch_state := z\<rparr>) = kept i n l0 l"
  by (simp add: kept_def)

lemma scoped_frame [simp]: "scoped i X (l\<lparr>cur_scope := c, branch_state := z\<rparr>) = scoped i X l"
  by (simp add: scoped_def)

lemma holds_Test:
  "i < length (query_vec l) \<Longrightarrow> q_op (query_vec l ! i) = Some (Branch b) \<Longrightarrow> holds_at (code_of l) i (Test (condition b) (on_true b) (on_false b))"
  by (simp add: holds_at_def code_of_def instr_of_def)

lemma put_next_settled:
  assumes "settled l p"
  shows "\<exists>l'. put_next p (int (length (query_vec l))) l = Some l' \<and> alike l l'"
proof -
  obtain t where t: "p = Some t" "t < length (query_vec l)" using assms by (auto simp: settled_def split: option.splits)
  let ?v = "(query_vec l)[t := (query_vec l ! t)\<lparr>next_idx := int (length (query_vec l))\<rparr>]"
  have i: "instr_of ((query_vec l ! t)\<lparr>next_idx := int (length (query_vec l))\<rparr>) = instr_of (query_vec l ! t)"
    using assms t(1) by (auto simp: settled_def instr_of_def split: option.splits operation.splits)
  have "alike l (upd_query t (\<lambda>x. x\<lparr>next_idx := int (length (query_vec l))\<rparr>) l)"
    unfolding alike_def upd_query_def using t(2)
    by (intro exI [of _ ?v]) (simp add: map_update list_update_same_conv i sig_def)
  then show ?thesis using t by (simp add: put_next_def query_at_def)
qed


definition exit_settled :: "('a, 'z) fqlhandle_scheme \<Rightarrow> nat option \<Rightarrow> nat \<Rightarrow> bool" where
  "exit_settled l c k = (\<forall>b. q_op (query_vec l ! k) = Some (Branch b) \<and> oper_type b = FQL_IF \<and>
     parent_scope (scopes l ! scope_of_branch b) = c \<longrightarrow> settled l (last_true_block_query b))"

lemma link_exits_settled:
  assumes "\<forall>k\<in>set ks. i \<le> k \<and> k < length (query_vec l) \<and> exit_settled l (cur_scope l) k" and "scoped i X l"
  shows "\<exists>l'. link_exits ks l = Some l' \<and> alike l l'"
  using assms
proof (induction ks arbitrary: l)
  case (Cons k ks)
  have k: "i \<le> k" "k < length (query_vec l)" "exit_settled l (cur_scope l) k" using Cons.prems(1) by auto
  obtain o' where o: "q_op (query_vec l ! k) = Some o'"
    using Cons.prems(2) k by (cases "q_op (query_vec l ! k)") (auto simp: scoped_def)
  have "\<exists>l1. (case o' of
       Branch b \<Rightarrow> if oper_type b \<noteq> FQL_IF then Some l else do {
         s \<leftarrow> scope_at l (Some (scope_of_branch b));
         if parent_scope s \<noteq> cur_scope l then Some l
         else put_next (last_true_block_query b) (int (length (query_vec l))) l }
     | Simple _ _ \<Rightarrow> Some l) = Some l1 \<and> alike l l1"
  proof (cases o')
    case (Branch b)
    have "scope_of_branch b < length (scopes l)"
      using Cons.prems(2) k o Branch by (force simp: scoped_def)
    then show ?thesis
      using k(3) o Branch put_next_settled [of l "last_true_block_query b"] by (auto simp: exit_settled_def scope_at_def)
  qed auto
  then obtain l1 where l1: "(case o' of
       Branch b \<Rightarrow> if oper_type b \<noteq> FQL_IF then Some l else do {
         s \<leftarrow> scope_at l (Some (scope_of_branch b));
         if parent_scope s \<noteq> cur_scope l then Some l
         else put_next (last_true_block_query b) (int (length (query_vec l))) l }
     | Simple _ _ \<Rightarrow> Some l) = Some l1" and a: "alike l l1" by blast
  note f = alike_facts [OF a]
  have "\<exists>l'. link_exits ks l1 = Some l' \<and> alike l1 l'"
  proof (rule Cons.IH)
    show "scoped i X l1" using Cons.prems(2) f by (simp add: scoped_def)
    show "\<forall>k\<in>set ks. i \<le> k \<and> k < length (query_vec l1) \<and> exit_settled l1 (cur_scope l1) k"
      using Cons.prems(1) f settled_alike [OF a] by (simp add: exit_settled_def)
  qed
  then show ?case
    using l1 o k(2) alike_trans [OF a] by (auto simp: op_at_def query_at_def)
qed simp

lemma op_at_frame: "op_at (l\<lparr>query_stack := st, active := a\<rparr>) m = op_at l m"
  by (simp add: op_at_def query_at_def)

lemma put_next_frame:
  "put_next p n (l\<lparr>query_stack := st, active := a\<rparr>) = map_option (\<lambda>l. l\<lparr>query_stack := st, active := a\<rparr>) (put_next p n l)"
  by (cases p) (simp_all add: put_next_def query_at_def upd_query_def)

lemma link_branch_frame:
  "link_branch m (l\<lparr>query_stack := st, active := a\<rparr>) = map_option (\<lambda>l. l\<lparr>query_stack := st, active := a\<rparr>) (link_branch m l)"
  by (cases "op_at l m") (auto simp: link_branch_def op_at_frame put_next_frame split: operation.split)

lemma put_next_plain:
  assumes "t < length (query_vec l)" "q_op (query_vec l ! t) = Some (Simple oper a)"
  shows "\<exists>l'. put_next (Some t) n l = Some l' \<and> l' = upd_query t (\<lambda>x. x\<lparr>next_idx := n\<rparr>) l \<and> code_of l' = (code_of l)[t := Some (Run a n)]"
  using assms by (auto simp: put_next_def query_at_def code_of_def upd_query_vec map_update instr_of_def)

section \<open>The body of a branch\<close>

definition in_body :: "nat \<Rightarrow> nat \<Rightarrow> nat \<Rightarrow> bool \<Rightarrow> 'a branch \<Rightarrow> 'a listener \<Rightarrow> 'a listener \<Rightarrow> bool" where
  "in_body i n sc blk b l0 l = (kept i n l0 l \<and> active l = Some i \<and> query_stack l \<noteq> [] \<and> hd (query_stack l) = i \<and>
     i < length (query_vec l) \<and> q_op (query_vec l ! i) = Some (Branch b) \<and>
     global_scope l = 0 \<and> sc < n \<and> scope_of_branch b = n \<and> n < length (scopes l) \<and>
     scopes l ! n = scope_construct\<lparr>parent_scope := Some sc, is_in_block := blk\<rparr> \<and> cur_scope l = Some n \<and>
     scoped (Suc i) (\<lambda>m. n \<le> m) l \<and> (\<forall>q\<in>set (query_vec l). \<not> has_stepped q))"

definition no_elseif :: "'a operation \<Rightarrow> bool" where
  "no_elseif x = (case x of Branch b \<Rightarrow> \<not> (oper_type b = FQL_IF \<and> is_elseif b) | Simple _ _ \<Rightarrow> True)"

definition after_part :: "bool \<Rightarrow> 'a branch \<Rightarrow> nat \<Rightarrow> nat \<Rightarrow> 'a branch" where
  "after_part blk b m e = (let b1 = b\<lparr>last_true_block_query := Some m\<rparr> in
     if blk \<or> expect_else b then b1 else b1\<lparr>on_false := int e\<rparr>)"

definition part_state :: "bool \<Rightarrow> 'a branch \<Rightarrow> branch_state" where
  "part_state blk b = (if blk then BRANCH_EXPECT_EXPR else if expect_else b then BRANCH_EXPECT_ELSE else BRANCH_EXPECT_EXIT)"

text \<open>Nothing but the queries changes, and of these only number \<open>i\<close>.\<close>

definition only_at :: "nat \<Rightarrow> ('a, 'z) fqlhandle_scheme \<Rightarrow> ('a, 'z) fqlhandle_scheme \<Rightarrow> bool" where
  "only_at i l l' = (length (query_vec l') = length (query_vec l) \<and> (\<forall>k. k \<noteq> i \<longrightarrow> query_vec l' ! k = query_vec l ! k))"

lemma settled_only_at: "only_at i l l' \<Longrightarrow> t \<noteq> i \<Longrightarrow> settled l' (Some t) = settled l (Some t)"
  by (auto simp: settled_def only_at_def split: option.split operation.split)

lemma leave_spec:
  assumes b: "in_body i n sc blk b l0 l" and bs: "branch_state l = BRANCH_EXPECT_EXPR"
    and m: "i < m" "m < length (query_vec l)" "q_op (query_vec l ! m) = Some x" "no_elseif x"
  shows "\<exists>l'. leave_to_parent i m l = Some l' \<and> in_body i n sc blk (after_part blk b m (length (query_vec l))) l0 l' \<and>
    branch_state l' = part_state blk b \<and> only_at i l l'"
proof -
  let ?b = "b\<lparr>last_true_block_query := Some m\<rparr>"
  let ?b' = "?b\<lparr>on_false := int (length (query_vec l))\<rparr>"
  let ?u = "\<lambda>c l. l\<lparr>query_vec := (query_vec l)[i := (query_vec l ! i)\<lparr>q_op := Some (Branch c)\<rparr>]\<rparr>"
  have i: "i < length (query_vec l)" "q_op (query_vec l ! i) = Some (Branch b)" using b by (simp_all add: in_body_def)
  have u: "upd_branch i (\<lambda>b. b\<lparr>last_true_block_query := Some m\<rparr>) l = ?u ?b l"
    "upd_branch i (\<lambda>b. b\<lparr>on_false := int (length (query_vec l))\<rparr>) (?u ?b l\<lparr>branch_state := z\<rparr>) = ?u ?b' l\<lparr>branch_state := z\<rparr>" for z
    using i by (simp_all add: upd_branch_def upd_query_def)
  have eq: "leave_to_parent i m l = Some (if blk then ?u ?b l
      else if expect_else b then ?u ?b l\<lparr>branch_state := BRANCH_EXPECT_ELSE\<rparr>
      else ?u ?b' l\<lparr>branch_state := BRANCH_EXPECT_EXIT\<rparr>)"
    using b m i u bs unfolding leave_to_parent_def no_elseif_def in_body_def
    by (auto simp: branch_at_def op_at_def query_at_def scope_at_def split: operation.splits)
  have body: "in_body i n sc blk c l0 (?u c l) \<and> only_at i l (?u c l)" if "scope_of_branch c = n" for c
    using b that by (auto simp: in_body_def only_at_def kept_def scoped_def map_update dest!: subsetD [OF set_update_subset_insert])
  show ?thesis
    using body [of ?b] body [of ?b'] b bs
    by (auto simp: eq after_part_def part_state_def in_body_def only_at_def kept_def scoped_def)
qed


text \<open>The rest of a branch after its operation has been made, up to the next statement.\<close>

fun inside :: "('a \<Rightarrow> nat) \<Rightarrow> 'a stmt \<Rightarrow> 'a listener \<Rightarrow> 'a listener option" where
  "inside subs (If c s) l = (statement subs s (enterSql_clauses l) \<bind> exitSql_clauses) \<bind> exitIf_statement"
| "inside subs (IfElse c s t) l = (statement subs s (enterSql_clauses l) \<bind> exitSql_clauses)
     \<bind> (\<lambda>l. (statement subs t (enterSql_clauses l) \<bind> exitSql_clauses) \<bind> exitIf_statement)"
| "inside subs (While c s) l = (statement subs s (enterSql_clauses l) \<bind> exitSql_clauses) \<bind> exitWhile_statement"
| "inside subs s l = Some l"

fun suits :: "'a stmt \<Rightarrow> nat \<Rightarrow> 'a branch \<Rightarrow> bool" where
  "suits (If c x) i b = (oper_type b = FQL_IF \<and> condition b = c \<and> on_true b = 1 + int i \<and> \<not> expect_else b)"
| "suits (IfElse c x y) i b = (oper_type b = FQL_IF \<and> condition b = c \<and> on_true b = 1 + int i \<and> expect_else b)"
| "suits (While c x) i b = (oper_type b = FQL_WHILE \<and> condition b = c \<and> on_true b = 1 + int i \<and> \<not> expect_else b)"
| "suits s i b = False"

definition starts :: "'a stmt \<Rightarrow> nat \<Rightarrow> nat \<Rightarrow> nat \<Rightarrow> 'a branch \<Rightarrow> 'a listener \<Rightarrow> bool" where
  "starts s i n sc b l = (in_body i n sc False b l l \<and> length (query_vec l) = Suc i \<and>
     branch_state l = BRANCH_EXPECT_EXPR \<and> suits s i b)"

definition left_scope :: "nat \<Rightarrow> branch_state" where
  "left_scope sc = (if sc = 0 then BRANCH_NO_BRANCH else BRANCH_EXPECT_EXPR)"

definition finished :: "'a stmt \<Rightarrow> nat \<Rightarrow> nat \<Rightarrow> nat \<Rightarrow> 'a branch \<Rightarrow> 'a listener \<Rightarrow> 'a listener \<Rightarrow> bool" where
  "finished s i n sc b l l' = (kept i n l l' \<and> length (query_vec l') = i + stmt_width s \<and> cur_scope l' = Some sc \<and>
     branch_state l' = left_scope sc \<and>
     (\<exists>b'. q_op (query_vec l' ! i) = Some (Branch b') \<and> is_elseif b' = is_elseif b \<and> oper_type b' = oper_type b) \<and>
     laid (code_of l') s i (i + stmt_width s) \<and> (\<forall>q\<in>set (query_vec l'). \<not> has_stepped q) \<and>
     scoped i (\<lambda>m. n \<le> m \<or> m = sc) l' \<and>
     (\<forall>k. i \<le> k \<and> k < length (query_vec l') \<longrightarrow> exit_settled l' (Some sc) k))"

definition inside_ok :: "('a \<Rightarrow> nat) \<Rightarrow> 'a stmt \<Rightarrow> bool" where
  "inside_ok subs s = (\<forall>i n sc b l. starts s i n sc b l \<longrightarrow> (\<exists>l'. inside subs s l \<bind> link_branch i = Some l' \<and> finished s i n sc b l l'))"

text \<open>A part of a body, from the state after the part before it.\<close>

definition part_done :: "'a stmt \<Rightarrow> nat \<Rightarrow> nat \<Rightarrow> nat \<Rightarrow> bool \<Rightarrow> 'a branch \<Rightarrow> 'a listener \<Rightarrow> 'a listener \<Rightarrow> 'a listener \<Rightarrow> bool" where
  "part_done s i n sc blk b l0 l l' = (let m = length (query_vec l); e = m + stmt_width s in
     in_body i n sc blk (after_part blk b m e) l0 l' \<and> length (query_vec l') = e \<and>
     branch_state l' = part_state blk b \<and> laid (code_of l') s m e \<and> settled l' (Some m) \<and>
     (\<forall>k<m. k \<noteq> i \<longrightarrow> sig (query_vec l' ! k) = sig (query_vec l ! k)))"

definition fresh_query :: "nat \<Rightarrow> 'a query" where
  "fresh_query m = \<lparr>next_idx = int m + 1, q_op = None, has_stepped = False\<rparr>"

lemma enterSql_new:
  "\<not> entering_block_stmt l \<Longrightarrow> enterSql_clauses l = l\<lparr>query_vec := query_vec l @ [fresh_query (length (query_vec l))],
     active := Some (length (query_vec l)), query_stack := length (query_vec l) # query_stack l\<rparr>"
  by (simp add: enterSql_clauses_def query_enter_query_def fresh_query_def Let_def)

lemma exitSql_up:
  assumes "\<not> exiting_block_stmt l" "active l = Some a" "query_stack l = m # i # st" "link_branch m l = Some l1"
  shows "exitSql_clauses l = leave_to_parent i m (l1\<lparr>query_stack := i # st, active := Some i\<rparr>)"
  using assms link_branch_frame [where m = m and l = l and st = "i # st" and a = "Some i"]
  by (simp add: exitSql_clauses_def query_exit_query_def)

lemma plain_part:
  assumes b: "in_body i n sc blk b l0 l" and bs: "branch_state l = BRANCH_EXPECT_EXPR"
    and s: "well_nested subs False (Plain oper a)"
  shows "\<exists>l'. statement subs (Plain oper a) (enterSql_clauses l) \<bind> exitSql_clauses = Some l' \<and> part_done (Plain oper a) i n sc blk b l0 l l'"
proof -
  let ?m = "length (query_vec l)"
  let ?q = "(fresh_query ?m)\<lparr>q_op := Some (Simple oper a)\<rparr>"
  obtain st where st: "query_stack l = i # st" using b by (cases "query_stack l") (auto simp: in_body_def)
  let ?l1 = "l\<lparr>query_vec := query_vec l @ [?q], active := Some ?m, query_stack := ?m # i # st\<rparr>"
  let ?l2 = "l\<lparr>query_vec := query_vec l @ [?q]\<rparr>"
  have flags: "\<not> entering_block_stmt l" "\<not> exiting_block_stmt l" "active l = Some i"
    using b by (auto simp: in_body_def kept_def)
  have 1: "statement subs (Plain oper a) (enterSql_clauses l) = Some ?l1"
    using s st bs by (simp add: enterSql_new [OF flags(1)] enter_plain_def query_init_op_def upd_query_def)
  have "link_branch ?m ?l1 = Some ?l1"
    by (simp add: link_branch_def op_at_def query_at_def)
  from exitSql_up [OF _ _ _ this] have 2: "exitSql_clauses ?l1 = leave_to_parent i ?m (?l1\<lparr>query_stack := i # st, active := Some i\<rparr>)"
    using flags by simp
  have 3: "?l1\<lparr>query_stack := i # st, active := Some i\<rparr> = ?l2"
    using st flags by simp
  have "in_body i n sc blk b l0 ?l2"
    using b by (auto simp: in_body_def kept_def scoped_def nth_append fresh_query_def)
  then obtain l' where l': "leave_to_parent i ?m ?l2 = Some l'" "in_body i n sc blk (after_part blk b ?m (Suc ?m)) l0 l'"
      "branch_state l' = part_state blk b" "only_at i ?l2 l'"
    using leave_spec [of i n sc blk b l0 ?l2 ?m "Simple oper a"] b bs by (auto simp: in_body_def no_elseif_def)
  have m: "query_vec l' ! ?m = ?q" "length (query_vec l') = Suc ?m"
    using l'(4) b by (auto simp: only_at_def in_body_def nth_append)
  then have "laid (code_of l') (Plain oper a) ?m (Suc ?m)" "settled l' (Some ?m)"
    by (simp_all add: code_of_def holds_at_def instr_of_def settled_def fresh_query_def)
  then have "part_done (Plain oper a) i n sc blk b l0 l l'"
    using l' m by (simp add: part_done_def only_at_def nth_append Let_def)
  then show ?thesis using 1 2 3 l'(1) by simp
qed


definition started :: "'a branch \<Rightarrow> 'a listener \<Rightarrow> 'a listener" where
  "started b l = l\<lparr>query_vec := query_vec l @ [(fresh_query (length (query_vec l)))\<lparr>q_op := Some (Branch b)\<rparr>],
     active := Some (length (query_vec l)), query_stack := length (query_vec l) # query_stack l,
     scopes := scopes l @ [scope_construct\<lparr>parent_scope := cur_scope l\<rparr>], cur_scope := Some (length (scopes l)),
     branch_state := BRANCH_EXPECT_EXPR\<rparr>"

lemma started_state [simp]: "branch_state (started b l) = BRANCH_EXPECT_EXPR"
  by (simp add: started_def)

definition is_branch :: "'a stmt \<Rightarrow> bool" where
  "is_branch s = (case s of If _ _ \<Rightarrow> True | IfElse _ _ _ \<Rightarrow> True | While _ _ \<Rightarrow> True | _ \<Rightarrow> False)"

lemma branch_start:
  assumes "is_branch s" "\<not> entering_block_stmt l" "branch_state l \<noteq> BRANCH_EXPECT_ELSE"
  shows "\<exists>b. statement subs s (enterSql_clauses l) = inside subs s (started b l) \<and> suits s (length (query_vec l)) b \<and>
    scope_of_branch b = length (scopes l) \<and> \<not> is_elseif b"
proof -
  let ?b = "\<lambda>oper c e. \<lparr>oper_type = oper, last_true_block_query = None, scope_of_branch = length (scopes l),
    else_scope = None, on_true = int (length (query_vec l)) + 1, on_false = - 1, expect_else = e, is_elseif = False, condition = c\<rparr>"
  have w: "enterWhile_statement c (enterSql_clauses l) = Some (started (?b FQL_WHILE c False) l)" for c
    using assms(2,3) by (simp add: enterSql_new enterWhile_statement_def query_init_op_def fqlbranch_construct_def
        upd_query_def started_def Let_def)
  have i: "enterIf_statement c e (enterSql_clauses l) = Some (started (?b FQL_IF c e) l)" for c e
    using assms(2,3) by (simp add: enterSql_new enterIf_statement_def query_enter_if_def query_init_op_def fqlbranch_construct_def
        upd_query_def upd_branch_def branch_at_def op_at_def query_at_def started_def Let_def)
  show ?thesis
  proof (cases s)
    case (If c x)
    then show ?thesis by (intro exI [of _ "?b FQL_IF c False"]) (simp add: i)
  next
    case (IfElse c x y)
    then show ?thesis by (intro exI [of _ "?b FQL_IF c True"]) (simp add: i)
  next
    case (While c x)
    then show ?thesis by (intro exI [of _ "?b FQL_WHILE c False"]) (simp add: w)
  qed (use assms(1) in \<open>simp_all add: is_branch_def\<close>)
qed

lemma starts_started:
  assumes "suits s (length (query_vec l)) b" "scope_of_branch b = length (scopes l)"
    and "cur_scope l = Some sc" "sc < length (scopes l)" "global_scope l = 0"
    and "\<not> entering_block_stmt l" "\<not> exiting_block_stmt l" "\<forall>q\<in>set (query_vec l). \<not> has_stepped q"
  shows "starts s (length (query_vec l)) (length (scopes l)) sc b (started b l)"
  using assms by (auto simp: starts_def started_def in_body_def kept_def scoped_def fresh_query_def scope_construct_def)

lemma put_next_sel: "put_next p n l = Some l' \<Longrightarrow> l' = l\<lparr>query_vec := query_vec l'\<rparr>"
  by (cases p) (auto simp: put_next_def upd_query_def query_at_def split: if_splits)

lemma link_branch_sel: "link_branch m l = Some l' \<Longrightarrow> l' = l\<lparr>query_vec := query_vec l'\<rparr>"
  by (cases "op_at l m") (auto simp: link_branch_def dest: put_next_sel split: operation.splits)

lemma link_branch_same:
  assumes "link_branch m l = Some l'"
  shows "active l' = active l" "query_stack l' = query_stack l" "exiting_block_stmt l' = exiting_block_stmt l"
proof -
  obtain v where "l' = l\<lparr>query_vec := v\<rparr>" using link_branch_sel [OF assms] by blast
  then show "active l' = active l" "query_stack l' = query_stack l" "exiting_block_stmt l' = exiting_block_stmt l"
    by simp_all
qed

lemma branch_part:
  assumes b: "in_body i n sc blk b l0 l" and bs: "branch_state l = BRANCH_EXPECT_EXPR"
    and s: "is_branch s" "inside_ok subs s"
  shows "\<exists>l'. statement subs s (enterSql_clauses l) \<bind> exitSql_clauses = Some l' \<and> part_done s i n sc blk b l0 l l'"
proof -
  let ?m = "length (query_vec l)" let ?n = "length (scopes l)"
  obtain st where st: "query_stack l = i # st" using b by (cases "query_stack l") (auto simp: in_body_def)
  have flags: "\<not> entering_block_stmt l" "\<not> exiting_block_stmt l" "active l = Some i" "global_scope l = 0"
      "cur_scope l = Some n" "n < ?n" "i < ?m" "\<forall>q\<in>set (query_vec l). \<not> has_stepped q"
    using b by (auto simp: in_body_def kept_def)
  obtain bb where bb: "statement subs s (enterSql_clauses l) = inside subs s (started bb l)" "suits s ?m bb"
      "scope_of_branch bb = ?n" "\<not> is_elseif bb"
    using branch_start [OF s(1) flags(1)] bs by auto
  have "starts s ?m ?n n bb (started bb l)"
    using starts_started bb(2,3) flags by blast
  then obtain l2 l3 where l2: "inside subs s (started bb l) = Some l2" "link_branch ?m l2 = Some l3"
      and l3: "finished s ?m ?n n bb (started bb l) l3"
    using s(2) by (force simp: inside_ok_def bind_eq_Some_conv)
  have k: "kept ?m ?n (started bb l) l3" using l3 by (simp add: finished_def)
  have "\<not> exiting_block_stmt l2" "active l2 = Some ?m" "query_stack l2 = ?m # i # st"
    using k link_branch_same [OF l2(2)] st by (simp_all add: kept_def started_def)
  note up = exitSql_up [OF this l2(2)]
  let ?l3 = "l3\<lparr>query_stack := i # st, active := Some i\<rparr>"
  have below: "sig (query_vec l3 ! j) = sig (query_vec l ! j)" if "j < ?m" for j
    using kept_query [OF k that] that by (simp add: started_def nth_append)
  note op_below = below [THEN sigD, THEN conjunct1]
  have scope: "scopes l3 ! j = scopes l ! j" if "j < ?n" for j
    using kept_scope [OF k that] that by (simp add: started_def nth_append)
  have len: "length (query_vec l3) = ?m + stmt_width s" "?m < length (query_vec l3)" "?n \<le> length (scopes l3)"
    using l3 s(1) k by (cases s; simp add: finished_def is_branch_def kept_def)+
  have b0: "kept i n l0 l" "i < ?m" "n < ?n" "q_op (query_vec l ! i) = Some (Branch b)" "scope_of_branch b = n" "scoped (Suc i) (\<lambda>m. n \<le> m) l"
    using b by (simp_all add: in_body_def)
  have "take i (map sig (query_vec l3)) = take i (map sig (query_vec l))"
    using len(2) b0(2) below by (intro nth_equalityI) auto
  moreover have "take n (scopes l3) = take n (scopes l)"
    using len(3) b0(3) scope by (intro nth_equalityI) auto
  ultimately have kk: "kept i n l0 ?l3"
    using b0(1-3) k len st flags by (simp add: kept_def started_def)
  have "op_within (\<lambda>m. n \<le> m) (scopes l3) (q_op (query_vec l3 ! j))" if j: "Suc i \<le> j" "j < length (query_vec l3)" for j
  proof (cases "j < ?m")
    case True
    then have "op_within (\<lambda>m. n \<le> m) (scopes l) (q_op (query_vec l ! j))" using b0(6) j(1) by (simp add: scoped_def)
    then show ?thesis using op_below [OF True] len(3) scope by (auto simp: op_within_def split: option.splits operation.splits)
  next
    case False
    then have "op_within (\<lambda>p. ?n \<le> p \<or> p = n) (scopes l3) (q_op (query_vec l3 ! j))"
      using l3 j by (simp add: finished_def scoped_def)
    then show ?thesis using b0(3) by (auto simp: op_within_def split: option.splits operation.splits)
  qed
  moreover have "global_scope l3 = 0" using k flags(4) by (simp add: kept_def started_def)
  ultimately have body: "in_body i n sc blk b l0 ?l3"
    using kk b op_below [of i] scope [of n] l3 len by (simp add: in_body_def finished_def scoped_def)
  obtain b3 where b3: "q_op (query_vec l3 ! ?m) = Some (Branch b3)" "\<not> is_elseif b3"
    using l3 bb(4) by (auto simp: finished_def)
  have "branch_state ?l3 = BRANCH_EXPECT_EXPR"
    using l3 b by (simp add: finished_def left_scope_def in_body_def)
  then obtain l' where l': "leave_to_parent i ?m ?l3 = Some l'" "in_body i n sc blk (after_part blk b ?m (?m + stmt_width s)) l0 l'"
      "branch_state l' = part_state blk b" "only_at i ?l3 l'"
    using leave_spec [OF body, of ?m "Branch b3"] b0(2) len b3 by (auto simp: no_elseif_def)
  have "laid (code_of l3) s ?m (?m + stmt_width s)" using l3 by (simp add: finished_def)
  moreover have "code_of l3 ! k = code_of l' ! k" if "?m \<le> k" "k < length (code_of l3)" for k
    using l'(4) b0(2) that by (simp add: only_at_def code_of_def)
  moreover have "length (code_of l') = length (code_of l3)" using l'(4) by (simp add: only_at_def code_of_def)
  ultimately have "laid (code_of l') s ?m (?m + stmt_width s)" by (metis laid_more(1) order_refl)
  moreover have "settled l' (Some ?m)"
    using b3 l'(4) b0(2) len by (simp add: settled_def only_at_def)
  ultimately have "part_done s i n sc blk b l0 l l'"
    using l' len below by (simp add: part_done_def only_at_def Let_def)
  then show ?thesis using up bb(1) l2(1) l'(1) by simp
qed


lemma part_spec:
  assumes "in_body i n sc blk b l0 l" "branch_state l = BRANCH_EXPECT_EXPR"
    and "well_nested subs False s" "is_branch s \<longrightarrow> inside_ok subs s"
  shows "\<exists>l'. statement subs s (enterSql_clauses l) \<bind> exitSql_clauses = Some l' \<and> part_done s i n sc blk b l0 l l'"
proof (cases "is_branch s")
  case True
  then show ?thesis using assms branch_part by blast
next
  case False
  then obtain oper a where "s = Plain oper a" using assms(3) by (cases s) (auto simp: is_branch_def)
  then show ?thesis using plain_part [of i n sc blk b l0 l subs oper a] assms by (simp del: statement.simps)
qed

text \<open>The parts of a block one after the other.\<close>

lemma parts_spec:
  assumes "in_body i n sc True b l0 l" "branch_state l = BRANCH_EXPECT_EXPR" and "xs \<noteq> []"
    and "\<forall>x\<in>set xs. well_nested subs False x \<and> (is_branch x \<longrightarrow> inside_ok subs x)"
  shows "\<exists>l' t. sql_clauses subs xs l = Some l' \<and> in_body i n sc True (b\<lparr>last_true_block_query := Some t\<rparr>) l0 l' \<and>
    length (query_vec l') = length (query_vec l) + stmts_width xs \<and> branch_state l' = BRANCH_EXPECT_EXPR \<and>
    laids (code_of l') xs (length (query_vec l)) (length (query_vec l) + stmts_width xs) \<and>
    t = length (query_vec l) + stmts_width (butlast xs) \<and> settled l' (Some t) \<and>
    (\<forall>k<length (query_vec l). k \<noteq> i \<longrightarrow> sig (query_vec l' ! k) = sig (query_vec l ! k))"
  using assms
proof (induction xs arbitrary: l b)
  case (Cons x xs)
  let ?m = "length (query_vec l)"
  obtain l1 where l1: "statement subs x (enterSql_clauses l) \<bind> exitSql_clauses = Some l1" "part_done x i n sc True b l0 l l1"
    using part_spec Cons.prems by (metis list.set_intros(1))
  then have p: "in_body i n sc True (b\<lparr>last_true_block_query := Some ?m\<rparr>) l0 l1" "branch_state l1 = BRANCH_EXPECT_EXPR"
      "length (query_vec l1) = ?m + stmt_width x" "laid (code_of l1) x ?m (?m + stmt_width x)" "settled l1 (Some ?m)"
      "\<forall>k<?m. k \<noteq> i \<longrightarrow> sig (query_vec l1 ! k) = sig (query_vec l ! k)"
    by (simp_all add: part_done_def Let_def after_part_def part_state_def)
  show ?case
  proof (cases "xs = []")
    case True
    then show ?thesis using l1(1) p by auto
  next
    case False
    then obtain l' t where l': "sql_clauses subs xs l1 = Some l'" "in_body i n sc True (b\<lparr>last_true_block_query := Some t\<rparr>) l0 l'"
        "length (query_vec l') = ?m + stmt_width x + stmts_width xs" "branch_state l' = BRANCH_EXPECT_EXPR"
        "laids (code_of l') xs (?m + stmt_width x) (?m + stmt_width x + stmts_width xs)" "t = ?m + stmt_width x + stmts_width (butlast xs)" "settled l' (Some t)"
        "\<forall>k<?m + stmt_width x. k \<noteq> i \<longrightarrow> sig (query_vec l' ! k) = sig (query_vec l1 ! k)"
      using Cons.IH [OF p(1,2)] Cons.prems(4) p(3) by auto
    have i: "i < ?m" using Cons.prems(1) by (simp add: in_body_def)
    have "code_of l1 ! k = code_of l' ! k" if "?m \<le> k" "k < length (code_of l1)" for k
      using l'(3,8) i that p(3) by (simp add: code_of_def sig_def)
    moreover have "length (code_of l1) \<le> length (code_of l')" using l'(3) p(3) by (simp add: code_of_def)
    ultimately have "laid (code_of l') x ?m (?m + stmt_width x)" using p(4) by (metis laid_more(1))
    then have "laids (code_of l') (x # xs) ?m (?m + stmts_width (x # xs))"
      using l'(5) False by (cases xs) (simp_all add: add.assoc)
    then show ?thesis
      using l1(1) l' p(6) False by (intro exI [of _ l'] exI [of _ t]) (simp add: add.assoc)
  qed
qed simp


lemma in_body_set:
  assumes "in_body i n sc blk b l0 l"
  shows "in_body i n sc v b l0 (set_in_block n v l)"
proof -
  have "op_within X ((scopes l)[n := (scopes l ! n)\<lparr>is_in_block := v\<rparr>]) o' = op_within X (scopes l) o'" for X o'
    by (cases "n < length (scopes l)") (auto simp: op_within_def nth_list_update split: option.split operation.split)
  then show ?thesis
    using assms by (auto simp: in_body_def set_in_block_def kept_def scoped_def)
qed

lemma block_enter:
  assumes "in_body i n sc False b l0 l" and "ss \<noteq> []"
  shows "enterBlock_statement (enterSql_clauses l) \<bind> sql_clauses subs ss = sql_clauses subs ss (set_in_block n True l)"
proof -
  have f: "\<not> entering_block_stmt l" "cur_scope l = Some n" "n < length (scopes l)"
    using assms(1) by (auto simp: in_body_def kept_def)
  have e: "\<not> entering_block_stmt (set_in_block n True l)" using f(1) by (simp add: set_in_block_def)
  obtain x xs where xs: "ss = x # xs" using assms(2) by (cases ss) auto
  have "enterBlock_statement (enterSql_clauses l) = Some ((enterSql_clauses (set_in_block n True l))\<lparr>entering_block_stmt := True\<rparr>)"
    unfolding enterSql_new [OF f(1)] enterSql_new [OF e]
    using f by (simp add: enterBlock_statement_def query_enter_block_def scope_at_def set_in_block_def)
  moreover have "enterSql_clauses ((enterSql_clauses (set_in_block n True l))\<lparr>entering_block_stmt := True\<rparr>) = enterSql_clauses (set_in_block n True l)"
    unfolding enterSql_new [OF e] using e by (simp add: enterSql_clauses_def)
  ultimately show ?thesis by (simp add: xs)
qed

lemma block_exit:
  assumes b: "in_body i n sc True b l0 l"
  shows "\<exists>l'. exitBlock_statement l \<bind> exitSql_clauses = Some l' \<and>
    in_body i n sc False (b\<lparr>on_false := int (length (query_vec l))\<rparr>) l0 l' \<and> branch_state l' = part_state False b \<and>
    only_at i l l'"
proof -
  let ?b = "b\<lparr>on_false := int (length (query_vec l))\<rparr>"
  have f: "active l = Some i" "cur_scope l = Some n" "n < length (scopes l)" "i < length (query_vec l)" "q_op (query_vec l ! i) = Some (Branch b)"
      "\<not> exiting_block_stmt l"
    using b by (auto simp: in_body_def kept_def)
  let ?l1 = "set_in_block n False l"
  let ?l' = "?l1\<lparr>query_vec := (query_vec l)[i := (query_vec l ! i)\<lparr>q_op := Some (Branch ?b)\<rparr>], branch_state := part_state False b\<rparr>"
  have "exitBlock_statement l \<bind> exitSql_clauses = Some ?l'"
    using f by (simp add: exitBlock_statement_def query_exit_block_def scope_at_def branch_at_def op_at_def query_at_def
        set_in_block_def upd_branch_def upd_query_def part_state_def exitSql_clauses_def)
  moreover have "in_body i n sc False ?b l0 ?l'"
    using in_body_set [OF b, of False]
    by (auto simp: in_body_def kept_def scoped_def set_in_block_def map_update dest!: subsetD [OF set_update_subset_insert])
  ultimately show ?thesis by (auto simp: only_at_def)
qed

definition body_done :: "'a stmt \<Rightarrow> nat \<Rightarrow> nat \<Rightarrow> nat \<Rightarrow> 'a branch \<Rightarrow> nat \<Rightarrow> int \<Rightarrow> 'a listener \<Rightarrow> 'a listener \<Rightarrow> bool" where
  "body_done x i n sc b t f l l' = (let e = Suc i + stmt_width x in
     in_body i n sc False (b\<lparr>last_true_block_query := Some t, on_false := f\<rparr>) l l' \<and>
     (\<not> expect_else b \<longrightarrow> f = int e) \<and> length (query_vec l') = e \<and>
     laids (code_of l') (parts x) (Suc i) e \<and> settled l' (Some t) \<and>
     t = Suc i + stmts_width (butlast (parts x)) \<and> branch_state l' = part_state False b)"

lemma body_spec:
  assumes s: "starts s i n sc b l" and x: "well_nested subs True x" "\<forall>y\<in>set (parts x). is_branch y \<longrightarrow> inside_ok subs y"
  shows "\<exists>l' t f. statement subs x (enterSql_clauses l) \<bind> exitSql_clauses = Some l' \<and> body_done x i n sc b t f l l'"
proof (cases "\<exists>ss. x = Block ss")
  case True
  then obtain ss where ss: "x = Block ss" "ss \<noteq> []" "list_all (well_nested subs False) ss" using x(1) by auto
  have l: "in_body i n sc False b l l" "length (query_vec l) = Suc i" "branch_state l = BRANCH_EXPECT_EXPR"
    using s by (simp_all add: starts_def)
  have lb: "in_body i n sc True b l (set_in_block n True l)" "branch_state (set_in_block n True l) = BRANCH_EXPECT_EXPR"
      "query_vec (set_in_block n True l) = query_vec l"
    using in_body_set [OF l(1)] l(3) by (simp_all add: set_in_block_def)
  have "\<forall>x\<in>set ss. well_nested subs False x \<and> (is_branch x \<longrightarrow> inside_ok subs x)" using ss x(2) by (auto simp: list_all_iff)
  from parts_spec [OF lb(1,2) ss(2) this] obtain l1 t where l1: "sql_clauses subs ss (set_in_block n True l) = Some l1"
      "in_body i n sc True (b\<lparr>last_true_block_query := Some t\<rparr>) l l1" "length (query_vec l1) = Suc i + stmts_width ss"
      "laids (code_of l1) ss (Suc i) (Suc i + stmts_width ss)" "t = Suc i + stmts_width (butlast ss)" "settled l1 (Some t)"
    using lb(3) l(2) by auto
  from block_exit [OF l1(2)] obtain l' where l': "exitBlock_statement l1 \<bind> exitSql_clauses = Some l'"
      "in_body i n sc False (b\<lparr>last_true_block_query := Some t, on_false := int (length (query_vec l1))\<rparr>) l l'"
      "branch_state l' = part_state False b" "only_at i l1 l'"
    by (auto simp: part_state_def)
  have "statement subs x (enterSql_clauses l) \<bind> exitSql_clauses = Some l'"
    using block_enter [OF l(1) ss(2)] l1(1) l'(1) ss(1) by (simp flip: bind_assoc)
  moreover have "code_of l1 ! k = code_of l' ! k" if "Suc i \<le> k" "k < length (code_of l1)" for k
    using l'(4) that by (simp add: only_at_def code_of_def)
  then have "laids (code_of l') ss (Suc i) (Suc i + stmts_width ss)"
    using l1(4) l'(4) by (intro laid_more(2) [of "code_of l1" "code_of l'"]) (simp_all add: only_at_def code_of_def)
  moreover have "settled l' (Some t)"
    using l1(5,6) settled_only_at [OF l'(4), of t] by simp
  ultimately show ?thesis
    using l' l1 ss(1) by (intro exI [of _ l'] exI [of _ t] exI [of _ "int (length (query_vec l1))"]) (simp add: body_done_def only_at_def Let_def)
next
  case False
  then have p: "parts x = [x]" "well_nested subs False x" using x(1) by (cases x; simp)+
  obtain l' where l': "statement subs x (enterSql_clauses l) \<bind> exitSql_clauses = Some l'" "part_done x i n sc False b l l l'"
    using part_spec [of i n sc False b l l subs x] s x(2) p by (auto simp: starts_def)
  then show ?thesis
    using s p(1) by (intro exI [of _ l'] exI [of _ "Suc i"] exI [of _ "on_false (after_part False b (Suc i) (Suc i + stmt_width x))"])
      (auto simp: body_done_def part_done_def starts_def Let_def after_part_def part_state_def)
qed


section \<open>Leaving a branch\<close>

lemma exit_branch_spec:
  assumes "active l = Some i" "i < length (query_vec l)" "q_op (query_vec l ! i) = Some (Branch b)"
    and "scope_of_branch b < length (scopes l)" "parent_scope (scopes l ! scope_of_branch b) = Some sc" "global_scope l = 0"
  shows "exitIf_statement l = (let l1 = l\<lparr>cur_scope := Some sc, branch_state := left_scope sc\<rparr> in
      if oper_type b \<noteq> FQL_IF then Some l1 else link_exits [i..<length (query_vec l)] l1)"
    and "exitWhile_statement l = exitIf_statement l"
  using assms by (simp_all add: exitIf_statement_def exitWhile_statement_def query_exit_branch_def branch_at_def op_at_def
      query_at_def scope_at_def left_scope_def Let_def)

lemma exit_settled_alike:
  assumes "alike l l'" "k < length (query_vec l)"
  shows "exit_settled l' c k = exit_settled l c k"
  using alike_facts [OF assms(1)] settled_alike [OF assms(1)] assms(2) by (simp add: exit_settled_def)

lemma scoped_alike: "alike l l' \<Longrightarrow> scoped i X l' = scoped i X l"
  using alike_facts [of l l'] by (auto simp: scoped_def)

lemma alike_listener:
  assumes "alike l l'"
  shows "active l' = active l" "query_stack l' = query_stack l" "entering_block_stmt l' = entering_block_stmt l"
    "exiting_block_stmt l' = exiting_block_stmt l"
proof -
  obtain v where "l' = l\<lparr>query_vec := v\<rparr>" using assms by (auto simp: alike_def)
  then show "active l' = active l" "query_stack l' = query_stack l" "entering_block_stmt l' = entering_block_stmt l"
    "exiting_block_stmt l' = exiting_block_stmt l" by simp_all
qed

lemma finished_alike: "finished s i n sc b l l1 \<Longrightarrow> alike l1 l2 \<Longrightarrow> i < length (query_vec l1) \<Longrightarrow> finished s i n sc b l l2"
  using alike_facts [of l1 l2] alike_listener [of l1 l2] exit_settled_alike [of l1 l2] scoped_alike [of l1 l2]
  by (auto simp: finished_def kept_def)

lemma link_settled:
  assumes "i < length (query_vec l)" "q_op (query_vec l ! i) = Some (Branch b)" "oper_type b = FQL_IF" "settled l (last_true_block_query b)"
  shows "\<exists>l'. link_branch i l = Some l' \<and> alike l l'"
  using put_next_settled [OF assms(4)] assms(1-3) by (simp add: link_branch_def op_at_def query_at_def)

text \<open>No IF inside the branch has its scope next to that of the branch.\<close>

lemma exit_settled_deeper: "op_within (\<lambda>m. n \<le> m) (scopes l) (q_op (query_vec l ! k)) \<Longrightarrow> sc < n \<Longrightarrow> exit_settled l (Some sc) k"
  by (auto simp: exit_settled_def)

lemma branch_body:
  assumes s: "starts s i n sc b l" and x: "well_nested subs True x" "\<forall>y\<in>set (parts x). is_branch y \<longrightarrow> inside_ok subs y"
  obtains l1 t f where "statement subs x (enterSql_clauses l) \<bind> exitSql_clauses = Some l1"
    "in_body i n sc False (b\<lparr>last_true_block_query := Some t, on_false := f\<rparr>) l l1" "length (query_vec l1) = Suc i + stmt_width x"
    "\<not> expect_else b \<longrightarrow> f = int (Suc i + stmt_width x)" "laids (code_of l1) (parts x) (Suc i) (Suc i + stmt_width x)" "settled l1 (Some t)"
    "t = Suc i + stmts_width (butlast (parts x))" "branch_state l1 = part_state False b"
    "active l1 = Some i" "i < length (query_vec l1)" "q_op (query_vec l1 ! i) = Some (Branch (b\<lparr>last_true_block_query := Some t, on_false := f\<rparr>))"
    "global_scope l1 = 0" "n < length (scopes l1)" "parent_scope (scopes l1 ! n) = Some sc" "scope_of_branch b = n" "sc < n"
    "scoped (Suc i) (\<lambda>m. n \<le> m) l1" "\<forall>q\<in>set (query_vec l1). \<not> has_stepped q" "kept i n l l1"
proof -
  obtain l1 t f where l1: "statement subs x (enterSql_clauses l) \<bind> exitSql_clauses = Some l1" "body_done x i n sc b t f l l1"
    using body_spec [OF s x] by blast
  show ?thesis
    by (rule that [of l1 f t]) (use l1 in \<open>auto simp: body_done_def Let_def in_body_def\<close>)
qed

lemma op_within_mono: "op_within X ss x \<Longrightarrow> (\<And>m. X m \<Longrightarrow> Y m) \<Longrightarrow> op_within Y ss x"
  by (auto simp: op_within_def split: option.splits operation.splits)

lemma scoped_from:
  assumes "q_op (query_vec l ! i) = Some (Branch b)" "scope_of_branch b = n" "n < length (scopes l)"
    "parent_scope (scopes l ! n) = Some sc" "scoped (Suc i) X l"
  shows "scoped i (\<lambda>m. X m \<or> m = sc) l"
  unfolding scoped_def
proof (intro allI impI)
  fix k assume k: "i \<le> k \<and> k < length (query_vec l)"
  show "op_within (\<lambda>m. X m \<or> m = sc) (scopes l) (q_op (query_vec l ! k))"
  proof (cases "k = i")
    case False
    then have "op_within X (scopes l) (q_op (query_vec l ! k))" using assms(5) k by (simp add: scoped_def)
    then show ?thesis by (rule op_within_mono) simp
  qed (use assms in simp)
qed

lemma inside_If:
  assumes s: "starts (If c x) i n sc b l" and x: "well_nested subs True x" "\<forall>y\<in>set (parts x). is_branch y \<longrightarrow> inside_ok subs y"
  shows "\<exists>l'. inside subs (If c x) (l :: 'a listener) \<bind> link_branch i = Some l' \<and> finished (If c x) i n sc b l l'"
proof (rule branch_body [OF s x])
  fix l1 :: "'a listener" and t f
  let ?b = "b\<lparr>last_true_block_query := Some t, on_false := f\<rparr>"
  let ?l = "l1\<lparr>cur_scope := Some sc, branch_state := left_scope sc\<rparr>"
  assume l1: "statement subs x (enterSql_clauses l) \<bind> exitSql_clauses = Some l1"
    and B: "in_body i n sc False ?b l l1" "length (query_vec l1) = Suc i + stmt_width x" "\<not> expect_else b \<longrightarrow> f = int (Suc i + stmt_width x)"
      "laids (code_of l1) (parts x) (Suc i) (Suc i + stmt_width x)" "settled l1 (Some t)"
    and i: "active l1 = Some i" "i < length (query_vec l1)" "q_op (query_vec l1 ! i) = Some (Branch ?b)" "global_scope l1 = 0"
      "n < length (scopes l1)" "parent_scope (scopes l1 ! n) = Some sc" "scope_of_branch b = n" "sc < n" "scoped (Suc i) (\<lambda>m. n \<le> m) l1"
    and k: "\<forall>q\<in>set (query_vec l1). \<not> has_stepped q" "kept i n l l1"
  have b: "suits (If c x) i b" using s by (simp add: starts_def)
  have settled: "exit_settled ?l (Some sc) k" if "i \<le> k" "k < length (query_vec l1)" for k
  proof (cases "k = i")
    case True
    then show ?thesis using i B(5) by (simp add: exit_settled_def)
  next
    case False
    then have "op_within (\<lambda>m. n \<le> m) (scopes ?l) (q_op (query_vec ?l ! k))" using that i(9) by (simp add: scoped_def)
    then show ?thesis using i(8) by (rule exit_settled_deeper)
  qed
  have scoped: "scoped i (\<lambda>m. n \<le> m \<or> m = sc) ?l"
    using scoped_from [OF i(3) _ i(5,6,9)] i(7) by (simp add: scoped_def)
  have "laid (code_of l1) (If c x) i (i + stmt_width (If c x))"
    using B(3,4) b holds_Test [OF i(2,3)] laid_parts [of _ x] by simp
  then have fin: "finished (If c x) i n sc b l ?l"
    using B(2) i(3) k scoped settled by (simp add: finished_def)
  have "\<exists>l2. link_exits [i..<length (query_vec l1)] ?l = Some l2 \<and> alike ?l l2"
    by (rule link_exits_settled [OF _ scoped]) (use settled in simp)
  moreover have "exitIf_statement l1 = link_exits [i..<length (query_vec l1)] ?l"
    using exit_branch_spec(1) [OF i(1-3)] i(4-7) b by (simp add: Let_def)
  ultimately obtain l2 where l2: "exitIf_statement l1 = Some l2" "alike ?l l2" by auto
  note a2 = alike_facts [OF l2(2)]
  have i2: "i < length (query_vec l2)" "q_op (query_vec l2 ! i) = Some (Branch ?b)"
    using a2(1) a2(3) [of i] i(2,3) by simp_all
  have "settled l2 (last_true_block_query ?b)"
    using settled_alike [OF l2(2), of "Some t"] B(5) by simp
  then obtain l3 where l3: "link_branch i l2 = Some l3" "alike l2 l3"
    using link_settled [OF i2] b by auto
  have "finished (If c x) i n sc b l l2" by (rule finished_alike [OF fin l2(2)]) (simp add: i(2))
  then have "finished (If c x) i n sc b l l3" by (rule finished_alike [OF _ l3(2)]) (rule i2(1))
  then show ?thesis using l1(1) l2(1) l3(1) by auto
qed


lemma ends_plain_parts:
  assumes "ends_plain x"
  obtains ys oper a where "parts x = ys @ [Plain oper a]" "butlast (parts x) = ys" "stmt_width x = Suc (stmts_width ys)"
proof -
  obtain oper a where p: "parts x \<noteq> []" "last (parts x) = Plain oper a"
    using assms by (cases "last (parts x)") (auto simp: ends_plain_def)
  then have "parts x = butlast (parts x) @ [Plain oper a]" by (metis append_butlast_last_id)
  then show ?thesis
    using that [of "butlast (parts x)" oper a] width_parts [of x] widths_append [of "butlast (parts x)" "[Plain oper a]"] by simp
qed

text \<open>The last query of a body that ends in a plain statement gets another place to go on at.\<close>

lemma relink_body:
  assumes "laids (code_of l) (parts x) i j" "ends_plain x" "t = i + stmts_width (butlast (parts x))" "t < length (query_vec l)"
  shows "\<exists>l'. put_next (Some t) (int n) l = Some l' \<and> l' = upd_query t (\<lambda>x. x\<lparr>next_idx := int n\<rparr>) l \<and>
    laids (code_of l') (parts x) i n \<and> (\<forall>k. k \<noteq> t \<longrightarrow> code_of l' ! k = code_of l ! k) \<and>
    (\<exists>oper a. q_op (query_vec l ! t) = Some (Simple oper a))"
proof -
  obtain ys oper a where p: "parts x = ys @ [Plain oper a]" "butlast (parts x) = ys"
    using ends_plain_parts [OF assms(2)] by metis
  have "\<exists>m. holds_at (code_of l) t (Run a m)"
    using assms(1) p assms(3) by (cases "ys = []") (auto simp: laids_snoc)
  then obtain oper' where o: "q_op (query_vec l ! t) = Some (Simple oper' a)"
    using holds_at_query instr_of_Run by metis
  from put_next_plain [OF assms(4) o, of "int n"] obtain l' where l': "put_next (Some t) (int n) l = Some l'"
      "l' = upd_query t (\<lambda>x. x\<lparr>next_idx := int n\<rparr>) l" "code_of l' = (code_of l)[t := Some (Run a (int n))]" by blast
  have "laids (code_of l') (parts x) i n"
    using laids_retarget [of "code_of l" ys oper a i j t n] assms(1,3) p l'(3) by simp
  then show ?thesis using l' o by auto
qed

lemma inside_While:
  assumes s: "starts (While c x) i n sc b l" and x: "well_nested subs True x" "\<forall>y\<in>set (parts x). is_branch y \<longrightarrow> inside_ok subs y"
    and e: "ends_plain x"
  shows "\<exists>l'. inside subs (While c x) (l :: 'a listener) \<bind> link_branch i = Some l' \<and> finished (While c x) i n sc b l l'"
proof (rule branch_body [OF s x])
  fix l1 :: "'a listener" and t f
  let ?b = "b\<lparr>last_true_block_query := Some t, on_false := f\<rparr>"
  let ?l = "l1\<lparr>cur_scope := Some sc, branch_state := left_scope sc\<rparr>"
  assume l1: "statement subs x (enterSql_clauses l) \<bind> exitSql_clauses = Some l1"
    and B: "in_body i n sc False ?b l l1" "length (query_vec l1) = Suc i + stmt_width x" "\<not> expect_else b \<longrightarrow> f = int (Suc i + stmt_width x)"
      "laids (code_of l1) (parts x) (Suc i) (Suc i + stmt_width x)" "settled l1 (Some t)" "t = Suc i + stmts_width (butlast (parts x))"
    and i: "active l1 = Some i" "i < length (query_vec l1)" "q_op (query_vec l1 ! i) = Some (Branch ?b)" "global_scope l1 = 0"
      "n < length (scopes l1)" "parent_scope (scopes l1 ! n) = Some sc" "scope_of_branch b = n" "sc < n" "scoped (Suc i) (\<lambda>m. n \<le> m) l1"
    and k: "\<forall>q\<in>set (query_vec l1). \<not> has_stepped q" "kept i n l l1"
  have b: "suits (While c x) i b" using s by (simp add: starts_def)
  have t: "t < length (query_vec l1)" using B(5) by (simp add: settled_def)
  obtain l3 where l3: "put_next (Some t) (int i) ?l = Some l3" "l3 = upd_query t (\<lambda>x. x\<lparr>next_idx := int i\<rparr>) ?l"
      "laids (code_of l3) (parts x) (Suc i) i" "\<forall>k. k \<noteq> t \<longrightarrow> code_of l3 ! k = code_of l1 ! k"
    using relink_body [of ?l x "Suc i" "Suc i + stmt_width x" t i] B(4,6) e t by auto
  have "exitWhile_statement l1 = Some ?l"
    using exit_branch_spec [OF i(1-3)] i(4-7) b by (simp add: Let_def)
  moreover have "link_branch i ?l = Some l3"
    using i(2,3) b l3(1) by (simp add: link_branch_def op_at_def query_at_def)
  ultimately have 1: "inside subs (While c x) l \<bind> link_branch i = Some l3" using l1 by auto
  have ops: "q_op (query_vec l3 ! k) = q_op (query_vec l1 ! k)" for k
    using t by (cases "k = t") (simp_all add: l3(2) upd_query_vec)
  have scoped: "scoped i (\<lambda>m. n \<le> m \<or> m = sc) l3"
    using scoped_from [OF i(3) _ i(5,6,9)] i(7) by (simp add: scoped_def ops) (simp add: l3(2))
  have settled: "exit_settled l3 (Some sc) k" if "i \<le> k" "k < length (query_vec l1)" for k
  proof (cases "k = i")
    case True
    then show ?thesis using i(3) b by (simp add: exit_settled_def ops)
  next
    case False
    then have "op_within (\<lambda>m. n \<le> m) (scopes l3) (q_op (query_vec l3 ! k))"
      using that i(9) by (simp add: scoped_def ops) (simp add: l3(2))
    then show ?thesis using i(8) by (rule exit_settled_deeper)
  qed
  have "laid (code_of l3) (While c x) i (i + stmt_width (While c x))"
    using B(3) b holds_Test [OF i(2,3)] laid_parts [of _ x] l3(3) l3(4) B(6) by (simp add: holds_at_def) (simp add: l3(2) code_of_def)
  moreover have "kept i n l l3"
    using k(2) B(6) by (simp add: l3(2) kept_def upd_query_vec map_update)
  moreover have "\<forall>q\<in>set (query_vec l3). \<not> has_stepped q"
    using stepped_upd_query [of ?l "\<lambda>x. x\<lparr>next_idx := int i\<rparr>" t] k(1) t by (simp add: l3(2))
  ultimately have "finished (While c x) i n sc b l l3"
    using B(2) i(3) scoped settled by (simp add: finished_def ops) (simp add: l3(2))
  then show ?thesis using 1 by blast
qed


section \<open>ELSE\<close>

lemma settled_vec: "query_vec l' = query_vec l \<Longrightarrow> settled l' p = settled l p"
  by (auto simp: settled_def split: option.split operation.split)

lemma exit_settled_vec: "query_vec l' = query_vec l \<Longrightarrow> scopes l' = scopes l \<Longrightarrow> exit_settled l' c k = exit_settled l c k"
  using settled_vec [of l' l] by (simp add: exit_settled_def)

definition else_done :: "'a stmt \<Rightarrow> nat \<Rightarrow> nat \<Rightarrow> nat \<Rightarrow> 'a branch \<Rightarrow> 'a listener \<Rightarrow> 'a listener \<Rightarrow> bool" where
  "else_done y i n sc b l1 l2 = (let m = length (query_vec l1) in
     (\<exists>z. q_op (query_vec l2 ! i) = Some (Branch (b\<lparr>on_false := int m, else_scope := z\<rparr>))) \<and>
     (\<forall>k<m. k \<noteq> i \<longrightarrow> sig (query_vec l2 ! k) = sig (query_vec l1 ! k)) \<and>
     length (query_vec l2) = m + stmt_width y \<and> kept i n l1 l2 \<and>
     length (scopes l1) \<le> length (scopes l2) \<and> (\<forall>k<length (scopes l1). scopes l2 ! k = scopes l1 ! k) \<and>
     laid (code_of l2) y m (m + stmt_width y) \<and> (\<forall>q\<in>set (query_vec l2). \<not> has_stepped q) \<and>
     scoped m (\<lambda>p. n \<le> p \<or> p = sc) l2 \<and> (\<forall>k. m \<le> k \<and> k < length (query_vec l2) \<longrightarrow> exit_settled l2 (Some sc) k))"

definition with_false :: "nat \<Rightarrow> 'a branch \<Rightarrow> 'a listener \<Rightarrow> 'a listener" where
  "with_false i b l = l\<lparr>query_vec := (query_vec l)[i := (query_vec l ! i)\<lparr>q_op := Some (Branch (b\<lparr>on_false := int (length (query_vec l))\<rparr>))\<rparr>]\<rparr>"

lemma with_false_sel [simp]:
  "length (query_vec (with_false i b l)) = length (query_vec l)" "scopes (with_false i b l) = scopes l"
  by (simp_all add: with_false_def)

lemma else_plain:
  assumes b: "in_body i n sc False b l0 l1" and bs: "branch_state l1 = BRANCH_EXPECT_ELSE" and "oper_type b = FQL_IF"
    and s: "well_nested subs False (Plain oper a)" "subs a = 0"
  shows "\<exists>l2. statement subs (Plain oper a) (enterSql_clauses l1) \<bind> exitSql_clauses = Some l2 \<and> else_done (Plain oper a) i n sc b l1 l2"
proof -
  let ?m = "length (query_vec l1)" let ?n = "length (scopes l1)"
  let ?q = "(fresh_query ?m)\<lparr>q_op := Some (Simple oper a)\<rparr>"
  let ?b = "b\<lparr>on_false := int ?m, else_scope := Some ?n\<rparr>"
  obtain st where st: "query_stack l1 = i # st" using b by (cases "query_stack l1") (auto simp: in_body_def)
  have f: "\<not> entering_block_stmt l1" "\<not> exiting_block_stmt l1" "active l1 = Some i" "i < ?m" "q_op (query_vec l1 ! i) = Some (Branch b)"
      "n < ?n" "scope_of_branch b = n" "parent_scope (scopes l1 ! n) = Some sc" "\<forall>q\<in>set (query_vec l1). \<not> has_stepped q"
    using b by (auto simp: in_body_def kept_def)
  let ?v = "(query_vec l1)[i := (query_vec l1 ! i)\<lparr>q_op := Some (Branch ?b)\<rparr>] @ [?q]"
  let ?l2 = "l1\<lparr>query_vec := ?v, scopes := scopes l1 @ [scope_construct\<lparr>parent_scope := Some sc\<rparr>], cur_scope := Some ?n\<rparr>"
  let ?l = "?l2\<lparr>active := Some ?m, query_stack := ?m # i # st\<rparr>"
  have "statement subs (Plain oper a) (enterSql_clauses l1) = Some ?l"
    using s st bs f assms(3)
    by (simp add: enterSql_new [OF f(1)] enter_plain_def query_init_op_def enter_else_def upd_branch_def upd_query_def branch_at_def
        op_at_def query_at_def nth_append list_update_append scope_at_def Let_def)
  moreover have "link_branch ?m ?l = Some ?l"
    by (simp add: link_branch_def op_at_def query_at_def nth_append)
  moreover have "?l\<lparr>query_stack := i # st, active := Some i\<rparr> = ?l2" using st f(3) by simp
  ultimately have "statement subs (Plain oper a) (enterSql_clauses l1) \<bind> exitSql_clauses = Some ?l2"
    using exitSql_up [of ?l ?m ?m i st ?l] f(2) bs by (simp add: leave_to_parent_def)
  moreover have "else_done (Plain oper a) i n sc b l1 ?l2"
    using f st by (auto simp: else_done_def kept_def scoped_def exit_settled_def nth_append code_of_def holds_at_def
        instr_of_def fresh_query_def map_update nth_list_update Let_def dest!: subsetD [OF set_update_subset_insert])
  ultimately show ?thesis by blast
qed


lemma else_start:
  assumes b: "in_body i n sc False b l0 l1" and bs: "branch_state l1 = BRANCH_EXPECT_ELSE" and "oper_type b = FQL_IF"
    and y: "is_if y"
  shows "\<exists>bb. statement subs y (enterSql_clauses l1) = inside subs y (started bb ((with_false i b l1)\<lparr>cur_scope := Some sc\<rparr>)) \<and>
    suits y (length (query_vec l1)) bb \<and> scope_of_branch bb = length (scopes l1) \<and> is_elseif bb"
proof -
  let ?m = "length (query_vec l1)" let ?n = "length (scopes l1)"
  let ?b = "\<lambda>c e. \<lparr>oper_type = FQL_IF, last_true_block_query = None, scope_of_branch = ?n,
    else_scope = None, on_true = int ?m + 1, on_false = - 1, expect_else = e, is_elseif = True, condition = c\<rparr>"
  obtain st where st: "query_stack l1 = i # st" using b by (cases "query_stack l1") (auto simp: in_body_def)
  have f: "\<not> entering_block_stmt l1" "i < ?m" "q_op (query_vec l1 ! i) = Some (Branch b)" "n < ?n"
      "parent_scope (scopes l1 ! n) = Some sc" "cur_scope l1 = Some n"
    using b by (auto simp: in_body_def kept_def)
  have i: "enterIf_statement c e (enterSql_clauses l1) = Some (started (?b c e) ((with_false i b l1)\<lparr>cur_scope := Some sc\<rparr>))" for c e
    using st bs f assms(3)
    by (simp add: enterSql_new [OF f(1)] enterIf_statement_def query_enter_if_def query_init_op_def fqlbranch_construct_def
        enter_else_def upd_branch_def upd_query_def branch_at_def op_at_def query_at_def nth_append list_update_append scope_at_def
        started_def with_false_def Let_def)
  show ?thesis
  proof (cases y)
    case (If c x)
    then show ?thesis by (intro exI [of _ "?b c False"]) (simp add: i)
  next
    case (IfElse c x z)
    then show ?thesis by (intro exI [of _ "?b c True"]) (simp add: i)
  qed (use y in simp_all)
qed

lemma leave_elseif:
  assumes "q_op (query_vec l ! m) = Some (Branch b3)" "oper_type b3 = FQL_IF" "is_elseif b3" "m < length (query_vec l)"
    and "q_op (query_vec l ! i) = Some (Branch b)" "expect_else b" "i < length (query_vec l)"
    and "cur_scope l = Some sc" "sc < length (scopes l)"
  shows "\<exists>z. leave_to_parent i m l = Some (l\<lparr>branch_state := z\<rparr>)"
proof (cases "branch_state l = BRANCH_EXPECT_EXPR")
  case True
  then show ?thesis
    using assms
    by (cases "is_in_block (scopes l ! sc)")
      (auto simp: leave_to_parent_def branch_at_def op_at_def query_at_def scope_at_def intro: exI [of _ "branch_state l"])
next
  case False
  then show ?thesis by (auto simp: leave_to_parent_def intro: exI [of _ "branch_state l"])
qed


lemma else_done_by:
  assumes "query_vec l2 = query_vec l3" "scopes l2 = scopes l3" "kept i n l1 l2"
    and "\<exists>z. q_op (query_vec l3 ! i) = Some (Branch (b\<lparr>on_false := int (length (query_vec l1)), else_scope := z\<rparr>))"
    and "\<And>k. k < length (query_vec l1) \<Longrightarrow> k \<noteq> i \<Longrightarrow> sig (query_vec l3 ! k) = sig (query_vec l1 ! k)"
    and "length (query_vec l3) = length (query_vec l1) + stmt_width y"
    and "length (scopes l1) \<le> length (scopes l3)" "\<And>k. k < length (scopes l1) \<Longrightarrow> scopes l3 ! k = scopes l1 ! k"
    and "laid (code_of l3) y (length (query_vec l1)) (length (query_vec l1) + stmt_width y)" "\<forall>q\<in>set (query_vec l3). \<not> has_stepped q"
    and "scoped (length (query_vec l1)) (\<lambda>p. n \<le> p \<or> p = sc) l3"
    and "\<forall>k. length (query_vec l1) \<le> k \<and> k < length (query_vec l3) \<longrightarrow> exit_settled l3 (Some sc) k"
  shows "else_done y i n sc b l1 l2"
  unfolding else_done_def Let_def
  using assms exit_settled_vec [OF assms(1,2)] by (simp add: scoped_def code_of_def)

lemma else_if:
  assumes b: "in_body i n sc False b l0 l1" and bs: "branch_state l1 = BRANCH_EXPECT_ELSE" and o: "oper_type b = FQL_IF" "expect_else b"
    and y: "is_if y" "inside_ok subs y"
  shows "\<exists>l2. statement subs y (enterSql_clauses l1) \<bind> exitSql_clauses = Some l2 \<and> else_done y i n sc b l1 l2"
proof -
  let ?m = "length (query_vec l1)" let ?n = "length (scopes l1)"
  let ?l = "(with_false i b l1)\<lparr>cur_scope := Some sc\<rparr>"
  obtain st where st: "query_stack l1 = i # st" using b by (cases "query_stack l1") (auto simp: in_body_def)
  have f: "\<not> entering_block_stmt l1" "\<not> exiting_block_stmt l1" "active l1 = Some i" "i < ?m" "n < ?n" "sc < n"
      "global_scope l1 = 0" "\<forall>q\<in>set (query_vec l1). \<not> has_stepped q"
    using b by (auto simp: in_body_def kept_def)
  obtain bb where bb: "statement subs y (enterSql_clauses l1) = inside subs y (started bb ?l)" "suits y ?m bb"
      "scope_of_branch bb = ?n" "is_elseif bb"
    using else_start [OF b bs o(1) y(1)] by blast
  have "\<forall>q\<in>set (query_vec ?l). \<not> has_stepped q"
    using f(8) f(4) by (auto simp: with_false_def dest!: subsetD [OF set_update_subset_insert])
  then have "starts y ?m ?n sc bb (started bb ?l)"
    using starts_started [of y ?l bb sc] bb f by (simp add: with_false_def)
  then obtain l2 l3 where l2: "inside subs y (started bb ?l) = Some l2" "link_branch ?m l2 = Some l3"
      and l3: "finished y ?m ?n sc bb (started bb ?l) l3"
    using y(2) by (force simp: inside_ok_def bind_eq_Some_conv)
  have k: "kept ?m ?n (started bb ?l) l3" using l3 by (simp add: finished_def)
  have same: "sig (query_vec l3 ! j) = sig (query_vec ?l ! j)" if "j < ?m" for j
    using kept_query [OF k that] that by (simp add: started_def nth_append)
  have scope: "scopes l3 ! j = scopes l1 ! j" if "j < ?n" for j
    using kept_scope [OF k that] that by (simp add: started_def nth_append)
  have opi: "q_op (query_vec l3 ! i) = Some (Branch (b\<lparr>on_false := int ?m, else_scope := else_scope b\<rparr>))"
    using sigD [OF same [OF f(4)]] f(4) by (cases b) (simp add: with_false_def)
  obtain b3 where b3: "q_op (query_vec l3 ! ?m) = Some (Branch b3)" "oper_type b3 = FQL_IF" "is_elseif b3"
    using l3 bb(2,4) y(1) by (cases y) (auto simp: finished_def)
  have len: "length (query_vec l3) = ?m + stmt_width y" "?m < length (query_vec l3)" "?n \<le> length (scopes l3)" "cur_scope l3 = Some sc"
    using l3 y(1) k by (cases y; simp add: finished_def kept_def)+
  let ?l3 = "l3\<lparr>query_stack := i # st, active := Some i\<rparr>"
  obtain z where z: "leave_to_parent i ?m ?l3 = Some (?l3\<lparr>branch_state := z\<rparr>)"
    using leave_elseif [of ?l3 ?m b3 i "b\<lparr>on_false := int ?m, else_scope := else_scope b\<rparr>" sc] b3 len opi o(2) f by auto
  have "\<not> exiting_block_stmt l2" "active l2 = Some ?m" "query_stack l2 = ?m # i # st"
    using k link_branch_same [OF l2(2)] st by (simp_all add: kept_def started_def with_false_def)
  from exitSql_up [OF this l2(2)] have 1: "statement subs y (enterSql_clauses l1) \<bind> exitSql_clauses = Some (?l3\<lparr>branch_state := z\<rparr>)"
    using bb(1) l2(1) z by simp
  have keep: "sig (query_vec l3 ! j) = sig (query_vec l1 ! j)" if "j < ?m" "j \<noteq> i" for j
    using same [OF that(1)] that(2) by (simp add: with_false_def)
  have "take i (map sig (query_vec l3)) = take i (map sig (query_vec l1))"
    using len f(4) keep by (intro nth_equalityI) auto
  moreover have "take n (scopes l3) = take n (scopes l1)"
    using len f(5) scope by (intro nth_equalityI) auto
  ultimately have K: "kept i n l1 ?l3"
    using k len f st by (simp add: kept_def started_def with_false_def)
  have S: "scoped ?m (\<lambda>p. n \<le> p \<or> p = sc) l3"
    unfolding scoped_def
  proof (intro allI impI)
    fix j assume "?m \<le> j \<and> j < length (query_vec l3)"
    then have "op_within (\<lambda>p. ?n \<le> p \<or> p = sc) (scopes l3) (q_op (query_vec l3 ! j))"
      using l3 by (simp add: finished_def scoped_def)
    then show "op_within (\<lambda>p. n \<le> p \<or> p = sc) (scopes l3) (q_op (query_vec l3 ! j))"
      by (rule op_within_mono) (use f(5) in auto)
  qed
  have L: "laid (code_of l3) y ?m (?m + stmt_width y)" "\<forall>q\<in>set (query_vec l3). \<not> has_stepped q"
      "\<forall>k. ?m \<le> k \<and> k < length (query_vec l3) \<longrightarrow> exit_settled l3 (Some sc) k"
    using l3 by (simp_all add: finished_def)
  have "else_done y i n sc b l1 (?l3\<lparr>branch_state := z\<rparr>)"
    by (rule else_done_by [of _ l3, OF _ _ _ exI [of _ "else_scope b"] keep len(1,3) scope L(1,2) S L(3)])
      (use opi K in \<open>simp_all add: kept_def\<close>)
  then show ?thesis using 1 by blast
qed


lemma inside_IfElse:
  assumes s: "starts (IfElse c x y) i n sc b l" and x: "well_nested subs True x" "\<forall>z\<in>set (parts x). is_branch z \<longrightarrow> inside_ok subs z"
    and e: "ends_plain x" and y: "well_nested subs False y" "bare_else subs y \<or> is_if y" "is_if y \<longrightarrow> inside_ok subs y"
  shows "\<exists>l'. inside subs (IfElse c x y) (l :: 'a listener) \<bind> link_branch i = Some l' \<and> finished (IfElse c x y) i n sc b l l'"
proof (rule branch_body [OF s x])
  fix l1 :: "'a listener" and t f
  let ?b = "b\<lparr>last_true_block_query := Some t, on_false := f\<rparr>"
  assume l1: "statement subs x (enterSql_clauses l) \<bind> exitSql_clauses = Some l1"
    and B: "in_body i n sc False ?b l l1" "length (query_vec l1) = Suc i + stmt_width x"
      "laids (code_of l1) (parts x) (Suc i) (Suc i + stmt_width x)" "t = Suc i + stmts_width (butlast (parts x))" "branch_state l1 = part_state False b"
    and i: "active l1 = Some i" "i < length (query_vec l1)" "global_scope l1 = 0"
      "n < length (scopes l1)" "parent_scope (scopes l1 ! n) = Some sc" "scope_of_branch b = n" "sc < n" "scoped (Suc i) (\<lambda>m. n \<le> m) l1"
    and k: "kept i n l l1"
  let ?m = "length (query_vec l1)"
  have b: "suits (IfElse c x y) i b" using s by (simp add: starts_def)
  have bs: "branch_state l1 = BRANCH_EXPECT_ELSE" using B(5) b by (simp add: part_state_def)
  obtain ys where "butlast (parts x) = ys" "stmt_width x = Suc (stmts_width ys)" using ends_plain_parts [OF e] by metis
  then have t: "t < ?m" "i < t" using B(2,4) by simp_all
  obtain l2 where l2: "statement subs y (enterSql_clauses l1) \<bind> exitSql_clauses = Some l2" "else_done y i n sc ?b l1 l2"
  proof (cases "is_if y")
    case True
    then show ?thesis using that else_if [OF B(1) bs] b y(3) by auto
  next
    case False
    then obtain oper a where "y = Plain oper a" "subs a = 0" using y(2) by (cases y) auto
    then show ?thesis using that else_plain [OF B(1) bs, of subs oper a] b y(1) by auto
  qed
  let ?N = "length (query_vec l2)"
  let ?l = "l2\<lparr>cur_scope := Some sc, branch_state := left_scope sc\<rparr>"
  obtain z where z: "q_op (query_vec l2 ! i) = Some (Branch (?b\<lparr>on_false := int ?m, else_scope := z\<rparr>))"
    using l2(2) by (auto simp: else_done_def Let_def)
  let ?b2 = "?b\<lparr>on_false := int ?m, else_scope := z\<rparr>"
  have E: "sig (query_vec l2 ! k) = sig (query_vec l1 ! k)" if "k < ?m" "k \<noteq> i" for k
    using l2(2) that by (simp add: else_done_def Let_def)
  have F: "?N = ?m + stmt_width y" "kept i n l1 l2" "length (scopes l1) \<le> length (scopes l2)"
      "\<forall>k<length (scopes l1). scopes l2 ! k = scopes l1 ! k"
      "laid (code_of l2) y ?m (?m + stmt_width y)" "\<forall>q\<in>set (query_vec l2). \<not> has_stepped q" "scoped ?m (\<lambda>p. n \<le> p \<or> p = sc) l2"
      "\<forall>k. ?m \<le> k \<and> k < ?N \<longrightarrow> exit_settled l2 (Some sc) k"
    using l2(2) by (simp_all add: else_done_def Let_def)
  have "code_of l1 ! k = code_of ?l ! k" if "Suc i \<le> k" "k < length (code_of l1)" for k
    using sigD [OF E, of k] F(1) that by (simp add: code_of_def)
  then have "laids (code_of ?l) (parts x) (Suc i) ?m"
    using laid_more(2) [of "code_of l1" "code_of ?l" "Suc i" "parts x" "Suc i + stmt_width x"] B(2,3) F(1) by (simp add: code_of_def)
  then obtain ly where ly: "put_next (Some t) (int ?N) ?l = Some ly" "ly = upd_query t (\<lambda>x. x\<lparr>next_idx := int ?N\<rparr>) ?l"
      "laids (code_of ly) (parts x) (Suc i) ?N" "\<forall>k. k \<noteq> t \<longrightarrow> code_of ly ! k = code_of l2 ! k"
      "\<exists>oper a. q_op (query_vec l2 ! t) = Some (Simple oper a)"
    using relink_body [of ?l x "Suc i" ?m t ?N] e B(4) t(1) F(1) by auto
  have ops: "q_op (query_vec ly ! k) = q_op (query_vec l2 ! k)" for k
    using t(1) F(1) by (cases "k = t") (simp_all add: ly(2) upd_query_vec)
  have len: "length (query_vec ly) = ?N" "i < ?N" "t < ?N" "scopes ly = scopes l2" "cur_scope ly = Some sc" "branch_state ly = left_scope sc"
    using F(1) t i(2) by (simp_all add: ly(2))
  have settled_t: "settled ly (Some t)"
    using ly(5) len(1,3) by (auto simp: settled_def ops) (simp add: ly(2) upd_query_vec)
  have settled: "settled ly p" if "settled l2 p" for p
  proof (cases p)
    case (Some t')
    show ?thesis
    proof (cases "t' = t")
      case False
      then have "query_vec ly ! t' = query_vec l2 ! t'" by (simp add: ly(2) upd_query_vec)
      then show ?thesis using that Some len(1) by (auto simp: settled_def split: option.splits operation.splits)
    qed (use Some settled_t in simp)
  qed (use that in \<open>simp add: settled_def\<close>)
  have n: "n < length (scopes l2)" "parent_scope (scopes l2 ! n) = Some sc" using F(3,4) i(4,5) by simp_all
  have mid: "op_within (\<lambda>m. n \<le> m) (scopes l2) (q_op (query_vec l2 ! k))" if "Suc i \<le> k" "k < ?m" for k
  proof -
    have "op_within (\<lambda>m. n \<le> m) (scopes l1) (q_op (query_vec l1 ! k))" using i(8) that by (simp add: scoped_def)
    then show ?thesis
      using sigD [OF E, of k] that F(3,4) by (auto simp: op_within_def split: option.splits operation.splits)
  qed
  have range: "k = i \<or> Suc i \<le> k \<and> k < ?m \<or> ?m \<le> k" if "i \<le> k" for k using that by arith
  have exits: "exit_settled ly (Some sc) k" if ik: "i \<le> k" "k < ?N" for k
  proof -
    consider "k = i" | "Suc i \<le> k" "k < ?m" | "?m \<le> k" using range [OF ik(1)] by blast
    then show ?thesis
    proof cases
      case 1
      then show ?thesis using z settled_t by (simp add: exit_settled_def ops)
    next
      case 2
      then have "op_within (\<lambda>m. n \<le> m) (scopes ly) (q_op (query_vec ly ! k))" using mid by (simp add: ops len(4))
      then show ?thesis using i(7) by (rule exit_settled_deeper)
    next
      case 3
      then have "exit_settled l2 (Some sc) k" using F(8) ik(2) by simp
      then show ?thesis by (auto simp: exit_settled_def ops len(4) intro: settled)
    qed
  qed
  have scoped: "scoped i (\<lambda>m. n \<le> m \<or> m = sc) ly"
    unfolding scoped_def
  proof (intro allI impI)
    fix k assume ik: "i \<le> k \<and> k < length (query_vec ly)"
    consider "k = i" | "Suc i \<le> k" "k < ?m" | "?m \<le> k" "k < ?N" using ik len(1) range [of k] by auto
    then show "op_within (\<lambda>m. n \<le> m \<or> m = sc) (scopes ly) (q_op (query_vec ly ! k))"
    proof cases
      case 1
      then show ?thesis using z n i(6) by (simp add: ops len(4))
    next
      case 2
      show ?thesis unfolding ops len(4) by (rule op_within_mono [OF mid [OF 2]]) simp
    next
      case 3
      then show ?thesis using F(7) by (simp add: scoped_def ops len(4))
    qed
  qed
  have "[i..<?N] = i # [Suc i..<?N]" using len(2) by (simp_all add: upt_conv_Cons)
  then have "exitIf_statement l2 = link_exits [Suc i..<?N] ly"
    using exit_branch_spec(1) [of l2 i ?b2 sc] F(2) i(1,2,3,6) n z len(2) b ly(1)
    by (simp add: Let_def kept_def op_at_def query_at_def scope_at_def)
  moreover have "\<exists>l3. link_exits [Suc i..<?N] ly = Some l3 \<and> alike ly l3"
    by (rule link_exits_settled [OF _ scoped]) (use exits len in auto)
  ultimately obtain l3 where l3: "exitIf_statement l2 = Some l3" "alike ly l3" by auto
  note a3 = alike_facts [OF l3(2)]
  have i3: "i < length (query_vec l3)" "q_op (query_vec l3 ! i) = Some (Branch ?b2)"
    using a3(1) a3(3) [of i] len z by (simp_all add: ops)
  have "settled l3 (last_true_block_query ?b2)" using settled_alike [OF l3(2), of "Some t"] settled_t by simp
  then obtain l4 where l4: "link_branch i l3 = Some l4" "alike l3 l4"
    using link_settled [OF i3] b by auto
  have "holds_at (code_of ly) i (Test c (1 + int i) (int ?m))"
    using holds_Test [of i ly ?b2] len z b by (simp add: ops)
  moreover have "length (code_of ly) = length (code_of l2)" using len(1) by (simp add: code_of_def)
  then have "laid (code_of ly) y ?m ?N = laid (code_of l2) y ?m ?N"
    by (rule laid_cong(1)) (use ly(4) t(1) in auto)
  then have "laid (code_of ly) y ?m ?N" using F(1,5) by simp
  ultimately have "laid (code_of ly) (IfElse c x y) i (i + stmt_width (IfElse c x y))"
    using ly(3) laid_parts [of _ x] B(2) F(1) by (simp add: add.assoc)
  moreover have "kept i n l ly"
    using kept_trans [OF k F(2)] t(2) by (simp add: ly(2) kept_def upd_query_vec map_update)
  moreover have "\<forall>q\<in>set (query_vec ly). \<not> has_stepped q"
    using stepped_upd_query [of ?l "\<lambda>x. x\<lparr>next_idx := int ?N\<rparr>" t] F(6) len(3) by (simp add: ly(2))
  ultimately have fin: "finished (IfElse c x y) i n sc b l ly"
    using B(2) F(1) len z scoped exits by (simp add: finished_def ops)
  have "finished (IfElse c x y) i n sc b l l3" by (rule finished_alike [OF fin l3(2)]) (simp add: len)
  then have "finished (IfElse c x y) i n sc b l l4" by (rule finished_alike [OF _ l4(2) i3(1)])
  moreover have "inside subs (IfElse c x y) l \<bind> link_branch i = Some l4"
    by (simp only: inside.simps l1 l2(1) l3(1) l4(1) Option.bind.simps)
  ultimately show ?thesis by blast
qed


section \<open>Every well nested batch is laid out\<close>

lemma branches_ok:
  "well_nested subs v s \<Longrightarrow> \<forall>z\<in>set (parts s). is_branch z \<longrightarrow> inside_ok subs z"
proof (induction s arbitrary: v)
  case (If c x)
  then have x: "well_nested subs True x" by simp
  have "inside_ok subs (If c x)"
    unfolding inside_ok_def [of subs "If c x"] by (intro allI impI inside_If [OF _ x If.IH [OF x]])
  then show ?case by simp
next
  case (IfElse c x y)
  then have x: "well_nested subs True x" "ends_plain x" "\<forall>z\<in>set (parts x). is_branch z \<longrightarrow> inside_ok subs z"
    and y: "well_nested subs False y" "bare_else subs y \<or> is_if y" by auto
  have i: "is_if y \<longrightarrow> inside_ok subs y"
    using IfElse.IH(2) [OF y(1)] y(1) by (cases y) (auto simp: is_branch_def)
  have "inside_ok subs (IfElse c x y)"
    unfolding inside_ok_def [of subs "IfElse c x y"] by (intro allI impI inside_IfElse [OF _ x(1,3,2) y i])
  then show ?case by simp
next
  case (While c x)
  then have x: "well_nested subs True x" "ends_plain x" by simp_all
  have "inside_ok subs (While c x)"
    unfolding inside_ok_def [of subs "While c x"] by (intro allI impI inside_While [OF _ x(1) While.IH [OF x(1)] x(2)])
  then show ?case by simp
next
  case (Block ss)
  then have "\<forall>z\<in>set ss. well_nested subs False z" by (simp add: list_all_iff)
  moreover have "parts z = [z]" if "well_nested subs False z" for z :: "'a stmt" using that by (cases z) auto
  ultimately show ?case using Block.IH by fastforce
qed (simp_all add: is_branch_def)

text \<open>Between statements of the batch itself.\<close>

definition at_rest :: "'a listener \<Rightarrow> bool" where
  "at_rest l = (query_stack l = [] \<and> \<not> entering_block_stmt l \<and> \<not> exiting_block_stmt l \<and> cur_scope l = Some 0 \<and>
     global_scope l = 0 \<and> 0 < length (scopes l) \<and> branch_state l \<in> {BRANCH_NO_BRANCH, BRANCH_EXPECT_EXPR} \<and>
     (\<forall>q\<in>set (query_vec l). \<not> has_stepped q))"

lemma exitSql_top:
  assumes "\<not> exiting_block_stmt l" "active l = Some m" "query_stack l = [m]" "link_branch m l = Some l1"
  shows "exitSql_clauses l = Some (l1\<lparr>query_stack := [], active := None, branch_state := BRANCH_NO_BRANCH\<rparr>)"
  using assms link_branch_frame [where m = m and l = l and st = "[]" and a = None]
  by (simp add: exitSql_clauses_def query_exit_query_def)

lemma top_statement:
  assumes r: "at_rest l" and s: "well_nested subs False s"
  shows "\<exists>l'. statement subs s (enterSql_clauses l) \<bind> exitSql_clauses = Some l' \<and> at_rest l' \<and>
    length (query_vec l') = length (query_vec l) + stmt_width s \<and> query_idx l' = query_idx l \<and>
    laid (code_of l') s (length (query_vec l)) (length (query_vec l) + stmt_width s) \<and>
    (\<forall>k<length (query_vec l). sig (query_vec l' ! k) = sig (query_vec l ! k))"
proof (cases "is_branch s")
  case True
  let ?m = "length (query_vec l)" let ?n = "length (scopes l)"
  have p: "parts s = [s]" using True by (cases s) (auto simp: is_branch_def)
  obtain bb where bb: "statement subs s (enterSql_clauses l) = inside subs s (started bb l)" "suits s ?m bb" "scope_of_branch bb = ?n"
    using branch_start [OF True, where l = l and subs = subs] r by (auto simp: at_rest_def)
  have "starts s ?m ?n 0 bb (started bb l)"
    using starts_started [OF bb(2,3)] r by (auto simp: at_rest_def)
  then obtain l2 l3 where l2: "inside subs s (started bb l) = Some l2" "link_branch ?m l2 = Some l3"
      and l3: "finished s ?m ?n 0 bb (started bb l) l3"
    using branches_ok [OF s] p True by (force simp: inside_ok_def bind_eq_Some_conv)
  have k: "kept ?m ?n (started bb l) l3" using l3 by (simp add: finished_def)
  have "\<not> exiting_block_stmt l2" "active l2 = Some ?m" "query_stack l2 = [?m]"
    using k link_branch_same [OF l2(2)] r by (simp_all add: kept_def started_def at_rest_def)
  note up = exitSql_top [OF this l2(2)]
  have below: "sig (query_vec l3 ! j) = sig (query_vec l ! j)" if "j < ?m" for j
    using kept_query [OF k that] that by (simp add: started_def nth_append)
  show ?thesis
    using up bb(1) l2(1) l3 k below r
    by (auto simp: at_rest_def finished_def kept_def started_def code_of_def)
next
  case False
  then obtain oper a where p: "s = Plain oper a" "oper \<noteq> FQL_IF" "oper \<noteq> FQL_WHILE" using s by (cases s) (auto simp: is_branch_def)
  have f: "\<not> entering_block_stmt l" "branch_state l \<noteq> BRANCH_EXPECT_ELSE" using r by (auto simp: at_rest_def)
  show ?thesis
    using r p f
    by (auto simp: enterSql_new [OF f(1)] enter_plain_def query_init_op_def upd_query_def exitSql_clauses_def query_exit_query_def
        link_branch_def op_at_def query_at_def at_rest_def code_of_def holds_at_def instr_of_def fresh_query_def nth_append)
qed

lemma top_statements:
  "at_rest l \<Longrightarrow> \<forall>s\<in>set p. well_nested subs False s \<Longrightarrow> \<exists>l'. sql_clauses subs p l = Some l' \<and> at_rest l' \<and>
    length (query_vec l') = length (query_vec l) + stmts_width p \<and> query_idx l' = query_idx l \<and>
    rest_laid (code_of l') p (length (query_vec l)) \<and>
    (\<forall>k<length (query_vec l). sig (query_vec l' ! k) = sig (query_vec l ! k))"
proof (induction p arbitrary: l)
  case (Cons s p)
  obtain l1 where l1: "statement subs s (enterSql_clauses l) \<bind> exitSql_clauses = Some l1" "at_rest l1"
      "length (query_vec l1) = length (query_vec l) + stmt_width s" "query_idx l1 = query_idx l"
      "laid (code_of l1) s (length (query_vec l)) (length (query_vec l) + stmt_width s)"
      "\<forall>k<length (query_vec l). sig (query_vec l1 ! k) = sig (query_vec l ! k)"
    using top_statement [OF Cons.prems(1)] Cons.prems(2) by (metis list.set_intros(1))
  obtain l2 where l2: "sql_clauses subs p l1 = Some l2" "at_rest l2" "length (query_vec l2) = length (query_vec l1) + stmts_width p"
      "query_idx l2 = query_idx l1" "rest_laid (code_of l2) p (length (query_vec l1))"
      "\<forall>k<length (query_vec l1). sig (query_vec l2 ! k) = sig (query_vec l1 ! k)"
    using Cons.IH [OF l1(2)] Cons.prems(2) by auto
  have "code_of l1 ! k = code_of l2 ! k" if "k < length (code_of l1)" for k
    using l2(6) l2(3) that by (simp add: code_of_def sig_def)
  then have "laid (code_of l2) s (length (query_vec l)) (length (query_vec l) + stmt_width s)"
    using laid_more(1) [OF _ _ l1(5), of "code_of l2"] l2(3) by (simp add: code_of_def)
  then show ?case using l1 l2 by (auto simp: add.assoc)
qed (simp add: code_of_def)


definition handle_ready :: "'a fqlhandle \<Rightarrow> bool" where
  "handle_ready h = (query_vec h = [] \<and> query_idx h = 0 \<and> cur_scope h = Some 0 \<and> global_scope h = 0 \<and> 0 < length (scopes h) \<and>
     branch_state h \<in> {BRANCH_NO_BRANCH, BRANCH_EXPECT_EXPR})"

lemma handle_ready_construct: "handle_ready fql_construct"
  by (simp add: handle_ready_def fql_construct_def)

lemma truncate_sel [simp]:
  "query_vec (fqlhandle.truncate l) = query_vec l" "query_idx (fqlhandle.truncate l) = query_idx l"
  "code_of (fqlhandle.truncate l) = code_of l"
  by (simp_all add: fqlhandle.truncate_def code_of_def)

lemma analyze_runnable:
  assumes "handle_ready h" "\<forall>s\<in>set p. well_nested subs False s" "stmts_width p < 2 ^ 32"
  shows "\<exists>h'. analyze_query subs p h = Some h' \<and> runnable p h'"
proof -
  have "at_rest (listener_of h)" "query_vec (listener_of h) = []" "query_idx (listener_of h) = 0"
    using assms(1) by (auto simp: at_rest_def listener_of_def handle_ready_def fqlhandle.extend_def)
  with top_statements [OF _ assms(2), of "listener_of h"] show ?thesis
    using assms(3) by (auto simp: analyze_query_def runnable_def at_rest_def)
qed

section \<open>What is not well nested\<close>

text \<open>
  A subquery in the statement of an ELSE meets the assertion of \<open>query_init_op\<close>: the query that it
  takes for the IF is the statement itself.
\<close>

lemma else_subquery:
  assumes b: "in_body i n sc False b l0 l1" and bs: "branch_state l1 = BRANCH_EXPECT_ELSE" and "oper_type b = FQL_IF"
    and s: "oper \<noteq> FQL_IF" "oper \<noteq> FQL_WHILE" "0 < subs a"
  shows "statement subs (Plain oper a) (enterSql_clauses l1) = None"
proof -
  obtain st where st: "query_stack l1 = i # st" using b by (cases "query_stack l1") (auto simp: in_body_def)
  have f: "\<not> entering_block_stmt l1" "i < length (query_vec l1)" "q_op (query_vec l1 ! i) = Some (Branch b)"
      "n < length (scopes l1)" "scope_of_branch b = n"
    using b by (auto simp: in_body_def kept_def)
  obtain k where k: "subs a = Suc k" using s(3) by (cases "subs a") auto
  show ?thesis
    using s(1,2) st bs f assms(3)
    by (simp add: k enterSql_new [OF f(1)] enter_plain_def query_init_op_def enter_subquery_def enter_else_def upd_branch_def
        upd_query_def branch_at_def op_at_def query_at_def nth_append list_update_append scope_at_def Let_def)
qed

lemma sql_clauses_append: "sql_clauses subs (p @ q) l = sql_clauses subs p l \<bind> sql_clauses subs q"
proof (induction p arbitrary: l)
  case (Cons s p)
  then have "sql_clauses subs (p @ q) = (\<lambda>l. sql_clauses subs p l \<bind> sql_clauses subs q)" by blast
  then show ?case by simp
qed simp

lemma else_subquery_none:
  assumes "handle_ready h" "\<forall>s\<in>set p. well_nested subs False s" "well_nested subs True x"
    and "oper \<noteq> FQL_IF" "oper \<noteq> FQL_WHILE" "0 < subs a"
  shows "analyze_query subs (p @ IfElse c x (Plain oper a) # q) h = None"
proof -
  let ?s = "IfElse c x (Plain oper a)"
  have "at_rest (listener_of h)"
    using assms(1) by (auto simp: at_rest_def listener_of_def handle_ready_def fqlhandle.extend_def)
  from top_statements [OF this assms(2)] obtain l where l: "sql_clauses subs p (listener_of h) = Some l" "at_rest l" by blast
  have "is_branch ?s" by (simp add: is_branch_def)
  from branch_start [OF this, where l = l and subs = subs] obtain b where
    b: "statement subs ?s (enterSql_clauses l) = inside subs ?s (started b l)" "suits ?s (length (query_vec l)) b"
      "scope_of_branch b = length (scopes l)"
    using l(2) by (auto simp: at_rest_def)
  have "starts ?s (length (query_vec l)) (length (scopes l)) 0 b (started b l)"
    using starts_started [OF b(2,3)] l(2) by (auto simp: at_rest_def)
  then have "inside subs ?s (started b l) = None"
  proof (rule branch_body [OF _ assms(3)])
    show "\<forall>y\<in>set (parts x). is_branch y \<longrightarrow> inside_ok subs y" by (rule branches_ok [OF assms(3)])
  next
    fix l1 :: "'a listener" and t f
    let ?b = "b\<lparr>last_true_block_query := Some t, on_false := f\<rparr>"
    assume l1: "statement subs x (enterSql_clauses (started b l)) \<bind> exitSql_clauses = Some l1"
      and B: "in_body (length (query_vec l)) (length (scopes l)) 0 False ?b (started b l) l1" "branch_state l1 = part_state False b"
    have "branch_state l1 = BRANCH_EXPECT_ELSE" using B(2) b(2) by (simp add: part_state_def)
    from else_subquery [where subs = subs, OF B(1) this _ assms(4-6)] show ?thesis
      using b(2) l1 by (simp del: statement.simps)
  qed
  then show ?thesis by (simp add: analyze_query_def sql_clauses_append l(1) b(1) del: statement.simps)
qed

text \<open>
  The other statements come out wrong, or do not come out. ELSE BEGIN ... END is never run: the
  end of its block overwrites where the IF goes when it fails.
\<close>

abbreviation jumps_of :: "('a \<Rightarrow> nat) \<Rightarrow> 'a stmt list \<Rightarrow> 'a instr option list option" where
  "jumps_of subs p \<equiv> map_option code_of (analyze_query subs p fql_construct)"

lemma else_block_never_runs:
  "jumps_of (\<lambda>_. 0) [IfElse (c::nat) (Plain FQL_SET x) (Block [Plain FQL_SET y]), Plain FQL_SET z] =
     Some [Some (Test c 1 3), Some (Run x 3), Some (Run y 3), Some (Run z 4)]"
  by code_simp

text \<open>A loop that ends in an IF is left after one round.\<close>

lemma loop_left_by_if:
  "jumps_of (\<lambda>_. 0) [While (c::nat) (If d (Plain FQL_SET x)), Plain FQL_SET z] =
     Some [Some (Test c 1 3), Some (Test d 2 3), Some (Run x 3), Some (Run z 4)]"
  by code_simp

text \<open>An IF at the end of the first branch of an IF with ELSE falls into the ELSE.\<close>

lemma if_falls_into_else:
  "jumps_of (\<lambda>_. 0) [IfElse (c::nat) (Block [If d (Plain FQL_SET x)]) (Plain FQL_SET y), Plain FQL_SET z] =
     Some [Some (Test c 1 3), Some (Test d 2 3), Some (Run x 3), Some (Run y 4), Some (Run z 5)]"
  by code_simp

lemma not_compiled:
  "jumps_of (\<lambda>_. 0) [IfElse (c::nat) (Plain FQL_SET x) (While d (Plain FQL_SET y))] = None"
  "jumps_of (\<lambda>_. 0) [If (c::nat) (Block [])] = None"
  "jumps_of (\<lambda>_. 0) [Block [Plain FQL_SET (x::nat)]] = None"
  "jumps_of (\<lambda>_. 0) [Plain FQL_SET (x::nat), Semi] = None"
  by code_simp+

end
