(* ===== verification/Spec2Isabelle.thy ===== *)
theory Spec2Isabelle
  imports FifoConc ScalarText TypeSound JoinKey Sample Recycle OrderSpec Dgraph SampleIo Csv
    JoinSpec Update Exec ProcSpec ControlSpec
begin

text \<open>
  A development for fql, an SQL engine over delimited and fixed-width text files.

  The program. The listener on the parse tree of the generated ANTLR parser
  (lib/antlr/listenerinterface.cpp) calls the query builder (lib/query.c), which makes queries with
  their expressions, conditions and statements; schemas are resolved (lib/schema.c), a plan is laid
  out as a graph of processes (lib/fqlplan.c, util/dgraph.c), and the processes
  (lib/fqlprocesses.c) pass row groups to each other through fifos (util/fifo.c): they read records
  from files, join them, test conditions, group, order and select, or write a file anew for DELETE
  and UPDATE. lib/libfql.c runs the queries of a batch one after the other and follows the jumps of
  IF and WHILE. Below all of them lie the containers of util/.

  The theories. Each models one part, its operations under their C names (without a leading
  underscore). A struct is a record, a pointer an index or an address into a list or heap of the
  model, \<open>None\<close> the NULL pointer. A function that can only fail by leaving its block of memory
  returns an option; one that reports errors returns an \<open>outcome\<close> (\<open>Good\<close>, \<open>Null\<close> for FQL_NULL,
  \<open>Fail\<close> for FQL_FAIL, \<open>Crash\<close> for undefined behaviour) and, as an \<open>act\<close>, the new state.
  Integers of C are words of their width.
    FqlPrelude: outcomes, actions, block memory, views.
    Containers: Vec (util/vec.c), Fifo and FifoConc (util/fifo.c, with processes on both ends),
    Probe, Hashmap, HashmapTable, HashmapMaps, Compositemap (util/hashmap.c), Strings
    (util/stringy.c), StringView (util/stringview.c, util/util.c), Flex (util/flex.c), Node
    (util/node.c), Dgraph (util/dgraph.c).
    Values: Field (lib/field.c, lib/misc.h), Scalar and ScalarText (lib/scalarfn.c), Function
    (lib/function.c), Variable (lib/variable.c), Like (lib/like.c).
    Expressions and conditions: Store (the data), Logicgroup and Logic (lib/logic.c,
    lib/fqllogic.c, lib/inlist.c, lib/switchcase.c), Expression, ExprDepth, ExprOps and TypeSound
    (lib/expression.c).
    Rows: RowRecord (lib/record.c), Recycle (lib/fqlprocesses.c), Schema (lib/schema.c), Fixed,
    FixedSpec and Csv (readers and writers).
    Processing: Process, Join, JoinSpec, GroupProc, Update (lib/fqlprocesses.c), Exec (lib/process.c),
    ProcSpec, Aggregate (lib/aggregate.c), Group and GroupSpec (lib/group.c), JoinKey, Select
    (lib/fqlselect.c), Orderby and OrderSpec (lib/order.c).
    Batches: Control and ControlSpec (lib/query.c, lib/fqlbranch.c, lib/libfql.c).
    Sample and SampleIo hold the small inputs of the witnesses.

  What is proved. The containers refine lists, queues, sets and maps, through locales that are
  interpreted on the model (\<open>hm\<close>, \<open>mm\<close>, \<open>hs\<close>, \<open>cmap\<close> for the tables, a queue for the fifo, a
  list for the nodes); the fifo is safe and live with one producer and one consumer, and not with
  two producers (\<open>two_producers_lose\<close>). Evaluation ends on stores without cycles, agrees with the
  boolean value of conditions, keeps constants stable and respects types. Grouping, ordering,
  hash joins, padding, LIKE and the text functions compute what their specifications say.
  Recycling returns every record exactly once. The queries of a batch run as its structure says
  when its statements are well nested; the last section of ControlSpec shows instances of other
  nestings and what becomes of them. Where the code fails its specification, the property says
  for which inputs: keys of blanks or with tabs, RIGHT beyond the text, orders over control
  characters, TOP 0, a UNION of calls of different types, an ELSE with a subquery, a graph whose
  traversal overflows its ring.

  Taken as defined. Signed overflow in the checked arithmetic of lib/misc.h (at the smallest
  \<open>long\<close>, undefined in C) wraps around as the machine does. Lengths and indices of type \<open>int\<close> are
  unbounded in \<open>stringview_compare_nocase\<close> (which has no caller) and \<open>write_columns\<close> (where the length is
  that of one record). Writers append to the file at once, where the C code goes
  through the buffer of a \<open>FILE\<close> that is flushed before the file is renamed.

  Bounds and fuel. Loops that end by counting are recursive on the count or have a measure;
  probing and the growth of a table carry their own measure. \<open>expr_getters\<close> evaluates to a given
  depth; any depth above the rank of an expression gives the same result
  (\<open>evaluation_terminates\<close>). \<open>fifo_drain\<close> needs more fuel than there are elements and then ends
  (\<open>fifo_drained\<close>). The traversal of a graph needs as much as it has nodes. \<open>fql_exec_plans\<close> counts
  the plans it is asked for, as the C function does. \<open>string_find_replace\<close> is a partial function,
  total for every needle that is not empty.

  Parameters. Arithmetic, parsing and printing of double; PCRE2; libcsv (a git submodule);
  \<open>qsort_r\<close>; the file system under the readers and writers.

  Not modelled. The generated lexer and parser, most of the listener (names of tables, columns and
  aliases, which it only passes on), the sources of a query and the search for files, resolving the
  expressions of a query against its schemas, laying out the plan, the threads and their condition
  variables (the fifos log their signals), signals, the command line, printing of plans, and
  freeing of memory, except where the program itself depends on it (recycling, nodes, order).
\<close>

section \<open>Hash tables\<close>

text \<open>
  Property C1. Whatever was stored in a fresh \<open>hashmap\<close>, a lookup returns a pointer to the
  value stored last under a key that the hash function does not distinguish from the one
  asked for, or \<open>NULL\<close> if there is none. No probe loops forever and no access leaves its
  block, whatever the growth steps and collisions on the way.
\<close>

theorem hashmap_history:
  "yields (put_all hashmap_nset (hashmap_construct lim ps) kvs \<bind> (\<lambda>m. hashmap_nget m key))
    (\<lambda>(r, m'). case r of
       None \<Rightarrow> under (norm_key ps) (norm_key ps key) kvs = []
     | Some i \<Rightarrow> under (norm_key ps) (norm_key ps key) kvs \<noteq> [] \<and>
         vec_at (vals m') i = Some (Some (last (under (norm_key ps) (norm_key ps key) kvs))))"
proof -
  let ?u = "under (norm_key ps) (norm_key ps key) kvs"
  note c = hashmap_construct_spec [of lim ps, where 'v = 'a]
  have ok: "hm_ok (hashmap_construct lim ps :: 'a vec hashtab) \<and>
      props (hashmap_construct lim ps :: 'a vec hashtab) = ps"
    using c by simp
  show ?thesis
  proof (rule yields_bind_all [OF hm.put_all_content [OF ok, of kvs]])
    fix m :: "'a vec hashtab"
    assume m: "(hm_ok m \<and> props m = ps) \<and> (\<forall>k. hm_map m k =
      fold (\<lambda>x r. Some x) (under (norm_key ps) k kvs) (hm_map (hashmap_construct lim ps) k))"
    then have "hm_map m (norm_key ps key) = (if ?u = [] then None else Some (last ?u))"
      using c by (simp add: fold_last)
    then show "yields (hashmap_nget m key) (\<lambda>(r, m'). case r of None \<Rightarrow> ?u = []
        | Some i \<Rightarrow> ?u \<noteq> [] \<and> vec_at (vals m') i = Some (Some (last ?u)))"
      using hashmap_nget_spec [of m key] m
      by (auto elim!: yields_mono split: option.splits if_splits)
  qed
qed

text \<open>
  Property C2. A \<open>multimap\<close>, which is what the hash join builds over its right side, returns
  for a key exactly the values inserted under it, in the order of insertion.
\<close>

theorem multimap_history:
  "yields (put_all multimap_nset (multimap_construct lim ps) kvs \<bind> (\<lambda>m. hashmap_nget m key))
    (\<lambda>(r, m'). let u = under (norm_key ps) (norm_key ps key) kvs in
      case r of
        None \<Rightarrow> u = []
      | Some i \<Rightarrow> u \<noteq> [] \<and> (\<exists>w. vec_at (vals m') i = Some (Some w) \<and> vec_list w = map Some u))"
  by (rule multimap_lookup)

text \<open>
  Property C3. A \<open>set\<close> answers membership for exactly the keys added since it was last
  cleared, although clearing leaves the element counter as it was.
\<close>

theorem set_history:
  assumes "set_ok m0"
  shows "yields (put_all (\<lambda>m key (_ :: unit). set_nadd m key) (set_clear m0) kvs \<bind> (\<lambda>m. set_nhas m key))
    (\<lambda>(b, m'). set_ok m' \<and> b = (under (norm_key (props m0)) (norm_key (props m0) key) kvs \<noteq> []))"
proof -
  let ?ps = "props m0"
  let ?u = "under (norm_key ?ps) (norm_key ?ps key) kvs"
  have c: "set_ok (set_clear m0)" "set_elem (set_clear m0) = Map.empty" "props (set_clear m0) = ?ps"
    using set_clear_spec [OF assms] by (simp_all add: set_clear_def)
  show ?thesis
  proof (rule yields_bind_all [OF hs.put_all_content [of "set_clear m0" ?ps kvs]])
    show "set_ok (set_clear m0) \<and> props (set_clear m0) = ?ps" using c by simp
    fix m
    assume m: "(set_ok m \<and> props m = ?ps) \<and> (\<forall>k. set_elem m k =
      fold (\<lambda>x r. Some ()) (under (norm_key ?ps) k kvs) (set_elem (set_clear m0) k))"
    then have "set_elem m (norm_key ?ps key) = (if ?u = [] then None else Some ())"
      using c by (simp add: fold_unit)
    then show "yields (set_nhas m key) (\<lambda>(b, m'). set_ok m' \<and> b = (?u \<noteq> []))"
      using set_nhas_spec [of m key] m by (auto elim!: yields_mono)
  qed
qed

theorem set_history_witness:
  "yields (put_all (\<lambda>m key (_ :: unit). set_nadd m key) (set_clear (set_construct 2 1))
      [(''Ab'', ()), (''c'', ())] \<bind> (\<lambda>m. set_nhas m ''aB''))
    (\<lambda>(b, m'). set_ok m' \<and> b)"
proof -
  have "under (norm_key 1) (norm_key 1 ''aB'') [(''Ab'', ()), (''c'', ())] \<noteq> []" by code_simp
  then show ?thesis
    using set_history [OF set_construct_spec(1) [of 2 1], of "[(''Ab'', ()), (''c'', ())]" "''aB''"]
      set_construct_spec(3) [of 2 1]
    by simp
qed

text \<open>
  Property C4. A \<open>compositemap\<close>, which holds the groups of GROUP BY and the rows of DISTINCT,
  returns the value stored last under the same list of components, component by component
  up to the normalisation of the property word; a list is never confused with another of
  different length or with its concatenation.
\<close>

theorem compositemap_history:
  "yields (put_all compositemap_set (compositemap_construct lim ps) kvs \<bind> (\<lambda>c. compositemap_get c key))
    (\<lambda>(r, c'). let u = under (map (norm_key ps)) (map (norm_key ps) key) kvs in
      case r of
        None \<Rightarrow> u = []
      | Some i \<Rightarrow> u \<noteq> [] \<and> vec_at (vals (base c')) i = Some (Some (last u)))"
  by (rule compositemap_lookup)

section \<open>Grouping\<close>

text \<open>
  Property C5. GROUP BY: rows are recorded into a fresh group and the groups are dumped. Every
  \<open>group_record\<close> reports whether the key of its row is new; the dump hands out one record for
  each distinct key, in the order of the first rows, with the key texts of that first row and
  every aggregate folded over exactly the rows of the group, in order; then it reports the end.
  Keys are compared component by component up to case and trailing blanks. Whatever the number of
  rows, no access leaves its block. \<open>res j ms\<close> is the result of aggregate j over the rows \<open>ms\<close>; the
  hypothesis asks for its steps only where the rows lead it, row by row within one group. A NULL is
  0 or the empty text for the keys and the aggregates; that of a text function without a value, and
  ROW_NUMBER, for which the dump sets no field, are left out.
\<close>

theorem group_by:
  fixes I :: "('f, 're) store \<Rightarrow> bool" and as :: "'f aggregate list"
  assumes key: "\<And>row i. row \<in> set rows \<Longrightarrow> i \<in> set es \<Longrightarrow> key_value (x_flt x) I (G row) i (k row i)"
    and c: "\<And>row. row \<in> set rows \<Longrightarrow> length (key_texts (k row) es) = n"
    and ev: "\<And>pre row post j ms. rows = pre @ row # post \<Longrightarrow> j < length as \<Longrightarrow>
      ms = filter (\<lambda>r. gkey (key_texts (k r) es) = gkey (key_texts (k row) es)) pre \<Longrightarrow>
      evaluates I (agg_row (x_flt x) (G row) (as ! j) (res j ms)) (res j (ms @ [row]))"
    and fresh: "\<And>j. j < length as \<Longrightarrow> results (as ! j) = vec_construct \<and> res j [] = fresh_result (as ! j)"
    and I: "I s"
    and plain: "\<forall>p \<in> set es. plain_expr exs (length as) p"
    and n: "length (filter (\<lambda>p. expr (exs ! p) \<noteq> EXPR_AGGREGATE) es) = n"
    and texts: "\<forall>p \<in> set (group_rows (\<lambda>row. key_texts (k row) es) rows). None \<notin> set (group_texts (x_flt x) exs as res es p)"
    and rec: "vec_ok (rec_fields rec)" "strings_ok rec"
  shows "\<exists>s' g out. group_all (\<lambda>row. group_record x (G row)) rows
      (s, group_construct\<lparr>g_exprs := es, g_aggs := as, composite := replicate n no_view\<rparr>) =
        (Good (first_of_key (\<lambda>row. key_texts (k row) es) [] rows), (s', g)) \<and> I s' \<and>
    dump_groups (length rows + 1) (x_flt x) exs g rec = Some out \<and>
    map (map (map_option sv_text)) out =
      map (group_texts (x_flt x) exs as res es) (group_rows (\<lambda>row. key_texts (k row) es) rows)"
proof -
  let ?g = "group_construct\<lparr>g_exprs := es, g_aggs := as, composite := replicate n no_view\<rparr> :: 'f group"
  let ?gs = "group_rows (\<lambda>row. key_texts (k row) es) rows"
  have so_far: "group_so_far (key_texts (k row) es) (fold (\<lambda>row gs. add_row (key_texts (k row) es) row gs) pre []) =
      filter (\<lambda>r. gkey (key_texts (k r) es) = gkey (key_texts (k row) es)) pre" for row pre
    using group_so_far_rows [of "key_texts (k row) es" "\<lambda>row. key_texts (k row) es" pre] by (simp add: group_rows_def)
  have "group_ok as res ?g []" by (rule group_construct_ok) (use fresh in blast)
  then obtain s' g where g: "group_all (\<lambda>row. group_record x (G row)) rows (s, ?g) =
      (Good (first_of_key (\<lambda>row. key_texts (k row) es) [] rows), (s', g))" "I s'" "group_ok as res g ?gs"
      "length (composite g) = n" "g_exprs g = es" "dump_idx g = 0"
    using group_all_spec [of rows es x I G k n as res "[]" ?g s] key c ev [OF _ _ so_far] fresh I
    by (auto simp: group_rows_def group_construct_def)
  have len: "length ?gs \<le> length rows"
  proof -
    have "length (fold (\<lambda>row gs. add_row (f row) row gs) rs gs) \<le> length gs + length rs" for f rs and gs :: "(string list \<times> 'a list) list"
    proof (induction rs arbitrary: gs)
      case (Cons r rs)
      have "length (add_row (f r) r gs) \<le> length gs + 1" by (simp add: add_row_def)
      then show ?case using Cons [of "add_row (f r) r gs"] by simp
    qed simp
    from this [of "\<lambda>row. key_texts (k row) es" rows "[]"] show ?thesis by (simp add: group_rows_def)
  qed
  have "\<exists>out. dump_groups (length rows + 1) (x_flt x) exs g rec = Some out \<and>
      map (map (map_option sv_text)) out = map (group_texts (x_flt x) exs as res (g_exprs g)) (drop (dump_idx g) ?gs)"
    by (rule dump_groups_spec [OF g(3)]) (use g(4-6) plain n texts rec len in auto)
  then show ?thesis using g by auto
qed

text \<open>
  Three groups of \<open>sales_rows\<close> under COUNT, SUM and AVG: two rows whose keys differ in case and a blank, one row, and
  one that has no number.
\<close>

theorem group_by_witness:
  "\<exists>s' g out. group_all (\<lambda>p. group_record sample_ext (expr_getters sample_ext [sales_row p] 1)) sales_rows
      (sales_store, group_construct\<lparr>g_exprs := [0, 2, 3, 4], g_aggs := sales_aggs, composite := replicate 1 no_view\<rparr>) =
        (Good [True, True, False, True], (s', g)) \<and>
    dump_groups 5 (x_flt sample_ext) sales_exprs g (record_construct 0) = Some out \<and>
    map (map (map_option sv_text)) out =
      [[Some ''Ab'', Some ''2'', Some ''11'', Some ''5''], [Some ''c'', Some ''1'', Some ''5'', Some ''5''], [Some ''d'', Some ''1'', Some ''0'', Some ''0'']]"
proof -
  let ?k = "\<lambda>p (i :: nat). if i = 0 then Some (fst p) else None" and ?es = "[0, 2, 3, 4] :: nat list"
  have kt: "key_texts (?k p) ?es = [fst p]" for p :: "string \<times> string list" by (simp add: key_texts_def)
  have first: "first_of_key (\<lambda>p. [fst p]) [] sales_rows = [True, True, False, True]" by code_simp
  have key: "key_value (x_flt sample_ext) (\<lambda>s. s = sales_store) (expr_getters sample_ext [sales_row p] 1) i (?k p i)" if "i \<in> set ?es" for p i
    using that reads_evaluates [OF sales_key [of p], of None]
    by (auto simp: key_value_def sales_store_def sales_exprs_def blank_expression_def intro!: exI [of _ "view_of (fst p)"])
  have keys: "gkey [''Ab''] \<noteq> gkey [''c'']" "gkey [''Ab''] = gkey [''aB '']" "gkey [''c''] \<noteq> gkey [''aB '']" "gkey [''Ab''] \<noteq> gkey [''d'']"
    "gkey [''c''] \<noteq> gkey [''d'']" "gkey [''aB ''] \<noteq> gkey [''d'']" by code_simp+
  have ev: "evaluates (\<lambda>s. s = sales_store) (agg_row (x_flt sample_ext) (expr_getters sample_ext [sales_row row] 1) (sales_aggs ! j) (sales_res j ms))
      (sales_res j (ms @ [row]))"
    if sp: "sales_rows = pre @ row # post" and j: "j < length sales_aggs" and ms: "ms = filter (\<lambda>r. gkey [fst r] = gkey [fst row]) pre"
    for pre row post j ms
  proof (rule sales_steps [OF j])
    show "row \<in> set sales_rows" unfolding sp by simp
    show "ms = (if fst row = ''aB '' then [(''Ab'', [''7''])] else [])"
      using sp ms keys by (auto simp: sales_rows_def Cons_eq_append_conv)
  qed
  have texts: "map (group_texts (x_flt sample_ext) sales_exprs sales_aggs sales_res ?es) (group_rows (\<lambda>p. [fst p]) sales_rows) =
      [[Some ''Ab'', Some ''2'', Some ''11'', Some ''5''], [Some ''c'', Some ''1'', Some ''5'', Some ''5''], [Some ''d'', Some ''1'', Some ''0'', Some ''0'']]"
    by code_simp
  have five: "length sales_rows + 1 = 5" by (simp add: sales_rows_def)
  have "\<exists>s' g out. group_all (\<lambda>p. group_record sample_ext (expr_getters sample_ext [sales_row p] 1)) sales_rows
      (sales_store, group_construct\<lparr>g_exprs := ?es, g_aggs := sales_aggs, composite := replicate 1 no_view\<rparr>) =
        (Good (first_of_key (\<lambda>p. key_texts (?k p) ?es) [] sales_rows), (s', g)) \<and> s' = sales_store \<and>
    dump_groups (length sales_rows + 1) (x_flt sample_ext) sales_exprs g (record_construct 0) = Some out \<and>
    map (map (map_option sv_text)) out =
      map (group_texts (x_flt sample_ext) sales_exprs sales_aggs sales_res ?es) (group_rows (\<lambda>p. key_texts (?k p) ?es) sales_rows)"
  proof (rule group_by [where n = 1])
    show "\<forall>p \<in> set (group_rows (\<lambda>p. key_texts (?k p) ?es) sales_rows). None \<notin> set (group_texts (x_flt sample_ext) sales_exprs sales_aggs sales_res ?es p)"
    proof
      fix p assume "p \<in> set (group_rows (\<lambda>p. key_texts (?k p) ?es) sales_rows)"
      then have "group_texts (x_flt sample_ext) sales_exprs sales_aggs sales_res ?es p \<in> set (map (group_texts (x_flt sample_ext) sales_exprs sales_aggs sales_res ?es)
          (group_rows (\<lambda>p. [fst p]) sales_rows))" by (simp add: kt)
      then show "None \<notin> set (group_texts (x_flt sample_ext) sales_exprs sales_aggs sales_res ?es p)" unfolding texts by auto
    qed
    show "results (sales_aggs ! j) = vec_construct \<and> sales_res j [] = fresh_result (sales_aggs ! j)" if "j < length sales_aggs" for j
      using that by (auto simp: sales_aggs_def sales_res_def sample_count_def aggregate_construct_def fresh_result_def less_Suc_eq numeral_2_eq_2)
    show "evaluates (\<lambda>s. s = sales_store) (agg_row (x_flt sample_ext) (expr_getters sample_ext [sales_row row] 1) (sales_aggs ! j) (sales_res j ms))
        (sales_res j (ms @ [row]))"
      if "sales_rows = pre @ row # post" "j < length sales_aggs" "ms = filter (\<lambda>r. gkey (key_texts (?k r) ?es) = gkey (key_texts (?k row) ?es)) pre"
      for pre row post j ms using ev [OF that(1,2)] that(3) by (simp only: kt)
  qed (use key in \<open>auto simp: kt plain_expr_def sales_exprs_def sales_aggs_def blank_expression_def record_construct_def strings_ok_def pool_ok_def\<close>)
  then show ?thesis unfolding kt first texts five by (elim exE conjE) (intro exI conjI; assumption)
qed

text \<open>
  Property C6. The integer aggregates: over the values of one group, as long as no partial sum
  leaves the range of \<open>long\<close>, SUM is the exact sum, AVG the sum divided by the number of rows
  with the remainder dropped, MIN and MAX the smallest and the largest value.
\<close>

theorem aggregate_values:
  assumes "length ns < 4294967296" "ns \<noteq> []" "\<And>ms. prefix ms ns \<Longrightarrow> in_long (sum_of ms)"
  shows "(\<exists>r. feed (sum_i fo) zero_result ns = Good r \<and> agg_value r = UInt (word_of_int (sum_of ns))) \<and>
    (\<exists>r. feed (avg_i fo) zero_result ns = Good r \<and> agg_value r = UInt (word_of_int (sum_of ns sdiv int (length ns)))) \<and>
    (\<exists>r m. feed (best_i fo (\<lambda>a b. sint a < sint b)) zero_result ns = Good r \<and> agg_value r = UInt m \<and>
      m \<in> set ns \<and> (\<forall>n \<in> set ns. sint m \<le> sint n)) \<and>
    (\<exists>r m. feed (best_i fo (\<lambda>a b. sint a > sint b)) zero_result ns = Good r \<and> agg_value r = UInt m \<and>
      m \<in> set ns \<and> (\<forall>n \<in> set ns. sint n \<le> sint m))"
  using sum_i_spec [OF assms(1,3), of fo] avg_i_spec [OF assms(1,2,3), of fo] min_i_spec [OF assms(1,2), of fo]
    max_i_spec [OF assms(1,2), of fo] by blast

theorem aggregate_values_witness:
  "\<exists>r. feed (avg_i (x_flt sample_ext)) zero_result [7, 4] = Good r \<and> agg_value r = UInt (word_of_int (11 sdiv 2))"
proof -
  have sums: "in_long (sum_of ms)" if "prefix ms [7, 4]" for ms
    using that by (auto simp: prefix_Cons sum_of_def in_long_def)
  have "sum_of [7, 4] = 11" by (simp add: sum_of_def)
  then show ?thesis
    using aggregate_values [of "[7, 4]" "x_flt sample_ext", OF _ _ sums] by simp
qed

section \<open>Queues between processes\<close>

text \<open>
  Property C7. A \<open>fifo\<close> is a first-in first-out queue over a ring: for every interleaving of adds
  and takes that never exceeds the capacity nor takes from an empty queue, the elements come
  out in the order in which they went in, and what has not come out is what the queue holds.
\<close>

theorem fifo_history:
  assumes "n \<le> 2147483648" "fits (max 2 (unat n) - 1) 0 ops"
  shows "yields (fifo_construct z n \<bind> (\<lambda>f. queue_run fifo_add fifo_take f ops))
    (\<lambda>(out, f). fifo_ok f \<and> out @ fifo_list f = puts ops)"
proof (rule yields_bind_all [OF fifo_construct_spec [OF assms(1), of z]])
  fix f assume f: "fifo_ok f \<and> fifo_list f = [] \<and> is_open f \<and> vec_list (buf f) = replicate (max 2 (unat n)) (Some z) \<and> input_count f = 0"
  then have "vsize (buf f) = max 2 (unat n)" using vec_list_length [of "buf f"] by (simp add: fifo_ok_def)
  moreover have "fifo_len f = 0" using f fifo_list_length [of f] by simp
  ultimately have "fifo_room f = max 2 (unat n) - 1" by (simp add: fifo_room_def)
  then show "yields (queue_run fifo_add fifo_take f ops) (\<lambda>(out, f). fifo_ok f \<and> out @ fifo_list f = puts ops)"
    using fq.run_fifo [of f ops] f assms(2) by simp
qed

theorem fifo_history_witness:
  "yields (fifo_construct (0 :: nat) 3 \<bind> (\<lambda>f. queue_run fifo_add fifo_take f [Put (Some 1), Put (Some 2), Get, Put (Some 3), Get]))
    (\<lambda>(out, f). fifo_ok f \<and> out @ fifo_list f = [Some 1, Some 2, Some 3])"
  using fifo_history [of 3 "[Put (Some 1), Put (Some 2), Get, Put (Some 3), Get]" "0 :: nat"] by simp

text \<open>
  Property C8. One producer and one consumer on a fifo, interleaved in every order, where the
  producer adds some time after its check (\<open>fifo_receivable\<close>): nothing is lost, duplicated or
  reordered, the add that follows a good check finds room, and the element that the consumer
  still points to is not overwritten.
\<close>

theorem pipe_safety:
  assumes "pipe_reach f0 s" "fifo_ok f0" "fifo_list f0 = []" "input_count f0 = 1"
  shows "sent s = got s @ fifo_list (ring_buf s) \<and>
    (0 \<in> ready s \<longrightarrow> yields (fifo_add (ring_buf s) e) (\<lambda>f'. fifo_list f' = fifo_list (ring_buf s) @ [e])) \<and>
    (\<forall>i a. held s = Some (i, a) \<longrightarrow> vec_at (buf (ring_buf s)) i = Some a)"
proof -
  let ?f = "ring_buf s"
  have inv: "pipe_inv s" by (rule pipe_reach_inv [OF assms])
  then have ok: "fifo_ok ?f" "ready s \<subseteq> {0}" "fifo_len ?f + 1 + card (ready s) \<le> vsize (buf ?f)"
    by (simp_all add: pipe_inv_def Let_def)
  have "yields (fifo_add ?f e) (\<lambda>f'. fifo_list f' = fifo_list ?f @ [e])" if "0 \<in> ready s"
  proof -
    have "ready s = {0}" using ok(2) that by auto
    then have "fifo_len ?f + 1 < vsize (buf ?f)" using ok(3) by simp
    from fifo_add_spec [OF ok(1) this, of e] show ?thesis by (auto elim: yields_mono)
  qed
  moreover have "vec_at (buf ?f) i = Some a" if "held s = Some (i, a)" for i a
    using inv that ok(1) vec_at_list [of "buf ?f" i] by (auto simp: pipe_inv_def Let_def fifo_ok_def)
  ultimately show ?thesis using inv by (simp add: pipe_inv_def Let_def)
qed

theorem pipe_safety_witness:
  "let f = ring2\<lparr>input_count := 1\<rparr>; s = \<lparr>ring_buf = f, ready = {0}, held = None, sent = [], got = []\<rparr> in
   pipe_reach f s \<and> yields (fifo_add (ring_buf s) (Some 5)) (\<lambda>f'. fifo_list f' = [Some 5])"
proof -
  let ?f = "ring2\<lparr>input_count := 1\<rparr>"
  let ?s = "\<lparr>ring_buf = ?f, ready = {0}, held = None, sent = [], got = []\<rparr>"
  have f: "fifo_ok ?f" "fifo_list ?f = []" using ring2_ok by (simp_all add: fifo_ok_def fifo_list_def fifo_len_def)
  have "fifo_receivable ?f \<noteq> 0" by code_simp
  then have "pipe_step \<lparr>ring_buf = ?f, ready = {}, held = None, sent = [], got = []\<rparr> ?s"
    using pipe_step.check [of 0 "\<lparr>ring_buf = ?f, ready = {}, held = None, sent = [], got = []\<rparr>"] by simp
  then have r: "pipe_reach ?f ?s" by (rule pipe_reach.step [OF pipe_reach.start])
  show ?thesis using pipe_safety [OF r f, of "Some 5"] r f(2) by (simp add: Let_def)
qed

text \<open>
  Property C9. In every execution that goes on for ever, with one producer and a consumer that does
  not leave elements waiting for ever, everything that was ever sent is taken at some time, in the
  order in which it was sent, and a producer that finds the ring full finds room again.
\<close>

theorem pipe_liveness:
  assumes "execution f0 r" "fifo_ok f0" "fifo_list f0 = []" "input_count f0 = 1" "1 < vsize (buf f0)"
    and "consumer_fair r"
  shows "(\<exists>j\<ge>i. \<exists>u. got (r j) = sent (r i) @ u) \<and>
    (\<exists>j\<ge>i. 0 \<in> ready (r j) \<or> fifo_receivable (ring_buf (r j)) \<noteq> 0)"
proof -
  obtain j where j: "i \<le> j" "length (sent (r i)) \<le> length (got (r j))"
    using delivered [OF assms(1-4,6), of "length (sent (r i))" i] by auto
  obtain v where "sent (r j) = sent (r i) @ v" using execution_grows [OF assms(1) j(1)] by auto
  then have "sent (r i) @ v = got (r j) @ fifo_list (ring_buf (r j))"
    using execution_inv [OF assms(1-4), of j] by simp
  then have "sent (r i) = take (length (sent (r i))) (got (r j))"
    using j(2) by (simp add: append_eq_append_conv_if)
  then obtain u where "got (r j) = sent (r i) @ u" by (metis append_take_drop_id)
  then show ?thesis using j(1) room_again [OF assms(1-4,6,5)] by blast
qed

theorem pipe_liveness_witness:
  "\<exists>j\<ge>2. \<exists>u. got (run_ring j) = sent (run_ring 2) @ u"
proof -
  let ?f = "ring2\<lparr>input_count := 1\<rparr>"
  have "fifo_ok ?f" "fifo_list ?f = []" "1 < vsize (buf ?f)"
    using ring2_ok by (simp_all add: fifo_ok_def fifo_list_def fifo_len_def ring2_def)
  from pipe_liveness [OF run_ring_execution this(1,2) _ this(3) run_ring_fair, of 2]
  show ?thesis by simp
qed

text \<open>
  Property C10. The loop over a fifo with \<open>fifo_begin\<close>, \<open>fifo_iter\<close> and \<open>fifo_end\<close> ends after as many
  steps as there are elements, visits each of them once and in order, and leaves the fifo empty.
\<close>

theorem fifo_drained:
  assumes "fifo_ok f" "fifo_len f < fuel"
  shows "yields (fifo_drain fuel f) (\<lambda>(out, g). out = fifo_list f \<and> fifo_ok g \<and> fifo_list g = [])"
  by (rule fifo_drain_spec [OF assms])

theorem fifo_drained_witness:
  "yields (fifo_drain 3 ring2_78) (\<lambda>(out, g). out = [Some 7, Some 8] \<and> fifo_ok g \<and> fifo_list g = [])"
  using fifo_drained [of ring2_78 3] ring2_78_ok by simp

text \<open>
  Property C11. \<open>fifo_nget\<close> moves a block from the front of the ring to the end of a vector in one
  piece, across the seam of the ring, and returns how many elements remain.
\<close>

theorem fifo_nget_block:
  assumes "fifo_ok f" "vec_ok b" "bs \<noteq> 0" "0 < nget_count f bs mx"
  shows "yields (fifo_nget f b bs mx) (\<lambda>(r, f', b'). fifo_ok f' \<and> vec_ok b' \<and>
    vec_list b' = vec_list b @ take (nget_count f bs mx) (fifo_list f) \<and>
    fifo_list f' = drop (nget_count f bs mx) (fifo_list f) \<and>
    unat r = fifo_len f - nget_count f bs mx)"
  by (rule fifo_nget_spec [OF assms])

theorem fifo_nget_block_witness:
  "yields (fifo_nget ring2_78 vec_construct 2 2) (\<lambda>(r, f', b'). vec_list b' = [Some 7, Some 8] \<and> unat r = 0)"
proof -
  have v: "nget_count ring2_78 2 2 = 2" by code_simp
  show ?thesis
    using fifo_nget_block [OF ring2_78_ok(1) vec_ok_construct, of 2 2]
    by (auto simp: v ring2_78_ok vec_list_construct elim!: yields_mono)
qed

text \<open>
  Property C12. \<open>fifo_nadd\<close> moves what fits from the front of a vector to the ring, across its
  seam, and leaves the rest in the vector in order; nothing is lost or duplicated.
\<close>

theorem fifo_nadd_block:
  assumes "fifo_ok f" "vec_ok src" "0 < vsize src" "0 < input_count f"
    "fifo_len f + unat (input_count f) \<le> vsize (buf f)"
  shows "yields (fifo_nadd f src) (\<lambda>(f', src'). fifo_ok f' \<and> vec_ok src' \<and>
    fifo_list f' = fifo_list f @ take (nadd_count f src) (vec_list src) \<and>
    vec_list src' = drop (nadd_count f src) (vec_list src))"
  using fifo_nadd_spec [OF assms] by (auto elim!: yields_mono)

theorem fifo_nadd_block_witness:
  "yields (fifo_nadd (ring2\<lparr>input_count := 1\<rparr>) \<lparr>vdata = [Some 4, Some 5, Some 6, None], vsize = 3, valloc = 4\<rparr>)
    (\<lambda>(f', src'). fifo_list f' = [Some 4, Some 5] \<and> vec_list src' = [Some 6])"
proof -
  let ?f = "ring2\<lparr>input_count := 1\<rparr>"
  let ?v = "\<lparr>vdata = [Some 4, Some 5, Some 6, None], vsize = 3, valloc = 4\<rparr> :: nat vec"
  have f: "fifo_ok ?f" "fifo_list ?f = []" "fifo_len ?f = 0"
    using ring2_ok fifo_list_length [of ring2] by (simp_all add: fifo_ok_def fifo_list_def fifo_len_def)
  have v: "vec_ok ?v" "vec_list ?v = [Some 4, Some 5, Some 6]" by (simp_all add: vec_ok_def vec_list_def)
  have c: "nadd_count ?f ?v = 2" by code_simp
  have n: "vsize (buf ?f) = 3" by (simp add: ring2_def)
  show ?thesis
    using fifo_nadd_block [OF f(1) v(1)] n by (auto simp: f v c elim!: yields_mono)
qed

section \<open>Expressions and conditions\<close>

text \<open>
  Property C13. Evaluation terminates on every store in which no expression is below itself: if
  a rank decreases from an expression to its operands (references, arguments, values and
  conditions of a CASE), a depth above the rank of an expression gives the value and the
  effects that any larger depth gives, for all three accessors, and evaluation leaves the
  skeleton of the store as it is.
\<close>

theorem evaluation_terminates:
  assumes "ranked s0 rank" "rank i < n" "n \<le> m" "same_shape s0 s"
  shows "get_int (expr_getters x rg n) i s = get_int (expr_getters x rg m) i s \<and>
    get_float (expr_getters x rg n) i s = get_float (expr_getters x rg m) i s \<and>
    get_stringview (expr_getters x rg n) i s = get_stringview (expr_getters x rg m) i s \<and>
    same_shape s0 (snd (get_int (expr_getters x rg n) i s))"
proof -
  let ?G = "expr_getters x rg n" and ?H = "expr_getters x rg m"
  have "agree (same_shape s0) (get_int ?G i) (get_int ?H i)" "agree (same_shape s0) (get_float ?G i) (get_float ?H i)"
      "agree (same_shape s0) (get_stringview ?G i) (get_stringview ?H i)"
    using expr_getters_depth [OF assms(1-3), of x rg] unfolding getters_agree_def by blast+
  then show ?thesis using assms(4) unfolding agree_def by blast
qed

text \<open>The length of a constant text: an expression with an operand.\<close>

definition sample_len_store :: "(int, unit) store" where
  "sample_len_store = \<lparr>exprs =
     [(blank_expression EXPR_FUNCTION [])\<lparr>e_type := FIELD_INT,
        e_fn := Some \<lparr>fn_args = [1], char_as_byte = False, call = Fql_len, fn_type = SCALAR_LEN, arg_min = 1, arg_max = 1\<rparr>\<rparr>,
      (blank_expression EXPR_CONST [])\<lparr>e_type := FIELD_STRING, e_field := UStr ''ab ''\<rparr>],
     logics = [], rownums = []\<rparr>"

theorem evaluation_terminates_witness:
  "get_int (expr_getters sample_ext [] 2) 0 sample_len_store = get_int (expr_getters sample_ext [] 100) 0 sample_len_store"
proof -
  have "ranked sample_len_store (\<lambda>i. if i = 0 then 1 else 0)"
    by (auto simp: ranked_def kids_def sample_len_store_def blank_expression_def less_Suc_eq)
  moreover have "(if (0 :: nat) = 0 then 1 else 0) < (2 :: nat)" "(2 :: nat) \<le> 100" by simp_all
  ultimately show ?thesis
    using evaluation_terminates [of sample_len_store "\<lambda>i. if i = 0 then 1 else 0" 0 2 100 sample_len_store sample_ext "[]"]
      same_shape_refl by blast
qed

text \<open>
  Property C14. The evaluation of a condition with its short cuts gives the boolean value of the
  tree of AND, OR and NOT over the values of its predicates, whatever the predicates change in
  the store on the way.
\<close>

theorem condition_value:
  assumes "\<forall>p \<in> set (predicates g). \<exists>l. snd p = Some l \<and> evaluates I (ev l) (val (Some l))"
  shows "evaluates I (logicgroup_eval ev None g) (holds val g)"
proof -
  have "\<forall>p \<in> set (predicates g). case snd p of None \<Rightarrow> None = None | Some l \<Rightarrow> evaluates I (ev l) (val (Some l))"
    using assms by (auto split: option.splits)
  then have "evaluates I (logicgroup_eval ev None g) (holds_skip (\<lambda>l. val (Some l)) None g)"
    by (rule logicgroup_eval_spec)
  moreover have "holds_skip (\<lambda>l. val (Some l)) None g = holds val g"
    using assms by (induction g) auto
  ultimately show ?thesis by simp
qed

theorem condition_value_witness:
  "evaluates (\<lambda>s. s = (0 :: nat))
     (logicgroup_eval (\<lambda>l. outA (Good (l = 1))) None (LG_OR False (LG_PREDICATE True (Some 1)) (LG_AND False (LG_PREDICATE False (Some 1)) (LG_PREDICATE True (Some 2)))))
     True"
  using condition_value [of "LG_OR False (LG_PREDICATE True (Some 1)) (LG_AND False (LG_PREDICATE False (Some 1)) (LG_PREDICATE True (Some 2)))"
    "\<lambda>s. s = (0 :: nat)" "\<lambda>l. outA (Good (l = 1))" "\<lambda>c. c = Some 1"] by simp

text \<open>
  Property C15. \<open>logic_can_be_false\<close> decides whether an equality of a condition may drive a hash
  join. Without negations it is exact: it says no precisely when the equality is true in
  every row for which the condition is. With a negation it is wrong: it lets NOT a = b through.
\<close>

theorem join_condition_exact:
  assumes "positive g"
  shows "(\<not> logic_can_be_false g check \<longleftrightarrow> (\<forall>val. holds val g \<longrightarrow> val check)) \<and>
    \<not> logic_can_be_false (LG_PREDICATE True check) check \<and> (\<exists>val. holds val (LG_PREDICATE True check) \<and> \<not> val check)"
proof -
  have "\<not> logic_can_be_false g check \<longleftrightarrow> (\<forall>val. holds val g \<longrightarrow> val check)"
    using logic_can_be_false_sound [OF assms] logic_can_be_false_complete [OF assms] by blast
  moreover have "\<exists>val. holds val (LG_PREDICATE True check) \<and> \<not> val check"
    by (rule exI [of _ "\<lambda>_. False"]) simp
  ultimately show ?thesis by simp
qed

theorem join_condition_exact_witness:
  "\<not> logic_can_be_false (LG_AND False (LG_PREDICATE False (Some 1)) (LG_PREDICATE False (Some 2))) (Some 1) \<and>
   \<not> (\<exists>val. holds val (LG_AND False (LG_PREDICATE False (Some 1)) (LG_PREDICATE False (Some 2))) \<and> \<not> val (Some 1))"
  using join_condition_exact [of "LG_AND False (LG_PREDICATE False (Some 1)) (LG_PREDICATE False (Some 2))" "Some 1"]
  by (simp add: positive_def)

text \<open>
  Property C16. The tables of a query and the comparison of its WHERE clause. After any sequence of
  insertions the \<open>multimap\<close> of a hash join gives for a key the values of exactly those entries whose
  key \<open>stringview_compare_nocase_rtrim\<close> finds equal to it, in order, and the \<open>compositemap\<close> of GROUP BY
  and DISTINCT the last value of a list of keys that are equal one by one: for keys below 2 GB in
  which blanks are the only white space and which do not consist of blanks alone. On both kinds of
  other keys they disagree: one blank and two blanks, and a text with and without a tab behind it,
  are equal for WHERE, and the table does not find the one under the other.
\<close>

theorem keys_match_comparison:
  assumes "\<forall>k \<in> insert key (fst ` set kvs). plain_key k" "\<forall>ks \<in> insert wanted (fst ` set gs). \<forall>k \<in> set ks. plain_key k"
  shows "yields (put_all multimap_nset (multimap_construct lim 3) kvs \<bind> (\<lambda>m. hashmap_nget m key))
    (\<lambda>(r, m'). let u = map snd (filter (\<lambda>(k, _). stringview_compare_nocase_rtrim k key = 0) kvs) in case r of
       None \<Rightarrow> u = [] | Some i \<Rightarrow> u \<noteq> [] \<and> (\<exists>w. vec_at (vals m') i = Some (Some w) \<and> vec_list w = map Some u)) \<and>
   yields (put_all compositemap_set (compositemap_construct lim 3) gs \<bind> (\<lambda>c. compositemap_get c wanted))
    (\<lambda>(r, c'). let u = map snd (filter (\<lambda>(ks, _). list_all2 (\<lambda>k l. stringview_compare_nocase_rtrim k l = 0) ks wanted) gs) in case r of
       None \<Rightarrow> u = [] | Some i \<Rightarrow> u \<noteq> [] \<and> vec_at (vals (base c')) i = Some (Some (last u))) \<and>
   (\<forall>(stored, asked) \<in> {('' '', ''  ''), (''x'', [CHR ''x'', CHR 0x09])}. stringview_compare_nocase_rtrim stored asked = 0 \<and>
     yields (put_all multimap_nset (multimap_construct lim 3) [(stored, x)] \<bind> (\<lambda>m. hashmap_nget m asked)) (\<lambda>(r, _). r = None))"
proof (intro conjI)
  have "under (norm_key 3) (norm_key 3 key) kvs = map snd (filter (\<lambda>(k, _). stringview_compare_nocase_rtrim k key = 0) kvs)"
    unfolding under_def using assms(1) by (intro arg_cong [where f = "map snd"] filter_cong) (auto simp: plain_key_equality)
  then show "yields (put_all multimap_nset (multimap_construct lim 3) kvs \<bind> (\<lambda>m. hashmap_nget m key))
    (\<lambda>(r, m'). let u = map snd (filter (\<lambda>(k, _). stringview_compare_nocase_rtrim k key = 0) kvs) in case r of
       None \<Rightarrow> u = [] | Some i \<Rightarrow> u \<noteq> [] \<and> (\<exists>w. vec_at (vals m') i = Some (Some w) \<and> vec_list w = map Some u))"
    using multimap_lookup [of lim 3 kvs key] by simp
  have "under (map (norm_key 3)) (map (norm_key 3) wanted) gs =
      map snd (filter (\<lambda>(ks, _). list_all2 (\<lambda>k l. stringview_compare_nocase_rtrim k l = 0) ks wanted) gs)"
    unfolding under_def using assms(2) by (intro arg_cong [where f = "map snd"] filter_cong) (auto simp: plain_keys_equality)
  then show "yields (put_all compositemap_set (compositemap_construct lim 3) gs \<bind> (\<lambda>c. compositemap_get c wanted))
    (\<lambda>(r, c'). let u = map snd (filter (\<lambda>(ks, _). list_all2 (\<lambda>k l. stringview_compare_nocase_rtrim k l = 0) ks wanted) gs) in case r of
       None \<Rightarrow> u = [] | Some i \<Rightarrow> u \<noteq> [] \<and> vec_at (vals (base c')) i = Some (Some (last u)))"
    using compositemap_lookup [of lim 3 gs wanted] by simp
  have "norm_key 3 '' '' \<noteq> norm_key 3 ''  ''" "norm_key 3 ''x'' \<noteq> norm_key 3 [CHR ''x'', CHR 0x09]"
    "stringview_compare_nocase_rtrim '' '' ''  '' = 0" "stringview_compare_nocase_rtrim ''x'' [CHR ''x'', CHR 0x09] = 0" by code_simp+
  then show "\<forall>(stored, asked) \<in> {('' '', ''  ''), (''x'', [CHR ''x'', CHR 0x09])}. stringview_compare_nocase_rtrim stored asked = 0 \<and>
     yields (put_all multimap_nset (multimap_construct lim 3) [(stored, x)] \<bind> (\<lambda>m. hashmap_nget m asked)) (\<lambda>(r, _). r = None)"
    using multimap_lookup [of lim 3 "[('' '', x)]" "''  ''"] multimap_lookup [of lim 3 "[(''x'', x)]" "[CHR ''x'', CHR 0x09]"]
    by (auto simp: under_def Let_def elim!: yields_mono split: option.splits)
qed

theorem keys_match_comparison_witness:
  "yields (put_all multimap_nset (multimap_construct 2 3) [(''Ab'', 1), (''b'', 2), (''aB '', 3 :: nat)] \<bind> (\<lambda>m. hashmap_nget m ''AB''))
    (\<lambda>(r, m'). \<exists>i w. r = Some i \<and> vec_at (vals m') i = Some (Some w) \<and> vec_list w = [Some 1, Some 3])"
proof -
  have "stringview_compare_nocase_rtrim ''Ab'' ''AB'' = 0" "stringview_compare_nocase_rtrim ''b'' ''AB'' \<noteq> 0"
    "stringview_compare_nocase_rtrim ''aB '' ''AB'' = 0" by code_simp+
  moreover have p: "\<forall>k \<in> insert ''AB'' (fst ` set [(''Ab'', 1), (''b'', 2), (''aB '', 3 :: nat)]). plain_key k"
    by (simp add: plain_key_def blank_space_def only_blanks_def isspace_c_def)
  ultimately show ?thesis
    using keys_match_comparison [OF p, of "[]" "[]" 2 0] by (auto elim!: yields_mono split: option.splits)
qed



text \<open>
  Property C18. Reading a constant converts it and stores the conversion; a second read in the
  same type returns the same value and changes nothing. A read in another type is not
  harmless: after it has been read as an integer, the text '007' is '7'.
\<close>

theorem constants_are_stable:
  assumes "i < length (exprs s)" "expr (exprs s ! i) = EXPR_CONST"
  shows "(expression_get_int x rg G i s = (Good n, s1) \<longrightarrow> expression_get_int x rg G i s1 = (Good n, s1)) \<and>
    (expression_get_stringview x rg G i s = (Good v, s2) \<longrightarrow> expression_get_stringview x rg G i s2 = (Good v, s2)) \<and>
    fst (expression_get_stringview y rg H 0 (text_const ''007'')) = Good (view_of ''007'') \<and>
    fst (expression_get_stringview y rg H 0 (snd (expression_get_int y rg H 0 (text_const ''007'')))) = Good (view_of ''7'')"
proof -
  have "str2long ''007'' = Some 7" by code_simp
  from const_loses_text [OF this] show ?thesis
    using const_int_again [OF assms] const_stringview_again [OF assms] by blast
qed

theorem constants_are_stable_witness:
  "let r = expression_get_stringview sample_ext [] (expr_getters sample_ext [] 0) 0 (text_const ''5'') in
   r = (Good (view_of ''5''), snd r) \<and>
   expression_get_stringview sample_ext [] (expr_getters sample_ext [] 0) 0 (snd r) = r"
proof -
  let ?r = "expression_get_stringview sample_ext [] (expr_getters sample_ext [] 0) 0 (text_const ''5'')"
  have "fst ?r = Good (view_of ''5'')"
    by (simp add: text_const_def blank_expression_def expression_get_stringview_def with_expr_def const_value_def
      set_expr_def field_to_stringview_def field_string_def)
  then have "?r = (Good (view_of ''5''), snd ?r)" by (simp add: prod_eq_iff)
  moreover have "0 < length (exprs (text_const ''5''))" "expr (exprs (text_const ''5'') ! 0) = EXPR_CONST"
    by (simp_all add: text_const_def blank_expression_def)
  ultimately show ?thesis
    using constants_are_stable [of 0 "text_const ''5''" sample_ext "[]" "expr_getters sample_ext [] 0" 0 "text_const ''5''"
      "view_of ''5''" "snd ?r" sample_ext "expr_getters sample_ext [] 0"] unfolding Let_def by metis
qed

section \<open>Values\<close>

text \<open>
  Property C19. A scalar function or operator writes the member of the result union that the
  type of its expression says will be read: through construction, added arguments, the type of
  a CAST, the resolution of an operator and the validation that completes ISNULL. It stays so
  until the expression is cast for a UNION or a CASE: the cast of a call to another type
  replaces the type alone and reports success, and the union that the call writes is then read
  with the wrong type.
\<close>

theorem calls_write_the_announced_type:
  assumes "prepared es fn t"
    and "call_fn fo G (call fn) d s = (Good u, s')"
  shows "has_type u t \<and>
    (\<forall>i q t'. i < length (exprs q) \<longrightarrow> expr (exprs q ! i) = EXPR_FUNCTION \<longrightarrow> e_fn (exprs q ! i) = Some fn \<longrightarrow>
       e_type (exprs q ! i) = t \<longrightarrow> t' \<noteq> t \<longrightarrow>
       (let q' = snd (expression_cast x H i t' q) in
          fst (expression_cast x H i t' q) = Good () \<and> e_fn (exprs q' ! i) = Some fn \<and> e_type (exprs q' ! i) = t' \<and>
          \<not> has_type u t'))"
proof -
  have u: "has_type u t" by (rule prepared_call [OF assms])
  then have "\<not> has_type u t'" if "t' \<noteq> t" for t' using that by (cases u) auto
  then show ?thesis using u by (simp add: expression_cast_def with_expr_def set_expr_def)
qed

text \<open>Accessors for which every argument is the integer 5.\<close>

definition sample_fives :: "(unit, int) getters" where
  "sample_fives = \<lparr>get_int = \<lambda>i. outA (Good 5), get_float = \<lambda>i. outA (Good 5), get_stringview = \<lambda>i. outA (Good (view_of ''5'')),
     get_type = \<lambda>i s. FIELD_INT, is_const = \<lambda>i s. True\<rparr>"

text \<open>The call \<open>CAST(x AS VARCHAR)\<close>, and \<open>ISNULL(x, y)\<close> of two integers, cast to a string by a UNION.\<close>

definition sample_cast :: scalar_fn where
  "sample_cast = fst (snd (query_apply_data_type (snd (function_add_expression (fst (function_construct SCALAR_CAST FIELD_UNDEFINED False)) 0))
     FIELD_UNDEFINED ''VARCHAR''))"

definition sample_fields :: "int expression list" where
  "sample_fields = replicate 2 ((blank_expression EXPR_CONST [])\<lparr>e_type := FIELD_INT, e_field := UInt 5\<rparr>)"

definition sample_isnull :: scalar_fn where
  "sample_isnull = fst (snd (function_validate (snd (function_add_expression (snd (function_add_expression
     (fst (function_construct SCALAR_ISNULL FIELD_UNDEFINED False)) 0)) 1)) (\<lambda>a. e_type (sample_fields ! a)) FIELD_UNDEFINED))"

definition sample_union :: "(int, unit) store" where
  "sample_union = \<lparr>exprs = [(blank_expression EXPR_FUNCTION [])\<lparr>e_fn := Some sample_isnull, e_type := FIELD_INT\<rparr>], logics = [], rownums = []\<rparr>"

lemma sample_cast_prepared: "prepared sample_fields sample_cast FIELD_STRING \<and> call sample_cast = Fql_cast_string"
proof -
  let ?f = "fst (function_construct SCALAR_CAST FIELD_UNDEFINED False)"
  let ?g = "snd (function_add_expression ?f 0)"
  have "prepared sample_fields ?f FIELD_UNDEFINED"
    by (rule constructed [of SCALAR_CAST False]) (simp add: function_construct_def op_index_def not_yet_def)
  then have "prepared sample_fields ?g FIELD_UNDEFINED"
    by (rule argument [where e = 0]) (simp add: function_add_expression_def)
  moreover have "query_apply_data_type ?g FIELD_UNDEFINED ''VARCHAR'' = (Good (), sample_cast, FIELD_STRING)"
    by code_simp
  ultimately have "prepared sample_fields sample_cast FIELD_STRING" by (rule cast_type)
  moreover have "call sample_cast = Fql_cast_string" by code_simp
  ultimately show ?thesis ..
qed

lemma sample_isnull_prepared: "prepared sample_fields sample_isnull FIELD_INT \<and> call sample_isnull = Fql_isnull_i"
proof -
  let ?f = "fst (function_construct SCALAR_ISNULL FIELD_UNDEFINED False)"
  let ?g = "snd (function_add_expression ?f 0)"
  let ?h = "snd (function_add_expression ?g 1)"
  have "prepared sample_fields ?f FIELD_UNDEFINED"
    by (rule constructed [of SCALAR_ISNULL False]) (simp add: function_construct_def op_index_def not_yet_def)
  then have "prepared sample_fields ?g FIELD_UNDEFINED"
    by (rule argument [where e = 0]) (simp add: function_add_expression_def)
  then have "prepared sample_fields ?h FIELD_UNDEFINED"
    by (rule argument [where e = 1]) (simp add: function_add_expression_def)
  moreover have "e_type (sample_fields ! (fn_args ?h ! 0)) \<noteq> FIELD_UNDEFINED \<or> call ?h = Not_implemented" by code_simp
  moreover have "function_validate ?h (\<lambda>a. e_type (sample_fields ! a)) FIELD_UNDEFINED = (Good (), sample_isnull, FIELD_INT)"
    by code_simp
  ultimately have "prepared sample_fields sample_isnull FIELD_INT" by (rule validated)
  moreover have "call sample_isnull = Fql_isnull_i" by code_simp
  ultimately show ?thesis ..
qed

theorem calls_write_the_announced_type_witness:
  "call_fn (x_flt sample_ext) sample_fives (call sample_isnull) \<lparr>fn_args = [0, 1], char_as_byte = False\<rparr> () = (Good (UInt 5), ()) \<and>
   has_type (UInt 5 :: int field) FIELD_INT \<and>
   fst (expression_cast sample_ext (expr_getters sample_ext [] 1) 0 FIELD_STRING sample_union) = Good () \<and>
   \<not> has_type (UInt 5 :: int field) FIELD_STRING \<and>
   has_type (UStr ''5'' :: int field) FIELD_STRING"
proof -
  have c: "call_fn (x_flt sample_ext) sample_fives (call sample_isnull) \<lparr>fn_args = [0, 1], char_as_byte = False\<rparr> () = (Good (UInt 5), ())"
    using sample_isnull_prepared
    by (simp add: call_fn_def fql_isnull_i_def tryA_def at_arg_def sample_fives_def outA_def)
  have d: "call_fn (x_flt sample_ext) sample_fives (call sample_cast) \<lparr>fn_args = [0], char_as_byte = False\<rparr> () = (Good (UStr ''5''), ())"
    using sample_cast_prepared
    by (simp add: call_fn_def fql_cast_string_def derefA_def at_arg_def sample_fives_def outA_def ret_strncpy_def strncpy_view_def view_of_def)
  note isnull = calls_write_the_announced_type [OF conjunct1 [OF sample_isnull_prepared] c, of sample_ext "expr_getters sample_ext [] 1"]
  note casted = calls_write_the_announced_type [OF conjunct1 [OF sample_cast_prepared] d]
  have u: "0 < length (exprs sample_union)" "expr (exprs sample_union ! 0) = EXPR_FUNCTION"
    "e_fn (exprs sample_union ! 0) = Some sample_isnull" "e_type (exprs sample_union ! 0) = FIELD_INT"
    by (simp_all add: sample_union_def blank_expression_def)
  show ?thesis
    using c isnull [THEN conjunct1] isnull [THEN conjunct2, rule_format, OF u, of FIELD_STRING] casted [THEN conjunct1]
    by (simp add: Let_def)
qed

text \<open>
  Property C20. The checked arithmetic of integer operators returns the exact result when it
  fits in a \<open>long\<close> and fails when it does not, for every pair of operands, with two exceptions
  that go undetected: the smallest \<open>long\<close> plus itself is 0, and 0 minus it is the smallest
  \<open>long\<close> again.
\<close>

theorem checked_arithmetic:
  "overflow_safe_add_i n0 n1 =
     (if sint n0 = - (2 ^ 63) \<and> sint n1 = - (2 ^ 63) then Good 0
      else if in_long (sint n0 + sint n1) then Good (word_of_int (sint n0 + sint n1)) else Fail) \<and>
   overflow_safe_minus_i n0 n1 =
     (if sint n0 = 0 \<and> sint n1 = - (2 ^ 63) then Good (2 ^ 63)
      else if in_long (sint n0 - sint n1) then Good (word_of_int (sint n0 - sint n1)) else Fail) \<and>
   overflow_safe_multiply_i n0 n1 =
     (if in_long (sint n0 * sint n1) then Good (word_of_int (sint n0 * sint n1)) else Fail)"
proof -
  have min: "n = 2 ^ 63" if "sint n = - (2 ^ 63)" for n :: i64
    using arg_cong [OF that, of "word_of_int :: int \<Rightarrow> i64"] by simp
  have zero: "n = 0" if "sint n = 0" for n :: i64 using arg_cong [OF that, of "word_of_int :: int \<Rightarrow> i64"] by simp
  have "overflow_safe_add_i n0 n1 = Good 0" if "sint n0 = - (2 ^ 63)" "sint n1 = - (2 ^ 63)"
    unfolding min [OF that(1)] min [OF that(2)] by (rule overflow_safe_add_i_min)
  moreover have "overflow_safe_minus_i n0 n1 = Good (2 ^ 63)" if "sint n0 = 0" "sint n1 = - (2 ^ 63)"
    unfolding zero [OF that(1)] min [OF that(2)] by (rule overflow_safe_minus_i_min)
  ultimately show ?thesis
    using overflow_safe_add_i_spec [of n0 n1] overflow_safe_minus_i_spec [of n0 n1] overflow_safe_multiply_i_spec [of n0 n1]
    by auto
qed

text \<open>
  Property C21. Integer division and remainder. A divisor of zero makes the division fail the query,
  and the remainder, which does not test for it, trap. The smallest integer divided by -1 traps in
  both. For all other operands both deliver, the quotient times the divisor plus the remainder is
  the dividend, without overflow, and the remainder is smaller than the divisor and has the sign of
  the dividend.
\<close>

theorem division_and_remainder:
  assumes "at_arg fn 0 (get_int G) s = (Good n0, s1)" "at_arg fn 1 (get_int G) s1 = (Good n1, s2)"
  shows "if n1 = 0 then fql_op_divi_i G fn s = (Fail, s2) \<and> fql_op_mod_i G fn s = (Crash, s2)
    else if n1 = - 1 \<and> sint n0 = - (2 ^ 63) then fql_op_divi_i G fn s = (Crash, s2) \<and> fql_op_mod_i G fn s = (Crash, s2)
    else \<exists>q r. fql_op_divi_i G fn s = (Good (UInt q), s2) \<and> fql_op_mod_i G fn s = (Good (UInt r), s2) \<and>
      sint q * sint n1 + sint r = sint n0 \<and> \<bar>sint r\<bar> < \<bar>sint n1\<bar> \<and> (sint r = 0 \<or> sgn (sint r) = sgn (sint n0))"
proof -
  let ?div = "\<lambda>n0 n1. if n1 = 0 then Fail else trunc_div n0 n1"
  have d: "fql_op_divi_i G fn s = (map_outcome UInt (?div n0 n1), s2)"
    and m: "fql_op_mod_i G fn s = (map_outcome UInt (trunc_mod n0 n1), s2)"
    using two_ints_good [OF assms, of ?div] two_ints_good [OF assms, of trunc_mod] by (simp_all add: fql_op_divi_i_def fql_op_mod_i_def)
  show ?thesis
  proof (cases "n1 = 0 \<or> n1 = - 1 \<and> sint n0 = - 9223372036854775808")
    case True
    then show ?thesis unfolding d m by (auto simp: trunc_div_def trunc_mod_def)
  next
    case False
    then obtain q r where "trunc_div n0 n1 = Good q" "trunc_mod n0 n1 = Good r" "sint q * sint n1 + sint r = sint n0"
      "\<bar>sint r\<bar> < \<bar>sint n1\<bar>" "sint r = 0 \<or> sgn (sint r) = sgn (sint n0)" using trunc_div_mod [of n1 n0] by blast
    then show ?thesis using False unfolding d m by auto
  qed
qed

theorem division_and_remainder_witness:
  "\<exists>q r. fql_op_divi_i sample_fives \<lparr>fn_args = [0, 1], char_as_byte = False\<rparr> () = (Good (UInt q), ()) \<and>
     fql_op_mod_i sample_fives \<lparr>fn_args = [0, 1], char_as_byte = False\<rparr> () = (Good (UInt r), ()) \<and>
     sint q * 5 + sint r = 5 \<and> \<bar>sint r\<bar> < 5"
proof -
  have "sint (5 :: i64) = 5" by simp
  then show ?thesis
    using division_and_remainder [of "\<lparr>fn_args = [0, 1], char_as_byte = False\<rparr>" sample_fives "()" 5 "()" 5 "()"]
    by (auto simp: at_arg_def sample_fives_def outA_def)
qed

text \<open>
  Property C22. An integer printed as text and read again is the integer it was, for all 2^64
  values; so is an integer that a field hands out as text and converts back.
\<close>

theorem integers_survive_printing:
  "str2long (show_long n) = Some n \<and>
   (case field_to_stringview fo dest (UInt n) FIELD_INT of (r, u, t, d) \<Rightarrow>
      r = Good (show_long n) \<and> d = show_long n \<and> field_to_int fo u t = (Good n, UInt n, FIELD_INT))"
  by (simp add: field_to_stringview_def as_int_def field_to_int_def as_str_def str2long_show show_long_no_nul)

text \<open>
  Property C23. \<open>string_find_replace\<close> replaces every occurrence of the needle from left to right
  without looking at what it has inserted, keeps the string terminated, and ends for every
  needle that is not empty; an empty needle keeps it running until memory is exhausted.
\<close>

theorem find_replace_all:
  assumes "str_ok s" "length (replace_all old new (str s)) < 4294967296"
  shows "(old \<noteq> [] \<longrightarrow> yields (string_find_replace s old new) (\<lambda>s'. str_ok s' \<and> str s' = replace_all old new (str s))) \<and>
    (str s \<noteq> [] \<longrightarrow> string_find_replace s [] new = None)"
  using string_find_replace_spec [OF _ assms] string_find_replace_empty [OF assms(1)] by blast

theorem find_replace_all_witness:
  "let s = \<lparr>vdata = map Some (''a--b-'' @ [CHR 0x00]), vsize = 5, valloc = 6\<rparr> in
   yields (string_find_replace s ''-'' ''<->'') (\<lambda>s'. str s' = ''a<-><->b<->'')"
proof -
  let ?s = "\<lparr>vdata = map Some (''a--b-'' @ [CHR 0x00]), vsize = 5, valloc = 6\<rparr> :: char vec"
  have ok: "str_ok ?s" "str ?s = ''a--b-''" by (simp_all add: str_ok_def str_def vec_ok_def vec_list_def chars_def)
  have r: "replace_all ''-'' ''<->'' ''a--b-'' = ''a<-><->b<->''" by code_simp
  have y: "yields (string_find_replace ?s ''-'' ''<->'') (\<lambda>s'. str_ok s' \<and> str s' = ''a<-><->b<->'')"
    using find_replace_all [OF ok(1), of "''-''" "''<->''"] unfolding ok(2) r by simp
  show ?thesis unfolding Let_def by (rule yields_mono [OF y]) simp
qed

text \<open>
  Property C24. The two comparisons of views that do not look at case, on texts of less than 2^31
  bytes. \<open>stringview_compare_nocase\<close> is on texts without NUL the lexicographic order (\<open>lexord\<close> over
  the numbers of the bytes) of the lower case texts. \<open>stringview_compare_nocase_rtrim\<close>, which WHERE,
  MIN and MAX and ORDER BY use, is on texts without control characters the same order of the lower
  case texts without their trailing blanks. With control characters it is no order: a byte below
  the blank comes between a text and the text with a blank, which are equal.
\<close>

theorem comparison_is_an_order:
  assumes "no_nul s" "no_nul t" "length s < 2 ^ 31" "length t < 2 ^ 31"
  shows "let lt = lexord {(a, b). uchar a < uchar b}; low = map tolower_c; trimmed = \<lambda>s. rtrim (low s) in
    (stringview_compare_nocase s t < 0 \<longleftrightarrow> (low s, low t) \<in> lt) \<and>
    (0 < stringview_compare_nocase s t \<longleftrightarrow> (low t, low s) \<in> lt) \<and>
    (stringview_compare_nocase s t = 0 \<longleftrightarrow> low s = low t) \<and>
    ((\<forall>c \<in> set (s @ t). 32 \<le> uchar c) \<longrightarrow>
      (stringview_compare_nocase_rtrim s t < 0 \<longleftrightarrow> (trimmed s, trimmed t) \<in> lt) \<and>
      (0 < stringview_compare_nocase_rtrim s t \<longleftrightarrow> (trimmed t, trimmed s) \<in> lt) \<and>
      (stringview_compare_nocase_rtrim s t = 0 \<longleftrightarrow> trimmed s = trimmed t)) \<and>
    stringview_compare_nocase_rtrim ''x'' [CHR ''x'', CHR 0x01] < 0 \<and>
    stringview_compare_nocase_rtrim [CHR ''x'', CHR 0x01] ''x '' < 0 \<and>
    stringview_compare_nocase_rtrim ''x'' ''x '' = 0"
proof -
  have "no_nul (map tolower_c r) \<longleftrightarrow> no_nul r" for r by (induction r) (auto simp: no_nul_def eq_commute [of "CHR 0x00"])
  then have n: "no_nul (map tolower_c s)" "no_nul (map tolower_c t)" using assms(1,2) by simp_all
  have e: "stringview_compare_nocase s t = lex_cmp (map tolower_c s) (map tolower_c t)" by (rule stringview_compare_nocase_lex [OF n])
  have r: "(\<forall>c \<in> set (s @ t). 32 \<le> uchar c) \<Longrightarrow> printable s \<and> printable t" by (simp add: printable_def)
  show ?thesis
    unfolding Let_def text_order_def [symmetric]
    using compare_nocase_rtrim_order [of s t] r assms(3,4) compare_rtrim_control
    by (simp add: e lex_cmp_less lex_cmp_greater lex_cmp_eq)
qed

theorem comparison_is_an_order_witness:
  "stringview_compare_nocase ''ab'' ''Ab'' = 0 \<and> stringview_compare_nocase ''B'' ''ab '' > 0 \<and>
   stringview_compare_nocase_rtrim ''ab '' ''AB'' = 0 \<and> stringview_compare_nocase_rtrim ''ab '' ''B'' < 0"
proof -
  have n: "no_nul ''ab''" "no_nul ''Ab''" "no_nul ''B''" "no_nul ''ab ''" "no_nul ''AB''" by (simp_all add: no_nul_def)
  have u: "uchar CHR ''a'' = 97" "uchar CHR ''b'' = 98" "uchar CHR ''A'' = 65" "uchar CHR ''B'' = 66" by (simp_all add: uchar_def)
  have l: "map tolower_c ''ab'' = ''ab''" "map tolower_c ''Ab'' = ''ab''" "map tolower_c ''B'' = ''b''" "map tolower_c ''ab '' = ''ab ''"
    "map tolower_c ''AB'' = ''ab''" by code_simp+
  show ?thesis
    using comparison_is_an_order [OF n(1,2)] comparison_is_an_order [OF n(3,4)] comparison_is_an_order [OF n(4,5)] comparison_is_an_order [OF n(4,3)]
    unfolding Let_def l by (simp add: u rstrip_Cons)
qed

text \<open>
  Property C25. LEFT, RIGHT, SUBSTRING and LEN on a text of UTF-8 characters below 2^31 bytes and
  without NUL, when characters are not taken for bytes: they count characters and never cut one in
  two. A negative count fails the query. LEFT of more than there is gives the text. RIGHT of more
  than there are bytes does not: it gives the bytes that follow the text in the record as well, up
  to the count or a NUL, and leaves the block when there are not as many. SUBSTRING counts from 1;
  a start in front of the text shortens what is taken. LEN ignores trailing white space.
\<close>

theorem text_functions_count_characters:
  assumes "at_arg fn 0 (get_stringview G) s = (Good v, s1)" "at_arg fn 1 (get_int G) s1 = (Good n, s2)"
    "at_arg fn 2 (get_int G) s2 = (Good k, s3)" "utf8_view v cs" "sv_len v < 2 ^ 31" "\<not> char_as_byte fn"
  shows "fql_left G fn s = (if sint n < 0 then Fail else Good (UStr (concat (take (nat (sint n)) cs))), s2) \<and>
    fql_right G fn s = (if sint n < 0 then Fail
      else if sint n \<le> int (sv_len v) then Good (UStr (concat (drop (length cs - nat (sint n)) cs)))
      else if nat (sint n) < length (sv_data v) \<or> CHR 0x00 \<in> set (sv_data v)
        then Good (UStr (take (nat (sint n)) (c_str (sv_data v)))) else Crash, s2) \<and>
    (- (2 ^ 63) < sint n \<and> int (sv_len v) + sint k < 2 ^ 63 \<longrightarrow> fql_substring G fn s =
      (if sint k < 0 then Fail
       else Good (UStr (concat (take (nat (sint k + min 0 (sint n - 1))) (drop (nat (sint n - 1)) cs)))), s3)) \<and>
    fql_len G fn s = (Good (UInt (of_nat (trimmed_count cs))), s1)"
proof (intro conjI impI)
  note get = assms(1,2) and neg = negative_count [OF assms(1,2)]
  show "fql_left G fn s = (if sint n < 0 then Fail else Good (UStr (concat (take (nat (sint n)) cs))), s2)"
    using fql_left_chars [OF get assms(4) _ assms(6)] neg(1) by simp
  show "fql_right G fn s = (if sint n < 0 then Fail
      else if sint n \<le> int (sv_len v) then Good (UStr (concat (drop (length cs - nat (sint n)) cs)))
      else if nat (sint n) < length (sv_data v) \<or> CHR 0x00 \<in> set (sv_data v)
        then Good (UStr (take (nat (sint n)) (c_str (sv_data v)))) else Crash, s2)"
    using fql_right_chars [OF get assms(4) _ _ _ assms(6)] fql_right_overrun [OF get] neg(2) assms(5) by simp
  show "fql_substring G fn s = (if sint k < 0 then Fail
      else Good (UStr (concat (take (nat (sint k + min 0 (sint n - 1))) (drop (nat (sint n - 1)) cs)))), s3)"
    if "- (2 ^ 63) < sint n \<and> int (sv_len v) + sint k < 2 ^ 63"
    using fql_substring_chars [OF assms(1-4) _ _ assms(6)] neg(3) [OF assms(3)] that by simp
  show "fql_len G fn s = (Good (UInt (of_nat (trimmed_count cs))), s1)" by (rule fql_len_chars [OF assms(1,4,6)])
qed

text \<open>The arguments 'h', e with an acute accent, 'a' and two blanks; the numbers 2 and 2.\<close>

definition sample_text :: "(unit, int) getters" where
  "sample_text = sample_fives\<lparr>get_int := \<lambda>i. outA (Good 2),
     get_stringview := \<lambda>i. outA (Good (view_of [CHR ''h'', CHR 0xC3, CHR 0xA9, CHR ''a'', CHR '' '', CHR '' '']))\<rparr>"

theorem text_functions_count_characters_witness:
  "let fn = \<lparr>fn_args = [0, 1, 2], char_as_byte = False\<rparr> in
   fst (fql_left sample_text fn ()) = Good (UStr [CHR ''h'', CHR 0xC3, CHR 0xA9]) \<and>
   fst (fql_right sample_text fn ()) = Good (UStr ''  '') \<and>
   fst (fql_substring sample_text fn ()) = Good (UStr [CHR 0xC3, CHR 0xA9, CHR ''a'']) \<and>
   fst (fql_len sample_text fn ()) = Good (UInt 3)"
proof -
  let ?fn = "\<lparr>fn_args = [0, 1, 2], char_as_byte = False\<rparr> :: fn_data"
  let ?v = "view_of [CHR ''h'', CHR 0xC3, CHR 0xA9, CHR ''a'', CHR '' '', CHR '' '']"
  let ?cs = "[''h'', [CHR 0xC3, CHR 0xA9], ''a'', '' '', '' '']"
  have a: "at_arg ?fn 0 (get_stringview sample_text) () = (Good ?v, ())" "at_arg ?fn 1 (get_int sample_text) () = (Good 2, ())"
      "at_arg ?fn 2 (get_int sample_text) () = (Good 2, ())"
    by (simp_all add: at_arg_def sample_text_def sample_fives_def outA_def)
  have u: "utf8_view ?v ?cs" by code_simp
  have t: "trimmed_count ?cs = 3" by code_simp
  show ?thesis using text_functions_count_characters [OF a u] unfolding t by (simp add: Let_def view_of_def)
qed

section \<open>Containers\<close>

text \<open>
  Property C26. Erasing a range of a vector and inserting another in its place acts on the list
  of its elements, whatever the reallocation. Inserting a single element is unsafe: exactly when
  it has to grow the block, \<open>vec_insert_one\<close> writes through the pointer into the old one.
\<close>

theorem vec_replace_range:
  assumes "vec_ok v" "i + n \<le> vsize v"
  shows "yields (vec_erase v i n \<bind> (\<lambda>w. vec_insert w i xs))
      (\<lambda>w. vec_ok w \<and> vec_list w = take i (vec_list v) @ xs @ drop (i + n) (vec_list v)) \<and>
    (vec_insert_one v i x = None \<longleftrightarrow> valloc v = vsize v + 1)"
proof (intro conjI)
  show "yields (vec_erase v i n \<bind> (\<lambda>w. vec_insert w i xs))
      (\<lambda>w. vec_ok w \<and> vec_list w = take i (vec_list v) @ xs @ drop (i + n) (vec_list v))"
  proof (unfold yields_bind, rule yields_mono [OF vec_erase_list [OF assms]])
    fix w assume w: "vec_ok w \<and> vec_list w = take i (vec_list v) @ drop (i + n) (vec_list v)"
    have len: "length (vec_list v) = vsize v" using vec_list_length assms(1) by blast
    then have "length (take i (vec_list v)) = i" using assms(2) by simp
    then have le: "i \<le> vsize w" using w vec_list_length [of w] by (metis le_add1 length_append)
    show "yields (vec_insert w i xs) (\<lambda>w. vec_ok w \<and> vec_list w = take i (vec_list v) @ xs @ drop (i + n) (vec_list v))"
      by (rule yields_mono [OF vec_insert_list [OF _ le]]) (use w len assms(2) in auto)
  qed
  show "vec_insert_one v i x = None \<longleftrightarrow> valloc v = vsize v + 1"
    by (rule vec_insert_one_list(1)) (use assms in simp_all)
qed

theorem vec_replace_range_witness:
  "let v = \<lparr>vdata = [Some 1, Some 2, Some 3, None], vsize = 3, valloc = 4\<rparr> in vec_insert_one v 1 (Some (9 :: int)) = None"
proof -
  let ?v = "\<lparr>vdata = [Some 1, Some 2, Some 3, None], vsize = 3, valloc = 4\<rparr> :: int vec"
  have "vec_ok ?v" by (simp add: vec_ok_def)
  then show ?thesis using vec_replace_range [of ?v 1 1 "[]" "Some 9"] by simp
qed

text \<open>
  Property C27. A \<open>flex\<close> is a list of texts packed in one block: removing an entry and inserting
  another at its place updates the list at that index, and a view of an entry is its text, for
  empty and long texts and whatever was removed before.
\<close>

theorem flex_is_a_list:
  assumes "flex_ok f" "i < flex_size f"
  shows "yields (flex_remove f i \<bind> (\<lambda>g. flex_insert g i data))
      (\<lambda>g. flex_ok g \<and> flex_list g = (flex_list f)[i := data]) \<and>
    (\<exists>v. flex_pair_at f i = Some v \<and> view_ok v \<and> sv_text v = flex_list f ! i)"
proof (intro conjI)
  have len: "length (flex_list f) = flex_size f" by (rule flex_list_length [OF assms(1)])
  show "yields (flex_remove f i \<bind> (\<lambda>g. flex_insert g i data)) (\<lambda>g. flex_ok g \<and> flex_list g = (flex_list f)[i := data])"
  proof (unfold yields_bind, rule yields_mono [OF flex_remove_spec [OF assms]])
    fix g assume g: "flex_ok g \<and> flex_list g = take i (flex_list f) @ drop (i + 1) (flex_list f)"
    then have le: "i \<le> flex_size g" using flex_list_length [of g] len assms(2) by auto
    show "yields (flex_insert g i data) (\<lambda>g. flex_ok g \<and> flex_list g = (flex_list f)[i := data])"
      by (rule yields_mono [OF flex_insert_spec [OF _ le]]) (use g len assms(2) in \<open>auto simp: upd_conv_take_nth_drop\<close>)
  qed
qed (rule flex_pair_at_spec [OF assms])

theorem flex_is_a_list_witness:
  "\<exists>f. flex_push_back flex_construct ''ab'' = Some f \<and>
     yields (flex_remove f 0 \<bind> (\<lambda>g. flex_insert g 0 ''xyz'')) (\<lambda>g. flex_list g = [''xyz''])"
proof -
  obtain f where f: "flex_push_back flex_construct ''ab'' = Some f" "flex_ok f" "flex_list f = [''ab'']"
    using flex_push_back_spec [OF flex_ok_construct(1), of "''ab''"] by (auto simp: yields_def flex_ok_construct(2) split: option.splits)
  have s: "0 < flex_size f" using flex_list_length [OF f(2)] f(3) by simp
  have "yields (flex_remove f 0 \<bind> (\<lambda>g. flex_insert g 0 ''xyz'')) (\<lambda>g. flex_ok g \<and> flex_list g = [''xyz''])"
    using flex_is_a_list [OF f(2) s, of "''xyz''"] by (simp add: f(3))
  then have "yields (flex_remove f 0 \<bind> (\<lambda>g. flex_insert g 0 ''xyz'')) (\<lambda>g. flex_list g = [''xyz''])"
    by (rule yields_mono) simp
  then show ?thesis using f(1) by blast
qed

text \<open>
  Property C28. The pattern of LIKE without character ranges becomes the anchored regular
  expression in which every character stands for itself, escaped where it has a meaning there,
  \<open>_\<close> for one character and \<open>%\<close> for any text. With ranges it goes wrong in two ways: the
  negation of a range is escaped, and a second pattern reuses the ranges of the first.
\<close>

theorem like_translation:
  fixes self :: "'re like"
  assumes "str_ok (like_buffer self)" "str_ok (regex_buffer self)" "vec_list (ranges self) = []"
    "view_ok v" "sv_len v < length (sv_data v) \<or> CHR 0x00 \<in> set (sv_data v)"
    "{CHR 0x00, CHR ''['', CHR '']''} \<inter> set (sv_text v) = {}" "2 * sv_len v < 4294967296"
  shows "yields (like_text self v) (\<lambda>self'. str (regex_buffer self') = ''^'' @ concat (map like_char (sv_text v)) @ ''$'') \<and>
    regex_after [''[^a]''] = Some (''^['' @ [CHR 0x5C] @ ''^a]$'') \<and> regex_after [''[ab]'', ''[cd]''] = Some ''^[ab]$''"
proof -
  have "yields (like_text self v) (\<lambda>self'. str (regex_buffer self') = ''^'' @ concat (map like_char (sv_text v)) @ ''$'')"
    using like_text_plain [OF assms(1-5) _ _ _ assms(7)] assms(6) by (fastforce simp: OPEN_def CLOSE_def elim: yields_mono)
  then show ?thesis using range_negation_lost ranges_stale by (simp add: BSLASH_def)
qed

theorem like_translation_witness:
  "concat (map like_char ''a_c.%'') = ''a.c'' @ [CHR 0x5C] @ ''..*'' \<and>
   (\<exists>self :: unit like. yields (like_text self (view_of ''a_c.%'')) (\<lambda>self'. str (regex_buffer self') = ''^a.c'' @ [CHR 0x5C] @ ''..*$''))"
proof -
  obtain b where b: "string_construct = Some b" "str_ok b" using string_construct_spec by (auto simp: yields_def split: option.splits)
  let ?self = "\<lparr>like_buffer = b, regex_buffer = b, ranges = vec_construct, regex = None\<rparr> :: unit like"
  have c: "concat (map like_char ''a_c.%'') = ''a.c'' @ [CHR 0x5C] @ ''..*''" by code_simp
  have "yields (like_text ?self (view_of ''a_c.%'')) (\<lambda>self'. str (regex_buffer self') = ''^'' @ concat (map like_char (sv_text (view_of ''a_c.%''))) @ ''$'')"
    by (rule conjunct1 [OF like_translation]) (use b in \<open>simp_all add: view_of_def view_ok_def sv_text_def\<close>)
  moreover have "''^'' @ concat (map like_char (sv_text (view_of ''a_c.%''))) @ ''$'' = ''^a.c'' @ [CHR 0x5C] @ ''..*$''" by code_simp
  ultimately show ?thesis using c by metis
qed

section \<open>Variables\<close>

text \<open>
  Property C29. Changing the type of a variable keeps its value and its type in agreement: on
  success the union member is the one of the new type, after a failed conversion the variable
  is as well formed as before. The conversion ignores the limit of the variable.
\<close>

theorem variable_types:
  assumes "var_ok v"
  shows "(\<forall>x v'. variable_set_type fo v t = (Good x, v') \<longrightarrow> var_ok v' \<and> var_type v' = t) \<and>
    (\<forall>v'. variable_set_type fo v t = (Fail, v') \<longrightarrow> var_ok v' \<and> var_type v' = var_type v) \<and>
    var_data (snd (variable_set_type fo ((variable_construct :: 'f variable)\<lparr>var_type := SQL_INT, var_value := UInt 12345, var_limit := 3\<rparr>)
      SQL_VARCHAR)) = Some ''12345''"
  using variable_set_type_spec [OF assms, where fo = fo and t = t] variable_set_type_ignores_limit [of fo]
  by (auto simp: Let_def split: prod.splits outcome.splits)

theorem variable_types_witness:
  "\<exists>v'. variable_set_type (x_flt sample_ext) (variable_construct\<lparr>var_type := SQL_INT, var_value := UInt 5\<rparr>) SQL_FLOAT = (Good (), v') \<and>
     var_type v' = SQL_FLOAT \<and> var_ok v'"
proof -
  let ?v = "variable_construct\<lparr>var_type := SQL_INT, var_value := UInt 5\<rparr> :: int variable"
  have ok: "var_ok ?v" by (simp add: var_ok_def variable_get_field_type_def)
  obtain v' where "variable_set_type (x_flt sample_ext) ?v SQL_FLOAT = (Good (), v')"
    by (simp add: variable_set_type_def variable_construct_def field_to_float_def as_int_def variable_get_field_type_def)
  then show ?thesis using variable_types [OF ok, of "x_flt sample_ext" SQL_FLOAT] by blast
qed

text \<open>
  Property C30. An assignment to a CHAR variable that has a buffer gives it exactly the declared
  number of bytes: longer texts are cut, shorter ones filled with blanks.
\<close>

theorem char_variables_are_padded:
  assumes "var_type v = SQL_CHAR" "var_data v \<noteq> None" "0 < var_limit v" "var_limit v < INT_MAX" "CHR 0x00 \<notin> set s"
  shows "\<exists>v' text. variable_set_string v s = Good v' \<and> var_data v' = Some text \<and> var_value v' = UStr text \<and>
    length text = var_limit v \<and> text = take (var_limit v) s @ replicate (var_limit v - length s) (CHR '' '') \<and> \<not> is_null v'"
  by (rule variable_set_string_char [OF assms])

theorem char_variables_are_padded_witness:
  "\<exists>v'. variable_set_string ((variable_construct :: int variable)\<lparr>var_type := SQL_CHAR, var_data := Some [], var_limit := 4\<rparr>) ''ab'' = Good v' \<and>
     var_data v' = Some ''ab  ''"
  using char_variables_are_padded [of "(variable_construct :: int variable)\<lparr>var_type := SQL_CHAR, var_data := Some [], var_limit := 4\<rparr>" "''ab''"]
  by (simp add: variable_construct_def INT_MAX_def numeral_2_eq_2) blast

section \<open>Lists and row groups\<close>

text \<open>
  Property C31. A doubly linked list of \<open>node.c\<close> behaves as a list whatever the history of
  pushes, enqueues, pops and removals: counting, reading an index and freeing it all see the
  elements of the list, and no operation follows a dangling pointer or loses a node.
\<close>

theorem node_history:
  "yields (heap_run xs (Map.empty, None, 0)) (\<lambda>(h, p, n). let ds = fold list_step xs [] in
     node_count h p = Some (length ds) \<and>
     (\<forall>i. node_data_at h p i = Some (if i < length ds then Some (ds ! i) else None)) \<and>
     yields (node_free h p) (\<lambda>(out, h'). out = ds \<and> h' = Map.empty))"
proof -
  have "on_heap [] (Map.empty, None, 0)" by (auto simp: on_heap_def dlist_def intro!: exI [of _ "[]"])
  then have "yields (heap_run xs (Map.empty, None, 0)) (on_heap (fold list_step xs []))" by (rule heap_run_spec)
  then show ?thesis
  proof (rule yields_mono, clarify)
    fix h :: "'a heap" and p n
    assume "on_heap (fold list_step xs []) (h, p, n)"
    then obtain as where as: "dlist h p as" "map snd as = fold list_step xs []" "\<forall>y. y \<notin> fst ` set as \<longrightarrow> h y = None"
      by (auto simp: on_heap_def)
    have "yields (node_free h p) (\<lambda>(out, h'). out = map snd as \<and> h' = Map.empty)"
    proof (rule yields_mono [OF node_free_dlist [OF as(1)]], clarify)
      fix h' assume "\<forall>y \<in> fst ` set as. h' y = None" "\<forall>y. y \<notin> fst ` set as \<longrightarrow> h' y = h y"
      then have "h' y = None" for y using as(3) by metis
      then show "map snd as = map snd as \<and> h' = Map.empty" by blast
    qed
    then show "let ds = fold list_step xs [] in node_count h p = Some (length ds) \<and>
        (\<forall>i. node_data_at h p i = Some (if i < length ds then Some (ds ! i) else None)) \<and>
        yields (node_free h p) (\<lambda>(out, h'). out = ds \<and> h' = Map.empty)"
      using node_count_dlist [OF as(1)] node_data_at_dlist [OF as(1)] by (simp add: as(2) [symmetric])
  qed
qed

text \<open>
  Property C32. Recycling a buffer of row groups empties it and keeps the books of all records:
  reference counts stay exact, no record is lost or returned twice, no root fifo overflows. When
  no other row group is left, every record of the plan is back in its root fifo, the originals
  of copies included, whatever the order of the groups.
\<close>

theorem recycling_returns_every_record:
  assumes "books_ok recs roots s (gs @ live) W" "[] \<notin> set gs" "drop iter (vec_list buffer) = map head_of gs"
  shows "yields (fqlprocess_recycle_buffer roots s buffer iter) (\<lambda>(s', buffer', iter'). vec_list buffer' = [] \<and> iter' = 0 \<and>
    (\<exists>W'. books_ok recs roots s' live W' \<and> (if live = [] then rooted roots s' = recs \<and>
       {a \<in> recs. ref_count (rec_of (pheap s') a) \<noteq> 1} = {} else True)))"
proof -
  obtain s' W' where s': "recycle_cells roots s (map head_of gs) = Some s'" "books_ok recs roots s' live W'"
    using recycle_cells_books [OF assms(1,2)] by (auto simp: yields_exists)
  have "live = [] \<Longrightarrow> rooted roots s' = recs \<and> {a \<in> recs. ref_count (rec_of (pheap s') a) \<noteq> 1} = {}"
    using books_all_home [of recs roots s' W'] s'(2) by auto
  then show ?thesis using s' assms(3) by (auto simp: fqlprocess_recycle_buffer_def vec_list_def vec_clear_def vec_resize_def)
qed

theorem recycling_returns_every_record_witness:
  "let b = \<lparr>vdata = [Some 0, Some 1, None], vsize = 2, valloc = 3\<rparr> in
    yields (fqlprocess_recycle_buffer [0] (sample_pipes [] [(None, 2), (Some 0, 1)]) b 0) (\<lambda>(s', b', i). rooted [0] s' = {0, 1})"
proof -
  let ?rs = "[(None, 2), (Some 0, 1)] :: (nat option \<times> nat) list" and ?b = "\<lparr>vdata = [Some 0, Some 1, None], vsize = 2, valloc = 3\<rparr>"
  have n: "{..<length ?rs} = {0, 1}" by auto
  have "books_ok {..<length ?rs} [0] (sample_pipes [] ?rs) (map (\<lambda>a. [a]) [0, 1]) (set [])"
    by (rule sample_pipes_books) (auto simp: n)
  then have B: "books_ok {..<length ?rs} [0] (sample_pipes [] ?rs) ([[0], [1]] @ []) {}" by simp
  have d: "drop 0 (vec_list ?b) = map head_of [[0], [1]]" by (simp add: vec_list_def)
  have "yields (fqlprocess_recycle_buffer [0] (sample_pipes [] ?rs) ?b 0) (\<lambda>(s', b', i). rooted [0] s' = {..<length ?rs})"
    by (rule yields_mono [OF recycling_returns_every_record [OF B _ d]]) auto
  then show ?thesis unfolding n by simp
qed

text \<open>
  Property C33. To show a left row group to one more match, a join copies it record by record in
  front of the right record: it takes exactly as many fresh records as the group has, the copies
  show the same rows in the same order, every other record keeps its contents, and the books of
  references stay exact, so that the recycling of either group frees no buffer still in use.
\<close>

theorem copied_group_shows_the_same_rows:
  assumes "books_ok recs roots s (rg # live) W" "ps \<in> set live" "aux \<in> set roots"
    "fifo_list (pfifos s ! aux) = map Some fs @ rest" "length fs = length ps" "fields_ok recs s"
  shows "yields (copy_group aux s (last_of ps) (head_of rg)) (\<lambda>(s', p). books_ok recs roots s' ((rev fs @ rg) # live) W \<and>
    p = head_of (rev fs @ rg) \<and> fifo_list (pfifos s' ! aux) = rest \<and>
    list_all2 (\<lambda>f l. same_row (rec_of (pheap s') f) (rec_of (pheap s) l)) (rev fs) ps \<and>
    keeps (pheap s) (pheap s') (set fs))"
proof -
  have "ps @ [] \<in> set live" using assms(2) by simp
  from copy_group_books [OF assms(1) this assms(3-6)] show ?thesis by (rule yields_mono) auto
qed

theorem copied_group_shows_the_same_rows_witness:
  "yields (copy_group 0 (sample_pipes [2] [(None, 1), (None, 1), (None, 1)]) (Some 1) (Some 0)) (\<lambda>(s', p). p = Some 2)"
proof -
  let ?rs = "[(None, 1), (None, 1), (None, 1)] :: (nat option \<times> nat) list"
  have "books_ok {..<length ?rs} [0] (sample_pipes [2] ?rs) (map (\<lambda>a. [a]) [0, 1]) (set [])"
    by (rule sample_pipes_books) auto
  then have B: "books_ok {..<length ?rs} [0] (sample_pipes [2] ?rs) ([0] # [[1]]) {}" by simp
  have v: "fields_ok {..<length ?rs} (sample_pipes [2] ?rs)"
    by (auto simp: fields_ok_def sample_pipes_rec record_construct_def vec_construct_def vec_ok_def)
  have f: "fifo_list (pfifos (sample_pipes [2] ?rs) ! 0) = map Some [2] @ []" by (simp add: sample_pipes_list)
  have "yields (copy_group 0 (sample_pipes [2] ?rs) (last_of [1]) (head_of [0])) (\<lambda>(s', p). p = Some 2)"
    by (rule yields_mono [OF copied_group_shows_the_same_rows [OF B _ _ f _ v]]) auto
  then show ?thesis by (simp add: last_of_def)
qed

text \<open>
  Property C34. Sharing is counted one level deep only. When a copy has been copied in its turn,
  the recycling of the copy in the middle can return the original to its root fifo, to be
  overwritten by the next row, although the second copy still shows the original's buffers.
\<close>

theorem copy_of_copy_is_not_protected:
  assumes "books_ok recs roots s ([b] # [c] # live) W" "a \<in> W" "copies_of (pheap s) (set (concat ([b] # [c] # live))) a = {b}"
    "rec_copy_node (rec_of (pheap s) c) = Some b" "same_row (rec_of (pheap s) c) (rec_of (pheap s) a)"
  shows "yields (fqlprocess_recycle roots s (Some b)) (\<lambda>s'. a \<in> rooted roots s' \<and> c \<notin> rooted roots s' \<and>
    same_row (rec_of (pheap s') c) (rec_of (pheap s') a))"
proof -
  obtain s' W' where s': "fqlprocess_recycle roots s (Some b) = Some s'" "books_ok recs roots s' ([c] # live) W'"
      "keeps (pheap s) (pheap s') {b}" "a \<in> rooted roots s'"
    using recycle_books [OF assms(1)] copy_of_copy [OF assms(1-3)] by (auto simp: yields_exists)
  have "c \<in> set (concat ([c] # live))" by simp
  then have "c \<notin> rooted roots s'" using places_apart(4) [OF books_D(3) [OF s'(2)]] by blast
  moreover have "c \<noteq> b" "a \<noteq> b"
    using books_D(2) [OF assms(1)] places_apart(1) [OF books_D(3) [OF assms(1)]] assms(2) by auto
  ultimately show ?thesis using s'(1,4) assms(5) keeps_row [OF s'(3)] by simp
qed

theorem copy_of_copy_is_not_protected_witness:
  "yields (fqlprocess_recycle [0] (sample_pipes [] [(None, 1), (Some 0, 2), (Some 1, 1)]) (Some 1)) (\<lambda>s'. 0 \<in> rooted [0] s' \<and> 2 \<notin> rooted [0] s')"
proof -
  let ?rs = "[(None, 1), (Some 0, 2), (Some 1, 1)] :: (nat option \<times> nat) list"
  let ?s = "sample_pipes [] ?rs"
  have "books_ok {..<length ?rs} [0] ?s (map (\<lambda>a. [a]) [1, 2]) (set [0])"
    by (rule sample_pipes_books) auto
  then have B: "books_ok {..<length ?rs} [0] ?s ([1] # [2] # []) {0}" by simp
  have c: "copies_of (pheap ?s) (set (concat ([1] # [2] # []))) 0 = {1}" by (auto simp: copies_of_def sample_pipes_rec record_construct_def)
  have r: "rec_copy_node (rec_of (pheap ?s) 2) = Some 1" "same_row (rec_of (pheap ?s) 2) (rec_of (pheap ?s) 0)"
    by (simp_all add: sample_pipes_rec record_construct_def same_row_def vec_ok_def vec_construct_def)
  show ?thesis by (rule yields_mono [OF copy_of_copy_is_not_protected [OF B _ c r]]) simp_all
qed

section \<open>ORDER BY\<close>

text \<open>
  Property C35. ORDER BY for a caller of the library: every row goes through the SELECT, which
  writes its values to a file, and the ORDER BY, which keeps its keys; when all rows are there
  they are sorted and handed out one by one. The caller sees every row once, with the values that
  were selected for it, and no row behind one with a greater key, at most TOP of them. TOP 0 hands
  out one row all the same. The values are those the getters leave behind: a NULL is handed out,
  and sorted, as 0 or the empty text and without the mark of a NULL. With no row at all the first
  step follows a NULL pointer. The keys are compared as texts without control characters of less
  than 2^31 bytes and doubles without NaN (\<open>comparable\<close>); on others the comparison of the code is
  no order (\<open>comparison_is_an_order\<close>).
\<close>

theorem order_by_returns_sorted_rows:
  fixes I :: "('f, 're) store \<Rightarrow> bool"
  assumes val: "\<And>r i. r \<in> set rows \<Longrightarrow> i \<in> set is \<union> set ks \<Longrightarrow> value_read (x_flt x) I (G r) i (v r i)"
    and rows: "\<And>r. r \<in> set rows \<Longrightarrow> rg r \<noteq> [] \<and> length (row_bytes (x_flt x) (v r) is) < 4294967296"
    and desc: "\<And>s i. I s \<Longrightarrow> i \<in> set ks \<Longrightarrow> descending (exprs s ! i) = desc i"
    and api: "\<And>r. r \<in> set rows \<Longrightarrow> map api_type fs = map (\<lambda>i. value_type (v r i)) is" "\<forall>f \<in> set fs. \<not> api_null f"
    and bits: "\<And>f. f_of_bits (x_flt x) (f_bits (x_flt x) f) = f"
    and qs: "sorts qs" "\<And>k. k \<in> set ks \<Longrightarrow> comparable (x_flt x) ((\<lambda>r. v r k) ` set rows)"
    and I: "I s" and ne: "is \<noteq> []"
  shows "\<exists>s' sel ord. order_rows x G rg rows (s, fqlselect_construct\<lparr>sel_exprs := is\<rparr>,
        order_construct\<lparr>o_exprs := ks, o_select := Order_select_api, o_api := fs, top_count := n\<rparr>) = (Good (), (s', sel, ord)) \<and>
    (if rows = [] then fst (orderby_finish qs (x_flt x) (Some (sel_file sel)) (s', ord)) = Crash
     else \<exists>perm. pull_rows (length rows + 1) qs (x_flt x) (Some (sel_file sel)) (s', ord) =
         Some (map (\<lambda>r. api_of (map (v r) is)) (take (max 1 n) perm)) \<and>
       mset perm = mset rows \<and>
       sorted_wrt (\<lambda>a b. \<not> key_less (x_flt x) (zip (map desc ks) (map (v b) ks)) (zip (map desc ks) (map (v a) ks))) perm)"
proof -
  let ?fo = "x_flt x" and ?sel0 = "fqlselect_construct\<lparr>sel_exprs := is\<rparr> :: 'f fqlselect"
  let ?ord0 = "order_construct\<lparr>o_exprs := ks, o_select := Order_select_api, o_api := fs, top_count := n\<rparr> :: 'f order"
  have "recorded ?fo v is ks [] ?sel0 ?ord0"
    by (auto simp: recorded_def vec_ok_def vec_construct_def vec_list_def fqlselect_construct_def order_construct_def file_of_def keys_of_def flex_ok_construct)
  then obtain s' sel ord where o: "order_rows x G rg rows (s, ?sel0, ?ord0) = (Good (), (s', sel, ord))" "I s'"
      "recorded ?fo v is ks rows sel ord" "untouched ?ord0 ord"
    using order_rows_spec [of rows "is" ks x I G v rg s "[]" ?sel0 ?ord0] val rows I by auto
  have u: "\<not> o_sorted ord" "o_select ord = Order_select_api" "o_rows ord = 0" "o_api ord = fs" "top_count ord = n"
    using o(4) by (auto simp: untouched_def order_construct_def)
  have fl: "sel_file sel = file_of ?fo v is rows" using o(3) by (simp add: recorded_def)
  show ?thesis
  proof (cases "rows = []")
    case True
    have e: "ord = ?ord0" "s' = s" using o(1) True by (simp_all add: outA_def)
    have "sel_file sel = []" using fl True by (simp add: file_of_def)
    then have "fst (orderby_finish qs ?fo (Some (sel_file sel)) (s', ord)) = Crash"
      unfolding e by (simp add: order_construct_def orderby_finish_def derefA_def order_sort_def order_call_def order_select_api_def Let_def outA_def)
    then show ?thesis using o(1) True by simp
  next
    case False
    then obtain r0 where r0: "r0 \<in> set rows" by (cases rows) auto
    have ty: "i < length (exprs s') \<and> value_type (v r i) = e_type (exprs s' ! i)" if "r \<in> set rows" "i \<in> set ks" for r i
      using value_read_type [OF val [OF that(1)] o(2), of i] that(2) by simp
    have len: "list_all (\<lambda>i. i < length (exprs s')) ks" using ty [OF r0] by (simp add: list_all_iff)
    have key: "row_key (exprs s') ks (v r) = zip (map desc ks) (map (v r) ks)" for r
      using desc [OF o(2)] by (simp add: row_key_def cong: map_cong)
    have "4 \<le> length (value_bytes ?fo u)" for u by (cases u) (simp_all add: value_bytes_def)
    then have "value_bytes ?fo u \<noteq> []" for u by (metis list.size(3) not_numeral_le_zero)
    then have "row_bytes ?fo (v r0) is \<noteq> []" using ne by (cases "is") auto
    then have nf: "file_of ?fo v is rows \<noteq> []" using r0 by (auto simp: file_of_def)
    have ko: "weak_order (key_less ?fo) ((\<lambda>r. zip (map desc ks) (map (v r) ks)) ` set rows) \<and>
        decides (key_cmp ?fo) (key_less ?fo) ((\<lambda>r. zip (map desc ks) (map (v r) ks)) ` set rows)"
      by (rule key_order [OF qs(2)]) (simp_all add: ty)
    have cons: "consistent (key_cmp ?fo) ((\<lambda>r. row_key (exprs s') ks (v r)) ` set rows)"
      using consistent_decides [OF conjunct1 [OF ko] conjunct2 [OF ko]] by (simp add: key)
    obtain ord1 perm ents where S: "order_sort qs ?fo (exprs s') (Some (file_of ?fo v is rows)) ord = (Good (), ord1)" "mset perm = mset rows"
        "sorted_wrt (\<lambda>a b. key_cmp ?fo (row_key (exprs s') ks (v a)) (row_key (exprs s') ks (v b)) \<le> 0) perm"
        "vec_list (o_entries ord1) = map Some ents" "vec_ok (o_entries ord1)" "length ents = length perm"
        "\<forall>j < length perm. \<exists>pre post. file_of ?fo v is rows = pre @ row_bytes ?fo (v (perm ! j)) is @ post \<and> ent_offset (ents ! j) = length pre"
        "untouched (ord\<lparr>o_sorted := True\<rparr>) ord1" "o_mmap ord1 = Some (file_of ?fo v is rows)" "entry_iter ord1 = Some 0"
      using order_sort_spec [OF o(3) bits qs(1) ty len cons nf] by blast
    have u1: "o_sorted ord1" "o_select ord1 = Order_select_api" "o_rows ord1 = 0" "o_api ord1 = fs" "top_count ord1 = n"
      using S(8) u by (auto simp: untouched_def)
    have sp: "set perm = set rows" using S(2) by (metis set_mset_mset)
    have H: "handing_out ?fo v is (file_of ?fo v is rows) perm 0 ord1"
      unfolding handing_out_def using u1 S(4-7,9,10) api sp by auto
    have tx: "length t < 4294967296" if "r \<in> set perm" "i \<in> set is" "v r i = VText t" for r i t
      using val [of r i] that sp by (auto simp: value_read_def)
    have pull: "pull_rows (length rows + 1) qs ?fo (Some (file_of ?fo v is rows)) (s', ord1) =
        Some (map (\<lambda>r. api_of (map (v r) is)) (take (max 1 (top_count ord1) - 0) (drop 0 perm)))"
      by (rule pull_rows_spec [OF bits tx H]) (use arg_cong [OF S(2), of size] in auto)
    have fin: "orderby_finish qs ?fo (Some (file_of ?fo v is rows)) (s', ord) = orderby_finish qs ?fo (Some (file_of ?fo v is rows)) (s', ord1)"
      using u(1) u1(1) S(1) by (simp add: orderby_finish_def derefA_def outA_def)
    have "pull_rows (Suc m) qs ?fo (Some (file_of ?fo v is rows)) (s', ord) = pull_rows (Suc m) qs ?fo (Some (file_of ?fo v is rows)) (s', ord1)" for m
      unfolding pull_rows.simps fin by (simp only: snd_conv u(3) u1(3))
    then have "pull_rows (length rows + 1) qs ?fo (Some (sel_file sel)) (s', ord) = Some (map (\<lambda>r. api_of (map (v r) is)) (take (max 1 n) perm))"
      using pull u1(5) unfolding fl by (simp only: Suc_eq_plus1 [symmetric] minus_nat.diff_0 drop_0)
    moreover have "sorted_wrt (\<lambda>a b. \<not> key_less ?fo (zip (map desc ks) (map (v b) ks)) (zip (map desc ks) (map (v a) ks))) perm"
      using sorted_decides [of "key_cmp ?fo" "key_less ?fo" _ perm] ko S(3) by (simp add: key sp)
    ultimately show ?thesis using o(1) False S(2) by auto
  qed
qed

definition bits_ext :: "(64 word, unit) ext" where
  "bits_ext = \<lparr>x_flt = \<lparr>f_of_int = \<lambda>n. n, f_to_int = Some, f_parse = \<lambda>s. None, f_print = \<lambda>f. ''0'',
       f_add = (+), f_sub = (-), f_mul = (*), f_div = (div), f_neg = uminus, f_zero = 0, f_eq = (=), f_lt = (<), f_le = (\<le>),
       f_bits = \<lambda>f. f, f_of_bits = \<lambda>w. w\<rparr>,
     x_compile = \<lambda>s. None, x_match = \<lambda>r s. False\<rparr>"

definition bits_store :: "(64 word, unit) store" where
  "bits_store = \<lparr>exprs = [(blank_expression EXPR_COLUMN_NAME [])\<lparr>e_type := FIELD_STRING, data_source := Some 1\<rparr>,
      (blank_expression EXPR_COLUMN_NAME [])\<lparr>e_type := FIELD_STRING\<rparr>], logics = [], rownums = []\<rparr>"

theorem order_by_returns_sorted_rows_witness:
  "\<exists>s' sel ord perm. order_rows bits_ext (\<lambda>t. expr_getters bits_ext [sample_row t] 1) (\<lambda>t. [sample_row t]) [''b'', ''A'']
      (bits_store, fqlselect_construct\<lparr>sel_exprs := [0]\<rparr>, order_construct\<lparr>o_exprs := [0], o_select := Order_select_api,
        o_api := [\<lparr>api_type = FIELD_STRING, api_null = False, api_data = UInt 0\<rparr>], top_count := 5\<rparr>) = (Good (), (s', sel, ord)) \<and>
    pull_rows 3 sort_by (x_flt bits_ext) (Some (sel_file sel)) (s', ord) = Some (map (\<lambda>t. api_of [VText t]) perm) \<and>
    mset perm = {#''A'', ''b''#}"
proof -
  let ?x = bits_ext and ?G = "\<lambda>t. expr_getters bits_ext [sample_row t] 1" and ?v = "\<lambda>t (i :: nat). VText t :: 64 word sqlval"
  let ?I = "\<lambda>s. s = bits_store" and ?rows = "[''b'', ''A'']"
  have col: "get_stringview (?G t) 0 bits_store = (Good (view_of t), bits_store)" for t
    using column_stringview [of 0 bits_store 1 0 0 "[sample_row t]" bits_ext 0]
    by (simp add: bits_store_def blank_expression_def sample_row_def vec_ok_def vec_list_def)
  have val: "value_read (x_flt ?x) ?I (?G t) i (?v t i)" if "t \<in> set ?rows" "i \<in> set [0] \<union> set [0]" for t i
    using that col [of t] by (auto simp: value_read_def reads_def bits_store_def blank_expression_def intro!: exI [of _ "view_of t"])
  have cons: "comparable (x_flt ?x) ((\<lambda>t. ?v t k) ` set ?rows)" for k :: nat
    by (auto simp: comparable_def weak_order_def uchar_def)
  let ?fs = "[\<lparr>api_type = FIELD_STRING, api_null = False, api_data = UInt 0\<rparr>] :: 64 word api_field list"
  have w: "\<exists>s' sel ord. order_rows ?x ?G (\<lambda>t. [sample_row t]) ?rows (bits_store, fqlselect_construct\<lparr>sel_exprs := [0]\<rparr>,
        order_construct\<lparr>o_exprs := [0], o_select := Order_select_api, o_api := ?fs, top_count := 5\<rparr>) = (Good (), (s', sel, ord)) \<and>
    (if ?rows = [] then fst (orderby_finish sort_by (x_flt ?x) (Some (sel_file sel)) (s', ord)) = Crash
     else \<exists>perm. pull_rows (length ?rows + 1) sort_by (x_flt ?x) (Some (sel_file sel)) (s', ord) =
         Some (map (\<lambda>r. api_of (map (?v r) [0])) (take (max 1 5) perm)) \<and> mset perm = mset ?rows \<and>
       sorted_wrt (\<lambda>a b. \<not> key_less (x_flt ?x) (zip (map (\<lambda>_. False) [0 :: nat]) (map (?v b) [0])) (zip (map (\<lambda>_. False) [0 :: nat]) (map (?v a) [0]))) perm)"
  proof (rule order_by_returns_sorted_rows [where I = ?I])
    show "[sample_row r] \<noteq> [] \<and> length (row_bytes (x_flt ?x) (?v r) [0]) < 4294967296" if "r \<in> set ?rows" for r
      using that by (auto simp: row_bytes_def value_bytes_def)
    show "descending (exprs s ! i) = False" if "s = bits_store" "i \<in> set [0]" for s i
      using that by (auto simp: bits_store_def blank_expression_def)
  qed (use val cons in \<open>auto simp: sorts_sort_by bits_ext_def value_type_def row_bytes_def value_bytes_def\<close>)
  then obtain s' sel ord perm where p: "order_rows ?x ?G (\<lambda>t. [sample_row t]) ?rows (bits_store, fqlselect_construct\<lparr>sel_exprs := [0]\<rparr>,
        order_construct\<lparr>o_exprs := [0], o_select := Order_select_api, o_api := ?fs, top_count := 5\<rparr>) = (Good (), (s', sel, ord))"
      "pull_rows (length ?rows + 1) sort_by (x_flt ?x) (Some (sel_file sel)) (s', ord) = Some (map (\<lambda>r. api_of (map (?v r) [0])) (take (max 1 5) perm))"
      "mset perm = mset ?rows" by auto
  have three: "length ?rows + 1 = 3" by simp
  have "length perm = 2" using arg_cong [OF p(3), of size] by simp
  then have "take (max 1 5) perm = perm" by simp
  moreover have "mset ?rows = {#''A'', ''b''#}" by (simp add: add_mset_commute)
  moreover have "map (\<lambda>r. api_of (map (?v r) [0])) perm = map (\<lambda>t. api_of [VText t]) perm" by simp
  ultimately show ?thesis using p unfolding three by metis
qed

section \<open>The process graph\<close>

text \<open>
  Property C36. The traversal of a process graph, when the waiting nodes fit its ring of as many
  cells as there are nodes: it ends and visits exactly the nodes that can be reached from the roots,
  whatever the cycles and shared nodes, and the count of a node is the number of its visits. That
  count, which the plan takes for the number of inputs of a process, is not the number of arcs to
  it: where two ways to a node have the same length it is visited twice, where one is shorter only
  once. Since a node can wait more than once, the waiting nodes need not fit: on a graph of seven
  nodes the ring overflows and a node that can be reached is never visited.
\<close>

theorem traversal_visits_what_is_reachable:
  assumes "graph_ok g" "roots_good g" "dg_roots g \<noteq> []" "fifo_ok (trav g)"
    "list_all (\<lambda>(a, q). length q < max 2 (length (dg_nodes g))) (search_of g)"
  shows "yields (dgraph_traverse_reset g \<bind> (\<lambda>g1. traverse_all g1 [])) (\<lambda>(out, g2).
      out = visited (search_of g) \<and> set out = (arcs (outs_of (dheap g)))\<^sup>* `` set (dg_roots g) \<and>
      {a \<in> set (dg_nodes g). counts_of (dheap g2) a \<noteq> count_list out a} = {}) \<and>
    visited (search_of (sample_graph [(Some 1, Some 2), (Some 3, None), (Some 3, None), (None, None)] [0])) = [0, 1, 2, 3, 3] \<and>
    visited (search_of (sample_graph [(Some 2, Some 1), (Some 2, None), (None, None)] [0])) = [0, 2, 1] \<and>
    map_option fst (dgraph_traverse_reset crowded_graph \<bind> (\<lambda>g1. traverse_all g1 [])) = Some [0, 1, 2, 3, 4, 6] \<and>
    length (dg_nodes crowded_graph) = 7 \<and> 5 \<in> (arcs (outs_of (dheap crowded_graph)))\<^sup>* `` set (dg_roots crowded_graph)"
proof (intro conjI)
  let ?N = "set (dg_nodes g)" and ?outs = "outs_of (dheap g)"
  obtain r rs where r: "dg_roots g = r # rs" using assms(3) by (cases "dg_roots g") auto
  obtain g1 where g1: "dgraph_traverse_reset g = Some g1" "searching g (\<lambda>_. 0) [r] rs g1"
    using traverse_reset_searching [OF assms(1,2) r assms(4)] by blast
  have s: "search_of g = bfs ?N ?outs (\<lambda>_. 0) [r] rs" by (simp add: search_of_def r)
  have fits: "length q < max 2 (length (dg_nodes g))" if "(a, q) \<in> set (bfs ?N ?outs (\<lambda>_. 0) [r] rs)" for a q
    using assms(5) that unfolding s list_all_iff by blast
  have "\<exists>g2. traverse_all g1 [] = Some ([] @ visited (search_of g), g2) \<and>
      searching g (\<lambda>n. 0 + count_list (visited (search_of g)) n) [] [] g2"
    unfolding s by (rule traverse_all_searching [OF g1(2) refl refl]) (rule fits)
  then obtain g2 where g2: "traverse_all g1 [] = Some ([] @ visited (search_of g), g2)"
      "searching g (\<lambda>n. 0 + count_list (visited (search_of g)) n) [] [] g2"
    by blast
  have "set (visited (search_of g)) = (arcs ?outs)\<^sup>* `` set (dg_roots g)"
    unfolding search_of_def by (rule bfs_reaches) (use assms(1) in \<open>auto simp: graph_ok_def\<close>)
  then show "yields (dgraph_traverse_reset g \<bind> (\<lambda>g1. traverse_all g1 [])) (\<lambda>(out, g2).
      out = visited (search_of g) \<and> set out = (arcs (outs_of (dheap g)))\<^sup>* `` set (dg_roots g) \<and>
      {a \<in> set (dg_nodes g). counts_of (dheap g2) a \<noteq> count_list out a} = {})"
    using g1(1) g2 by (auto simp: searching_def)
  show "visited (search_of (sample_graph [(Some 1, Some 2), (Some 3, None), (Some 3, None), (None, None)] [0])) = [0, 1, 2, 3, 3]"
    "visited (search_of (sample_graph [(Some 2, Some 1), (Some 2, None), (None, None)] [0])) = [0, 2, 1]"
    by (simp_all add: search_of_def sample_graph_def outs_of_def dnode_construct_def bfs.simps(3) Let_def)
  show "map_option fst (dgraph_traverse_reset crowded_graph \<bind> (\<lambda>g1. traverse_all g1 [])) = Some [0, 1, 2, 3, 4, 6]"
    by (rule crowded_graph_traversal)
  show "length (dg_nodes crowded_graph) = 7" "5 \<in> (arcs (outs_of (dheap crowded_graph)))\<^sup>* `` set (dg_roots crowded_graph)"
    using crowded_graph_reach by (auto simp: crowded_graph_def sample_graph_def)
qed

theorem traversal_visits_what_is_reachable_witness:
  "\<exists>g2. dgraph_traverse_reset (sample_graph [(Some 1, None), (Some 0, Some 2), (None, None), (Some 2, None)] [0]) \<bind>
     (\<lambda>g1. traverse_all g1 []) = Some ([0, 1, 2], g2)"
proof -
  let ?g = "sample_graph [(Some 1, None), (Some 0, Some 2), (None, None), (Some 2, None)] [0]"
  have n: "dg_nodes ?g = [0, 1, 2, 3]" by (simp add: sample_graph_def upt_rec)
  have g: "graph_ok ?g"
    unfolding graph_ok_def n by (auto simp: sample_graph_def outs_of_def dnode_construct_def)
  have f: "fifo_ok (trav ?g)" "roots_good ?g" "dg_roots ?g \<noteq> []"
    by (simp_all add: sample_graph_def fifo_ok_def vec_ok_def)
  have s: "search_of ?g = [(0, [1]), (1, [2]), (2, [])]"
    by (simp add: search_of_def sample_graph_def outs_of_def dnode_construct_def bfs.simps(3) Let_def)
  have fits: "list_all (\<lambda>(a, q). length q < max 2 (length (dg_nodes ?g))) (search_of ?g)" unfolding s by (simp add: sample_graph_def)
  from conjunct1 [OF traversal_visits_what_is_reachable [OF g f(2,3,1) fits]]
  obtain out g2 where "dgraph_traverse_reset ?g \<bind> (\<lambda>g1. traverse_all g1 []) = Some (out, g2)" "out = visited (search_of ?g)"
    by (auto simp: yields_exists)
  then show ?thesis unfolding s by simp
qed

section \<open>Fixed-width files\<close>

text \<open>
  C37: A file that is written with fixed-width columns is read back as it was. The schema file
  gives the columns their widths and with them the places in a record; the writer pads every
  text of a row to its width. Until the writer is closed the target is as it was, whatever it
  held (the rows go to a temporary file, which is on the list of the signal handler); closing puts the
  rows in its place, and changes no other file. The reader then finds every field of every row, padded with
  blanks, numbers the rows from zero, and stops at the end.
\<close>

theorem fixed_width_round_trip:
  assumes cols: "cols \<noteq> []" "\<forall>c \<in> set cols. 0 < snd c" "sum_list (map snd cols) < 4294967296"
    and schema: "s_exprs (so_schema s0) = []" "parse_schema_file (Some (False, map fixed_rec cols)) idx (s0, n0) = (r, src, len)"
    and texts: "\<And>rg. rg \<in> set rgs \<Longrightarrow> list_all2 (\<lambda>(i, w) t. column_reads I (G rg) i w t \<and> length t \<le> w) (zip is (map snd cols)) (texts rg)"
    and store: "length is = length cols" "I st"
    and target: "f \<noteq> []" "c_str f = f" "fixedwriter_open os f (fixedwriter_construct, d) = (Good (), wr, d1)"
    and temp: "\<forall>d t tmp. os_mkstemp os d t = Some tmp \<longrightarrow> contents d tmp = None \<and> tmp \<noteq> f"
    and os: "\<forall>d t g. os_rename os d t g \<and> os_chmod os d g"
    and recs: "length recs = length rgs" "\<forall>rec \<in> set recs. vec_ok (rec_fields rec)"
  shows "r = Good () \<and> len = sum_list (map snd cols) \<and>
    (\<exists>st' d2 wr' d3 rd rs rd'. write_rows x G is rgs (st, wr, d1) = (Good (), st', wr, d2) \<and> I st' \<and> contents d2 f = contents d f \<and>
      fixedwriter_close os (wr, d2) = (Good (), wr', d3) \<and>
      contents d3 = (contents d)(f \<mapsto> concat (map (\<lambda>rg. line_of (map snd cols) (texts rg)) rgs)) \<and>
      fixedread_open d3 f \<lparr>r_fixed = fixedread_construct (s_exprs (so_schema src)), r_file_name = f, reclen = len, rec_id = 0, skip_rows = 0, r_eof = False\<rparr> =
        (Good (), rd) \<and>
      read_rows (so_exprs src) recs rd = Good (rs, rd') \<and>
      map field_texts rs = map (\<lambda>rg. map Some (map2 padded (map snd cols) (texts rg))) rgs \<and> map rec_idx rs = [0 ..< length rgs])"
proof -
  let ?ws = "map snd cols" and ?text = "concat (map (\<lambda>rg. line_of (map snd cols) (texts rg)) rgs)"
  obtain s' where s': "schema_records False (map fixed_rec cols) idx 0 (s0\<lparr>so_offset := 0\<rparr>) = (Good (), s')"
      "laid_out (so_exprs s') 0 (s_exprs (so_schema s')) ?ws" "so_offset s' = sum_list ?ws"
    using schema_records_fixed [of cols "s0\<lparr>so_offset := 0\<rparr>" 0 "[]" idx] cols schema(1) by auto
  then have r: "r = Good ()" "len = sum_list ?ws" using schema(2) by (simp_all add: parse_schema_file_def)
  have lay: "laid_out (so_exprs src) 0 (s_exprs (so_schema src)) ?ws" using s' schema(2) by (simp add: parse_schema_file_def)
  have pos: "0 < sum_list ?ws" using cols(1,2) by (cases cols) auto
  obtain tmp where tmp: "wr = \<lparr>fw_file = Some (Path tmp), fw_tempnode = Some tmp, fw_tempname = tmp, fw_filename = f, is_detached = False\<rparr>"
      "d1 = fqlsig_tmp_push tmp (d\<lparr>contents := (contents d)(tmp \<mapsto> [])\<rparr>)" "contents d tmp = None" "tmp \<noteq> f"
    using target temp by (fastforce simp: fixedwriter_open_def set_filename_def fixedwriter_construct_def isopen_def mktmp_def Let_def split: option.splits)
  have t: "list_all2 (\<lambda>(i, w) t. column_reads I (G rg) i w t \<and> 0 < w \<and> length t \<le> w) (zip is ?ws) (texts rg)"
      "list_all2 (\<lambda>w t. length t \<le> w) ?ws (texts rg)" if "rg \<in> set rgs" for rg
    using texts [OF that] cols(2) store(1) by (auto simp: list_all2_conv_all_nth)
  define d2 where "d2 = emit (Path tmp) ?text d1"
  obtain st' where w: "I st'" "write_rows x G is rgs (st, wr, d1) = (Good (), st', wr, d2)"
    using write_rows_spec [of rgs I G "is" ?ws texts st wr tmp x d1] t(1) store tmp(1) unfolding d2_def by auto
  have c2: "contents d2 = (contents d)(tmp \<mapsto> ?text)" by (simp add: d2_def tmp(2) emit_def fqlsig_tmp_push_def)
  define d3 where "d3 = fqlsig_tmp_remove_node tmp (rename_file tmp f d2)"
  have c3: "contents d3 = (contents d)(f \<mapsto> ?text)" using tmp(3,4) c2
    by (auto simp: d3_def fqlsig_tmp_remove_node_def rename_file_def fun_upd_twist)
  have close: "fixedwriter_close os (wr, d2) = (Good (), wr\<lparr>fw_file := None, fw_tempnode := None\<rparr>, d3)"
    using target(1) c2 os by (simp add: fixedwriter_close_def tmp(1) d3_def)
  define rd0 where "rd0 = \<lparr>r_fixed = fixedread_construct (s_exprs (so_schema src)), r_file_name = f, reclen = len, rec_id = 0, skip_rows = 0, r_eof = False\<rparr>"
  obtain rd where rd: "fixedread_open d3 f rd0 = (Good (), rd)" "rec_id rd = 0" "reclen rd = len" "fr_exprs (r_fixed rd) = s_exprs (so_schema src)"
      "fr_offset (r_fixed rd) = 0" "file_size (r_fixed rd) = length ?text" "?text \<noteq> [] \<longrightarrow> fr_mmap (r_fixed rd) = Some ?text"
    using fixedread_open_spec [of d3 f ?text rd0 "s_exprs (so_schema src)"] c3 unfolding rd0_def by auto
  have ne: "?text \<noteq> []" if some: "rgs \<noteq> []"
  proof -
    obtain rg where rg: "rg \<in> set rgs" using some by (cases rgs) auto
    then have "line_of ?ws (texts rg) \<noteq> []" using line_length [OF t(2) [OF rg]] pos by (metis list.size(3) less_irrefl)
    then show ?thesis using rg by auto
  qed
  obtain rs rd' where "read_rows (so_exprs src) recs rd = Good (rs, rd')"
      "map field_texts rs = map (\<lambda>ts. map Some (map2 padded ?ws ts)) (map texts rgs)" "map rec_idx rs = [0 ..< length rgs]"
    using read_rows_spec [of "map texts rgs" ?ws recs "so_exprs src" rd ?text] t(2) recs lay rd r(2) pos ne by (auto simp: o_def)
  then have "read_rows (so_exprs src) recs rd = Good (rs, rd') \<and> map field_texts rs = map (\<lambda>rg. map Some (map2 padded ?ws (texts rg))) rgs \<and>
      map rec_idx rs = [0 ..< length rgs]" by simp
  then have "\<exists>st' d2 wr' d3 rd rs rd'. write_rows x G is rgs (st, wr, d1) = (Good (), st', wr, d2) \<and> I st' \<and> contents d2 f = contents d f \<and>
      fixedwriter_close os (wr, d2) = (Good (), wr', d3) \<and> contents d3 = (contents d)(f \<mapsto> ?text) \<and>
      fixedread_open d3 f \<lparr>r_fixed = fixedread_construct (s_exprs (so_schema src)), r_file_name = f, reclen = len, rec_id = 0, skip_rows = 0, r_eof = False\<rparr> =
        (Good (), rd) \<and>
      read_rows (so_exprs src) recs rd = Good (rs, rd') \<and>
      map field_texts rs = map (\<lambda>rg. map Some (map2 padded ?ws (texts rg))) rgs \<and> map rec_idx rs = [0 ..< length rgs]"
    using w close c3 rd(1) c2 tmp(4) unfolding rd0_def by (intro exI conjI) (assumption | simp)+
  then show ?thesis using r by blast
qed

theorem fixed_width_round_trip_witness:
  "\<exists>r src len wr d1 st' d2 wr' d3 rd rs rd' G.
     parse_schema_file (Some (False, map fixed_rec [(''name'', 4)])) 0 (blank_source, 0) = (r, src, len) \<and> r = Good () \<and> len = 4 \<and>
     fixedwriter_open sample_os ''out'' (fixedwriter_construct, sample_disk) = (Good (), wr, d1) \<and>
     write_rows sample_ext G [0] [[sample_row ''ab''], [sample_row ''wxyz'']] (wide_store 4, wr, d1) = (Good (), st', wr, d2) \<and>
     contents d2 ''out'' = Some ''old'' \<and> fixedwriter_close sample_os (wr, d2) = (Good (), wr', d3) \<and>
     contents d3 ''out'' = Some ''ab  wxyz'' \<and>
     fixedread_open d3 ''out'' \<lparr>r_fixed = fixedread_construct (s_exprs (so_schema src)), r_file_name = ''out'', reclen = len, rec_id = 0, skip_rows = 0, r_eof = False\<rparr> =
        (Good (), rd) \<and>
     read_rows (so_exprs src) [record_construct 0, record_construct 1] rd = Good (rs, rd') \<and> map field_texts rs = [[Some ''ab  ''], [Some ''wxyz'']]"
proof -
  define G where "G (rg :: row_record list) = expr_getters sample_ext rg 1" for rg
  define texts where "texts (rg :: row_record list) = [sv_text (the (hd (vec_list (rec_fields (hd rg)))))]" for rg
  have tx: "texts [sample_row t] = [t]" for t by (simp add: texts_def sample_row_def vec_list_def)
  obtain r src len where p: "parse_schema_file (Some (False, map fixed_rec [(''name'', 4)])) 0 (blank_source, 0) = (r, src, len)" by (metis prod_cases3)
  have n: "s_exprs (so_schema blank_source) = []" by (simp add: blank_source_def schema_construct_def)
  obtain wr d1 where o: "fixedwriter_open sample_os ''out'' (fixedwriter_construct, sample_disk) = (Good (), wr, d1)"
    by (simp add: fixedwriter_open_def fixedwriter_construct_def set_filename_def isopen_def mktmp_def sample_os_def sample_disk_def dirname_def strip_end_def)
  have t: "list_all2 (\<lambda>(i, w) t. column_reads (\<lambda>s. s = wide_store 4) (G rg) i w t \<and> length t \<le> w) (zip [0] (map snd [(''name'', 4 :: nat)])) (texts rg)"
    if "rg \<in> set [[sample_row ''ab''], [sample_row ''wxyz'']]" for rg
    using that wide_column by (auto simp: G_def tx)
  have os: "\<forall>d t tmp. os_mkstemp sample_os d t = Some tmp \<longrightarrow> contents d tmp = None \<and> tmp \<noteq> ''out''"
      "\<forall>d t g. os_rename sample_os d t g \<and> os_chmod sample_os d g" by (auto simp: sample_os_def split: if_splits)
  have v: "\<forall>rec \<in> set [record_construct 0, record_construct 1]. vec_ok (rec_fields rec)" by (simp add: record_construct_def)
  note x = fixed_width_round_trip [of "[(''name'', 4)]" blank_source 0 0 r src len "[[sample_row ''ab''], [sample_row ''wxyz'']]" "\<lambda>s. s = wide_store 4" G "[0]"
    texts "wide_store 4" "''out''" sample_os sample_disk wr d1 "[record_construct 0, record_construct 1]", OF _ _ _ n p t _ _ _ _ o os _ v]
  have r: "r = Good ()" "len = 4" using x by simp_all
  obtain st' d2 wr' d3 rd rs rd' where
    w: "write_rows sample_ext G [0] [[sample_row ''ab''], [sample_row ''wxyz'']] (wide_store 4, wr, d1) = (Good (), st', wr, d2)"
      "contents d2 ''out'' = contents sample_disk ''out''" "fixedwriter_close sample_os (wr, d2) = (Good (), wr', d3)"
    and c: "contents d3 = (contents sample_disk)(''out'' \<mapsto> concat (map (\<lambda>rg. line_of (map snd [(''name'', 4)]) (texts rg)) [[sample_row ''ab''], [sample_row ''wxyz'']]))"
    and rd: "fixedread_open d3 ''out'' \<lparr>r_fixed = fixedread_construct (s_exprs (so_schema src)), r_file_name = ''out'', reclen = len, rec_id = 0, skip_rows = 0, r_eof = False\<rparr> = (Good (), rd)"
      "read_rows (so_exprs src) [record_construct 0, record_construct 1] rd = Good (rs, rd')"
    and f: "map field_texts rs = map (\<lambda>rg. map Some (map2 padded (map snd [(''name'', 4)]) (texts rg))) [[sample_row ''ab''], [sample_row ''wxyz'']]"
    using conjunct2 [OF conjunct2 [OF x [where x = sample_ext]]] by auto
  have c': "contents d2 ''out'' = Some ''old''" "contents d3 ''out'' = Some ''ab  wxyz''" "map field_texts rs = [[Some ''ab  ''], [Some ''wxyz'']]"
    using w(2) c f by (simp_all add: sample_disk_def tx line_of_def padded_def numeral_2_eq_2)
  show ?thesis by (intro exI conjI) (rule p r o w(1) c' w(3) rd)+
qed

section \<open>Processes\<close>

text \<open>
  Property C38. One call of the process of a condition (WHERE, ON, HAVING) takes row groups from
  the front of its input and passes each one on to the output for rows that meet the condition
  or the output for those that do not, in order; a row group without an output is recycled. It
  handles at least one group and stops only behind the last one or when an output has no room.
  The books of records stay exact, so that nothing is lost or handed out twice.
\<close>

theorem condition_process:
  fixes s :: "('f, 're, 'd) pstate"
  assumes "books_ok recs (rootvec_ref p) s (gs @ live) W" "I (pstore s)" "pself s = p" "wired p" "\<not> is_const_proc p"
    and "fifo_in0 p < length (pfifos s)" "fifo_ok (pfifos s ! fifo_in0 p)"
      "fifo_list (pfifos s ! fifo_in0 p) = map head_of gs" "[] \<notin> set gs" "gs \<noteq> []"
    and "out_ok (fifo_out1 p) s" "out_ok (fifo_out0 p) s" "\<not> blocked (fifo_out1 p) s" "\<not> blocked (fifo_out0 p) s"
      "\<forall>i. fifo_out1 p = Some i \<or> fifo_out0 p = Some i \<longrightarrow> is_open (pfifos s ! i)"
    and "\<And>g rows. g \<in> set gs \<Longrightarrow> map plain rows = map (plain \<circ> rec_of (pheap s)) g \<Longrightarrow>
      evaluates I (logicgroup_eval (logic_eval x (expr_getters x rows depth)) jl lg) (P g)"
    and "length gs < fuel"
  shows "\<exists>n ret s' W'. fql_logic x depth fuel lg jl s = (Good ret, s') \<and> 0 < n \<and> n \<le> length gs \<and>
    fifo_list (pfifos s' ! fifo_in0 p) = map head_of (drop n gs) \<and>
    put_out (fifo_out1 p) s' = put_out (fifo_out1 p) s @ put_on (fifo_out1 p) (filter P (take n gs)) \<and>
    put_out (fifo_out0 p) s' = put_out (fifo_out0 p) s @ put_on (fifo_out0 p) (filter (\<lambda>g. \<not> P g) (take n gs)) \<and>
    books_ok recs (rootvec_ref p) s' (drop n gs @ filter (goes_on P (fifo_out1 p) (fifo_out0 p)) (take n gs) @ live) W' \<and>
    (ret = WAIT_ON_IN0 \<and> n = length gs \<or> ret = WAIT_ON_OUT1 \<and> blocked (fifo_out1 p) s' \<or>
     ret = WAIT_ON_OUT0 \<and> blocked (fifo_out0 p) s')"
proof -
  obtain n ret s' where r: "fql_logic x depth fuel lg jl s = (Good ret, s')" "0 < n" "n \<le> length gs"
      "logic_done recs P gs live I s n s'" "ret = WAIT_ON_IN0 \<and> n = length gs \<or> logic_stop p s' ret"
    using fql_logic_spec [where P = P and I = I, OF assms] by blast
  show ?thesis using r(1-3) r(4) [unfolded logic_done_def Let_def assms(3)] r(5) [unfolded logic_stop_def] by blast
qed

theorem condition_process_witness:
  "let st = sample_store\<lparr>logics := [logic_construct\<lparr>lexpr0 := Some 0, logic_call := Some Logic_is_null\<rparr>]\<rparr>;
       s = sample_state [2] [0, 1] [] st sample_process () in
   \<exists>n ret s' W'. fql_logic sample_ext 1 3 (LG_PREDICATE False (Some 0)) None s = (Good ret, s') \<and> 0 < n \<and> n \<le> 2 \<and>
     fifo_list (pfifos s' ! 1) = map head_of (drop n [[0], [1]]) \<and>
     put_out (Some 2) s' = map head_of (take n [[0], [1]]) \<and> put_out None s' = [] \<and>
     books_ok {..<3} [0] s' (drop n [[0], [1]] @ take n [[0], [1]]) W' \<and>
     (ret = WAIT_ON_IN0 \<and> n = 2 \<or> ret = WAIT_ON_OUT1 \<and> blocked (Some 2) s' \<or> ret = WAIT_ON_OUT0 \<and> blocked None s')"
proof -
  define st where "st = sample_store\<lparr>logics := [logic_construct\<lparr>lexpr0 := Some 0, logic_call := Some Logic_is_null\<rparr>]\<rparr>"
  define s where "s = sample_state [2] [0, 1] [] st sample_process ()"
  let ?p = sample_process and ?gs = "[[0], [1]] :: nat list list"
  have p: "fifo_in0 ?p = 1" "fifo_out0 ?p = None" "fifo_out1 ?p = Some 2" "rootvec_ref ?p = [0]" "\<not> is_const_proc ?p" "wired ?p"
    by (simp_all add: sample_process_def wired_def)
  have f: "pfifos s = [sample_fifo [2], sample_fifo [0, 1], sample_fifo []]" "pself s = ?p" "pstore s = st"
    by (simp_all add: s_def sample_state_def)
  have three: "set ([2] @ [0, 1] @ []) = {..<length ([2] @ [0, 1] @ [] :: nat list)}" by auto
  have B: "books_ok {..<3} (rootvec_ref ?p) s (?gs @ []) {}"
    using sample_state_books [OF _ _ three, of st ?p "()"] by (simp add: p s_def numeral_3_eq_3)
  note fs = sample_fifo_spec [of "[2]"] sample_fifo_spec [of "[0, 1]"] sample_fifo_spec [of "[]"]
  have o: "out_ok (Some 2) s" "out_ok None s" "\<not> blocked None s" using f fs by (auto simp: out_ok_def blocked_def)
  then have nb: "\<not> blocked (Some 2) s" using blocked_iff [of 2 s] f fs by simp
  have ev: "evaluates (\<lambda>t. t = st) (logicgroup_eval (logic_eval sample_ext (expr_getters sample_ext rows 1)) None (LG_PREDICATE False (Some 0))) True"
    if g: "g \<in> set ?gs" and r: "map plain rows = map (plain \<circ> rec_of (pheap s)) g" for g rows
  proof -
    have rr: "rec_of (pheap s) a = record_construct 0" if "a < 2" for a
      using that by (auto simp: s_def sample_state_def sample_pipes_def rec_of_def less_2_cases_iff record_construct_def)
    obtain a where a: "g = [a]" "a < 2" using g by auto
    obtain row where row: "rows = [row]" "plain row = plain (record_construct 0)" using r a rr by (cases rows) auto
    have v: "rec_fields row = rec_fields (plain row)" by (simp add: plain_def)
    then have v0: "rec_fields row = vec_construct" unfolding row(2) by (simp add: plain_def record_construct_def)
    have "get_stringview (expr_getters sample_ext rows (Suc 0)) 0 st = (Null (Some (view_of [])), st)"
      using column_stringview [of 0 st 1 0 0 rows sample_ext 0] v0
      by (simp add: st_def sample_store_def sample_exprs_def blank_expression_def row(1) vec_construct_def vec_ok_def)
    then show ?thesis
      by (simp add: evaluates_def logic_eval_def with_logic_def st_def logic_construct_def at_ptr_def call_logic_def fql_logic_is_null_def outA_def)
  qed
  have "\<exists>n ret s' W'. fql_logic sample_ext 1 3 (LG_PREDICATE False (Some 0)) None s = (Good ret, s') \<and> 0 < n \<and> n \<le> length ?gs \<and>
    fifo_list (pfifos s' ! fifo_in0 ?p) = map head_of (drop n ?gs) \<and>
    put_out (fifo_out1 ?p) s' = put_out (fifo_out1 ?p) s @ put_on (fifo_out1 ?p) (filter (\<lambda>_. True) (take n ?gs)) \<and>
    put_out (fifo_out0 ?p) s' = put_out (fifo_out0 ?p) s @ put_on (fifo_out0 ?p) (filter (\<lambda>g. \<not> True) (take n ?gs)) \<and>
    books_ok {..<3} (rootvec_ref ?p) s' (drop n ?gs @ filter (goes_on (\<lambda>_. True) (fifo_out1 ?p) (fifo_out0 ?p)) (take n ?gs) @ []) W' \<and>
    (ret = WAIT_ON_IN0 \<and> n = length ?gs \<or> ret = WAIT_ON_OUT1 \<and> blocked (fifo_out1 ?p) s' \<or>
     ret = WAIT_ON_OUT0 \<and> blocked (fifo_out0 ?p) s')"
  proof (rule condition_process [where I = "\<lambda>t. t = st", OF B])
    show "evaluates (\<lambda>t. t = st) (logicgroup_eval (logic_eval sample_ext (expr_getters sample_ext rows 1)) None (LG_PREDICATE False (Some 0))) True"
      if "g \<in> set ?gs" "map plain rows = map (plain \<circ> rec_of (pheap s)) g" for g rows using ev that by blast
  qed (use f p o nb fs in simp_all)
  moreover have "put_out (Some 2) s = []" "put_out None s = []" using f fs by (simp_all add: put_out_def)
  moreover have "goes_on (\<lambda>_ :: nat list. True) (Some (2 :: nat)) (None :: nat option) = (\<lambda>_. True)" by (simp add: goes_on_def fun_eq_iff)
  ultimately show ?thesis unfolding Let_def st_def [symmetric] s_def [symmetric] by (simp add: p put_on_def numeral_2_eq_2)
qed

section \<open>IF, WHILE and blocks\<close>

text \<open>
  Property C39. Whatever batch of well nested statements is parsed with a handle that has no queries,
  the listener builds its vector of queries, and \<open>fql_exec_plans\<close> on it does for every number
  of plans what the structure of the batch says: IF takes one branch and leaves it behind the
  whole IF, a chain of ELSE IF takes the first branch whose condition holds, WHILE comes back to
  its condition, also within blocks and within each other; the run ends, fails or pauses where
  the structured one does, with the same state. In a well nested batch the body of a WHILE and
  the first branch of an IF with ELSE end in a plain statement, and an ELSE holds an IF or a plain
  statement without subqueries. With a subquery in that statement no such batch is built: the
  assertion of \<open>query_init_op\<close> fails.
\<close>

theorem control_flow:
  assumes "handle_ready h" "\<forall>s\<in>set p. well_nested subs False s" "stmts_width p < 2 ^ 32"
  shows "(\<exists>h'. analyze_query subs p h = Some h' \<and>
      (\<forall>n s. ran (fql_exec_plans run_plan test n h' s) = run_program run_plan test n p s)) \<and>
    (\<forall>c x oper a q. well_nested subs True x \<longrightarrow> oper \<noteq> FQL_IF \<longrightarrow> oper \<noteq> FQL_WHILE \<longrightarrow> 0 < subs a \<longrightarrow>
      analyze_query subs (p @ IfElse c x (Plain oper a) # q) h = None)"
proof -
  obtain h' where "analyze_query subs p h = Some h'" "runnable p h'" using analyze_runnable [OF assms] by blast
  then show ?thesis using exec_follows [of p h' run_plan test] else_subquery_none [OF assms(1,2)] by blast
qed

text \<open>
  A loop over an IF with ELSE IF and a statement, three rounds, and a SELECT with two subqueries
  after it; then such a SELECT in an ELSE.
\<close>

theorem control_flow_witness:
  "let subs = (\<lambda>a. if a = 7 then 2 else 0 :: nat);
     p = [While 0 (Block [IfElse 1 (Plain FQL_SET 2) (IfElse 3 (Plain FQL_SET 4) (Plain FQL_SET 5)), Plain FQL_SET 6]),
       Plain FQL_SELECT 7] in
   (\<exists>h'. analyze_query subs p fql_construct = Some h' \<and>
     ran (fql_exec_plans (\<lambda>a s. (Good (), s @ [a])) (\<lambda>c s. (Good (c \<noteq> 1 \<and> (c = 3 \<or> length s < 3)), s)) 12 h' []) =
       (Good (), True, [4, 6, 4, 6, 7 :: nat])) \<and>
   analyze_query subs (p @ [IfElse 1 (Plain FQL_SET 2) (Plain FQL_SELECT 7)]) fql_construct = None"
proof -
  let ?subs = "\<lambda>a. if a = 7 then 2 else 0 :: nat"
  let ?p = "[While 0 (Block [IfElse 1 (Plain FQL_SET 2) (IfElse 3 (Plain FQL_SET 4) (Plain FQL_SET 5)), Plain FQL_SET 6]),
      Plain FQL_SELECT (7 :: nat)]"
  let ?r = "\<lambda>a s. (Good (), s @ [a])" let ?t = "\<lambda>c s. (Good (c \<noteq> 1 \<and> (c = 3 \<or> length s < 3)), s)"
  have main: "(\<exists>h'. analyze_query ?subs ?p fql_construct = Some h' \<and>
      (\<forall>n s. ran (fql_exec_plans ?r ?t n h' s) = run_program ?r ?t n ?p s)) \<and>
    (\<forall>c x oper a q. well_nested ?subs True x \<longrightarrow> oper \<noteq> FQL_IF \<longrightarrow> oper \<noteq> FQL_WHILE \<longrightarrow> 0 < ?subs a \<longrightarrow>
      analyze_query ?subs (?p @ IfElse c x (Plain oper a) # q) fql_construct = None)"
    by (rule control_flow [OF handle_ready_construct]) (simp_all add: ends_plain_def)
  then obtain h' where h: "analyze_query ?subs ?p fql_construct = Some h'" "ran (fql_exec_plans ?r ?t 12 h' []) = run_program ?r ?t 12 ?p []"
    by blast
  have "run_program ?r ?t 12 ?p [] = (Good (), True, [4, 6, 4, 6, 7])"
    by code_simp
  moreover have "analyze_query ?subs (?p @ [IfElse 1 (Plain FQL_SET 2) (Plain FQL_SELECT 7)]) fql_construct = None"
    by (rule conjunct2 [OF main, rule_format]) simp_all
  ultimately show ?thesis using h unfolding Let_def by (intro conjI exI [of _ h']) simp_all
qed

end
